(* ===== verification/NsPrelude.thy ===== *)
theory NsPrelude
  imports Main "HOL-Library.Signed_Division" "HOL-Library.Multiset"
begin

text \<open>
  The prelude of the development: the fact collections the components share, the part of the C
  language and of its standard library that the modelled sources use (the character classes and
  conversions of \<^verbatim>\<open>ctype.h\<close> in the C locale, \<^verbatim>\<open>strcmp\<close>, \<^verbatim>\<open>strcasecmp\<close>, \<^verbatim>\<open>strchr\<close>,
  \<^verbatim>\<open>strstr\<close>), and generic lemmas on lists. A C string is a \<^typ>\<open>string\<close>
  (the bytes before the terminating NUL); a pointer to a string that may be NULL is a
  \<^typ>\<open>string option\<close>.

  The interface \<open>c_comparator\<close> is what every comparison function of the program promises to its
  clients (the sorted arrays of \<^verbatim>\<open>index.c\<close>, the event heap of \<^verbatim>\<open>sched.c\<close>): on valid operands
  it returns 0, a negative or a positive number and behaves like a total preorder.
\<close>

named_theorems ctype_simps "the definitions of the C character classes and conversions"
named_theorems cmp_defs "the definitions of the comparison functions"

type_synonym cstring = string

datatype Ns_ReturnCode =
    NS_OK | NS_ERROR | NS_TIMEOUT | NS_UNAUTHORIZED | NS_FORBIDDEN | NS_FILTER_BREAK | NS_FILTER_RETURN

subsection \<open>Characters\<close>

abbreviation byte_of :: "char \<Rightarrow> nat" where
  "byte_of c \<equiv> of_char c"

definition c_isupper :: "char \<Rightarrow> bool" where
  "c_isupper c \<longleftrightarrow> 65 \<le> byte_of c \<and> byte_of c \<le> 90"

definition c_islower :: "char \<Rightarrow> bool" where
  "c_islower c \<longleftrightarrow> 97 \<le> byte_of c \<and> byte_of c \<le> 122"

definition c_isdigit :: "char \<Rightarrow> bool" where
  "c_isdigit c \<longleftrightarrow> 48 \<le> byte_of c \<and> byte_of c \<le> 57"

definition c_isspace :: "char \<Rightarrow> bool" where
  "c_isspace c \<longleftrightarrow> byte_of c = 32 \<or> (9 \<le> byte_of c \<and> byte_of c \<le> 13)"

definition c_tolower :: "char \<Rightarrow> char" where
  "c_tolower c = (if c_isupper c then char_of (byte_of c + 32) else c)"

definition c_toupper :: "char \<Rightarrow> char" where
  "c_toupper c = (if c_islower c then char_of (byte_of c - 32) else c)"

lemmas [ctype_simps] =
  c_isupper_def c_islower_def c_isdigit_def c_isspace_def c_tolower_def c_toupper_def

lemma of_char_inject [simp]: "byte_of c = byte_of d \<longleftrightarrow> c = d"
  by (rule of_char_eq_iff)

lemma of_char_less_256: "byte_of c < 256"
  using nat_of_char_less_256 by simp

lemma byte_of_tolower: "c_isupper c \<Longrightarrow> byte_of (c_tolower c) = byte_of c + 32"
  by (simp add: ctype_simps)

lemma c_tolower_not_upper [simp]: "\<not> c_isupper (c_tolower c)"
  by (cases "c_isupper c") (auto simp: c_isupper_def byte_of_tolower c_tolower_def)

lemma c_tolower_idem [simp]: "c_tolower (c_tolower c) = c_tolower c"
  by (simp add: c_tolower_def [of "c_tolower c"])

lemma c_tolower_id: "\<not> c_isupper c \<Longrightarrow> c_tolower c = c"
  by (simp add: c_tolower_def)

subsection \<open>Comparison functions\<close>

locale c_comparator =
  fixes cmp :: "'a \<Rightarrow> 'a \<Rightarrow> int"
    and valid :: "'a \<Rightarrow> bool"
  assumes cmp_same: "valid x \<Longrightarrow> cmp x x = 0"
    and cmp_flip: "valid x \<Longrightarrow> valid y \<Longrightarrow> cmp x y < 0 \<longleftrightarrow> 0 < cmp y x"
    and cmp_trans: "valid x \<Longrightarrow> valid y \<Longrightarrow> valid z \<Longrightarrow>
      cmp x y \<le> 0 \<Longrightarrow> cmp y z \<le> 0 \<Longrightarrow> cmp x z \<le> 0"
begin

lemma cmp_total: "valid x \<Longrightarrow> valid y \<Longrightarrow> cmp x y \<le> 0 \<or> cmp y x \<le> 0"
  using cmp_flip [of x y] by linarith

lemma cmp_zero_flip: "valid x \<Longrightarrow> valid y \<Longrightarrow> cmp x y = 0 \<longleftrightarrow> cmp y x = 0"
  using cmp_flip [of x y] cmp_flip [of y x] by linarith

lemma cmp_le_flip: "valid x \<Longrightarrow> valid y \<Longrightarrow> cmp x y \<le> 0 \<longleftrightarrow> 0 \<le> cmp y x"
  using cmp_flip [of y x] by linarith

lemma cmp_less_trans:
  "valid x \<Longrightarrow> valid y \<Longrightarrow> valid z \<Longrightarrow> cmp x y < 0 \<Longrightarrow> cmp y z \<le> 0 \<Longrightarrow> cmp x z < 0"
  using cmp_flip [of x z] cmp_flip [of x y] cmp_flip [of y x] cmp_trans [of y z x] cmp_flip [of z x]
  by linarith

lemma cmp_less_trans2:
  "valid x \<Longrightarrow> valid y \<Longrightarrow> valid z \<Longrightarrow> cmp x y \<le> 0 \<Longrightarrow> cmp y z < 0 \<Longrightarrow> cmp x z < 0"
  using cmp_flip [of x z] cmp_flip [of y z] cmp_flip [of z y] cmp_trans [of z x y] cmp_flip [of z x]
  by linarith

end

lemma sgn_le_intro: "(a < 0 \<Longrightarrow> b < 0) \<Longrightarrow> (a \<le> 0 \<Longrightarrow> b \<le> 0) \<Longrightarrow> sgn b \<le> sgn (a::int)"
  by (cases "a < 0"; cases "a = 0") (simp_all add: sgn_if)

text \<open>
  \<^verbatim>\<open>strcmp\<close> compares bytes as \<^verbatim>\<open>unsigned char\<close>; the end of a string is the NUL byte, smaller
  than every other. Only the sign of its result is specified, so the model returns the sign.
\<close>

fun strcmp :: "cstring \<Rightarrow> cstring \<Rightarrow> int" where
  "strcmp [] [] = 0"
| "strcmp [] (_ # _) = -1"
| "strcmp (_ # _) [] = 1"
| "strcmp (a # as) (b # bs) =
     (if a = b then strcmp as bs else if byte_of a < byte_of b then -1 else 1)"

definition strcasecmp :: "cstring \<Rightarrow> cstring \<Rightarrow> int" where
  "strcasecmp a b = strcmp (map c_tolower a) (map c_tolower b)"

lemma strcmp_refl [simp]: "strcmp a a = 0"
  by (induction a) auto

lemma strcmp_eq_0_iff [simp]: "strcmp a b = 0 \<longleftrightarrow> a = b"
  by (induction a b rule: strcmp.induct) auto

lemma strcmp_flip: "strcmp b a = - strcmp a b"
  by (induction a b rule: strcmp.induct) (auto dest: linorder_neqE_nat)

lemma strcmp_less_flip: "strcmp a b < 0 \<longleftrightarrow> 0 < strcmp b a"
  using strcmp_flip [of b a] by linarith

lemma strcmp_trans: "strcmp a b \<le> 0 \<Longrightarrow> strcmp b c \<le> 0 \<Longrightarrow> strcmp a c \<le> 0"
proof (induction a b arbitrary: c rule: strcmp.induct)
  case (4 a as b bs)
  then show ?case by (cases c) (auto split: if_splits)
qed (case_tac c; simp)+

interpretation str: c_comparator strcmp "\<lambda>_. True"
  by unfold_locales (simp_all add: strcmp_less_flip strcmp_trans)

interpretation strcase: c_comparator strcasecmp "\<lambda>_. True"
  unfolding strcasecmp_def
  by unfold_locales (simp_all add: strcmp_less_flip strcmp_trans)

lemma strcasecmp_eq_0_iff: "strcasecmp a b = 0 \<longleftrightarrow> map c_tolower a = map c_tolower b"
  by (simp add: strcasecmp_def)

subsection \<open>Searching in strings\<close>

text \<open>\<open>strchr s c\<close> is the offset of the first \<open>c\<close> in \<open>s\<close>, \<open>strstr s t\<close> the suffix at the first
  occurrence of \<open>t\<close>.\<close>

fun strchr :: "cstring \<Rightarrow> char \<Rightarrow> nat option" where
  "strchr [] c = None"
| "strchr (a # as) c = (if a = c then Some 0 else map_option Suc (strchr as c))"

fun starts_with :: "cstring \<Rightarrow> cstring \<Rightarrow> bool" where
  "starts_with s [] = True"
| "starts_with [] (_ # _) = False"
| "starts_with (a # as) (b # bs) = (a = b \<and> starts_with as bs)"

fun strstr :: "cstring \<Rightarrow> cstring \<Rightarrow> cstring option" where
  "strstr [] t = (if t = [] then Some [] else None)"
| "strstr (a # as) t = (if starts_with (a # as) t then Some (a # as) else strstr as t)"

lemma strchr_None_iff: "strchr s c = None \<longleftrightarrow> c \<notin> set s"
  by (induction s) auto

lemma strchr_SomeD:
  "strchr s c = Some i \<Longrightarrow> i < length s \<and> s ! i = c \<and> c \<notin> set (take i s)"
  by (induction s arbitrary: i) (auto split: if_splits)

subsection \<open>Lists\<close>

text \<open>Reading an array: \<open>None\<close> is an access outside of the array.\<close>

definition nth_opt :: "'a list \<Rightarrow> nat \<Rightarrow> 'a option" where
  "nth_opt xs i = (if i < length xs then Some (xs ! i) else None)"

lemma nth_opt_Some_iff [simp]: "nth_opt xs i = Some x \<longleftrightarrow> i < length xs \<and> xs ! i = x"
  by (auto simp: nth_opt_def)

definition insert_at :: "nat \<Rightarrow> 'a \<Rightarrow> 'a list \<Rightarrow> 'a list" where
  "insert_at i x xs = take i xs @ x # drop i xs"

definition delete_at :: "nat \<Rightarrow> 'a list \<Rightarrow> 'a list" where
  "delete_at i xs = take i xs @ drop (Suc i) xs"

lemma length_insert_at [simp]: "length (insert_at i x xs) = Suc (length xs)"
  by (simp add: insert_at_def)

lemma set_insert_at [simp]: "set (insert_at i x xs) = insert x (set xs)"
proof -
  have "set (take i xs @ drop i xs) = set xs" by simp
  then show ?thesis by (auto simp: insert_at_def simp del: append_take_drop_id)
qed

lemma mset_insert_at [simp]: "mset (insert_at i x xs) = add_mset x (mset xs)"
proof -
  have "mset (take i xs @ drop i xs) = mset xs" by simp
  then show ?thesis by (simp add: insert_at_def del: append_take_drop_id)
qed

lemma length_delete_at [simp]: "i < length xs \<Longrightarrow> length (delete_at i xs) = length xs - 1"
  by (simp add: delete_at_def)

lemma nth_delete_at:
  "i < length xs \<Longrightarrow> j < length xs - 1 \<Longrightarrow>
    delete_at i xs ! j = (if j < i then xs ! j else xs ! Suc j)"
  by (auto simp: delete_at_def nth_append)

lemma set_delete_at_subset: "set (delete_at i xs) \<subseteq> set xs"
  by (auto simp: delete_at_def dest: in_set_takeD in_set_dropD)

lemma mset_delete_at: "i < length xs \<Longrightarrow> add_mset (xs ! i) (mset (delete_at i xs)) = mset xs"
proof -
  assume "i < length xs"
  then have "xs = take i xs @ xs ! i # drop (Suc i) xs" by (rule id_take_nth_drop)
  then have "mset xs = mset (take i xs @ xs ! i # drop (Suc i) xs)" by (rule arg_cong)
  then show ?thesis by (simp add: delete_at_def)
qed

lemma sorted_wrt_insert_at:
  assumes "sorted_wrt R xs"
    and "\<And>y. y \<in> set (take i xs) \<Longrightarrow> R y x" and "\<And>y. y \<in> set (drop i xs) \<Longrightarrow> R x y"
  shows "sorted_wrt R (insert_at i x xs)"
proof -
  have "sorted_wrt R (take i xs @ drop i xs)" using assms(1) by simp
  then show ?thesis
    using assms(2,3) by (auto simp: insert_at_def sorted_wrt_append simp del: append_take_drop_id)
qed

lemma sorted_wrt_delete_at: "sorted_wrt R xs \<Longrightarrow> sorted_wrt R (delete_at i xs)"
proof -
  assume "sorted_wrt R xs"
  then have "sorted_wrt R (take i xs @ drop i xs)" by simp
  then have "sorted_wrt R (take i xs)" "sorted_wrt R (drop i xs)"
    "\<forall>x\<in>set (take i xs). \<forall>y\<in>set (drop i xs). R x y"
    by (auto simp only: sorted_wrt_append)
  moreover have "set (drop (Suc i) xs) \<subseteq> set (drop i xs)" by (rule set_drop_subset_set_drop) simp
  moreover have "drop (Suc i) xs = drop 1 (drop i xs)" by simp
  ultimately show ?thesis
    by (auto simp only: delete_at_def sorted_wrt_append intro: sorted_wrt_drop)
qed

text \<open>The first index whose element satisfies a predicate.\<close>

fun find_index :: "('a \<Rightarrow> bool) \<Rightarrow> 'a list \<Rightarrow> nat option" where
  "find_index P [] = None"
| "find_index P (x # xs) = (if P x then Some 0 else map_option Suc (find_index P xs))"

lemma find_index_None_iff: "find_index P xs = None \<longleftrightarrow> (\<forall>x\<in>set xs. \<not> P x)"
  by (induction xs) auto

lemma find_index_SomeD:
  "find_index P xs = Some i \<Longrightarrow> i < length xs \<and> P (xs ! i) \<and> (\<forall>j<i. \<not> P (xs ! j))"
proof (induction xs arbitrary: i)
  case (Cons x xs)
  then show ?case by (auto split: if_splits simp: nth_Cons split: nat.split)
qed simp

lemma find_index_SomeI:
  "i < length xs \<Longrightarrow> P (xs ! i) \<Longrightarrow> (\<forall>j<i. \<not> P (xs ! j)) \<Longrightarrow> find_index P xs = Some i"
proof (induction xs arbitrary: i)
  case (Cons x xs)
  show ?case
  proof (cases i)
    case (Suc k)
    then have "\<not> P x" using Cons.prems(3) by force
    moreover have "\<forall>j<k. \<not> P (xs ! j)" using Cons.prems(3) Suc by force
    ultimately show ?thesis using Cons Suc by simp
  qed (use Cons in simp)
qed simp

lemma find_index_append:
  "find_index P (xs @ ys) =
    (case find_index P xs of Some i \<Rightarrow> Some i
     | None \<Rightarrow> (case find_index P ys of Some j \<Rightarrow> Some (length xs + j) | None \<Rightarrow> None))"
  by (induction xs) (auto split: option.splits)

lemma delete_at_find_index:
  "find_index (\<lambda>y. y = e) xs = Some i \<Longrightarrow> delete_at i xs = remove1 e xs"
  by (induction xs arbitrary: i) (auto simp: delete_at_def split: if_splits)

text \<open>The parts of a string between the occurrences of a separator.\<close>

fun split_on :: "char \<Rightarrow> string \<Rightarrow> string list" where
  "split_on c [] = [[]]"
| "split_on c (x # xs) =
     (if x = c then [] # split_on c xs
      else (x # hd (split_on c xs)) # tl (split_on c xs))"

lemma split_on_nonempty [simp]: "split_on c xs \<noteq> []"
  by (cases xs) auto

lemma split_on_none: "c \<notin> set xs \<Longrightarrow> split_on c xs = [xs]"
  by (induction xs) auto

lemma split_on_append: "c \<notin> set xs \<Longrightarrow> split_on c (xs @ c # ys) = xs # split_on c ys"
  by (induction xs) auto

lemma set_split_on: "w \<in> set (split_on c xs) \<Longrightarrow> set w \<subseteq> set xs"
proof (induction xs arbitrary: w)
  case (Cons x xs)
  have "set (hd (split_on c xs)) \<subseteq> set xs" by (rule Cons.IH) simp
  moreover have "\<forall>v\<in>set (tl (split_on c xs)). set v \<subseteq> set xs"
    using Cons.IH by (cases "split_on c xs") auto
  ultimately show ?case using Cons.prems Cons.IH [of w] by (auto split: if_splits)
qed simp


subsection \<open>Linked lists\<close>

text \<open>
  Following the next pointers \<open>nx\<close> from \<open>p\<close> visits the records \<open>xs\<close> and then stops at \<open>q\<close>; with
  \<open>q = None\<close> it is a complete, NULL terminated list.
\<close>

primrec links :: "('a \<Rightarrow> 'a option) \<Rightarrow> 'a option \<Rightarrow> 'a list \<Rightarrow> 'a option \<Rightarrow> bool" where
  "links nx p [] q \<longleftrightarrow> p = q"
| "links nx p (x # xs) q \<longleftrightarrow> p = Some x \<and> links nx (nx x) xs q"

lemma links_NULL [simp]: "links nx None xs None \<longleftrightarrow> xs = []"
  by (cases xs) auto

lemma links_SomeD: "links nx (Some x) xs None \<Longrightarrow> \<exists>ys. xs = x # ys \<and> links nx (nx x) ys None"
  by (cases xs) auto

lemma links_append: "links nx p (xs @ ys) q \<longleftrightarrow> (\<exists>r. links nx p xs r \<and> links nx r ys q)"
  by (induction xs arbitrary: p) auto

lemma links_other [simp]: "x \<notin> set xs \<Longrightarrow> links (nx(x := v)) p xs q \<longleftrightarrow> links nx p xs q"
  by (induction xs arbitrary: p) auto

lemma links_cong: "(\<And>x. x \<in> set xs \<Longrightarrow> nx x = ny x) \<Longrightarrow> links nx p xs q \<longleftrightarrow> links ny p xs q"
  by (induction xs arbitrary: p) auto

text \<open>Appending through the last record.\<close>

lemma links_snoc:
  assumes "links nx p xs None" "xs \<noteq> []" "distinct xs" "x \<notin> set xs" "nx x = None"
  shows "links (nx(last xs := Some x)) p (xs @ [x]) None"
  using assms
proof (induction xs arbitrary: p)
  case (Cons y ys)
  show ?case
  proof (cases "ys = []")
    case False
    then have "last ys \<in> set ys" by simp
    then have "last ys \<noteq> y" using Cons.prems by auto
    then show ?thesis using Cons False by auto
  qed (use Cons.prems in auto)
qed simp

text \<open>Taking a record out by redirecting the pointer of its predecessor.\<close>

lemma links_bypass:
  assumes "links nx p (xs @ z # y # ys) None" "distinct (xs @ z # y # ys)"
  shows "links (nx(z := nx y)) p (xs @ z # ys) None"
  using assms
proof (induction xs arbitrary: p)
  case Nil
  then show ?case by (auto simp: fun_upd_def[symmetric] links_other)
qed auto

subsection \<open>Counting threads\<close>

text \<open>How many of the first \<open>n\<close> records satisfy a predicate, and the effect of an update.\<close>

definition count_of :: "('a \<Rightarrow> bool) \<Rightarrow> (nat \<Rightarrow> 'a) \<Rightarrow> nat \<Rightarrow> int" where
  "count_of P f n = int (card {i. i < n \<and> P (f i)})"

lemma count_of_upd [simp]:
  assumes "i < n"
  shows "count_of P (f(i := x)) n = count_of P f n - of_bool (P (f i)) + of_bool (P x)"
proof -
  let ?S = "{j. j < n \<and> P (f j)}"
  have fin: "finite ?S" by simp
  have eq: "{j. j < n \<and> P ((f(i := x)) j)} = (if P x then insert i (?S - {i}) else ?S - {i})"
    using assms by auto
  have "int (card (?S - {i})) = int (card ?S) - of_bool (P (f i))"
  proof (cases "P (f i)")
    case True
    then have "card ?S = Suc (card (?S - {i}))" using assms fin by (intro card.remove) auto
    then show ?thesis using True by simp
  qed simp
  then show ?thesis using assms unfolding count_of_def eq by (auto simp: insert_absorb)
qed

lemma count_of_nonneg [simp]: "0 \<le> count_of P f n"
  by (simp add: count_of_def)

lemma count_of_le: "count_of P f n \<le> int n"
proof -
  have "card {i. i < n \<and> P (f i)} \<le> card {..<n}" by (intro card_mono) auto
  then show ?thesis by (simp add: count_of_def)
qed

lemma count_of_pos: "i < n \<Longrightarrow> P (f i) \<Longrightarrow> 0 < count_of P f n"
  by (auto simp: count_of_def card_gt_0_iff)

lemma count_of_zero_iff: "count_of P f n = 0 \<longleftrightarrow> (\<forall>i < n. \<not> P (f i))"
  by (auto simp: count_of_def card_eq_0_iff)

end
