(* ===== verification/NsTime.thy ===== *)
theory NsTime
  imports NsPrelude
begin

text \<open>
  Time values: the model of \<^verbatim>\<open>nsthread/time.c\<close>. An \<^verbatim>\<open>Ns_Time\<close> has a seconds field and a
  microseconds field; a negative value carries its sign in the seconds field (minus 1.5 seconds is
  sec = -1, usec = 500000) or, when the seconds are 0, in the microseconds field. Both fields are
  64-bit in the source; they are modelled as \<^typ>\<open>int\<close>, C division and remainder truncate towards
  zero (\<^verbatim>\<open>sdiv\<close>, \<^verbatim>\<open>smod\<close>). The clock \<^verbatim>\<open>Ns_GetTime\<close> reads the operating system:
  functions that call it take its value as an argument. \<open>time_us\<close> is the value in microseconds that
  a pair of fields stands for, the specification of the arithmetic.
\<close>

record ns_time =
  sec :: int
  usec :: int

abbreviation mk_time :: "int \<Rightarrow> int \<Rightarrow> ns_time" where
  "mk_time s u \<equiv> \<lparr>sec = s, usec = u\<rparr>"

definition Ns_AdjTime :: "ns_time \<Rightarrow> ns_time" where
  "Ns_AdjTime t =
     (if usec t < 0 \<and> sec t > 0 then
        mk_time (sec t + (usec t sdiv 1000000 - 1)) (usec t smod 1000000 + 1000000)
      else if usec t \<ge> 1000000 then
        mk_time (sec t + usec t sdiv 1000000) (usec t smod 1000000)
      else t)"

text \<open>The sign of an operand and its magnitude, as computed twice in \<^verbatim>\<open>Ns_DiffTime\<close>.\<close>

definition time_magnitude :: "ns_time \<Rightarrow> ns_time \<times> bool" where
  "time_magnitude t =
     (if sec t < 0 then (mk_time (- sec t) (usec t), False)
      else if sec t = 0 \<and> usec t < 0 then (mk_time (- sec t) (- usec t), False)
      else (mk_time (sec t) (usec t), True))"

text \<open>The subtraction of magnitudes, \<open>a\<close> minus \<open>b\<close>.\<close>

definition time_subtract :: "ns_time \<Rightarrow> ns_time \<Rightarrow> ns_time" where
  "time_subtract a b =
     (if usec a \<ge> usec b then mk_time (sec a - sec b) (usec a - usec b)
      else if sec a - sec b - 1 < 0 then mk_time (sec b - sec a) (usec b - usec a)
      else mk_time (sec a - sec b - 1) (1000000 + usec a - usec b))"

definition time_before :: "ns_time \<Rightarrow> ns_time \<Rightarrow> bool" where
  "time_before a b \<longleftrightarrow> sec a < sec b \<or> sec a = sec b \<and> usec a < usec b"

definition Ns_DiffTime :: "ns_time \<Rightarrow> ns_time \<Rightarrow> int \<times> ns_time" where
  "Ns_DiffTime t1 t0 =
     (let (t0p, t0pos) = time_magnitude t0;
          (t1p, t1pos) = time_magnitude t1;
          isNegative = (if t1pos then (if t0pos then time_before t1p t0p else False)
                        else (if t0pos then True else time_before t0p t1p));
          diff0 = (if t1pos = t0pos then
                     (if t1pos then
                        (if isNegative then time_subtract t0p t1p else time_subtract t1p t0p)
                      else
                        (if isNegative then time_subtract t1p t0p else time_subtract t0p t1p))
                   else mk_time (sec t0p + sec t1p) (usec t0p + usec t1p));
          diff1 = (if isNegative then
                     (if sec diff0 = 0 then diff0\<lparr>usec := - usec diff0\<rparr>
                      else diff0\<lparr>sec := - sec diff0\<rparr>)
                   else diff0);
          diff = Ns_AdjTime diff1;
          r = (if sec diff < 0 then -1
               else if sec diff = 0 then
                 (if usec diff = 0 then 0 else if usec diff < 0 then -1 else 1)
               else 1)
      in (r, diff))"

definition Ns_IncrTime :: "ns_time \<Rightarrow> int \<Rightarrow> int \<Rightarrow> ns_time" where
  "Ns_IncrTime t s u =
     (if u < 0 \<or> s < 0 then t
      else Ns_AdjTime (t\<lparr>sec := sec t + s, usec := usec t + u\<rparr>))"

text \<open>NULL is infinity: \<open>None\<close>.\<close>

definition Ns_AbsoluteTime :: "ns_time \<Rightarrow> ns_time option \<Rightarrow> ns_time option" where
  "Ns_AbsoluteTime now adj =
     (case adj of
        Some a \<Rightarrow> if sec a < 1000000000 then Some (Ns_IncrTime now (sec a) (usec a)) else adj
      | None \<Rightarrow> adj)"

definition Ns_RelativeTime :: "ns_time \<Rightarrow> ns_time option \<Rightarrow> ns_time option" where
  "Ns_RelativeTime now absolute =
     (case absolute of
        Some a \<Rightarrow> if sec a > 1000000000 then Some (snd (Ns_DiffTime a now)) else absolute
      | None \<Rightarrow> absolute)"

definition Ns_TimeToMilliseconds :: "ns_time \<Rightarrow> int" where
  "Ns_TimeToMilliseconds t =
     (let result = (if sec t \<ge> 0 then sec t * 1000 + usec t sdiv 1000
                    else sec t * 1000 - usec t sdiv 1000)
      in if result = 0 \<and> sec t = 0 \<and> usec t \<noteq> 0 then 1 else result)"

subsection \<open>Values of time fields\<close>

definition time_us :: "ns_time \<Rightarrow> int" where
  "time_us t = (if sec t < 0 then sec t * 1000000 - usec t else sec t * 1000000 + usec t)"

definition time_ok :: "ns_time \<Rightarrow> bool" where
  "time_ok t \<longleftrightarrow> \<bar>usec t\<bar> < 1000000 \<and> (sec t = 0 \<or> 0 \<le> usec t)"

text \<open>Points in time: nonnegative, normalised values, as the clock delivers them.\<close>

definition time_point :: "ns_time \<Rightarrow> bool" where
  "time_point t \<longleftrightarrow> 0 \<le> sec t \<and> 0 \<le> usec t \<and> usec t < 1000000"

lemma time_point_ok [intro]: "time_point t \<Longrightarrow> time_ok t"
  by (auto simp: time_point_def time_ok_def)

lemma sdiv_nonneg: "0 \<le> (a::int) \<Longrightarrow> 0 < b \<Longrightarrow> a sdiv b = a div b"
  by (auto simp: signed_divide_int_def sgn_if)

lemma smod_nonneg: "0 \<le> (a::int) \<Longrightarrow> 0 < b \<Longrightarrow> a smod b = a mod b"
  by (cases "a = 0") (auto simp: signed_modulo_int_def)

lemma sdiv_neg: "(a::int) < 0 \<Longrightarrow> 0 < b \<Longrightarrow> a sdiv b = - ((- a) div b)"
  by (auto simp: signed_divide_int_def sgn_if)

lemma Ns_AdjTime_carry:
  assumes "0 \<le> sec t" "0 \<le> usec t"
  shows "time_point (Ns_AdjTime t) \<and> time_us (Ns_AdjTime t) = time_us t"
  using assms by (auto simp: Ns_AdjTime_def time_point_def time_us_def sdiv_nonneg smod_nonneg)

lemma Ns_AdjTime_id: "usec t < 1000000 \<Longrightarrow> 0 \<le> usec t \<or> sec t \<le> 0 \<Longrightarrow> Ns_AdjTime t = t"
  by (auto simp: Ns_AdjTime_def)

lemma Ns_AdjTime_nonneg:
  assumes "0 \<le> s" "0 \<le> u"
  shows "Ns_AdjTime (mk_time s u) = mk_time (s + u div 1000000) (u mod 1000000)"
  using assms by (auto simp: Ns_AdjTime_def sdiv_nonneg smod_nonneg)

lemma time_us_point: "time_point t \<Longrightarrow> time_us t = sec t * 1000000 + usec t"
  by (simp add: time_point_def time_us_def)

lemma time_magnitude_spec:
  assumes "time_ok t" "time_magnitude t = (m, pos)"
  shows "time_point m" "time_us m = \<bar>time_us t\<bar>" "pos \<longleftrightarrow> 0 \<le> time_us t" "usec m = \<bar>usec t\<bar>"
  using assms by (auto simp: time_magnitude_def time_ok_def time_point_def time_us_def split: if_splits)

lemma time_before_iff:
  "time_point a \<Longrightarrow> time_point b \<Longrightarrow> time_before a b \<longleftrightarrow> time_us a < time_us b"
  by (auto simp: time_before_def time_point_def time_us_def)

lemma time_subtract_spec:
  assumes "time_point a" "time_point b" "time_us b \<le> time_us a"
  shows "time_point (time_subtract a b)" "time_us (time_subtract a b) = time_us a - time_us b"
  using assms by (auto simp: time_subtract_def time_point_def time_us_def)

text \<open>The last steps of \<^verbatim>\<open>Ns_DiffTime\<close>: apply the sign, normalise, read off the sign.\<close>

definition time_negate :: "ns_time \<Rightarrow> ns_time" where
  "time_negate d = (if sec d = 0 then d\<lparr>usec := - usec d\<rparr> else d\<lparr>sec := - sec d\<rparr>)"

definition time_sign :: "ns_time \<Rightarrow> int" where
  "time_sign d =
     (if sec d < 0 then -1
      else if sec d = 0 then (if usec d = 0 then 0 else if usec d < 0 then -1 else 1)
      else 1)"

lemma time_sign_spec: "time_ok d \<Longrightarrow> time_sign d = sgn (time_us d)"
  by (auto simp: time_sign_def time_ok_def time_us_def sgn_if)

lemma time_negate_spec:
  assumes "time_point d"
  shows "Ns_AdjTime (time_negate d) = time_negate d" "time_us (time_negate d) = - time_us d"
    "time_ok (time_negate d)"
  using assms by (auto simp: time_negate_def time_point_def time_us_def time_ok_def Ns_AdjTime_id)

lemma Ns_AdjTime_point: "time_point d \<Longrightarrow> Ns_AdjTime d = d"
  by (simp add: time_point_def Ns_AdjTime_id)

lemma Ns_DiffTime_cases:
  assumes "time_magnitude t1 = (m1, p1)" "time_magnitude t0 = (m0, p0)"
  shows "Ns_DiffTime t1 t0 =
    (let sum = mk_time (sec m0 + sec m1) (usec m0 + usec m1);
         d = Ns_AdjTime
          (if p1 then
             if p0 then if time_before m1 m0 then time_negate (time_subtract m0 m1)
                        else time_subtract m1 m0
             else sum
           else
             if p0 then time_negate sum
             else if time_before m0 m1 then time_negate (time_subtract m1 m0)
                  else time_subtract m0 m1)
     in (time_sign d, d))"
  using assms by (auto simp: Ns_DiffTime_def time_negate_def time_sign_def Let_def)

lemma difftime_value:
  assumes "time_ok t1" "time_ok t0"
    and "time_us t1 < 0 \<and> 0 \<le> time_us t0 \<longrightarrow> \<bar>usec t1\<bar> + \<bar>usec t0\<bar> < 1000000"
  obtains d where "Ns_DiffTime t1 t0 = (time_sign d, d)" "time_ok d"
    "time_us d = time_us t1 - time_us t0"
proof -
  obtain m1 p1 where m1: "time_magnitude t1 = (m1, p1)" by fastforce
  obtain m0 p0 where m0: "time_magnitude t0 = (m0, p0)" by fastforce
  note s1 = time_magnitude_spec [OF assms(1) m1] and s0 = time_magnitude_spec [OF assms(2) m0]
  define sum where "sum = mk_time (sec m0 + sec m1) (usec m0 + usec m1)"
  have sum_ok: "0 \<le> sec sum" "0 \<le> usec sum" "time_us sum = time_us m0 + time_us m1"
    using s1(1) s0(1) by (simp_all add: sum_def time_point_def time_us_point [OF s1(1)] time_us_point [OF s0(1)] time_us_def)
  have sum_point: "time_point sum" if "\<not> p1" "p0"
    using that s1(1,3,4) s0(1,3,4) assms(3) by (simp add: sum_def time_point_def)
  note cases = Ns_DiffTime_cases [OF m1 m0, folded sum_def]
  note specs = time_before_iff [OF s1(1) s0(1)] time_before_iff [OF s0(1) s1(1)]
    time_subtract_spec [OF s1(1) s0(1)] time_subtract_spec [OF s0(1) s1(1)]
  consider (sum) "p1" "\<not> p0" | (neg_sum) "\<not> p1" "p0"
    | (pp) "p1" "p0" | (nn) "\<not> p1" "\<not> p0" by blast
  then show thesis
  proof cases
    case sum
    then show thesis
      using that [of "Ns_AdjTime sum"] cases Ns_AdjTime_carry [OF sum_ok(1,2)] sum_ok(3) s1 s0
      by (simp add: Let_def time_point_ok)
  next
    case neg_sum
    then show thesis
      using that [of "time_negate sum"] cases sum_ok sum_point s1 s0 time_negate_spec [of sum]
      by (simp add: Let_def)
  next
    case pp
    then show thesis
      using that [of "time_negate (time_subtract m0 m1)"] that [of "time_subtract m1 m0"]
        cases specs s1(2,3) s0(2,3) time_negate_spec [of "time_subtract m0 m1"]
      by (cases "time_before m1 m0") (simp_all add: Let_def time_point_ok Ns_AdjTime_point)
  next
    case nn
    then show thesis
      using that [of "time_negate (time_subtract m1 m0)"] that [of "time_subtract m0 m1"]
        cases specs s1(2,3) s0(2,3) time_negate_spec [of "time_subtract m1 m0"]
      by (cases "time_before m0 m1") (simp_all add: Let_def time_point_ok Ns_AdjTime_point)
  qed
qed

text \<open>
  \<^verbatim>\<open>Ns_DiffTime\<close> computes the signed difference: for normalised operands the stored
  difference has the value t1 - t0 and the result of the call is its sign, provided that a
  subtraction of a nonnegative from a negative value does not carry from the microseconds into the
  seconds.
\<close>

theorem Ns_DiffTime_correct:
  assumes "time_ok t1" "time_ok t0"
    and "time_us t1 < 0 \<and> 0 \<le> time_us t0 \<longrightarrow> \<bar>usec t1\<bar> + \<bar>usec t0\<bar> < 1000000"
  shows "time_us (snd (Ns_DiffTime t1 t0)) = time_us t1 - time_us t0 \<and>
    fst (Ns_DiffTime t1 t0) = sgn (time_us t1 - time_us t0)"
  by (rule difftime_value [OF assms]) (simp add: time_sign_spec)

theorem Ns_DiffTime_correct_witness:
  "time_us (snd (Ns_DiffTime (mk_time 13 200000) (mk_time (-10) 900000))) = 24100000 \<and>
   fst (Ns_DiffTime (mk_time 13 200000) (mk_time (-10) 900000)) = 1"
  using Ns_DiffTime_correct [of "mk_time 13 200000" "mk_time (-10) 900000"]
  by (simp add: time_ok_def time_us_def)

text \<open>
  The proviso is needed. Subtracting 1.6 from -0.6 gives {-1, 1200000}, which the normalisation
  carries in the wrong direction to {0, 200000}: the difference is reported as positive.
\<close>

lemma Ns_DiffTime_lost_carry:
  "Ns_DiffTime (mk_time 0 (-600000)) (mk_time 1 600000) = (1, mk_time 0 200000)"
  by (simp add: Ns_DiffTime_def time_magnitude_def Ns_AdjTime_def sdiv_nonneg smod_nonneg)

text \<open>A negative multiple of a second in the microseconds field is not normalised to [0, 1000000).\<close>

lemma Ns_AdjTime_not_normalised: "Ns_AdjTime (mk_time 5 (-1000000)) = mk_time 3 1000000"
  by (simp add: Ns_AdjTime_def sdiv_neg signed_modulo_int_def)

subsection \<open>Comparing points in time\<close>

definition cmp_time :: "ns_time \<Rightarrow> ns_time \<Rightarrow> int" where
  "cmp_time a b = fst (Ns_DiffTime a b)"

lemma time_us_nonneg: "time_point t \<Longrightarrow> 0 \<le> time_us t"
  by (auto simp: time_point_def time_us_def)

lemma cmp_time_points:
  assumes "time_point a" "time_point b"
  shows "cmp_time a b = sgn (time_us a - time_us b)"
  by (rule difftime_value [of a b])
    (use assms time_us_nonneg [OF assms(1)] in \<open>auto simp: cmp_time_def time_sign_spec\<close>)

interpretation timecmp: c_comparator cmp_time time_point
  by unfold_locales (auto simp: cmp_time_points sgn_if split: if_splits)

end
