(* ===== verification/NsIndex.thy ===== *)
theory NsIndex
  imports NsPrelude
begin

text \<open>
  Sorted arrays: the model of \<^verbatim>\<open>nsd/index.c\<close>. An \<^verbatim>\<open>Ns_Index\<close> is an array of pointers kept in
  the order of a comparison function, with a second function that compares a search key with an
  element. The record keeps the used part of the array (\<open>el\<close>; the source's counter \<^verbatim>\<open>n\<close> is
  its length), the allocated number of slots \<open>max_slots\<close> and the growth increment \<open>inc\<close>. A store
  behind the allocated slots is a failure of the model (\<open>None\<close>), so that memory safety of
  \<^verbatim>\<open>Ns_IndexAdd\<close> is a theorem. An element stands for the pointer and for what it points to;
  a NULL result is \<open>None\<close>.

  The interface \<open>index_order\<close> is what the index asks of its two comparison functions; the facts about
  lookup and insertion are proved there once and used by the string and integer indexes here and by
  the URL space.
\<close>

record ('k, 'a) ns_index =
  el :: "'a list"
  max_slots :: nat
  inc :: nat
  CmpEls :: "'a \<Rightarrow> 'a \<Rightarrow> int"
  CmpKeyWithEl :: "'k \<Rightarrow> 'a \<Rightarrow> int"

definition index_n :: "('k, 'a) ns_index \<Rightarrow> nat" where
  "index_n ix = length (el ix)"

definition Ns_IndexInit ::
    "nat \<Rightarrow> ('a \<Rightarrow> 'a \<Rightarrow> int) \<Rightarrow> ('k \<Rightarrow> 'a \<Rightarrow> int) \<Rightarrow> ('k, 'a) ns_index" where
  "Ns_IndexInit i cmpEls cmpKey =
     \<lparr>el = [], max_slots = i, inc = i, CmpEls = cmpEls, CmpKeyWithEl = cmpKey\<rparr>"

definition Ns_IndexTrunc :: "('k, 'a) ns_index \<Rightarrow> ('k, 'a) ns_index" where
  "Ns_IndexTrunc ix = ix\<lparr>el := [], max_slots := inc ix\<rparr>"

text \<open>The copied pointers share the elements, as the copied values do here.\<close>

definition Ns_IndexDup :: "('k, 'a) ns_index \<Rightarrow> ('k, 'a) ns_index" where
  "Ns_IndexDup ix =
     \<lparr>el = take (index_n ix) (el ix), max_slots = max_slots ix, inc = inc ix,
      CmpEls = CmpEls ix, CmpKeyWithEl = CmpKeyWithEl ix\<rparr>"

text \<open>The C library's \<^verbatim>\<open>bsearch\<close>: the position of an element that compares equal to the key.\<close>

function bsearch :: "('a \<Rightarrow> int) \<Rightarrow> 'a list \<Rightarrow> nat \<Rightarrow> nat \<Rightarrow> nat option" where
  "bsearch f xs l u =
     (if l < u then
        let idx = (l + u) div 2 in
        if f (xs ! idx) < 0 then bsearch f xs l idx
        else if f (xs ! idx) > 0 then bsearch f xs (idx + 1) u
        else Some idx
      else None)"
  by pat_completeness auto
termination by (relation "measure (\<lambda>(f, xs, l, u). u - l)") auto

declare bsearch.simps [simp del]

definition Ns_IndexFind :: "('k, 'a) ns_index \<Rightarrow> 'k \<Rightarrow> 'a option" where
  "Ns_IndexFind ix key =
     (case bsearch (CmpKeyWithEl ix key) (el ix) 0 (index_n ix) of
        Some i \<Rightarrow> Some (el ix ! i)
      | None \<Rightarrow> None)"

text \<open>
  \<^verbatim>\<open>BinSearch\<close> and \<^verbatim>\<open>BinSearchKey\<close> are the same loop; \<open>f\<close> is the comparison function applied
  to the sought element or key. The variables \<^verbatim>\<open>low\<close>, \<^verbatim>\<open>high\<close> and \<^verbatim>\<open>mid\<close> are signed.
\<close>

function BinSearch_loop :: "('a \<Rightarrow> int) \<Rightarrow> 'a list \<Rightarrow> int \<Rightarrow> int \<Rightarrow> int \<Rightarrow> int" where
  "BinSearch_loop f xs low high mid =
     (if low \<le> high then
        let mid' = (low + high) div 2; cond = f (xs ! nat mid') in
        if cond < 0 then BinSearch_loop f xs low (mid' - 1) mid'
        else if cond > 0 then BinSearch_loop f xs (mid' + 1) high mid'
        else mid'
      else if high < mid then mid else low)"
  by pat_completeness auto
termination by (relation "measure (\<lambda>(f, xs, low, high, mid). nat (high - low + 1))") auto

declare BinSearch_loop.simps [simp del]

definition BinSearch :: "'a \<Rightarrow> 'a list \<Rightarrow> int \<Rightarrow> ('a \<Rightarrow> 'a \<Rightarrow> int) \<Rightarrow> int" where
  "BinSearch e xs n cmpProc = BinSearch_loop (cmpProc e) xs 0 (n - 1) 0"

definition BinSearchKey :: "'k \<Rightarrow> 'a list \<Rightarrow> int \<Rightarrow> ('k \<Rightarrow> 'a \<Rightarrow> int) \<Rightarrow> int" where
  "BinSearchKey key xs n cmpProc = BinSearch_loop (cmpProc key) xs 0 (n - 1) 0"

definition Ns_IndexFindInf :: "('k, 'a) ns_index \<Rightarrow> 'k \<Rightarrow> 'a option" where
  "Ns_IndexFindInf ix key =
     (if index_n ix > 0 then
        let i = BinSearchKey key (el ix) (int (index_n ix)) (CmpKeyWithEl ix) in
        if i < int (index_n ix) then
          if i > 0 \<and> CmpKeyWithEl ix key (el ix ! nat i) \<noteq> 0
          then Some (el ix ! nat (i - 1))
          else Some (el ix ! nat i)
        else None
      else None)"

text \<open>The linear searches of \<^verbatim>\<open>Ns_IndexFindMultiple\<close>: back to the first match, forward over
  all matches.\<close>

fun first_match :: "('a \<Rightarrow> int) \<Rightarrow> 'a list \<Rightarrow> nat \<Rightarrow> nat" where
  "first_match f xs 0 = 0"
| "first_match f xs (Suc i) = (if f (xs ! i) = 0 then first_match f xs i else Suc i)"

definition count_matches :: "('a \<Rightarrow> int) \<Rightarrow> 'a list \<Rightarrow> nat" where
  "count_matches f ys = length (takeWhile (\<lambda>y. f y = 0) ys)"

definition Ns_IndexFindMultiple :: "('k, 'a) ns_index \<Rightarrow> 'k \<Rightarrow> 'a list option" where
  "Ns_IndexFindMultiple ix key =
     (let f = CmpKeyWithEl ix key in
      case bsearch f (el ix) 0 (index_n ix) of
        None \<Rightarrow> None
      | Some p \<Rightarrow>
          let firstp = first_match f (el ix) p;
              n = index_n ix - firstp;
              i = 1 + count_matches f (take (n - 1) (drop (firstp + 1) (el ix)))
          in Some (take i (drop firstp (el ix))))"

text \<open>
  Insertion first makes room (growing by the increment when full), then searches the position and
  moves the tail up by one. The store behind the used part needs an allocated slot.
\<close>

definition index_grow :: "('k, 'a) ns_index \<Rightarrow> ('k, 'a) ns_index" where
  "index_grow ix =
     (if index_n ix = max_slots ix then ix\<lparr>max_slots := max_slots ix + inc ix\<rparr>
      else if max_slots ix = 0 then ix\<lparr>max_slots := inc ix\<rparr>
      else ix)"

definition add_pos :: "('a \<Rightarrow> 'a \<Rightarrow> int) \<Rightarrow> 'a \<Rightarrow> 'a list \<Rightarrow> nat" where
  "add_pos cmp e xs = (if length xs > 0 then nat (BinSearch e xs (int (length xs)) cmp) else 0)"

definition Ns_IndexAdd :: "('k, 'a) ns_index \<Rightarrow> 'a \<Rightarrow> ('k, 'a) ns_index option" where
  "Ns_IndexAdd ix e =
     (let ix = index_grow ix in
      if index_n ix < max_slots ix then
        Some (ix\<lparr>el := insert_at (add_pos (CmpEls ix) e (el ix)) e (el ix)\<rparr>)
      else None)"

text \<open>Deletion compares pointers; only the first occurrence is removed.\<close>

definition Ns_IndexDel :: "('k, 'a) ns_index \<Rightarrow> 'a \<Rightarrow> ('k, 'a) ns_index" where
  "Ns_IndexDel ix e =
     (case find_index (\<lambda>y. y = e) (el ix) of
        Some i \<Rightarrow> ix\<lparr>el := delete_at i (el ix)\<rparr>
      | None \<Rightarrow> ix)"

definition Ns_IndexEl :: "('k, 'a) ns_index \<Rightarrow> nat \<Rightarrow> 'a option" where
  "Ns_IndexEl ix i = nth_opt (el ix) i"

definition CmpStr :: "cstring \<Rightarrow> cstring \<Rightarrow> int" where
  "CmpStr l r = strcmp l r"

definition CmpKeyWithStr :: "cstring \<Rightarrow> cstring \<Rightarrow> int" where
  "CmpKeyWithStr key e = strcmp key e"

definition Ns_IndexStringInit :: "nat \<Rightarrow> (cstring, cstring) ns_index" where
  "Ns_IndexStringInit i = Ns_IndexInit i CmpStr CmpKeyWithStr"

text \<open>\<^verbatim>\<open>ns_strdup\<close> copies the string: a value of the model is its own copy.\<close>

definition Ns_IndexStringDup :: "(cstring, cstring) ns_index \<Rightarrow> (cstring, cstring) ns_index" where
  "Ns_IndexStringDup ix =
     \<lparr>el = map (\<lambda>s. s) (el ix), max_slots = max_slots ix, inc = inc ix,
      CmpEls = CmpEls ix, CmpKeyWithEl = CmpKeyWithEl ix\<rparr>"

fun index_add_all :: "('k, 'a) ns_index \<Rightarrow> 'a list \<Rightarrow> ('k, 'a) ns_index option" where
  "index_add_all ix [] = Some ix"
| "index_add_all ix (e # es) =
     (case Ns_IndexAdd ix e of Some ix' \<Rightarrow> index_add_all ix' es | None \<Rightarrow> None)"

definition Ns_IndexStringAppend ::
    "(cstring, cstring) ns_index \<Rightarrow> (cstring, cstring) ns_index \<Rightarrow> (cstring, cstring) ns_index option" where
  "Ns_IndexStringAppend addto addfrom = index_add_all addto (el addfrom)"

definition Ns_IndexStringTrunc :: "(cstring, cstring) ns_index \<Rightarrow> (cstring, cstring) ns_index" where
  "Ns_IndexStringTrunc ix = Ns_IndexTrunc ix"

definition CmpInts :: "int \<Rightarrow> int \<Rightarrow> int" where
  "CmpInts left right = (if left = right then 0 else if left < right then -1 else 1)"

definition CmpKeyWithInt :: "int \<Rightarrow> int \<Rightarrow> int" where
  "CmpKeyWithInt key element = (if key = element then 0 else if key < element then -1 else 1)"

definition Ns_IndexIntInit :: "nat \<Rightarrow> (int, int) ns_index" where
  "Ns_IndexIntInit i = Ns_IndexInit i CmpInts CmpKeyWithInt"

lemmas index_cmp_defs [cmp_defs] = CmpStr_def CmpKeyWithStr_def CmpInts_def CmpKeyWithInt_def

subsection \<open>Binary search over a descending sign\<close>

text \<open>
  All that the searches need: along the array, the sign of \<open>f\<close> never increases (first the elements
  smaller than the sought one, then the equal ones, then the larger ones).
\<close>

definition sign_desc :: "('a \<Rightarrow> int) \<Rightarrow> 'a list \<Rightarrow> bool" where
  "sign_desc f xs \<longleftrightarrow> sorted_wrt (\<lambda>x y. sgn (f y) \<le> sgn (f x)) xs"

lemma sign_desc_nth:
  "sign_desc f xs \<Longrightarrow> i \<le> j \<Longrightarrow> j < length xs \<Longrightarrow> sgn (f (xs ! j)) \<le> sgn (f (xs ! i))"
  unfolding sign_desc_def
  using sorted_wrt_nth_less [of "\<lambda>x y. sgn (f y) \<le> sgn (f x)" xs i j] by (cases "i = j") auto

lemma sign_desc_pos: "sign_desc f xs \<Longrightarrow> i \<le> j \<Longrightarrow> j < length xs \<Longrightarrow> 0 < f (xs ! j) \<Longrightarrow> 0 < f (xs ! i)"
  using sign_desc_nth [of f xs i j] by (auto simp: sgn_if split: if_splits)

lemma sign_desc_neg: "sign_desc f xs \<Longrightarrow> i \<le> j \<Longrightarrow> j < length xs \<Longrightarrow> f (xs ! i) < 0 \<Longrightarrow> f (xs ! j) < 0"
  using sign_desc_nth [of f xs i j] by (auto simp: sgn_if split: if_splits)

lemma sign_desc_nonneg:
  "sign_desc f xs \<Longrightarrow> i \<le> j \<Longrightarrow> j < length xs \<Longrightarrow> 0 \<le> f (xs ! j) \<Longrightarrow> 0 \<le> f (xs ! i)"
  using sign_desc_neg [of f xs i j] by linarith

lemma sign_desc_nonpos:
  "sign_desc f xs \<Longrightarrow> i \<le> j \<Longrightarrow> j < length xs \<Longrightarrow> f (xs ! i) \<le> 0 \<Longrightarrow> f (xs ! j) \<le> 0"
  using sign_desc_pos [of f xs i j] by linarith

lemma BinSearch_loop_spec:
  assumes "sign_desc f xs" and "0 \<le> low" "low \<le> high + 1" "high < int (length xs)"
    and "\<forall>j<nat low. 0 \<le> f (xs ! j)" and "\<forall>j<length xs. high < int j \<longrightarrow> f (xs ! j) \<le> 0"
    and "high + 1 = low \<longrightarrow> (if high < mid then mid = low else True)"
  shows "\<exists>i. BinSearch_loop f xs low high mid = int i \<and> i \<le> length xs \<and>
    (\<forall>j<i. 0 \<le> f (xs ! j)) \<and> (\<forall>j. i \<le> j \<longrightarrow> j < length xs \<longrightarrow> f (xs ! j) \<le> 0)"
  using assms
proof (induction f xs low high mid rule: BinSearch_loop.induct)
  case (1 f xs low high mid)
  note IH = 1 and desc = 1(3)
  show ?case
  proof (cases "low \<le> high")
    case False
    with IH(5) have "high + 1 = low" by simp
    then have "BinSearch_loop f xs low high mid = low"
      using False IH(9) by (simp add: BinSearch_loop.simps [of f xs low high mid] split: if_splits)
    then show ?thesis
      using IH(4,6,7,8) \<open>high + 1 = low\<close> by (intro exI [of _ "nat low"]) auto
  next
    case True
    define m where "m = (low + high) div 2"
    have m: "low \<le> m" "m \<le> high" "nat m < length xs" "0 \<le> m"
      using True IH(4,6) by (auto simp: m_def)
    have unfold: "BinSearch_loop f xs low high mid =
      (if f (xs ! nat m) < 0 then BinSearch_loop f xs low (m - 1) m
       else if 0 < f (xs ! nat m) then BinSearch_loop f xs (m + 1) high m else m)"
      using True by (simp add: BinSearch_loop.simps [of f xs low high mid] m_def Let_def)
    consider "f (xs ! nat m) < 0" | "0 < f (xs ! nat m)" | "f (xs ! nat m) = 0" by linarith
    then show ?thesis
    proof cases
      case 1
      have "\<forall>j<length xs. m - 1 < int j \<longrightarrow> f (xs ! j) \<le> 0"
        using 1 sign_desc_neg [OF desc, of "nat m"] by (auto simp: nat_le_iff intro: less_imp_le)
      then show ?thesis
        using IH(1) [OF True m_def refl] 1 m IH(3-8) by (simp add: unfold m_def)
    next
      case 2
      have "\<forall>j<nat (m + 1). 0 \<le> f (xs ! j)"
        using 2 m sign_desc_pos [OF desc _ m(3)] by (force simp: nat_add_distrib less_Suc_eq_le)
      then show ?thesis
        using IH(2) [OF True m_def refl] 2 m IH(3-8) by (simp add: unfold m_def)
    next
      case 3
      have "\<forall>j<nat m. 0 \<le> f (xs ! j)" "\<forall>j. nat m \<le> j \<longrightarrow> j < length xs \<longrightarrow> f (xs ! j) \<le> 0"
        using 3 sign_desc_nonneg [OF desc _ m(3)] sign_desc_nonpos [OF desc, of "nat m"]
        by auto
      then show ?thesis
        using 3 m by (intro exI [of _ "nat m"]) (auto simp: unfold)
    qed
  qed
qed

lemma BinSearch_spec:
  assumes "sign_desc f xs"
  shows "\<exists>i. BinSearch_loop f xs 0 (int (length xs) - 1) 0 = int i \<and> i \<le> length xs \<and>
    (\<forall>j<i. 0 \<le> f (xs ! j)) \<and> (\<forall>j. i \<le> j \<longrightarrow> j < length xs \<longrightarrow> f (xs ! j) \<le> 0)"
  using BinSearch_loop_spec [OF assms, of 0 "int (length xs) - 1" 0] by auto

lemma bsearch_SomeD:
  "bsearch f xs l u = Some i \<Longrightarrow> l \<le> i \<and> i < u \<and> f (xs ! i) = 0"
proof (induction f xs l u rule: bsearch.induct)
  case (1 f xs l u)
  show ?case
    using 1 by (auto simp: bsearch.simps [of f xs l u] Let_def split: if_splits)
qed

lemma bsearch_NoneD:
  assumes "sign_desc f xs" "u \<le> length xs" "bsearch f xs l u = None" "l \<le> j" "j < u"
  shows "f (xs ! j) \<noteq> 0"
  using assms
proof (induction f xs l u rule: bsearch.induct)
  case (1 f xs l u)
  define m where "m = (l + u) div 2"
  have "l < u" using "1.prems" by simp
  then have m: "l \<le> m" "m < u" "m < length xs" using "1.prems" by (auto simp: m_def)
  consider "f (xs ! m) < 0" | "0 < f (xs ! m)"
    using "1.prems"(3) \<open>l < u\<close>
    by (auto simp: bsearch.simps [of f xs l u] m_def [symmetric] Let_def split: if_splits)
  then show ?case
  proof cases
    case left: 1
    then show ?thesis
      using "1.IH"(1) [OF \<open>l < u\<close> m_def left] "1.prems" m sign_desc_neg [OF "1.prems"(1), of m j]
        \<open>l < u\<close>
      by (cases "m \<le> j") (auto simp: bsearch.simps [of f xs l u] m_def [symmetric] Let_def)
  next
    case right: 2
    then have "\<not> f (xs ! m) < 0" by simp
    with right show ?thesis
      using "1.IH"(2) [OF \<open>l < u\<close> m_def _ right] "1.prems" m
        sign_desc_pos [OF "1.prems"(1), of j m] \<open>l < u\<close>
      by (cases "j \<le> m") (auto simp: bsearch.simps [of f xs l u] m_def [symmetric] Let_def)
  qed
qed

lemma first_match_spec:
  assumes "sign_desc f xs" "p < length xs" "f (xs ! p) = 0"
  shows "first_match f xs p \<le> p \<and> f (xs ! first_match f xs p) = 0 \<and>
    (\<forall>j < first_match f xs p. 0 < f (xs ! j))"
  using assms(2,3)
proof (induction p)
  case (Suc p)
  show ?case
  proof (cases "f (xs ! p) = 0")
    case False
    have "0 \<le> f (xs ! p)" using sign_desc_nonneg [OF assms(1), of p "Suc p"] Suc.prems by simp
    with False have "0 < f (xs ! p)" by simp
    then have "\<forall>j<Suc p. 0 < f (xs ! j)"
      using sign_desc_pos [OF assms(1)] Suc.prems by (simp add: less_Suc_eq_le)
    with False Suc.prems show ?thesis by simp
  qed (use Suc in auto)
qed simp

lemma filter_sign_desc:
  assumes "sign_desc f xs" "\<forall>x\<in>set xs. f x \<le> 0"
  shows "takeWhile (\<lambda>y. f y = 0) xs = filter (\<lambda>y. f y = 0) xs"
  using assms
proof (induction xs)
  case (Cons x xs)
  show ?case
  proof (cases "f x = 0")
    case False
    then have "f x < 0" using Cons.prems(2) by force
    then have "\<forall>y\<in>set xs. sgn (f y) \<le> -1" using Cons.prems(1) by (auto simp: sign_desc_def)
    then have "\<forall>y\<in>set xs. f y \<noteq> 0" by force
    with False show ?thesis by simp
  qed (use Cons in \<open>auto simp: sign_desc_def\<close>)
qed simp

subsection \<open>The contract between an index and its comparison functions\<close>

text \<open>Where a new element goes depends on the order of the elements alone.\<close>

context c_comparator
begin

lemma sign_desc_el:
  assumes "sorted_wrt (\<lambda>x y. cmp x y \<le> 0) xs" "\<forall>x\<in>set xs. valid x" "valid e"
  shows "sign_desc (cmp e) xs"
proof -
  have "sgn (cmp e y) \<le> sgn (cmp e x)" if "x \<in> set xs" "y \<in> set xs" "cmp x y \<le> 0" for x y
    using that assms(2,3) cmp_less_trans [of e x y] cmp_trans [of e x y]
    by (intro sgn_le_intro) auto
  then show ?thesis
    using assms(1) unfolding sign_desc_def by (elim sorted_wrt_mono_rel [rotated]) simp
qed

lemma add_pos_le:
  assumes "sorted_wrt (\<lambda>x y. cmp x y \<le> 0) xs" "\<forall>x\<in>set xs. valid x" "valid e"
  shows "add_pos cmp e xs \<le> length xs \<and>
    (\<forall>j < add_pos cmp e xs. cmp (xs ! j) e \<le> 0) \<and>
    (\<forall>j. add_pos cmp e xs \<le> j \<longrightarrow> j < length xs \<longrightarrow> cmp e (xs ! j) \<le> 0)"
proof (cases "xs = []")
  case False
  obtain i where "BinSearch e xs (int (length xs)) cmp = int i" "i \<le> length xs"
    "\<forall>j<i. 0 \<le> cmp e (xs ! j)" "\<forall>j. i \<le> j \<longrightarrow> j < length xs \<longrightarrow> cmp e (xs ! j) \<le> 0"
    using BinSearch_spec [OF sign_desc_el [OF assms]] unfolding BinSearch_def by blast
  with False assms(2,3) show ?thesis
    by (auto simp: add_pos_def cmp_le_flip)
qed (simp add: add_pos_def)

lemma sorted_insert:
  assumes "sorted_wrt (\<lambda>x y. cmp x y \<le> 0) xs" "\<forall>x\<in>set xs. valid x" "valid e"
  shows "sorted_wrt (\<lambda>x y. cmp x y \<le> 0) (insert_at (add_pos cmp e xs) e xs)"
  using add_pos_le [OF assms] assms(1)
  by (intro sorted_wrt_insert_at) (auto simp: in_set_conv_nth)

end

locale index_order = c_comparator cmp valid
  for cmp :: "'a \<Rightarrow> 'a \<Rightarrow> int" and valid :: "'a \<Rightarrow> bool" +
  fixes cmpkey :: "'k \<Rightarrow> 'a \<Rightarrow> int"
  assumes key_mono: "valid x \<Longrightarrow> valid y \<Longrightarrow> cmp x y \<le> 0 \<Longrightarrow> sgn (cmpkey k y) \<le> sgn (cmpkey k x)"
begin

lemma sign_desc_key:
  assumes "sorted_wrt (\<lambda>x y. cmp x y \<le> 0) xs" "\<forall>x\<in>set xs. valid x"
  shows "sign_desc (cmpkey k) xs"
  using assms unfolding sign_desc_def
  by (elim sorted_wrt_mono_rel [rotated]) (simp add: key_mono)

lemma bsearch_iff:
  assumes "sorted_wrt (\<lambda>x y. cmp x y \<le> 0) xs" "\<forall>x\<in>set xs. valid x"
  shows "bsearch (cmpkey k) xs 0 (length xs) = None \<longleftrightarrow> (\<forall>x\<in>set xs. cmpkey k x \<noteq> 0)"
proof
  assume "bsearch (cmpkey k) xs 0 (length xs) = None"
  then show "\<forall>x\<in>set xs. cmpkey k x \<noteq> 0"
    using bsearch_NoneD [OF sign_desc_key [OF assms], of "length xs" k 0] by (auto simp: in_set_conv_nth)
next
  assume none: "\<forall>x\<in>set xs. cmpkey k x \<noteq> 0"
  show "bsearch (cmpkey k) xs 0 (length xs) = None"
  proof (rule ccontr)
    assume "bsearch (cmpkey k) xs 0 (length xs) \<noteq> None"
    then obtain i where "i < length xs" "cmpkey k (xs ! i) = 0" using bsearch_SomeD by blast
    with none show False by simp
  qed
qed

end

text \<open>
  An index in good order: sorted, with valid elements, no more of them than slots, and able to grow.
\<close>

definition index_inv :: "('a \<Rightarrow> bool) \<Rightarrow> ('k, 'a) ns_index \<Rightarrow> bool" where
  "index_inv valid ix \<longleftrightarrow>
     sorted_wrt (\<lambda>x y. CmpEls ix x y \<le> 0) (el ix) \<and> (\<forall>x\<in>set (el ix). valid x) \<and>
     index_n ix \<le> max_slots ix \<and> 0 < inc ix"

lemma index_grow_simps [simp]:
  "el (index_grow ix) = el ix" "inc (index_grow ix) = inc ix" "CmpEls (index_grow ix) = CmpEls ix"
  "CmpKeyWithEl (index_grow ix) = CmpKeyWithEl ix"
  by (simp_all add: index_grow_def)

lemma index_grow_room:
  "index_n ix \<le> max_slots ix \<Longrightarrow> 0 < inc ix \<Longrightarrow> index_n (index_grow ix) < max_slots (index_grow ix)"
  by (auto simp: index_grow_def index_n_def)

context index_order
begin

lemma IndexAdd_ok:
  assumes "CmpEls ix = cmp" "index_inv valid ix" "valid e"
  shows "\<exists>ix'. Ns_IndexAdd ix e = Some ix' \<and> index_inv valid ix' \<and> CmpEls ix' = cmp \<and>
    CmpKeyWithEl ix' = CmpKeyWithEl ix \<and> mset (el ix') = add_mset e (mset (el ix))"
proof -
  let ?ix = "(index_grow ix)\<lparr>el := insert_at (add_pos cmp e (el ix)) e (el ix)\<rparr>"
  have room: "index_n (index_grow ix) < max_slots (index_grow ix)"
    using assms(2) by (simp add: index_inv_def index_grow_room)
  then have "Ns_IndexAdd ix e = Some ?ix"
    using assms(1) by (simp add: Ns_IndexAdd_def Let_def)
  moreover have "index_inv valid ?ix"
    using assms sorted_insert [of "el ix" e] room by (auto simp: index_inv_def index_n_def)
  ultimately show ?thesis using assms(1) by simp
qed

lemma IndexFind_ok:
  assumes "CmpEls ix = cmp" "CmpKeyWithEl ix = cmpkey" "index_inv valid ix"
  shows "case Ns_IndexFind ix k of
    Some x \<Rightarrow> x \<in> set (el ix) \<and> cmpkey k x = 0
  | None \<Rightarrow> \<forall>x\<in>set (el ix). cmpkey k x \<noteq> 0"
  using assms bsearch_iff [of "el ix" k]
  by (auto simp: Ns_IndexFind_def index_inv_def index_n_def dest: bsearch_SomeD split: option.splits)

lemma FindMultiple_ok:
  assumes "CmpEls ix = cmp" "CmpKeyWithEl ix = cmpkey" "index_inv valid ix"
  shows "Ns_IndexFindMultiple ix k =
    (let ys = filter (\<lambda>y. cmpkey k y = 0) (el ix) in if ys = [] then None else Some ys)"
proof -
  define f where "f = cmpkey k"
  define xs where "xs = el ix"
  have sorted: "sorted_wrt (\<lambda>x y. cmp x y \<le> 0) xs" "\<forall>x\<in>set xs. valid x"
    using assms by (auto simp: index_inv_def xs_def)
  note desc = sign_desc_key [OF sorted, of k, folded f_def]
  show ?thesis
  proof (cases "bsearch f xs 0 (length xs)")
    case None
    then have "filter (\<lambda>y. f y = 0) xs = []"
      using bsearch_iff [OF sorted, of k] by (simp add: f_def filter_empty_conv)
    with None show ?thesis
      using assms(2) by (simp add: Ns_IndexFindMultiple_def index_n_def f_def xs_def Let_def)
  next
    case (Some p)
    then have p: "p < length xs" "f (xs ! p) = 0" using bsearch_SomeD by blast+
    define q where "q = first_match f xs p"
    have q: "q \<le> p" "f (xs ! q) = 0" "\<forall>j<q. 0 < f (xs ! j)"
      using first_match_spec [OF desc p] by (auto simp: q_def)
    then have dq: "drop q xs = xs ! q # drop (Suc q) xs" using p by (simp add: Cons_nth_drop_Suc)
    have "sign_desc f (drop (Suc q) xs)" using desc by (simp add: sign_desc_def sorted_wrt_drop)
    moreover have "\<forall>x\<in>set (drop (Suc q) xs). f x \<le> 0"
      using sign_desc_nonpos [OF desc, of q] q(2) by (auto simp: in_set_conv_nth)
    ultimately have tw: "takeWhile (\<lambda>y. f y = 0) (drop (Suc q) xs) = filter (\<lambda>y. f y = 0) (drop (Suc q) xs)"
      by (rule filter_sign_desc)
    have "filter (\<lambda>y. f y = 0) (take q xs) = []"
      using q(3) by (force simp: filter_empty_conv in_set_conv_nth)
    then have "filter (\<lambda>y. f y = 0) xs = filter (\<lambda>y. f y = 0) (drop q xs)"
      by (metis append_take_drop_id filter_append self_append_conv2)
    also have "\<dots> = take (1 + count_matches f (drop (Suc q) xs)) (drop q xs)"
      using q(2) tw takeWhile_eq_take [of "\<lambda>y. f y = 0" "drop (Suc q) xs"]
      by (simp add: dq count_matches_def)
    finally have "filter (\<lambda>y. f y = 0) xs = take (1 + count_matches f (drop (Suc q) xs)) (drop q xs)" .
    moreover have "Ns_IndexFindMultiple ix k =
        Some (take (1 + count_matches f (drop (Suc q) xs)) (drop q xs))"
      using Some assms(2)
      by (simp add: Ns_IndexFindMultiple_def index_n_def f_def [symmetric] xs_def [symmetric]
        q_def [symmetric] Let_def)
    moreover have "take (1 + count_matches f (drop (Suc q) xs)) (drop q xs) \<noteq> []"
      by (simp add: dq)
    ultimately show ?thesis by (simp add: f_def xs_def)
  qed
qed

end

interpretation strindex: index_order CmpStr "\<lambda>_. True" CmpKeyWithStr
proof unfold_locales
  fix x y k :: cstring
  assume "CmpStr x y \<le> 0"
  then show "sgn (CmpKeyWithStr k y) \<le> sgn (CmpKeyWithStr k x)"
    using str.cmp_less_trans [of k x y] str.cmp_trans [of k x y]
    by (intro sgn_le_intro) (auto simp: cmp_defs)
qed (auto simp: cmp_defs strcmp_less_flip strcmp_trans)

interpretation intindex: index_order CmpInts "\<lambda>_. True" CmpKeyWithInt
  by unfold_locales (auto simp: cmp_defs split: if_splits)

subsection \<open>Properties of string indexes\<close>

definition string_index :: "(cstring, cstring) ns_index \<Rightarrow> bool" where
  "string_index ix \<longleftrightarrow>
     CmpEls ix = CmpStr \<and> CmpKeyWithEl ix = CmpKeyWithStr \<and> index_inv (\<lambda>_. True) ix"

lemma string_index_init: "0 < i \<Longrightarrow> string_index (Ns_IndexStringInit i)"
  by (simp add: string_index_def Ns_IndexStringInit_def Ns_IndexInit_def index_inv_def index_n_def)

lemma string_index_add:
  "string_index ix \<Longrightarrow> \<exists>ix'. Ns_IndexAdd ix e = Some ix' \<and> string_index ix' \<and>
    mset (el ix') = add_mset e (mset (el ix))"
  using strindex.IndexAdd_ok [of ix e] by (auto simp: string_index_def)

text \<open>
  Appending one string index to another never stores outside of the allocated array, and the
  result is again a sorted index that holds exactly the strings of both.
\<close>

theorem Ns_IndexStringAppend_sorted:
  assumes "string_index addto"
  shows "\<exists>ix. Ns_IndexStringAppend addto addfrom = Some ix \<and> string_index ix \<and>
    mset (el ix) = mset (el addto) + mset (el addfrom)"
proof -
  have "\<exists>ix. index_add_all addto es = Some ix \<and> string_index ix \<and>
    mset (el ix) = mset (el addto) + mset es" for es
    using assms
  proof (induction es arbitrary: addto)
    case (Cons e es)
    then obtain ix where ix: "Ns_IndexAdd addto e = Some ix" "string_index ix"
      "mset (el ix) = add_mset e (mset (el addto))" using string_index_add by blast
    with Cons.IH [OF ix(2)] show ?case by auto
  qed simp
  then show ?thesis by (simp add: Ns_IndexStringAppend_def)
qed

theorem Ns_IndexStringAppend_sorted_witness:
  "\<exists>ix. Ns_IndexStringAppend (Ns_IndexStringInit 1) (Ns_IndexStringInit 1\<lparr>el := [''b'', ''a'']\<rparr>) = Some ix \<and>
    string_index ix \<and> mset (el ix) = {#''a'', ''b''#}"
  using Ns_IndexStringAppend_sorted [OF string_index_init [of 1],
      of "Ns_IndexStringInit 1\<lparr>el := [''b'', ''a'']\<rparr>"]
  by (simp add: Ns_IndexStringInit_def Ns_IndexInit_def add_mset_commute)

text \<open>
  The binary search of \<^verbatim>\<open>Ns_IndexFind\<close> finds a string exactly when it is in the index.
\<close>

theorem Ns_IndexFind_string:
  assumes "string_index ix"
  shows "Ns_IndexFind ix key = (if key \<in> set (el ix) then Some key else None)"
  using strindex.IndexFind_ok [of ix key] assms
  by (auto simp: string_index_def cmp_defs split: option.splits)

theorem Ns_IndexFind_string_witness:
  "Ns_IndexFind (Ns_IndexStringInit 5\<lparr>el := [''a'', ''c'', ''e'']\<rparr>) ''c'' = Some ''c''"
proof -
  have "string_index (Ns_IndexStringInit 5\<lparr>el := [''a'', ''c'', ''e'']\<rparr>)"
    by (simp add: string_index_def Ns_IndexStringInit_def Ns_IndexInit_def index_inv_def index_n_def
        CmpStr_def)
  then show ?thesis by (simp add: Ns_IndexFind_string)
qed

text \<open>
  \<^verbatim>\<open>Ns_IndexFindMultiple\<close> returns all elements equal to the key, in order, and NULL when there
  is none.
\<close>

theorem Ns_IndexFindMultiple_string:
  assumes "string_index ix"
  shows "Ns_IndexFindMultiple ix key =
    (if key \<in> set (el ix) then Some (filter (\<lambda>s. s = key) (el ix)) else None)"
proof -
  have "(strcmp key y = 0) = (y = key)" for y by auto
  then show ?thesis
    using strindex.FindMultiple_ok [of ix key] assms
    by (auto simp: string_index_def CmpKeyWithStr_def filter_empty_conv Let_def)
qed

theorem Ns_IndexFindMultiple_string_witness:
  "Ns_IndexFindMultiple (Ns_IndexStringInit 5\<lparr>el := [''a'', ''c'', ''c'', ''e'']\<rparr>) ''c'' =
    Some [''c'', ''c'']"
proof -
  have "string_index (Ns_IndexStringInit 5\<lparr>el := [''a'', ''c'', ''c'', ''e'']\<rparr>)"
    by (simp add: string_index_def Ns_IndexStringInit_def Ns_IndexInit_def index_inv_def index_n_def
        CmpStr_def)
  then show ?thesis by (simp add: Ns_IndexFindMultiple_string)
qed

text \<open>
  The comment of \<^verbatim>\<open>Ns_IndexFindInf\<close> promises, for an absent key, the element before which the key
  would appear; the code returns the element in front of that one.
\<close>

lemma Ns_IndexFindInf_predecessor:
  "Ns_IndexFindInf (Ns_IndexIntInit 5\<lparr>el := [10, 20, 30]\<rparr>) 25 = Some 20"
  by (simp add: Ns_IndexFindInf_def Ns_IndexIntInit_def Ns_IndexInit_def index_n_def BinSearchKey_def
      BinSearch_loop.simps CmpKeyWithInt_def Let_def)

lemma Ns_IndexDel_first: "el (Ns_IndexDel ix e) = remove1 e (el ix)"
proof (cases "find_index (\<lambda>y. y = e) (el ix)")
  case None
  then have "e \<notin> set (el ix)" by (auto simp: find_index_None_iff)
  with None show ?thesis by (simp add: Ns_IndexDel_def remove1_idem)
qed (simp add: Ns_IndexDel_def delete_at_find_index)

end
