(* ===== verification/NsBase64.thy ===== *)
theory NsBase64
  imports NsPrelude "HOL-Library.Word"
begin

unbundle bit_operations_syntax

text \<open>
  Base64 and base64url: the model of \<^verbatim>\<open>nsd/uuencode.c\<close>. Bytes are 8-bit words, so the shifts drop
  the bits that the casts to \<^verbatim>\<open>unsigned char\<close> drop in the source; the encoded text is a C string.
  The tables are those of the source. The encoder returns the text it writes to the output buffer
  (the source returns its length), the decoder the result code and the bytes written; a log message
  of the lenient decoder has no counterpart.
\<close>

type_synonym octet = "8 word"

definition six2pr :: cstring where
  "six2pr = ''ABCDEFGHIJKLMNOPQRSTUVWXYZabcdefghijklmnopqrstuvwxyz0123456789+/''"

definition pr2six :: "int list" where
  "pr2six =
    [-1, -1, -1, -1, -1, -1, -1, -1, -1, -1, -1, -1, -1, -1, -1, -1,
     -1, -1, -1, -1, -1, -1, -1, -1, -1, -1, -1, -1, -1, -1, -1, -1,
     -1, -1, -1, -1, -1, -1, -1, -1, -1, -1, -1, 62, -1, -1, -1, 63,
     52, 53, 54, 55, 56, 57, 58, 59, 60, 61, -1, -1, -1, -1, -1, -1,
     -1, 0, 1, 2, 3, 4, 5, 6, 7, 8, 9, 10, 11, 12, 13, 14,
     15, 16, 17, 18, 19, 20, 21, 22, 23, 24, 25, -1, -1, -1, -1, -1,
     -1, 26, 27, 28, 29, 30, 31, 32, 33, 34, 35, 36, 37, 38, 39, 40,
     41, 42, 43, 44, 45, 46, 47, 48, 49, 50, 51, -1, -1, -1, -1, -1,
     -1, -1, -1, -1, -1, -1, -1, -1, -1, -1, -1, -1, -1, -1, -1, -1,
     -1, -1, -1, -1, -1, -1, -1, -1, -1, -1, -1, -1, -1, -1, -1, -1,
     -1, -1, -1, -1, -1, -1, -1, -1, -1, -1, -1, -1, -1, -1, -1, -1,
     -1, -1, -1, -1, -1, -1, -1, -1, -1, -1, -1, -1, -1, -1, -1, -1,
     -1, -1, -1, -1, -1, -1, -1, -1, -1, -1, -1, -1, -1, -1, -1, -1,
     -1, -1, -1, -1, -1, -1, -1, -1, -1, -1, -1, -1, -1, -1, -1, -1,
     -1, -1, -1, -1, -1, -1, -1, -1, -1, -1, -1, -1, -1, -1, -1, -1,
     -1, -1, -1, -1, -1, -1, -1, -1, -1, -1, -1, -1, -1, -1, -1, -1]"

definition six2pr_url :: cstring where
  "six2pr_url = ''ABCDEFGHIJKLMNOPQRSTUVWXYZabcdefghijklmnopqrstuvwxyz0123456789-_''"

definition pr2six_url :: "int list" where
  "pr2six_url =
    [-1, -1, -1, -1, -1, -1, -1, -1, -1, -1, -1, -1, -1, -1, -1, -1,
     -1, -1, -1, -1, -1, -1, -1, -1, -1, -1, -1, -1, -1, -1, -1, -1,
     -1, -1, -1, -1, -1, -1, -1, -1, -1, -1, -1, -1, -1, 62, -1, -1,
     52, 53, 54, 55, 56, 57, 58, 59, 60, 61, -1, -1, -1, -1, -1, -1,
     -1, 0, 1, 2, 3, 4, 5, 6, 7, 8, 9, 10, 11, 12, 13, 14,
     15, 16, 17, 18, 19, 20, 21, 22, 23, 24, 25, -1, -1, -1, -1, 63,
     -1, 26, 27, 28, 29, 30, 31, 32, 33, 34, 35, 36, 37, 38, 39, 40,
     41, 42, 43, 44, 45, 46, 47, 48, 49, 50, 51, -1, -1, -1, -1, -1,
     -1, -1, -1, -1, -1, -1, -1, -1, -1, -1, -1, -1, -1, -1, -1, -1,
     -1, -1, -1, -1, -1, -1, -1, -1, -1, -1, -1, -1, -1, -1, -1, -1,
     -1, -1, -1, -1, -1, -1, -1, -1, -1, -1, -1, -1, -1, -1, -1, -1,
     -1, -1, -1, -1, -1, -1, -1, -1, -1, -1, -1, -1, -1, -1, -1, -1,
     -1, -1, -1, -1, -1, -1, -1, -1, -1, -1, -1, -1, -1, -1, -1, -1,
     -1, -1, -1, -1, -1, -1, -1, -1, -1, -1, -1, -1, -1, -1, -1, -1,
     -1, -1, -1, -1, -1, -1, -1, -1, -1, -1, -1, -1, -1, -1, -1, -1,
     -1, -1, -1, -1, -1, -1, -1, -1, -1, -1, -1, -1, -1, -1, -1, -1]"

definition encode_table :: "int \<Rightarrow> cstring" where
  "encode_table encoding = (if encoding = 0 then six2pr else six2pr_url)"

definition decode_table :: "int \<Rightarrow> int list" where
  "decode_table encoding = (if encoding = 0 then pr2six else pr2six_url)"

definition Encode :: "cstring \<Rightarrow> octet \<Rightarrow> char" where
  "Encode table c = table ! unat c"

definition Decode :: "int list \<Rightarrow> char \<Rightarrow> octet" where
  "Decode table c = word_of_int (table ! byte_of c)"

subsection \<open>Encoding\<close>

definition encode3 :: "cstring \<Rightarrow> octet \<Rightarrow> octet \<Rightarrow> octet \<Rightarrow> cstring" where
  "encode3 t a b c =
     [Encode t (drop_bit 2 a),
      Encode t ((push_bit 4 a AND 0x30) OR (drop_bit 4 b AND 0x0F)),
      Encode t ((push_bit 2 b AND 0x3C) OR (drop_bit 6 c AND 0x03)),
      Encode t (c AND 0x3F)]"

text \<open>The loop over groups of three bytes and, in its last two equations, the padded rest. The
  line length is checked before a full group only.\<close>

fun encode_loop :: "cstring \<Rightarrow> int \<Rightarrow> nat \<Rightarrow> nat \<Rightarrow> octet list \<Rightarrow> cstring" where
  "encode_loop t encoding maxLineLength lineLength (a # b # c # rest) =
     (let nl = 0 < maxLineLength \<and> maxLineLength \<le> lineLength
      in (if nl then ''\<newline>'' else []) @ encode3 t a b c @
         encode_loop t encoding maxLineLength ((if nl then 0 else lineLength) + 4) rest)"
| "encode_loop t encoding maxLineLength lineLength [a] =
     [Encode t (drop_bit 2 a), Encode t (push_bit 4 a AND 0x30)] @
     (if encoding = 0 then ''='' else []) @ (if encoding = 0 then ''='' else [])"
| "encode_loop t encoding maxLineLength lineLength [a, b] =
     [Encode t (drop_bit 2 a),
      Encode t ((push_bit 4 a AND 0x30) OR (drop_bit 4 b AND 0x0F)),
      Encode t (push_bit 2 b AND 0x3C)] @
     (if encoding = 0 then ''='' else [])"
| "encode_loop t encoding maxLineLength lineLength [] = []"

definition Ns_Base64Encode :: "octet list \<Rightarrow> nat \<Rightarrow> int \<Rightarrow> cstring" where
  "Ns_Base64Encode input maxLineLength encoding =
     encode_loop (encode_table encoding) encoding maxLineLength 0 input"

definition Ns_HtuuEncode2 :: "octet list \<Rightarrow> int \<Rightarrow> cstring" where
  "Ns_HtuuEncode2 input encoding =
     (if encoding = 0 then Ns_Base64Encode input 60 encoding else Ns_Base64Encode input 0 encoding)"

definition Ns_HtuuEncode :: "octet list \<Rightarrow> cstring" where
  "Ns_HtuuEncode input = Ns_Base64Encode input 60 0"

subsection \<open>Decoding\<close>

datatype tcl_result = TCL_OK | TCL_ERROR

definition dec0 :: "int list \<Rightarrow> char \<Rightarrow> char \<Rightarrow> octet" where
  "dec0 t c0 c1 = push_bit 2 (Decode t c0) OR drop_bit 4 (Decode t c1)"

definition dec1 :: "int list \<Rightarrow> char \<Rightarrow> char \<Rightarrow> octet" where
  "dec1 t c1 c2 = push_bit 4 (Decode t c1) OR drop_bit 2 (Decode t c2)"

definition dec2 :: "int list \<Rightarrow> char \<Rightarrow> char \<Rightarrow> octet" where
  "dec2 t c2 c3 = push_bit 6 (Decode t c2) OR Decode t c3"

text \<open>The loop over the text: \<open>chars\<close> are the characters collected for the next group (the
  source's array \<^verbatim>\<open>chars\<close> up to \<^verbatim>\<open>n\<close>), \<open>q\<close> the bytes written so far.\<close>

fun decode_loop ::
    "int list \<Rightarrow> bool \<Rightarrow> cstring \<Rightarrow> octet list \<Rightarrow> tcl_result \<Rightarrow> cstring \<Rightarrow> cstring \<times> octet list \<times> tcl_result"
where
  "decode_loop t strict chars q result [] = (chars, q, result)"
| "decode_loop t strict chars q result (p # ps) =
     (if t ! byte_of p \<noteq> -1 then
        (case chars of
           [c0, c1, c2] \<Rightarrow>
             decode_loop t strict [] (q @ [dec0 t c0 c1, dec1 t c1 c2, dec2 t c2 p]) result ps
         | _ \<Rightarrow> decode_loop t strict (chars @ [p]) q result ps)
      else if \<not> c_isspace p \<and> p \<noteq> CHR ''='' then
        decode_loop t strict chars q (if strict then TCL_ERROR else result) ps
      else decode_loop t strict chars q result ps)"

definition Ns_HtuuDecode2 :: "cstring \<Rightarrow> int \<Rightarrow> bool \<Rightarrow> tcl_result \<times> octet list" where
  "Ns_HtuuDecode2 input encoding strict =
     (let t = decode_table encoding;
          input = dropWhile (\<lambda>c. c = CHR '' '' \<or> c = CHR 0x09) input;
          (chars, q, result) = decode_loop t strict [] [] TCL_OK input;
          n = length chars;
          result = (if n = 1 \<and> strict then TCL_ERROR else result);
          q = (if n > 1 then q @ [dec0 t (chars ! 0) (chars ! 1)] else q);
          q = (if n > 2 then q @ [dec1 t (chars ! 1) (chars ! 2)] else q)
      in (result, q))"

text \<open>Returns the number of bytes decoded; the bytes are those of \<open>Ns_HtuuDecode2\<close>.\<close>

definition Ns_HtuuDecode :: "cstring \<Rightarrow> nat" where
  "Ns_HtuuDecode input =
     (case Ns_HtuuDecode2 input 0 False of
        (TCL_OK, q) \<Rightarrow> length q
      | (TCL_ERROR, _) \<Rightarrow> 0)"

subsection \<open>Tables\<close>

lemma tables_inverse:
  "list_all (\<lambda>i. pr2six ! byte_of (six2pr ! i) = int i \<and> pr2six_url ! byte_of (six2pr_url ! i) = int i)
    [0..<64]"
  by code_simp

lemma decode_table_encode:
  assumes "unat x < 64"
  shows "decode_table e ! byte_of (Encode (encode_table e) x) = int (unat x)"
  using tables_inverse assms
  by (auto simp: list_all_iff Encode_def encode_table_def decode_table_def)

lemma Decode_Encode:
  assumes "unat x < 64"
  shows "Decode (decode_table e) (Encode (encode_table e) x) = x"
  using decode_table_encode [OF assms, of e] by (simp add: Decode_def)

lemma skipped_chars: "decode_table e ! 10 = -1" "decode_table e ! 61 = -1"
  by (simp_all add: decode_table_def) (code_simp)+

lemma octet_eqI:
  fixes x y :: octet
  assumes "bit x 0 = bit y 0" "bit x 1 = bit y 1" "bit x 2 = bit y 2" "bit x 3 = bit y 3"
    "bit x 4 = bit y 4" "bit x 5 = bit y 5" "bit x 6 = bit y 6" "bit x 7 = bit y 7"
  shows "x = y"
proof (rule bit_word_eqI)
  fix n assume "n < LENGTH(8)"
  then have "n = 0 \<or> n = 1 \<or> n = 2 \<or> n = 3 \<or> n = 4 \<or> n = 5 \<or> n = 6 \<or> n = 7" by auto
  then show "bit x n = bit y n" using assms by auto
qed

lemma sextet_less:
  fixes x :: octet
  assumes "\<not> bit x 6" "\<not> bit x 7"
  shows "unat x < 64"
proof -
  have "take_bit 6 x = x"
    by (rule octet_eqI) (use assms in \<open>simp_all add: bit_simps\<close>)
  then have "unat x = take_bit 6 (unat x)" by (metis unsigned_take_bit_eq)
  also have "\<dots> < 2 ^ 6" by (rule take_bit_nat_less_exp)
  finally show ?thesis by simp
qed

lemma octet_no_high_bit: "\<not> bit (a :: octet) 8" "\<not> bit (a :: octet) 9"
  by (auto dest: bit_imp_le_length)

lemma sextet_bounds [simp]:
  fixes a b c :: octet
  shows "unat (drop_bit 2 a) < 64"
    and "unat ((push_bit 4 a AND 0x30) OR (drop_bit 4 b AND 0x0F)) < 64"
    and "unat ((push_bit 2 b AND 0x3C) OR (drop_bit 6 c AND 0x03)) < 64"
    and "unat (c AND 0x3F) < 64"
    and "unat (push_bit 4 a AND 0x30) < 64"
    and "unat (push_bit 2 b AND 0x3C) < 64"
  by (rule sextet_less; simp add: bit_simps octet_no_high_bit)+

lemma octet_group:
  fixes a b c :: octet
  shows "push_bit 2 (drop_bit 2 a) OR drop_bit 4 ((push_bit 4 a AND 0x30) OR (drop_bit 4 b AND 0x0F)) = a"
    and "push_bit 4 ((push_bit 4 a AND 0x30) OR (drop_bit 4 b AND 0x0F)) OR
      drop_bit 2 ((push_bit 2 b AND 0x3C) OR (drop_bit 6 c AND 0x03)) = b"
    and "push_bit 6 ((push_bit 2 b AND 0x3C) OR (drop_bit 6 c AND 0x03)) OR (c AND 0x3F) = c"
    and "push_bit 2 (drop_bit 2 a) OR drop_bit 4 (push_bit 4 a AND 0x30) = a"
    and "push_bit 4 ((push_bit 4 a AND 0x30) OR (drop_bit 4 b AND 0x0F)) OR
      drop_bit 2 (push_bit 2 b AND 0x3C) = b"
  by (rule octet_eqI; simp add: bit_simps)+

subsection \<open>Round trip\<close>

lemma encoded_kept:
  "unat x < 64 \<Longrightarrow> decode_table e ! byte_of (Encode (encode_table e) x) \<noteq> -1"
  using decode_table_encode [of x e] by linarith

text \<open>The decoding of a group takes back its encoding.\<close>

lemma dec_group:
  defines "E \<equiv> \<lambda>e. Encode (encode_table e)" and "D \<equiv> decode_table"
  shows "dec0 (D e) (E e (drop_bit 2 a)) (E e ((push_bit 4 a AND 0x30) OR (drop_bit 4 b AND 0x0F))) = a"
    and "dec1 (D e) (E e ((push_bit 4 a AND 0x30) OR (drop_bit 4 b AND 0x0F)))
      (E e ((push_bit 2 b AND 0x3C) OR (drop_bit 6 c AND 0x03))) = b"
    and "dec2 (D e) (E e ((push_bit 2 b AND 0x3C) OR (drop_bit 6 c AND 0x03))) (E e (c AND 0x3F)) = c"
    and "dec0 (D e) (E e (drop_bit 2 a)) (E e (push_bit 4 a AND 0x30)) = a"
    and "dec1 (D e) (E e ((push_bit 4 a AND 0x30) OR (drop_bit 4 b AND 0x0F)))
      (E e (push_bit 2 b AND 0x3C)) = b"
  unfolding E_def D_def
  by (simp_all only: dec0_def dec1_def dec2_def Decode_Encode sextet_bounds octet_group)

lemma decode_group:
  "decode_loop (decode_table e) strict [] q r (encode3 (encode_table e) a b c @ rest) =
   decode_loop (decode_table e) strict [] (q @ [a, b, c]) r rest"
  by (simp add: encode3_def encoded_kept dec_group)

lemma decode_newline:
  "decode_loop (decode_table e) strict cs q r (CHR ''\<newline>'' # rest) =
   decode_loop (decode_table e) strict cs q r rest"
  by (simp add: skipped_chars c_isspace_def)

text \<open>What the loop leaves: the complete groups are decoded, an incomplete one is pending.\<close>

definition finish_decode :: "int list \<Rightarrow> cstring \<times> octet list \<times> tcl_result \<Rightarrow> octet list" where
  "finish_decode t s = (case s of (chars, q, _) \<Rightarrow>
     (let n = length chars;
          q = (if n > 1 then q @ [dec0 t (chars ! 0) (chars ! 1)] else q)
      in if n > 2 then q @ [dec1 t (chars ! 1) (chars ! 2)] else q))"

lemma decode_encode_loop:
  "\<exists>cs q'. decode_loop (decode_table e) strict [] q r (encode_loop (encode_table e) e m l bs) = (cs, q', r) \<and>
    length cs \<noteq> 1 \<and> finish_decode (decode_table e) (cs, q', r) = q @ bs"
proof (induction "encode_table e" e m l bs arbitrary: q rule: encode_loop.induct)
  case (1 e m l a b c rest)
  show ?case
    using 1 [OF refl, of "q @ [a, b, c]"]
    by (auto simp: Let_def decode_group decode_newline simp del: decode_loop.simps)
next
  case (2 e m l a)
  show ?case
    by (simp add: encoded_kept skipped_chars finish_decode_def dec_group)
next
  case (3 e m l a b)
  show ?case
    by (simp add: encoded_kept skipped_chars finish_decode_def dec_group)
qed (simp add: finish_decode_def)

lemma encoded_not_space:
  assumes "unat x < 64"
  shows "\<not> c_isspace (Encode (encode_table e) x)"
proof -
  have "list_all (\<lambda>i. decode_table e ! i = -1) [32, 9, 10, 11, 12, 13]"
    by (cases "e = 0") (simp add: decode_table_def, code_simp)+
  then show ?thesis
    using encoded_kept [OF assms, of e]
    by (auto simp: c_isspace_def le_Suc_eq numeral_eq_Suc)
qed

lemma encode_no_leading_blank:
  "dropWhile (\<lambda>c. c = CHR '' '' \<or> c = CHR 0x09) (encode_loop (encode_table e) e m 0 bs) =
   encode_loop (encode_table e) e m 0 bs"
proof -
  have "Encode (encode_table e) x \<noteq> CHR '' ''" "Encode (encode_table e) x \<noteq> CHR 0x09" if "unat x < 64" for x
    using encoded_not_space [OF that, of e] by (auto simp: c_isspace_def)
  then show ?thesis
    by (cases "(encode_table e, e, m, 0 :: nat, bs)" rule: encode_loop.cases) (auto simp: Let_def encode3_def)
qed

lemma encode_no_leading_space: "dropWhile c_isspace (Ns_Base64Encode bs m e) = Ns_Base64Encode bs m e"
  by (cases "(encode_table e, e, m, 0 :: nat, bs)" rule: encode_loop.cases)
    (auto simp: Let_def encode3_def encoded_not_space Ns_Base64Encode_def)

lemma base64_decode_encode:
  "Ns_HtuuDecode2 (Ns_Base64Encode bs maxLineLength encoding) encoding strict = (TCL_OK, bs)"
proof -
  obtain cs q where loop: "decode_loop (decode_table encoding) strict [] [] TCL_OK
      (encode_loop (encode_table encoding) encoding maxLineLength 0 bs) = (cs, q, TCL_OK)"
    "length cs \<noteq> 1" "finish_decode (decode_table encoding) (cs, q, TCL_OK) = bs"
    using decode_encode_loop [of encoding strict "[]" TCL_OK maxLineLength 0 bs] by auto
  then show ?thesis
    by (simp add: Ns_HtuuDecode2_def Ns_Base64Encode_def encode_no_leading_blank finish_decode_def
        Let_def)
qed

text \<open>
  Round trip: whatever the line length and in either alphabet, decoding an encoded text gives
  back the bytes, also in strict mode and without an error.
\<close>

theorem base64_roundtrip:
  "Ns_HtuuDecode2 (Ns_Base64Encode bs maxLineLength encoding) encoding strict = (TCL_OK, bs)"
  by (rule base64_decode_encode)

lemma decode_loop_length:
  assumes "decode_loop t strict cs q r ps = (cs', q', r')" "length cs \<le> 3"
  shows "length cs' \<le> 3 \<and> 4 * length q' + 3 * length cs' \<le> 4 * length q + 3 * length cs + 3 * length ps"
  using assms
  by (induction t strict cs q r ps rule: decode_loop.induct)
    (force split: if_splits list.splits)+

text \<open>
  Bounds: the decoder writes at most three bytes for four characters of its input, whatever the
  input.
\<close>

theorem Ns_HtuuDecode2_bound:
  "4 * length (snd (Ns_HtuuDecode2 input encoding strict)) \<le> 3 * length input"
proof -
  define ps where "ps = dropWhile (\<lambda>c. c = CHR '' '' \<or> c = CHR 0x09) input"
  obtain cs q r where l: "decode_loop (decode_table encoding) strict [] [] TCL_OK ps = (cs, q, r)"
    by (metis surj_pair)
  then have "length cs \<le> 3 \<and> 4 * length q + 3 * length cs \<le> 3 * length ps"
    using decode_loop_length by fastforce
  moreover have "length ps \<le> length input" by (simp add: ps_def length_dropWhile_le)
  ultimately show ?thesis
    using l by (simp add: Ns_HtuuDecode2_def ps_def [symmetric] Let_def)
qed

definition url_safe :: "char \<Rightarrow> bool" where
  "url_safe c \<longleftrightarrow> c_isupper c \<or> c_islower c \<or> c_isdigit c \<or> c = CHR ''-'' \<or> c = CHR ''_''"

lemma Encode_url_safe: "unat x < 64 \<Longrightarrow> url_safe (Encode (encode_table 1) x)"
proof -
  have "list_all (\<lambda>i. url_safe (six2pr_url ! i)) [0..<64]" by code_simp
  then show "unat x < 64 \<Longrightarrow> url_safe (Encode (encode_table 1) x)"
    by (simp add: list_all_iff Encode_def encode_table_def)
qed

text \<open>
  The URL-safe encoding of any bytes consists of letters, digits, minus and underscore only, so
  it can stand in a URL or a file name unquoted.
\<close>

theorem Ns_HtuuEncode2_url_safe: "list_all url_safe (Ns_HtuuEncode2 bs 1)"
proof -
  have "list_all url_safe (encode_loop (encode_table 1) 1 0 l bs)" for l
    by (induction "encode_table 1" "1::int" "0::nat" l bs rule: encode_loop.induct)
      (auto simp: encode3_def Encode_url_safe)
  then show ?thesis by (simp add: Ns_HtuuEncode2_def Ns_Base64Encode_def)
qed

end
