(* ===== verification/NsStr.thy ===== *)
theory NsStr
  imports NsPrelude "HOL-Library.Word"
begin

unbundle bit_operations_syntax

text \<open>
  String helpers: the model of \<^verbatim>\<open>nsd/str.c\<close> (trimming, case conversion, case-insensitive
  search, host header check, UTF-8 validation and encoding, 7-bit test). A function that modifies
  its argument in place returns the new string; a function that returns a pointer into its argument
  returns the suffix at that pointer. The character classes are those of the C locale. Where the
  source reads eight bytes at once into an unsigned 64-bit integer, so does the model
  (\<open>load64\<close>).
\<close>

type_synonym byte = "8 word"

definition Ns_StrTrimLeft :: "cstring \<Rightarrow> cstring" where
  "Ns_StrTrimLeft chars = dropWhile c_isspace chars"

text \<open>The loop runs from the end; \<^verbatim>\<open>chars[len] > 0\<close> holds for bytes below 128 only, as
  \<^verbatim>\<open>char\<close> is signed.\<close>

fun trim_right_loop :: "cstring \<Rightarrow> nat \<Rightarrow> cstring" where
  "trim_right_loop chars 0 = chars"
| "trim_right_loop chars (Suc len) =
     (if 0 < byte_of (chars ! len) \<and> byte_of (chars ! len) < 128 \<and>
         (c_isspace (chars ! len) \<or> chars ! len = CHR ''\<newline>'')
      then trim_right_loop (take len chars) len else chars)"

definition Ns_StrTrimRight :: "cstring \<Rightarrow> cstring" where
  "Ns_StrTrimRight chars = trim_right_loop chars (length chars)"

definition Ns_StrTrim :: "cstring \<Rightarrow> cstring" where
  "Ns_StrTrim chars = Ns_StrTrimLeft (Ns_StrTrimRight chars)"

definition Ns_StrToLower :: "cstring \<Rightarrow> cstring" where
  "Ns_StrToLower chars = map (\<lambda>p. if c_isupper p then c_tolower p else p) chars"

definition Ns_StrToUpper :: "cstring \<Rightarrow> cstring" where
  "Ns_StrToUpper chars = map (\<lambda>s. if c_islower s then c_toupper s else s) chars"

text \<open>The result is the rest of \<open>b\<close> where the comparison stopped.\<close>

fun match_loop :: "cstring \<Rightarrow> cstring \<Rightarrow> cstring option" where
  "match_loop (a # as) (b # bs) =
     (let c1 = (if c_islower a then a else c_tolower a);
          c2 = (if c_islower b then b else c_tolower b)
      in if c1 \<noteq> c2 then None else match_loop as bs)"
| "match_loop _ b = Some b"

definition Ns_Match :: "cstring option \<Rightarrow> cstring option \<Rightarrow> cstring option" where
  "Ns_Match a b = (case (a, b) of (Some x, Some y) \<Rightarrow> match_loop x y | _ \<Rightarrow> b)"

definition Ns_NextWord :: "cstring \<Rightarrow> cstring" where
  "Ns_NextWord line = dropWhile c_isspace (dropWhile (\<lambda>c. \<not> c_isspace c) line)"

fun case_find_loop :: "cstring \<Rightarrow> cstring \<Rightarrow> cstring option" where
  "case_find_loop [] sub = None"
| "case_find_loop (c # cs) sub =
     (if Ns_Match (Some (c # cs)) (Some sub) \<noteq> None then Some (c # cs) else case_find_loop cs sub)"

definition Ns_StrCaseFind :: "cstring \<Rightarrow> cstring \<Rightarrow> cstring option" where
  "Ns_StrCaseFind chars sub =
     (if length chars > length sub then case_find_loop chars sub else None)"

definition c_isalnum :: "char \<Rightarrow> bool" where
  "c_isalnum c \<longleftrightarrow> c_isupper c \<or> c_islower c \<or> c_isdigit c"

fun Ns_StrIsValidHostHeaderContent :: "cstring \<Rightarrow> bool" where
  "Ns_StrIsValidHostHeaderContent [] = True"
| "Ns_StrIsValidHostHeaderContent (p # ps) =
     (if \<not> c_isalnum p \<and> p \<noteq> CHR '':'' \<and> p \<noteq> CHR ''['' \<and> p \<noteq> CHR '']'' \<and>
         (p \<noteq> CHR ''.'' \<or> (p = CHR ''.'' \<and> ps \<noteq> [] \<and> hd ps = CHR ''.''))
      then False else Ns_StrIsValidHostHeaderContent ps)"

definition Ns_NullIfEmpty :: "cstring option \<Rightarrow> cstring option" where
  "Ns_NullIfEmpty s = (if s = Some [] then None else s)"

definition Ns_UpperCharPos :: "cstring \<Rightarrow> nat \<Rightarrow> int" where
  "Ns_UpperCharPos bytes nrBytes =
     (case find_index c_isupper (take nrBytes bytes) of Some i \<Rightarrow> int i | None \<Rightarrow> -1)"

subsection \<open>Bytes\<close>

fun load64 :: "byte list \<Rightarrow> 64 word" where
  "load64 [] = 0"
| "load64 (b # bs) = push_bit 8 (load64 bs) OR ucast b"

definition ascii_mask :: "64 word" where
  "ascii_mask = 0x8080808080808080"

function Ns_Valid_UTF8 :: "byte list \<Rightarrow> bool" where
  "Ns_Valid_UTF8 bytes =
     (if length bytes \<ge> 8 \<and> load64 (take 8 bytes) AND ascii_mask = 0 then Ns_Valid_UTF8 (drop 8 bytes)
      else (case bytes of
        [] \<Rightarrow> True
      | byte1 # rest \<Rightarrow>
          if byte1 < 0x80 then Ns_Valid_UTF8 rest
          else if byte1 < 0xE0 then
            (case rest of
               [] \<Rightarrow> False
             | byte2 # rest2 \<Rightarrow>
                 if byte1 < 0xC2 \<or> byte2 AND 0xC0 \<noteq> 0x80 then False else Ns_Valid_UTF8 rest2)
          else if byte1 < 0xF0 then
            (case rest of
               byte2 # byte3 # rest3 \<Rightarrow>
                 if byte2 AND 0xC0 \<noteq> 0x80 \<or> (byte1 = 0xE0 \<and> byte2 < 0xA0) \<or>
                    (byte1 = 0xED \<and> byte2 \<ge> 0xA0) then False
                 else if byte3 AND 0xC0 \<noteq> 0x80 then False
                 else Ns_Valid_UTF8 rest3
             | _ \<Rightarrow> False)
          else
            (case rest of
               byte2 # byte3 # byte4 # rest4 \<Rightarrow>
                 if byte2 AND 0xC0 \<noteq> 0x80 \<or> byte1 > 0xF4 \<or> (byte1 = 0xF0 \<and> byte2 < 0x90) \<or>
                    (byte1 = 0xF4 \<and> byte2 > 0x8F) then False
                 else if byte3 AND 0xC0 \<noteq> 0x80 then False
                 else if byte4 AND 0xC0 \<noteq> 0x80 then False
                 else Ns_Valid_UTF8 rest4
             | _ \<Rightarrow> False)))"
  by pat_completeness auto
termination by (relation "measure length") auto

declare Ns_Valid_UTF8.simps [simp del]

text \<open>The bytes written to \<^verbatim>\<open>dst\<close>; their number is the result of the source's function.\<close>

definition Ns_Utf8FromCodePoint :: "32 word \<Rightarrow> byte list" where
  "Ns_Utf8FromCodePoint cp =
     (if cp \<le> 0x7F then [ucast cp]
      else if cp \<le> 0x7FF then
        [ucast ((drop_bit 6 cp AND 0x1F) OR 0xC0), ucast ((cp AND 0x3F) OR 0x80)]
      else if cp \<le> 0xFFFF then
        [ucast ((drop_bit 12 cp AND 0x0F) OR 0xE0), ucast ((drop_bit 6 cp AND 0x3F) OR 0x80),
         ucast ((cp AND 0x3F) OR 0x80)]
      else if cp \<le> 0x10FFFF then
        [ucast ((drop_bit 18 cp AND 0x07) OR 0xF0), ucast ((drop_bit 12 cp AND 0x3F) OR 0x80),
         ucast ((drop_bit 6 cp AND 0x3F) OR 0x80), ucast ((cp AND 0x3F) OR 0x80)]
      else [])"

text \<open>The three loops of \<^verbatim>\<open>Ns_Is7bit\<close>: blocks of 32 bytes, of 8 bytes, single bytes.\<close>

type_synonym masks = "64 word \<times> 64 word \<times> 64 word \<times> 64 word"

function is7bit_loop32 :: "masks \<Rightarrow> byte list \<Rightarrow> masks \<times> byte list" where
  "is7bit_loop32 m bs =
     (if 32 \<le> length bs then
        (case m of (m1, m2, m3, m4) \<Rightarrow>
           is7bit_loop32 (m1 OR load64 (take 8 bs), m2 OR load64 (take 8 (drop 8 bs)),
             m3 OR load64 (take 8 (drop 16 bs)), m4 OR load64 (take 8 (drop 24 bs))) (drop 32 bs))
      else (m, bs))"
  by pat_completeness auto
termination by (relation "measure (\<lambda>(m, bs). length bs)") auto

function is7bit_loop8 :: "64 word \<Rightarrow> byte list \<Rightarrow> 64 word \<times> byte list" where
  "is7bit_loop8 m bs =
     (if 8 \<le> length bs then is7bit_loop8 (m OR load64 (take 8 bs)) (drop 8 bs) else (m, bs))"
  by pat_completeness auto
termination by (relation "measure (\<lambda>(m, bs). length bs)") auto

declare is7bit_loop32.simps [simp del] is7bit_loop8.simps [simp del]

fun is7bit_loop1 :: "64 word \<Rightarrow> byte list \<Rightarrow> 64 word" where
  "is7bit_loop1 m [] = m"
| "is7bit_loop1 m (b # bs) = is7bit_loop1 (m OR ucast b) bs"

definition Ns_Is7bit :: "byte list \<Rightarrow> bool" where
  "Ns_Is7bit bytes =
     (let ((m1, m2, m3, m4), rest) = is7bit_loop32 (0, 0, 0, 0) bytes;
          (m1, rest) = is7bit_loop8 m1 rest;
          last_mask = is7bit_loop1 0 rest
      in (m1 OR m2 OR m3 OR m4 OR last_mask) AND ascii_mask = 0)"

subsection \<open>Case conversion and trimming\<close>

lemma Ns_StrToLower_map: "Ns_StrToLower s = map c_tolower s"
  by (simp add: Ns_StrToLower_def c_tolower_def)

lemma length_Ns_StrToLower [simp]: "length (Ns_StrToLower s) = length s"
  by (simp add: Ns_StrToLower_map)

lemma Ns_StrToLower_idem [simp]: "Ns_StrToLower (Ns_StrToLower s) = Ns_StrToLower s"
  by (simp add: Ns_StrToLower_map)

lemma Ns_UpperCharPos_none:
  "Ns_UpperCharPos s (length s) = -1 \<longleftrightarrow> list_all (\<lambda>c. \<not> c_isupper c) s"
  using find_index_None_iff [of c_isupper s]
  by (cases "find_index c_isupper s") (auto simp: Ns_UpperCharPos_def list_all_iff)

lemma lower_unchanged: "list_all (\<lambda>c. \<not> c_isupper c) s \<Longrightarrow> map c_tolower s = s"
  by (induction s) (auto simp: c_tolower_id)

definition ascii_space :: "char \<Rightarrow> bool" where
  "ascii_space c \<longleftrightarrow> 0 < byte_of c \<and> byte_of c < 128 \<and> (c_isspace c \<or> c = CHR ''\<newline>'')"

lemma ascii_space_iff: "ascii_space c \<longleftrightarrow> c_isspace c"
  by (auto simp: ascii_space_def c_isspace_def)

lemma Ns_StrTrimRight_dropWhile: "Ns_StrTrimRight s = rev (dropWhile c_isspace (rev s))"
  unfolding Ns_StrTrimRight_def
  by (induction s rule: rev_induct)
    (use ascii_space_iff in \<open>auto simp: nth_append ascii_space_def\<close>)

text \<open>
  Trimming removes exactly the white space at both ends: the result is free of it there, and the
  argument is the result between two runs of white space.
\<close>

theorem Ns_StrTrim_spec:
  "(\<exists>l r. s = l @ Ns_StrTrim s @ r \<and> list_all c_isspace l \<and> list_all c_isspace r) \<and>
   (Ns_StrTrim s \<noteq> [] \<longrightarrow> \<not> c_isspace (hd (Ns_StrTrim s)) \<and> \<not> c_isspace (last (Ns_StrTrim s)))"
proof -
  define t where "t = rev (dropWhile c_isspace (rev s))"
  define r where "r = rev (takeWhile c_isspace (rev s))"
  define l where "l = takeWhile c_isspace t"
  have trim: "Ns_StrTrim s = dropWhile c_isspace t"
    by (simp add: Ns_StrTrim_def Ns_StrTrimLeft_def Ns_StrTrimRight_dropWhile t_def)
  have "s = t @ r" by (metis t_def r_def rev_append rev_rev_ident takeWhile_dropWhile_id)
  moreover have "t = l @ Ns_StrTrim s" by (simp add: trim l_def)
  ultimately have parts: "s = l @ Ns_StrTrim s @ r" by (metis append.assoc)
  have spaces: "list_all c_isspace l" "list_all c_isspace r"
    by (auto simp: l_def r_def list_all_iff dest: set_takeWhileD)
  have ends: "\<not> c_isspace (hd (Ns_StrTrim s))" "\<not> c_isspace (last (Ns_StrTrim s))"
    if "Ns_StrTrim s \<noteq> []"
  proof -
    show "\<not> c_isspace (hd (Ns_StrTrim s))" using that by (simp add: trim hd_dropWhile)
    have "last (Ns_StrTrim s) = last t"
      using that by (metis trim dropWhile_eq_drop last_drop drop_eq_Nil not_less)
    moreover have "t \<noteq> []" using that by (auto simp: trim)
    ultimately show "\<not> c_isspace (last (Ns_StrTrim s))"
      by (simp add: t_def last_rev hd_dropWhile)
  qed
  show ?thesis using parts spaces ends by blast
qed

theorem Ns_StrTrim_spec_witness:
  "Ns_StrTrim '' a b  '' \<noteq> [] \<and> \<not> c_isspace (hd (Ns_StrTrim '' a b  '')) \<and>
   \<not> c_isspace (last (Ns_StrTrim '' a b  ''))"
proof -
  have "Ns_StrTrim '' a b  '' \<noteq> []" by code_simp
  then show ?thesis using Ns_StrTrim_spec [of "'' a b  ''"] by blast
qed

subsection \<open>Eight bytes at a time\<close>

lemma byte_exhaust:
  assumes "list_all (\<lambda>n. P (word_of_nat n)) [0..<256]"
  shows "P (b :: byte)"
proof -
  have "unat b < 2 ^ LENGTH(8)" by (rule unsigned_less)
  then have "unat b \<in> set [0..<256]" unfolding set_upt atLeastLessThan_iff by simp
  moreover have "\<forall>n\<in>set [0..<256]. P (word_of_nat n)" using assms by (simp only: list_all_iff)
  ultimately have "P (word_of_nat (unat b))" by (rule bspec [rotated])
  then show ?thesis by simp
qed

lemma byte_high_bit: "bit (b :: byte) 7 \<longleftrightarrow> \<not> b < 0x80"
  by (rule byte_exhaust) code_simp

lemma bit_load64:
  "bit (load64 bs) n \<longleftrightarrow> n < 64 \<and> n div 8 < length bs \<and> bit (bs ! (n div 8)) (n mod 8)"
proof (induction bs arbitrary: n)
  case (Cons b bs)
  show ?case
  proof (cases "n < 8")
    case True
    then show ?thesis by (simp add: bit_or_iff bit_push_bit_iff bit_ucast_iff)
  next
    case False
    then obtain m where m: "n = m + 8" by (metis add.commute le_Suc_ex not_less)
    have "\<not> bit (ucast b :: 64 word) (m + 8)"
      using bit_imp_le_length [of b "m + 8"] by (auto simp: bit_ucast_iff)
    then have "bit (load64 (b # bs)) n \<longleftrightarrow> m + 8 < 64 \<and> bit (load64 bs) m"
      using bit_imp_le_length [of "push_bit 8 (load64 bs)" "m + 8"]
      by (auto simp: m bit_or_iff bit_push_bit_iff)
    moreover have "n div 8 = Suc (m div 8)" "n mod 8 = m mod 8" by (simp_all add: m)
    ultimately show ?thesis using Cons [of m] m by auto
  qed
qed simp

lemma bit_ascii_mask: "bit ascii_mask n \<longleftrightarrow> n < 64 \<and> n mod 8 = 7"
proof (cases "n < 64")
  case True
  moreover have "list_all (\<lambda>n. bit ascii_mask n = (n mod 8 = 7)) [0..<64]"
    unfolding ascii_mask_def by code_simp
  ultimately show ?thesis by (simp add: list_all_iff)
qed (auto dest: bit_imp_le_length)

lemma load64_ascii:
  assumes "length bs \<le> 8"
  shows "load64 bs AND ascii_mask = 0 \<longleftrightarrow> list_all (\<lambda>b. b < 0x80) bs"
proof -
  have "load64 bs AND ascii_mask = 0 \<longleftrightarrow> (\<forall>n. \<not> (bit (load64 bs) n \<and> bit ascii_mask n))"
    using bit_imp_le_length [of "load64 bs"] by (auto simp: bit_eq_iff bit_and_iff)
  also have "\<dots> \<longleftrightarrow> (\<forall>i<length bs. \<not> bit (bs ! i) 7)"
  proof
    assume none: "\<forall>n. \<not> (bit (load64 bs) n \<and> bit ascii_mask n)"
    show "\<forall>i<length bs. \<not> bit (bs ! i) 7"
    proof (intro allI impI)
      fix i assume "i < length bs"
      then show "\<not> bit (bs ! i) 7"
        using none [rule_format, of "8 * i + 7"] assms by (simp add: bit_load64 bit_ascii_mask)
    qed
  next
    assume "\<forall>i<length bs. \<not> bit (bs ! i) 7"
    then show "\<forall>n. \<not> (bit (load64 bs) n \<and> bit ascii_mask n)"
      by (auto simp: bit_load64 bit_ascii_mask)
  qed
  also have "\<dots> \<longleftrightarrow> list_all (\<lambda>b. b < 0x80) bs"
    by (simp add: list_all_length byte_high_bit)
  finally show ?thesis .
qed

text \<open>No high bit in any of the masks: the invariant of the three loops of \<^verbatim>\<open>Ns_Is7bit\<close>.\<close>

definition mask_clear :: "64 word \<Rightarrow> bool" where
  "mask_clear m \<longleftrightarrow> m AND ascii_mask = 0"

lemma mask_clear_0 [simp]: "mask_clear 0"
  by (simp add: mask_clear_def)

lemma mask_clear_OR: "mask_clear (a OR b) \<longleftrightarrow> mask_clear a \<and> mask_clear b"
  by (auto simp: mask_clear_def bit_eq_iff bit_and_iff bit_or_iff)

lemma mask_clear_load: "length bs \<le> 8 \<Longrightarrow> mask_clear (load64 bs) \<longleftrightarrow> list_all (\<lambda>b. b < 0x80) bs"
  by (simp add: mask_clear_def load64_ascii)

lemma mask_clear_ucast: "mask_clear (ucast (b :: byte)) \<longleftrightarrow> b < 0x80"
  using mask_clear_load [of "[b]"] by simp

lemma is7bit_loop1_clear:
  "mask_clear (is7bit_loop1 m bs) \<longleftrightarrow> mask_clear m \<and> list_all (\<lambda>b. b < 0x80) bs"
  by (induction bs arbitrary: m) (auto simp: mask_clear_OR mask_clear_ucast)

lemma is7bit_loop8_clear:
  "is7bit_loop8 m bs = (m', rest) \<Longrightarrow>
    mask_clear m' \<and> list_all (\<lambda>b. b < 0x80) rest \<longleftrightarrow> mask_clear m \<and> list_all (\<lambda>b. b < 0x80) bs"
proof (induction m bs rule: is7bit_loop8.induct)
  case (1 m bs)
  have split: "list_all (\<lambda>b. b < 0x80) bs \<longleftrightarrow>
    list_all (\<lambda>b. b < 0x80) (take 8 bs) \<and> list_all (\<lambda>b. b < 0x80) (drop 8 bs)"
    by (metis append_take_drop_id list_all_append)
  show ?case
  proof (cases "8 \<le> length bs")
    case True
    then have "is7bit_loop8 (m OR load64 (take 8 bs)) (drop 8 bs) = (m', rest)"
      using "1.prems" by (simp add: is7bit_loop8.simps [of m bs])
    from "1.IH" [OF True this] show ?thesis by (simp add: mask_clear_OR mask_clear_load split)
  next
    case False
    with "1.prems" show ?thesis by (simp add: is7bit_loop8.simps [of m bs])
  qed
qed

definition masks_clear :: "masks \<Rightarrow> bool" where
  "masks_clear m = (case m of (m1, m2, m3, m4) \<Rightarrow>
     mask_clear m1 \<and> mask_clear m2 \<and> mask_clear m3 \<and> mask_clear m4)"

lemma list_all_blocks:
  "list_all P bs \<longleftrightarrow> list_all P (take 8 bs) \<and> list_all P (take 8 (drop 8 bs)) \<and>
    list_all P (take 8 (drop 16 bs)) \<and> list_all P (take 8 (drop 24 bs)) \<and> list_all P (drop 32 bs)"
proof -
  have step: "list_all P (drop n bs) \<longleftrightarrow> list_all P (take 8 (drop n bs)) \<and> list_all P (drop (n + 8) bs)"
    for n by (metis append_take_drop_id list_all_append drop_drop add.commute)
  show ?thesis using step [of 0] step [of 8] step [of 16] step [of 24] by simp
qed

lemma is7bit_loop32_clear:
  "is7bit_loop32 m bs = (m', rest) \<Longrightarrow>
    masks_clear m' \<and> list_all (\<lambda>b. b < 0x80) rest \<longleftrightarrow> masks_clear m \<and> list_all (\<lambda>b. b < 0x80) bs"
proof (induction m bs rule: is7bit_loop32.induct)
  case (1 m bs)
  obtain m1 m2 m3 m4 where m: "m = (m1, m2, m3, m4)" by (cases m) auto
  show ?case
  proof (cases "32 \<le> length bs")
    case True
    let ?m = "(m1 OR load64 (take 8 bs), m2 OR load64 (take 8 (drop 8 bs)),
      m3 OR load64 (take 8 (drop 16 bs)), m4 OR load64 (take 8 (drop 24 bs)))"
    have "is7bit_loop32 ?m (drop 32 bs) = (m', rest)"
      using "1.prems" True by (simp add: is7bit_loop32.simps [of "(m1, m2, m3, m4)" bs] m)
    from "1.IH" [OF True m [symmetric] refl refl this]
    have "masks_clear m' \<and> list_all (\<lambda>b. b < 0x80) rest \<longleftrightarrow>
      masks_clear ?m \<and> list_all (\<lambda>b. b < 0x80) (drop 32 bs)" .
    also have "\<dots> \<longleftrightarrow> masks_clear m \<and> list_all (\<lambda>b. b < 0x80) bs"
      by (simp add: m masks_clear_def mask_clear_OR mask_clear_load
          list_all_blocks [of "\<lambda>b. b < 0x80" bs]) blast
    finally show ?thesis .
  next
    case False
    with 1 show ?thesis by (simp add: is7bit_loop32.simps [of m bs])
  qed
qed

text \<open>
  The block-wise test of \<^verbatim>\<open>Ns_Is7bit\<close> is the byte-wise one: it accepts exactly the byte
  sequences without a byte of 128 or more.
\<close>

theorem Ns_Is7bit_correct: "Ns_Is7bit bytes \<longleftrightarrow> list_all (\<lambda>b. b < 0x80) bytes"
proof -
  obtain m1 m2 m3 m4 rest where l32: "is7bit_loop32 (0, 0, 0, 0) bytes = ((m1, m2, m3, m4), rest)"
    by (metis prod.exhaust)
  obtain m1' rest' where l8: "is7bit_loop8 m1 rest = (m1', rest')" by fastforce
  have "Ns_Is7bit bytes \<longleftrightarrow> mask_clear (m1' OR m2 OR m3 OR m4 OR is7bit_loop1 0 rest')"
    by (simp add: Ns_Is7bit_def l32 l8 mask_clear_def)
  also have "\<dots> \<longleftrightarrow> list_all (\<lambda>b. b < 0x80) bytes"
    using is7bit_loop32_clear [OF l32] is7bit_loop8_clear [OF l8]
    by (simp add: masks_clear_def mask_clear_OR is7bit_loop1_clear) blast
  finally show ?thesis .
qed

subsection \<open>UTF-8\<close>

text \<open>The well-formed byte sequences of the Unicode standard, one sequence per equation.\<close>

definition utf8_cont :: "byte \<Rightarrow> bool" where
  "utf8_cont b \<longleftrightarrow> 0x80 \<le> b \<and> b \<le> 0xBF"

fun utf8_ref :: "byte list \<Rightarrow> bool" where
  "utf8_ref [] = True"
| "utf8_ref (a # r) =
     (if a \<le> 0x7F then utf8_ref r
      else if 0xC2 \<le> a \<and> a \<le> 0xDF then
        (case r of b # r2 \<Rightarrow> utf8_cont b \<and> utf8_ref r2 | _ \<Rightarrow> False)
      else if 0xE0 \<le> a \<and> a \<le> 0xEF then
        (case r of
           b # c # r3 \<Rightarrow>
             utf8_cont b \<and> utf8_cont c \<and> (a = 0xE0 \<longrightarrow> 0xA0 \<le> b) \<and> (a = 0xED \<longrightarrow> b \<le> 0x9F) \<and> utf8_ref r3
         | _ \<Rightarrow> False)
      else if 0xF0 \<le> a \<and> a \<le> 0xF4 then
        (case r of
           b # c # d # r4 \<Rightarrow>
             utf8_cont b \<and> utf8_cont c \<and> utf8_cont d \<and> (a = 0xF0 \<longrightarrow> 0x90 \<le> b) \<and>
             (a = 0xF4 \<longrightarrow> b \<le> 0x8F) \<and> utf8_ref r4
         | _ \<Rightarrow> False)
      else False)"

lemma utf8_cont_iff: "utf8_cont b \<longleftrightarrow> b AND 0xC0 = 0x80"
  unfolding utf8_cont_def by (rule byte_exhaust) code_simp

lemma utf8_ref_ascii: "list_all (\<lambda>b. b < 0x80) xs \<Longrightarrow> utf8_ref (xs @ r) = utf8_ref r"
proof (induction xs)
  case (Cons x xs)
  have "x < 0x80 \<longrightarrow> x \<le> 0x7F" by (rule byte_exhaust) code_simp
  with Cons show ?case by simp
qed simp

lemma Ns_Valid_UTF8_ref: "Ns_Valid_UTF8 bytes = utf8_ref bytes"
proof (induction bytes rule: Ns_Valid_UTF8.induct)
  case (1 bytes)
  show ?case
  proof (cases "length bytes \<ge> 8 \<and> load64 (take 8 bytes) AND ascii_mask = 0")
    case True
    then have "list_all (\<lambda>b. b < 0x80) (take 8 bytes)" by (simp add: load64_ascii)
    then have "utf8_ref (take 8 bytes @ drop 8 bytes) = utf8_ref (drop 8 bytes)" by (rule utf8_ref_ascii)
    with True "1.IH"(1) show ?thesis by (simp add: Ns_Valid_UTF8.simps [of bytes])
  next
    case False
    note IH = "1.IH"(2-) [OF False]
    show ?thesis
    proof (cases bytes)
      case (Cons a r)
      note step = trans [OF Ns_Valid_UTF8.simps [of "a # r"] if_not_P [OF False [unfolded Cons]],
        unfolded list.case]
      note ranges = word_le_nat_alt word_less_nat_alt utf8_cont_iff
      consider "a < 0x80" | "\<not> a < 0x80" "a < 0xE0" | "\<not> a < 0x80" "\<not> a < 0xE0" "a < 0xF0"
        | "\<not> a < 0x80" "\<not> a < 0xE0" "\<not> a < 0xF0" by blast
      then have "Ns_Valid_UTF8 (a # r) = utf8_ref (a # r)"
      proof cases
        case 1
        with IH(1) [OF Cons 1] show ?thesis by (simp add: step ranges)
      next
        case 2
        show ?thesis
        proof (cases r)
          case (Cons b r2)
          with 2 IH(2) [OF \<open>bytes = a # r\<close> 2 Cons] show ?thesis unfolding step by (auto simp: ranges)
        next
          case Nil
          with 2 show ?thesis unfolding step by (simp add: ranges)
        qed
      next
        case 3
        show ?thesis
        proof (cases "\<exists>b c r3. r = b # c # r3")
          case True
          then obtain b c r3 where r: "r = b # c # r3" by blast
          with 3 IH(3) [OF Cons 3 r refl] show ?thesis unfolding step by (auto simp: ranges)
        next
          case False
          then have "(case r of b # c # r3 \<Rightarrow> f b c r3 | _ \<Rightarrow> False) = False" for f
            by (auto split: list.split)
          with 3 show ?thesis unfolding step utf8_ref.simps by (simp add: ranges)
        qed
      next
        case 4
        show ?thesis
        proof (cases "\<exists>b c d r4. r = b # c # d # r4")
          case True
          then obtain b c d r4 where r: "r = b # c # d # r4" by blast
          with 4 IH(4) [OF Cons 4 r refl refl] show ?thesis unfolding step by (auto simp: ranges)
        next
          case False
          then have "(case r of b # c # d # r4 \<Rightarrow> f b c d r4 | _ \<Rightarrow> False) = False" for f
            by (auto split: list.split)
          with 4 show ?thesis unfolding step utf8_ref.simps by (simp add: ranges)
        qed
      qed
      with Cons show ?thesis by simp
    qed (simp add: Ns_Valid_UTF8.simps)
  qed
qed

text \<open>The scalar values of Unicode: the code points without the surrogates.\<close>

definition unicode_scalar :: "32 word \<Rightarrow> bool" where
  "unicode_scalar cp \<longleftrightarrow> cp \<le> 0x10FFFF \<and> \<not> (0xD800 \<le> cp \<and> cp \<le> 0xDFFF)"

lemma and_mask_mod:
  fixes x :: "32 word"
  shows "unat (x AND 0x3F) = unat x mod 64" "unat (x AND 0x1F) = unat x mod 32"
    "unat (x AND 0x0F) = unat x mod 16" "unat (x AND 0x07) = unat x mod 8"
proof -
  have m: "x AND mask n = take_bit n x" for n by (simp add: take_bit_eq_mask)
  show "unat (x AND 0x3F) = unat x mod 64" "unat (x AND 0x1F) = unat x mod 32"
    "unat (x AND 0x0F) = unat x mod 16" "unat (x AND 0x07) = unat x mod 8"
    using m [of 6] m [of 5] m [of 4] m [of 3]
    by (simp_all add: mask_eq_exp_minus_1 take_bit_eq_mod unat_mod)
qed

lemma unat_drop_bit_32: "unat (drop_bit n (x :: 32 word)) = unat x div 2 ^ n"
  by (metis unat_drop_bit_eq drop_bit_eq_div)

lemma tag_byte:
  fixes x :: "32 word"
  shows "unat x < 64 \<Longrightarrow> unat (ucast (x OR 0x80) :: byte) = 128 + unat x"
    "unat x < 32 \<Longrightarrow> unat (ucast (x OR 0xC0) :: byte) = 192 + unat x"
    "unat x < 16 \<Longrightarrow> unat (ucast (x OR 0xE0) :: byte) = 224 + unat x"
    "unat x < 8 \<Longrightarrow> unat (ucast (x OR 0xF0) :: byte) = 240 + unat x"
proof -
  have "list_all (\<lambda>n. unat (ucast (word_of_nat n OR 0x80 :: 32 word) :: byte) = 128 + n) [0..<64]"
    "list_all (\<lambda>n. unat (ucast (word_of_nat n OR 0xC0 :: 32 word) :: byte) = 192 + n) [0..<32]"
    "list_all (\<lambda>n. unat (ucast (word_of_nat n OR 0xE0 :: 32 word) :: byte) = 224 + n) [0..<16]"
    "list_all (\<lambda>n. unat (ucast (word_of_nat n OR 0xF0 :: 32 word) :: byte) = 240 + n) [0..<8]"
    by code_simp+
  then have "\<forall>n\<in>{0..<64}. unat (ucast (word_of_nat n OR 0x80 :: 32 word) :: byte) = 128 + n"
    "\<forall>n\<in>{0..<32}. unat (ucast (word_of_nat n OR 0xC0 :: 32 word) :: byte) = 192 + n"
    "\<forall>n\<in>{0..<16}. unat (ucast (word_of_nat n OR 0xE0 :: 32 word) :: byte) = 224 + n"
    "\<forall>n\<in>{0..<8}. unat (ucast (word_of_nat n OR 0xF0 :: 32 word) :: byte) = 240 + n"
    unfolding list_all_iff set_upt .
  note all = this [THEN bspec, of "unat x", unfolded atLeastLessThan_iff]
  show "unat x < 64 \<Longrightarrow> unat (ucast (x OR 0x80) :: byte) = 128 + unat x"
    "unat x < 32 \<Longrightarrow> unat (ucast (x OR 0xC0) :: byte) = 192 + unat x"
    "unat x < 16 \<Longrightarrow> unat (ucast (x OR 0xE0) :: byte) = 224 + unat x"
    "unat x < 8 \<Longrightarrow> unat (ucast (x OR 0xF0) :: byte) = 240 + unat x"
    using all by simp_all
qed

text \<open>The encoder in numbers.\<close>

definition utf8_nat :: "nat \<Rightarrow> nat list" where
  "utf8_nat n =
     (if n < 0x80 then [n]
      else if n < 0x800 then [192 + n div 64, 128 + n mod 64]
      else if n < 0x10000 then [224 + n div 4096, 128 + n div 64 mod 64, 128 + n mod 64]
      else [240 + n div 262144, 128 + n div 4096 mod 64, 128 + n div 64 mod 64, 128 + n mod 64])"

lemma Ns_Utf8FromCodePoint_nat:
  assumes "cp \<le> 0x10FFFF"
  shows "map unat (Ns_Utf8FromCodePoint cp) = utf8_nat (unat cp)"
proof -
  have le: "cp \<le> 0x7F \<longleftrightarrow> unat cp < 0x80" "cp \<le> 0x7FF \<longleftrightarrow> unat cp < 0x800"
    "cp \<le> 0xFFFF \<longleftrightarrow> unat cp < 0x10000" "unat cp \<le> 0x10FFFF"
    using assms by (auto simp: word_le_nat_alt)
  have "unat (ucast cp :: byte) = unat cp" if "unat cp < 0x80"
    using that by (simp add: unsigned_ucast_eq take_bit_nat_eq_self)
  then show ?thesis
    using assms le(4)
    by (auto simp: Ns_Utf8FromCodePoint_def utf8_nat_def le(1-3) tag_byte and_mask_mod unat_drop_bit_32)
qed

lemma sextets:
  fixes n :: nat
  shows "n = 64 * (n div 64) + n mod 64" "n div 64 = 64 * (n div 4096) + n div 64 mod 64"
    "n div 4096 = 64 * (n div 262144) + n div 4096 mod 64" "n mod 64 \<le> 63" "n div 64 mod 64 \<le> 63"
    "n div 4096 mod 64 \<le> 63"
proof -
  have "n div 4096 = n div 64 div 64" "n div 262144 = n div 4096 div 64"
    by (simp_all flip: div_mult2_eq)
  then show "n = 64 * (n div 64) + n mod 64" "n div 64 = 64 * (n div 4096) + n div 64 mod 64"
    "n div 4096 = 64 * (n div 262144) + n div 4096 mod 64" "n mod 64 \<le> 63" "n div 64 mod 64 \<le> 63"
    "n div 4096 mod 64 \<le> 63"
    by (simp_all add: less_Suc_eq_le [symmetric])
qed

lemma utf8_ref_encode:
  assumes "unicode_scalar cp"
  shows "utf8_ref (Ns_Utf8FromCodePoint cp @ r) = utf8_ref r"
proof -
  let ?n = "unat cp"
  note ranges = word_le_nat_alt word_less_nat_alt word_unat_eq_iff utf8_cont_def
  have n: "?n \<le> 0x10FFFF" "\<not> (0xD800 \<le> ?n \<and> ?n \<le> 0xDFFF)"
    using assms by (simp_all add: unicode_scalar_def word_le_nat_alt)
  have enc: "map unat (Ns_Utf8FromCodePoint cp) = utf8_nat ?n"
    using assms by (simp add: unicode_scalar_def Ns_Utf8FromCodePoint_nat)
  consider "?n < 0x80" | "0x80 \<le> ?n" "?n < 0x800" | "0x800 \<le> ?n" "?n < 0x10000" | "0x10000 \<le> ?n" by linarith
  then show ?thesis
  proof cases
    case 1
    with enc show ?thesis by (auto simp: utf8_nat_def ranges)
  next
    case 2
    with enc obtain a b where "Ns_Utf8FromCodePoint cp = [a, b]" "unat a = 192 + ?n div 64" "unat b = 128 + ?n mod 64"
      by (auto simp: utf8_nat_def)
    with 2 show ?thesis by (simp add: ranges) linarith
  next
    case 3
    with enc obtain a b c where "Ns_Utf8FromCodePoint cp = [a, b, c]" "unat a = 224 + ?n div 4096"
      "unat b = 128 + ?n div 64 mod 64" "unat c = 128 + ?n mod 64"
      by (auto simp: utf8_nat_def)
    moreover have "?n div 4096 \<le> 15" "?n div 64 mod 64 \<le> 63" "?n mod 64 \<le> 63"
      "?n div 4096 = 0 \<longrightarrow> 32 \<le> ?n div 64 mod 64" "?n div 4096 = 13 \<longrightarrow> ?n div 64 mod 64 < 32"
      using 3 n sextets [of ?n] by linarith+
    ultimately show ?thesis by (auto simp: ranges)
  next
    case 4
    with enc obtain a b c d where "Ns_Utf8FromCodePoint cp = [a, b, c, d]" "unat a = 240 + ?n div 262144"
      "unat b = 128 + ?n div 4096 mod 64" "unat c = 128 + ?n div 64 mod 64" "unat d = 128 + ?n mod 64"
      by (auto simp: utf8_nat_def)
    moreover have "?n div 262144 \<le> 4" "?n div 4096 mod 64 \<le> 63" "?n div 64 mod 64 \<le> 63" "?n mod 64 \<le> 63"
      "?n div 262144 = 0 \<longrightarrow> 16 \<le> ?n div 4096 mod 64" "?n div 262144 = 4 \<longrightarrow> ?n div 4096 mod 64 < 16"
      using 4 n sextets [of ?n] by linarith+
    ultimately show ?thesis by (auto simp: ranges)
  qed
qed

lemma scalar_of_bytes:
  assumes "map unat bs = utf8_nat n" "n \<le> 0x10FFFF" "\<not> (0xD800 \<le> n \<and> n \<le> 0xDFFF)"
  shows "\<exists>cp. unicode_scalar cp \<and> Ns_Utf8FromCodePoint cp = bs"
proof -
  have n: "unat (word_of_nat n :: 32 word) = n"
    using assms(2) by (simp add: unat_of_nat take_bit_nat_eq_self)
  have sc: "unicode_scalar (word_of_nat n)"
    using assms(2,3) by (simp add: unicode_scalar_def word_le_nat_alt n)
  then have "map unat (Ns_Utf8FromCodePoint (word_of_nat n)) = map unat bs"
    by (simp add: unicode_scalar_def Ns_Utf8FromCodePoint_nat n assms(1))
  then have "Ns_Utf8FromCodePoint (word_of_nat n) = bs"
    by (rule map_injective) (simp add: inj_def word_unat_eq_iff)
  with sc show ?thesis by blast
qed

lemma utf8_nat_join:
  assumes "y < 64" "z < 64"
  shows "2 \<le> x \<Longrightarrow> x < 32 \<Longrightarrow> utf8_nat (x * 64 + y) = [192 + x, 128 + y]"
    "x < 16 \<Longrightarrow> x = 0 \<longrightarrow> 32 \<le> y \<Longrightarrow> utf8_nat (x * 4096 + y * 64 + z) = [224 + x, 128 + y, 128 + z]"
    "x < 5 \<Longrightarrow> x = 0 \<longrightarrow> 16 \<le> y \<Longrightarrow> u < 64 \<Longrightarrow>
       utf8_nat (x * 262144 + y * 4096 + z * 64 + u) = [240 + x, 128 + y, 128 + z, 128 + u]"
proof -
  have s2: "(x * 64 + y) div 64 = x" "(x * 64 + y) mod 64 = y" using assms by simp_all
  show "2 \<le> x \<Longrightarrow> x < 32 \<Longrightarrow> utf8_nat (x * 64 + y) = [192 + x, 128 + y]"
    using assms(1) unfolding utf8_nat_def by (simp add: s2)
  have "(x * 4096 + y * 64 + z) div 64 = x * 64 + y" "(x * 4096 + y * 64 + z) mod 64 = z"
    using assms(2) div_mult_self3 [of 64 z "x * 64 + y"] mod_mult_self3 [of "x * 64 + y" 64 z]
    by (simp_all add: algebra_simps)
  moreover have "(x * 4096 + y * 64 + z) div 4096 = (x * 4096 + y * 64 + z) div 64 div 64"
    by (simp flip: div_mult2_eq)
  ultimately have s3: "(x * 4096 + y * 64 + z) div 4096 = x" "(x * 4096 + y * 64 + z) div 64 mod 64 = y"
    "(x * 4096 + y * 64 + z) mod 64 = z" using s2 by simp_all
  show "x < 16 \<Longrightarrow> x = 0 \<longrightarrow> 32 \<le> y \<Longrightarrow> utf8_nat (x * 4096 + y * 64 + z) = [224 + x, 128 + y, 128 + z]"
    using assms unfolding utf8_nat_def by (subst if_not_P, linarith)+ (simp add: s3)
  assume u: "u < 64" and x: "x < 5" "x = 0 \<longrightarrow> 16 \<le> y"
  let ?n = "x * 262144 + y * 4096 + z * 64 + u"
  have "?n div 64 = x * 4096 + y * 64 + z" "?n mod 64 = u"
    using u div_mult_self3 [of 64 u "x * 4096 + y * 64 + z"] mod_mult_self3 [of "x * 4096 + y * 64 + z" 64 u]
    by (simp_all add: algebra_simps)
  moreover have "?n div 4096 = ?n div 64 div 64" "?n div 262144 = ?n div 64 div 4096"
    by (simp_all flip: div_mult2_eq)
  moreover have "(x * 4096 + y * 64 + z) div 64 mod 64 = y" "(x * 4096 + y * 64 + z) div 4096 = x"
    using s3 by simp_all
  ultimately have "?n div 262144 = x" "?n div 4096 mod 64 = y" "?n div 64 mod 64 = z" "?n mod 64 = u"
    using s3(3) by simp_all
  moreover have "\<not> ?n < 0x80" "\<not> ?n < 0x800" "\<not> ?n < 0x10000" using x by (cases x; simp)+
  ultimately show "utf8_nat ?n = [240 + x, 128 + y, 128 + z, 128 + u]"
    unfolding utf8_nat_def by presburger
qed

lemma utf8_ref_decode:
  assumes "utf8_ref (a # r)"
  shows "\<exists>cp r'. unicode_scalar cp \<and> a # r = Ns_Utf8FromCodePoint cp @ r' \<and> utf8_ref r'"
proof -
  note ranges = word_le_nat_alt word_unat_eq_iff utf8_cont_def
  have found: ?thesis
    if "a # r = bs @ r'" "utf8_ref r'" "utf8_nat n = map unat bs" "n \<le> 0x10FFFF" "\<not> (0xD800 \<le> n \<and> n \<le> 0xDFFF)"
    for bs r' n
    using scalar_of_bytes [OF that(3) [symmetric] that(4,5)] that(1,2) by blast
  show ?thesis
  proof (cases "a \<le> 0x7F")
    case True
    with assms show ?thesis
      by (intro found [of "[a]" r "unat a"]) (simp_all add: ranges utf8_nat_def)
  next
    case n1: False
    show ?thesis
    proof (cases "0xC2 \<le> a \<and> a \<le> 0xDF")
      case True
      with assms n1 obtain b r' where r: "r = b # r'" "utf8_cont b" "utf8_ref r'"
        by (auto split: list.splits)
      obtain x y where xy: "unat a = 192 + x" "unat b = 128 + y" "2 \<le> x" "x < 32" "y < 64"
      proof
        show "unat a = 192 + (unat a - 192)" "unat b = 128 + (unat b - 128)" "2 \<le> unat a - 192"
          "unat a - 192 < 32" "unat b - 128 < 64"
          using r True by (auto simp: ranges)
      qed
      show ?thesis
        by (rule found [of "[a, b]" r' "x * 64 + y"]) (use r xy in \<open>simp_all add: utf8_nat_join\<close>)
    next
      case n2: False
      show ?thesis
      proof (cases "0xE0 \<le> a \<and> a \<le> 0xEF")
        case True
        with assms n1 n2 obtain b c r' where r: "r = b # c # r'" "utf8_cont b" "utf8_cont c"
          "a = 0xE0 \<longrightarrow> 0xA0 \<le> b" "a = 0xED \<longrightarrow> b \<le> 0x9F" "utf8_ref r'"
          by (auto split: list.splits)
        obtain x y z where xyz: "unat a = 224 + x" "unat b = 128 + y" "unat c = 128 + z" "x < 16" "y < 64" "z < 64"
          "x = 0 \<longrightarrow> 32 \<le> y" "x = 13 \<longrightarrow> y < 32"
        proof
          show "unat a = 224 + (unat a - 224)" "unat b = 128 + (unat b - 128)" "unat c = 128 + (unat c - 128)"
            "unat a - 224 < 16" "unat b - 128 < 64" "unat c - 128 < 64" "unat a - 224 = 0 \<longrightarrow> 32 \<le> unat b - 128"
            "unat a - 224 = 13 \<longrightarrow> unat b - 128 < 32"
            using r True by (auto simp: ranges)
        qed
        show ?thesis
        proof (rule found [of "[a, b, c]" r' "x * 4096 + y * 64 + z"])
          show "\<not> (0xD800 \<le> x * 4096 + y * 64 + z \<and> x * 4096 + y * 64 + z \<le> 0xDFFF)"
          proof
            assume n: "0xD800 \<le> x * 4096 + y * 64 + z \<and> x * 4096 + y * 64 + z \<le> 0xDFFF"
            then have "\<not> x \<le> 12" "\<not> 14 \<le> x" using xyz(4-6) by linarith+
            then have "x = 13" by linarith
            with xyz(6,8) n show False by simp
          qed
        qed (use r xyz in \<open>simp_all add: utf8_nat_join\<close>)
      next
        case False
        with assms n1 n2 have a: "0xF0 \<le> a \<and> a \<le> 0xF4" by (simp split: if_splits)
        with assms n1 n2 False obtain b c d r' where r: "r = b # c # d # r'" "utf8_cont b" "utf8_cont c" "utf8_cont d"
          "a = 0xF0 \<longrightarrow> 0x90 \<le> b" "a = 0xF4 \<longrightarrow> b \<le> 0x8F" "utf8_ref r'"
          by (auto split: list.splits)
        obtain x y z u where xyz: "unat a = 240 + x" "unat b = 128 + y" "unat c = 128 + z" "unat d = 128 + u"
          "x < 5" "y < 64" "z < 64" "u < 64" "x = 0 \<longrightarrow> 16 \<le> y" "x = 4 \<longrightarrow> y < 16"
        proof
          show "unat a = 240 + (unat a - 240)" "unat b = 128 + (unat b - 128)" "unat c = 128 + (unat c - 128)"
            "unat d = 128 + (unat d - 128)" "unat a - 240 < 5" "unat b - 128 < 64" "unat c - 128 < 64"
            "unat d - 128 < 64" "unat a - 240 = 0 \<longrightarrow> 16 \<le> unat b - 128" "unat a - 240 = 4 \<longrightarrow> unat b - 128 < 16"
            using r a by (auto simp: ranges)
        qed
        show ?thesis
        proof (rule found [of "[a, b, c, d]" r' "x * 262144 + y * 4096 + z * 64 + u"])
          show "x * 262144 + y * 4096 + z * 64 + u \<le> 0x10FFFF"
            "\<not> (0xD800 \<le> x * 262144 + y * 4096 + z * 64 + u \<and> x * 262144 + y * 4096 + z * 64 + u \<le> 0xDFFF)"
            using xyz(5-10) by linarith+
        qed (use r xyz in \<open>simp_all add: utf8_nat_join\<close>)
      qed
    qed
  qed
qed

lemma Ns_Utf8FromCodePoint_nonempty: "cp \<le> 0x10FFFF \<Longrightarrow> Ns_Utf8FromCodePoint cp \<noteq> []"
  using Ns_Utf8FromCodePoint_nat [of cp] by (auto simp: utf8_nat_def split: if_splits)

lemma utf8_ref_iff:
  "utf8_ref bytes \<longleftrightarrow> (\<exists>cps. list_all unicode_scalar cps \<and> bytes = concat (map Ns_Utf8FromCodePoint cps))"
proof
  show "\<exists>cps. list_all unicode_scalar cps \<and> bytes = concat (map Ns_Utf8FromCodePoint cps)" if "utf8_ref bytes"
    using that
  proof (induction bytes rule: length_induct)
    case (1 bytes)
    show ?case
    proof (cases bytes)
      case (Cons a r)
      with utf8_ref_decode [of a r] "1.prems" obtain cp r'
        where cp: "unicode_scalar cp" "bytes = Ns_Utf8FromCodePoint cp @ r'" "utf8_ref r'" by blast
      then have "length r' < length bytes"
        using Ns_Utf8FromCodePoint_nonempty by (simp add: unicode_scalar_def)
      with "1.IH" cp(3) obtain cps where "list_all unicode_scalar cps" "r' = concat (map Ns_Utf8FromCodePoint cps)"
        by blast
      with cp show ?thesis by (intro exI [of _ "cp # cps"]) simp
    qed (auto intro: exI [of _ "[]"])
  qed
  show "utf8_ref bytes" if "\<exists>cps. list_all unicode_scalar cps \<and> bytes = concat (map Ns_Utf8FromCodePoint cps)"
  proof -
    have "list_all unicode_scalar cps \<Longrightarrow> utf8_ref (concat (map Ns_Utf8FromCodePoint cps))" for cps
      by (induction cps) (simp_all add: utf8_ref_encode)
    with that show ?thesis by blast
  qed
qed

text \<open>
  C40. \<^verbatim>\<open>Ns_Valid_UTF8\<close>, with its eight-byte fast path and its tests on bit masks, accepts a byte
  sequence exactly when it is the concatenation of what \<^verbatim>\<open>Ns_Utf8FromCodePoint\<close> writes for some
  sequence of Unicode scalar values (code points up to U+10FFFF without the surrogates).
\<close>

theorem Ns_Valid_UTF8_correct:
  "Ns_Valid_UTF8 bytes \<longleftrightarrow>
     (\<exists>cps. (\<forall>cp. cp \<in> set cps \<longrightarrow> cp \<le> 0x10FFFF \<and> \<not> (0xD800 \<le> cp \<and> cp \<le> 0xDFFF)) \<and>
            bytes = concat (map Ns_Utf8FromCodePoint cps))"
  by (simp add: Ns_Valid_UTF8_ref utf8_ref_iff list_all_iff unicode_scalar_def Ball_def)

theorem Ns_Valid_UTF8_correct_witness:
  "Ns_Valid_UTF8 [0xE2, 0x82, 0xAC] \<and> \<not> Ns_Valid_UTF8 [0xED, 0xA0, 0x80]"
proof
  show "Ns_Valid_UTF8 [0xE2, 0x82, 0xAC]"
    unfolding Ns_Valid_UTF8_correct by (intro exI [of _ "[0x20AC]"]) (simp, code_simp)
  show "\<not> Ns_Valid_UTF8 [0xED, 0xA0, 0x80]" by code_simp
qed

subsection \<open>Divergences\<close>

text \<open>The comment of \<^verbatim>\<open>Ns_Utf8FromCodePoint\<close> promises no output for a surrogate; the code
  encodes it, and the validator then refuses what was written.\<close>

lemma Ns_Utf8FromCodePoint_surrogate:
  "Ns_Utf8FromCodePoint 0xD800 = [0xED, 0xA0, 0x80]" "\<not> Ns_Valid_UTF8 (Ns_Utf8FromCodePoint 0xD800)"
  by code_simp+

text \<open>\<^verbatim>\<open>Ns_StrCaseFind\<close> reports a proper prefix of the needle at the end of the string as a match,
  and finds nothing when needle and string have the same length.\<close>

lemma Ns_StrCaseFind_prefix:
  "Ns_StrCaseFind ''xxab'' ''abc'' = Some ''ab''" "Ns_StrCaseFind ''abc'' ''abc'' = None"
  by code_simp+

end
