(* ===== verification/NsSet.thy ===== *)
theory NsSet
  imports NsStr
begin

unbundle bit_operations_syntax

text \<open>
  Sets of key/value pairs: the model of \<^verbatim>\<open>nsd/set.c\<close>, compiled with \<^verbatim>\<open>NS_SET_DSTRING\<close>. A set keeps
  its fields in an array of \<open>maxSize\<close> slots; the strings of the fields live in one growing buffer.
  This theory models what a caller reads through the field pointers: a field is a name and a value
  that may be NULL. The theory \<^verbatim>\<open>NsSetData\<close> models the buffer and shows that it represents these
  fields.

  A string argument with a length is a C string and an optional length; no length stands for
  \<^verbatim>\<open>TCL_INDEX_NONE\<close>. Operations that modify a set return the new set. Undefined behaviour of the
  source (reading outside of the field array, \<^verbatim>\<open>strlen(NULL)\<close>) is an error value.

  The interface \<open>set_find\<close> is what the search functions promise to the operations that use them
  (\<^verbatim>\<open>SetMerge\<close> takes the search function as an argument): the first field with the same canonical
  key. It is interpreted for \<^verbatim>\<open>Ns_SetFind\<close> and \<^verbatim>\<open>Ns_SetIFind\<close>.
\<close>

datatype set_error = OutOfBounds | NullDeref

record set_field =
  fname :: cstring
  fvalue :: "cstring option"

record ns_set =
  set_name :: "cstring option"
  set_fields :: "set_field list"
  maxSize :: nat
  flags :: "32 word"

definition NS_SET_OPTION_NOCASE :: "32 word" where
  "NS_SET_OPTION_NOCASE = 0x01"

abbreviation size_of :: "ns_set \<Rightarrow> nat" where
  "size_of st \<equiv> length (set_fields st)"

definition nocase :: "ns_set \<Rightarrow> bool" where
  "nocase st \<longleftrightarrow> flags st AND NS_SET_OPTION_NOCASE \<noteq> 0"

definition sized :: "cstring \<Rightarrow> nat option \<Rightarrow> cstring" where
  "sized s n = (case n of None \<Rightarrow> s | Some k \<Rightarrow> take k s)"

text \<open>The comparison functions the source passes around and compares by address.\<close>

datatype StringCmpProc = Strcmp | Strcasecmp | OtherCmp "cstring \<Rightarrow> cstring \<Rightarrow> int"

fun call_cmp :: "StringCmpProc \<Rightarrow> cstring \<Rightarrow> cstring \<Rightarrow> int" where
  "call_cmp Strcmp a b = strcmp a b"
| "call_cmp Strcasecmp a b = strcasecmp a b"
| "call_cmp (OtherCmp f) a b = f a b"

definition first_char :: "cstring \<Rightarrow> char" where
  "first_char s = (if s = [] then CHR 0x00 else hd s)"

subsection \<open>Operations\<close>

definition LowerStringWhenNeeded :: "cstring \<Rightarrow> nat \<Rightarrow> cstring" where
  "LowerStringWhenNeeded inputString stringLength =
     (let posOfUpperChar = Ns_UpperCharPos inputString stringLength
      in if posOfUpperChar > -1
         then take (nat posOfUpperChar) inputString @ Ns_StrToLower (drop (nat posOfUpperChar) inputString)
         else inputString)"

definition DStringLowerStringWhenNeeded :: "cstring \<Rightarrow> nat \<Rightarrow> cstring" where
  "DStringLowerStringWhenNeeded inputString stringLength =
     (let posOfUpperChar = Ns_UpperCharPos inputString stringLength
      in if posOfUpperChar > -1
         then (let ds = take stringLength inputString
               in take (nat posOfUpperChar) ds @ Ns_StrToLower (drop (nat posOfUpperChar) ds))
         else inputString)"

text \<open>The guard common to the searches: on a set marked \<open>NOCASE\<close> the key is lowered and
  \<^verbatim>\<open>strcasecmp\<close> replaced by \<^verbatim>\<open>strcmp\<close>.\<close>

definition search_args :: "ns_set \<Rightarrow> cstring \<Rightarrow> StringCmpProc \<Rightarrow> cstring \<times> StringCmpProc" where
  "search_args st key cmp =
     (if nocase st
      then (DStringLowerStringWhenNeeded key (length key),
            case cmp of Strcasecmp \<Rightarrow> Strcmp | _ \<Rightarrow> cmp)
      else (key, cmp))"

fun unique_loop :: "cstring \<Rightarrow> StringCmpProc \<Rightarrow> bool \<Rightarrow> set_field list \<Rightarrow> bool" where
  "unique_loop key cmp found [] = True"
| "unique_loop key cmp found (f # fs) =
     (if call_cmp cmp key (fname f) = 0
      then (if found then False else unique_loop key cmp True fs)
      else unique_loop key cmp found fs)"

definition Ns_SetUniqueCmp :: "ns_set \<Rightarrow> cstring \<Rightarrow> StringCmpProc \<Rightarrow> bool" where
  "Ns_SetUniqueCmp st key cmp =
     (let (key, cmp) = search_args st key cmp in unique_loop key cmp False (set_fields st))"

definition field_matches :: "cstring \<Rightarrow> StringCmpProc \<Rightarrow> cstring \<Rightarrow> bool" where
  "field_matches key cmp name =
     (case cmp of
        Strcmp \<Rightarrow> first_char key = first_char name \<and> strcmp key name = 0
      | _ \<Rightarrow> call_cmp cmp key name = 0)"

definition Ns_SetFindCmp :: "ns_set \<Rightarrow> cstring \<Rightarrow> StringCmpProc \<Rightarrow> int" where
  "Ns_SetFindCmp st key cmp =
     (let (key, cmp) = search_args st key cmp
      in case find_index (\<lambda>f. field_matches key cmp (fname f)) (set_fields st) of
           Some i \<Rightarrow> int i
         | None \<Rightarrow> -1)"

definition Ns_SetGetCmp :: "ns_set \<Rightarrow> cstring \<Rightarrow> StringCmpProc \<Rightarrow> cstring option" where
  "Ns_SetGetCmp st key cmp =
     (let idx = Ns_SetFindCmp st key cmp
      in if idx = -1 then None else fvalue (set_fields st ! nat idx))"

text \<open>An element of the result list is an index or a value pointer.\<close>

datatype dlist_el = DIdx nat | DVal "cstring option"

fun dlist_loop ::
  "cstring \<Rightarrow> StringCmpProc \<Rightarrow> bool \<Rightarrow> bool \<Rightarrow> nat \<Rightarrow> set_field list \<Rightarrow> dlist_el list" where
  "dlist_loop key cmp all getIdx idx [] = []"
| "dlist_loop key cmp all getIdx idx (f # fs) =
     (if field_matches key cmp (fname f)
      then (if getIdx then DIdx idx else DVal (fvalue f)) #
           (if \<not> all then [] else dlist_loop key cmp all getIdx (Suc idx) fs)
      else dlist_loop key cmp all getIdx (Suc idx) fs)"

definition NsSetGetCmpDListAppend ::
  "ns_set \<Rightarrow> cstring \<Rightarrow> bool \<Rightarrow> StringCmpProc \<Rightarrow> dlist_el list \<Rightarrow> bool \<Rightarrow> nat \<times> dlist_el list" where
  "NsSetGetCmpDListAppend st key all cmp dl getIdx =
     (let (key, cmp) = search_args st key cmp;
          found = dlist_loop key cmp all getIdx 0 (set_fields st)
      in (length found, dl @ found))"

definition Ns_SetUnique :: "ns_set \<Rightarrow> cstring \<Rightarrow> bool" where
  "Ns_SetUnique st key = Ns_SetUniqueCmp st key Strcmp"

definition Ns_SetIUnique :: "ns_set \<Rightarrow> cstring \<Rightarrow> bool" where
  "Ns_SetIUnique st key = Ns_SetUniqueCmp st key Strcasecmp"

definition Ns_SetFind :: "ns_set \<Rightarrow> cstring \<Rightarrow> int" where
  "Ns_SetFind st key = Ns_SetFindCmp st key Strcmp"

definition Ns_SetIFind :: "ns_set \<Rightarrow> cstring \<Rightarrow> int" where
  "Ns_SetIFind st key = Ns_SetFindCmp st key Strcasecmp"

definition Ns_SetGet :: "ns_set \<Rightarrow> cstring \<Rightarrow> cstring option" where
  "Ns_SetGet st key = Ns_SetGetCmp st key Strcmp"

definition Ns_SetIGet :: "ns_set \<Rightarrow> cstring \<Rightarrow> cstring option" where
  "Ns_SetIGet st key = Ns_SetGetCmp st key Strcasecmp"

definition SetGetValueCmp ::
  "ns_set \<Rightarrow> cstring \<Rightarrow> cstring option \<Rightarrow> StringCmpProc \<Rightarrow> cstring option" where
  "SetGetValueCmp st key dflt cmp =
     (let val = Ns_SetGetCmp st key cmp
      in if val = None \<or> val = Some [] then dflt else val)"

definition Ns_SetGetValue :: "ns_set \<Rightarrow> cstring \<Rightarrow> cstring option \<Rightarrow> cstring option" where
  "Ns_SetGetValue st key dflt = SetGetValueCmp st key dflt Strcmp"

definition Ns_SetIGetValue :: "ns_set \<Rightarrow> cstring \<Rightarrow> cstring option \<Rightarrow> cstring option" where
  "Ns_SetIGetValue st key dflt = SetGetValueCmp st key dflt Strcasecmp"

definition SetCreate :: "cstring option \<Rightarrow> nat \<Rightarrow> ns_set" where
  "SetCreate name sz = \<lparr>set_name = name, set_fields = [], maxSize = sz, flags = 0\<rparr>"

definition Ns_SetCreate :: "cstring option \<Rightarrow> ns_set" where
  "Ns_SetCreate name = SetCreate name 10"

definition Ns_SetCreateSz :: "cstring option \<Rightarrow> nat \<Rightarrow> ns_set" where
  "Ns_SetCreateSz name sz = SetCreate name sz"

definition Ns_SetPutSz ::
  "ns_set \<Rightarrow> cstring \<Rightarrow> nat option \<Rightarrow> cstring option \<Rightarrow> nat option \<Rightarrow> nat \<times> ns_set" where
  "Ns_SetPutSz st keyString keyLength valueString valueLength =
     (let idx = size_of st;
          st = (if idx + 1 \<ge> maxSize st then st\<lparr>maxSize := (idx + 1) * 2\<rparr> else st);
          name = sized keyString keyLength;
          val = map_option (\<lambda>v. sized v valueLength) valueString;
          name = (if nocase st
                  then LowerStringWhenNeeded name (case keyLength of None \<Rightarrow> length name | Some k \<Rightarrow> k)
                  else name)
      in (idx, st\<lparr>set_fields := set_fields st @ [\<lparr>fname = name, fvalue = val\<rparr>]\<rparr>))"

definition Ns_SetPut :: "ns_set \<Rightarrow> cstring \<Rightarrow> cstring option \<Rightarrow> nat \<times> ns_set" where
  "Ns_SetPut st key val = Ns_SetPutSz st key None val None"

definition Ns_SetPutValueSz :: "ns_set \<Rightarrow> nat \<Rightarrow> cstring \<Rightarrow> nat option \<Rightarrow> set_error + ns_set" where
  "Ns_SetPutValueSz st index val sz =
     (if index \<ge> maxSize st then Inl OutOfBounds
      else if index < size_of st then
        (let sz = (case sz of None \<Rightarrow> length val | Some k \<Rightarrow> k);
             f = set_fields st ! index;
             oldSize = (case fvalue f of None \<Rightarrow> 0 | Some v \<Rightarrow> length v)
         in if oldSize = 0 \<and> sz = 0 then Inr st
            else Inr (st\<lparr>set_fields := (set_fields st)[index := f\<lparr>fvalue := Some (take sz val)\<rparr>]\<rparr>))
      else Inr st)"

definition Ns_SetPutValue :: "ns_set \<Rightarrow> nat \<Rightarrow> cstring \<Rightarrow> set_error + ns_set" where
  "Ns_SetPutValue st index val = Ns_SetPutValueSz st index val None"

definition Ns_SetIUpdateSz ::
  "ns_set \<Rightarrow> cstring \<Rightarrow> nat option \<Rightarrow> cstring \<Rightarrow> nat option \<Rightarrow> set_error + nat \<times> ns_set" where
  "Ns_SetIUpdateSz st keyString keyLength valueString valueLength =
     (let idx = Ns_SetIFind st keyString
      in if idx \<noteq> -1 then
           (case Ns_SetPutValueSz st (nat idx) valueString valueLength of
              Inl e \<Rightarrow> Inl e
            | Inr st \<Rightarrow>
                (let f = set_fields st ! nat idx;
                     n = (case keyLength of None \<Rightarrow> length keyString | Some k \<Rightarrow> k);
                     st = (if first_char (fname f) \<noteq> first_char keyString
                            then st\<lparr>set_fields := (set_fields st)[nat idx :=
                                       f\<lparr>fname := take n keyString @ drop n (fname f)\<rparr>]\<rparr>
                            else st)
                 in Inr (nat idx, st)))
         else Inr (Ns_SetPutSz st keyString keyLength (Some valueString) valueLength))"

definition Ns_SetIUpdate :: "ns_set \<Rightarrow> cstring \<Rightarrow> cstring \<Rightarrow> set_error + nat \<times> ns_set" where
  "Ns_SetIUpdate st keyString valueString = Ns_SetIUpdateSz st keyString None valueString None"

definition Ns_SetUpdateSz ::
  "ns_set \<Rightarrow> cstring \<Rightarrow> nat option \<Rightarrow> cstring \<Rightarrow> nat option \<Rightarrow> set_error + nat \<times> ns_set" where
  "Ns_SetUpdateSz st keyString keyLength valueString valueLength =
     (let idx = Ns_SetFind st keyString
      in if idx \<noteq> -1 then
           (case Ns_SetPutValueSz st (nat idx) valueString valueLength of
              Inl e \<Rightarrow> Inl e
            | Inr st \<Rightarrow> Inr (nat idx, st))
         else Inr (Ns_SetPutSz st keyString keyLength (Some valueString) valueLength))"

definition Ns_SetUpdate :: "ns_set \<Rightarrow> cstring \<Rightarrow> cstring \<Rightarrow> set_error + nat \<times> ns_set" where
  "Ns_SetUpdate st keyString valueString = Ns_SetUpdateSz st keyString None valueString None"

text \<open>Truncation of the fields; \<^verbatim>\<open>NsSetData\<close> models the truncation of the buffer and says when the
  remaining fields keep their strings.\<close>

definition Ns_SetTrunc :: "ns_set \<Rightarrow> nat \<Rightarrow> ns_set" where
  "Ns_SetTrunc st sz = (if sz < size_of st then st\<lparr>set_fields := take sz (set_fields st)\<rparr> else st)"

definition NsSetResize :: "ns_set \<Rightarrow> nat \<Rightarrow> ns_set" where
  "NsSetResize st newSize =
     (if newSize \<noteq> size_of st
      then (let st = (if newSize < size_of st then Ns_SetTrunc st newSize else st)
            in st\<lparr>maxSize := newSize + 1\<rparr>)
      else st)"

text \<open>A negative index other than \<open>-1\<close> passes the guard and reads before the array.\<close>

definition Ns_SetDelete :: "ns_set \<Rightarrow> int \<Rightarrow> set_error + bool \<times> ns_set" where
  "Ns_SetDelete st index =
     (if index \<noteq> -1 \<and> index < int (size_of st)
      then (if index < 0 then Inl OutOfBounds
            else Inr (True, st\<lparr>set_fields := delete_at (nat index) (set_fields st)\<rparr>))
      else Inr (False, st))"

definition Ns_SetClearValues :: "ns_set \<Rightarrow> ns_set" where
  "Ns_SetClearValues st =
     (if list_ex (\<lambda>f. fvalue f \<noteq> None) (set_fields st)
      then st\<lparr>set_fields := map (\<lambda>f. f\<lparr>fvalue := None\<rparr>) (set_fields st)\<rparr>
      else st)"

definition Ns_SetDeleteKey :: "ns_set \<Rightarrow> cstring \<Rightarrow> set_error + bool \<times> ns_set" where
  "Ns_SetDeleteKey st key = Ns_SetDelete st (Ns_SetFind st key)"

definition Ns_SetIDeleteKey :: "ns_set \<Rightarrow> cstring \<Rightarrow> set_error + bool \<times> ns_set" where
  "Ns_SetIDeleteKey st key = Ns_SetDelete st (Ns_SetIFind st key)"

fun Ns_SetListFind :: "ns_set list \<Rightarrow> cstring option \<Rightarrow> ns_set option" where
  "Ns_SetListFind [] name = None"
| "Ns_SetListFind (st # sts) name =
     (case name of
        None \<Rightarrow> if set_name st = None then Some st else Ns_SetListFind sts name
      | Some n \<Rightarrow>
          if set_name st \<noteq> None \<and> strcmp (the (set_name st)) n = 0 then Some st
          else Ns_SetListFind sts name)"

text \<open>The name of a field is cut at the separator: the part before it selects the target set, the
  rest is the key there.\<close>

definition split_name :: "cstring \<Rightarrow> char \<Rightarrow> cstring option \<times> cstring" where
  "split_name nm sep =
     (case strchr nm sep of
        Some p \<Rightarrow> (Some (take p nm), drop (Suc p) nm)
      | None \<Rightarrow> (None, nm))"

definition same_name :: "cstring option \<Rightarrow> cstring option \<Rightarrow> bool" where
  "same_name a b =
     ((a = None \<and> b = None) \<or> (a \<noteq> None \<and> b \<noteq> None \<and> strcmp (the a) (the b) = 0))"

definition split_step :: "32 word \<Rightarrow> char \<Rightarrow> set_field \<Rightarrow> ns_set list \<Rightarrow> ns_set list" where
  "split_step flgs sep f out =
     (let (name, key) = split_name (fname f) sep
      in case find_index (\<lambda>probe. same_name name (set_name probe)) out of
           Some j \<Rightarrow> out[j := snd (Ns_SetPut (out ! j) key (fvalue f))]
         | None \<Rightarrow> out @ [snd (Ns_SetPut ((Ns_SetCreate name)\<lparr>flags := flgs\<rparr>) key (fvalue f))])"

definition Ns_SetSplitDList :: "ns_set \<Rightarrow> char \<Rightarrow> ns_set list \<Rightarrow> nat \<times> ns_set list" where
  "Ns_SetSplitDList st sep out =
     (let out = fold (split_step (flags st) sep) (set_fields st) out in (length out, out))"

text \<open>\<open>append_element\<close> stands for \<^verbatim>\<open>Tcl_DStringAppendElement\<close> of the Tcl library.\<close>

definition Ns_DStringAppendSet ::
  "(cstring \<Rightarrow> cstring option \<Rightarrow> cstring) \<Rightarrow> cstring \<Rightarrow> ns_set \<Rightarrow> cstring" where
  "Ns_DStringAppendSet append_element ds st =
     fold (\<lambda>f ds. append_element (append_element ds (Some (fname f))) (fvalue f)) (set_fields st) ds"

fun merge_loop :: "(ns_set \<Rightarrow> cstring \<Rightarrow> int) \<Rightarrow> ns_set \<Rightarrow> set_field list \<Rightarrow> set_error + ns_set" where
  "merge_loop findProc high [] = Inr high"
| "merge_loop findProc high (f # fs) =
     (if findProc high (fname f) = -1
      then (case fvalue f of
              None \<Rightarrow> Inl NullDeref
            | Some v \<Rightarrow>
                merge_loop findProc
                  (snd (Ns_SetPutSz high (fname f) (Some (length (fname f))) (Some v) (Some (length v)))) fs)
      else merge_loop findProc high fs)"

definition SetMerge :: "ns_set \<Rightarrow> ns_set \<Rightarrow> (ns_set \<Rightarrow> cstring \<Rightarrow> int) \<Rightarrow> set_error + ns_set" where
  "SetMerge high low findProc = merge_loop findProc high (set_fields low)"

definition Ns_SetMerge :: "ns_set \<Rightarrow> ns_set \<Rightarrow> set_error + ns_set" where
  "Ns_SetMerge high low = SetMerge high low Ns_SetFind"

definition Ns_SetIMerge :: "ns_set \<Rightarrow> ns_set \<Rightarrow> set_error + ns_set" where
  "Ns_SetIMerge high low = SetMerge high low Ns_SetIFind"

definition put_all :: "set_field list \<Rightarrow> ns_set \<Rightarrow> ns_set" where
  "put_all fs st = fold (\<lambda>f st. snd (Ns_SetPut st (fname f) (fvalue f))) fs st"

definition Ns_SetCopy :: "ns_set option \<Rightarrow> ns_set option" where
  "Ns_SetCopy old =
     (case old of
        None \<Rightarrow> None
      | Some old \<Rightarrow>
          Some (put_all (set_fields old) ((SetCreate (set_name old) (size_of old + 1))\<lparr>flags := flags old\<rparr>)))"

definition Ns_SetMove :: "ns_set \<Rightarrow> ns_set \<Rightarrow> ns_set \<times> ns_set" where
  "Ns_SetMove to from = (put_all (set_fields from) to, Ns_SetTrunc from 0)"

definition SetCopyElements :: "ns_set \<Rightarrow> ns_set \<Rightarrow> ns_set" where
  "SetCopyElements from to = put_all (set_fields from) (to\<lparr>set_fields := []\<rparr>)"

text \<open>The flags of a set made by \<^verbatim>\<open>ns_malloc\<close> alone are not initialised: \<open>junk\<close> is what the
  memory held. The pair is the new set and the emptied one.\<close>

definition Ns_SetRecreate :: "32 word \<Rightarrow> ns_set \<Rightarrow> ns_set \<times> ns_set" where
  "Ns_SetRecreate junk st =
     (let newSet = \<lparr>set_name = set_name st, set_fields = [], maxSize = maxSize st, flags = junk\<rparr>
      in (SetCopyElements st newSet, st\<lparr>set_fields := []\<rparr>))"

definition Ns_SetRecreate2 :: "32 word \<Rightarrow> ns_set option \<Rightarrow> ns_set \<Rightarrow> ns_set \<times> ns_set" where
  "Ns_SetRecreate2 junk to from =
     (let newSet =
        (case to of
           None \<Rightarrow> \<lparr>set_name = set_name from, set_fields = [], maxSize = maxSize from, flags = junk\<rparr>
         | Some old \<Rightarrow>
             (if maxSize old \<ge> size_of from then old else old\<lparr>maxSize := maxSize from\<rparr>))
      in (SetCopyElements from newSet, from\<lparr>set_fields := []\<rparr>))"

definition string_or_null :: "cstring option \<Rightarrow> cstring" where
  "string_or_null s = (case s of None \<Rightarrow> ''(null)'' | Some v \<Rightarrow> v)"

definition Ns_SetFormat :: "cstring \<Rightarrow> ns_set \<Rightarrow> bool \<Rightarrow> cstring \<Rightarrow> cstring \<Rightarrow> cstring" where
  "Ns_SetFormat ds st withName leadString separatorString =
     ds @ (if withName \<and> set_name st \<noteq> None then the (set_name st) @ '':\<newline>'' else []) @
     concat (map (\<lambda>f. leadString @ fname f @ separatorString @ string_or_null (fvalue f) @ ''\<newline>'')
               (set_fields st))"

text \<open>Without an output string the text goes to the standard error output: the result is what is
  written there and the output string.\<close>

definition Ns_SetPrint :: "cstring option \<Rightarrow> ns_set \<Rightarrow> cstring \<times> cstring option" where
  "Ns_SetPrint outputDs st =
     (case outputDs of
        None \<Rightarrow> (Ns_SetFormat [] st True [CHR 0x09] '' = '', None)
      | Some ds \<Rightarrow> ([], Some (Ns_SetFormat ds st True [] '': '')))"

subsection \<open>Keys\<close>

abbreviation lower :: "cstring \<Rightarrow> cstring" where
  "lower s \<equiv> map c_tolower s"

definition stored_key :: "bool \<Rightarrow> cstring \<Rightarrow> cstring" where
  "stored_key nc k = (if nc then lower k else k)"

text \<open>In a set marked \<open>NOCASE\<close> every name is in lower case.\<close>

definition set_wf :: "ns_set \<Rightarrow> bool" where
  "set_wf st \<longleftrightarrow> (nocase st \<longrightarrow> list_all (\<lambda>f. lower (fname f) = fname f) (set_fields st))"

text \<open>The allocated field array is never full, which \<^verbatim>\<open>Ns_SetFree\<close> asserts.\<close>

definition set_ok :: "ns_set \<Rightarrow> bool" where
  "set_ok st \<longleftrightarrow> set_wf st \<and> size_of st < maxSize st"

lemma lower_from_first_upper:
  assumes "find_index c_isupper s = Some i"
  shows "take i s @ lower (drop i s) = lower s"
proof -
  have "\<forall>j<i. \<not> c_isupper (s ! j)" and i: "i < length s" using find_index_SomeD [OF assms] by auto
  then have "list_all (\<lambda>c. \<not> c_isupper c) (take i s)"
    by (auto simp: list_all_length)
  then have "lower (take i s) = take i s" by (rule lower_unchanged)
  then have "take i s @ lower (drop i s) = lower (take i s @ drop i s)" by (simp only: map_append)
  then show ?thesis by simp
qed

lemma find_upper_None: "find_index c_isupper s = None \<Longrightarrow> lower s = s"
  by (rule lower_unchanged) (simp add: find_index_None_iff list_all_iff)

lemma LowerStringWhenNeeded_lower: "length s \<le> n \<Longrightarrow> LowerStringWhenNeeded s n = lower s"
  by (cases "find_index c_isupper s")
    (simp_all add: LowerStringWhenNeeded_def Ns_UpperCharPos_def Ns_StrToLower_map
      lower_from_first_upper find_upper_None)

lemma DStringLowerStringWhenNeeded_lower: "DStringLowerStringWhenNeeded s (length s) = lower s"
  by (cases "find_index c_isupper s")
    (simp_all add: DStringLowerStringWhenNeeded_def Ns_UpperCharPos_def Ns_StrToLower_map
      lower_from_first_upper find_upper_None)

lemma length_sized: "length (sized s n) \<le> (case n of None \<Rightarrow> length (sized s n) | Some k \<Rightarrow> k)"
  by (simp add: sized_def split: option.split)

lemma sized_full [simp]: "sized s None = s" "sized s (Some (length s)) = s"
  by (simp_all add: sized_def)

lemma nocase_update [simp]:
  "nocase (st\<lparr>set_fields := fs\<rparr>) = nocase st" "nocase (st\<lparr>maxSize := m\<rparr>) = nocase st"
  "nocase (st\<lparr>set_name := n\<rparr>) = nocase st"
  by (simp_all add: nocase_def)

definition grown :: "ns_set \<Rightarrow> nat" where
  "grown st = (if size_of st + 1 \<ge> maxSize st then (size_of st + 1) * 2 else maxSize st)"

lemma Ns_SetPutSz_eq:
  "Ns_SetPutSz st k kl v vl =
    (size_of st,
     st\<lparr>maxSize := grown st,
        set_fields := set_fields st @
          [\<lparr>fname = stored_key (nocase st) (sized k kl), fvalue = map_option (\<lambda>v. sized v vl) v\<rparr>]\<rparr>)"
  using LowerStringWhenNeeded_lower [OF length_sized [of k kl]]
  by (auto simp: Ns_SetPutSz_def Let_def stored_key_def grown_def split: option.splits)

lemma Ns_SetPut_eq:
  "Ns_SetPut st k v =
    (size_of st,
     st\<lparr>maxSize := grown st,
        set_fields := set_fields st @ [\<lparr>fname = stored_key (nocase st) k, fvalue = v\<rparr>]\<rparr>)"
  by (simp add: Ns_SetPut_def Ns_SetPutSz_eq option.map_ident)

lemma stored_key_lower [simp]:
  "lower (stored_key nc k) = lower k" "lower (stored_key True k) = stored_key True k"
  by (simp_all add: stored_key_def comp_def)

lemma stored_key_idem [simp]: "stored_key nc (stored_key nc k) = stored_key nc k"
  by (simp add: stored_key_def comp_def)

lemma set_wf_put: "set_wf st \<Longrightarrow> set_wf (snd (Ns_SetPutSz st k kl v vl))"
  by (auto simp: set_wf_def Ns_SetPutSz_eq stored_key_def comp_def)

lemma set_ok_put: "set_ok st \<Longrightarrow> set_ok (snd (Ns_SetPutSz st k kl v vl))"
  using set_wf_put by (auto simp: set_ok_def Ns_SetPutSz_eq grown_def)

lemma first_char_strcmp: "first_char k = first_char n \<and> strcmp k n = 0 \<longleftrightarrow> k = n"
  by auto

subsection \<open>What a search function promises\<close>

definition matches :: "(bool \<Rightarrow> cstring \<Rightarrow> cstring) \<Rightarrow> bool \<Rightarrow> cstring \<Rightarrow> set_field \<Rightarrow> bool" where
  "matches canon nc k f \<longleftrightarrow> canon nc (fname f) = canon nc k"

definition get_by :: "(ns_set \<Rightarrow> cstring \<Rightarrow> int) \<Rightarrow> ns_set \<Rightarrow> cstring \<Rightarrow> cstring option" where
  "get_by findProc st k =
     (let idx = findProc st k in if idx = -1 then None else fvalue (set_fields st ! nat idx))"

lemma find_find_index: "find P xs = map_option (\<lambda>i. xs ! i) (find_index P xs)"
  by (induction xs) (auto simp: option.map_comp comp_def)

locale set_find =
  fixes findProc :: "ns_set \<Rightarrow> cstring \<Rightarrow> int"
    and canon :: "bool \<Rightarrow> cstring \<Rightarrow> cstring"
  assumes find_first: "set_wf st \<Longrightarrow>
      findProc st k =
        (case find_index (matches canon (nocase st) k) (set_fields st) of Some i \<Rightarrow> int i | None \<Rightarrow> -1)"
    and canon_stored: "canon nc (stored_key nc k) = canon nc k"
begin

lemma find_None_iff: "set_wf st \<Longrightarrow> findProc st k = -1 \<longleftrightarrow> find (matches canon (nocase st) k) (set_fields st) = None"
  by (simp add: find_first find_find_index split: option.split)

lemma find_SomeD:
  "set_wf st \<Longrightarrow> findProc st k \<noteq> -1 \<Longrightarrow>
    \<exists>i. findProc st k = int i \<and> i < size_of st \<and>
        find_index (matches canon (nocase st) k) (set_fields st) = Some i"
  using find_index_SomeD by (fastforce simp: find_first split: option.splits)

lemma get_by_find:
  "set_wf st \<Longrightarrow>
    get_by findProc st k =
      (case find (matches canon (nocase st) k) (set_fields st) of Some f \<Rightarrow> fvalue f | None \<Rightarrow> None)"
  by (simp add: get_by_def find_first find_find_index Let_def split: option.split)

lemma matches_stored:
  "matches canon nc k \<lparr>fname = stored_key nc k', fvalue = v\<rparr> \<longleftrightarrow> canon nc k' = canon nc k"
  by (simp add: matches_def canon_stored)

lemma find_append: "find P (xs @ ys) = (case find P xs of Some x \<Rightarrow> Some x | None \<Rightarrow> find P ys)"
  by (induction xs) auto

lemma find_cong_canon:
  "canon nc k = canon nc k' \<Longrightarrow> find (matches canon nc k) fs = find (matches canon nc k') fs"
  by (rule arg_cong [where f = "\<lambda>P. find P fs"]) (simp add: fun_eq_iff matches_def)

lemma merge_loop_ok:
  assumes "set_wf high" "list_all (\<lambda>f. fvalue f \<noteq> None) fs"
  shows "\<exists>r. merge_loop findProc high fs = Inr r \<and> set_wf r \<and> nocase r = nocase high \<and>
    (\<exists>new. set_fields r = set_fields high @ new) \<and>
    (\<forall>k. map_option fvalue (find (matches canon (nocase high) k) (set_fields r)) =
         map_option fvalue (find (matches canon (nocase high) k) (set_fields high @ fs)))"
  using assms
proof (induction fs arbitrary: high)
  case (Cons f fs)
  let ?m = "\<lambda>k. matches canon (nocase high) k"
  obtain v where v: "fvalue f = Some v" using Cons.prems by auto
  show ?case
  proof (cases "findProc high (fname f) = -1")
    case True
    let ?put = "snd (Ns_SetPutSz high (fname f) (Some (length (fname f))) (Some v) (Some (length v)))"
    let ?f = "\<lparr>fname = stored_key (nocase high) (fname f), fvalue = Some v\<rparr>"
    have put: "set_fields ?put = set_fields high @ [?f]" "nocase ?put = nocase high"
      by (simp_all add: Ns_SetPutSz_eq)
    obtain r where r: "merge_loop findProc ?put fs = Inr r" "set_wf r" "nocase r = nocase high"
      "\<exists>new. set_fields r = set_fields ?put @ new"
      "\<And>k. map_option fvalue (find (?m k) (set_fields r)) = map_option fvalue (find (?m k) (set_fields ?put @ fs))"
      using Cons.IH [of ?put] Cons.prems set_wf_put by (auto simp: put)
    have same: "map_option fvalue (find (?m k) (set_fields ?put @ fs)) =
        map_option fvalue (find (?m k) (set_fields high @ f # fs))" for k
      using v by (auto simp: put find_append matches_stored split: option.split)
        (simp_all add: matches_def)
    then show ?thesis using True v r put by auto
  next
    case False
    then obtain g where g: "find (?m (fname f)) (set_fields high) = Some g"
      using find_None_iff [OF Cons.prems(1)] by auto
    obtain r where r: "merge_loop findProc high fs = Inr r" "set_wf r" "nocase r = nocase high"
      "\<exists>new. set_fields r = set_fields high @ new"
      "\<And>k. map_option fvalue (find (?m k) (set_fields r)) = map_option fvalue (find (?m k) (set_fields high @ fs))"
      using Cons.IH [of high] Cons.prems by auto
    have "find (?m k) (set_fields high @ f # fs) = find (?m k) (set_fields high @ fs)" for k
      using g find_cong_canon [of "nocase high" k "fname f"]
      by (auto simp: find_append matches_def split: option.split)
    with False r show ?thesis by simp
  qed
qed (auto simp: find_append split: option.split)

lemma merge_get:
  assumes "set_wf high" "set_wf low" "list_all (\<lambda>f. fvalue f \<noteq> None) (set_fields low)"
    and canon: "\<And>k k'. (canon (nocase high) k = canon (nocase high) k') = (canon (nocase low) k = canon (nocase low) k')"
  shows "\<exists>r. SetMerge high low findProc = Inr r \<and> set_wf r \<and>
    (\<forall>k. get_by findProc r k = (if findProc high k \<noteq> -1 then get_by findProc high k else get_by findProc low k))"
proof -
  obtain r where r: "merge_loop findProc high (set_fields low) = Inr r" "set_wf r" "nocase r = nocase high"
    "\<And>k. map_option fvalue (find (matches canon (nocase high) k) (set_fields r)) =
       map_option fvalue (find (matches canon (nocase high) k) (set_fields high @ set_fields low))"
    using merge_loop_ok [OF assms(1,3)] by blast
  have m: "matches canon (nocase high) k = matches canon (nocase low) k" for k
    by (simp add: matches_def fun_eq_iff canon)
  have "get_by findProc r k = (if findProc high k \<noteq> -1 then get_by findProc high k else get_by findProc low k)" for k
    using r(4) [of k] find_None_iff [OF assms(1), of k]
    by (auto simp: get_by_find r(2,3) assms(1,2) find_append m split: option.splits)
  with r(1,2) show ?thesis by (auto simp: SetMerge_def)
qed

lemma delete_first:
  assumes "set_wf st"
  shows "\<exists>b st'. Ns_SetDelete st (findProc st k) = Inr (b, st') \<and>
    b = list_ex (matches canon (nocase st) k) (set_fields st) \<and>
    set_fields st' = takeWhile (\<lambda>f. \<not> matches canon (nocase st) k f) (set_fields st) @
                     tl (dropWhile (\<lambda>f. \<not> matches canon (nocase st) k f) (set_fields st))"
proof -
  let ?P = "matches canon (nocase st) k"
  have del: "find_index P xs = Some i \<Longrightarrow> delete_at i xs = takeWhile (\<lambda>x. \<not> P x) xs @ tl (dropWhile (\<lambda>x. \<not> P x) xs)"
    for P and xs :: "set_field list" and i
    by (induction xs arbitrary: i) (auto simp: delete_at_def split: if_splits)
  show ?thesis
  proof (cases "find_index ?P (set_fields st)")
    case None
    then have "\<forall>f\<in>set (set_fields st). \<not> ?P f" by (simp add: find_index_None_iff)
    then have "takeWhile (\<lambda>f. \<not> ?P f) (set_fields st) @ tl (dropWhile (\<lambda>f. \<not> ?P f) (set_fields st)) = set_fields st"
      "list_ex ?P (set_fields st) = False"
      by (simp_all add: list_ex_iff dropWhile_eq_Nil_conv [THEN iffD2] takeWhile_eq_all_conv [THEN iffD2])
    with None assms show ?thesis 
      by (intro exI [of _ False] exI [of _ st]) (simp add: find_first Ns_SetDelete_def)
  next
    case (Some i)
    then have "i < size_of st" "list_ex ?P (set_fields st)"
      using find_index_SomeD [OF Some] by (auto simp: list_ex_length)
    with Some assms show ?thesis
      by (intro exI [of _ True] exI [of _ "st\<lparr>set_fields := delete_at i (set_fields st)\<rparr>"])
        (simp add: find_first Ns_SetDelete_def del)
  qed
qed

lemma put_value_get:
  assumes "set_wf st" "size_of st \<le> maxSize st" "findProc st k \<noteq> -1"
  shows "\<exists>st'. Ns_SetPutValueSz st (nat (findProc st k)) v None = Inr st' \<and> set_wf st' \<and>
    nocase st' = nocase st \<and> findProc st' k = findProc st k \<and> size_of st' = size_of st \<and> maxSize st' = maxSize st \<and>
    map fname (set_fields st') = map fname (set_fields st) \<and>
    get_by findProc st' k = (if v = [] \<and> get_by findProc st k = None then None else Some v) \<and>
    (\<forall>k'. canon (nocase st) k' \<noteq> canon (nocase st) k \<longrightarrow> get_by findProc st' k' = get_by findProc st k')"
proof -
  obtain i where i: "findProc st k = int i" "i < size_of st"
    "find_index (matches canon (nocase st) k) (set_fields st) = Some i"
    using find_SomeD [OF assms(1,3)] by blast
  let ?f = "set_fields st ! i"
  define val where "val = (if v = [] \<and> (fvalue ?f = None \<or> fvalue ?f = Some []) then fvalue ?f else Some v)"
  define st' where "st' = st\<lparr>set_fields := (set_fields st)[i := ?f\<lparr>fvalue := val\<rparr>]\<rparr>"
  have put: "Ns_SetPutValueSz st (nat (findProc st k)) v None = Inr st'"
    using i(1,2) assms(2) by (auto simp: Ns_SetPutValueSz_def Let_def st'_def val_def split: option.split)
  have names: "map fname (set_fields st') = map fname (set_fields st)"
    using i(2) by (simp add: st'_def map_update list_update_same_conv)
  have [simp]: "nocase st' = nocase st" by (simp add: st'_def)
  have wf: "set_wf st'"
  proof -
    have "list_all (\<lambda>f. lower (fname f) = fname f) fs = list_all (\<lambda>n. lower n = n) (map fname fs)" for fs
      by (simp add: list_all_iff)
    with assms(1) names show ?thesis unfolding set_wf_def by (metis \<open>nocase st' = nocase st\<close>)
  qed
  have same: "find_index (matches canon nc k') (set_fields st') = find_index (matches canon nc k') (set_fields st)" for nc k'
  proof -
    have "find_index (matches canon nc k') fs = find_index (\<lambda>n. canon nc n = canon nc k') (map fname fs)" for fs
      by (induction fs) (auto simp: matches_def)
    then show ?thesis by (simp add: names)
  qed
  have fnd: "findProc st' k' = findProc st k'" for k'
    by (simp add: find_first wf assms(1) same)
  have "get_by findProc st' k = (if v = [] \<and> get_by findProc st k = None then None else Some v)"
    using i(1,2) unfolding get_by_def fnd by (auto simp: st'_def val_def Let_def)
  moreover have "get_by findProc st' k' = get_by findProc st k'" if "canon (nocase st) k' \<noteq> canon (nocase st) k" for k'
  proof (cases "findProc st k' = -1")
    case False
    then obtain j where j: "findProc st k' = int j" "j < size_of st"
      "find_index (matches canon (nocase st) k') (set_fields st) = Some j"
      using find_SomeD [OF assms(1)] by blast
    then have "j \<noteq> i" using find_index_SomeD [OF j(3)] find_index_SomeD [OF i(3)] that by (auto simp: matches_def)
    then show ?thesis unfolding get_by_def fnd by (simp add: j(1) st'_def)
  qed (simp add: get_by_def fnd)
  moreover have "size_of st' = size_of st" "maxSize st' = maxSize st" by (simp_all add: st'_def)
  ultimately show ?thesis using put wf fnd names by auto
qed

lemma put_get:
  assumes "set_wf st" "findProc st k = -1"
  shows "findProc (snd (Ns_SetPutSz st k None (Some v) None)) k = int (size_of st) \<and>
    get_by findProc (snd (Ns_SetPutSz st k None (Some v) None)) k = Some v \<and>
    (\<forall>k'. canon (nocase st) k' \<noteq> canon (nocase st) k \<longrightarrow>
       get_by findProc (snd (Ns_SetPutSz st k None (Some v) None)) k' = get_by findProc st k')"
proof -
  let ?put = "snd (Ns_SetPutSz st k None (Some v) None)"
  have put: "set_fields ?put = set_fields st @ [\<lparr>fname = stored_key (nocase st) k, fvalue = Some v\<rparr>]"
    "nocase ?put = nocase st"
    by (simp_all add: Ns_SetPutSz_eq)
  have none: "find_index (matches canon (nocase st) k) (set_fields st) = None"
    using assms by (simp add: find_first split: option.splits)
  have wf: "set_wf ?put" using assms(1) by (rule set_wf_put)
  have at: "findProc ?put k = int (size_of st)"
    by (simp add: find_first wf put find_index_append none matches_stored)
  have "get_by findProc ?put k' = get_by findProc st k'" if "canon (nocase st) k' \<noteq> canon (nocase st) k" for k'
    using that by (auto simp: get_by_find wf assms(1) put find_append matches_stored split: option.split)
  with at put show ?thesis by (simp add: get_by_def)
qed

end

definition key_canon :: "bool \<Rightarrow> cstring \<Rightarrow> cstring" where
  "key_canon nc k = (if nc then lower k else k)"

definition ikey_canon :: "bool \<Rightarrow> cstring \<Rightarrow> cstring" where
  "ikey_canon nc k = lower k"

lemma find_index_cong: "(\<And>x. x \<in> set xs \<Longrightarrow> P x = Q x) \<Longrightarrow> find_index P xs = find_index Q xs"
  by (induction xs) auto

interpretation setfind: set_find Ns_SetFind key_canon
proof
  show "Ns_SetFind st k =
      (case find_index (matches key_canon (nocase st) k) (set_fields st) of Some i \<Rightarrow> int i | None \<Rightarrow> -1)"
    if "set_wf st" for st k
  proof -
    have "find_index (\<lambda>f. field_matches (fst (search_args st k Strcmp)) Strcmp (fname f)) (set_fields st) =
        find_index (matches key_canon (nocase st) k) (set_fields st)"
      using that
      by (intro find_index_cong)
        (auto simp: field_matches_def first_char_strcmp search_args_def matches_def key_canon_def
          DStringLowerStringWhenNeeded_lower set_wf_def list_all_iff)
    then show ?thesis by (simp add: Ns_SetFind_def Ns_SetFindCmp_def search_args_def split: if_splits)
  qed
qed (simp add: key_canon_def stored_key_def comp_def)

interpretation setifind: set_find Ns_SetIFind ikey_canon
proof
  show "Ns_SetIFind st k =
      (case find_index (matches ikey_canon (nocase st) k) (set_fields st) of Some i \<Rightarrow> int i | None \<Rightarrow> -1)"
    if "set_wf st" for st k
  proof -
    have "find_index (\<lambda>f. field_matches (fst (search_args st k Strcasecmp)) (snd (search_args st k Strcasecmp)) (fname f))
           (set_fields st) =
        find_index (matches ikey_canon (nocase st) k) (set_fields st)"
      using that
      by (intro find_index_cong)
        (auto simp: field_matches_def first_char_strcmp search_args_def matches_def ikey_canon_def
          DStringLowerStringWhenNeeded_lower set_wf_def list_all_iff strcasecmp_eq_0_iff)
    then show ?thesis by (simp add: Ns_SetIFind_def Ns_SetFindCmp_def case_prod_unfold)
  qed
qed (simp add: ikey_canon_def)

lemma get_by_Ns_SetGet: "get_by Ns_SetFind = Ns_SetGet" "get_by Ns_SetIFind = Ns_SetIGet"
  by (simp_all add: fun_eq_iff get_by_def Ns_SetGet_def Ns_SetIGet_def Ns_SetGetCmp_def Ns_SetFind_def Ns_SetIFind_def)

subsection \<open>Lookup, update, merge and delete\<close>

text \<open>
  C32. After \<^verbatim>\<open>Ns_SetUpdate\<close> the set has the new value for the key at the returned index, whether the
  key was there or not, and unchanged values for every other key. Under the \<open>NOCASE\<close> mark two keys
  are the same when they agree up to case. An empty value replaces any value but NULL.
\<close>

theorem Ns_SetUpdate_correct:
  assumes "set_wf st" "size_of st \<le> maxSize st"
  shows "\<exists>i st'. Ns_SetUpdate st k v = Inr (i, st') \<and> set_wf st' \<and> Ns_SetFind st' k = int i \<and>
    Ns_SetGet st' k = (if v = [] \<and> Ns_SetFind st k \<noteq> -1 \<and> Ns_SetGet st k = None then None else Some v) \<and>
    (\<forall>k'. (if nocase st then lower k' \<noteq> lower k else k' \<noteq> k) \<longrightarrow> Ns_SetGet st' k' = Ns_SetGet st k')"
proof (cases "Ns_SetFind st k = -1")
  case True
  then show ?thesis
    using setfind.put_get [OF assms(1) True, of v] set_wf_put [OF assms(1), of k None "Some v" None]
    by (auto simp: Ns_SetUpdate_def Ns_SetUpdateSz_def get_by_Ns_SetGet key_canon_def Ns_SetPutSz_eq split: if_splits)
next
  case False
  then obtain i where i: "Ns_SetFind st k = int i" using setfind.find_SomeD [OF assms(1)] by blast
  then show ?thesis
    using setfind.put_value_get [OF assms False, of v] False
    by (auto simp: Ns_SetUpdate_def Ns_SetUpdateSz_def get_by_Ns_SetGet key_canon_def split: if_splits)
qed

theorem Ns_SetUpdate_correct_witness:
  "\<exists>st'. Ns_SetUpdate (snd (Ns_SetPut (Ns_SetCreate None) ''a'' (Some ''1''))) ''a'' ''22'' = Inr (0, st') \<and>
         Ns_SetGet st' ''a'' = Some ''22''"
proof -
  let ?st = "snd (Ns_SetPut (Ns_SetCreate None) ''a'' (Some ''1''))"
  have "set_wf ?st" "size_of ?st \<le> maxSize ?st" by code_simp+
  from Ns_SetUpdate_correct [OF this, of "''a''" "''22''"] obtain i st'
    where "Ns_SetUpdate ?st ''a'' ''22'' = Inr (i, st')" "Ns_SetGet st' ''a'' = Some ''22''" by auto
  moreover have "map_sum id fst (Ns_SetUpdate ?st ''a'' ''22'') = Inr 0" by code_simp
  ultimately show ?thesis by auto
qed

text \<open>
  Merging gives the first set priority: a key found in it keeps its value, every other key has the
  value of the second set, and the call returns when the second set holds no NULL value.
\<close>

theorem Ns_SetMerge_priority:
  assumes "set_wf high" "set_wf low" "nocase high = nocase low"
    and "list_all (\<lambda>f. fvalue f \<noteq> None) (set_fields low)"
  shows "\<exists>r. Ns_SetMerge high low = Inr r \<and> set_wf r \<and>
    (\<forall>k. Ns_SetGet r k = (if Ns_SetFind high k \<noteq> -1 then Ns_SetGet high k else Ns_SetGet low k))"
  using setfind.merge_get [OF assms(1,2,4), unfolded get_by_Ns_SetGet] assms(3)
  by (simp add: Ns_SetMerge_def)

theorem Ns_SetMerge_priority_witness:
  "\<exists>r. Ns_SetMerge (snd (Ns_SetPut (Ns_SetCreate None) ''a'' (Some ''1'')))
          (snd (Ns_SetPut (snd (Ns_SetPut (Ns_SetCreate None) ''a'' (Some ''2''))) ''b'' (Some ''3''))) = Inr r \<and>
       Ns_SetGet r ''a'' = Some ''1'' \<and> Ns_SetGet r ''b'' = Some ''3''"
proof -
  let ?high = "snd (Ns_SetPut (Ns_SetCreate None) ''a'' (Some ''1''))"
  let ?low = "snd (Ns_SetPut (snd (Ns_SetPut (Ns_SetCreate None) ''a'' (Some ''2''))) ''b'' (Some ''3''))"
  have "set_wf ?high" "set_wf ?low" "nocase ?high = nocase ?low"
    "list_all (\<lambda>f. fvalue f \<noteq> None) (set_fields ?low)" by code_simp+
  from Ns_SetMerge_priority [OF this] obtain r where r: "Ns_SetMerge ?high ?low = Inr r"
    "\<And>k. Ns_SetGet r k = (if Ns_SetFind ?high k \<noteq> -1 then Ns_SetGet ?high k else Ns_SetGet ?low k)"
    by blast
  have "Ns_SetFind ?high ''a'' \<noteq> -1" "Ns_SetGet ?high ''a'' = Some ''1''" "Ns_SetFind ?high ''b'' = -1"
    "Ns_SetGet ?low ''b'' = Some ''3''" by code_simp+
  with r show ?thesis by auto
qed

text \<open>
  The case-insensitive merge gives the first set priority on keys up to case, whatever the marks
  of the two sets.
\<close>

theorem Ns_SetIMerge_priority:
  assumes "set_wf high" "set_wf low" "list_all (\<lambda>f. fvalue f \<noteq> None) (set_fields low)"
  shows "\<exists>r. Ns_SetIMerge high low = Inr r \<and> set_wf r \<and>
    (\<forall>k. Ns_SetIGet r k = (if Ns_SetIFind high k \<noteq> -1 then Ns_SetIGet high k else Ns_SetIGet low k))"
  using setifind.merge_get [OF assms, unfolded get_by_Ns_SetGet]
  by (simp add: Ns_SetIMerge_def ikey_canon_def)

theorem Ns_SetIMerge_priority_witness:
  "\<exists>r. Ns_SetIMerge (snd (Ns_SetPut (Ns_SetCreate None) ''Host'' (Some ''1'')))
          (snd (Ns_SetPut (snd (Ns_SetPut (Ns_SetCreate None) ''host'' (Some ''2''))) ''b'' (Some ''3''))) = Inr r \<and>
       Ns_SetIGet r ''HOST'' = Some ''1''"
proof -
  let ?high = "snd (Ns_SetPut (Ns_SetCreate None) ''Host'' (Some ''1''))"
  let ?low = "snd (Ns_SetPut (snd (Ns_SetPut (Ns_SetCreate None) ''host'' (Some ''2''))) ''b'' (Some ''3''))"
  have "set_wf ?high" "set_wf ?low" "list_all (\<lambda>f. fvalue f \<noteq> None) (set_fields ?low)" by code_simp+
  from Ns_SetIMerge_priority [OF this] obtain r where r: "Ns_SetIMerge ?high ?low = Inr r"
    "\<And>k. Ns_SetIGet r k = (if Ns_SetIFind ?high k \<noteq> -1 then Ns_SetIGet ?high k else Ns_SetIGet ?low k)"
    by blast
  have "Ns_SetIFind ?high ''HOST'' \<noteq> -1" "Ns_SetIGet ?high ''HOST'' = Some ''1''" by code_simp+
  with r show ?thesis by auto
qed

text \<open>
  \<^verbatim>\<open>Ns_SetDeleteKey\<close> never leaves the field array: it removes the first field with the key and
  returns true, or returns false when there is none.
\<close>

theorem Ns_SetDeleteKey_correct:
  assumes "set_wf st"
  shows "\<exists>b st'. Ns_SetDeleteKey st k = Inr (b, st') \<and>
    b = list_ex (\<lambda>f. fname f = stored_key (nocase st) k) (set_fields st) \<and>
    set_fields st' = takeWhile (\<lambda>f. fname f \<noteq> stored_key (nocase st) k) (set_fields st) @
                     tl (dropWhile (\<lambda>f. fname f \<noteq> stored_key (nocase st) k) (set_fields st))"
proof -
  have same: "matches key_canon (nocase st) k f \<longleftrightarrow> fname f = stored_key (nocase st) k"
    if "f \<in> set (set_fields st)" for f
    using that assms by (auto simp: matches_def key_canon_def stored_key_def set_wf_def list_all_iff)
  have "list_ex (matches key_canon (nocase st) k) (set_fields st) =
      list_ex (\<lambda>f. fname f = stored_key (nocase st) k) (set_fields st)"
    using same by (auto simp: list_ex_iff)
  moreover have "takeWhile (\<lambda>f. \<not> matches key_canon (nocase st) k f) (set_fields st) =
      takeWhile (\<lambda>f. fname f \<noteq> stored_key (nocase st) k) (set_fields st)"
    "dropWhile (\<lambda>f. \<not> matches key_canon (nocase st) k f) (set_fields st) =
      dropWhile (\<lambda>f. fname f \<noteq> stored_key (nocase st) k) (set_fields st)"
    by (rule takeWhile_cong dropWhile_cong; use same in blast)+
  ultimately show ?thesis
    using setfind.delete_first [OF assms, of k] by (simp add: Ns_SetDeleteKey_def)
qed

theorem Ns_SetDeleteKey_correct_witness:
  "\<exists>st'. Ns_SetDeleteKey (snd (Ns_SetPut (Ns_SetCreate None) ''a'' (Some ''1''))) ''a'' = Inr (True, st') \<and>
         set_fields st' = []"
proof -
  let ?st = "snd (Ns_SetPut (Ns_SetCreate None) ''a'' (Some ''1''))"
  have "set_wf ?st" by code_simp
  from Ns_SetDeleteKey_correct [OF this, of "''a''"] obtain b st'
    where r: "Ns_SetDeleteKey ?st ''a'' = Inr (b, st')"
      "b = list_ex (\<lambda>f. fname f = stored_key (nocase ?st) ''a'') (set_fields ?st)"
      "set_fields st' = takeWhile (\<lambda>f. fname f \<noteq> stored_key (nocase ?st) ''a'') (set_fields ?st) @
                     tl (dropWhile (\<lambda>f. fname f \<noteq> stored_key (nocase ?st) ''a'') (set_fields ?st))"
    by blast
  moreover have "list_ex (\<lambda>f. fname f = stored_key (nocase ?st) ''a'') (set_fields ?st)"
    "takeWhile (\<lambda>f. fname f \<noteq> stored_key (nocase ?st) ''a'') (set_fields ?st) @
      tl (dropWhile (\<lambda>f. fname f \<noteq> stored_key (nocase ?st) ''a'') (set_fields ?st)) = []" by code_simp+
  ultimately show ?thesis by auto
qed

subsection \<open>Counting, splitting and copying\<close>

lemma unique_loop_count:
  "unique_loop key cmp found fs \<longleftrightarrow>
    length (filter (\<lambda>f. call_cmp cmp key (fname f) = 0) fs) + (if found then 1 else 0) \<le> 1"
  by (induction fs arbitrary: found) auto

lemma filter_cong_length: "(\<And>x. x \<in> set xs \<Longrightarrow> P x = Q x) \<Longrightarrow> length (filter P xs) = length (filter Q xs)"
  by (metis filter_cong)

text \<open>
  \<^verbatim>\<open>Ns_SetUnique\<close> and \<^verbatim>\<open>Ns_SetIUnique\<close> tell whether at most one field has the key, up to case
  where the set or the function asks for it.
\<close>

lemma Ns_SetUnique_counts:
  assumes "set_wf st"
  shows "Ns_SetUnique st k \<longleftrightarrow>
      length (filter (\<lambda>f. if nocase st then lower (fname f) = lower k else fname f = k) (set_fields st)) \<le> 1"
    and "Ns_SetIUnique st k \<longleftrightarrow> length (filter (\<lambda>f. lower (fname f) = lower k) (set_fields st)) \<le> 1"
proof -
  have "length (filter (\<lambda>f. strcmp (if nocase st then lower k else k) (fname f) = 0) (set_fields st)) =
      length (filter (\<lambda>f. if nocase st then lower (fname f) = lower k else fname f = k) (set_fields st))"
    using assms by (intro filter_cong_length) (auto simp: set_wf_def list_all_iff)
  then show "Ns_SetUnique st k \<longleftrightarrow>
      length (filter (\<lambda>f. if nocase st then lower (fname f) = lower k else fname f = k) (set_fields st)) \<le> 1"
    by (cases "nocase st")
      (simp_all add: Ns_SetUnique_def Ns_SetUniqueCmp_def search_args_def unique_loop_count
        DStringLowerStringWhenNeeded_lower)
  have "length (filter (\<lambda>f. call_cmp (if nocase st then Strcmp else Strcasecmp)
          (if nocase st then lower k else k) (fname f) = 0) (set_fields st)) =
      length (filter (\<lambda>f. lower (fname f) = lower k) (set_fields st))"
    using assms by (intro filter_cong_length) (auto simp: set_wf_def list_all_iff strcasecmp_eq_0_iff)
  then show "Ns_SetIUnique st k \<longleftrightarrow> length (filter (\<lambda>f. lower (fname f) = lower k) (set_fields st)) \<le> 1"
    by (cases "nocase st")
      (simp_all add: Ns_SetIUnique_def Ns_SetUniqueCmp_def search_args_def unique_loop_count
        DStringLowerStringWhenNeeded_lower)
qed

text \<open>\<^verbatim>\<open>Ns_SetSplitDList\<close>: what has to be in the target set of the prefix \<open>n\<close>.\<close>

definition split_field :: "bool \<Rightarrow> char \<Rightarrow> set_field \<Rightarrow> set_field" where
  "split_field nc sep f = \<lparr>fname = stored_key nc (snd (split_name (fname f) sep)), fvalue = fvalue f\<rparr>"

definition split_spec :: "32 word \<Rightarrow> char \<Rightarrow> set_field list \<Rightarrow> ns_set list \<Rightarrow> bool" where
  "split_spec flgs sep fs out \<longleftrightarrow>
     distinct (map set_name out) \<and>
     set (map set_name out) = (\<lambda>f. fst (split_name (fname f) sep)) ` set fs \<and>
     (\<forall>t\<in>set out. flags t = flgs \<and>
        set_fields t = map (split_field (flgs AND NS_SET_OPTION_NOCASE \<noteq> 0) sep)
                         (filter (\<lambda>f. fst (split_name (fname f) sep) = set_name t) fs))"

lemma same_name_iff: "same_name a b \<longleftrightarrow> a = b"
  by (auto simp: same_name_def)

lemma split_step_spec:
  assumes "split_spec flgs sep fs out"
  shows "split_spec flgs sep (fs @ [f]) (split_step flgs sep f out)"
proof -
  obtain n k where nk: "split_name (fname f) sep = (n, k)" by fastforce
  show ?thesis
  proof (cases "find_index (\<lambda>probe. same_name n (set_name probe)) out")
    case None
    then have new: "\<forall>t\<in>set out. set_name t \<noteq> n" by (auto simp: find_index_None_iff same_name_iff)
    then have fresh: "n \<notin> (\<lambda>f. fst (split_name (fname f) sep)) ` set fs"
      using assms unfolding split_spec_def by (metis imageE set_map)
    then have "filter (\<lambda>f. fst (split_name (fname f) sep) = n) fs = []"
      by (auto simp: filter_empty_conv)
    then show ?thesis
      using assms new nk None fresh
      by (auto simp: split_spec_def split_step_def Ns_SetPut_eq Ns_SetCreate_def SetCreate_def
          split_field_def nocase_def)
  next
    case (Some j)
    then have j: "j < length out" "set_name (out ! j) = n"
      using find_index_SomeD [OF Some] by (auto simp: same_name_iff)
    let ?t = "snd (Ns_SetPut (out ! j) k (fvalue f))"
    have step: "split_step flgs sep f out = out[j := ?t]" using nk Some by (simp add: split_step_def)
    have names: "map set_name (out[j := ?t]) = map set_name out"
      using j by (simp add: map_update Ns_SetPut_eq list_update_same_conv)
    have "n \<in> set (map set_name out)" using j by force
    then have prefixes: "set (map set_name out) = (\<lambda>f. fst (split_name (fname f) sep)) ` set (fs @ [f])"
      using assms nk by (auto simp: split_spec_def)
    have "flags t = flgs \<and> set_fields t = map (split_field (flgs AND NS_SET_OPTION_NOCASE \<noteq> 0) sep)
        (filter (\<lambda>f. fst (split_name (fname f) sep) = set_name t) (fs @ [f]))"
      if t: "t \<in> set (out[j := ?t])" for t
    proof -
      from t obtain i where i: "i < length out" "t = (out[j := ?t]) ! i" by (auto simp: in_set_conv_nth)
      show ?thesis
      proof (cases "i = j")
        case True
        have "out ! j \<in> set out" using j by simp
        then have "flags (out ! j) = flgs" "set_fields (out ! j) = map (split_field (flgs AND NS_SET_OPTION_NOCASE \<noteq> 0) sep)
            (filter (\<lambda>f. fst (split_name (fname f) sep) = n) fs)"
          using assms j(2) unfolding split_spec_def by blast+
        with True i j nk show ?thesis by (simp add: Ns_SetPut_eq split_field_def nocase_def)
      next
        case False
        then have "t = out ! i" using i by simp
        moreover have "set_name (out ! i) \<noteq> n"
          using assms False i(1) j unfolding split_spec_def
          by (metis distinct_conv_nth length_map nth_map)
        moreover have "out ! i \<in> set out" using i by simp
        ultimately show ?thesis using assms nk by (auto simp: split_spec_def)
      qed
    qed
    with assms step names prefixes show ?thesis unfolding split_spec_def by metis
  qed
qed

text \<open>
  \<^verbatim>\<open>Ns_SetSplitDList\<close> groups the fields by the part of their name before the separator: one set
  per prefix (none for names without separator), each with exactly the fields of its prefix, in
  order, under the rest of their name.
\<close>

theorem Ns_SetSplitDList_groups:
  "\<exists>out. Ns_SetSplitDList st sep [] = (length out, out) \<and> distinct (map set_name out) \<and>
    set (map set_name out) = (\<lambda>f. fst (split_name (fname f) sep)) ` set (set_fields st) \<and>
    (\<forall>t\<in>set out. set_fields t = map (split_field (nocase st) sep)
        (filter (\<lambda>f. fst (split_name (fname f) sep) = set_name t) (set_fields st)))"
proof -
  have "split_spec (flags st) sep fs out \<Longrightarrow> split_spec (flags st) sep (fs @ gs) (fold (split_step (flags st) sep) gs out)"
    for fs gs out
  proof (induction gs arbitrary: fs out)
    case (Cons g gs)
    then show ?case using split_step_spec [OF Cons.prems, of g] Cons.IH [of "fs @ [g]"] by simp
  qed simp
  note all = this
  let ?out = "fold (split_step (flags st) sep) (set_fields st) []"
  have "split_spec (flags st) sep [] []" by (simp add: split_spec_def)
  from all [OF this, of "set_fields st"] have spec: "split_spec (flags st) sep (set_fields st) ?out" by simp
  have "Ns_SetSplitDList st sep [] = (length ?out, ?out)" by (simp add: Ns_SetSplitDList_def Let_def)
  moreover note spec [unfolded split_spec_def, folded nocase_def]
  ultimately show ?thesis by blast
qed

theorem Ns_SetSplitDList_groups_witness:
  "\<exists>t out. Ns_SetSplitDList (snd (Ns_SetPut (Ns_SetCreate None) ''a.b'' (Some ''1''))) (CHR ''.'') [] = (length out, out) \<and>
         t \<in> set out \<and> set_name t = Some ''a'' \<and> set_fields t = [\<lparr>fname = ''b'', fvalue = Some ''1''\<rparr>]"
proof -
  let ?st = "snd (Ns_SetPut (Ns_SetCreate None) ''a.b'' (Some ''1''))"
  obtain out where out: "Ns_SetSplitDList ?st (CHR ''.'') [] = (length out, out)"
    "set (map set_name out) = (\<lambda>f. fst (split_name (fname f) (CHR ''.''))) ` set (set_fields ?st)"
    "\<And>t. t \<in> set out \<Longrightarrow> set_fields t = map (split_field (nocase ?st) (CHR ''.''))
        (filter (\<lambda>f. fst (split_name (fname f) (CHR ''.'')) = set_name t) (set_fields ?st))"
    using Ns_SetSplitDList_groups [of ?st "CHR ''.''"] by blast
  have "(\<lambda>f. fst (split_name (fname f) (CHR ''.''))) ` set (set_fields ?st) = {Some ''a''}" by code_simp
  with out(2) have "Some ''a'' \<in> set (map set_name out)" by simp
  then obtain t where t: "t \<in> set out" "set_name t = Some ''a''" 
    unfolding set_map by (elim imageE) simp
  moreover have "map (split_field (nocase ?st) (CHR ''.''))
      (filter (\<lambda>f. fst (split_name (fname f) (CHR ''.'')) = Some ''a'') (set_fields ?st)) =
      [\<lparr>fname = ''b'', fvalue = Some ''1''\<rparr>]" by code_simp
  ultimately show ?thesis using out(1) out(3) [OF t(1)] by auto
qed

lemma put_all_eq:
  "set_wf \<lparr>set_name = n, set_fields = fs, maxSize = m, flags = flags st\<rparr> \<Longrightarrow> size_of st + length fs < maxSize st \<Longrightarrow>
    put_all fs st = st\<lparr>set_fields := set_fields st @ fs\<rparr>"
proof (induction fs arbitrary: st)
  case (Cons f fs)
  have "stored_key (nocase st) (fname f) = fname f"
    using Cons.prems(1) by (auto simp: set_wf_def nocase_def stored_key_def)
  then have put: "snd (Ns_SetPut st (fname f) (fvalue f)) = st\<lparr>set_fields := set_fields st @ [f]\<rparr>"
    using Cons.prems(2) by (simp add: Ns_SetPut_eq grown_def)
  have "set_wf \<lparr>set_name = n, set_fields = fs, maxSize = m, flags = flags st\<rparr>"
    using Cons.prems(1) by (simp add: set_wf_def nocase_def)
  then show ?case
    using Cons.IH [of "st\<lparr>set_fields := set_fields st @ [f]\<rparr>"] Cons.prems(2) put by (simp add: put_all_def)
qed (simp add: put_all_def)

text \<open>
  \<^verbatim>\<open>Ns_SetCopy\<close> makes an equal set: same name, same fields in the same order, same flags, with
  one free slot and no growth on the way.
\<close>

theorem Ns_SetCopy_equal:
  assumes "set_wf st"
  shows "Ns_SetCopy (Some st) = Some (st\<lparr>maxSize := size_of st + 1\<rparr>)"
  using put_all_eq [of "set_name st" "set_fields st" 0
      "(SetCreate (set_name st) (size_of st + 1))\<lparr>flags := flags st\<rparr>"] assms
  by (simp add: Ns_SetCopy_def SetCreate_def set_wf_def nocase_def)

theorem Ns_SetCopy_equal_witness:
  "Ns_SetCopy (Some (snd (Ns_SetPut (Ns_SetCreate None) ''a'' None))) =
     Some ((snd (Ns_SetPut (Ns_SetCreate None) ''a'' None))\<lparr>maxSize := 2\<rparr>)"
proof -
  have "set_wf (snd (Ns_SetPut (Ns_SetCreate None) ''a'' None))" by code_simp
  from Ns_SetCopy_equal [OF this] show ?thesis by (simp add: Ns_SetPut_eq Ns_SetCreate_def SetCreate_def)
qed

subsection \<open>The states of a set\<close>

text \<open>One call on a set. The case-insensitive update is only in the relation for sets without the
  \<open>NOCASE\<close> mark, for the reason shown at the end of this theory.\<close>

inductive set_step :: "ns_set \<Rightarrow> ns_set \<Rightarrow> bool" where
  step_put: "set_step st (snd (Ns_SetPutSz st k kl v vl))"
| step_update: "Ns_SetUpdateSz st k kl v vl = Inr (i, st') \<Longrightarrow> set_step st st'"
| step_iupdate: "\<not> nocase st \<Longrightarrow> Ns_SetIUpdateSz st k kl v vl = Inr (i, st') \<Longrightarrow> set_step st st'"
| step_put_value: "Ns_SetPutValueSz st i v vl = Inr st' \<Longrightarrow> set_step st st'"
| step_trunc: "set_step st (Ns_SetTrunc st n)"
| step_resize: "set_step st (NsSetResize st n)"
| step_delete: "Ns_SetDelete st i = Inr (b, st') \<Longrightarrow> set_step st st'"
| step_clear: "set_step st (Ns_SetClearValues st)"
| step_merge: "SetMerge st low findProc = Inr st' \<Longrightarrow> set_step st st'"
| step_move: "set_step st (fst (Ns_SetMove st from))"
| step_recreate2: "set_fields st = [] \<Longrightarrow> set_step st (fst (Ns_SetRecreate2 junk (Some st) from))"

inductive set_reachable :: "ns_set \<Rightarrow> bool" where
  reach_create: "0 < n \<Longrightarrow> set_reachable ((Ns_SetCreateSz name n)\<lparr>flags := flgs\<rparr>)"
| reach_step: "set_reachable st \<Longrightarrow> set_step st st' \<Longrightarrow> set_reachable st'"

inductive_cases set_stepE: "set_step st st'"

lemma set_wf_fields:
  "set_wf st \<Longrightarrow> fname ` set fs \<subseteq> fname ` set (set_fields st) \<Longrightarrow> set_wf (st\<lparr>set_fields := fs, maxSize := m\<rparr>)"
  by (auto simp: set_wf_def list_all_iff image_subset_iff)

lemma set_wf_fields': "set_wf st \<Longrightarrow> fname ` set fs \<subseteq> fname ` set (set_fields st) \<Longrightarrow> set_wf (st\<lparr>set_fields := fs\<rparr>)"
  using set_wf_fields [of st fs "maxSize st"] by simp

lemma set_wf_maxSize [simp]: "set_wf (st\<lparr>maxSize := m\<rparr>) = set_wf st"
  by (simp add: set_wf_def)

lemma put_value_ok: "Ns_SetPutValueSz st i v vl = Inr st' \<Longrightarrow> set_ok st \<Longrightarrow> set_ok st'"
proof -
  assume put: "Ns_SetPutValueSz st i v vl = Inr st'" and ok: "set_ok st"
  have "fname ` set ((set_fields st)[i := (set_fields st ! i)\<lparr>fvalue := w\<rparr>]) \<subseteq> fname ` set (set_fields st)"
    if "i < size_of st" for w
    using set_update_subset_insert [of "set_fields st" i "(set_fields st ! i)\<lparr>fvalue := w\<rparr>"] that by force
  then show ?thesis
    using put ok set_wf_fields'
    by (auto simp: Ns_SetPutValueSz_def set_ok_def Let_def split: if_splits option.splits)
qed

lemma put_value_same [simp]:
  "Ns_SetPutValueSz st i v vl = Inr st' \<Longrightarrow> nocase st' = nocase st \<and> size_of st' = size_of st \<and> maxSize st' = maxSize st"
  by (auto simp: Ns_SetPutValueSz_def Let_def split: if_splits option.splits)

lemma trunc_ok: "set_ok st \<Longrightarrow> set_ok (Ns_SetTrunc st n)"
  by (auto simp: Ns_SetTrunc_def set_ok_def intro!: set_wf_fields' dest: in_set_takeD)

lemma merge_loop_set_ok: "merge_loop findProc st fs = Inr st' \<Longrightarrow> set_ok st \<Longrightarrow> set_ok st'"
  by (induction fs arbitrary: st) (auto split: if_splits option.splits intro: set_ok_put)

lemma put_all_ok: "set_ok st \<Longrightarrow> set_ok (put_all fs st)"
  by (induction fs arbitrary: st) (auto simp: put_all_def Ns_SetPut_def intro: set_ok_put)

lemma put_all_grows: "set_wf st \<Longrightarrow> fs \<noteq> [] \<or> size_of st < maxSize st \<Longrightarrow> set_ok (put_all fs st)"
proof (cases fs)
  case (Cons f gs)
  assume "set_wf st"
  then have "set_ok (snd (Ns_SetPut st (fname f) (fvalue f)))"
    using set_wf_put [of st "fname f" None "fvalue f" None]
    by (simp add: set_ok_def Ns_SetPut_def) (simp add: Ns_SetPutSz_eq grown_def)
  then show ?thesis using put_all_ok [of _ gs] Cons by (simp add: put_all_def)
qed (simp add: put_all_def set_ok_def)

lemma put_pair_ok: "Ns_SetPutSz st k kl v vl = (i, st') \<Longrightarrow> set_ok st \<Longrightarrow> set_ok st'"
  using set_ok_put [of st k kl v vl] by simp

lemma set_step_ok: "set_step st st' \<Longrightarrow> set_ok st \<Longrightarrow> set_ok st'"
proof (induction rule: set_step.induct)
  case (step_iupdate st k kl v vl i st')
  show ?case
  proof (cases "Ns_SetIFind st k = -1")
    case False
    with step_iupdate obtain st1 where put: "Ns_SetPutValueSz st (nat (Ns_SetIFind st k)) v vl = Inr st1"
      by (auto simp: Ns_SetIUpdateSz_def Let_def split: sum.splits)
    with step_iupdate False put_value_ok [OF put] put_value_same [OF put] show ?thesis
      by (auto simp: Ns_SetIUpdateSz_def Let_def set_ok_def set_wf_def)
  qed (use step_iupdate put_pair_ok in \<open>auto simp: Ns_SetIUpdateSz_def Let_def\<close>)
next
  case (step_update st k kl v vl i st')
  show ?case
    using step_update put_pair_ok put_value_ok
    by (auto simp: Ns_SetUpdateSz_def Let_def split: sum.splits if_splits)
next
  case (step_resize st n)
  then show ?case
    using trunc_ok [of st n] by (auto simp: NsSetResize_def set_ok_def Ns_SetTrunc_def Let_def)
next
  case (step_delete st i b st')
  then show ?case
    using set_delete_at_subset [of "nat i" "set_fields st"] length_delete_at [of "nat i" "set_fields st"]
    by (auto simp: Ns_SetDelete_def set_ok_def intro!: set_wf_fields' split: if_splits)
next
  case (step_clear st)
  then show ?case by (auto simp: Ns_SetClearValues_def set_ok_def intro!: set_wf_fields')
next
  case (step_merge st low findProc st')
  then show ?case using merge_loop_set_ok by (simp add: SetMerge_def)
next
  case (step_move st src)
  then show ?case using put_all_ok by (simp add: Ns_SetMove_def)
next
  case (step_recreate2 st junk src)
  then have "set_wf st" "0 < maxSize st" by (auto simp: set_ok_def)
  then have "set_ok (put_all (set_fields src) (if size_of src \<le> maxSize st then st else st\<lparr>maxSize := maxSize src\<rparr>))"
    using step_recreate2 by (intro put_all_grows) (cases "set_fields src"; auto)+
  moreover have "st\<lparr>set_fields := []\<rparr> = st" using step_recreate2 by (cases st) simp
  then have "st\<lparr>maxSize := m, set_fields := []\<rparr> = st\<lparr>maxSize := m\<rparr>" for m by (cases st) simp
  ultimately show ?case
    using \<open>st\<lparr>set_fields := []\<rparr> = st\<close> by (simp add: Ns_SetRecreate2_def SetCopyElements_def split: if_splits)
qed (auto intro: set_ok_put put_value_ok trunc_ok)



subsection \<open>Divergences\<close>

text \<open>On a set marked \<open>NOCASE\<close> the case-insensitive update stores the key as given when its first
  character differs in case; the field is then lost for every search, and a further update adds a
  second field.\<close>

lemma Ns_SetIUpdate_nocase_loses_key:
  "let st = (Ns_SetCreate None)\<lparr>flags := NS_SET_OPTION_NOCASE\<rparr>;
       st = snd (Ns_SetPut st ''key'' (Some ''1''))
   in Ns_SetIGet st ''key'' = Some ''1'' \<and>
      (case Ns_SetIUpdate st ''Key'' ''2'' of
         Inr (i, st) \<Rightarrow> Ns_SetIGet st ''key'' = None \<and> Ns_SetIGet st ''Key'' = None
       | Inl _ \<Rightarrow> False)"
  by code_simp

text \<open>Only the first characters are compared, so a capitalisation that differs later is not kept.\<close>

lemma Ns_SetIUpdate_first_char_only:
  "case Ns_SetIUpdate (snd (Ns_SetPut (Ns_SetCreate None) ''host'' (Some ''1''))) ''hOST'' ''2'' of
     Inr (i, st) \<Rightarrow> map fname (set_fields st) = [''host''] | Inl _ \<Rightarrow> False"
  by code_simp

text \<open>Merging a set with a NULL value takes the length of NULL.\<close>

lemma Ns_SetMerge_null_value:
  "Ns_SetMerge (Ns_SetCreate None) (snd (Ns_SetPut (Ns_SetCreate None) ''a'' None)) = Inl NullDeref"
  by code_simp

text \<open>The flags of a recreated set are not initialised: with a bit set by chance, the names change.\<close>

lemma Ns_SetRecreate_junk_flags:
  "map fname (set_fields (fst (Ns_SetRecreate 1 (snd (Ns_SetPut (Ns_SetCreate None) ''Host'' None))))) = [''host'']"
  by code_simp

text \<open>A set created with size 0 and freed unused violates the assertion of \<^verbatim>\<open>Ns_SetFree\<close>.\<close>

lemma Ns_SetCreateSz_zero: "\<not> size_of (Ns_SetCreateSz None 0) < maxSize (Ns_SetCreateSz None 0)"
  by (simp add: Ns_SetCreateSz_def SetCreate_def)

end
