(* ===== verification/NsSetData.thy ===== *)
theory NsSetData
  imports NsSet
begin

unbundle bit_operations_syntax

text \<open>
  The storage of the sets of \<^verbatim>\<open>nsd/set.c\<close>: all strings of a set live in one buffer
  (\<^verbatim>\<open>Tcl_DString data\<close>), and the fields hold pointers into it. Appending may move the buffer, after
  which \<^verbatim>\<open>ShiftData\<close> relocates every stored pointer.

  Addresses are integers, \<open>dbase\<close> is \<^verbatim>\<open>data.string\<close>, \<open>dbuf\<close> the first \<^verbatim>\<open>data.length\<close> bytes and
  \<open>davail\<close> is \<^verbatim>\<open>data.spaceAvl\<close>. The growth of the buffer is the business of the Tcl library: it is a
  parameter \<open>grow\<close> of the operations that gives the new address and size of the buffer from the old ones
  and the wanted length; the theorems hold for every \<open>grow\<close>. The string arguments are strings outside
  of the buffer.

  \<open>view\<close> reads the fields through the pointers, and the refinement theorems relate each operation on
  the buffer to the operation of \<^verbatim>\<open>NsSet\<close> on the view. Truncation refines only when no value has
  been replaced by a longer one; the last lemma shows the data loss otherwise.
\<close>

record dfield =
  dname :: int
  dvalue :: "int option"

record dset =
  dset_name :: "cstring option"
  dfields :: "dfield list"
  dmax :: nat
  dflags :: "32 word"
  dbase :: int
  dbuf :: "char list"
  davail :: nat

type_synonym grow_fun = "int \<times> nat \<Rightarrow> nat \<Rightarrow> int \<times> nat"

abbreviation NUL :: char where
  "NUL \<equiv> CHR 0x00"

definition str_at :: "char list \<Rightarrow> nat \<Rightarrow> cstring" where
  "str_at buf off = takeWhile (\<lambda>c. c \<noteq> NUL) (drop off buf)"

definition off :: "dset \<Rightarrow> int \<Rightarrow> nat" where
  "off d a = nat (a - dbase d)"

definition strval :: "dset \<Rightarrow> int \<Rightarrow> cstring" where
  "strval d a = str_at (dbuf d) (off d a)"

text \<open>\<open>memcpy\<close> into the buffer.\<close>

definition overwrite :: "char list \<Rightarrow> nat \<Rightarrow> char list \<Rightarrow> char list" where
  "overwrite buf p xs = take p buf @ xs @ drop (p + length xs) buf"

subsection \<open>Operations\<close>

definition shift_field :: "int \<Rightarrow> dfield \<Rightarrow> dfield" where
  "shift_field shift f = \<lparr>dname = dname f + shift, dvalue = map_option (\<lambda>a. a + shift) (dvalue f)\<rparr>"

definition ShiftData :: "dset \<Rightarrow> int \<Rightarrow> nat \<Rightarrow> dset" where
  "ShiftData d oldDataStart nvalid =
     (let newDataStart = dbase d
      in if oldDataStart \<noteq> newDataStart \<and> nvalid > 0
         then d\<lparr>dfields := map (shift_field (newDataStart - oldDataStart)) (take nvalid (dfields d)) @
                           drop nvalid (dfields d)\<rparr>
         else d)"

definition AppendData ::
  "grow_fun \<Rightarrow> dset \<Rightarrow> nat \<Rightarrow> cstring option \<Rightarrow> nat option \<Rightarrow> dset \<times> int option" where
  "AppendData grow d nvalid val valueSize =
     (let oldDataStart = dbase d;
          oldLength = length (dbuf d);
          bytes = (case val of None \<Rightarrow> [] | Some v \<Rightarrow> sized v valueSize @ [NUL]);
          buf = dbuf d @ bytes;
          (base, avail) = grow (dbase d, davail d) (length buf);
          d = d\<lparr>dbase := base, davail := avail, dbuf := buf\<rparr>;
          d = (if oldDataStart \<noteq> dbase d then ShiftData d oldDataStart nvalid else d)
      in (d, if val \<noteq> None then Some (dbase d + int oldLength) else None))"

definition d_SetPutSz ::
  "grow_fun \<Rightarrow> dset \<Rightarrow> cstring \<Rightarrow> nat option \<Rightarrow> cstring option \<Rightarrow> nat option \<Rightarrow> nat \<times> dset" where
  "d_SetPutSz grow d keyString keyLength valueString valueLength =
     (let idx = length (dfields d);
          d = (if idx + 1 \<ge> dmax d then d\<lparr>dmax := (idx + 1) * 2\<rparr> else d);
          (d, name) = AppendData grow d idx (Some keyString) keyLength;
          d = d\<lparr>dfields := dfields d @ [\<lparr>dname = the name, dvalue = None\<rparr>]\<rparr>;
          (d, val) = AppendData grow d (idx + 1) valueString valueLength;
          f = (dfields d ! idx)\<lparr>dvalue := val\<rparr>;
          d = d\<lparr>dfields := (dfields d)[idx := f]\<rparr>;
          s = strval d (dname f)
      in (idx,
          if dflags d AND NS_SET_OPTION_NOCASE \<noteq> 0
          then d\<lparr>dbuf := overwrite (dbuf d) (off d (dname f))
                   (LowerStringWhenNeeded s (case keyLength of None \<Rightarrow> length s | Some k \<Rightarrow> k))\<rparr>
          else d))"

definition d_SetPutValueSz ::
  "grow_fun \<Rightarrow> dset \<Rightarrow> nat \<Rightarrow> cstring \<Rightarrow> nat option \<Rightarrow> set_error + dset" where
  "d_SetPutValueSz grow d index val sz =
     (if index \<ge> dmax d then Inl OutOfBounds
      else if index < length (dfields d) then
        (let sz = (case sz of None \<Rightarrow> length val | Some k \<Rightarrow> k);
             f = dfields d ! index;
             oldSize = (case dvalue f of None \<Rightarrow> 0 | Some a \<Rightarrow> length (strval d a))
         in if oldSize = 0 \<and> sz = 0 then Inr d
            else if oldSize \<ge> sz \<and> oldSize \<noteq> 0 then
              Inr (d\<lparr>dbuf := overwrite (dbuf d) (off d (the (dvalue f))) (take sz val @ [NUL])\<rparr>)
            else
              (let d = (case dvalue f of
                          None \<Rightarrow> d
                        | Some a \<Rightarrow> d\<lparr>dbuf := overwrite (dbuf d) (off d a) [CHR 0x03]\<rparr>);
                   (d, p) = AppendData grow d (length (dfields d)) (Some val) (Some sz)
               in Inr (d\<lparr>dfields := (dfields d)[index := (dfields d ! index)\<lparr>dvalue := p\<rparr>]\<rparr>)))
      else Inr d)"

fun trunc_end :: "dset \<Rightarrow> int \<Rightarrow> dfield list \<Rightarrow> int" where
  "trunc_end d endPtr [] = endPtr"
| "trunc_end d endPtr (f # fs) =
     (let endPtr = (if dname f > endPtr then dname f + int (length (strval d (dname f))) + 1 else endPtr);
          endPtr = (case dvalue f of
                      None \<Rightarrow> endPtr
                    | Some a \<Rightarrow> if a > endPtr then a + int (length (strval d a)) + 1 else endPtr)
      in trunc_end d endPtr fs)"

text \<open>\<^verbatim>\<open>Tcl_DStringSetLength\<close> to a shorter length keeps the buffer and writes a NUL at the new end, so a
  pointer to the new end reads the empty string, as \<open>str_at\<close> does at the end of the list.\<close>

definition d_SetTrunc :: "dset \<Rightarrow> nat \<Rightarrow> dset" where
  "d_SetTrunc d sz =
     (if sz < length (dfields d)
      then (let newLength =
              (if sz = 0 then 0
               else nat (trunc_end d (dname (dfields d ! sz)) (take (sz + 1) (dfields d)) - dbase d))
            in d\<lparr>dbuf := take newLength (dbuf d), dfields := take sz (dfields d)\<rparr>)
      else d)"

fun clear_loop :: "nat \<Rightarrow> dset \<Rightarrow> nat \<Rightarrow> int \<Rightarrow> dset \<times> int" where
  "clear_loop 0 d i dst = (d, dst)"
| "clear_loop (Suc n) d i dst =
     (let src = dname (dfields d ! i);
          s = strval d src;
          d = (if dst \<noteq> src then d\<lparr>dbuf := overwrite (dbuf d) (off d dst) (s @ [NUL])\<rparr> else d);
          d = d\<lparr>dfields := (dfields d)[i := \<lparr>dname = dst, dvalue = None\<rparr>]\<rparr>
      in clear_loop n d (Suc i) (dst + int (length s + 1)))"

text \<open>\<open>newBuffer\<close> is the address \<^verbatim>\<open>ckalloc\<close> returns.\<close>

definition d_SetClearValues :: "int \<Rightarrow> dset \<Rightarrow> nat \<Rightarrow> dset" where
  "d_SetClearValues newBuffer d maxAlloc =
     (if list_ex (\<lambda>f. dvalue f \<noteq> None) (dfields d)
      then (let (d, dst) = clear_loop (length (dfields d)) d 0 (dbase d);
                newLength = nat (dst - dbase d);
                d = d\<lparr>dbuf := take newLength (dbuf d)\<rparr>
            in if davail d > maxAlloc \<and> newLength < maxAlloc div 4
               then (let oldBuffer = dbase d
                     in d\<lparr>dbase := newBuffer, davail := maxAlloc,
                          dfields := map (\<lambda>f. f\<lparr>dname := newBuffer + (dname f - oldBuffer)\<rparr>) (dfields d)\<rparr>)
               else d)
      else d)"

text \<open>Two calls of \<^verbatim>\<open>Tcl_DStringSetLength\<close>: a size below the length of the data first writes a NUL
  into it.\<close>

definition NsSetDataPrealloc :: "grow_fun \<Rightarrow> dset \<Rightarrow> nat \<Rightarrow> dset" where
  "NsSetDataPrealloc grow d sz =
     (let (base, avail) = grow (dbase d, davail d) sz
      in d\<lparr>dbase := base, davail := avail,
           dbuf := (if sz < length (dbuf d) then (dbuf d)[sz := NUL] else dbuf d)\<rparr>)"

definition TCL_DSTRING_STATIC_SIZE :: nat where
  "TCL_DSTRING_STATIC_SIZE = 200"

definition d_SetResize :: "grow_fun \<Rightarrow> dset \<Rightarrow> nat \<Rightarrow> nat \<Rightarrow> dset" where
  "d_SetResize grow d newSize bufferSize =
     (let d = (if newSize \<noteq> length (dfields d)
               then (let d = (if newSize < length (dfields d) then d_SetTrunc d newSize else d)
                     in d\<lparr>dmax := newSize + 1\<rparr>)
               else d)
      in if bufferSize > TCL_DSTRING_STATIC_SIZE
         then (let oldDataStart = dbase d;
                   d = NsSetDataPrealloc grow d bufferSize
               in ShiftData d oldDataStart (length (dfields d)))
         else d)"

subsection \<open>The strings of a buffer\<close>

definition view_field :: "dset \<Rightarrow> dfield \<Rightarrow> set_field" where
  "view_field d f = \<lparr>fname = strval d (dname f), fvalue = map_option (strval d) (dvalue f)\<rparr>"

definition view :: "dset \<Rightarrow> ns_set" where
  "view d = \<lparr>set_name = dset_name d, set_fields = map (view_field d) (dfields d), maxSize = dmax d,
             flags = dflags d\<rparr>"

text \<open>A stored pointer leads into the buffer to a terminated string, and the extents of two stored
  strings do not overlap; the names are stored in ascending order. The conditions speak about
  offsets, which do not change when the buffer moves.\<close>

definition in_buf :: "char list \<Rightarrow> nat \<Rightarrow> bool" where
  "in_buf buf p \<longleftrightarrow> NUL \<in> set (drop p buf)"

abbreviation str_end :: "char list \<Rightarrow> nat \<Rightarrow> nat" where
  "str_end buf p \<equiv> p + length (str_at buf p)"

definition apart :: "char list \<Rightarrow> nat \<Rightarrow> nat \<Rightarrow> bool" where
  "apart buf p q \<longleftrightarrow> str_end buf p < q \<or> str_end buf q < p"

definition heap_ok :: "char list \<Rightarrow> nat list \<Rightarrow> bool" where
  "heap_ok buf os \<longleftrightarrow> list_all (in_buf buf) os \<and> sorted_wrt (apart buf) os"

type_synonym rel_field = "nat \<times> nat option"

definition rel_field :: "int \<Rightarrow> dfield \<Rightarrow> rel_field" where
  "rel_field base f = (nat (dname f - base), map_option (\<lambda>a. nat (a - base)) (dvalue f))"

abbreviation rel_fields :: "dset \<Rightarrow> rel_field list" where
  "rel_fields d \<equiv> map (rel_field (dbase d)) (dfields d)"

fun field_offs :: "rel_field \<Rightarrow> nat list" where
  "field_offs (n, v) = n # (case v of None \<Rightarrow> [] | Some o' \<Rightarrow> [o'])"

definition rel_ok :: "char list \<Rightarrow> rel_field list \<Rightarrow> bool" where
  "rel_ok buf rs \<longleftrightarrow> heap_ok buf (concat (map field_offs rs)) \<and> sorted_wrt (<) (map fst rs)"

definition above :: "int \<Rightarrow> dfield \<Rightarrow> bool" where
  "above base f \<longleftrightarrow> base \<le> dname f \<and> (case dvalue f of None \<Rightarrow> True | Some a \<Rightarrow> base \<le> a)"

definition dset_ok :: "dset \<Rightarrow> bool" where
  "dset_ok d \<longleftrightarrow> list_all (above (dbase d)) (dfields d) \<and> rel_ok (dbuf d) (rel_fields d)"

definition rel_view :: "char list \<Rightarrow> rel_field \<Rightarrow> set_field" where
  "rel_view buf r = \<lparr>fname = str_at buf (fst r), fvalue = map_option (str_at buf) (snd r)\<rparr>"

lemma view_rel: "set_fields (view d) = map (rel_view (dbuf d)) (rel_fields d)"
  by (simp add: view_def view_field_def rel_view_def rel_field_def strval_def [abs_def] off_def option.map_comp comp_def)

lemma view_simps [simp]:
  "set_name (view d) = dset_name d" "maxSize (view d) = dmax d" "flags (view d) = dflags d"
  "size_of (view d) = length (dfields d)"
  by (simp_all add: view_def)

lemma takeWhile_NUL: "NUL \<notin> set s \<Longrightarrow> takeWhile (\<lambda>c. c \<noteq> NUL) (s @ NUL # r) = s"
  by (induction s) auto

lemma str_atI: "drop p buf = s @ NUL # r \<Longrightarrow> NUL \<notin> set s \<Longrightarrow> str_at buf p = s \<and> in_buf buf p"
  by (simp add: str_at_def in_buf_def takeWhile_NUL)

lemma in_buf_split: "in_buf buf p \<Longrightarrow> \<exists>r. drop p buf = str_at buf p @ NUL # r"
proof -
  assume "in_buf buf p"
  then obtain s r where "drop p buf = s @ NUL # r" "NUL \<notin> set s"
    unfolding in_buf_def by (meson split_list_first)
  then show ?thesis using str_atI by metis
qed

lemma str_at_no_NUL: "NUL \<notin> set (str_at buf p)"
  by (auto simp: str_at_def dest: set_takeWhileD)

lemma in_buf_end: "in_buf buf p \<Longrightarrow> str_end buf p < length buf"
proof -
  assume "in_buf buf p"
  then obtain r where r: "drop p buf = str_at buf p @ NUL # r" using in_buf_split by blast
  then have "length (drop p buf) = length (str_at buf p) + Suc (length r)" by simp
  then show ?thesis by simp
qed

lemma str_at_frame:
  assumes "in_buf buf p" "str_end buf p < length buf'"
    and "\<And>j. p \<le> j \<Longrightarrow> j \<le> str_end buf p \<Longrightarrow> buf' ! j = buf ! j"
  shows "str_at buf' p = str_at buf p" "in_buf buf' p"
proof -
  let ?n = "length (str_at buf p)"
  obtain r where r: "drop p buf = str_at buf p @ NUL # r" using assms(1) in_buf_split by blast
  have lt: "p + ?n < length buf" using assms(1) in_buf_end by simp
  have "take (Suc ?n) (drop p buf') = take (Suc ?n) (drop p buf)"
    by (rule nth_equalityI) (use assms(2,3) lt in auto)
  also have "\<dots> = str_at buf p @ [NUL]" by (simp add: r)
  finally have "drop p buf' = str_at buf p @ NUL # drop (Suc ?n) (drop p buf')"
    using append_take_drop_id [of "Suc ?n" "drop p buf'"] by simp
  then show "str_at buf' p = str_at buf p" "in_buf buf' p"
    using str_atI str_at_no_NUL by blast+
qed

lemma str_at_append:
  assumes "in_buf buf p"
  shows "str_at (buf @ xs) p = str_at buf p" "in_buf (buf @ xs) p"
  using str_at_frame [OF assms, of "buf @ xs"] in_buf_end [OF assms] by (auto simp: nth_append)

lemma str_at_new: "NUL \<notin> set s \<Longrightarrow> str_at (buf @ s @ NUL # xs) (length buf) = s"
  "NUL \<notin> set s \<Longrightarrow> in_buf (buf @ s @ NUL # xs) (length buf)"
  using str_atI [of "length buf" "buf @ s @ NUL # xs" s xs] by auto

lemma length_overwrite: "q + length xs \<le> length buf \<Longrightarrow> length (overwrite buf q xs) = length buf"
  by (simp add: overwrite_def)

lemma nth_overwrite:
  "q + length xs \<le> length buf \<Longrightarrow> j < length buf \<Longrightarrow> j < q \<or> q + length xs \<le> j \<Longrightarrow> overwrite buf q xs ! j = buf ! j"
  by (auto simp: overwrite_def nth_append min_def)

lemma str_at_overwrite:
  assumes "in_buf buf p" "q + length xs \<le> length buf" "str_end buf p < q \<or> q + length xs \<le> p"
  shows "str_at (overwrite buf q xs) p = str_at buf p" "in_buf (overwrite buf q xs) p"
  using str_at_frame [OF assms(1), of "overwrite buf q xs"] in_buf_end [OF assms(1)] assms(2,3)
  by (auto simp: length_overwrite nth_overwrite)

lemma str_at_overwritten:
  assumes "NUL \<notin> set s" "q + length s < length buf"
  shows "str_at (overwrite buf q (s @ [NUL])) q = s" "in_buf (overwrite buf q (s @ [NUL])) q"
  using str_atI [of q "overwrite buf q (s @ [NUL])" s "drop (Suc (q + length s)) buf"] assms
  by (auto simp: overwrite_def)

lemma heap_ok_frame:
  assumes "heap_ok buf os"
    and "\<And>p. p \<in> set os \<Longrightarrow> str_at buf' p = str_at buf p \<and> in_buf buf' p"
  shows "heap_ok buf' os"
proof -
  have "sorted_wrt (apart buf') os"
    using assms by (auto simp: heap_ok_def apart_def intro: sorted_wrt_mono_rel [of os "apart buf"])
  then show ?thesis using assms(2) by (simp add: heap_ok_def list_all_iff)
qed

lemma heap_ok_in: "heap_ok buf os \<Longrightarrow> p \<in> set os \<Longrightarrow> in_buf buf p"
  by (simp add: heap_ok_def list_all_iff)

lemma heap_ok_append: "heap_ok buf os \<Longrightarrow> heap_ok (buf @ xs) os"
  using heap_ok_frame [of buf os "buf @ xs"] heap_ok_in str_at_append by blast

lemma rel_view_cong:
  "(\<And>p. p \<in> set (field_offs r) \<Longrightarrow> str_at buf' p = str_at buf p) \<Longrightarrow> rel_view buf' r = rel_view buf r"
  by (cases r; cases "snd r") (auto simp: rel_view_def)

lemma rel_views_cong:
  assumes "\<And>p. p \<in> set (concat (map field_offs rs)) \<Longrightarrow> str_at buf' p = str_at buf p"
  shows "map (rel_view buf') rs = map (rel_view buf) rs"
  using assms by (auto intro!: rel_view_cong)

subsection \<open>Appending\<close>

definition append_bytes :: "cstring option \<Rightarrow> nat option \<Rightarrow> char list" where
  "append_bytes v vl = (case v of None \<Rightarrow> [] | Some s \<Rightarrow> sized s vl @ [NUL])"

lemma rel_field_shift [simp]: "rel_field nb (shift_field (nb - ob) f) = rel_field ob f"
  by (simp add: rel_field_def shift_field_def option.map_comp comp_def)

lemma above_shift [simp]: "above nb (shift_field (nb - ob) f) = above ob f"
  by (auto simp: above_def shift_field_def split: option.splits)

text \<open>Relocation keeps every offset, wherever the buffer moved.\<close>

lemma ShiftData_rel:
  assumes "length (dfields d) = n"
  shows "map (rel_field (dbase d)) (dfields (ShiftData d ob n)) = map (rel_field ob) (dfields d)"
    and "list_all (above (dbase d)) (dfields (ShiftData d ob n)) = list_all (above ob) (dfields d)"
    and "dbase (ShiftData d ob n) = dbase d" "dbuf (ShiftData d ob n) = dbuf d"
      "dmax (ShiftData d ob n) = dmax d" "dflags (ShiftData d ob n) = dflags d"
      "dset_name (ShiftData d ob n) = dset_name d" "length (dfields (ShiftData d ob n)) = length (dfields d)"
  using assms by (auto simp: ShiftData_def Let_def list_all_iff)

lemma AppendData_rel:
  assumes "list_all (above (dbase d)) (dfields d)" "n = length (dfields d)"
    and "AppendData grow d n v vl = (d', p)"
  shows "rel_fields d' = rel_fields d" "list_all (above (dbase d')) (dfields d')"
    "dbuf d' = dbuf d @ append_bytes v vl" "length (dfields d') = length (dfields d)"
    "dmax d' = dmax d" "dflags d' = dflags d" "dset_name d' = dset_name d"
    "p = map_option (\<lambda>_. dbase d' + int (length (dbuf d))) v"
proof -
  obtain base avail where g: "grow (dbase d, davail d) (length (dbuf d @ append_bytes v vl)) = (base, avail)"
    by fastforce
  let ?d1 = "d\<lparr>dbase := base, davail := avail, dbuf := dbuf d @ append_bytes v vl\<rparr>"
  let ?d2 = "if dbase d \<noteq> base then ShiftData ?d1 (dbase d) n else ?d1"
  have r: "d' = ?d2" "p = (if v \<noteq> None then Some (dbase ?d2 + int (length (dbuf d))) else None)"
    using assms(3) g by (cases v; auto simp: AppendData_def Let_def append_bytes_def)+
  have "length (dfields ?d1) = n" using assms(2) by simp
  note sh = ShiftData_rel [OF this, of "dbase d"]
  show "rel_fields d' = rel_fields d" "list_all (above (dbase d')) (dfields d')"
    "dbuf d' = dbuf d @ append_bytes v vl" "length (dfields d') = length (dfields d)"
    "dmax d' = dmax d" "dflags d' = dflags d" "dset_name d' = dset_name d"
    using sh assms(1) by (auto simp: r(1))
  show "p = map_option (\<lambda>_. dbase d' + int (length (dbuf d))) v"
    by (cases v) (simp_all add: r)
qed

lemma lower_NUL: "NUL \<notin> set s \<Longrightarrow> NUL \<notin> set (lower s)"
proof -
  have "c_tolower c = NUL \<Longrightarrow> c = NUL" for c
    using byte_of_tolower [of c] by (cases "c_isupper c") (auto simp: c_tolower_id)
  then show "NUL \<notin> set s \<Longrightarrow> NUL \<notin> set (lower s)" by (metis (no_types) imageE set_map)
qed

lemma sized_NUL: "NUL \<notin> set s \<Longrightarrow> NUL \<notin> set (sized s n)"
  by (auto simp: sized_def split: option.split dest: in_set_takeD)

lemma fst_in_offs: "r \<in> set rs \<Longrightarrow> fst r \<in> set (concat (map field_offs rs))"
proof -
  have "fst r \<in> set (field_offs r)" by (cases r) simp
  then show "r \<in> set rs \<Longrightarrow> fst r \<in> set (concat (map field_offs rs))" by auto
qed

text \<open>A new field at the end of the buffer.\<close>

lemma rel_ok_put:
  assumes "rel_ok buf rs" "NUL \<notin> set k" "\<And>s. v = Some s \<Longrightarrow> NUL \<notin> set s"
    and "buf' = buf @ k @ NUL # append_bytes v None"
    and "r = (length buf, map_option (\<lambda>_. length buf + length k + 1) v)"
  shows "rel_ok buf' (rs @ [r])" "map (rel_view buf') (rs @ [r]) = map (rel_view buf) rs @ [\<lparr>fname = k, fvalue = v\<rparr>]"
proof -
  have old: "heap_ok buf (concat (map field_offs rs))" "sorted_wrt (<) (map fst rs)"
    using assms(1) by (simp_all add: rel_ok_def)
  have before: "str_end buf' p < length buf" "in_buf buf' p" "str_at buf' p = str_at buf p"
    if "p \<in> set (concat (map field_offs rs))" for p
    using str_at_append [OF heap_ok_in [OF old(1) that]] in_buf_end [OF heap_ok_in [OF old(1) that]]
    by (simp_all add: assms(4))
  have name: "str_at buf' (length buf) = k" "in_buf buf' (length buf)"
    using str_at_new [OF assms(2)] by (simp_all add: assms(4))
  have val: "str_at buf' (length buf + length k + 1) = s" "in_buf buf' (length buf + length k + 1)"
    if "v = Some s" for s
    using str_at_new [OF assms(3) [OF that], of "buf @ k @ [NUL]" "[]"]
    by (simp_all add: assms(4) that append_bytes_def)
  have "heap_ok buf' (concat (map field_offs rs))"
    by (rule heap_ok_frame [OF old(1)]) (simp add: before)
  moreover have "heap_ok buf' os \<Longrightarrow> heap_ok buf' (os @ field_offs r)"
    if "\<And>p. p \<in> set os \<Longrightarrow> str_end buf' p < length buf" for os
    using name val by (cases v) (auto simp: heap_ok_def sorted_wrt_append apart_def assms(5) dest: that)
  ultimately have "heap_ok buf' (concat (map field_offs rs) @ field_offs r)"
    using before(1) by blast
  then have "heap_ok buf' (concat (map field_offs (rs @ [r])))" by simp
  moreover have "fst r0 < length buf" if "r0 \<in> set rs" for r0
  proof -
    have "fst r0 \<in> set (concat (map field_offs rs))" using that by (rule fst_in_offs)
    then show ?thesis using before(1) by fastforce
  qed
  ultimately show "rel_ok buf' (rs @ [r])"
    using old(2) by (simp add: rel_ok_def sorted_wrt_append assms(5))
  show "map (rel_view buf') (rs @ [r]) = map (rel_view buf) rs @ [\<lparr>fname = k, fvalue = v\<rparr>]"
    using rel_views_cong [of rs buf' buf] before(3) name val by (cases v) (auto simp: rel_view_def assms(5))
qed

text \<open>The final buffer and fields of \<^verbatim>\<open>Ns_SetPutSz\<close>.\<close>

lemma d_SetPutSz_rel:
  assumes ab: "list_all (above (dbase d)) (dfields d)" and nul: "NUL \<notin> set k"
    and put: "d_SetPutSz grow d k kl v vl = (idx, d')"
  defines "key \<equiv> stored_key (nocase (view d)) (sized k kl)"
    and "val \<equiv> map_option (\<lambda>v. sized v vl) v"
  shows "idx = length (dfields d)" "list_all (above (dbase d')) (dfields d')"
    "dbuf d' = dbuf d @ key @ NUL # append_bytes val None"
    "rel_fields d' = rel_fields d @ [(length (dbuf d), map_option (\<lambda>_. length (dbuf d) + length key + 1) val)]"
    "dmax d' = grown (view d)" "dflags d' = dflags d" "dset_name d' = dset_name d"
proof -
  define n where "n = length (dfields d)"
  define d0 where "d0 = (if n + 1 \<ge> dmax d then d\<lparr>dmax := (n + 1) * 2\<rparr> else d)"
  have d0: "dfields d0 = dfields d" "dbase d0 = dbase d" "dbuf d0 = dbuf d" "dflags d0 = dflags d"
    "dset_name d0 = dset_name d" "dmax d0 = grown (view d)"
    by (simp_all add: d0_def grown_def n_def)
  obtain d1 p1 where a1: "AppendData grow d0 n (Some k) kl = (d1, p1)" by fastforce
  have "list_all (above (dbase d0)) (dfields d0)" "n = length (dfields d0)" using ab by (simp_all add: d0 n_def)
  note r1 = AppendData_rel [OF this a1]
  define d1' where "d1' = d1\<lparr>dfields := dfields d1 @ [\<lparr>dname = the p1, dvalue = None\<rparr>]\<rparr>"
  have ab1: "list_all (above (dbase d1')) (dfields d1')"
    using r1(2) by (simp add: d1'_def r1(8) above_def)
  have n1: "n + 1 = length (dfields d1')" by (simp add: d1'_def r1(4) d0 n_def)
  have rel1: "rel_fields d1' = rel_fields d @ [(length (dbuf d), None)]"
    using r1(1) by (simp add: d1'_def r1(8) rel_field_def [of "dbase d1" "\<lparr>dname = _, dvalue = _\<rparr>"] d0)
  obtain d2 p2 where a2: "AppendData grow d1' (n + 1) v vl = (d2, p2)" by fastforce
  note r2 = AppendData_rel [OF ab1 n1 a2]
  define f where "f = (dfields d2 ! n)\<lparr>dvalue := p2\<rparr>"
  define d3 where "d3 = d2\<lparr>dfields := (dfields d2)[n := f]\<rparr>"
  have len2: "length (dfields d2) = n + 1" using r2(4) n1 by simp
  have buf2: "dbuf d2 = dbuf d @ sized k kl @ NUL # append_bytes v vl"
    using r1(3) r2(3) by (simp add: d1'_def d0 append_bytes_def [of "Some k"])
  have name_n: "rel_field (dbase d2) (dfields d2 ! n) = (length (dbuf d), None)"
    using r2(1) rel1 len2 n_def by (metis length_map lessI add.commute nth_append_length nth_map plus_1_eq_Suc)
  have "above (dbase d2) (dfields d2 ! n)" using r2(2) len2 by (simp add: list_all_length)
  then have off_f: "off d3 (dname f) = length (dbuf d)" "dbase d2 \<le> dname f"
    using name_n by (auto simp: f_def d3_def off_def rel_field_def above_def)
  have rel_f: "rel_field (dbase d2) f = (length (dbuf d), map_option (\<lambda>_. length (dbuf d) + length (sized k kl) + 1) val)"
    using name_n r2(8) r1(3)
    by (cases v) (auto simp: f_def rel_field_def val_def d1'_def d0 append_bytes_def nat_eq_iff)
  have above3: "list_all (above (dbase d3)) (dfields d3)"
    using r2(2,8) off_f(2) len2
    by (cases v) (auto simp: d3_def list_all_length nth_list_update above_def f_def)
  have rel3: "rel_fields d3 = rel_fields d @ [(length (dbuf d), map_option (\<lambda>_. length (dbuf d) + length (sized k kl) + 1) val)]"
  proof -
    have "rel_fields d3 = (rel_fields d2)[n := rel_field (dbase d2) f]" by (simp add: d3_def map_update)
    also have "\<dots> = (rel_fields d @ [(length (dbuf d), None)])[n := rel_field (dbase d2) f]" using r2(1) rel1 by simp
    also have "\<dots> = rel_fields d @ [rel_field (dbase d2) f]" by (metis length_map list_update_length n_def)
    finally show ?thesis by (simp add: rel_f)
  qed
  have bytes: "append_bytes val None = append_bytes v vl" by (cases v) (simp_all add: val_def append_bytes_def)
  have str: "strval d3 (dname f) = sized k kl"
    using str_at_new(1) [OF sized_NUL [OF nul]] unfolding strval_def off_f by (simp add: d3_def buf2)
  have low: "LowerStringWhenNeeded (sized k kl) (case kl of None \<Rightarrow> length (sized k kl) | Some j \<Rightarrow> j) = lower (sized k kl)"
    by (rule LowerStringWhenNeeded_lower [OF length_sized])
  have nc: "nocase (view d) \<longleftrightarrow> dflags d3 AND NS_SET_OPTION_NOCASE \<noteq> 0"
    using r1(6) r2(6) by (simp add: nocase_def d3_def d1'_def d0)
  have ov: "overwrite (dbuf d3) (length (dbuf d)) (lower (sized k kl)) = dbuf d @ lower (sized k kl) @ NUL # append_bytes v vl"
    by (simp add: overwrite_def d3_def buf2)
  have d': "idx = n" "d' = (if nocase (view d) then d3\<lparr>dbuf := dbuf d @ lower (sized k kl) @ NUL # append_bytes v vl\<rparr> else d3)"
    using put ov nc str
    unfolding d_SetPutSz_def n_def [symmetric] d0_def [symmetric] Let_def a1 prod.case d1'_def [symmetric] a2
      f_def [symmetric] d3_def [symmetric] str low off_f
    by auto
  show "idx = length (dfields d)" using d' by (simp add: n_def)
  show "list_all (above (dbase d')) (dfields d')" using above3 by (simp add: d')
  show "dbuf d' = dbuf d @ key @ NUL # append_bytes val None"
    by (simp add: d' bytes key_def stored_key_def) (simp add: d3_def buf2)
  show "rel_fields d' = rel_fields d @ [(length (dbuf d), map_option (\<lambda>_. length (dbuf d) + length key + 1) val)]"
    using rel3 by (simp add: d' key_def stored_key_def)
  show "dmax d' = grown (view d)" "dflags d' = dflags d" "dset_name d' = dset_name d"
    using r1(5-7) r2(5-7) by (simp_all add: d' d3_def d1'_def d0)
qed

lemma view_eqI:
  "set_name s = dset_name d \<Longrightarrow> maxSize s = dmax d \<Longrightarrow> flags s = dflags d \<Longrightarrow>
    set_fields s = map (rel_view (dbuf d)) (rel_fields d) \<Longrightarrow> view d = s"
  unfolding view_rel [symmetric] by (cases s) (simp add: view_def)

text \<open>
  C9. Refinement of \<^verbatim>\<open>Ns_SetPutSz\<close>: appending key and value to the shared buffer, with whatever
  relocation of the buffer on either append, gives a well-formed buffer whose pointers read exactly
  the old fields and the new one.
\<close>

theorem d_SetPutSz_refines:
  assumes "dset_ok d" "NUL \<notin> set k" "case v of Some s \<Rightarrow> NUL \<notin> set s | None \<Rightarrow> True"
  shows "dset_ok (snd (d_SetPutSz grow d k kl v vl)) \<and>
    map_prod id view (d_SetPutSz grow d k kl v vl) = Ns_SetPutSz (view d) k kl v vl"
proof -
  obtain idx d' where put: "d_SetPutSz grow d k kl v vl = (idx, d')" by fastforce
  have ab: "list_all (above (dbase d)) (dfields d)" and rel: "rel_ok (dbuf d) (rel_fields d)"
    using assms(1) by (simp_all add: dset_ok_def)
  note r = d_SetPutSz_rel [OF ab assms(2) put]
  let ?key = "stored_key (nocase (view d)) (sized k kl)"
  let ?val = "map_option (\<lambda>v. sized v vl) v"
  have "NUL \<notin> set ?key" using assms(2) sized_NUL lower_NUL by (auto simp: stored_key_def)
  moreover have "NUL \<notin> set s" if "?val = Some s" for s
    using that assms(3) sized_NUL by (cases v) auto
  ultimately have ok: "rel_ok (dbuf d') (rel_fields d')"
    "map (rel_view (dbuf d')) (rel_fields d') = map (rel_view (dbuf d)) (rel_fields d) @ [\<lparr>fname = ?key, fvalue = ?val\<rparr>]"
    using rel_ok_put [OF rel _ _ r(3) refl] by (simp_all add: r(4))
  have "dset_ok (snd (d_SetPutSz grow d k kl v vl))" using ok(1) r(2) by (simp add: dset_ok_def put)
  moreover have "view d' = snd (Ns_SetPutSz (view d) k kl v vl)"
    using ok(2) r(5-7) by (intro view_eqI) (simp_all add: Ns_SetPutSz_eq view_rel)
  ultimately show ?thesis using r(1) by (simp add: put Ns_SetPutSz_eq)
qed

theorem d_SetPutSz_refines_witness:
  "let d0 = \<lparr>dset_name = None, dfields = [], dmax = 10, dflags = 1, dbase = 1000, dbuf = [], davail = 200\<rparr>;
       grow = (\<lambda>(b, a) n. (b + 500, a + n));
       d1 = snd (d_SetPutSz grow d0 ''Host'' None (Some ''x'') None)
   in dset_ok d1 \<and> view d1 = snd (Ns_SetPutSz (view d0) ''Host'' None (Some ''x'') None)"
proof -
  let ?d0 = "\<lparr>dset_name = None, dfields = [], dmax = 10, dflags = 1, dbase = 1000, dbuf = [], davail = 200\<rparr>"
  let ?grow = "\<lambda>(b, a) n. (b + 500, a + n)"
  have "dset_ok ?d0" by (simp add: dset_ok_def rel_ok_def heap_ok_def)
  moreover have "NUL \<notin> set ''Host''" "case Some ''x'' of Some s \<Rightarrow> NUL \<notin> set s | None \<Rightarrow> True" by simp_all
  ultimately have "dset_ok (snd (d_SetPutSz ?grow ?d0 ''Host'' None (Some ''x'') None))"
    "map_prod id view (d_SetPutSz ?grow ?d0 ''Host'' None (Some ''x'') None) =
       Ns_SetPutSz (view ?d0) ''Host'' None (Some ''x'') None"
    using d_SetPutSz_refines [of ?d0 "''Host''" "Some ''x''" ?grow None None] by blast+
  then show ?thesis by (metis snd_map_prod)
qed

subsection \<open>Replacing a value\<close>

lemma apart_sym: "apart buf p q \<Longrightarrow> apart buf q p"
  by (auto simp: apart_def)

lemma heap_ok_replace:
  assumes "heap_ok buf (A @ n # w @ B)"
    and same: "\<And>p. p \<in> set (A @ n # B) \<Longrightarrow> str_at buf' p = str_at buf p \<and> in_buf buf' p"
    and new: "in_buf buf' p'" "\<And>p. p \<in> set (A @ n # B) \<Longrightarrow> apart buf' p p'"
  shows "heap_ok buf' (A @ n # p' # B)"
proof -
  have "sorted_wrt (apart buf) (A @ n # B)" using assms(1) by (auto simp: heap_ok_def sorted_wrt_append)
  then have "sorted_wrt (apart buf') (A @ n # B)"
    using same by (auto simp: apart_def intro: sorted_wrt_mono_rel [of _ "apart buf"])
  then show ?thesis
    using same new apart_sym by (auto simp: heap_ok_def sorted_wrt_append list_all_iff)
qed

text \<open>The fields around the replaced one.\<close>

definition other_offs :: "rel_field list \<Rightarrow> nat \<Rightarrow> nat list" where
  "other_offs rs i = concat (map field_offs (take i rs)) @ fst (rs ! i) # concat (map field_offs (drop (Suc i) rs))"

lemma rel_ok_replace:
  assumes "rel_ok buf rs" "i < length rs"
    and same: "\<And>p. p \<in> set (other_offs rs i) \<Longrightarrow> str_at buf' p = str_at buf p \<and> in_buf buf' p"
    and new: "in_buf buf' p'" "\<And>p. p \<in> set (other_offs rs i) \<Longrightarrow> apart buf' p p'"
  defines "rs' \<equiv> rs[i := (fst (rs ! i), Some p')]"
  shows "rel_ok buf' rs'"
    and "map (rel_view buf') rs' = (map (rel_view buf) rs)[i := (rel_view buf (rs ! i))\<lparr>fvalue := Some (str_at buf' p')\<rparr>]"
proof -
  let ?A = "concat (map field_offs (take i rs))" and ?B = "concat (map field_offs (drop (Suc i) rs))"
  obtain n w where nw: "rs ! i = (n, w)" by fastforce
  have rs: "rs = take i rs @ rs ! i # drop (Suc i) rs" using assms(2) by (rule id_take_nth_drop)
  have rs': "rs' = take i rs @ (n, Some p') # drop (Suc i) rs"
    using assms(2) by (simp add: rs'_def nw upd_conv_take_nth_drop)
  have "concat (map field_offs rs) = ?A @ n # (case w of None \<Rightarrow> [] | Some x \<Rightarrow> [x]) @ ?B"
    by (subst rs) (simp add: nw)
  with assms(1) have "heap_ok buf (?A @ n # (case w of None \<Rightarrow> [] | Some x \<Rightarrow> [x]) @ ?B)"
    by (simp add: rel_ok_def)
  from heap_ok_replace [OF this, of buf' p'] same new
  have "heap_ok buf' (concat (map field_offs rs'))" by (simp add: other_offs_def nw rs')
  moreover have "map fst rs' = map fst rs" using assms(2) by (simp add: rs'_def map_update list_update_same_conv nw)
  ultimately show "rel_ok buf' rs'" using assms(1) by (simp add: rel_ok_def)
  have "map (rel_view buf') (take i rs) = map (rel_view buf) (take i rs)"
    by (rule rel_views_cong) (use same in \<open>simp add: other_offs_def\<close>)
  moreover have "map (rel_view buf') (drop (Suc i) rs) = map (rel_view buf) (drop (Suc i) rs)"
    by (rule rel_views_cong) (use same in \<open>simp add: other_offs_def\<close>)
  moreover have "str_at buf' n = str_at buf n" using same by (simp add: other_offs_def nw)
  ultimately show "map (rel_view buf') rs' = (map (rel_view buf) rs)[i := (rel_view buf (rs ! i))\<lparr>fvalue := Some (str_at buf' p')\<rparr>]"
    using assms(2) by (simp add: rs' upd_conv_take_nth_drop rel_view_def nw take_map drop_map)
qed

lemma other_offs_in:
  assumes "rel_ok buf rs" "i < length rs" "p \<in> set (other_offs rs i)"
  shows "in_buf buf p" "snd (rs ! i) = Some q \<Longrightarrow> apart buf p q" "snd (rs ! i) = Some q \<Longrightarrow> in_buf buf q"
proof -
  obtain n w where nw: "rs ! i = (n, w)" by fastforce
  have rs: "rs = take i rs @ rs ! i # drop (Suc i) rs" using assms(2) by (rule id_take_nth_drop)
  have "heap_ok buf (concat (map field_offs (take i rs @ rs ! i # drop (Suc i) rs)))"
    using assms(1) rs by (simp add: rel_ok_def)
  then have h: "heap_ok buf (concat (map field_offs (take i rs)) @ n # (case w of None \<Rightarrow> [] | Some x \<Rightarrow> [x]) @
      concat (map field_offs (drop (Suc i) rs)))"
    by (simp add: nw)
  show "in_buf buf p" "snd (rs ! i) = Some q \<Longrightarrow> in_buf buf q"
    using heap_ok_in [OF h] assms(3) by (auto simp: other_offs_def nw)
  show "snd (rs ! i) = Some q \<Longrightarrow> apart buf p q"
    using h assms(3) apart_sym by (auto simp: other_offs_def nw heap_ok_def sorted_wrt_append)
qed

lemma replace_in_place:
  assumes "rel_ok buf rs" "i < length rs" "snd (rs ! i) = Some q" "NUL \<notin> set s" "length s \<le> length (str_at buf q)"
  defines "buf' \<equiv> overwrite buf q (s @ [NUL])"
  shows "rel_ok buf' rs" "map (rel_view buf') rs = (map (rel_view buf) rs)[i := (rel_view buf (rs ! i))\<lparr>fvalue := Some s\<rparr>]"
proof -
  have "fst (rs ! i) \<in> set (other_offs rs i)" by (simp add: other_offs_def)
  then have q: "in_buf buf q" using other_offs_in(3) [OF assms(1,2)] assms(3) by blast
  have len: "q + length (s @ [NUL]) \<le> length buf" using in_buf_end [OF q] assms(5) by simp
  have new: "str_at buf' q = s" "in_buf buf' q"
    using str_at_overwritten [OF assms(4)] len by (simp_all add: buf'_def)
  have same: "str_at buf' p = str_at buf p \<and> in_buf buf' p" and ap: "apart buf' p q"
    if "p \<in> set (other_offs rs i)" for p
  proof -
    note p = other_offs_in [OF assms(1,2) that]
    have "str_end buf p < q \<or> q + length (s @ [NUL]) \<le> p"
      using p(2) [OF assms(3)] assms(5) by (auto simp: apart_def)
    from str_at_overwrite [OF p(1) len this] show same: "str_at buf' p = str_at buf p \<and> in_buf buf' p"
      by (simp add: buf'_def)
    show "apart buf' p q" using p(2) [OF assms(3)] assms(5) same new(1) by (auto simp: apart_def)
  qed
  have "rs[i := (fst (rs ! i), Some q)] = rs" using assms(3) by (metis list_update_id prod.collapse)
  then show "rel_ok buf' rs"
    "map (rel_view buf') rs = (map (rel_view buf) rs)[i := (rel_view buf (rs ! i))\<lparr>fvalue := Some s\<rparr>]"
    using rel_ok_replace [OF assms(1,2) same new(2) ap] new(1) by simp_all
qed

lemma replace_append:
  assumes "rel_ok buf rs" "i < length rs" "NUL \<notin> set s"
    and "buf1 = (case snd (rs ! i) of None \<Rightarrow> buf | Some q \<Rightarrow> overwrite buf q [c])"
  defines "buf' \<equiv> buf1 @ s @ [NUL]"
  defines "rs' \<equiv> rs[i := (fst (rs ! i), Some (length buf))]"
  shows "rel_ok buf' rs'" "map (rel_view buf') rs' = (map (rel_view buf) rs)[i := (rel_view buf (rs ! i))\<lparr>fvalue := Some s\<rparr>]"
    "length buf1 = length buf"
proof -
  have "fst (rs ! i) \<in> set (other_offs rs i)" by (simp add: other_offs_def)
  then have q: "in_buf buf q" if "snd (rs ! i) = Some q" for q
    using other_offs_in(3) [OF assms(1,2)] that by blast
  have len: "q + length [c] \<le> length buf" if "snd (rs ! i) = Some q" for q
    using in_buf_end [OF q [OF that]] by simp
  show l1: "length buf1 = length buf"
    using length_overwrite [OF len] by (auto simp: assms(4) split: option.split)
  have same1: "str_at buf1 p = str_at buf p" "in_buf buf1 p" if "p \<in> set (other_offs rs i)" for p
  proof -
    note p = other_offs_in [OF assms(1,2) that]
    have "str_end buf p < q \<or> q + length [c] \<le> p" if "snd (rs ! i) = Some q" for q
      using p(2) [OF that] by (auto simp: apart_def)
    then show "str_at buf1 p = str_at buf p" "in_buf buf1 p"
      using str_at_overwrite [OF p(1) len] p(1) by (auto simp: assms(4) split: option.split)
  qed
  have new: "str_at buf' (length buf) = s" "in_buf buf' (length buf)"
    using str_at_new [OF assms(3), of buf1 "[]"] by (simp_all add: buf'_def l1)
  have same: "str_at buf' p = str_at buf p \<and> in_buf buf' p" and ap: "apart buf' p (length buf)"
    if "p \<in> set (other_offs rs i)" for p
    using str_at_append [OF same1(2) [OF that], of "s @ [NUL]"] same1(1) [OF that] in_buf_end [OF same1(2) [OF that]]
    by (simp_all add: buf'_def apart_def l1)
  show "rel_ok buf' rs'" "map (rel_view buf') rs' = (map (rel_view buf) rs)[i := (rel_view buf (rs ! i))\<lparr>fvalue := Some s\<rparr>]"
    using rel_ok_replace [OF assms(1,2) same new(2) ap] new(1) by (simp_all add: rs'_def)
qed

abbreviation with_value :: "dset \<Rightarrow> nat \<Rightarrow> cstring \<Rightarrow> ns_set" where
  "with_value d i s \<equiv> (view d)\<lparr>set_fields := (set_fields (view d))[i := (set_fields (view d) ! i)\<lparr>fvalue := Some s\<rparr>]\<rparr>"

lemma rel_value: "i < length (dfields d) \<Longrightarrow> snd (rel_fields d ! i) = map_option (off d) (dvalue (dfields d ! i))"
  by (simp add: rel_field_def off_def [abs_def])

lemma put_value_place:
  assumes "dset_ok d" "NUL \<notin> set s" "i < length (dfields d)" "dvalue (dfields d ! i) = Some a"
    and "length s \<le> length (strval d a)"
  defines "d' \<equiv> d\<lparr>dbuf := overwrite (dbuf d) (off d a) (s @ [NUL])\<rparr>"
  shows "dset_ok d'" "view d' = with_value d i s"
proof -
  have ab: "list_all (above (dbase d)) (dfields d)" and rel: "rel_ok (dbuf d) (rel_fields d)"
    using assms(1) by (simp_all add: dset_ok_def)
  have i: "i < length (rel_fields d)" using assms(3) by simp
  have "snd (rel_fields d ! i) = Some (off d a)" "length s \<le> length (str_at (dbuf d) (off d a))"
    using rel_value [OF assms(3)] assms(4,5) by (simp_all add: strval_def)
  note rep = replace_in_place [OF rel i this(1) assms(2) this(2)]
  show "dset_ok d'" using ab rep(1) by (simp add: dset_ok_def d'_def)
  show "view d' = with_value d i s"
    using assms(3) by (intro view_eqI) (simp_all add: rep(2) view_rel d'_def del: map_map)
qed

lemma put_value_append:
  assumes "dset_ok d" "NUL \<notin> set v" "i < length (dfields d)"
    and d1: "d1 = (case dvalue (dfields d ! i) of None \<Rightarrow> d | Some a \<Rightarrow> d\<lparr>dbuf := overwrite (dbuf d) (off d a) [c]\<rparr>)"
    and a2: "AppendData grow d1 (length (dfields d1)) (Some v) (Some n) = (d2, p)"
  defines "d3 \<equiv> d2\<lparr>dfields := (dfields d2)[i := (dfields d2 ! i)\<lparr>dvalue := p\<rparr>]\<rparr>"
  shows "dset_ok d3" "view d3 = with_value d i (take n v)"
proof -
  let ?r = "rel_fields d ! i"
  have ab: "list_all (above (dbase d)) (dfields d)" and rel: "rel_ok (dbuf d) (rel_fields d)"
    using assms(1) by (simp_all add: dset_ok_def)
  have i: "i < length (rel_fields d)" using assms(3) by simp
  have nul: "NUL \<notin> set (take n v)" using assms(2) by (auto dest: in_set_takeD)
  have d1s: "dbase d1 = dbase d" "dfields d1 = dfields d" "dset_name d1 = dset_name d" "dmax d1 = dmax d"
    "dflags d1 = dflags d" "dbuf d1 = (case snd ?r of None \<Rightarrow> dbuf d | Some q \<Rightarrow> overwrite (dbuf d) q [c])"
    using rel_value [OF assms(3)] by (simp_all add: d1 split: option.split)
  have "list_all (above (dbase d1)) (dfields d1)" using ab by (simp add: d1s)
  note r = AppendData_rel [OF this refl a2]
  note rep = replace_append [OF rel i nul d1s(6)]
  have i2: "i < length (dfields d2)" using r(4) assms(3) by (simp add: d1s)
  have "rel_field (dbase d2) (dfields d2 ! i) = ?r"
    using arg_cong [OF r(1), of "\<lambda>l. l ! i"] i2 assms(3) by (simp add: d1s)
  then have "rel_field (dbase d2) ((dfields d2 ! i)\<lparr>dvalue := p\<rparr>) = (fst ?r, Some (length (dbuf d)))"
    using r(8) rep(3) by (simp add: rel_field_def prod_eq_iff)
  then have rel3: "rel_fields d3 = (rel_fields d)[i := (fst ?r, Some (length (dbuf d)))]"
    using r(1) by (simp add: d3_def map_update d1s)
  have buf3: "dbuf d3 = dbuf d1 @ take n v @ [NUL]" using r(3) by (simp add: d3_def append_bytes_def sized_def)
  have "list_all (above (dbase d3)) (dfields d3)"
    using r(2,8) i2 by (auto simp: d3_def list_all_length nth_list_update above_def)
  then show "dset_ok d3" using rep(1) by (simp add: dset_ok_def rel3 buf3)
  show "view d3 = with_value d i (take n v)"
  proof (rule view_eqI)
    show "set_fields (with_value d i (take n v)) = map (rel_view (dbuf d3)) (rel_fields d3)"
      unfolding rel3 buf3 rep(2) using assms(3) by (simp add: view_rel del: map_map)
  qed (use r(5-7) in \<open>simp_all add: d3_def d1s\<close>)
qed

text \<open>
  C18. Refinement of \<^verbatim>\<open>Ns_SetPutValueSz\<close>: whether the new value is copied over the old one or the old
  one is abandoned and the new one appended to the possibly moving buffer, the result is a
  well-formed buffer in which only the value of the given field has changed.
\<close>

theorem d_SetPutValueSz_refines:
  assumes "dset_ok d" "NUL \<notin> set v"
  shows "map_sum id view (d_SetPutValueSz grow d i v sz) = Ns_SetPutValueSz (view d) i v sz \<and>
    (\<forall>d'. d_SetPutValueSz grow d i v sz = Inr d' \<longrightarrow> dset_ok d')"
proof (cases "i < dmax d \<and> i < length (dfields d)")
  case False
  then show ?thesis using assms(1) by (auto simp: d_SetPutValueSz_def Ns_SetPutValueSz_def not_le)
next
  case True
  define n where "n = (case sz of None \<Rightarrow> length v | Some k \<Rightarrow> k)"
  let ?f = "dfields d ! i"
  let ?old = "case dvalue ?f of None \<Rightarrow> 0 | Some a \<Rightarrow> length (strval d a)"
  have i: "i < dmax d" "i < length (dfields d)" using True by simp_all
  have "fvalue (set_fields (view d) ! i) = map_option (strval d) (dvalue ?f)"
    using i by (simp add: view_def view_field_def)
  then have abs: "Ns_SetPutValueSz (view d) i v sz = Inr (if ?old = 0 \<and> n = 0 then view d else with_value d i (take n v))"
    using i by (simp add: Ns_SetPutValueSz_def Let_def n_def split: option.split)
  consider (none) "?old = 0" "n = 0" | (place) "n \<le> ?old" "?old \<noteq> 0"
    | (app) "\<not> (?old = 0 \<and> n = 0)" "\<not> (n \<le> ?old \<and> ?old \<noteq> 0)" by linarith
  then show ?thesis
  proof cases
    case none
    then have "d_SetPutValueSz grow d i v sz = Inr d" using i by (simp add: d_SetPutValueSz_def n_def)
    with none abs assms(1) show ?thesis by simp
  next
    case place
    then obtain a where a: "dvalue ?f = Some a" by (cases "dvalue ?f") auto
    have "NUL \<notin> set (take n v)" "length (take n v) \<le> length (strval d a)"
      using assms(2) place a by (auto dest: in_set_takeD)
    from put_value_place [OF assms(1) this(1) i(2) a this(2)] abs place a i show ?thesis
      by (simp add: d_SetPutValueSz_def n_def Let_def)
  next
    case app
    define d1 where "d1 = (case dvalue ?f of None \<Rightarrow> d | Some a \<Rightarrow> d\<lparr>dbuf := overwrite (dbuf d) (off d a) [CHR 0x03]\<rparr>)"
    obtain d2 p where a2: "AppendData grow d1 (length (dfields d1)) (Some v) (Some n) = (d2, p)" by fastforce
    have "d_SetPutValueSz grow d i v sz = Inr (d2\<lparr>dfields := (dfields d2)[i := (dfields d2 ! i)\<lparr>dvalue := p\<rparr>]\<rparr>)"
      using app i a2 unfolding d_SetPutValueSz_def n_def [symmetric] Let_def d1_def [symmetric]
      by (auto simp: not_le)
    with put_value_append [OF assms i(2) d1_def a2] abs app show ?thesis by auto
  qed
qed

theorem d_SetPutValueSz_refines_witness:
  "let d = snd (d_SetPutSz (\<lambda>(b, a) n. (b + 500, a + n))
             \<lparr>dset_name = None, dfields = [], dmax = 10, dflags = 0, dbase = 1000, dbuf = [], davail = 200\<rparr>
             ''a'' None (Some ''x'') None)
   in map_sum id view (d_SetPutValueSz (\<lambda>(b, a) n. (b + 500, a + n)) d 0 ''long'' None) =
        Ns_SetPutValueSz (view d) 0 ''long'' None"
proof -
  let ?d = "snd (d_SetPutSz (\<lambda>(b, a) n. (b + 500, a + n))
     \<lparr>dset_name = None, dfields = [], dmax = 10, dflags = 0, dbase = 1000, dbuf = [], davail = 200\<rparr>
     ''a'' None (Some ''x'') None)"
  have "dset_ok ?d" by code_simp
  moreover have "NUL \<notin> set ''long''" by simp
  ultimately show ?thesis unfolding Let_def using d_SetPutValueSz_refines by blast
qed

subsection \<open>Clearing the values\<close>

definition packed :: "cstring list \<Rightarrow> char list" where
  "packed strs = concat (map (\<lambda>s. s @ [NUL]) strs)"

fun starts :: "nat \<Rightarrow> cstring list \<Rightarrow> nat list" where
  "starts a [] = []"
| "starts a (s # ss) = a # starts (a + length s + 1) ss"

lemma starts_snoc: "starts a (ss @ [s]) = starts a ss @ [a + length (packed ss)]"
  by (induction ss arbitrary: a) (simp_all add: packed_def)

lemma length_starts [simp]: "length (starts a ss) = length ss"
  by (induction ss arbitrary: a) simp_all

lemma packed_rel_ok:
  assumes "\<And>s. s \<in> set strs \<Longrightarrow> NUL \<notin> set s"
  shows "rel_ok (packed strs) (map (\<lambda>p. (p, None)) (starts 0 strs)) \<and>
    map (rel_view (packed strs)) (map (\<lambda>p. (p, None)) (starts 0 strs)) =
      map (\<lambda>s. \<lparr>fname = s, fvalue = None\<rparr>) strs"
  using assms
proof (induction strs rule: rev_induct)
  case Nil
  then show ?case by (simp add: rel_ok_def heap_ok_def)
next
  case (snoc s ss)
  then have IH: "rel_ok (packed ss) (map (\<lambda>p. (p, None)) (starts 0 ss))"
    "map (rel_view (packed ss)) (map (\<lambda>p. (p, None)) (starts 0 ss)) = map (\<lambda>s. \<lparr>fname = s, fvalue = None\<rparr>) ss"
    by auto
  have buf: "packed (ss @ [s]) = packed ss @ s @ NUL # append_bytes None None"
    by (simp add: packed_def append_bytes_def)
  have nul: "NUL \<notin> set s" using snoc.prems by simp
  have "map (\<lambda>p. (p, None)) (starts 0 (ss @ [s])) =
      map (\<lambda>p. (p, None)) (starts 0 ss) @ [(length (packed ss), map_option (\<lambda>_. length (packed ss) + length s + 1) None)]"
    by (simp add: starts_snoc)
  then show ?case
    using rel_ok_put [OF IH(1) nul _ buf refl] IH(2) by (simp only: map_append list.map option.distinct) simp
qed

text \<open>The loop moves the names to the front: \<open>os\<close> are the offsets of the names still to be moved,
  \<open>t\<close> the offset of the target.\<close>

definition clear_inv :: "dset \<Rightarrow> nat \<Rightarrow> nat \<Rightarrow> nat list \<Rightarrow> bool" where
  "clear_inv d i t os \<longleftrightarrow>
     map (\<lambda>f. dname f - dbase d) (drop i (dfields d)) = map int os \<and> i + length os = length (dfields d) \<and>
     list_all (in_buf (dbuf d)) os \<and> sorted_wrt (\<lambda>p q. str_end (dbuf d) p < q) os \<and>
     (os \<noteq> [] \<longrightarrow> t \<le> hd os)"

lemma clear_step:
  assumes inv: "clear_inv d i t (p # os)" and i: "i < length (dfields d)"
  defines "s \<equiv> str_at (dbuf d) p"
  defines "buf \<equiv> (if t \<noteq> p then overwrite (dbuf d) t (s @ [NUL]) else dbuf d)"
  defines "d' \<equiv> d\<lparr>dbuf := buf, dfields := (dfields d)[i := \<lparr>dname = dbase d + int t, dvalue = None\<rparr>]\<rparr>"
  shows "clear_inv d' (Suc i) (t + length s + 1) os" "map (str_at buf) os = map (str_at (dbuf d)) os"
    "take (t + length s + 1) buf = take t (dbuf d) @ s @ [NUL]" "length buf = length (dbuf d)"
proof -
  have p: "in_buf (dbuf d) p" "t \<le> p" "\<And>q. q \<in> set os \<Longrightarrow> p + length s < q \<and> in_buf (dbuf d) q"
    using inv by (auto simp: clear_inv_def list_all_iff s_def)
  have pl: "p + length s < length (dbuf d)" using in_buf_end [OF p(1)] by (simp add: s_def)
  then have tl: "t + length (s @ [NUL]) \<le> length (dbuf d)" using p(2) by simp
  show len: "length buf = length (dbuf d)" using length_overwrite [OF tl] by (simp add: buf_def)
  have same: "str_at buf q = str_at (dbuf d) q \<and> in_buf buf q" if "q \<in> set os" for q
  proof -
    have "t + length (s @ [NUL]) \<le> q" using p(2,3) that by fastforce
    then show ?thesis using str_at_overwrite [OF _ tl] p(3) [OF that] by (simp add: buf_def)
  qed
  then show "map (str_at buf) os = map (str_at (dbuf d)) os" by simp
  show "take (t + length s + 1) buf = take t (dbuf d) @ s @ [NUL]"
  proof (cases "t = p")
    case True
    obtain r where "drop p (dbuf d) = s @ NUL # r" using in_buf_split [OF p(1)] by (auto simp: s_def)
    then have "dbuf d = take t (dbuf d) @ s @ NUL # r" using True by (metis append_take_drop_id)
    moreover have "length (take t (dbuf d)) = t" using tl by simp
    ultimately have "take (t + length s + 1) (dbuf d) = take (t + length s + 1) (take t (dbuf d) @ (s @ [NUL]) @ r)"
      by simp
    then show ?thesis using True \<open>length (take t (dbuf d)) = t\<close> by (simp add: buf_def)
  next
    case False
    then show ?thesis using tl by (simp add: buf_def overwrite_def)
  qed
  have "sorted_wrt (\<lambda>p q. str_end buf p < q) os"
  proof (rule sorted_wrt_mono_rel)
    show "sorted_wrt (\<lambda>p q. str_end (dbuf d) p < q) os" using inv by (simp add: clear_inv_def)
  qed (simp add: same)
  moreover have "map (\<lambda>f. dname f - dbase d) (drop (Suc i) (dfields d)) = map int os"
    using inv i by (simp add: clear_inv_def Cons_nth_drop_Suc [symmetric])
  moreover have "os \<noteq> [] \<longrightarrow> t + length s + 1 \<le> hd os" using p(2,3) by (cases os) fastforce+
  ultimately show "clear_inv d' (Suc i) (t + length s + 1) os"
    using inv same by (auto simp: clear_inv_def d'_def list_all_iff)
qed

lemma clear_loop_packs:
  assumes "clear_inv d i t os" "n = length os"
    and "strs = map (str_at (dbuf d)) os"
  shows "\<exists>d'. clear_loop n d i (dbase d + int t) = (d', dbase d + int (t + length (packed strs))) \<and>
    take (t + length (packed strs)) (dbuf d') = take t (dbuf d) @ packed strs \<and>
    dfields d' = take i (dfields d) @ map (\<lambda>p. \<lparr>dname = dbase d + int p, dvalue = None\<rparr>) (starts t strs) \<and>
    dbase d' = dbase d \<and> dmax d' = dmax d \<and> dflags d' = dflags d \<and> dset_name d' = dset_name d"
  using assms
proof (induction os arbitrary: n d i t strs)
  case Nil
  then show ?case by (simp add: clear_inv_def packed_def)
next
  case (Cons p os)
  let ?s = "str_at (dbuf d) p"
  let ?buf = "if t \<noteq> p then overwrite (dbuf d) t (?s @ [NUL]) else dbuf d"
  let ?d = "d\<lparr>dbuf := ?buf, dfields := (dfields d)[i := \<lparr>dname = dbase d + int t, dvalue = None\<rparr>]\<rparr>"
  have i: "i < length (dfields d)" using Cons.prems(1) by (simp add: clear_inv_def)
  note st = clear_step [OF Cons.prems(1) i]
  have "dname (dfields d ! i) - dbase d = int p"
    using Cons.prems(1) i by (simp add: clear_inv_def Cons_nth_drop_Suc [symmetric])
  then have name: "dname (dfields d ! i) = dbase d + int p" by simp
  have loop: "clear_loop n d i (dbase d + int t) = clear_loop (length os) ?d (Suc i) (dbase ?d + int (t + length ?s + 1))"
    using Cons.prems(2) by (simp add: name strval_def off_def Let_def algebra_simps)
  let ?strs = "map (str_at (dbuf d)) os"
  from Cons.IH [OF st(1) refl refl] st(2) obtain d' where IH:
    "clear_loop (length os) ?d (Suc i) (dbase ?d + int (t + length ?s + 1)) =
       (d', dbase ?d + int (t + length ?s + 1 + length (packed ?strs)))"
    "take (t + length ?s + 1 + length (packed ?strs)) (dbuf d') = take (t + length ?s + 1) ?buf @ packed ?strs"
    "dfields d' = take (Suc i) (dfields ?d) @ map (\<lambda>p. \<lparr>dname = dbase d + int p, dvalue = None\<rparr>) (starts (t + length ?s + 1) ?strs)"
    "dbase d' = dbase d" "dmax d' = dmax d" "dflags d' = dflags d" "dset_name d' = dset_name d"
    by (auto split: if_splits)
  have pk: "packed (?s # ?strs) = ?s @ NUL # packed ?strs" by (simp add: packed_def)
  have "take (Suc i) (dfields ?d) = take i (dfields d) @ [\<lparr>dname = dbase d + int t, dvalue = None\<rparr>]"
    using i by (simp add: take_Suc_conv_app_nth)
  with IH st(3) loop show ?case
    unfolding Cons.prems(3) by (intro exI [of _ d']) (simp add: pk algebra_simps)
qed

lemma clear_from_start:
  assumes "clear_inv d 0 0 os"
  obtains d' strs where "strs = map (str_at (dbuf d)) os"
    "clear_loop (length os) d 0 (dbase d) = (d', dbase d + int (length (packed strs)))"
    "take (length (packed strs)) (dbuf d') = packed strs"
    "dfields d' = map (\<lambda>p. \<lparr>dname = dbase d + int p, dvalue = None\<rparr>) (starts 0 strs)"
    "dbase d' = dbase d" "dmax d' = dmax d" "dflags d' = dflags d" "dset_name d' = dset_name d"
  using clear_loop_packs [OF assms refl refl] by auto

lemma rel_ok_names:
  "rel_ok buf rs \<Longrightarrow> sorted_wrt (\<lambda>p q. str_end buf p < q) (map fst rs) \<and> list_all (in_buf buf) (map fst rs)"
proof (induction rs)
  case (Cons r rs)
  obtain n v where r: "r = (n, v)" by fastforce
  have "heap_ok buf (n # (case v of None \<Rightarrow> [] | Some x \<Rightarrow> [x]) @ concat (map field_offs rs))"
    using Cons.prems by (simp add: rel_ok_def r)
  then have "in_buf buf n" "heap_ok buf (concat (map field_offs rs))" "\<And>q. q \<in> set (concat (map field_offs rs)) \<Longrightarrow> apart buf n q"
    by (auto simp: heap_ok_def sorted_wrt_append)
  note h = this
  have lt: "\<And>q. q \<in> set rs \<Longrightarrow> n < fst q" "sorted_wrt (<) (map fst rs)"
    using Cons.prems by (auto simp: rel_ok_def r)
  have "rel_ok buf rs" using h(2) lt(2) by (simp add: rel_ok_def)
  moreover have "str_end buf n < fst q" if "q \<in> set rs" for q
    using h(3) [OF fst_in_offs [OF that]] lt(1) [OF that] by (auto simp: apart_def)
  ultimately show ?case using Cons.IH h(1) by (auto simp: r)
qed simp

lemma rel_fields_names: "list_all (above (dbase d)) (dfields d) \<Longrightarrow>
    map (\<lambda>f. dname f - dbase d) (dfields d) = map int (map fst (rel_fields d))"
  by (auto simp: rel_field_def above_def list_all_iff)

text \<open>
  Refinement of \<^verbatim>\<open>Ns_SetClearValues\<close>: moving the names to the front of the buffer, and the buffer to
  a smaller one, leaves every field with its name and without a value.
\<close>

theorem d_SetClearValues_refines:
  assumes "dset_ok d"
  shows "dset_ok (d_SetClearValues newBuffer d maxAlloc) \<and>
    view (d_SetClearValues newBuffer d maxAlloc) = Ns_SetClearValues (view d)"
proof -
  have some: "list_ex (\<lambda>f. fvalue f \<noteq> None) (set_fields (view d)) = list_ex (\<lambda>f. dvalue f \<noteq> None) (dfields d)"
    by (auto simp: view_def view_field_def list_ex_iff)
  let ?r = "d_SetClearValues newBuffer d maxAlloc"
  show "dset_ok ?r \<and> view ?r = Ns_SetClearValues (view d)"
  proof (cases "list_ex (\<lambda>f. dvalue f \<noteq> None) (dfields d)")
    case True
    have ab: "list_all (above (dbase d)) (dfields d)" and rel: "rel_ok (dbuf d) (rel_fields d)"
      using assms by (simp_all add: dset_ok_def)
    let ?os = "map fst (rel_fields d)"
    have "clear_inv d 0 0 ?os"
      using rel_ok_names [OF rel] rel_fields_names [OF ab] by (simp add: clear_inv_def)
    then obtain d1 strs where strs: "strs = map (str_at (dbuf d)) ?os"
      and d1: "clear_loop (length (dfields d)) d 0 (dbase d) = (d1, dbase d + int (length (packed strs)))"
      "take (length (packed strs)) (dbuf d1) = packed strs"
      "dfields d1 = map (\<lambda>p. \<lparr>dname = dbase d + int p, dvalue = None\<rparr>) (starts 0 strs)"
      "dbase d1 = dbase d" "dmax d1 = dmax d" "dflags d1 = dflags d" "dset_name d1 = dset_name d"
      by (elim clear_from_start) (simp only: length_map)
    have "NUL \<notin> set s" if "s \<in> set strs" for s using that str_at_no_NUL by (auto simp: strs)
    note pk = packed_rel_ok [OF this, of strs]
    have r: "dbuf ?r = packed strs" "rel_fields ?r = map (\<lambda>p. (p, None)) (starts 0 strs)"
      "list_all (above (dbase ?r)) (dfields ?r)" "dmax ?r = dmax d" "dflags ?r = dflags d" "dset_name ?r = dset_name d"
      using True d1 by (auto simp: d_SetClearValues_def Let_def rel_field_def above_def list_all_iff)
    have names: "map fname (set_fields (view d)) = strs" by (simp add: view_rel rel_view_def strs)
    have "map (\<lambda>f. f\<lparr>fvalue := None\<rparr>) fs = map (\<lambda>s. \<lparr>fname = s, fvalue = None\<rparr>) (map fname fs)" for fs :: "set_field list"
      by (induction fs) auto
    then have "map (\<lambda>f. f\<lparr>fvalue := None\<rparr>) (set_fields (view d)) = map (\<lambda>s. \<lparr>fname = s, fvalue = None\<rparr>) strs"
      by (metis names)
    then have "view ?r = Ns_SetClearValues (view d)"
      using True some pk r by (intro view_eqI) (simp_all only: Ns_SetClearValues_def if_True, simp_all)
    then show ?thesis using pk r by (simp add: dset_ok_def)
  qed (use assms some in \<open>simp add: d_SetClearValues_def Ns_SetClearValues_def\<close>)
qed

theorem d_SetClearValues_refines_witness:
  "let d = snd (d_SetPutSz (\<lambda>(b, a) n. (b + 500, a + n))
             \<lparr>dset_name = None, dfields = [], dmax = 10, dflags = 0, dbase = 1000, dbuf = [], davail = 200\<rparr>
             ''a'' None (Some ''x'') None)
   in view (d_SetClearValues 5000 d 64) = Ns_SetClearValues (view d)"
proof -
  let ?d = "snd (d_SetPutSz (\<lambda>(b, a) n. (b + 500, a + n))
     \<lparr>dset_name = None, dfields = [], dmax = 10, dflags = 0, dbase = 1000, dbuf = [], davail = 200\<rparr>
     ''a'' None (Some ''x'') None)"
  have "dset_ok ?d" by code_simp
  then show ?thesis unfolding Let_def using d_SetClearValues_refines by blast
qed

subsection \<open>Truncation\<close>

lemma trunc_end_ge: "endPtr \<le> trunc_end d endPtr fs"
proof (induction fs arbitrary: endPtr)
  case (Cons f fs)
  show ?case
    unfolding trunc_end.simps Let_def
    by (rule order_trans [OF _ Cons.IH]) (auto split: option.split)
qed simp

text \<open>The strings before offset \<open>m\<close> survive when the data is cut at \<open>m\<close> or later.\<close>

lemma rel_ok_take:
  assumes "rel_ok buf rs" "sz < length rs" "m \<le> n"
    and below: "\<And>p. p \<in> set (concat (map field_offs (take sz rs))) \<Longrightarrow> str_end buf p < m"
  shows "rel_ok (take n buf) (take sz rs)" "map (rel_view (take n buf)) (take sz rs) = map (rel_view buf) (take sz rs)"
proof -
  have "heap_ok buf (concat (map field_offs (take sz rs @ drop sz rs)))" "sorted_wrt (<) (map fst (take sz rs @ drop sz rs))"
    using assms(1) by (simp_all add: rel_ok_def)
  then have h: "heap_ok buf (concat (map field_offs (take sz rs)))" and asc: "sorted_wrt (<) (map fst (take sz rs))"
    unfolding map_append concat_append heap_ok_def by (simp_all only: sorted_wrt_append list_all_append)
  have same: "str_at (take n buf) p = str_at buf p \<and> in_buf (take n buf) p"
    if "p \<in> set (concat (map field_offs (take sz rs)))" for p
  proof -
    have i: "in_buf buf p" using heap_ok_in [OF h that] .
    moreover have "str_end buf p < length (take n buf)"
      using below [OF that] assms(3) in_buf_end [OF i] by simp
    ultimately show ?thesis using str_at_frame [of buf p "take n buf"] by simp
  qed
  show "rel_ok (take n buf) (take sz rs)"
    using heap_ok_frame [OF h same] asc by (simp add: rel_ok_def)
  show "map (rel_view (take n buf)) (take sz rs) = map (rel_view buf) (take sz rs)"
    by (rule rel_views_cong) (use same in blast)
qed

lemma before_name_ends:
  assumes "rel_ok buf rs" "sz < length rs" "p \<in> set (concat (map field_offs (take sz rs)))" "p < fst (rs ! sz)"
  shows "str_end buf p < fst (rs ! sz)"
proof -
  obtain n v where r: "rs ! sz = (n, v)" by fastforce
  have "rs = take sz rs @ rs ! sz # drop (Suc sz) rs" using assms(2) by (rule id_take_nth_drop)
  then have "heap_ok buf (concat (map field_offs (take sz rs @ rs ! sz # drop (Suc sz) rs)))"
    using assms(1) by (simp add: rel_ok_def)
  then have "heap_ok buf (concat (map field_offs (take sz rs)) @ n # (case v of None \<Rightarrow> [] | Some x \<Rightarrow> [x]) @
      concat (map field_offs (drop (Suc sz) rs)))" by (simp add: r)
  then have "apart buf p n" using assms(3) unfolding heap_ok_def sorted_wrt_append by fastforce
  then show ?thesis using assms(4) by (auto simp: apart_def r)
qed

lemma trunc_below:
  assumes "dset_ok d" "sz < length (dfields d)"
    and "\<And>f a. f \<in> set (take sz (dfields d)) \<Longrightarrow> dvalue f = Some a \<Longrightarrow> a < dname (dfields d ! sz)"
    and p: "p \<in> set (concat (map field_offs (take sz (rel_fields d))))"
  shows "str_end (dbuf d) p < fst (rel_fields d ! sz)"
proof -
  have ab: "list_all (above (dbase d)) (dfields d)" and rel: "rel_ok (dbuf d) (rel_fields d)"
    using assms(1) by (simp_all add: dset_ok_def)
  have sz: "sz < length (rel_fields d)" using assms(2) by simp
  obtain f where f: "f \<in> set (take sz (dfields d))" "p \<in> set (field_offs (rel_field (dbase d) f))"
    using p by (auto simp: take_map)
  then obtain k where k: "k < sz" "f = dfields d ! k" using assms(2) by (auto simp: in_set_conv_nth)
  have "sorted_wrt (<) (map fst (rel_fields d))" using rel by (simp add: rel_ok_def)
  then have "map fst (rel_fields d) ! k < map fst (rel_fields d) ! sz"
    using k(1) sz by (simp only: sorted_wrt_iff_nth_less length_map)
  then have "dname f < dname (dfields d ! sz)" using k assms(2) by (simp add: rel_field_def)
  moreover have "above (dbase d) f" using f(1) ab by (auto simp: list_all_iff dest: in_set_takeD)
  ultimately have "p < fst (rel_fields d ! sz)"
    using f(2) assms(3) [OF f(1)] assms(2)
    by (auto simp: rel_field_def above_def split: option.splits)
  from before_name_ends [OF rel sz p this] show ?thesis .
qed

text \<open>
  Refinement of \<^verbatim>\<open>Ns_SetTrunc\<close>: when no value of a remaining field lies behind the name of the
  first removed field, which is so unless values were replaced by longer ones, cutting the data keeps
  exactly the remaining fields.
\<close>

theorem d_SetTrunc_refines:
  assumes "dset_ok d" "sz < length (dfields d)"
    and "\<And>f a. f \<in> set (take sz (dfields d)) \<Longrightarrow> dvalue f = Some a \<Longrightarrow> a < dname (dfields d ! sz)"
  shows "dset_ok (d_SetTrunc d sz) \<and> view (d_SetTrunc d sz) = Ns_SetTrunc (view d) sz"
proof -
  have ab: "list_all (above (dbase d)) (dfields d)" and rel: "rel_ok (dbuf d) (rel_fields d)"
    using assms(1) by (simp_all add: dset_ok_def)
  let ?m = "if sz = 0 then 0 else fst (rel_fields d ! sz)"
  define n where "n = (if sz = 0 then 0
    else nat (trunc_end d (dname (dfields d ! sz)) (take (sz + 1) (dfields d)) - dbase d))"
  have mn: "?m \<le> n"
    using trunc_end_ge [of "dname (dfields d ! sz)" d "take (sz + 1) (dfields d)"] assms(2)
    by (auto simp: n_def rel_field_def intro!: nat_mono)
  have sz: "sz < length (rel_fields d)" using assms(2) by simp
  have below: "str_end (dbuf d) p < ?m" if "p \<in> set (concat (map field_offs (take sz (rel_fields d))))" for p
    using trunc_below [OF assms that] that by (cases "sz = 0") auto
  note r = rel_ok_take [OF rel sz mn below]
  have t: "d_SetTrunc d sz = d\<lparr>dbuf := take n (dbuf d), dfields := take sz (dfields d)\<rparr>"
    using assms(2) by (simp add: d_SetTrunc_def n_def)
  have "list_all (above (dbase d)) (take sz (dfields d))"
    using ab by (auto simp: list_all_iff dest: in_set_takeD)
  then have "dset_ok (d_SetTrunc d sz)" using r(1) by (simp add: dset_ok_def t take_map)
  moreover have "view (d_SetTrunc d sz) = Ns_SetTrunc (view d) sz"
  proof (rule view_eqI)
    have "set_fields (Ns_SetTrunc (view d) sz) = map (rel_view (dbuf d)) (take sz (rel_fields d))"
      using assms(2) by (simp add: Ns_SetTrunc_def view_rel take_map)
    then show "set_fields (Ns_SetTrunc (view d) sz) = map (rel_view (dbuf (d_SetTrunc d sz))) (rel_fields (d_SetTrunc d sz))"
      using r(2) by (simp add: t take_map)
  qed (simp_all add: t Ns_SetTrunc_def)
  ultimately show ?thesis by blast
qed

theorem d_SetTrunc_refines_witness:
  "let grow = (\<lambda>(b, a) n. (b, a));
       d = \<lparr>dset_name = None, dfields = [], dmax = 10, dflags = 0, dbase = 1000, dbuf = [], davail = 200\<rparr>;
       d = snd (d_SetPutSz grow d ''a'' None (Some ''1'') None);
       d = snd (d_SetPutSz grow d ''b'' None (Some ''2'') None)
   in view (d_SetTrunc d 1) = Ns_SetTrunc (view d) 1"
proof -
  let ?grow = "\<lambda>(b, a) n. (b, a)"
  let ?d0 = "\<lparr>dset_name = None, dfields = [], dmax = 10, dflags = 0, dbase = 1000, dbuf = [], davail = 200\<rparr>"
  let ?d = "snd (d_SetPutSz ?grow (snd (d_SetPutSz ?grow ?d0 ''a'' None (Some ''1'') None)) ''b'' None (Some ''2'') None)"
  have fields: "dfields ?d = [\<lparr>dname = 1000, dvalue = Some 1002\<rparr>, \<lparr>dname = 1004, dvalue = Some 1006\<rparr>]" by code_simp
  have "dset_ok ?d" by code_simp
  moreover have "1 < length (dfields ?d)" unfolding fields by simp
  moreover have "a < dname (dfields ?d ! 1)" if "f \<in> set (take 1 (dfields ?d))" "dvalue f = Some a" for f a
    using that unfolding fields by auto
  ultimately show ?thesis unfolding Let_def using d_SetTrunc_refines [of ?d 1] by blast
qed

subsection \<open>Data loss\<close>

text \<open>Two values replaced by longer ones one after the other lie next to each other at the end of the
  buffer. The scan of \<^verbatim>\<open>Ns_SetTrunc\<close> extends the end only for a string that starts strictly behind it,
  so the second one, which starts exactly there, is cut off: its field reads as the empty string.\<close>

lemma d_SetTrunc_loses_value:
  "let grow = (\<lambda>(b, a) n. (b, a));
       d = \<lparr>dset_name = None, dfields = [], dmax = 10, dflags = 0, dbase = 1000, dbuf = [], davail = 200\<rparr>;
       d = snd (d_SetPutSz grow d ''a'' None (Some ''1'') None);
       d = snd (d_SetPutSz grow d ''b'' None (Some ''2'') None);
       d = snd (d_SetPutSz grow d ''c'' None (Some ''3'') None);
       d = projr (d_SetPutValueSz grow d 0 ''xx'' None);
       d = projr (d_SetPutValueSz grow d 1 ''yy'' None)
   in dset_ok d \<and> Ns_SetGet (view d) ''b'' = Some ''yy'' \<and> Ns_SetGet (view (d_SetTrunc d 2)) ''b'' = Some []"
  by code_simp

text \<open>Preallocating a size between the static size and the length of the data writes a NUL into a
  stored string.\<close>

lemma NsSetDataPrealloc_cuts_string:
  "let d = \<lparr>dset_name = None, dfields = [], dmax = 10, dflags = 0, dbase = 1000, dbuf = [], davail = 600\<rparr>;
       d = snd (d_SetPutSz (\<lambda>(b, a) n. (b, a)) d ''a'' None (Some (replicate 300 (CHR ''x''))) None);
       d' = d_SetResize (\<lambda>(b, a) n. (b, a)) d 1 250
   in map_option length (Ns_SetGet (view d) ''a'') = Some 300 \<and>
      map_option length (Ns_SetGet (view d') ''a'') = Some 248"
  by code_simp

end
