(* ===== verification/NsHeap.thy ===== *)
theory NsHeap
  imports NsPrelude
begin

text \<open>
  The binary heap of \<^verbatim>\<open>nsd/sched.c\<close> as loops on a list: position \<open>k\<close> of the source, counted from 1,
  is the element \<open>k - 1\<close> of the list, the parent of \<open>k\<close> is \<open>k / 2\<close>. The elements carry a key; the
  comparison of keys is the interface \<open>c_comparator\<close>, which the locale \<open>event_heap\<close> extends with the
  proof that the loops restore the heap order. The scheduler runs the same loops on its state and is related to them in \<^verbatim>\<open>NsSched\<close>.
\<close>

definition el :: "'a list \<Rightarrow> nat \<Rightarrow> 'a" where
  "el xs k = xs ! (k - 1)"

definition exchange :: "'a list \<Rightarrow> nat \<Rightarrow> nat \<Rightarrow> 'a list" where
  "exchange xs i j = xs[i - 1 := el xs j, j - 1 := el xs i]"

function swim :: "('a \<Rightarrow> 'a \<Rightarrow> bool) \<Rightarrow> nat \<Rightarrow> 'a list \<Rightarrow> 'a list" where
  "swim larger k xs =
     (if k > 1 \<and> larger (el xs (k div 2)) (el xs k)
      then swim larger (k div 2) (exchange xs (k div 2) k)
      else xs)"
  by auto
termination by (relation "measure (\<lambda>(_, k, _). k)") auto

definition smaller_child :: "('a \<Rightarrow> 'a \<Rightarrow> bool) \<Rightarrow> nat \<Rightarrow> 'a list \<Rightarrow> nat" where
  "smaller_child larger k xs =
     (if 2 * k < length xs \<and> larger (el xs (2 * k)) (el xs (2 * k + 1)) then 2 * k + 1 else 2 * k)"

function sink :: "('a \<Rightarrow> 'a \<Rightarrow> bool) \<Rightarrow> nat \<Rightarrow> 'a list \<Rightarrow> 'a list" where
  "sink larger k xs =
     (if k = 0 \<or> 2 * k > length xs then xs
      else if \<not> larger (el xs k) (el xs (smaller_child larger k xs)) then xs
      else sink larger (smaller_child larger k xs) (exchange xs k (smaller_child larger k xs)))"
  by auto
termination
  by (relation "measure (\<lambda>(_, k, xs). length xs - k)") (auto simp: smaller_child_def exchange_def)

declare swim.simps [simp del] sink.simps [simp del]

lemma length_exchange [simp]: "length (exchange xs i j) = length xs"
  by (simp add: exchange_def)

lemma mset_exchange:
  "1 \<le> i \<Longrightarrow> i \<le> length xs \<Longrightarrow> 1 \<le> j \<Longrightarrow> j \<le> length xs \<Longrightarrow> mset (exchange xs i j) = mset xs"
  using mset_swap [of "j - 1" xs "i - 1"] by (auto simp: exchange_def el_def)

lemma el_exchange:
  "1 \<le> i \<Longrightarrow> i \<le> length xs \<Longrightarrow> 1 \<le> j \<Longrightarrow> j \<le> length xs \<Longrightarrow> 1 \<le> m \<Longrightarrow> m \<le> length xs \<Longrightarrow>
    el (exchange xs i j) m = (if m = j then el xs i else if m = i then el xs j else el xs m)"
  by (auto simp: exchange_def el_def nth_list_update)

lemma length_swim [simp]: "length (swim larger k xs) = length xs"
  by (induction larger k xs rule: swim.induct) (subst swim.simps, simp)

lemma mset_swim: "k \<le> length xs \<Longrightarrow> mset (swim larger k xs) = mset xs"
proof (induction larger k xs rule: swim.induct)
  case (1 larger k xs)
  show ?case
  proof (cases "k > 1 \<and> larger (el xs (k div 2)) (el xs k)")
    case True
    then have "mset (exchange xs (k div 2) k) = mset xs" using 1(2) by (intro mset_exchange) auto
    with 1 True show ?thesis by (subst swim.simps) simp
  qed (subst swim.simps, auto)
qed

lemma smaller_child_bounds:
  "k > 0 \<Longrightarrow> 2 * k \<le> length xs \<Longrightarrow>
    k < smaller_child larger k xs \<and> smaller_child larger k xs \<le> length xs \<and> smaller_child larger k xs div 2 = k"
  by (auto simp: smaller_child_def)

lemma length_sink [simp]: "length (sink larger k xs) = length xs"
  by (induction larger k xs rule: sink.induct) (subst sink.simps, simp)

lemma mset_sink: "mset (sink larger k xs) = mset xs"
proof (induction larger k xs rule: sink.induct)
  case (1 larger k xs)
  show ?case
  proof (cases "k = 0 \<or> 2 * k > length xs \<or> \<not> larger (el xs k) (el xs (smaller_child larger k xs))")
    case False
    then have "mset (exchange xs k (smaller_child larger k xs)) = mset xs"
      using smaller_child_bounds [of k xs larger] by (intro mset_exchange) auto
    with 1 False show ?thesis by (subst sink.simps) simp
  qed (subst sink.simps, auto)
qed

subsection \<open>Heap order\<close>

definition is_heap :: "('a \<Rightarrow> 'a \<Rightarrow> bool) \<Rightarrow> 'a list \<Rightarrow> bool" where
  "is_heap larger xs \<longleftrightarrow> list_all (\<lambda>k. \<not> larger (el xs (k div 2)) (el xs k)) [2..<Suc (length xs)]"

lemma is_heap_iff:
  "is_heap larger xs \<longleftrightarrow> (\<forall>k. 2 \<le> k \<and> k \<le> length xs \<longrightarrow> \<not> larger (el xs (k div 2)) (el xs k))"
  by (auto simp: is_heap_def list_all_iff)

text \<open>The order but for the position \<open>k\<close> and its parent, or but for \<open>k\<close> and its children.\<close>

definition heap_but_up :: "('a \<Rightarrow> 'a \<Rightarrow> bool) \<Rightarrow> nat \<Rightarrow> 'a list \<Rightarrow> bool" where
  "heap_but_up larger k xs \<longleftrightarrow>
     (\<forall>i. 2 \<le> i \<and> i \<le> length xs \<and> i \<noteq> k \<longrightarrow> \<not> larger (el xs (i div 2)) (el xs i)) \<and>
     (\<forall>i. 2 \<le> k \<and> i div 2 = k \<and> i \<le> length xs \<longrightarrow> \<not> larger (el xs (k div 2)) (el xs i))"

definition heap_but_down :: "('a \<Rightarrow> 'a \<Rightarrow> bool) \<Rightarrow> nat \<Rightarrow> 'a list \<Rightarrow> bool" where
  "heap_but_down larger k xs \<longleftrightarrow>
     (\<forall>i. 2 \<le> i \<and> i \<le> length xs \<and> i div 2 \<noteq> k \<longrightarrow> \<not> larger (el xs (i div 2)) (el xs i)) \<and>
     (\<forall>i. 2 \<le> k \<and> i div 2 = k \<and> i \<le> length xs \<longrightarrow> \<not> larger (el xs (k div 2)) (el xs i))"

locale event_heap = c_comparator cmp valid
  for cmp :: "'k \<Rightarrow> 'k \<Rightarrow> int" and valid :: "'k \<Rightarrow> bool"
begin

lemma larger_le: "valid a \<Longrightarrow> valid b \<Longrightarrow> 0 < cmp a b \<Longrightarrow> \<not> 0 < cmp b a"
  using cmp_flip [of b a] by linarith

lemma not_larger_trans: "valid a \<Longrightarrow> valid b \<Longrightarrow> valid c \<Longrightarrow> \<not> 0 < cmp a b \<Longrightarrow> \<not> 0 < cmp b c \<Longrightarrow> \<not> 0 < cmp a c"
  using cmp_trans [of a b c] by linarith

lemma el_valid: "list_all (\<lambda>x. valid (key x)) xs \<Longrightarrow> 1 \<le> i \<Longrightarrow> i \<le> length xs \<Longrightarrow> valid (key (el xs i))"
  by (simp add: el_def list_all_length)

lemma el_trans:
  "list_all (\<lambda>x. valid (key x)) xs \<Longrightarrow> 1 \<le> a \<Longrightarrow> a \<le> length xs \<Longrightarrow> 1 \<le> b \<Longrightarrow> b \<le> length xs \<Longrightarrow>
    1 \<le> c \<Longrightarrow> c \<le> length xs \<Longrightarrow> \<not> 0 < cmp (key (el xs a)) (key (el xs b)) \<Longrightarrow>
    \<not> 0 < cmp (key (el xs b)) (key (el xs c)) \<Longrightarrow> \<not> 0 < cmp (key (el xs a)) (key (el xs c))"
  by (rule not_larger_trans) (auto intro: el_valid)

lemma valid_exchange:
  "list_all (\<lambda>x. valid (key x)) xs \<Longrightarrow> 1 \<le> i \<Longrightarrow> i \<le> length xs \<Longrightarrow> 1 \<le> j \<Longrightarrow> j \<le> length xs \<Longrightarrow>
    list_all (\<lambda>x. valid (key x)) (exchange xs i j)"
  using mset_exchange [of i xs j] by (metis list_all_iff mset_eq_setD)

lemma swim_step:
  assumes heap: "heap_but_up (\<lambda>x y. 0 < cmp (key x) (key y)) k xs"
    and v: "list_all (\<lambda>x. valid (key x)) xs" and k: "2 \<le> k" "k \<le> length xs"
    and larger: "0 < cmp (key (el xs (k div 2))) (key (el xs k))"
  shows "heap_but_up (\<lambda>x y. 0 < cmp (key x) (key y)) (k div 2) (exchange xs (k div 2) k)"
proof -
  let ?p = "k div 2" and ?L = "\<lambda>i j. 0 < cmp (key (el xs i)) (key (el xs j))"
  have p: "1 \<le> ?p" "?p < k" using k by auto
  have val: "valid (key (el xs i))" if "1 \<le> i" "i \<le> length xs" for i using el_valid [OF v that] .
  have ok: "\<not> ?L (i div 2) i" if "2 \<le> i" "i \<le> length xs" "i \<noteq> k" for i
    using heap that by (simp add: heap_but_up_def)
  have gp: "\<not> ?L ?p i" if "i div 2 = k" "i \<le> length xs" for i
    using heap that k(1) by (simp add: heap_but_up_def)
  have up: "\<not> ?L k ?p" using larger_le [OF val val larger] p k by simp
  have ex: "el (exchange xs ?p k) m = (if m = k then el xs ?p else if m = ?p then el xs k else el xs m)"
    if "1 \<le> m" "m \<le> length xs" for m
    using el_exchange [of ?p xs k m] p k that by simp
  have 1: "\<not> 0 < cmp (key (el (exchange xs ?p k) (i div 2))) (key (el (exchange xs ?p k) i))"
    if i: "2 \<le> i" "i \<le> length xs" "i \<noteq> ?p" for i
  proof -
    have par: "1 \<le> i div 2" "i div 2 < i" "i div 2 \<le> length xs" using i by auto
    consider "i = k" | "i \<noteq> k" "i div 2 = k" | "i \<noteq> k" "i div 2 = ?p" | "i \<noteq> k" "i div 2 \<noteq> k" "i div 2 \<noteq> ?p" by blast
    then show ?thesis
    proof cases
      case 1
      have "?p \<noteq> k" "?p \<le> length xs" using p k by linarith+
      then have "el (exchange xs ?p k) ?p = el xs k" using ex [OF p(1)] by presburger
      moreover have "el (exchange xs ?p k) k = el xs ?p" using ex [of k] k by simp
      ultimately show ?thesis unfolding 1 using up by simp
    next
      case 2
      then show ?thesis using ex par i p k gp by auto
    next
      case 3
      have "\<not> ?L k i" using not_larger_trans [OF val val val up ok [OF i(1,2) 3(1), unfolded 3(2)]] p k i by simp
      then show ?thesis using 3 ex par i p by auto
    next
      case 4
      then show ?thesis using ex par i ok by auto
    qed
  qed
  have 2: "\<not> 0 < cmp (key (el (exchange xs ?p k) (?p div 2))) (key (el (exchange xs ?p k) i))"
    if i: "2 \<le> ?p" "i div 2 = ?p" "i \<le> length xs" for i
  proof -
    have g: "1 \<le> ?p div 2" "?p div 2 < ?p" "2 \<le> i" using i p by auto
    have "\<not> ?L (?p div 2) ?p" using ok [of ?p] i p k by simp
    moreover have "\<not> ?L (?p div 2) i" if "i \<noteq> k"
      using not_larger_trans [OF val val val calculation ok [OF g(3) i(3) that, unfolded i(2)]] g i p k by simp
    moreover have "el (exchange xs ?p k) (?p div 2) = el xs (?p div 2)"
    proof -
      have "?p div 2 \<noteq> ?p" "?p div 2 \<noteq> k" "?p div 2 \<le> length xs" using g p k by linarith+
      then show ?thesis using ex [OF g(1)] by presburger
    qed
    moreover have "el (exchange xs ?p k) i = (if i = k then el xs ?p else el xs i)"
      using ex [of i] g i by auto
    ultimately show ?thesis by presburger
  qed
  show ?thesis unfolding heap_but_up_def using 1 2 by simp
qed

lemma swim_heap:
  "heap_but_up (\<lambda>x y. 0 < cmp (key x) (key y)) k xs \<Longrightarrow> list_all (\<lambda>x. valid (key x)) xs \<Longrightarrow>
    1 \<le> k \<Longrightarrow> k \<le> length xs \<Longrightarrow>
    is_heap (\<lambda>x y. 0 < cmp (key x) (key y)) (swim (\<lambda>x y. 0 < cmp (key x) (key y)) k xs)"
proof (induction "\<lambda>x y. 0 < cmp (key x) (key y)" k xs rule: swim.induct)
  case (1 k xs)
  show ?case
  proof (cases "k > 1 \<and> 0 < cmp (key (el xs (k div 2))) (key (el xs k))")
    case True
    then have "heap_but_up (\<lambda>x y. 0 < cmp (key x) (key y)) (k div 2) (exchange xs (k div 2) k)"
      "list_all (\<lambda>x. valid (key x)) (exchange xs (k div 2) k)"
      using 1(2-) by (auto intro!: swim_step valid_exchange)
    moreover have "1 \<le> k div 2" "k div 2 \<le> length xs" using True 1(5) by auto
    ultimately show ?thesis using 1(1) True by (subst swim.simps) simp
  next
    case False
    with 1(2,4) have "\<not> 0 < cmp (key (el xs (i div 2))) (key (el xs i))" if "2 \<le> i" "i \<le> length xs" for i
      using that by (cases "i = k") (auto simp: heap_but_up_def)
    with False show ?thesis by (subst swim.simps) (auto simp: is_heap_iff)
  qed
qed

lemma smaller_child_least:
  assumes "list_all (\<lambda>x. valid (key x)) xs" "0 < k" "2 * k \<le> length xs" "i div 2 = k" "i \<le> length xs"
  shows "\<not> 0 < cmp (key (el xs (smaller_child (\<lambda>x y. 0 < cmp (key x) (key y)) k xs))) (key (el xs i))"
proof -
  have "i = 2 * k \<or> i = 2 * k + 1" using assms(4) by auto
  then show ?thesis
    using larger_le [OF el_valid [OF assms(1)] el_valid [OF assms(1)], of "2 * k" "2 * k + 1"] assms
      cmp_same [OF el_valid [OF assms(1)], of i]
    by (auto simp: smaller_child_def)
qed

lemma sink_step:
  assumes heap: "heap_but_down (\<lambda>x y. 0 < cmp (key x) (key y)) k xs"
    and v: "list_all (\<lambda>x. valid (key x)) xs" and k: "0 < k" "2 * k \<le> length xs"
  defines "j \<equiv> smaller_child (\<lambda>x y. 0 < cmp (key x) (key y)) k xs"
  assumes larger: "0 < cmp (key (el xs k)) (key (el xs j))"
  shows "heap_but_down (\<lambda>x y. 0 < cmp (key x) (key y)) j (exchange xs k j)"
proof -
  let ?L = "\<lambda>i j. 0 < cmp (key (el xs i)) (key (el xs j))"
  have j: "k < j" "j \<le> length xs" "j div 2 = k" using smaller_child_bounds [OF k] by (simp_all add: j_def)
  have val: "valid (key (el xs i))" if "1 \<le> i" "i \<le> length xs" for i using el_valid [OF v that] .
  have ok: "\<not> ?L (i div 2) i" if "2 \<le> i" "i \<le> length xs" "i div 2 \<noteq> k" for i
    using heap that by (simp add: heap_but_down_def)
  have gp: "\<not> ?L (k div 2) i" if "2 \<le> k" "i div 2 = k" "i \<le> length xs" for i
    using heap that by (simp add: heap_but_down_def)
  have up: "\<not> ?L j k" using larger_le [OF val val larger] j k by simp
  have least: "\<not> ?L j i" if "i div 2 = k" "i \<le> length xs" for i
    unfolding j_def using smaller_child_least [OF v k that] .
  have ex: "el (exchange xs k j) m = (if m = j then el xs k else if m = k then el xs j else el xs m)"
    if "1 \<le> m" "m \<le> length xs" for m
    using el_exchange [of k xs j m] j k that by simp
  have 1: "\<not> 0 < cmp (key (el (exchange xs k j) (i div 2))) (key (el (exchange xs k j) i))"
    if i: "2 \<le> i" "i \<le> length xs" "i div 2 \<noteq> j" for i
  proof -
    have par: "1 \<le> i div 2" "i div 2 < i" "i div 2 \<le> length xs" using i by auto
    consider "i = j" | "i = k" | "i \<noteq> j" "i \<noteq> k" "i div 2 = k" | "i \<noteq> j" "i \<noteq> k" "i div 2 \<noteq> k" by blast
    then show ?thesis
    proof cases
      case 1
      then show ?thesis using ex par j k up by auto
    next
      case 2
      then show ?thesis using ex par i j gp [of j] by auto
    next
      case 3
      then show ?thesis using ex par i j least by auto
    next
      case 4
      then show ?thesis using ex par i ok by auto
    qed
  qed
  have 2: "\<not> 0 < cmp (key (el (exchange xs k j) (j div 2))) (key (el (exchange xs k j) i))"
    if i: "i div 2 = j" "i \<le> length xs" for i
  proof -
    have "2 \<le> i" "i \<noteq> j" "i \<noteq> k" using i j k by auto
    then show ?thesis using ex i j k ok [of i] by auto
  qed
  show ?thesis unfolding heap_but_down_def using 1 2 by simp
qed

lemma sink_heap:
  "heap_but_down (\<lambda>x y. 0 < cmp (key x) (key y)) k xs \<Longrightarrow> list_all (\<lambda>x. valid (key x)) xs \<Longrightarrow> 1 \<le> k \<Longrightarrow>
    is_heap (\<lambda>x y. 0 < cmp (key x) (key y)) (sink (\<lambda>x y. 0 < cmp (key x) (key y)) k xs)"
proof (induction "\<lambda>x y. 0 < cmp (key x) (key y)" k xs rule: sink.induct)
  case (1 k xs)
  let ?L = "\<lambda>x y. 0 < cmp (key x) (key y)"
  let ?j = "smaller_child ?L k xs"
  show ?case
  proof (cases "2 * k \<le> length xs \<and> ?L (el xs k) (el xs ?j)")
    case True
    then have "heap_but_down ?L ?j (exchange xs k ?j)" "list_all (\<lambda>x. valid (key x)) (exchange xs k ?j)" "1 \<le> ?j"
      using 1(2-) smaller_child_bounds [of k xs ?L] sink_step [OF 1(2,3)] valid_exchange [OF 1(3)] by auto
    with 1 True show ?thesis by (subst sink.simps) simp
  next
    case False
    have ok: "\<not> ?L (el xs (i div 2)) (el xs i)" if i: "2 \<le> i" "i \<le> length xs" for i
    proof (cases "i div 2 = k")
      case True
      then have k: "2 * k \<le> length xs" "0 < k" using i by auto
      then have "\<not> ?L (el xs k) (el xs ?j)" using False by simp
      moreover have "\<not> ?L (el xs ?j) (el xs i)" using smaller_child_least [OF 1(3) k(2,1) True i(2)] .
      ultimately show ?thesis
        unfolding True using el_trans [OF 1(3), of k ?j i] smaller_child_bounds [OF k(2,1), of ?L] i k by simp
    qed (use 1(2) i in \<open>simp add: heap_but_down_def\<close>)
    have "sink ?L k xs = xs" using False 1(4) by (subst sink.simps) auto
    then show ?thesis using ok by (simp add: is_heap_iff)
  qed
qed

lemma heap_root_least:
  assumes "is_heap (\<lambda>x y. 0 < cmp (key x) (key y)) xs" "list_all (\<lambda>x. valid (key x)) xs" "1 \<le> i" "i \<le> length xs"
  shows "\<not> 0 < cmp (key (el xs 1)) (key (el xs i))"
  using assms(3,4)
proof (induction i rule: less_induct)
  case (less i)
  show ?case
  proof (cases "i = 1")
    case True
    then show ?thesis using cmp_same [OF el_valid [OF assms(2)], of 1] less.prems by simp
  next
    case False
    then have i: "2 \<le> i" "1 \<le> i div 2" "i div 2 < i" "i div 2 \<le> length xs" using less.prems by auto
    have "\<not> 0 < cmp (key (el xs (i div 2))) (key (el xs i))"
      using assms(1) i(1) less.prems(2) by (simp add: is_heap_iff)
    with less.IH [OF i(3,2,4)] show ?thesis
      using el_trans [OF assms(2), of 1 "i div 2" i] i less.prems by simp
  qed
qed

end

text \<open>The shapes the two loops start from.\<close>

lemma heap_but_up_snoc:
  assumes "is_heap larger xs"
  shows "heap_but_up larger (length xs + 1) (xs @ [x])"
proof -
  have "el (xs @ [x]) i = el xs i" if "1 \<le> i" "i \<le> length xs" for i
    using that by (auto simp: el_def nth_append)
  then show ?thesis using assms by (auto simp: heap_but_up_def is_heap_iff)
qed

lemma heap_but_down_delete:
  assumes "is_heap larger xs" "1 \<le> k" "k < length xs"
    and up: "2 \<le> k \<Longrightarrow> \<not> larger (el xs (k div 2)) (el xs (length xs))"
    and gp: "\<And>i. 2 \<le> k \<Longrightarrow> i div 2 = k \<Longrightarrow> i \<le> length xs \<Longrightarrow> \<not> larger (el xs (k div 2)) (el xs i)"
  shows "heap_but_down larger k (butlast (exchange xs k (length xs)))"
proof -
  have ex: "el (butlast (exchange xs k (length xs))) m = (if m = k then el xs (length xs) else el xs m)"
    if "1 \<le> m" "m < length xs" for m
  proof -
    have "el (butlast (exchange xs k (length xs))) m = el (exchange xs k (length xs)) m"
      using that by (simp add: el_def nth_butlast)
    then show ?thesis using el_exchange [of k xs "length xs" m] that assms(2,3) by simp
  qed
  have ok: "\<not> larger (el xs (i div 2)) (el xs i)" if "2 \<le> i" "i \<le> length xs" for i
    using assms(1) that by (simp add: is_heap_iff)
  have "\<not> larger (el (butlast (exchange xs k (length xs))) (i div 2)) (el (butlast (exchange xs k (length xs))) i)"
    if i: "2 \<le> i" "i < length xs" "i div 2 \<noteq> k" for i
  proof -
    have "1 \<le> i div 2" "i div 2 < length xs" "i \<le> length xs" using i by auto
    then show ?thesis using ex [of i] ex [of "i div 2"] i ok [of i] up by auto
  qed
  moreover have "\<not> larger (el (butlast (exchange xs k (length xs))) (k div 2)) (el (butlast (exchange xs k (length xs))) i)"
    if i: "2 \<le> k" "i div 2 = k" "i < length xs" for i
  proof -
    have "1 \<le> k div 2" "k div 2 < length xs" "k div 2 \<noteq> k" "i \<noteq> k" "1 \<le> i" using i assms(3) by auto
    then show ?thesis using ex [of i] ex [of "k div 2"] i gp [of i] by auto
  qed
  ultimately show ?thesis using assms(3) by (auto simp: heap_but_down_def)
qed

end
