(* ===== verification/NsSched.thy ===== *)
theory NsSched
  imports NsTime NsHeap "HOL-Library.Word"
begin

unbundle bit_operations_syntax

text \<open>
  The scheduler: the model of \<^verbatim>\<open>nsd/sched.c\<close>. Events live in a store from addresses to records; the
  priority queue is the array of the addresses of the queued events (\<^verbatim>\<open>queue[1..nqueue]\<close>), every event
  knows its position there (\<open>qid\<close>, 0 when it is not queued), and the hash table maps ids to
  addresses. The mutex \<^verbatim>\<open>lock\<close> makes each operation atomic. \<^verbatim>\<open>SchedThread\<close> and \<^verbatim>\<open>EventThread\<close>
  release it while an event procedure runs, so their loops are cut there into steps: firing the due
  events, starting an event, finishing it. \<open>active\<close> holds the events whose procedure runs, which the
  source has in a local variable of each thread.

  The clock, \<^verbatim>\<open>localtime\<close> and \<^verbatim>\<open>mktime\<close> (which depend on the time zone) and the address returned by
  \<^verbatim>\<open>ns_malloc\<close> are arguments. The fields of an event which \<^verbatim>\<open>Ns_ScheduleProcEx\<close> leaves
  uninitialised are arguments, too. Calls of cleanup procedures are recorded in order.
\<close>

record tm =
  tm_sec :: int
  tm_min :: int
  tm_hour :: int
  tm_mday :: int
  tm_mon :: int
  tm_year :: int
  tm_wday :: int
  tm_isdst :: int

record event =
  hPtr :: bool
  ev_id :: int
  qid :: nat
  nextqueue :: ns_time
  lastqueue :: ns_time
  laststart :: ns_time
  lastend :: ns_time
  interval :: ns_time
  scheduled :: ns_time
  ev_proc :: nat
  ev_arg :: nat
  deleteProc :: "nat option"
  ev_flags :: "32 word"
  waslate :: bool

record sched =
  events :: "nat \<Rightarrow> event"
  queue :: "nat list"
  maxqueue :: nat
  eventsTable :: "(int \<times> nat) list"
  readyPtr :: "nat list"
  firstEventPtr :: "nat list"
  active :: "nat list"
  running :: bool
  shutdownPending :: bool
  nextId :: int
  nThreads :: int
  nIdleThreads :: int
  freed :: "nat list"
  deleteCalls :: "(nat \<times> nat \<times> int) list"

type_synonym clock = "(int \<Rightarrow> tm) \<times> (tm \<Rightarrow> int \<times> tm)"

definition NS_SCHED_THREAD :: "32 word" where "NS_SCHED_THREAD = 0x01"
definition NS_SCHED_ONCE :: "32 word" where "NS_SCHED_ONCE = 0x02"
definition NS_SCHED_DAILY :: "32 word" where "NS_SCHED_DAILY = 0x04"
definition NS_SCHED_WEEKLY :: "32 word" where "NS_SCHED_WEEKLY = 0x08"
definition NS_SCHED_PAUSED :: "32 word" where "NS_SCHED_PAUSED = 0x10"
definition NS_SCHED_RUNNING :: "32 word" where "NS_SCHED_RUNNING = 0x20"
definition SCHED_NS_ERROR :: int where "SCHED_NS_ERROR = -1"

definition has_flag :: "event \<Rightarrow> 32 word \<Rightarrow> bool" where
  "has_flag e f \<longleftrightarrow> ev_flags e AND f \<noteq> 0"

definition upd_event :: "nat \<Rightarrow> (event \<Rightarrow> event) \<Rightarrow> sched \<Rightarrow> sched" where
  "upd_event a f st = st\<lparr>events := (events st)(a := f (events st a))\<rparr>"

definition DiffTime :: "ns_time \<Rightarrow> ns_time \<Rightarrow> int" where
  "DiffTime a b = fst (Ns_DiffTime a b)"

subsection \<open>The priority queue\<close>

definition Larger :: "sched \<Rightarrow> nat \<Rightarrow> nat \<Rightarrow> bool" where
  "Larger st j k \<longleftrightarrow>
     DiffTime (nextqueue (events st (el (queue st) j))) (nextqueue (events st (el (queue st) k))) = 1"

definition Exchange :: "nat \<Rightarrow> nat \<Rightarrow> sched \<Rightarrow> sched" where
  "Exchange i j st =
     (let q = exchange (queue st) i j
      in upd_event (el q j) (qid_update (\<lambda>_. j)) (upd_event (el q i) (qid_update (\<lambda>_. i)) (st\<lparr>queue := q\<rparr>)))"

function swim_loop :: "nat \<Rightarrow> sched \<Rightarrow> sched" where
  "swim_loop k st =
     (if k > 1 \<and> Larger st (k div 2) k then swim_loop (k div 2) (Exchange (k div 2) k st) else st)"
  by auto
termination by (relation "measure fst") auto

lemma length_queue_Exchange [simp]: "length (queue (Exchange i j st)) = length (queue st)"
  by (simp add: Exchange_def upd_event_def Let_def)

text \<open>The loop of \<^verbatim>\<open>DeQueueEvent\<close>, for positions from 1.\<close>

function sink_loop :: "nat \<Rightarrow> sched \<Rightarrow> sched" where
  "sink_loop k st =
     (let j = 2 * k
      in if k = 0 \<or> j > length (queue st) then st
         else (let j = (if j < length (queue st) \<and> Larger st j (j + 1) then j + 1 else j)
               in if \<not> Larger st k j then st else sink_loop j (Exchange k j st)))"
  by auto
termination by (relation "measure (\<lambda>(k, st). length (queue st) - k)") (auto split: if_splits)

declare swim_loop.simps [simp del] sink_loop.simps [simp del]

text \<open>The next time to run, and the nominal time after it.\<close>

definition daily_time :: "clock \<Rightarrow> event \<Rightarrow> ns_time" where
  "daily_time clk e =
     (let tp = fst clk (sec (scheduled e));
          tp = tp\<lparr>tm_sec := sec (interval e), tm_hour := 0, tm_min := 0\<rparr>;
          tp = (if has_flag e NS_SCHED_WEEKLY then tp\<lparr>tm_mday := tm_mday tp - tm_wday tp\<rparr> else tp);
          tp = tp\<lparr>tm_isdst := -1\<rparr>;
          (t, tp) = snd clk tp
      in if DiffTime (mk_time t 0) (scheduled e) \<le> 0
         then (let tp = tp\<lparr>tm_mday := tm_mday tp + (if has_flag e NS_SCHED_WEEKLY then 7 else 1), tm_isdst := -1\<rparr>
               in mk_time (fst (snd clk tp)) 0)
         else mk_time t 0)"

definition queue_times :: "clock \<Rightarrow> ns_time \<Rightarrow> event \<Rightarrow> event" where
  "queue_times clk now e =
     (if has_flag e (NS_SCHED_DAILY OR NS_SCHED_WEEKLY)
      then (let t = daily_time clk e in e\<lparr>nextqueue := t, scheduled := t\<rparr>)
      else (let scheduled_next = Ns_IncrTime (scheduled e) (sec (interval e)) (usec (interval e));
                c = DiffTime scheduled_next now
            in e\<lparr>nextqueue := (if c = 1 \<or> c = 0 then scheduled_next else Ns_IncrTime now 0 10000),
                 scheduled := scheduled_next\<rparr>))"

definition heap_insert :: "nat \<Rightarrow> sched \<Rightarrow> sched" where
  "heap_insert ePtr st =
     (let n = length (queue st) + 1;
          st = upd_event ePtr (qid_update (\<lambda>_. n)) st;
          st = (if maxqueue st \<le> n then st\<lparr>maxqueue := maxqueue st + 25\<rparr> else st);
          st = st\<lparr>queue := queue st @ [ePtr]\<rparr>
      in if n > 1 then swim_loop n st else st)"

definition QueueEvent :: "clock \<Rightarrow> ns_time \<Rightarrow> nat \<Rightarrow> sched \<Rightarrow> sched" where
  "QueueEvent clk now ePtr st =
     (if has_flag (events st ePtr) NS_SCHED_PAUSED then st
      else (let st = upd_event ePtr (queue_times clk now) st;
                st = heap_insert ePtr st
            in st\<lparr>running := True\<rparr>))"

definition DeQueueEvent :: "nat \<Rightarrow> sched \<Rightarrow> nat \<times> sched" where
  "DeQueueEvent k st =
     (let n = length (queue st);
          st = Exchange k n st;
          ePtr = el (queue st) n;
          st = upd_event ePtr (qid_update (\<lambda>_. 0)) (st\<lparr>queue := butlast (queue st)\<rparr>)
      in (ePtr, sink_loop k st))"

definition FreeEvent :: "nat \<Rightarrow> sched \<Rightarrow> sched" where
  "FreeEvent ePtr st =
     (let e = events st ePtr;
          st = (case deleteProc e of
                  None \<Rightarrow> st
                | Some p \<Rightarrow> st\<lparr>deleteCalls := deleteCalls st @ [(p, ev_arg e, ev_id e)]\<rparr>)
      in st\<lparr>freed := ePtr # freed st\<rparr>)"

subsection \<open>The interface\<close>

text \<open>The search for an unused id. \<open>fuel\<close> bounds the number of ids tried again.\<close>

fun alloc_id :: "nat \<Rightarrow> (int \<times> nat) list \<Rightarrow> int \<Rightarrow> (int \<times> int) option" where
  "alloc_id fuel table nid =
     (let eid = nid;
          nid = (if nid + 1 > 2147483647 then 0 else nid + 1)
      in if map_of table eid = None then Some (eid, nid)
         else (case fuel of 0 \<Rightarrow> None | Suc f \<Rightarrow> alloc_id f table nid))"

declare alloc_id.simps [simp del]

definition Ns_ScheduleProcEx ::
  "clock \<Rightarrow> ns_time \<Rightarrow> ns_time \<Rightarrow> nat \<Rightarrow> nat \<Rightarrow> bool \<Rightarrow>
   nat \<Rightarrow> nat \<Rightarrow> 32 word \<Rightarrow> ns_time \<Rightarrow> nat option \<Rightarrow> sched \<Rightarrow> (int \<times> sched) option" where
  "Ns_ScheduleProcEx clk now now2 ePtr junk_qid junk_late pr clientData flgs intv cleanupProc st =
     (if sec intv < 0 \<or> usec intv < 0 then Some (SCHED_NS_ERROR, st)
      else if shutdownPending st then Some (SCHED_NS_ERROR, st)
      else (case alloc_id (length (eventsTable st)) (eventsTable st) (nextId st) of
              None \<Rightarrow> None
            | Some (eid, nid) \<Rightarrow>
                (let e = \<lparr>hPtr = True, ev_id = eid, qid = junk_qid, nextqueue = mk_time 0 0,
                          lastqueue = mk_time (-1) 0, laststart = mk_time (-1) 0, lastend = mk_time (-1) 0,
                          interval = intv, scheduled = now, ev_proc = pr, ev_arg = clientData,
                          deleteProc = cleanupProc, ev_flags = flgs, waslate = junk_late\<rparr>;
                     st = st\<lparr>events := (events st)(ePtr := e), eventsTable := (eid, ePtr) # eventsTable st,
                             nextId := nid, freed := removeAll ePtr (freed st)\<rparr>
                 in Some (eid, QueueEvent clk now2 ePtr st))))"

definition Ns_After ::
  "clock \<Rightarrow> ns_time \<Rightarrow> ns_time \<Rightarrow> nat \<Rightarrow> nat \<Rightarrow> bool \<Rightarrow>
   ns_time \<Rightarrow> nat \<Rightarrow> nat \<Rightarrow> nat option \<Rightarrow> sched \<Rightarrow> (int \<times> sched) option" where
  "Ns_After clk now now2 ePtr jq jl intv pr a deleteP st =
     (if sec intv < 0 \<or> usec intv < 0 then Some (SCHED_NS_ERROR, st)
      else Ns_ScheduleProcEx clk now now2 ePtr jq jl pr a NS_SCHED_ONCE intv deleteP st)"

definition Ns_ScheduleProc ::
  "clock \<Rightarrow> ns_time \<Rightarrow> ns_time \<Rightarrow> nat \<Rightarrow> nat \<Rightarrow> bool \<Rightarrow>
   nat \<Rightarrow> nat \<Rightarrow> int \<Rightarrow> int \<Rightarrow> sched \<Rightarrow> (int \<times> sched) option" where
  "Ns_ScheduleProc clk now now2 ePtr jq jl pr a thread secs st =
     Ns_ScheduleProcEx clk now now2 ePtr jq jl pr a (if thread \<noteq> 0 then NS_SCHED_THREAD else 0)
       (mk_time secs 0) None st"

definition Ns_ScheduleDaily ::
  "clock \<Rightarrow> ns_time \<Rightarrow> ns_time \<Rightarrow> nat \<Rightarrow> nat \<Rightarrow> bool \<Rightarrow>
   nat \<Rightarrow> nat \<Rightarrow> 32 word \<Rightarrow> int \<Rightarrow> int \<Rightarrow> nat option \<Rightarrow> sched \<Rightarrow> (int \<times> sched) option" where
  "Ns_ScheduleDaily clk now now2 ePtr jq jl pr a flgs hour minute cleanupProc st =
     (if hour > 23 \<or> hour < 0 \<or> minute > 59 \<or> minute < 0 then Some (SCHED_NS_ERROR, st)
      else Ns_ScheduleProcEx clk now now2 ePtr jq jl pr a (flgs OR NS_SCHED_DAILY)
             (mk_time (hour * 3600 + minute * 60) 0) cleanupProc st)"

definition Ns_ScheduleWeekly ::
  "clock \<Rightarrow> ns_time \<Rightarrow> ns_time \<Rightarrow> nat \<Rightarrow> nat \<Rightarrow> bool \<Rightarrow>
   nat \<Rightarrow> nat \<Rightarrow> 32 word \<Rightarrow> int \<Rightarrow> int \<Rightarrow> int \<Rightarrow> nat option \<Rightarrow> sched \<Rightarrow> (int \<times> sched) option" where
  "Ns_ScheduleWeekly clk now now2 ePtr jq jl pr a flgs day hour minute cleanupProc st =
     (if day < 0 \<or> day > 6 \<or> hour > 23 \<or> hour < 0 \<or> minute > 59 \<or> minute < 0 then Some (SCHED_NS_ERROR, st)
      else Ns_ScheduleProcEx clk now now2 ePtr jq jl pr a (flgs OR NS_SCHED_WEEKLY)
             (mk_time ((day * 24 + hour) * 3600 + minute * 60) 0) cleanupProc st)"

definition delete_entry :: "int \<Rightarrow> nat \<Rightarrow> sched \<Rightarrow> sched" where
  "delete_entry eid ePtr st =
     upd_event ePtr (hPtr_update (\<lambda>_. False)) (st\<lparr>eventsTable := filter (\<lambda>(i, _). i \<noteq> eid) (eventsTable st)\<rparr>)"

definition Ns_Cancel :: "int \<Rightarrow> sched \<Rightarrow> bool \<times> sched" where
  "Ns_Cancel eid st =
     (if shutdownPending st then (False, st)
      else (case map_of (eventsTable st) eid of
              None \<Rightarrow> (False, st)
            | Some ePtr \<Rightarrow>
                (let st = delete_entry eid ePtr st
                 in if qid (events st ePtr) > 0
                    then (True, FreeEvent ePtr (snd (DeQueueEvent (qid (events st ePtr)) st)))
                    else (False, st))))"

definition Ns_UnscheduleProc :: "int \<Rightarrow> sched \<Rightarrow> sched" where
  "Ns_UnscheduleProc eid st = snd (Ns_Cancel eid st)"

definition Ns_Pause :: "int \<Rightarrow> sched \<Rightarrow> bool \<times> sched" where
  "Ns_Pause eid st =
     (if shutdownPending st then (False, st)
      else (case map_of (eventsTable st) eid of
              None \<Rightarrow> (False, st)
            | Some ePtr \<Rightarrow>
                if \<not> has_flag (events st ePtr) NS_SCHED_PAUSED
                then (let st = upd_event ePtr (ev_flags_update (\<lambda>f. f OR NS_SCHED_PAUSED)) st
                      in (True, if qid (events st ePtr) > 0 then snd (DeQueueEvent (qid (events st ePtr)) st) else st))
                else (False, st)))"

definition Ns_Resume :: "clock \<Rightarrow> ns_time \<Rightarrow> ns_time \<Rightarrow> int \<Rightarrow> sched \<Rightarrow> bool \<times> sched" where
  "Ns_Resume clk now now2 eid st =
     (if shutdownPending st then (False, st)
      else (case map_of (eventsTable st) eid of
              None \<Rightarrow> (False, st)
            | Some ePtr \<Rightarrow>
                if has_flag (events st ePtr) NS_SCHED_PAUSED
                then (let st = upd_event ePtr
                            (\<lambda>e. e\<lparr>ev_flags := ev_flags e AND NOT NS_SCHED_PAUSED, scheduled := now\<rparr>) st
                      in (True, QueueEvent clk now2 ePtr st))
                else (False, st)))"

definition NsStartSchedShutdown :: "sched \<Rightarrow> sched" where
  "NsStartSchedShutdown st = (if running st then st\<lparr>shutdownPending := True\<rparr> else st)"

definition DStringAppendSchedFlags :: "cstring \<Rightarrow> 32 word \<Rightarrow> cstring" where
  "DStringAppendSchedFlags ds flgs =
     ds @ snd (fold (\<lambda>(state, label) (count, acc).
            if state AND flgs \<noteq> 0
            then (count + 1, acc @ (if count > (0::nat) then ''|'' else []) @ label)
            else (count, acc))
          [(NS_SCHED_THREAD, ''THREAD''), (NS_SCHED_ONCE, ''ONCE''), (NS_SCHED_DAILY, ''DAILY''),
           (NS_SCHED_WEEKLY, ''WEEKLY''), (NS_SCHED_PAUSED, ''PAUSED''), (NS_SCHED_RUNNING, ''RUNNING'')]
          (0, []))"

subsection \<open>The threads\<close>

text \<open>At the start of \<^verbatim>\<open>SchedThread\<close> the events that became due during startup get the current time.\<close>

definition reset_event :: "ns_time \<Rightarrow> event \<Rightarrow> event" where
  "reset_event now e =
     (if DiffTime (nextqueue e) now \<le> 0 then e\<lparr>scheduled := now, nextqueue := now, lastqueue := now\<rparr> else e)"

definition sched_startup :: "ns_time \<Rightarrow> sched \<Rightarrow> sched" where
  "sched_startup now st = fold (\<lambda>a. upd_event a (reset_event now)) (queue st) st"

definition is_late :: "ns_time \<Rightarrow> event \<Rightarrow> bool" where
  "is_late now e =
     (case Ns_DiffTime now (scheduled e) of
        (r, late) \<Rightarrow> r = 1 \<and> DiffTime late (mk_time 0 100000) = 1)"

definition fire_one :: "ns_time \<Rightarrow> sched \<Rightarrow> sched" where
  "fire_one now st =
     (let (ePtr, st) = DeQueueEvent 1 st;
          st = upd_event ePtr (\<lambda>e. e\<lparr>waslate := is_late now e\<rparr>) st;
          st = (if has_flag (events st ePtr) NS_SCHED_ONCE
                then delete_entry (ev_id (events st ePtr)) ePtr st else st);
          st = upd_event ePtr (lastqueue_update (\<lambda>_. now)) st
      in if has_flag (events st ePtr) NS_SCHED_THREAD
         then (upd_event ePtr (\<lambda>e. e\<lparr>ev_flags := ev_flags e OR NS_SCHED_RUNNING, laststart := now\<rparr>) st)
                \<lparr>firstEventPtr := ePtr # firstEventPtr st\<rparr>
         else st\<lparr>readyPtr := ePtr # readyPtr st\<rparr>)"

definition fire_guard :: "ns_time \<Rightarrow> sched \<Rightarrow> bool" where
  "fire_guard now st \<longleftrightarrow> queue st \<noteq> [] \<and> DiffTime (nextqueue (events st (el (queue st) 1))) now \<le> 0"

lemma length_sink_loop [simp]: "length (queue (sink_loop k st)) = length (queue st)"
  by (induction k st rule: sink_loop.induct) (subst sink_loop.simps, simp add: Let_def)

lemma length_DeQueueEvent [simp]: "length (queue (snd (DeQueueEvent k st))) = length (queue st) - 1"
  by (simp add: DeQueueEvent_def Let_def upd_event_def)

lemma queue_upd_event [simp]: "queue (upd_event a f st) = queue st"
  by (simp add: upd_event_def)

lemma queue_delete_entry [simp]: "queue (delete_entry i a st) = queue st"
  by (simp add: delete_entry_def)

lemma queue_fire_one: "queue (fire_one now st) = queue (snd (DeQueueEvent 1 st))"
  by (auto simp: fire_one_def Let_def case_prod_unfold)

function fire_ready :: "ns_time \<Rightarrow> sched \<Rightarrow> sched" where
  "fire_ready now st = (if fire_guard now st then fire_ready now (fire_one now st) else st)"
  by auto
termination
  by (relation "measure (\<lambda>(_, st). length (queue st))") (auto simp: queue_fire_one fire_guard_def)

declare fire_ready.simps [simp del]

definition dispatch_threads :: "sched \<Rightarrow> sched" where
  "dispatch_threads st =
     (if firstEventPtr st \<noteq> [] \<and> nIdleThreads st = 0
      then st\<lparr>nIdleThreads := nIdleThreads st + 1, nThreads := nThreads st + 1\<rparr> else st)"

definition start_ready :: "ns_time \<Rightarrow> sched \<Rightarrow> sched" where
  "start_ready now st =
     (case readyPtr st of
        [] \<Rightarrow> st
      | ePtr # rest \<Rightarrow>
          (upd_event ePtr (\<lambda>e. e\<lparr>laststart := now, ev_flags := ev_flags e OR NS_SCHED_RUNNING\<rparr>) st)
            \<lparr>readyPtr := rest, active := ePtr # active st\<rparr>)"

definition start_thread :: "sched \<Rightarrow> sched" where
  "start_thread st =
     (case firstEventPtr st of
        [] \<Rightarrow> st
      | ePtr # rest \<Rightarrow>
          st\<lparr>firstEventPtr := rest, active := ePtr # active st, nIdleThreads := nIdleThreads st - 1\<rparr>)"

text \<open>After the procedure has returned, in \<^verbatim>\<open>EventThread\<close> or in \<^verbatim>\<open>SchedThread\<close>. The latter
  reads \<^verbatim>\<open>hPtr\<close> before it takes the lock again: \<open>finish_event\<close> is its run without another
  operation in between, \<open>finish_requeue\<close> the part under the lock.\<close>

definition finish_requeue :: "clock \<Rightarrow> ns_time \<Rightarrow> ns_time \<Rightarrow> nat \<Rightarrow> sched \<Rightarrow> sched" where
  "finish_requeue clk now now2 ePtr st =
     QueueEvent clk now2 ePtr
       (upd_event ePtr (\<lambda>e. e\<lparr>ev_flags := ev_flags e AND NOT NS_SCHED_RUNNING, lastend := now\<rparr>) st)"

definition finish_event :: "clock \<Rightarrow> ns_time \<Rightarrow> ns_time \<Rightarrow> bool \<Rightarrow> nat \<Rightarrow> sched \<Rightarrow> sched" where
  "finish_event clk now now2 threaded ePtr st =
     (let st = st\<lparr>active := removeAll ePtr (active st)\<rparr>;
          st = (if threaded then st\<lparr>nIdleThreads := nIdleThreads st + 1\<rparr> else st)
      in if \<not> hPtr (events st ePtr) then FreeEvent ePtr st
         else finish_requeue clk now now2 ePtr st)"

definition sched_cleanup :: "sched \<Rightarrow> sched" where
  "sched_cleanup st =
     (fold FreeEvent (rev (queue st)) st)\<lparr>queue := [], eventsTable := [], running := False\<rparr>"

subsection \<open>The queue of positions\<close>

text \<open>All of an event but its position.\<close>

definition core :: "event \<Rightarrow> event" where
  "core e = e\<lparr>qid := 0\<rparr>"

lemma core_eqD:
  assumes "core e = core e'"
  shows "hPtr e = hPtr e'" "ev_id e = ev_id e'" "ev_flags e = ev_flags e'" "nextqueue e = nextqueue e'"
    "scheduled e = scheduled e'" "interval e = interval e'" "deleteProc e = deleteProc e'" "has_flag e f = has_flag e' f"
  using assms by (cases e; cases e'; simp add: core_def has_flag_def)+

lemma core_qid [simp]: "core (e\<lparr>qid := n\<rparr>) = core e"
  by (simp add: core_def)

definition qids :: "sched \<Rightarrow> bool" where
  "qids st \<longleftrightarrow> list_all (\<lambda>k. qid (events st (el (queue st) k)) = k) [1..<Suc (length (queue st))]"

lemma qids_iff: "qids st \<longleftrightarrow> (\<forall>k. 1 \<le> k \<and> k \<le> length (queue st) \<longrightarrow> qid (events st (el (queue st) k)) = k)"
  by (auto simp: qids_def list_all_iff)

lemma el_in_set: "1 \<le> k \<Longrightarrow> k \<le> length xs \<Longrightarrow> el xs k \<in> set xs"
  by (simp add: el_def)

lemma in_set_el: "x \<in> set xs \<Longrightarrow> \<exists>k. 1 \<le> k \<and> k \<le> length xs \<and> el xs k = x"
  by (metis Suc_leI diff_Suc_1 el_def in_set_conv_nth le_add1 plus_1_eq_Suc)

lemma qids_inj: "qids st \<Longrightarrow> 1 \<le> i \<Longrightarrow> i \<le> length (queue st) \<Longrightarrow> 1 \<le> j \<Longrightarrow> j \<le> length (queue st) \<Longrightarrow>
    el (queue st) i = el (queue st) j \<longleftrightarrow> i = j"
  by (metis qids_iff)

text \<open>Moving events in the queue touches nothing but their positions.\<close>

definition moved :: "sched \<Rightarrow> sched \<Rightarrow> bool" where
  "moved st st' \<longleftrightarrow>
     st' = st\<lparr>queue := queue st', events := events st'\<rparr> \<and> mset (queue st') = mset (queue st) \<and>
     (\<forall>a. core (events st' a) = core (events st a)) \<and>
     (\<forall>a. a \<notin> set (queue st) \<longrightarrow> events st' a = events st a)"

lemma moved_refl [simp]: "moved st st"
  by (simp add: moved_def)

lemma moved_trans:
  assumes "moved a b" "moved b c"
  shows "moved a c"
proof -
  have "set (queue b) = set (queue a)" using assms(1) by (metis moved_def mset_eq_setD)
  moreover have "c = b\<lparr>queue := queue c, events := events c\<rparr>" "b = a\<lparr>queue := queue b, events := events b\<rparr>"
    using assms by (simp_all add: moved_def)
  then have "c = a\<lparr>queue := queue c, events := events c\<rparr>" by (cases a; cases b; cases c) simp
  ultimately show ?thesis using assms by (simp add: moved_def)
qed

lemma queue_Exchange: "queue (Exchange i j st) = exchange (queue st) i j"
  by (simp add: Exchange_def Let_def)

lemma Exchange_moved:
  assumes "1 \<le> i" "i \<le> length (queue st)" "1 \<le> j" "j \<le> length (queue st)"
  shows "moved st (Exchange i j st)"
proof -
  have "set (exchange (queue st) i j) = set (queue st)"
    using mset_exchange [OF assms] by (metis mset_eq_setD)
  then have "el (exchange (queue st) i j) i \<in> set (queue st)" "el (exchange (queue st) i j) j \<in> set (queue st)"
    using el_in_set [of i "exchange (queue st) i j"] el_in_set [of j "exchange (queue st) i j"] assms by auto
  then show ?thesis
    using mset_exchange [OF assms] by (auto simp: moved_def Exchange_def Let_def upd_event_def)
qed

lemma qids_Exchange:
  assumes "qids st" "1 \<le> i" "i \<le> length (queue st)" "1 \<le> j" "j \<le> length (queue st)"
  shows "qids (Exchange i j st)"
proof -
  let ?q = "exchange (queue st) i j"
  have el: "el ?q m = (if m = j then el (queue st) i else if m = i then el (queue st) j else el (queue st) m)"
    if "1 \<le> m" "m \<le> length (queue st)" for m
    by (rule el_exchange [OF assms(2-) that])
  have "qid (events (Exchange i j st) (el ?q m)) = m" if m: "1 \<le> m" "m \<le> length (queue st)" for m
    using el [OF m] el [OF assms(2,3)] el [OF assms(4,5)] qids_inj [OF assms(1) m assms(2,3)]
      qids_inj [OF assms(1) m assms(4,5)] qids_inj [OF assms(1,2,3,4,5)] assms(1) m
    by (auto simp: Exchange_def Let_def upd_event_def qids_iff)
  then show ?thesis by (simp add: qids_iff queue_Exchange)
qed

abbreviation later :: "sched \<Rightarrow> nat \<Rightarrow> nat \<Rightarrow> bool" where
  "later st x y \<equiv> 0 < cmp_time (nextqueue (events st x)) (nextqueue (events st y))"

lemma DiffTime_values: "DiffTime a b = -1 \<or> DiffTime a b = 0 \<or> DiffTime a b = 1"
  by (simp add: DiffTime_def Ns_DiffTime_def Let_def case_prod_unfold)

lemma Larger_later: "Larger st j k \<longleftrightarrow> later st (el (queue st) j) (el (queue st) k)"
  using DiffTime_values [of "nextqueue (events st (el (queue st) j))" "nextqueue (events st (el (queue st) k))"]
  by (auto simp: Larger_def cmp_time_def DiffTime_def)

lemma moved_later: "moved st st' \<Longrightarrow> later st' = later st"
  unfolding moved_def by (auto simp: fun_eq_iff core_eqD(4) [of "events st' _" "events st _"])

lemma swim_loop_swim:
  "k \<le> length (queue st) \<Longrightarrow> qids st \<Longrightarrow>
    moved st (swim_loop k st) \<and> qids (swim_loop k st) \<and> queue (swim_loop k st) = swim (later st) k (queue st)"
proof (induction k st rule: swim_loop.induct)
  case (1 k st)
  show ?case
  proof (cases "k > 1 \<and> Larger st (k div 2) k")
    case True
    let ?st = "Exchange (k div 2) k st"
    have b: "1 \<le> k div 2" "k div 2 \<le> length (queue st)" "1 \<le> k" using True "1.prems"(1) by auto
    have m: "moved st ?st" and q: "qids ?st"
      using Exchange_moved [OF b(1,2,3) "1.prems"(1)] qids_Exchange [OF "1.prems"(2) b(1,2,3) "1.prems"(1)] .
    have IH: "moved ?st (swim_loop (k div 2) ?st) \<and> qids (swim_loop (k div 2) ?st) \<and>
        queue (swim_loop (k div 2) ?st) = swim (later ?st) (k div 2) (queue ?st)"
      using "1.IH" [OF True _ q] b by simp
    have "swim_loop k st = swim_loop (k div 2) ?st" using True by (subst swim_loop.simps) simp
    moreover have "swim (later st) k (queue st) = swim (later st) (k div 2) (exchange (queue st) (k div 2) k)"
      using True by (subst swim.simps) (simp add: Larger_later)
    ultimately show ?thesis using IH moved_trans [OF m] by (simp add: queue_Exchange moved_later [OF m])
  next
    case False
    then have "swim_loop k st = st" "swim (later st) k (queue st) = queue st"
      by (subst swim_loop.simps swim.simps, auto simp: Larger_later)+
    then show ?thesis using "1.prems" by simp
  qed
qed

lemma sink_loop_sink:
  "qids st \<Longrightarrow>
    moved st (sink_loop k st) \<and> qids (sink_loop k st) \<and> queue (sink_loop k st) = sink (later st) k (queue st)"
proof (induction k st rule: sink_loop.induct)
  case (1 k st)
  let ?j = "smaller_child (later st) k (queue st)"
  have step: "sink_loop k st = (if k = 0 \<or> 2 * k > length (queue st) then st
      else if \<not> Larger st k ?j then st else sink_loop ?j (Exchange k ?j st))"
    by (subst sink_loop.simps) (simp add: Let_def smaller_child_def Larger_later)
  show ?case
  proof (cases "k = 0 \<or> 2 * k > length (queue st) \<or> \<not> Larger st k ?j")
    case True
    then have "sink_loop k st = st" "sink (later st) k (queue st) = queue st"
      using step by (auto simp: Larger_later sink.simps [of "later st" k])
    then show ?thesis using "1.prems" by simp
  next
    case False
    let ?st = "Exchange k ?j st"
    have b: "1 \<le> k" "k \<le> length (queue st)" "1 \<le> ?j" "?j \<le> length (queue st)"
      using smaller_child_bounds [of k "queue st" "later st"] False by auto
    have m: "moved st ?st" and q: "qids ?st" using Exchange_moved [OF b] qids_Exchange [OF "1.prems" b] .
    have IH: "moved ?st (sink_loop ?j ?st) \<and> qids (sink_loop ?j ?st) \<and> queue (sink_loop ?j ?st) = sink (later ?st) ?j (queue ?st)"
    proof (rule "1.IH" [OF refl])
      show "?j = (if 2 * k < length (queue st) \<and> Larger st (2 * k) (2 * k + 1) then 2 * k + 1 else 2 * k)"
        by (simp add: smaller_child_def Larger_later)
    qed (use False q in auto)
    have "sink (later st) k (queue st) = sink (later st) ?j (exchange (queue st) k ?j)"
      using False by (subst sink.simps) (simp add: Larger_later)
    then show ?thesis using IH step False moved_trans [OF m] by (simp add: queue_Exchange moved_later [OF m])
  qed
qed

subsection \<open>Inserting and removing\<close>

interpretation evheap: event_heap cmp_time time_point
  by unfold_locales

definition heap_sched :: "sched \<Rightarrow> bool" where
  "heap_sched st \<longleftrightarrow> is_heap (later st) (queue st)"

definition queue_points :: "sched \<Rightarrow> bool" where
  "queue_points st \<longleftrightarrow> list_all (\<lambda>a. time_point (nextqueue (events st a))) (queue st)"

lemma heap_insert_spec:
  assumes "qids st" "ePtr \<notin> set (queue st)"
  defines "st' \<equiv> heap_insert ePtr st"
  shows "qids st'" "mset (queue st') = add_mset ePtr (mset (queue st))"
    "\<And>a. core (events st' a) = core (events st a)"
    "\<And>a. a \<notin> set (queue st) \<Longrightarrow> a \<noteq> ePtr \<Longrightarrow> events st' a = events st a"
    "st' = st\<lparr>queue := queue st', events := events st', maxqueue := maxqueue st'\<rparr>"
    "heap_sched st \<Longrightarrow> queue_points st \<Longrightarrow> time_point (nextqueue (events st ePtr)) \<Longrightarrow> heap_sched st'"
proof -
  define n where "n = length (queue st) + 1"
  define m where "m = (if maxqueue st \<le> n then maxqueue st + 25 else maxqueue st)"
  define st1 where "st1 = st\<lparr>events := (events st)(ePtr := (events st ePtr)\<lparr>qid := n\<rparr>),
    maxqueue := m, queue := queue st @ [ePtr]\<rparr>"
  have len: "length (queue st1) = n" by (simp add: st1_def n_def)
  have "el (queue st @ [ePtr]) k = (if k = n then ePtr else el (queue st) k)" if "1 \<le> k" "k \<le> n" for k
    using that by (auto simp: el_def nth_append n_def)
  then have "qid (events st1 (el (queue st1) k)) = k" if "1 \<le> k" "k \<le> n" for k
    using that assms(1) el_in_set [of k "queue st"] assms(2)
    by (auto simp: st1_def qids_iff n_def)
  then have q1: "qids st1" by (simp add: qids_iff len)
  have "st' = (if n > 1 then swim_loop n st1 else st1)"
    unfolding st'_def heap_insert_def Let_def n_def [symmetric] upd_event_def st1_def m_def by simp
  moreover have "swim_loop n st1 = st1" if "\<not> n > 1" using that by (subst swim_loop.simps) simp
  ultimately have st': "st' = swim_loop n st1" by metis
  have sw: "moved st1 st'" "qids st'" "queue st' = swim (later st1) n (queue st1)"
    using swim_loop_swim [of n st1] q1 by (simp_all add: len st')
  show "qids st'" using sw(2) .
  show "mset (queue st') = add_mset ePtr (mset (queue st))" using sw(1) by (simp add: moved_def st1_def)
  show c: "core (events st' a) = core (events st a)" for a using sw(1) by (simp add: moved_def st1_def)
  show "events st' a = events st a" if "a \<notin> set (queue st)" "a \<noteq> ePtr" for a
    using sw(1) that by (simp add: moved_def st1_def)
  have "st' = st1\<lparr>queue := queue st', events := events st'\<rparr>" using sw(1) by (simp add: moved_def)
  then show "st' = st\<lparr>queue := queue st', events := events st', maxqueue := maxqueue st'\<rparr>"
    by (cases st; cases st') (simp add: st1_def)
  have l1: "later st1 = later st" by (simp add: fun_eq_iff st1_def)
  show "heap_sched st'" if "heap_sched st" "queue_points st" "time_point (nextqueue (events st ePtr))"
  proof -
    have "later st' = later st" using moved_later [OF sw(1)] l1 by simp
    moreover have "is_heap (later st) (swim (later st) n (queue st @ [ePtr]))"
      using that heap_but_up_snoc [of "later st" "queue st" ePtr]
      by (intro evheap.swim_heap) (auto simp: heap_sched_def queue_points_def n_def)
    ultimately show ?thesis using sw(3) by (simp add: heap_sched_def l1) (simp add: st1_def)
  qed
qed

lemma DeQueueEvent_spec:
  assumes "qids st" "1 \<le> k" "k \<le> length (queue st)" "DeQueueEvent k st = (ePtr, st')"
  shows "ePtr = el (queue st) k" "qids st'" "mset (queue st) = add_mset ePtr (mset (queue st'))"
    "\<And>a. core (events st' a) = core (events st a)" "qid (events st' ePtr) = 0"
    "\<And>a. a \<notin> set (queue st) \<Longrightarrow> events st' a = events st a"
    "st' = st\<lparr>queue := queue st', events := events st'\<rparr>"
    "queue st' = sink (later st) k (butlast (exchange (queue st) k (length (queue st))))"
proof -
  let ?n = "length (queue st)"
  let ?st1 = "Exchange k ?n st"
  have n: "1 \<le> ?n" using assms(2,3) by simp
  have m1: "moved st ?st1" and q1: "qids ?st1"
    using Exchange_moved [OF assms(2,3) n order_refl] qids_Exchange [OF assms(1-3) n order_refl] .
  have last: "el (queue ?st1) ?n = el (queue st) k"
    using el_exchange [OF assms(2,3) n order_refl n order_refl] by (simp add: queue_Exchange)
  define st2 where "st2 = upd_event (el (queue st) k) (qid_update (\<lambda>_. 0)) (?st1\<lparr>queue := butlast (queue ?st1)\<rparr>)"
  have r: "ePtr = el (queue st) k" "st' = sink_loop k st2"
    using assms(4) last by (auto simp: DeQueueEvent_def Let_def st2_def)
  have ne: "queue ?st1 \<noteq> []" using n by (metis length_queue_Exchange list.size(3) not_one_le_zero)
  have el2: "el (queue st2) m = el (queue ?st1) m" if "1 \<le> m" "m \<le> length (queue st2)" for m
    using that by (simp add: st2_def el_def nth_butlast)
  have "el (queue ?st1) m \<noteq> el (queue st) k" if "1 \<le> m" "m < ?n" for m
    using qids_inj [OF q1, of m ?n] that last n by simp
  then have q2: "qids st2"
    using q1 el2 by (auto simp: qids_iff st2_def upd_event_def)
  have "mset (queue ?st1) = add_mset (last (queue ?st1)) (mset (butlast (queue ?st1)))"
    by (metis ne append_butlast_last_id add_mset_add_single mset.simps mset_append union_mset_add_mset_right empty_neutral(2))
  moreover have "last (queue ?st1) = el (queue st) k" using last ne by (simp add: last_conv_nth el_def)
  ultimately have ms: "mset (queue st) = add_mset (el (queue st) k) (mset (queue st2))"
    using m1 by (simp add: moved_def st2_def)
  note sk = sink_loop_sink [OF q2, of k, folded r(2)]
  have out: "el (queue st) k \<notin> set (queue st2)"
  proof
    assume "el (queue st) k \<in> set (queue st2)"
    then obtain m where m: "1 \<le> m" "m \<le> length (queue st2)" "el (queue st2) m = el (queue st) k"
      using in_set_el by metis
    then have "m < ?n" by (simp add: st2_def)
    then show False using m el2 \<open>\<And>m. 1 \<le> m \<Longrightarrow> m < ?n \<Longrightarrow> el (queue ?st1) m \<noteq> el (queue st) k\<close> by metis
  qed
  show "ePtr = el (queue st) k" "qids st'" "mset (queue st) = add_mset ePtr (mset (queue st'))"
    using r(1) sk ms by (simp_all add: moved_def mset_sink)
  show "core (events st' a) = core (events st a)" for a
    using sk m1 by (simp add: moved_def st2_def upd_event_def)
  show "qid (events st' ePtr) = 0" using sk out r(1) by (simp add: moved_def) (simp add: st2_def upd_event_def)
  have "set (queue st2) \<subseteq> set (queue st)" using ms by (metis set_mset_add_mset_insert set_mset_mset subset_insertI)
  then show "events st' a = events st a" if "a \<notin> set (queue st)" for a
    using sk m1 that el_in_set [OF assms(2,3)] by (auto simp: moved_def st2_def upd_event_def)
  have "st' = st2\<lparr>queue := queue st', events := events st'\<rparr>" using sk unfolding moved_def by blast
  moreover have "?st1 = st\<lparr>queue := queue ?st1, events := events ?st1\<rparr>" using m1 by (simp add: moved_def)
  ultimately show "st' = st\<lparr>queue := queue st', events := events st'\<rparr>"
    by (cases st; cases ?st1; cases st') (simp add: st2_def upd_event_def)
  have "later st2 = later ?st1" by (simp add: fun_eq_iff st2_def upd_event_def)
  then show "queue st' = sink (later st) k (butlast (exchange (queue st) k ?n))"
    using sk moved_later [OF m1] by (simp add: st2_def queue_Exchange)
qed

lemma DeQueueEvent_later:
  assumes "qids st" "1 \<le> k" "k \<le> length (queue st)" "DeQueueEvent k st = (ePtr, st')"
  shows "later st' = later st"
  using core_eqD(4) [OF DeQueueEvent_spec(4) [OF assms]] by (simp add: fun_eq_iff)

text \<open>Removing the event at position \<open>k\<close> keeps the order when the last event, which takes its place, is
  not earlier than the parent of \<open>k\<close>, in particular at the root.\<close>

lemma DeQueueEvent_heap:
  assumes "qids st" "heap_sched st" "queue_points st" "1 \<le> k" "k \<le> length (queue st)"
    and "DeQueueEvent k st = (ePtr, st')"
    and up: "2 \<le> k \<Longrightarrow> \<not> later st (el (queue st) (k div 2)) (el (queue st) (length (queue st)))"
  shows "heap_sched st'"
proof -
  let ?q = "queue st" and ?n = "length (queue st)"
  note spec = DeQueueEvent_spec [OF assms(1,4,5,6)]
  have heap: "is_heap (later st) ?q" using assms(2) by (simp add: heap_sched_def)
  have points: "list_all (\<lambda>a. time_point (nextqueue (events st a))) ?q" using assms(3) by (simp add: queue_points_def)
  have "is_heap (later st) (queue st')"
  proof (cases "k < ?n")
    case True
    have gp: "\<not> later st (el ?q (k div 2)) (el ?q i)" if "2 \<le> k" "i div 2 = k" "i \<le> ?n" for i
    proof -
      have i: "2 \<le> i" "1 \<le> k div 2" "k div 2 \<le> ?n" using that assms(5) by auto
      have "\<not> later st (el ?q (i div 2)) (el ?q i)" "\<not> later st (el ?q (k div 2)) (el ?q k)"
        using heap i that assms(5) unfolding is_heap_iff by blast+
      then show ?thesis
        using evheap.el_trans [OF points, of "k div 2" k i] i that assms(4,5) by simp
    qed
    have "heap_but_down (later st) k (butlast (exchange ?q k ?n))"
      by (rule heap_but_down_delete [OF heap assms(4) True]) (use up gp in blast)+
    moreover have "set (exchange ?q k ?n) = set ?q"
      using mset_exchange [of k ?q ?n] assms(4,5) by (intro mset_eq_setD) simp
    then have "set (butlast (exchange ?q k ?n)) \<subseteq> set ?q" using in_set_butlastD by fast
    then have "list_all (\<lambda>a. time_point (nextqueue (events st a))) (butlast (exchange ?q k ?n))"
      using points by (auto simp: list_all_iff)
    ultimately show ?thesis unfolding spec(8) using assms(4) by (intro evheap.sink_heap)
  next
    case False
    then have k: "k = ?n" using assms(5) by simp
    have "exchange ?q ?n ?n = ?q" using assms(4,5) by (simp add: exchange_def el_def)
    then have "queue st' = butlast ?q"
      unfolding spec(8) k by (subst sink.simps) (use assms(4,5) in auto)
    moreover have "el (butlast ?q) i = el ?q i" if "1 \<le> i" "i < ?n" for i using that by (simp add: el_def nth_butlast)
    ultimately show ?thesis using heap by (auto simp: is_heap_iff)
  qed
  then show ?thesis unfolding heap_sched_def DeQueueEvent_later [OF assms(1,4,5,6)] .
qed

subsection \<open>The states of the scheduler\<close>

abbreviation inflight :: "sched \<Rightarrow> nat list" where
  "inflight st \<equiv> readyPtr st @ firstEventPtr st @ active st"

text \<open>Every queued event knows its position; an event is in the queue, ready, handed to a thread or
  running at most once; queued events are in the hash table and not paused; the events of the table
  that are not queued have position 0; nothing freed is referenced, and nothing is freed twice.\<close>

definition sched_inv :: "sched \<Rightarrow> bool" where
  "sched_inv st \<longleftrightarrow>
     qids st \<and> distinct (queue st @ inflight st) \<and>
     (\<forall>a\<in>snd ` set (eventsTable st) \<union> set (inflight st). a \<notin> set (queue st) \<longrightarrow> qid (events st a) = 0) \<and>
     distinct (map fst (eventsTable st)) \<and>
     (\<forall>(i, a)\<in>set (eventsTable st). ev_id (events st a) = i \<and> hPtr (events st a)) \<and>
     (\<forall>a\<in>set (queue st). (ev_id (events st a), a) \<in> set (eventsTable st) \<and> \<not> has_flag (events st a) NS_SCHED_PAUSED) \<and>
     (\<forall>a\<in>set (inflight st). hPtr (events st a) \<longrightarrow> (ev_id (events st a), a) \<in> set (eventsTable st)) \<and>
     distinct (freed st) \<and>
     (\<forall>a\<in>set (freed st). a \<notin> set (queue st) \<union> set (inflight st) \<union> snd ` set (eventsTable st))"

lemma sched_invD:
  assumes "sched_inv st"
  shows "qids st" "distinct (queue st @ inflight st)"
    "\<And>a. a \<in> snd ` set (eventsTable st) \<union> set (inflight st) \<Longrightarrow> a \<notin> set (queue st) \<Longrightarrow> qid (events st a) = 0"
    "distinct (map fst (eventsTable st))"
    "\<And>i a. (i, a) \<in> set (eventsTable st) \<Longrightarrow> ev_id (events st a) = i \<and> hPtr (events st a)"
    "\<And>a. a \<in> set (queue st) \<Longrightarrow> (ev_id (events st a), a) \<in> set (eventsTable st) \<and> \<not> has_flag (events st a) NS_SCHED_PAUSED"
    "\<And>a. a \<in> set (inflight st) \<Longrightarrow> hPtr (events st a) \<Longrightarrow> (ev_id (events st a), a) \<in> set (eventsTable st)"
    "distinct (freed st)"
    "\<And>a. a \<in> set (freed st) \<Longrightarrow> a \<notin> set (queue st) \<union> set (inflight st) \<union> snd ` set (eventsTable st)"
proof -
  note c = assms [unfolded sched_inv_def]
  note r1 = c [THEN conjunct2] and r2 = c [THEN conjunct2, THEN conjunct2]
  note r3 = r2 [THEN conjunct2] and r4 = r2 [THEN conjunct2, THEN conjunct2]
  note r5 = r4 [THEN conjunct2] and r6 = r4 [THEN conjunct2, THEN conjunct2]
  note r7 = r6 [THEN conjunct2] and r8 = r6 [THEN conjunct2, THEN conjunct2]
  show "qids st" by (rule c [THEN conjunct1])
  show "distinct (queue st @ inflight st)" by (rule r1 [THEN conjunct1])
  show "qid (events st a) = 0" if "a \<in> snd ` set (eventsTable st) \<union> set (inflight st)" "a \<notin> set (queue st)" for a
    by (rule r2 [THEN conjunct1, THEN bspec, OF that(1), THEN mp, OF that(2)])
  show "distinct (map fst (eventsTable st))" by (rule r3 [THEN conjunct1])
  show "ev_id (events st a) = i \<and> hPtr (events st a)" if "(i, a) \<in> set (eventsTable st)" for i a
    using r4 [THEN conjunct1, THEN bspec, OF that] by (simp only: prod.case)
  show "(ev_id (events st a), a) \<in> set (eventsTable st) \<and> \<not> has_flag (events st a) NS_SCHED_PAUSED"
    if "a \<in> set (queue st)" for a by (rule r5 [THEN conjunct1, THEN bspec, OF that])
  show "(ev_id (events st a), a) \<in> set (eventsTable st)" if "a \<in> set (inflight st)" "hPtr (events st a)" for a
    by (rule r6 [THEN conjunct1, THEN bspec, OF that(1), THEN mp, OF that(2)])
  show "distinct (freed st)" by (rule r7 [THEN conjunct1])
  show "a \<notin> set (queue st) \<union> set (inflight st) \<union> snd ` set (eventsTable st)" if "a \<in> set (freed st)" for a
    by (rule r8 [THEN bspec, OF that])
qed

lemma sched_invI:
  assumes "qids st" "distinct (queue st @ inflight st)"
    "\<And>a. a \<in> snd ` set (eventsTable st) \<union> set (inflight st) \<Longrightarrow> a \<notin> set (queue st) \<Longrightarrow> qid (events st a) = 0"
    "distinct (map fst (eventsTable st))"
    "\<And>i a. (i, a) \<in> set (eventsTable st) \<Longrightarrow> ev_id (events st a) = i \<and> hPtr (events st a)"
    "\<And>a. a \<in> set (queue st) \<Longrightarrow> (ev_id (events st a), a) \<in> set (eventsTable st) \<and> \<not> has_flag (events st a) NS_SCHED_PAUSED"
    "\<And>a. a \<in> set (inflight st) \<Longrightarrow> hPtr (events st a) \<Longrightarrow> (ev_id (events st a), a) \<in> set (eventsTable st)"
    "distinct (freed st)"
    "\<And>a. a \<in> set (freed st) \<Longrightarrow> a \<notin> set (queue st) \<union> set (inflight st) \<union> snd ` set (eventsTable st)"
  shows "sched_inv st"
  unfolding sched_inv_def
proof (intro conjI)
  show "\<forall>a\<in>snd ` set (eventsTable st) \<union> set (inflight st). a \<notin> set (queue st) \<longrightarrow> qid (events st a) = 0"
    by (intro ballI impI) (rule assms(3))
  show "\<forall>a\<in>set (queue st). (ev_id (events st a), a) \<in> set (eventsTable st) \<and> \<not> has_flag (events st a) NS_SCHED_PAUSED"
    by (intro ballI) (rule assms(6))
  show "\<forall>a\<in>set (inflight st). hPtr (events st a) \<longrightarrow> (ev_id (events st a), a) \<in> set (eventsTable st)"
    by (intro ballI impI) (rule assms(7))
  show "\<forall>a\<in>set (freed st). a \<notin> set (queue st) \<union> set (inflight st) \<union> snd ` set (eventsTable st)"
    by (intro ballI) (rule assms(9))
  show "\<forall>(i, a)\<in>set (eventsTable st). ev_id (events st a) = i \<and> hPtr (events st a)"
  proof (rule ballI)
    fix p
    assume "p \<in> set (eventsTable st)"
    then show "case p of (i, a) \<Rightarrow> ev_id (events st a) = i \<and> hPtr (events st a)"
      using assms(5) [of "fst p" "snd p"] by (simp add: case_prod_unfold)
  qed
qed (fact assms(1), fact assms(2), fact assms(4), fact assms(8))

lemma queue_times_same [simp]:
  "hPtr (queue_times clk now e) = hPtr e" "ev_id (queue_times clk now e) = ev_id e" "qid (queue_times clk now e) = qid e"
  "ev_flags (queue_times clk now e) = ev_flags e" "deleteProc (queue_times clk now e) = deleteProc e"
  "has_flag (queue_times clk now e) f = has_flag e f" "interval (queue_times clk now e) = interval e"
  by (simp_all add: queue_times_def Let_def has_flag_def)

lemma mset_add_set: "mset xs = add_mset a (mset ys) \<Longrightarrow> set xs = insert a (set ys) \<and> (distinct xs \<longleftrightarrow> a \<notin> set ys \<and> distinct ys)"
  by (metis distinct.simps(2) list.simps(15) mset.simps(2) mset_eq_imp_distinct_iff mset_eq_setD)

text \<open>Updates that leave the fields the invariant speaks about alone.\<close>

definition same_keys :: "sched \<Rightarrow> sched \<Rightarrow> bool" where
  "same_keys st st' \<longleftrightarrow>
     queue st' = queue st \<and> eventsTable st' = eventsTable st \<and> freed st' = freed st \<and>
     (\<forall>a. qid (events st' a) = qid (events st a) \<and> ev_id (events st' a) = ev_id (events st a) \<and>
          hPtr (events st' a) = hPtr (events st a)) \<and>
     (\<forall>a\<in>set (queue st). has_flag (events st' a) NS_SCHED_PAUSED = has_flag (events st a) NS_SCHED_PAUSED)"

lemma same_keys_inv:
  assumes "same_keys st st'" "distinct (queue st @ inflight st')" "set (inflight st') \<subseteq> set (inflight st)" "sched_inv st"
  shows "sched_inv st'"
proof -
  note I = sched_invD [OF assms(4)]
  have k: "queue st' = queue st" "eventsTable st' = eventsTable st" "freed st' = freed st"
    "\<And>a. qid (events st' a) = qid (events st a)" "\<And>a. ev_id (events st' a) = ev_id (events st a)"
    "\<And>a. hPtr (events st' a) = hPtr (events st a)"
    "\<And>a. a \<in> set (queue st) \<Longrightarrow> has_flag (events st' a) NS_SCHED_PAUSED = has_flag (events st a) NS_SCHED_PAUSED"
    using assms(1) by (simp_all add: same_keys_def)
  show ?thesis
  proof (rule sched_invI, unfold k(1-6))
    show "qids st'" using I(1) by (simp add: qids_iff k)
    show "distinct (queue st @ inflight st')" by (rule assms(2))
    show "qid (events st a) = 0" if "a \<in> snd ` set (eventsTable st) \<union> set (inflight st')" "a \<notin> set (queue st)" for a
      by (rule I(3)) (use that assms(3) in blast)+
    show "(ev_id (events st a), a) \<in> set (eventsTable st) \<and> \<not> has_flag (events st' a) NS_SCHED_PAUSED"
      if "a \<in> set (queue st)" for a using I(6) k(7) that by simp
    show "(ev_id (events st a), a) \<in> set (eventsTable st)" if "a \<in> set (inflight st')" "hPtr (events st a)" for a
      by (rule I(7)) (use that assms(3) in blast)+
    show "a \<notin> set (queue st) \<union> set (inflight st') \<union> snd ` set (eventsTable st)" if "a \<in> set (freed st)" for a
      using I(9) [OF that] assms(3) by blast
  qed (fact I(4), erule I(5), fact I(8))
qed

lemma QueueEvent_unfold:
  "QueueEvent clk now ePtr st =
     (if has_flag (events st ePtr) NS_SCHED_PAUSED then st
      else (heap_insert ePtr (upd_event ePtr (queue_times clk now) st))\<lparr>running := True\<rparr>)"
  by (simp add: QueueEvent_def Let_def)

lemma same_keys_upd:
  assumes "\<And>e. qid (f e) = qid e" "\<And>e. ev_id (f e) = ev_id e" "\<And>e. hPtr (f e) = hPtr e"
    and "a \<in> set (queue st) \<Longrightarrow> has_flag (f (events st a)) NS_SCHED_PAUSED = has_flag (events st a) NS_SCHED_PAUSED"
  shows "same_keys st (upd_event a f st)"
  using assms by (simp add: same_keys_def upd_event_def)

lemma upd_event_simps [simp]:
  "readyPtr (upd_event a f st) = readyPtr st" "firstEventPtr (upd_event a f st) = firstEventPtr st"
  "active (upd_event a f st) = active st" "eventsTable (upd_event a f st) = eventsTable st"
  "freed (upd_event a f st) = freed st" "shutdownPending (upd_event a f st) = shutdownPending st"
  "events (upd_event a f st) = (events st)(a := f (events st a))"
  by (simp_all add: upd_event_def)

lemma heap_insert_inv:
  assumes inv: "sched_inv st" and e: "ePtr \<notin> set (queue st)" "ePtr \<notin> set (inflight st)"
    "(ev_id (events st ePtr), ePtr) \<in> set (eventsTable st)" "\<not> has_flag (events st ePtr) NS_SCHED_PAUSED"
  shows "sched_inv (heap_insert ePtr st)"
proof -
  let ?st = "heap_insert ePtr st"
  have q: "qids st" using inv by (simp add: sched_inv_def)
  note sp = heap_insert_spec [OF q e(1)]
  note c = core_eqD [OF sp(3)]
  have fr: "eventsTable ?st = eventsTable st" "inflight ?st = inflight st" "freed ?st = freed st"
    by (subst sp(5), simp)+
  have qs: "set (queue ?st) = insert ePtr (set (queue st))" "distinct (queue ?st)"
    using mset_add_set [OF sp(2)] e(1) inv by (simp_all add: sched_inv_def)
  note I = sched_invD [OF inv]
  show ?thesis
  proof (rule sched_invI, unfold fr qs(1) c(1,2,8))
    show "qids ?st" using sp(1) .
    show "distinct (queue ?st @ inflight st)" using I(2) e(2) qs by auto
    show "qid (events ?st a) = 0"
      if "a \<in> snd ` set (eventsTable st) \<union> set (inflight st)" "a \<notin> insert ePtr (set (queue st))" for a
      using I(3) that sp(4) by auto
    show "(ev_id (events st a), a) \<in> set (eventsTable st) \<and> \<not> has_flag (events st a) NS_SCHED_PAUSED"
      if "a \<in> insert ePtr (set (queue st))" for a using I(6) e that by blast
    show "a \<notin> insert ePtr (set (queue st)) \<union> set (inflight st) \<union> snd ` set (eventsTable st)"
      if "a \<in> set (freed st)" for a using I(9) [OF that] e(3) by force
  qed (fact I(4), erule I(5), erule (1) I(7), fact I(8))
qed

lemma QueueEvent_inv:
  assumes inv: "sched_inv st" and e: "ePtr \<notin> set (queue st)" "ePtr \<notin> set (inflight st)"
    "(ev_id (events st ePtr), ePtr) \<in> set (eventsTable st)"
  shows "sched_inv (QueueEvent clk now ePtr st)"
proof (cases "has_flag (events st ePtr) NS_SCHED_PAUSED")
  case False
  let ?st = "upd_event ePtr (queue_times clk now) st"
  have "sched_inv ?st"
    by (rule same_keys_inv [OF same_keys_upd _ _ inv]) (use inv in \<open>auto simp: sched_inv_def\<close>)
  then have "sched_inv (heap_insert ePtr ?st)"
    by (rule heap_insert_inv) (use e False in auto)
  then show ?thesis using False by (simp add: QueueEvent_unfold sched_inv_def qids_def)
qed (use inv in \<open>simp add: QueueEvent_unfold\<close>)

lemma qids_position: "qids st \<Longrightarrow> a \<in> set (queue st) \<Longrightarrow>
    1 \<le> qid (events st a) \<and> qid (events st a) \<le> length (queue st) \<and> el (queue st) (qid (events st a)) = a"
  using in_set_el [of a "queue st"] unfolding qids_iff by metis

text \<open>The parts of the state after an event has left the queue.\<close>

lemma DeQueueEvent_parts:
  assumes "qids st" "distinct (queue st)" "1 \<le> k" "k \<le> length (queue st)" "DeQueueEvent k st = (ePtr, st')"
  shows "set (queue st') = set (queue st) - {ePtr}" "distinct (queue st')" "eventsTable st' = eventsTable st"
    "freed st' = freed st" "readyPtr st' = readyPtr st" "firstEventPtr st' = firstEventPtr st" "active st' = active st"
    "ePtr \<in> set (queue st)" "deleteCalls st' = deleteCalls st" "shutdownPending st' = shutdownPending st"
proof -
  note sp = DeQueueEvent_spec [OF assms(1,3,4,5)]
  show "set (queue st') = set (queue st) - {ePtr}" "distinct (queue st')" "ePtr \<in> set (queue st)"
    using mset_add_set [OF sp(3)] assms(2) by auto
qed (subst DeQueueEvent_spec(7) [OF assms(1,3,4,5)], simp)+

lemma DeQueueEvent_inv:
  assumes inv: "sched_inv st" and k: "1 \<le> k" "k \<le> length (queue st)" and dq: "DeQueueEvent k st = (ePtr, st')"
  shows "sched_inv st'"
proof -
  note I = sched_invD [OF inv]
  have d: "distinct (queue st)" using I(2) by simp
  note sp = DeQueueEvent_spec [OF I(1) k dq] and p = DeQueueEvent_parts [OF I(1) d k dq]
  note c = core_eqD [OF sp(4)]
  show ?thesis
  proof (rule sched_invI, unfold p(1,3-7) c(1,2,8))
    show "qids st'" by (rule sp(2))
    show "distinct (queue st' @ inflight st)" using I(2) p(1,2) by auto
    show "qid (events st' a) = 0"
      if "a \<in> snd ` set (eventsTable st) \<union> set (inflight st)" "a \<notin> set (queue st) - {ePtr}" for a
      using I(3) [OF that(1)] that(2) sp(5,6) by (cases "a = ePtr") auto
    show "(ev_id (events st a), a) \<in> set (eventsTable st) \<and> \<not> has_flag (events st a) NS_SCHED_PAUSED"
      if "a \<in> set (queue st) - {ePtr}" for a using I(6) that by simp
    show "a \<notin> set (queue st) - {ePtr} \<union> set (inflight st) \<union> snd ` set (eventsTable st)" if "a \<in> set (freed st)" for a
      using I(9) [OF that] by blast
  qed (fact I(4), erule I(5), erule (1) I(7), fact I(8))
qed

lemma delete_entry_simps [simp]:
  "readyPtr (delete_entry i a st) = readyPtr st" "firstEventPtr (delete_entry i a st) = firstEventPtr st"
  "active (delete_entry i a st) = active st" "freed (delete_entry i a st) = freed st"
  "eventsTable (delete_entry i a st) = filter (\<lambda>(j, _). j \<noteq> i) (eventsTable st)"
  "events (delete_entry i a st) = (events st)(a := (events st a)\<lparr>hPtr := False\<rparr>)"
  by (simp_all add: delete_entry_def upd_event_def)

lemma qid_delete_entry: "qid (events (delete_entry i a st) x) = qid (events st x)"
  by simp

lemma qids_delete_entry [simp]: "qids (delete_entry i a st) = qids st"
  unfolding qids_def qid_delete_entry queue_delete_entry ..

text \<open>Removing the entry of an event that is not queued.\<close>

lemma delete_entry_inv:
  assumes inv: "sched_inv st" and e: "(i, ePtr) \<in> set (eventsTable st)" "ePtr \<notin> set (queue st)"
  shows "sched_inv (delete_entry i ePtr st)" "ePtr \<notin> snd ` set (eventsTable (delete_entry i ePtr st))"
proof -
  note I = sched_invD [OF inv]
  have id: "ev_id (events st ePtr) = i" using I(5) [OF e(1)] by simp
  have uniq: "a = ePtr \<longleftrightarrow> j = i" if "(j, a) \<in> set (eventsTable st)" for j a
    using that e(1) I(4) I(5) [OF that] id by (metis eq_key_imp_eq_value)
  show gone: "ePtr \<notin> snd ` set (eventsTable (delete_entry i ePtr st))" using uniq [of _ ePtr] by auto
  show "sched_inv (delete_entry i ePtr st)"
  proof (rule sched_invI)
    show "qids (delete_entry i ePtr st)" using I(1) by simp
    show "distinct (queue (delete_entry i ePtr st) @ inflight (delete_entry i ePtr st))" using I(2) by simp
    show "qid (events (delete_entry i ePtr st) a) = 0"
      if "a \<in> snd ` set (eventsTable (delete_entry i ePtr st)) \<union> set (inflight (delete_entry i ePtr st))"
        "a \<notin> set (queue (delete_entry i ePtr st))" for a
    proof -
      have "a \<in> snd ` set (eventsTable st) \<union> set (inflight st)" using that(1) by auto
      from I(3) [OF this] show ?thesis unfolding qid_delete_entry using that(2) by simp
    qed
    show "distinct (map fst (eventsTable (delete_entry i ePtr st)))"
      using I(4) by (simp add: distinct_map_filter)
    show "ev_id (events (delete_entry i ePtr st) a) = j \<and> hPtr (events (delete_entry i ePtr st) a)"
      if "(j, a) \<in> set (eventsTable (delete_entry i ePtr st))" for j a
      using that I(5) [of j a] uniq [of j a] by auto
    show "(ev_id (events (delete_entry i ePtr st) a), a) \<in> set (eventsTable (delete_entry i ePtr st)) \<and>
        \<not> has_flag (events (delete_entry i ePtr st) a) NS_SCHED_PAUSED"
      if "a \<in> set (queue (delete_entry i ePtr st))" for a
      using that I(6) [of a] e(2) uniq by auto
    show "(ev_id (events (delete_entry i ePtr st) a), a) \<in> set (eventsTable (delete_entry i ePtr st))"
      if "a \<in> set (inflight (delete_entry i ePtr st))" "hPtr (events (delete_entry i ePtr st) a)" for a
    proof -
      have "a \<noteq> ePtr" "hPtr (events st a)" using that(2) by (auto split: if_splits)
      then have "(ev_id (events st a), a) \<in> set (eventsTable st)" using I(7) that(1) by simp
      then show ?thesis using uniq \<open>a \<noteq> ePtr\<close> by auto
    qed
    show "a \<notin> set (queue (delete_entry i ePtr st)) \<union> set (inflight (delete_entry i ePtr st)) \<union>
        snd ` set (eventsTable (delete_entry i ePtr st))" if "a \<in> set (freed (delete_entry i ePtr st))" for a
    proof -
      have "a \<notin> set (queue st) \<union> set (inflight st) \<union> snd ` set (eventsTable st)" using I(9) that by simp
      then show ?thesis by auto
    qed
  qed (use I(8) in simp)
qed

lemma FreeEvent_simps [simp]:
  "queue (FreeEvent a st) = queue st" "readyPtr (FreeEvent a st) = readyPtr st"
  "firstEventPtr (FreeEvent a st) = firstEventPtr st" "active (FreeEvent a st) = active st"
  "eventsTable (FreeEvent a st) = eventsTable st" "events (FreeEvent a st) = events st"
  "freed (FreeEvent a st) = a # freed st"
  by (simp_all add: FreeEvent_def Let_def split: option.split)

text \<open>Freeing an event that nothing refers to.\<close>

lemma FreeEvent_inv:
  assumes inv: "sched_inv st" and e: "ePtr \<notin> set (queue st)" "ePtr \<notin> set (inflight st)"
    "ePtr \<notin> snd ` set (eventsTable st)" "ePtr \<notin> set (freed st)"
  shows "sched_inv (FreeEvent ePtr st)"
proof -
  note I = sched_invD [OF inv]
  show ?thesis
  proof (rule sched_invI, unfold FreeEvent_simps)
    show "qids (FreeEvent ePtr st)" using I(1) by (simp add: qids_def)
    show "distinct (ePtr # freed st)" using I(8) e(4) by simp
    show "a \<notin> set (queue st) \<union> set (inflight st) \<union> snd ` set (eventsTable st)" if "a \<in> set (ePtr # freed st)" for a
      using that I(9) [of a] e(1-3) by auto
  qed (fact I(2), erule (1) I(3), fact I(4), erule I(5), erule I(6), erule (1) I(7))
qed

text \<open>Cancelling a queued event removes its entry first and dequeues it then; the result is the same the
  other way round.\<close>

lemma DeQueueEvent_delete_entry:
  assumes inv: "sched_inv st" and e: "(i, ePtr) \<in> set (eventsTable st)" "ePtr \<in> set (queue st)"
    and dq: "DeQueueEvent (qid (events st ePtr)) (delete_entry i ePtr st) = (e', st')"
  shows "e' = ePtr" "sched_inv st'" "ePtr \<notin> set (queue st')" "ePtr \<notin> set (inflight st')"
    "ePtr \<notin> snd ` set (eventsTable st')" "ePtr \<notin> set (freed st')"
proof -
  note I = sched_invD [OF inv]
  let ?st = "delete_entry i ePtr st"
  note pos = qids_position [OF I(1) e(2)]
  have q: "qids ?st" "distinct (queue ?st)" using I(1,2) by simp_all
  have k: "1 \<le> qid (events st ePtr)" "qid (events st ePtr) \<le> length (queue ?st)" using pos by simp_all
  note sp = DeQueueEvent_spec [OF q(1) k dq] and p = DeQueueEvent_parts [OF q k dq]
  note c = core_eqD [OF sp(4)]
  show e': "e' = ePtr" using sp(1) pos by simp
  have id: "ev_id (events st ePtr) = i" using I(5) [OF e(1)] by simp
  have uniq: "a = ePtr \<longleftrightarrow> j = i" if "(j, a) \<in> set (eventsTable st)" for j a
    using that e(1) I(4) I(5) [OF that] id by (metis eq_key_imp_eq_value)
  have out: "ePtr \<notin> set (inflight st)" using I(2) e(2) by auto
  have tab: "eventsTable st' = filter (\<lambda>(j, _). j \<noteq> i) (eventsTable st)" using p(3) by simp
  have infl: "inflight st' = inflight st" using p(5-7) by simp
  have qs: "set (queue st') = set (queue st) - {ePtr}" using p(1) e' by simp
  have fr: "freed st' = freed st" using p(4) by simp
  show "ePtr \<notin> set (queue st')" "ePtr \<notin> set (inflight st')" using qs out by (simp_all add: infl)
  show gone: "ePtr \<notin> snd ` set (eventsTable st')" using uniq [of _ ePtr] by (auto simp: tab)
  show "ePtr \<notin> set (freed st')" using I(9) [of ePtr] e(2) by (auto simp: fr)
  have same: "ev_id (events st' a) = ev_id (events st a)" "has_flag (events st' a) f = has_flag (events st a) f"
    "hPtr (events st' a) = (if a = ePtr then False else hPtr (events st a))" for a f
    using c(1,2,8) [of a] by (simp_all add: has_flag_def)
  show "sched_inv st'"
  proof (rule sched_invI, unfold infl qs fr same(1,2))
    show "qids st'" by (rule sp(2))
    show "distinct (queue st' @ inflight st)" using I(2) p(2) qs by auto
    show "qid (events st' a) = 0"
      if "a \<in> snd ` set (eventsTable st') \<union> set (inflight st)" "a \<notin> set (queue st) - {ePtr}" for a
    proof (cases "a = ePtr")
      case False
      have "a \<in> snd ` set (eventsTable st) \<union> set (inflight st)" using that(1) by (auto simp: tab)
      moreover have "a \<notin> set (queue ?st)" using that(2) False by simp
      ultimately show ?thesis using I(3) [of a] sp(6) False by simp
    qed (use sp(5) e' in simp)
    show "distinct (map fst (eventsTable st'))" using I(4) by (simp add: distinct_map_filter tab)
    show "ev_id (events st a) = j \<and> hPtr (events st' a)" if "(j, a) \<in> set (eventsTable st')" for j a
      using that I(5) [of j a] uniq [of j a] by (simp add: tab same(3))
    show "(ev_id (events st a), a) \<in> set (eventsTable st') \<and> \<not> has_flag (events st a) NS_SCHED_PAUSED"
      if "a \<in> set (queue st) - {ePtr}" for a
      using that I(6) [of a] uniq [of _ a] by (auto simp: tab)
    show "(ev_id (events st a), a) \<in> set (eventsTable st')" if "a \<in> set (inflight st)" "hPtr (events st' a)" for a
    proof -
      have "a \<noteq> ePtr" "hPtr (events st a)" using that(2) by (auto simp: same(3) split: if_splits)
      then show ?thesis using I(7) [OF that(1)] uniq [of _ a] by (auto simp: tab)
    qed
    show "distinct (freed st)" by (rule I(8))
    show "a \<notin> set (queue st) - {ePtr} \<union> set (inflight st) \<union> snd ` set (eventsTable st')" if "a \<in> set (freed st)" for a
      using I(9) [OF that] by (auto simp: tab)
  qed
qed

lemma Ns_Cancel_inv:
  assumes inv: "sched_inv st"
  shows "sched_inv (snd (Ns_Cancel i st))"
proof (cases "\<not> shutdownPending st \<and> map_of (eventsTable st) i \<noteq> None")
  case True
  then obtain ePtr where e: "map_of (eventsTable st) i = Some ePtr" by auto
  then have tab: "(i, ePtr) \<in> set (eventsTable st)" by (rule map_of_SomeD)
  note I = sched_invD [OF inv]
  show ?thesis
  proof (cases "qid (events st ePtr) > 0")
    case pos: True
    have "ePtr \<in> snd ` set (eventsTable st) \<union> set (inflight st)" using tab by force
    then have q: "ePtr \<in> set (queue st)" using I(3) pos by fastforce
    obtain e' st' where dq: "DeQueueEvent (qid (events st ePtr)) (delete_entry i ePtr st) = (e', st')" by fastforce
    note d = DeQueueEvent_delete_entry [OF inv tab q dq]
    have "Ns_Cancel i st = (True, FreeEvent ePtr st')"
      using True e pos dq by (simp add: Ns_Cancel_def)
    then show ?thesis using FreeEvent_inv [OF d(2-6)] by simp
  next
    case False
    then have "ePtr \<notin> set (queue st)" using qids_position [OF I(1)] by fastforce
    then show ?thesis
      using True e False delete_entry_inv(1) [OF inv tab] by (simp add: Ns_Cancel_def)
  qed
qed (use inv in \<open>auto simp: Ns_Cancel_def split: option.split\<close>)

lemma Ns_Pause_inv:
  assumes inv: "sched_inv st"
  shows "sched_inv (snd (Ns_Pause i st))"
proof (cases "\<exists>ePtr. \<not> shutdownPending st \<and> map_of (eventsTable st) i = Some ePtr \<and> \<not> has_flag (events st ePtr) NS_SCHED_PAUSED")
  case True
  then obtain ePtr where e: "\<not> shutdownPending st" "map_of (eventsTable st) i = Some ePtr"
    "\<not> has_flag (events st ePtr) NS_SCHED_PAUSED" by blast
  then have tab: "(i, ePtr) \<in> set (eventsTable st)" by (intro map_of_SomeD)
  note I = sched_invD [OF inv]
  let ?f = "ev_flags_update (\<lambda>f. f OR NS_SCHED_PAUSED)"
  let ?st = "upd_event ePtr ?f st"
  show ?thesis
  proof (cases "qid (events st ePtr) > 0")
    case pos: True
    have "ePtr \<in> snd ` set (eventsTable st) \<union> set (inflight st)" using tab by force
    then have q: "ePtr \<in> set (queue st)" using I(3) pos by fastforce
    note pos = qids_position [OF I(1) q]
    obtain e' st' where dq: "DeQueueEvent (qid (events st ePtr)) ?st = (e', st')" by fastforce
    have qd: "qids ?st" "distinct (queue ?st)" using I(1,2) by (auto simp: qids_iff)
    have k: "1 \<le> qid (events st ePtr)" "qid (events st ePtr) \<le> length (queue ?st)" using pos by simp_all
    note sp = DeQueueEvent_spec [OF qd(1) k dq] and p = DeQueueEvent_parts [OF qd k dq]
    have e': "e' = ePtr" using sp(1) pos by simp
    have same: "ev_id (events st' a) = ev_id (events st a)" "hPtr (events st' a) = hPtr (events st a)" for a
      using core_eqD(1,2) [OF sp(4), of a] by simp_all
    have fl: "has_flag (events st' a) f = has_flag (events st a) f" if "a \<noteq> ePtr" for a f
      using core_eqD(8) [OF sp(4), of a] that by simp
    have parts: "set (queue st') = set (queue st) - {ePtr}" "eventsTable st' = eventsTable st" "freed st' = freed st"
      "inflight st' = inflight st" using p e' by simp_all
    have "sched_inv st'"
    proof (rule sched_invI, unfold parts same)
      show "qids st'" by (rule sp(2))
      show "distinct (queue st' @ inflight st)" using I(2) p(2) parts(1) by auto
      show "qid (events st' a) = 0"
        if "a \<in> snd ` set (eventsTable st) \<union> set (inflight st)" "a \<notin> set (queue st) - {ePtr}" for a
        using I(3) [OF that(1)] that(2) sp(5,6) e' by (cases "a = ePtr") auto
      show "(ev_id (events st a), a) \<in> set (eventsTable st) \<and> \<not> has_flag (events st' a) NS_SCHED_PAUSED"
        if "a \<in> set (queue st) - {ePtr}" for a using I(6) fl that by simp
      show "a \<notin> set (queue st) - {ePtr} \<union> set (inflight st) \<union> snd ` set (eventsTable st)" if "a \<in> set (freed st)" for a
        using I(9) [OF that] by blast
    qed (fact I(4), erule I(5), erule (1) I(7), fact I(8))
    then show ?thesis using e k(1) dq by (simp add: Ns_Pause_def)
  next
    case False
    then have q: "ePtr \<notin> set (queue st)" using qids_position [OF I(1)] by fastforce
    have "sched_inv ?st"
      by (rule same_keys_inv [OF same_keys_upd _ _ inv]) (use q I(2) in auto)
    then show ?thesis using e False by (simp add: Ns_Pause_def)
  qed
qed (use inv in \<open>auto simp: Ns_Pause_def split: option.split\<close>)

text \<open>Updates of an event that is not queued, and handing such an event to a list.\<close>

lemma upd_event_inv:
  assumes "sched_inv st" "a \<notin> set (queue st)"
    and "\<And>e. qid (f e) = qid e" "\<And>e. ev_id (f e) = ev_id e" "\<And>e. hPtr (f e) = hPtr e"
  shows "sched_inv (upd_event a f st)"
  by (rule same_keys_inv [OF same_keys_upd _ _ assms(1)]) (use assms(2-) sched_invD(2) [OF assms(1)] in simp_all)

lemma push_inv:
  assumes inv: "sched_inv st" and e: "ePtr \<notin> set (queue st)" "ePtr \<notin> set (inflight st)" "ePtr \<notin> set (freed st)"
    "qid (events st ePtr) = 0" "hPtr (events st ePtr) \<Longrightarrow> (ev_id (events st ePtr), ePtr) \<in> set (eventsTable st)"
    and st': "queue st' = queue st" "eventsTable st' = eventsTable st" "freed st' = freed st" "events st' = events st"
    and l: "set (inflight st') = insert ePtr (set (inflight st))" "distinct (inflight st')"
  shows "sched_inv st'"
proof -
  note I = sched_invD [OF inv]
  show ?thesis
  proof (rule sched_invI, unfold st' l(1))
    show "qids st'" using I(1) by (simp add: qids_def st')
    show "distinct (queue st @ inflight st')" using I(2) e(1) l by auto
    show "qid (events st a) = 0"
      if "a \<in> snd ` set (eventsTable st) \<union> insert ePtr (set (inflight st))" "a \<notin> set (queue st)" for a
      using that I(3) [of a] e(4) by (cases "a = ePtr") simp_all
    show "(ev_id (events st a), a) \<in> set (eventsTable st)" if "a \<in> insert ePtr (set (inflight st))" "hPtr (events st a)" for a
      using that I(7) [of a] e(5) by (cases "a = ePtr") simp_all
    show "a \<notin> set (queue st) \<union> insert ePtr (set (inflight st)) \<union> snd ` set (eventsTable st)" if "a \<in> set (freed st)" for a
      using I(9) [OF that] e(3) that by auto
  qed (fact I(4), erule I(5), erule I(6), fact I(8))
qed

lemma fire_one_inv:
  assumes inv: "sched_inv st" and ne: "queue st \<noteq> []"
  shows "sched_inv (fire_one now st)"
proof -
  note I = sched_invD [OF inv]
  obtain e st1 where dq: "DeQueueEvent 1 st = (e, st1)" by fastforce
  have k: "1 \<le> (1::nat)" "1 \<le> length (queue st)" using ne by (simp_all add: Suc_le_eq)
  have d: "distinct (queue st)" using I(2) by simp
  note sp = DeQueueEvent_spec [OF I(1) k dq] and p = DeQueueEvent_parts [OF I(1) d k dq]
  have inv1: "sched_inv st1" by (rule DeQueueEvent_inv [OF inv k dq])
  have e1: "e \<notin> set (queue st1)" "e \<notin> set (inflight st1)" "e \<notin> set (freed st1)" "qid (events st1 e) = 0"
    using p I(2) I(9) [of e] sp(5) by auto
  have tab1: "(ev_id (events st1 e), e) \<in> set (eventsTable st1)"
    using I(6) [OF p(8)] p(3) core_eqD(2) [OF sp(4), of e] by simp
  define st2 where "st2 = upd_event e (\<lambda>x. x\<lparr>waslate := is_late now x\<rparr>) st1"
  have inv2: "sched_inv st2" unfolding st2_def by (rule upd_event_inv [OF inv1 e1(1)]) simp_all
  have e2: "e \<notin> set (queue st2)" "e \<notin> set (inflight st2)" "e \<notin> set (freed st2)" "qid (events st2 e) = 0"
    "(ev_id (events st2 e), e) \<in> set (eventsTable st2)"
    using e1 tab1 by (simp_all add: st2_def)
  define st3 where "st3 = (if has_flag (events st2 e) NS_SCHED_ONCE then delete_entry (ev_id (events st2 e)) e st2 else st2)"
  have inv3: "sched_inv st3" unfolding st3_def using delete_entry_inv(1) [OF inv2 e2(5,1)] inv2 by simp
  have e3: "e \<notin> set (queue st3)" "e \<notin> set (inflight st3)" "e \<notin> set (freed st3)" "qid (events st3 e) = 0"
    "hPtr (events st3 e) \<Longrightarrow> (ev_id (events st3 e), e) \<in> set (eventsTable st3)"
    using e2 by (simp_all add: st3_def split: if_splits)
  define st4 where "st4 = upd_event e (lastqueue_update (\<lambda>_. now)) st3"
  have inv4: "sched_inv st4" unfolding st4_def by (rule upd_event_inv [OF inv3 e3(1)]) simp_all
  have e4: "e \<notin> set (queue st4)" "e \<notin> set (inflight st4)" "e \<notin> set (freed st4)" "qid (events st4 e) = 0"
    "hPtr (events st4 e) \<Longrightarrow> (ev_id (events st4 e), e) \<in> set (eventsTable st4)"
    using e3 by (simp_all add: st4_def)
  define st5 where "st5 = upd_event e (\<lambda>x. x\<lparr>ev_flags := ev_flags x OR NS_SCHED_RUNNING, laststart := now\<rparr>) st4"
  have inv5: "sched_inv st5" unfolding st5_def by (rule upd_event_inv [OF inv4 e4(1)]) simp_all
  have r: "fire_one now st = (if has_flag (events st4 e) NS_SCHED_THREAD
      then st5\<lparr>firstEventPtr := e # firstEventPtr st4\<rparr> else st4\<lparr>readyPtr := e # readyPtr st4\<rparr>)"
    unfolding fire_one_def dq Let_def prod.case st2_def [symmetric] st3_def [symmetric] st4_def [symmetric] st5_def ..
  have i4: "distinct (inflight st4)" using sched_invD(2) [OF inv4] by simp
  have "sched_inv (st4\<lparr>readyPtr := e # readyPtr st4\<rparr>)"
    by (rule push_inv [OF inv4 e4]) (use i4 e4(2) in auto)
  moreover have "sched_inv (st5\<lparr>firstEventPtr := e # firstEventPtr st4\<rparr>)"
    by (rule push_inv [OF inv5, of e]) (use i4 e4 in \<open>auto simp: st5_def\<close>)
  ultimately show ?thesis by (simp add: r)
qed

lemma start_inv:
  assumes inv: "sched_inv st"
  shows "sched_inv (start_ready now st)" "sched_inv (start_thread st)"
proof -
  note I = sched_invD [OF inv]
  show "sched_inv (start_ready now st)"
  proof (cases "readyPtr st")
    case (Cons e rest)
    then have q: "e \<notin> set (queue st)" using I(2) by auto
    let ?st = "upd_event e (\<lambda>e. e\<lparr>laststart := now, ev_flags := ev_flags e OR NS_SCHED_RUNNING\<rparr>) st"
    have "sched_inv ?st" by (rule upd_event_inv [OF inv q]) simp_all
    then have "sched_inv (?st\<lparr>readyPtr := rest, active := e # active st\<rparr>)"
      by (rule same_keys_inv [rotated 3]) (use I(2) Cons in \<open>auto simp: same_keys_def\<close>)
    then show ?thesis using Cons by (simp add: start_ready_def)
  qed (use inv in \<open>simp add: start_ready_def\<close>)
  show "sched_inv (start_thread st)"
  proof (cases "firstEventPtr st")
    case (Cons e rest)
    have "sched_inv (st\<lparr>firstEventPtr := rest, active := e # active st, nIdleThreads := nIdleThreads st - 1\<rparr>)"
      by (rule same_keys_inv [OF _ _ _ inv]) (use I(2) Cons in \<open>auto simp: same_keys_def\<close>)
    then show ?thesis using Cons by (simp add: start_thread_def)
  qed (use inv in \<open>simp add: start_thread_def\<close>)
qed

lemma finish_event_inv:
  assumes inv: "sched_inv st" and e: "ePtr \<in> set (active st)"
  shows "sched_inv (finish_event clk now now2 threaded ePtr st)"
proof -
  note I = sched_invD [OF inv]
  define st0 where "st0 = st\<lparr>active := removeAll ePtr (active st)\<rparr>"
  define st1 where "st1 = (if threaded then st0\<lparr>nIdleThreads := nIdleThreads st0 + 1\<rparr> else st0)"
  have s1: "queue st1 = queue st" "eventsTable st1 = eventsTable st" "freed st1 = freed st" "events st1 = events st"
    "readyPtr st1 = readyPtr st" "firstEventPtr st1 = firstEventPtr st" "active st1 = removeAll ePtr (active st)"
    by (simp_all add: st1_def st0_def)
  have inv1: "sched_inv st1"
    by (rule same_keys_inv [OF _ _ _ inv]) (use I(2) in \<open>auto simp: same_keys_def s1 intro: distinct_removeAll\<close>)
  have e1: "ePtr \<notin> set (queue st1)" "ePtr \<notin> set (inflight st1)" "ePtr \<notin> set (freed st1)"
    using e I(2) I(9) [of ePtr] by (auto simp: s1)
  show ?thesis
  proof (cases "hPtr (events st ePtr)")
    case True
    let ?f = "\<lambda>e. e\<lparr>ev_flags := ev_flags e AND NOT NS_SCHED_RUNNING, lastend := now\<rparr>"
    have "sched_inv (upd_event ePtr ?f st1)" by (rule upd_event_inv [OF inv1 e1(1)]) simp_all
    then have "sched_inv (QueueEvent clk now2 ePtr (upd_event ePtr ?f st1))"
      by (rule QueueEvent_inv) (use e1 I(7) [of ePtr] True e in \<open>simp_all add: s1\<close>)
    then show ?thesis using True by (simp add: finish_event_def finish_requeue_def Let_def st0_def [symmetric] st1_def [symmetric] s1)
  next
    case False
    then have "ePtr \<notin> snd ` set (eventsTable st1)" using I(5) by (auto simp: s1)
    then have "sched_inv (FreeEvent ePtr st1)" by (intro FreeEvent_inv [OF inv1 e1(1,2) _ e1(3)])
    then show ?thesis using False by (simp add: finish_event_def Let_def st0_def [symmetric] st1_def [symmetric] s1)
  qed
qed

lemma Ns_Resume_inv:
  assumes inv: "sched_inv st" and idle: "\<And>a. map_of (eventsTable st) i = Some a \<Longrightarrow> a \<notin> set (inflight st)"
  shows "sched_inv (snd (Ns_Resume clk now now2 i st))"
proof (cases "\<exists>ePtr. \<not> shutdownPending st \<and> map_of (eventsTable st) i = Some ePtr \<and> has_flag (events st ePtr) NS_SCHED_PAUSED")
  case True
  then obtain ePtr where e: "\<not> shutdownPending st" "map_of (eventsTable st) i = Some ePtr"
    "has_flag (events st ePtr) NS_SCHED_PAUSED" by blast
  note I = sched_invD [OF inv]
  have tab: "(i, ePtr) \<in> set (eventsTable st)" using e(2) by (rule map_of_SomeD)
  then have id: "ev_id (events st ePtr) = i" using I(5) by blast
  have q: "ePtr \<notin> set (queue st)" using I(6) e(3) by blast
  let ?f = "\<lambda>e. e\<lparr>ev_flags := ev_flags e AND NOT NS_SCHED_PAUSED, scheduled := now\<rparr>"
  have "sched_inv (upd_event ePtr ?f st)" by (rule upd_event_inv [OF inv q]) simp_all
  then have "sched_inv (QueueEvent clk now2 ePtr (upd_event ePtr ?f st))"
    by (rule QueueEvent_inv) (use q idle [OF e(2)] tab id in simp_all)
  then show ?thesis using e by (simp add: Ns_Resume_def)
qed (use inv in \<open>auto simp: Ns_Resume_def split: option.split\<close>)

lemma alloc_id_fresh: "alloc_id fuel table nid = Some (i, nid') \<Longrightarrow> map_of table i = None"
proof (induction fuel table nid rule: alloc_id.induct)
  case (1 fuel table nid)
  then show ?case by (auto simp: alloc_id.simps [of fuel table nid] Let_def split: if_splits nat.splits)
qed

lemma queue_times_qid: "queue_times clk now (e\<lparr>qid := n\<rparr>) = (queue_times clk now e)\<lparr>qid := n\<rparr>"
  by (simp add: queue_times_def Let_def daily_time_def has_flag_def case_prod_unfold)

text \<open>The uninitialised position of a new event does not matter: queueing it sets it.\<close>

lemma QueueEvent_junk_qid:
  assumes "\<not> has_flag (events st ePtr) NS_SCHED_PAUSED"
  shows "QueueEvent clk now ePtr (upd_event ePtr (qid_update (\<lambda>_. n)) st) = QueueEvent clk now ePtr st"
proof -
  have "has_flag (events (upd_event ePtr (qid_update (\<lambda>_. n)) st) ePtr) NS_SCHED_PAUSED = False"
    using assms by (simp add: has_flag_def)
  then show ?thesis
    using assms unfolding QueueEvent_unfold by (simp add: heap_insert_def Let_def upd_event_def queue_times_qid)
qed

lemma Ns_ScheduleProcEx_inv:
  assumes inv: "sched_inv st" and flgs: "flgs AND NS_SCHED_PAUSED = 0"
    and fresh: "ePtr \<notin> set (queue st)" "ePtr \<notin> set (inflight st)" "ePtr \<notin> snd ` set (eventsTable st)"
    and r: "Ns_ScheduleProcEx clk now now2 ePtr jq jl pr a flgs intv cp st = Some (i, st')"
  shows "sched_inv st'"
proof (cases "sec intv < 0 \<or> usec intv < 0 \<or> shutdownPending st")
  case False
  then obtain eid nid where al: "alloc_id (length (eventsTable st)) (eventsTable st) (nextId st) = Some (eid, nid)"
    using r by (auto simp: Ns_ScheduleProcEx_def split: option.splits)
  note I = sched_invD [OF inv]
  define e where "e = \<lparr>hPtr = True, ev_id = eid, qid = jq, nextqueue = mk_time 0 0,
    lastqueue = mk_time (-1) 0, laststart = mk_time (-1) 0, lastend = mk_time (-1) 0,
    interval = intv, scheduled = now, ev_proc = pr, ev_arg = a,
    deleteProc = cp, ev_flags = flgs, waslate = jl\<rparr>"
  define st1 where "st1 = st\<lparr>events := (events st)(ePtr := e), eventsTable := (eid, ePtr) # eventsTable st,
    nextId := nid, freed := removeAll ePtr (freed st)\<rparr>"
  let ?st = "upd_event ePtr (qid_update (\<lambda>_. 0)) st1"
  have st': "st' = QueueEvent clk now2 ePtr st1"
    using r False al by (auto simp: Ns_ScheduleProcEx_def Let_def st1_def e_def)
  have np: "\<not> has_flag (events st1 ePtr) NS_SCHED_PAUSED" using flgs by (simp add: st1_def e_def has_flag_def)
  have parts: "queue ?st = queue st" "eventsTable ?st = (eid, ePtr) # eventsTable st" "inflight ?st = inflight st"
    "freed ?st = removeAll ePtr (freed st)" "events ?st ePtr = e\<lparr>qid := 0\<rparr>"
    by (simp_all add: st1_def)
  have other: "events ?st x = events st x" if "x \<noteq> ePtr" for x using that by (simp add: st1_def)
  have eidnew: "eid \<notin> fst ` set (eventsTable st)" using alloc_id_fresh [OF al] by (simp add: map_of_eq_None_iff)
  have "sched_inv ?st"
  proof (rule sched_invI, unfold parts)
    show "qids ?st" using I(1) fresh(1) other el_in_set by (auto simp: qids_iff parts(1) st1_def)
    show "qid (events ?st x) = 0" if "x \<in> snd ` set ((eid, ePtr) # eventsTable st) \<union> set (inflight st)" "x \<notin> set (queue st)" for x
      using that I(3) [of x] other parts(5) by (cases "x = ePtr") auto
    show "distinct (map fst ((eid, ePtr) # eventsTable st))" using I(4) eidnew by simp
    show "ev_id (events ?st x) = j \<and> hPtr (events ?st x)" if "(j, x) \<in> set ((eid, ePtr) # eventsTable st)" for j x
    proof (cases "x = ePtr")
      case True
      then have "(j, x) \<notin> set (eventsTable st)" using fresh(3) by force
      with that True show ?thesis by (simp add: st1_def e_def)
    next
      case False
      then show ?thesis using that I(5) [of j x] other by auto
    qed
    show "(ev_id (events ?st x), x) \<in> set ((eid, ePtr) # eventsTable st) \<and> \<not> has_flag (events ?st x) NS_SCHED_PAUSED"
      if "x \<in> set (queue st)" for x
      using that I(6) [OF that] fresh(1) other [of x] by (cases "x = ePtr") auto
    show "(ev_id (events ?st x), x) \<in> set ((eid, ePtr) # eventsTable st)" if "x \<in> set (inflight st)" "hPtr (events ?st x)" for x
      using that I(7) [of x] fresh(2) other [of x] by (cases "x = ePtr") auto
    show "distinct (removeAll ePtr (freed st))" using I(8) by (simp add: distinct_removeAll)
    show "x \<notin> set (queue st) \<union> set (inflight st) \<union> snd ` set ((eid, ePtr) # eventsTable st)"
      if "x \<in> set (removeAll ePtr (freed st))" for x
      using that I(9) [of x] by auto
  qed (fact I(2))
  then have "sched_inv (QueueEvent clk now2 ePtr ?st)"
    by (rule QueueEvent_inv) (use fresh in \<open>simp_all add: st1_def e_def\<close>)
  then show ?thesis using QueueEvent_junk_qid [OF np] st' by simp
qed (use inv r in \<open>auto simp: Ns_ScheduleProcEx_def split: if_splits\<close>)

lemma sched_startup_inv:
  assumes inv: "sched_inv st"
  shows "sched_inv (sched_startup now st)"
proof -
  have upd: "same_keys st' (upd_event a (reset_event now) st')" for a st'
    by (rule same_keys_upd) (simp_all add: reset_event_def has_flag_def)
  have fold: "same_keys st (fold (\<lambda>a. upd_event a (reset_event now)) as st) \<and>
      inflight (fold (\<lambda>a. upd_event a (reset_event now)) as st) = inflight st" for as st
  proof (induction as arbitrary: st)
    case (Cons a as)
    then show ?case using upd [of st a] Cons.IH [of "upd_event a (reset_event now) st"] unfolding same_keys_def by simp
  qed (simp add: same_keys_def)
  show ?thesis
    unfolding sched_startup_def
    by (rule same_keys_inv [OF _ _ _ inv]) (use fold sched_invD(2) [OF inv] in auto)
qed

subsection \<open>Times\<close>

lemma Ns_IncrTime_point:
  assumes "time_point t" "0 \<le> s" "0 \<le> u"
  shows "time_point (Ns_IncrTime t s u)" "time_us (Ns_IncrTime t s u) = time_us t + s * 1000000 + u"
proof -
  let ?t = "t\<lparr>sec := sec t + s, usec := usec t + u\<rparr>"
  have n: "0 \<le> sec ?t" "0 \<le> usec ?t" using assms by (auto simp: time_point_def)
  have r: "Ns_IncrTime t s u = (if usec ?t \<ge> 1000000
      then mk_time (sec ?t + usec ?t div 1000000) (usec ?t mod 1000000) else ?t)"
    using assms n by (simp add: Ns_IncrTime_def Ns_AdjTime_def sdiv_nonneg smod_nonneg)
  show "time_point (Ns_IncrTime t s u)" unfolding r using n by (auto simp: time_point_def)
  have "usec ?t div 1000000 * 1000000 + usec ?t mod 1000000 = usec ?t" by simp
  then show "time_us (Ns_IncrTime t s u) = time_us t + s * 1000000 + u"
    unfolding r using n assms by (auto simp: time_us_def time_point_def algebra_simps)
qed

definition clock_ok :: "clock \<Rightarrow> bool" where
  "clock_ok clk \<longleftrightarrow> (\<forall>tp. 0 \<le> fst (snd clk tp))"

definition event_times :: "event \<Rightarrow> bool" where
  "event_times e \<longleftrightarrow> time_point (scheduled e) \<and> 0 \<le> sec (interval e) \<and> 0 \<le> usec (interval e)"

lemma daily_time_point: "clock_ok clk \<Longrightarrow> time_point (daily_time clk e)"
  unfolding clock_ok_def daily_time_def Let_def case_prod_unfold
  by (simp add: time_point_def)

lemma queue_times_point:
  assumes "clock_ok clk" "time_point now" "event_times e"
  shows "time_point (nextqueue (queue_times clk now e))" "event_times (queue_times clk now e)"
  using assms daily_time_point [OF assms(1), of e] Ns_IncrTime_point(1) [of now 0 10000]
    Ns_IncrTime_point(1) [of "scheduled e" "sec (interval e)" "usec (interval e)"]
  by (auto simp: queue_times_def Let_def event_times_def)

text \<open>
  When \<^verbatim>\<open>QueueEvent\<close> computes the next run of an event that is neither daily nor weekly, the
  nominal time advances by exactly one interval from the previous nominal time, so that runs do not
  drift, and the event is queued for that time, or 10 ms from now when it has passed already; it is never
  queued for the past.
\<close>

theorem queue_times_interval:
  assumes "time_point now" "time_point (scheduled e)" "0 \<le> sec (interval e)" "0 \<le> usec (interval e)"
    and "ev_flags e AND (NS_SCHED_DAILY OR NS_SCHED_WEEKLY) = 0" and e': "e' = queue_times clk now e"
  shows "time_us (scheduled e') = time_us (scheduled e) + time_us (interval e) \<and>
    time_us (nextqueue e') = (if time_us now \<le> time_us (scheduled e') then time_us (scheduled e') else time_us now + 10000) \<and>
    time_us now \<le> time_us (nextqueue e')"
proof -
  let ?s = "Ns_IncrTime (scheduled e) (sec (interval e)) (usec (interval e))"
  note s = Ns_IncrTime_point [OF assms(2-4)] and n = Ns_IncrTime_point [OF assms(1), of 0 10000]
  have int: "time_us (interval e) = sec (interval e) * 1000000 + usec (interval e)" using assms(3) by (simp add: time_us_def)
  have "DiffTime ?s now = sgn (time_us ?s - time_us now)"
    using cmp_time_points [OF s(1) assms(1)] by (simp add: DiffTime_def cmp_time_def)
  then have "(DiffTime ?s now = 1 \<or> DiffTime ?s now = 0) \<longleftrightarrow> time_us now \<le> time_us ?s" by (auto simp: sgn_if)
  moreover have "scheduled e' = ?s"
    "nextqueue e' = (if DiffTime ?s now = 1 \<or> DiffTime ?s now = 0 then ?s else Ns_IncrTime now 0 10000)"
    using assms(5) by (simp_all add: e' queue_times_def has_flag_def Let_def)
  ultimately show ?thesis using s(2) n(2) int by simp
qed

theorem queue_times_interval_witness:
  "let e = \<lparr>hPtr = True, ev_id = 1, qid = 0, nextqueue = mk_time 0 0, lastqueue = mk_time (-1) 0,
            laststart = mk_time (-1) 0, lastend = mk_time (-1) 0, interval = mk_time 2 500000,
            scheduled = mk_time 100 700000, ev_proc = 0, ev_arg = 0, deleteProc = None, ev_flags = 0, waslate = False\<rparr>
   in \<forall>clk. time_us (nextqueue (queue_times clk (mk_time 105 0) e)) = 105010000 \<and>
            time_us (scheduled (queue_times clk (mk_time 105 0) e)) = 103200000"
proof -
  let ?e = "\<lparr>hPtr = True, ev_id = 1, qid = 0, nextqueue = mk_time 0 0, lastqueue = mk_time (-1) 0,
            laststart = mk_time (-1) 0, lastend = mk_time (-1) 0, interval = mk_time 2 500000,
            scheduled = mk_time 100 700000, ev_proc = 0, ev_arg = 0, deleteProc = None, ev_flags = 0, waslate = False\<rparr>"
  have "time_us (nextqueue (queue_times clk (mk_time 105 0) ?e)) = 105010000 \<and>
      time_us (scheduled (queue_times clk (mk_time 105 0) ?e)) = 103200000" for clk
    using queue_times_interval [of "mk_time 105 0" ?e _ clk, OF _ _ _ _ _ refl]
    by (simp add: time_point_def) (simp add: time_us_def)
  then show ?thesis by (simp only: Let_def) blast
qed

end
