(* ===== verification/NsSchedRun.thy ===== *)
theory NsSchedRun
  imports NsSched
begin

unbundle bit_operations_syntax

text \<open>
  The scheduler as a state machine: the steps of its operations and threads, the states they reach, and
  the order in which events run. Every reachable state satisfies the invariant of
  \<^verbatim>\<open>NsSched\<close>; as long as no event is cancelled or paused in the middle of the queue, the queue stays
  ordered by time and the scheduler fires exactly the due events.
\<close>

subsection \<open>Order\<close>

abbreviation live :: "sched \<Rightarrow> nat set" where
  "live st \<equiv> snd ` set (eventsTable st) \<union> set (inflight st)"

abbreviation due :: "sched \<Rightarrow> nat \<Rightarrow> int" where
  "due st a \<equiv> time_us (nextqueue (events st a))"

text \<open>The times are well-formed, and the queue is in order unless \<open>mid\<close> allows the opposite.\<close>

definition ordered :: "bool \<Rightarrow> sched \<Rightarrow> bool" where
  "ordered mid st \<longleftrightarrow>
     (\<forall>a\<in>live st. event_times (events st a)) \<and> queue_points st \<and> (mid \<or> heap_sched st)"

lemma ordered_same:
  assumes "ordered mid st" "queue st' = queue st" "live st' \<subseteq> live st"
    and "\<And>a. a \<in> set (queue st) \<Longrightarrow> nextqueue (events st' a) = nextqueue (events st a)"
    and "\<And>a. a \<in> live st \<Longrightarrow> event_times (events st a) \<Longrightarrow> event_times (events st' a)"
  shows "ordered mid st'"
proof -
  have "later st' (el (queue st) (k div 2)) (el (queue st) k) = later st (el (queue st) (k div 2)) (el (queue st) k)"
    if k: "2 \<le> k \<and> k \<le> length (queue st)" for k
  proof -
    have "el (queue st) (k div 2) \<in> set (queue st)" "el (queue st) k \<in> set (queue st)"
      using k by (auto intro!: el_in_set)
    then show ?thesis by (simp add: assms(4))
  qed
  then have "is_heap (later st') (queue st) = is_heap (later st) (queue st)" unfolding is_heap_iff by auto
  moreover have "\<forall>a\<in>live st'. event_times (events st' a)"
    using assms(1,3,5) unfolding ordered_def by blast
  moreover have "queue_points st' = queue_points st"
    using assms(2,4) by (auto simp: queue_points_def list_all_iff)
  ultimately show ?thesis using assms(1) by (simp add: ordered_def heap_sched_def assms(2))
qed

lemma QueueEvent_ordered:
  assumes "ordered mid st" "clock_ok clk" "time_point now" "qids st" "ePtr \<notin> set (queue st)" "ePtr \<in> live st"
  shows "ordered mid (QueueEvent clk now ePtr st)"
proof (cases "has_flag (events st ePtr) NS_SCHED_PAUSED")
  case False
  let ?u = "upd_event ePtr (queue_times clk now) st"
  have ev: "event_times (events st ePtr)" using assms(1,6) by (simp add: ordered_def)
  note qt = queue_times_point [OF assms(2,3) ev]
  have u: "ordered mid ?u"
    by (rule ordered_same [OF assms(1)]) (use assms(5) qt(2) in auto)
  have q: "qids ?u" using assms(4) by (auto simp: qids_iff)
  have e: "ePtr \<notin> set (queue ?u)" using assms(5) by simp
  note sp = heap_insert_spec [OF q e]
  let ?h = "heap_insert ePtr ?u"
  have parts: "live ?h = live ?u" by (subst (1 2 3 4) sp(5)) simp
  have "set (queue ?h) = insert ePtr (set (queue ?u))" using mset_add_set [OF sp(2)] by simp
  moreover have c: "nextqueue (events ?h a) = nextqueue (events ?u a)" "event_times (events ?h a) = event_times (events ?u a)" for a
    using core_eqD(4-6) [OF sp(3), of a] by (simp_all add: event_times_def)
  moreover have "heap_sched ?u \<Longrightarrow> heap_sched ?h"
    by (rule sp(6)) (use u qt(1) in \<open>simp_all add: ordered_def\<close>)
  ultimately have "ordered mid ?h"
    using u qt(1) unfolding ordered_def parts by (auto simp: queue_points_def list_all_iff)
  then have "ordered mid (?h\<lparr>running := True\<rparr>)" by (simp add: ordered_def heap_sched_def queue_points_def)
  then show ?thesis using False by (simp add: QueueEvent_unfold)
qed (use assms(1) in \<open>simp add: QueueEvent_unfold\<close>)

lemma DeQueueEvent_ordered:
  assumes inv: "sched_inv st" and ord: "ordered mid st" and k: "1 \<le> k" "k \<le> length (queue st)" "k = 1 \<or> mid"
    and dq: "DeQueueEvent k st = (ePtr, st')"
  shows "ordered mid st'"
proof -
  note I = sched_invD(1,2) [OF inv]
  have d: "distinct (queue st)" using I(2) by simp
  note sp = DeQueueEvent_spec [OF I(1) k(1,2) dq] and p = DeQueueEvent_parts [OF I(1) d k(1,2) dq]
  note c = core_eqD(4-6) [OF sp(4)]
  have "mid \<or> heap_sched st'"
    using DeQueueEvent_heap [OF I(1) _ _ k(1,2) dq] ord k(3) by (auto simp: ordered_def)
  then show ?thesis using ord p(1) by (auto simp: ordered_def queue_points_def list_all_iff event_times_def c p(3-7))
qed

lemma sched_startup_events:
  "distinct as \<Longrightarrow>
    fold (\<lambda>a. upd_event a (reset_event now)) as st =
      st\<lparr>events := (\<lambda>a. if a \<in> set as then reset_event now (events st a) else events st a)\<rparr>"
proof (induction as arbitrary: st)
  case (Cons x as)
  then show ?case by (simp add: upd_event_def fun_eq_iff)
qed simp

lemma reset_event_point:
  assumes "time_point now" "time_point (nextqueue e)"
  shows "time_point (nextqueue (reset_event now e))"
    "time_us (nextqueue (reset_event now e)) = max (time_us (nextqueue e)) (time_us now)"
  using assms cmp_time_points [OF assms(2,1)]
  by (auto simp: reset_event_def DiffTime_def cmp_time_def sgn_if split: if_splits)

lemma later_points: "time_point (nextqueue (events st x)) \<Longrightarrow> time_point (nextqueue (events st y)) \<Longrightarrow>
    later st x y \<longleftrightarrow> due st y < due st x"
  by (simp add: cmp_time_points)

lemma heap_due:
  assumes "queue_points st"
  shows "heap_sched st \<longleftrightarrow>
    (\<forall>k. 2 \<le> k \<and> k \<le> length (queue st) \<longrightarrow> due st (el (queue st) (k div 2)) \<le> due st (el (queue st) k))"
proof -
  have "later st (el (queue st) (k div 2)) (el (queue st) k) \<longleftrightarrow> due st (el (queue st) k) < due st (el (queue st) (k div 2))"
    if "2 \<le> k" "k \<le> length (queue st)" for k
  proof (rule later_points)
    have "1 \<le> k div 2" "k div 2 \<le> length (queue st)" using that by auto
    then show "time_point (nextqueue (events st (el (queue st) (k div 2))))"
      using assms el_in_set by (auto simp: queue_points_def list_all_iff)
    show "time_point (nextqueue (events st (el (queue st) k)))"
      using assms el_in_set [of k] that by (auto simp: queue_points_def list_all_iff)
  qed
  then show ?thesis unfolding heap_sched_def is_heap_iff by (meson linorder_not_le)
qed

lemma sched_startup_ordered:
  assumes inv: "sched_inv st" and ord: "ordered mid st" and now: "time_point now"
  shows "ordered mid (sched_startup now st)"
proof -
  let ?st = "sched_startup now st"
  have d: "distinct (queue st)" using sched_invD(2) [OF inv] by simp
  have st': "?st = st\<lparr>events := (\<lambda>a. if a \<in> set (queue st) then reset_event now (events st a) else events st a)\<rparr>"
    unfolding sched_startup_def by (rule sched_startup_events [OF d])
  have pts: "time_point (nextqueue (events st a))" if "a \<in> set (queue st)" for a
    using ord that by (simp add: ordered_def queue_points_def list_all_iff)
  have pts': "queue_points ?st" using reset_event_point(1) [OF now] pts by (simp add: queue_points_def list_all_iff st')
  have reset: "event_times (reset_event now e)" if "event_times e" for e
    using that now by (simp add: event_times_def reset_event_def)
  have "due ?st a = max (due st a) (time_us now)" if "a \<in> set (queue st)" for a
    using that reset_event_point(2) [OF now pts [OF that]] by (simp add: st')
  moreover have "el (queue st) (k div 2) \<in> set (queue st)" "el (queue st) k \<in> set (queue st)" if "2 \<le> k" "k \<le> length (queue st)" for k
    using that by (auto intro!: el_in_set)
  ultimately have "heap_sched ?st" if "heap_sched st"
    using that ord unfolding heap_due [OF pts'] by (auto simp: heap_due ordered_def) (simp add: st' max.coboundedI1 max.mono)
  moreover have "\<forall>a\<in>live ?st. event_times (events ?st a)"
  proof
    fix a
    assume "a \<in> live ?st"
    then have "event_times (events st a)" using ord by (simp add: ordered_def st')
    then show "event_times (events ?st a)" using reset by (simp add: st')
  qed
  ultimately show ?thesis using ord pts' by (auto simp: ordered_def)
qed

lemma fire_one_ordered:
  assumes inv: "sched_inv st" and ord: "ordered mid st" and ne: "queue st \<noteq> []"
  shows "ordered mid (fire_one now st)"
proof -
  obtain e st1 where dq: "DeQueueEvent 1 st = (e, st1)" by fastforce
  then have dq': "DeQueueEvent (Suc 0) st = (e, st1)" by simp
  have k: "1 \<le> (1::nat)" "1 \<le> length (queue st)" using ne by (simp_all add: Suc_le_eq)
  note I = sched_invD(1,2,6) [OF inv]
  have d: "distinct (queue st)" using I(2) by simp
  note sp = DeQueueEvent_spec [OF I(1) k dq] and p = DeQueueEvent_parts [OF I(1) d k dq]
  have o1: "ordered mid st1" by (rule DeQueueEvent_ordered [OF inv ord k _ dq]) simp
  have q: "queue (fire_one now st) = queue st1" using dq by (simp add: queue_fire_one)
  have e: "e \<in> live st1" using I(3) [OF p(8)] by (force simp: p(3))
  have lv: "live (fire_one now st) \<subseteq> insert e (live st1)"
    by (auto simp: fire_one_def dq' Let_def)
  show ?thesis
  proof (rule ordered_same [OF o1 q])
    show "live (fire_one now st) \<subseteq> live st1" using lv e by blast
    show "nextqueue (events (fire_one now st) a) = nextqueue (events st1 a)" for a
      by (simp add: fire_one_def dq' Let_def)
    show "event_times (events st1 a) \<Longrightarrow> event_times (events (fire_one now st) a)" for a
      by (auto simp: fire_one_def dq' Let_def event_times_def)
  qed
qed

lemma fire_ready_step:
  assumes "\<And>st. fire_guard now st \<Longrightarrow> P st \<Longrightarrow> P (fire_one now st)" "P st"
  shows "P (fire_ready now st)"
  using assms
proof (induction now st rule: fire_ready.induct)
  case (1 now st)
  then show ?case by (subst fire_ready.simps) simp
qed


lemma Ns_ScheduleProcEx_ordered:
  assumes inv: "sched_inv st" and ord: "ordered mid st"
    and clk: "clock_ok clk" "time_point now" "time_point now2"
    and fresh: "ePtr \<notin> set (queue st)" "ePtr \<notin> live st"
    and r: "Ns_ScheduleProcEx clk now now2 ePtr jq jl pr a flgs intv cp st = Some (i, st')"
  shows "ordered mid st'"
proof (cases "sec intv < 0 \<or> usec intv < 0 \<or> shutdownPending st")
  case False
  then obtain eid nid where al: "alloc_id (length (eventsTable st)) (eventsTable st) (nextId st) = Some (eid, nid)"
    using r by (auto simp: Ns_ScheduleProcEx_def split: option.splits)
  define e where "e = \<lparr>hPtr = True, ev_id = eid, qid = jq, nextqueue = mk_time 0 0,
    lastqueue = mk_time (-1) 0, laststart = mk_time (-1) 0, lastend = mk_time (-1) 0,
    interval = intv, scheduled = now, ev_proc = pr, ev_arg = a,
    deleteProc = cp, ev_flags = flgs, waslate = jl\<rparr>"
  define st0 where "st0 = st\<lparr>events := (events st)(ePtr := e)\<rparr>"
  define st1 where "st1 = st0\<lparr>eventsTable := (eid, ePtr) # eventsTable st,
    nextId := nid, freed := removeAll ePtr (freed st)\<rparr>"
  have st': "st' = QueueEvent clk now2 ePtr st1"
    using r False al by (auto simp: Ns_ScheduleProcEx_def Let_def st1_def st0_def e_def)
  have "ordered mid st0"
    by (rule ordered_same [OF ord]) (use fresh in \<open>auto simp: st0_def\<close>)
  moreover have "event_times e" using False clk(2) by (simp add: event_times_def e_def)
  ultimately have "ordered mid st1"
    by (auto simp: ordered_def queue_points_def heap_sched_def st1_def st0_def)
  moreover have "qids st1" using sched_invD(1) [OF inv] fresh(1) el_in_set by (auto simp: qids_iff st1_def st0_def)
  ultimately show ?thesis
    unfolding st' by (rule QueueEvent_ordered [OF _ clk(1,3)]) (use fresh(1) in \<open>simp_all add: st1_def st0_def\<close>)
qed (use ord r in \<open>auto simp: Ns_ScheduleProcEx_def split: if_splits\<close>)

lemma Ns_Resume_ordered:
  assumes inv: "sched_inv st" and ord: "ordered mid st" and clk: "clock_ok clk" "time_point now" "time_point now2"
  shows "ordered mid (snd (Ns_Resume clk now now2 i st))"
proof (cases "\<exists>ePtr. \<not> shutdownPending st \<and> map_of (eventsTable st) i = Some ePtr \<and> has_flag (events st ePtr) NS_SCHED_PAUSED")
  case True
  then obtain ePtr where e: "\<not> shutdownPending st" "map_of (eventsTable st) i = Some ePtr"
    "has_flag (events st ePtr) NS_SCHED_PAUSED" by blast
  have lv: "ePtr \<in> live st" using map_of_SomeD [OF e(2)] by force
  have q: "ePtr \<notin> set (queue st)" using sched_invD(6) [OF inv] e(3) by blast
  let ?u = "upd_event ePtr (\<lambda>e. e\<lparr>ev_flags := ev_flags e AND NOT NS_SCHED_PAUSED, scheduled := now\<rparr>) st"
  have "ordered mid ?u" by (rule ordered_same [OF ord]) (use q clk(2) in \<open>auto simp: event_times_def\<close>)
  moreover have "qids ?u" using sched_invD(1) [OF inv] by (auto simp: qids_iff)
  ultimately have "ordered mid (QueueEvent clk now2 ePtr ?u)"
    by (rule QueueEvent_ordered [OF _ clk(1,3)]) (use q lv in simp_all)
  then show ?thesis using e by (simp add: Ns_Resume_def)
qed (use ord in \<open>auto simp: Ns_Resume_def split: option.split\<close>)

lemma finish_event_ordered:
  assumes inv: "sched_inv st" and ord: "ordered mid st" and clk: "clock_ok clk" "time_point now2"
    and e: "ePtr \<in> set (active st)"
  shows "ordered mid (finish_event clk now now2 threaded ePtr st)"
proof -
  define st1 where "st1 = (let st = st\<lparr>active := removeAll ePtr (active st)\<rparr>
    in if threaded then st\<lparr>nIdleThreads := nIdleThreads st + 1\<rparr> else st)"
  have s1: "queue st1 = queue st" "eventsTable st1 = eventsTable st" "events st1 = events st"
    "inflight st1 = readyPtr st @ firstEventPtr st @ removeAll ePtr (active st)"
    by (simp_all add: st1_def Let_def)
  have o1: "ordered mid st1" by (rule ordered_same [OF ord]) (auto simp: s1)
  have q: "ePtr \<notin> set (queue st1)" using sched_invD(2) [OF inv] e by (auto simp: s1)
  let ?u = "upd_event ePtr (\<lambda>e. e\<lparr>ev_flags := ev_flags e AND NOT NS_SCHED_RUNNING, lastend := now\<rparr>) st1"
  have r: "finish_event clk now now2 threaded ePtr st =
      (if \<not> hPtr (events st ePtr) then FreeEvent ePtr st1 else QueueEvent clk now2 ePtr ?u)"
    unfolding finish_event_def finish_requeue_def Let_def st1_def by simp
  have "ordered mid (FreeEvent ePtr st1)" by (rule ordered_same [OF o1]) simp_all
  moreover have "ordered mid (QueueEvent clk now2 ePtr ?u)" if h: "hPtr (events st ePtr)"
  proof (rule QueueEvent_ordered [OF _ clk])
    show "ordered mid ?u" by (rule ordered_same [OF o1]) (use q in \<open>auto simp: event_times_def\<close>)
    show "qids ?u" using sched_invD(1) [OF inv] by (auto simp: qids_iff s1)
    have "ePtr \<in> set (inflight st)" using e by simp
    from sched_invD(7) [OF inv this h] show "ePtr \<in> live ?u" by (force simp: s1)
  qed (use q in simp)
  ultimately show ?thesis unfolding r by simp
qed


lemma ordered_True:
  assumes "ordered True st" "set (queue st') \<subseteq> set (queue st)" "live st' \<subseteq> live st"
    and "\<And>a. nextqueue (events st' a) = nextqueue (events st a)"
    and "\<And>a. event_times (events st a) \<Longrightarrow> event_times (events st' a)"
  shows "ordered True st'"
proof -
  have "\<forall>a\<in>live st'. event_times (events st' a)"
    using assms(1,3,5) unfolding ordered_def by blast
  moreover have "queue_points st'" using assms(1,2,4) by (auto simp: ordered_def queue_points_def list_all_iff)
  ultimately show ?thesis by (simp add: ordered_def)
qed

lemma Ns_Cancel_ordered:
  assumes inv: "sched_inv st" and ord: "ordered True st"
  shows "ordered True (snd (Ns_Cancel i st))"
proof (cases "\<exists>ePtr. \<not> shutdownPending st \<and> map_of (eventsTable st) i = Some ePtr")
  case True
  then obtain ePtr where e: "\<not> shutdownPending st" "map_of (eventsTable st) i = Some ePtr" by blast
  have tab: "(i, ePtr) \<in> set (eventsTable st)" using map_of_SomeD [OF e(2)] .
  note I = sched_invD [OF inv]
  let ?d = "delete_entry i ePtr st"
  have od: "ordered True ?d" by (rule ordered_True [OF ord]) (auto simp: event_times_def)
  show ?thesis
  proof (cases "qid (events st ePtr) > 0")
    case pos: True
    have "ePtr \<in> live st" using tab by force
    then have q: "ePtr \<in> set (queue st)" using I(3) pos by fastforce
    obtain e' st' where dq: "DeQueueEvent (qid (events st ePtr)) ?d = (e', st')" by fastforce
    have qd: "qids ?d" "distinct (queue ?d)" using I(1,2) by simp_all
    have k: "1 \<le> qid (events st ePtr)" "qid (events st ePtr) \<le> length (queue ?d)"
      using qids_position [OF I(1) q] by simp_all
    note sp = DeQueueEvent_spec [OF qd(1) k dq] and p = DeQueueEvent_parts [OF qd k dq]
    have "ordered True st'"
      by (rule ordered_True [OF od]) (use p core_eqD(4-6) [OF sp(4)] in \<open>auto simp: event_times_def\<close>)
    then have "ordered True (FreeEvent ePtr st')" by (rule ordered_True) simp_all
    then show ?thesis using e pos dq by (simp add: Ns_Cancel_def)
  next
    case False
    then show ?thesis using e od by (simp add: Ns_Cancel_def)
  qed
qed (use ord in \<open>auto simp: Ns_Cancel_def split: option.split\<close>)

lemma Ns_Pause_ordered:
  assumes inv: "sched_inv st" and ord: "ordered True st"
  shows "ordered True (snd (Ns_Pause i st))"
proof (cases "\<exists>ePtr. \<not> shutdownPending st \<and> map_of (eventsTable st) i = Some ePtr \<and> \<not> has_flag (events st ePtr) NS_SCHED_PAUSED")
  case True
  then obtain ePtr where e: "\<not> shutdownPending st" "map_of (eventsTable st) i = Some ePtr"
    "\<not> has_flag (events st ePtr) NS_SCHED_PAUSED" by blast
  note I = sched_invD [OF inv]
  let ?u = "upd_event ePtr (ev_flags_update (\<lambda>f. f OR NS_SCHED_PAUSED)) st"
  have ou: "ordered True ?u" by (rule ordered_True [OF ord]) (auto simp: event_times_def)
  show ?thesis
  proof (cases "qid (events st ePtr) > 0")
    case pos: True
    have "ePtr \<in> live st" using map_of_SomeD [OF e(2)] by force
    then have q: "ePtr \<in> set (queue st)" using I(3) pos by fastforce
    obtain e' st' where dq: "DeQueueEvent (qid (events st ePtr)) ?u = (e', st')" by fastforce
    have qd: "qids ?u" "distinct (queue ?u)" using I(1,2) by (auto simp: qids_iff)
    have k: "1 \<le> qid (events st ePtr)" "qid (events st ePtr) \<le> length (queue ?u)"
      using qids_position [OF I(1) q] by simp_all
    note sp = DeQueueEvent_spec [OF qd(1) k dq] and p = DeQueueEvent_parts [OF qd k dq]
    have "ordered True st'"
      by (rule ordered_True [OF ou]) (use p core_eqD(4-6) [OF sp(4)] in \<open>auto simp: event_times_def\<close>)
    then show ?thesis using e pos dq by (simp add: Ns_Pause_def)
  next
    case False
    then show ?thesis using e ou by (simp add: Ns_Pause_def)
  qed
qed (use ord in \<open>auto simp: Ns_Pause_def split: option.split\<close>)

subsection \<open>Steps\<close>

text \<open>
  The steps of the scheduler. \<open>mid\<close> marks the two operations that may take an event out of the
  middle of the queue. \<^verbatim>\<open>Ns_ScheduleProcEx\<close> gets an address that is not in use; it is not called
  with \<^verbatim>\<open>NS_SCHED_PAUSED\<close>, which would leave the position of the event uninitialised; and an event
  is resumed only when it is not waiting to run or running.
\<close>

inductive sched_step :: "clock \<Rightarrow> bool \<Rightarrow> sched \<Rightarrow> sched \<Rightarrow> bool" for clk where
  schedule: "Ns_ScheduleProcEx clk now now2 ePtr jq jl pr a flgs intv cp st = Some (i, st') \<Longrightarrow>
    time_point now \<Longrightarrow> time_point now2 \<Longrightarrow> flgs AND NS_SCHED_PAUSED = 0 \<Longrightarrow>
    ePtr \<notin> set (queue st) \<Longrightarrow> ePtr \<notin> live st \<Longrightarrow> sched_step clk False st st'"
| cancel: "sched_step clk True st (snd (Ns_Cancel i st))"
| pause: "sched_step clk True st (snd (Ns_Pause i st))"
| resume: "time_point now \<Longrightarrow> time_point now2 \<Longrightarrow>
    (\<forall>a. map_of (eventsTable st) i = Some a \<longrightarrow> a \<notin> set (inflight st)) \<Longrightarrow>
    sched_step clk False st (snd (Ns_Resume clk now now2 i st))"
| startup: "time_point now \<Longrightarrow> sched_step clk False st (sched_startup now st)"
| fire: "sched_step clk False st (fire_ready now st)"
| dispatch: "sched_step clk False st (dispatch_threads st)"
| run_ready: "sched_step clk False st (start_ready now st)"
| run_thread: "sched_step clk False st (start_thread st)"
| finish: "ePtr \<in> set (active st) \<Longrightarrow> time_point now2 \<Longrightarrow>
    sched_step clk False st (finish_event clk now now2 threaded ePtr st)"
| shutdown: "sched_step clk False st (NsStartSchedShutdown st)"
| cleanup: "shutdownPending st \<Longrightarrow> nThreads st = 0 \<Longrightarrow> inflight st = [] \<Longrightarrow> sched_step clk False st (sched_cleanup st)"

definition sched_init :: "event \<Rightarrow> int \<Rightarrow> sched" where
  "sched_init junk nid = \<lparr>events = (\<lambda>_. junk), queue = [], maxqueue = 0, eventsTable = [], readyPtr = [],
     firstEventPtr = [], active = [], running = False, shutdownPending = False, nextId = nid,
     nThreads = 0, nIdleThreads = 0, freed = [], deleteCalls = []\<rparr>"

inductive sched_reach :: "clock \<Rightarrow> bool \<Rightarrow> sched \<Rightarrow> bool" for clk any where
  init: "sched_reach clk any (sched_init junk 0)"
| step: "sched_reach clk any st \<Longrightarrow> sched_step clk mid st st' \<Longrightarrow> mid \<longrightarrow> any \<Longrightarrow> sched_reach clk any st'"

lemma same_state_inv:
  assumes "sched_inv st" "queue st' = queue st" "eventsTable st' = eventsTable st" "events st' = events st"
    "inflight st' = inflight st" "freed st' = freed st"
  shows "sched_inv st'"
  by (rule same_keys_inv [OF _ _ _ assms(1)]) (use assms sched_invD(2) [OF assms(1)] in \<open>auto simp: same_keys_def\<close>)

lemma FreeEvent_fold:
  "queue (fold FreeEvent as st) = queue st" "eventsTable (fold FreeEvent as st) = eventsTable st"
  "events (fold FreeEvent as st) = events st" "readyPtr (fold FreeEvent as st) = readyPtr st"
  "firstEventPtr (fold FreeEvent as st) = firstEventPtr st" "active (fold FreeEvent as st) = active st"
  "freed (fold FreeEvent as st) = rev as @ freed st"
  by (induction as arbitrary: st) simp_all

lemma sched_cleanup_inv:
  assumes "sched_inv st" "inflight st = []"
  shows "sched_inv (sched_cleanup st)"
proof (rule sched_invI)
  note I = sched_invD [OF assms(1)]
  show "distinct (freed (sched_cleanup st))"
    using I(2) I(8) I(9) by (auto simp: sched_cleanup_def FreeEvent_fold)
qed (use assms(2) in \<open>simp_all add: sched_cleanup_def FreeEvent_fold qids_def\<close>)

lemma sched_step_inv:
  assumes "sched_step clk mid st st'" "sched_inv st"
  shows "sched_inv st'"
  using assms(1)
proof cases
  case schedule
  then show ?thesis by (intro Ns_ScheduleProcEx_inv [OF assms(2)]) auto
next
  case resume
  then show ?thesis using Ns_Resume_inv [OF assms(2)] by blast
next
  case fire
  then show ?thesis
    using fire_ready_step [of _ sched_inv] fire_one_inv assms(2) by (auto simp: fire_guard_def)
next
  case dispatch
  then show ?thesis using same_state_inv [OF assms(2)] by (simp add: dispatch_threads_def)
next
  case shutdown
  then show ?thesis using same_state_inv [OF assms(2)] by (simp add: NsStartSchedShutdown_def)
next
  case finish
  then show ?thesis using finish_event_inv [OF assms(2)] by simp
next
  case cleanup
  then show ?thesis using sched_cleanup_inv [OF assms(2)] by simp
qed (simp_all add: assms(2) Ns_Cancel_inv Ns_Pause_inv sched_startup_inv start_inv)

lemma sched_step_ordered:
  assumes "sched_step clk mid st st'" "sched_inv st" "ordered any st" "mid \<longrightarrow> any" "clock_ok clk"
  shows "ordered any st'"
  using assms(1)
proof cases
  case schedule
  then show ?thesis by (intro Ns_ScheduleProcEx_ordered [OF assms(2,3,5)])
next
  case (fire now)
  have "sched_inv (fire_ready now st) \<and> ordered any (fire_ready now st)"
    by (rule fire_ready_step) (use assms(2,3) fire_one_inv fire_one_ordered in \<open>auto simp: fire_guard_def\<close>)
  then show ?thesis using fire by simp
next
  case (run_ready now)
  show ?thesis unfolding run_ready(2)
    by (rule ordered_same [OF assms(3)]) (auto simp: start_ready_def event_times_def split: list.splits)
next
  case run_thread
  show ?thesis unfolding run_thread(2)
    by (rule ordered_same [OF assms(3)]) (auto simp: start_thread_def event_times_def split: list.splits)
next
  case dispatch
  show ?thesis unfolding dispatch(2)
    by (rule ordered_same [OF assms(3)]) (auto simp: dispatch_threads_def)
next
  case shutdown
  show ?thesis unfolding shutdown(2)
    by (rule ordered_same [OF assms(3)]) (auto simp: NsStartSchedShutdown_def)
next
  case (cancel i)
  then show ?thesis using Ns_Cancel_ordered [OF assms(2)] assms(3,4) by simp
next
  case (pause i)
  then show ?thesis using Ns_Pause_ordered [OF assms(2)] assms(3,4) by simp
next
  case cleanup
  then show ?thesis by (simp add: sched_cleanup_def ordered_def queue_points_def heap_sched_def is_heap_def FreeEvent_fold)
next
  case finish
  then show ?thesis using finish_event_ordered [OF assms(2,3,5)] by simp
next
  case startup
  then show ?thesis using sched_startup_ordered [OF assms(2,3)] by simp
next
  case resume
  then show ?thesis using Ns_Resume_ordered [OF assms(2,3,5)] by simp
qed


lemma sched_init_inv: "sched_inv (sched_init junk nid)" "ordered any (sched_init junk nid)"
  by (simp_all add: sched_init_def sched_inv_def qids_def ordered_def queue_points_def heap_sched_def is_heap_def)

lemma sched_reach_invariants:
  assumes "sched_reach clk any st"
  shows "sched_inv st" "clock_ok clk \<Longrightarrow> ordered any st"
proof -
  show inv: "sched_inv st"
    using assms by (induction rule: sched_reach.induct) (auto intro: sched_init_inv(1) sched_step_inv)
  show "ordered any st" if "clock_ok clk"
    using assms
  proof (induction rule: sched_reach.induct)
    case (step st mid st')
    have "sched_inv st" using step.hyps(1)
      by (induction rule: sched_reach.induct) (auto intro: sched_init_inv(1) sched_step_inv)
    then show ?case using sched_step_ordered [OF step.hyps(2)] step that by blast
  qed (rule sched_init_inv(2))
qed

text \<open>The earliest event is at the root.\<close>

lemma root_earliest:
  assumes "ordered False st" "a \<in> set (queue st)"
  shows "due st (el (queue st) 1) \<le> due st a"
proof -
  obtain k where k: "1 \<le> k" "k \<le> length (queue st)" "el (queue st) k = a" using in_set_el [OF assms(2)] by blast
  have p: "list_all (\<lambda>a. time_point (nextqueue (events st a))) (queue st)" and h: "is_heap (later st) (queue st)"
    using assms(1) by (simp_all add: ordered_def queue_points_def heap_sched_def)
  have "\<not> later st (el (queue st) 1) a" using evheap.heap_root_least [OF h p k(1,2)] k(3) by simp
  moreover have "time_point (nextqueue (events st (el (queue st) 1)))" "time_point (nextqueue (events st a))"
    using p assms(2) el_in_set [of 1 "queue st"] k by (auto simp: list_all_iff)
  ultimately show ?thesis using later_points by auto
qed

lemma fire_guard_due:
  assumes "ordered False st" "time_point now"
  shows "fire_guard now st \<longleftrightarrow> (\<exists>a\<in>set (queue st). due st a \<le> time_us now)"
proof (cases "queue st = []")
  case False
  let ?r = "el (queue st) 1"
  have r: "?r \<in> set (queue st)" using False by (intro el_in_set) (simp_all add: Suc_le_eq)
  then have "time_point (nextqueue (events st ?r))"
    using assms(1) by (simp add: ordered_def queue_points_def list_all_iff)
  then have "DiffTime (nextqueue (events st ?r)) now = sgn (due st ?r - time_us now)"
    using cmp_time_points [OF _ assms(2)] by (simp add: DiffTime_def cmp_time_def)
  then have "fire_guard now st \<longleftrightarrow> due st ?r \<le> time_us now" using False by (simp add: fire_guard_def sgn_if)
  then show ?thesis using r root_earliest [OF assms(1)] by force
qed (simp add: fire_guard_def)

text \<open>One round of the loop.\<close>

lemma fire_one_spec:
  assumes inv: "sched_inv st" and ne: "queue st \<noteq> []"
    and e_def: "e = el (queue st) 1" and st'_def: "st' = fire_one now st"
  shows "e \<in> set (queue st)" "set (queue st') = set (queue st) - {e}"
    "set (readyPtr st') = set (readyPtr st) \<union> (if has_flag (events st e) NS_SCHED_THREAD then {} else {e})"
    "set (firstEventPtr st') = set (firstEventPtr st) \<union> (if has_flag (events st e) NS_SCHED_THREAD then {e} else {})"
    "\<And>a. nextqueue (events st' a) = nextqueue (events st a)"
    "\<And>a. a \<noteq> e \<Longrightarrow> ev_flags (events st' a) = ev_flags (events st a)"
proof -
  obtain x st1 where dq: "DeQueueEvent 1 st = (x, st1)" by fastforce
  then have dq': "DeQueueEvent (Suc 0) st = (x, st1)" by simp
  have k: "1 \<le> (1::nat)" "1 \<le> length (queue st)" using ne by (simp_all add: Suc_le_eq)
  note I = sched_invD(1,2) [OF inv]
  have d: "distinct (queue st)" using I(2) by simp
  note sp = DeQueueEvent_spec [OF I(1) k dq] and p = DeQueueEvent_parts [OF I(1) d k dq]
  have x: "x = e" using sp(1) by (simp add: e_def)
  note c = core_eqD(3,4) [OF sp(4)]
  show "e \<in> set (queue st)" using p(8) x by simp
  show "set (queue st') = set (queue st) - {e}" using dq' p(1) x by (simp add: st'_def queue_fire_one)
  have fl: "has_flag (events st1 e) f = has_flag (events st e) f" for f using c(1) [of e] by (simp add: has_flag_def)
  then show "set (readyPtr st') = set (readyPtr st) \<union> (if has_flag (events st e) NS_SCHED_THREAD then {} else {e})"
    "set (firstEventPtr st') = set (firstEventPtr st) \<union> (if has_flag (events st e) NS_SCHED_THREAD then {e} else {})"
    using p(5,6) x fl [unfolded has_flag_def] by (auto simp: st'_def fire_one_def dq' Let_def has_flag_def)
  show "nextqueue (events st' a) = nextqueue (events st a)" for a
    using c(2) [of a] x by (auto simp: st'_def fire_one_def dq' Let_def)
  show "ev_flags (events st' a) = ev_flags (events st a)" if "a \<noteq> e" for a
    using c(1) [of a] x that by (simp add: st'_def fire_one_def dq' Let_def)
qed


lemma fire_ready_split:
  assumes "sched_inv st" "ordered False st" "time_point now"
  defines "st' \<equiv> fire_ready now st"
  shows "set (queue st') = {a \<in> set (queue st). time_us now < due st a} \<and>
    set (readyPtr st') = set (readyPtr st) \<union>
      {a \<in> set (queue st). due st a \<le> time_us now \<and> \<not> has_flag (events st a) NS_SCHED_THREAD} \<and>
    set (firstEventPtr st') = set (firstEventPtr st) \<union>
      {a \<in> set (queue st). due st a \<le> time_us now \<and> has_flag (events st a) NS_SCHED_THREAD}"
  unfolding st'_def using assms(1-3)
proof (induction now st rule: fire_ready.induct)
  case (1 now st)
  show ?case
  proof (cases "fire_guard now st")
    case False
    then have "\<forall>a\<in>set (queue st). time_us now < due st a"
      using fire_guard_due [OF "1.prems"(2,3)] by (meson linorder_not_le)
    then show ?thesis using False by (subst (1 2 3) fire_ready.simps) force
  next
    case True
    then have ne: "queue st \<noteq> []" by (simp add: fire_guard_def)
    let ?e = "el (queue st) 1" and ?st = "fire_one now st"
    note f = fire_one_spec [OF "1.prems"(1) ne refl refl]
    have due1: "due st ?e \<le> time_us now"
      using True fire_guard_due [OF "1.prems"(2,3)] root_earliest [OF "1.prems"(2)] by force
    have fl: "has_flag (events ?st a) g = has_flag (events st a) g" if "a \<noteq> ?e" for a g
      using f(6) [OF that] by (simp add: has_flag_def)
    note IH = "1.IH" [OF True fire_one_inv [OF "1.prems"(1) ne] fire_one_ordered [OF "1.prems"(1,2) ne] "1.prems"(3)]
    have r: "fire_ready now st = fire_ready now ?st" using True by (subst fire_ready.simps) simp
    have sets: "{a \<in> set (queue ?st). due ?st a \<le> time_us now \<and> has_flag (events ?st a) NS_SCHED_THREAD} =
        {a \<in> set (queue st). a \<noteq> ?e \<and> due st a \<le> time_us now \<and> has_flag (events st a) NS_SCHED_THREAD}"
      "{a \<in> set (queue ?st). due ?st a \<le> time_us now \<and> \<not> has_flag (events ?st a) NS_SCHED_THREAD} =
        {a \<in> set (queue st). a \<noteq> ?e \<and> due st a \<le> time_us now \<and> \<not> has_flag (events st a) NS_SCHED_THREAD}"
      using fl f(2) [of now] unfolding f(5) by (simp_all add: set_eq_iff) blast+
    note IH' = IH [unfolded sets f(3,4)]
    show ?thesis unfolding r IH' [THEN conjunct2, THEN conjunct1] IH' [THEN conjunct2, THEN conjunct2]
      IH' [THEN conjunct1] f(2,5)
      using f(1) due1 by (auto split: if_splits)
  qed
qed

lemma alloc_id_exhausted:
  "alloc_id fuel table nid = None \<Longrightarrow> 0 \<le> nid \<Longrightarrow> nid < 2147483648 \<Longrightarrow> k \<le> fuel \<Longrightarrow>
    (nid + int k) mod 2147483648 \<in> fst ` set table"
proof (induction fuel arbitrary: nid k)
  case 0
  then show ?case by (auto simp: alloc_id.simps [of 0] Let_def map_of_eq_None_iff split: if_splits)
next
  case (Suc f)
  let ?n = "if nid + 1 > 2147483647 then 0 else nid + 1"
  have r: "map_of table nid \<noteq> None" "alloc_id f table ?n = None"
    using Suc.prems(1) by (auto simp: alloc_id.simps [of "Suc f"] Let_def split: if_splits)
  show ?case
  proof (cases k)
    case 0
    then show ?thesis using r(1) Suc.prems(2,3) by (simp add: map_of_eq_None_iff)
  next
    case (Suc k')
    have "(?n + int k') mod 2147483648 \<in> fst ` set table"
      by (rule Suc.IH [OF r(2)]) (use \<open>0 \<le> nid\<close> \<open>k \<le> _\<close> Suc in auto)
    moreover have "(?n + int k') mod 2147483648 = (nid + int k) mod 2147483648"
    proof (cases "nid + 1 > 2147483647")
      case True
      then have "nid = 2147483647" using Suc.prems(3) by simp
      then show ?thesis using Suc by (simp add: mod_add_left_eq [of 2147483648, symmetric])
    qed (use Suc in \<open>simp add: algebra_simps\<close>)
    ultimately show ?thesis by simp
  qed
qed

lemma alloc_id_total:
  assumes "0 \<le> nid" "nid < 2147483648" "length table < 2147483648"
  shows "\<exists>i nid'. alloc_id (length table) table nid = Some (i, nid')"
proof (rule ccontr)
  assume "\<not> ?thesis"
  then have none: "alloc_id (length table) table nid = None" by (cases "alloc_id (length table) table nid") auto
  let ?f = "\<lambda>k. (nid + int k) mod 2147483648"
  have "inj_on ?f {..length table}"
  proof (rule inj_onI)
    fix x y
    assume *: "x \<in> {..length table}" "y \<in> {..length table}" "?f x = ?f y"
    then have "(nid + int x - (nid + int y)) mod 2147483648 = 0" by (metis mod_diff_cong mod_self cancel_comm_monoid_add_class.diff_cancel mod_0)
    then have "(2147483648::int) dvd int x - int y" by (simp add: dvd_eq_mod_eq_0)
    moreover have "\<bar>int x - int y\<bar> < 2147483648" using * assms(3) by auto
    ultimately show "x = y" using zdvd_not_zless [of "\<bar>int x - int y\<bar>" 2147483648] by (cases "x = y") auto
  qed
  then have "card (?f ` {..length table}) = Suc (length table)" by (simp add: card_image)
  moreover have "?f ` {..length table} \<subseteq> fst ` set table" using alloc_id_exhausted [OF none assms(1,2)] by auto
  then have "card (?f ` {..length table}) \<le> card (fst ` set table)" by (intro card_mono) auto
  moreover have "card (fst ` set table) \<le> length table"
    by (metis card_length length_map set_map)
  ultimately show False by simp
qed


lemma eventsTable_swim: "eventsTable (swim_loop k st) = eventsTable st"
proof (induction k st rule: swim_loop.induct)
  case (1 k st)
  then show ?case by (subst swim_loop.simps) (simp add: Exchange_def Let_def)
qed

lemma QueueEvent_table: "eventsTable (QueueEvent clk now e st) = eventsTable st"
  by (simp add: QueueEvent_unfold heap_insert_def Let_def eventsTable_swim)

subsection \<open>Properties\<close>

text \<open>A clock and a few states for the concrete instances.\<close>

definition demo_clock :: clock where
  "demo_clock = ((\<lambda>_. \<lparr>tm_sec = 0, tm_min = 0, tm_hour = 0, tm_mday = 1, tm_mon = 0, tm_year = 0, tm_wday = 0, tm_isdst = 0\<rparr>),
                 (\<lambda>tp. (0, tp)))"

definition demo_event :: event where
  "demo_event = \<lparr>hPtr = False, ev_id = 0, qid = 0, nextqueue = mk_time 0 0, lastqueue = mk_time 0 0,
     laststart = mk_time 0 0, lastend = mk_time 0 0, interval = mk_time 0 0, scheduled = mk_time 0 0,
     ev_proc = 0, ev_arg = 0, deleteProc = None, ev_flags = 0, waslate = False\<rparr>"

definition demo_schedule :: "nat \<Rightarrow> 32 word \<Rightarrow> int \<Rightarrow> sched \<Rightarrow> sched" where
  "demo_schedule ePtr flgs secs st =
     snd (the (Ns_ScheduleProcEx demo_clock (mk_time 100 0) (mk_time 100 0) ePtr 0 False 0 0 flgs (mk_time secs 0) (Some 1) st))"

definition demo_init :: sched where
  "demo_init = sched_init demo_event 0"

definition demo_sched :: "int list \<Rightarrow> sched" where
  "demo_sched secs = fold (\<lambda>(a, s). demo_schedule a 0 s) (enumerate 0 secs) demo_init"

lemma demo_clock_ok: "clock_ok demo_clock"
  by (simp add: clock_ok_def demo_clock_def)

lemma demo_reach:
  assumes "sched_reach demo_clock any st" "0 \<le> nextId st" "nextId st < 2147483648" "length (eventsTable st) < 2147483648"
    and "flgs AND NS_SCHED_PAUSED = 0" "0 \<le> secs" "\<not> shutdownPending st" "ePtr \<notin> set (queue st)" "ePtr \<notin> live st"
  shows "sched_reach demo_clock any (demo_schedule ePtr flgs secs st)"
proof (rule sched_reach.step [OF assms(1)])
  let ?r = "Ns_ScheduleProcEx demo_clock (mk_time 100 0) (mk_time 100 0) ePtr 0 False 0 0 flgs (mk_time secs 0) (Some 1) st"
  obtain i nid' where "alloc_id (length (eventsTable st)) (eventsTable st) (nextId st) = Some (i, nid')"
    using alloc_id_total [OF assms(2-4)] by blast
  then have "?r = Some (i, demo_schedule ePtr flgs secs st)"
    using assms(6,7) by (simp add: demo_schedule_def Ns_ScheduleProcEx_def Let_def)
  then show "sched_step demo_clock False st (demo_schedule ePtr flgs secs st)"
    by (rule sched_step.schedule) (use assms in \<open>simp_all add: time_point_def\<close>)
qed simp

lemma demo_reach1: "sched_reach demo_clock any (demo_schedule 7 0 5 demo_init)"
  unfolding demo_init_def
  by (rule demo_reach [OF sched_reach.init]) (simp_all add: sched_init_def)



text \<open>
  As long as no event is cancelled or paused, \<^verbatim>\<open>DeQueueEvent(1)\<close> takes an event with the
  earliest time of all queued events, leaves the others in the queue, and keeps the queue ordered.
\<close>

theorem DeQueueEvent_earliest:
  assumes "sched_reach clk False st" "clock_ok clk" "queue st \<noteq> []" "DeQueueEvent 1 st = (e, st')"
  shows "e \<in> set (queue st) \<and> (\<forall>a\<in>set (queue st). due st e \<le> due st a) \<and>
    mset (queue st) = add_mset e (mset (queue st')) \<and> heap_sched st'"
proof -
  note inv = sched_reach_invariants(1) [OF assms(1)] and ord = sched_reach_invariants(2) [OF assms(1,2)]
  have k: "1 \<le> (1::nat)" "1 \<le> length (queue st)" using assms(3) by (simp_all add: Suc_le_eq)
  note sp = DeQueueEvent_spec [OF sched_invD(1) [OF inv] k assms(4)]
  have "ordered False st'" by (rule DeQueueEvent_ordered [OF inv ord k _ assms(4)]) simp
  then have "heap_sched st'" by (simp add: ordered_def)
  then show ?thesis using sp(1,3) root_earliest [OF ord] el_in_set [OF k] by auto
qed

theorem DeQueueEvent_earliest_witness:
  "fst (DeQueueEvent 1 (demo_schedule 7 0 5 demo_init)) = 7 \<and> heap_sched (snd (DeQueueEvent 1 (demo_schedule 7 0 5 demo_init)))"
proof -
  let ?st = "demo_schedule 7 0 5 demo_init"
  have q: "queue ?st = [7]" by code_simp
  obtain e st' where dq: "DeQueueEvent 1 ?st = (e, st')" by fastforce
  show ?thesis using DeQueueEvent_earliest [OF demo_reach1 demo_clock_ok _ dq] q dq by simp
qed



text \<open>
  C39. \<^verbatim>\<open>Ns_ScheduleProcEx\<close> returns: when fewer than \<open>2 ^ 31\<close> events are registered, the search
  for an id ends with one that is not in use, after at most as many rounds as there are events; the new event
  is registered under it. Negative intervals and a pending shutdown are answered with an error and no change.
\<close>

theorem Ns_ScheduleProcEx_returns:
  assumes "length (eventsTable st) < 2147483648" "0 \<le> nextId st" "nextId st < 2147483648"
  shows "if sec intv < 0 \<or> usec intv < 0 \<or> shutdownPending st
    then Ns_ScheduleProcEx clk now now2 ePtr jq jl pr a flgs intv cp st = Some (SCHED_NS_ERROR, st)
    else \<exists>i st'. Ns_ScheduleProcEx clk now now2 ePtr jq jl pr a flgs intv cp st = Some (i, st') \<and>
           map_of (eventsTable st) i = None \<and> eventsTable st' = (i, ePtr) # eventsTable st"
proof (cases "sec intv < 0 \<or> usec intv < 0 \<or> shutdownPending st")
  case True
  then show ?thesis by (auto simp: Ns_ScheduleProcEx_def)
next
  case False
  obtain i nid where al: "alloc_id (length (eventsTable st)) (eventsTable st) (nextId st) = Some (i, nid)"
    using alloc_id_total [OF assms(2,3,1)] by blast
  then show ?thesis
    using False alloc_id_fresh [OF al] by (simp add: Ns_ScheduleProcEx_def Let_def QueueEvent_table)
qed

theorem Ns_ScheduleProcEx_returns_witness:
  "\<exists>i st'. Ns_ScheduleProcEx demo_clock (mk_time 1 0) (mk_time 1 0) 8 0 False 0 0 0 (mk_time 5 0) None
      (demo_schedule 7 0 5 demo_init) = Some (i, st') \<and> i \<noteq> 0 \<and> map fst (eventsTable st') = [i, 0]"
proof -
  let ?st = "demo_schedule 7 0 5 demo_init"
  have t: "eventsTable ?st = [(0, 7)]" "nextId ?st = 1" "\<not> shutdownPending ?st" by code_simp+
  show ?thesis
    using Ns_ScheduleProcEx_returns [of ?st "mk_time 5 0" demo_clock "mk_time 1 0" "mk_time 1 0" 8 0 False 0 0 0 None] t
    by (auto split: if_splits)
qed


subsection \<open>Observations\<close>

text \<open>
  \<^verbatim>\<open>DeQueueEvent\<close> only moves the last event down from the freed position. When a cancelled event is in
  the middle of the queue and the last event is earlier than the parent of that position, it stays below that parent:
  the order is lost, and the event runs only after a later one. Here the events are due at 1, 10, 2, 11, 12, 3 and 4
  seconds; when the one at 11 seconds is cancelled, the one at 4 seconds (address 6) ends up below the one at 10.
\<close>

definition demo_queue :: "int list \<Rightarrow> sched" where
  "demo_queue secs = demo_init\<lparr>queue := [0..<length secs], eventsTable := map (\<lambda>a. (int a, a)) [0..<length secs],
     events := (\<lambda>a. demo_event\<lparr>hPtr := True, ev_id := int a, qid := Suc a, nextqueue := mk_time (secs ! a) 0\<rparr>)\<rparr>"

lemma cancel_breaks_order:
  "heap_sched (demo_queue [1, 10, 2, 11, 12, 3, 4])"
  "queue (snd (Ns_Cancel 3 (demo_queue [1, 10, 2, 11, 12, 3, 4]))) = [0, 1, 2, 6, 4, 5]"
  "\<not> heap_sched (snd (Ns_Cancel 3 (demo_queue [1, 10, 2, 11, 12, 3, 4])))"
  by code_simp+

text \<open>A paused event is cancelled without being freed: its entry is gone, \<^verbatim>\<open>Ns_Cancel\<close> reports
  failure, and the cleanup procedure is never called.\<close>

lemma cancel_paused_leaks:
  "fst (Ns_Cancel 0 (snd (Ns_Pause 0 (demo_sched [5])))) = False"
  "eventsTable (snd (Ns_Cancel 0 (snd (Ns_Pause 0 (demo_sched [5]))))) = []"
  "freed (snd (Ns_Cancel 0 (snd (Ns_Pause 0 (demo_sched [5]))))) = []"
  "deleteCalls (snd (Ns_Cancel 0 (snd (Ns_Pause 0 (demo_sched [5]))))) = []"
  by code_simp+

text \<open>An event that is paused and resumed while its procedure runs is queued by
  \<^verbatim>\<open>Ns_Resume\<close> and again when the procedure ends: twice in the queue.\<close>

lemma resume_running_queues_twice:
  "queue (finish_event demo_clock (mk_time 106 0) (mk_time 106 0) False 0
     (snd (Ns_Resume demo_clock (mk_time 105 0) (mk_time 105 0) 0
       (snd (Ns_Pause 0 (start_ready (mk_time 105 0) (fire_ready (mk_time 105 0) (demo_sched [5])))))))) = [0, 0]"
  by code_simp

text \<open>An event that is cancelled after \<^verbatim>\<open>SchedThread\<close> has read \<^verbatim>\<open>hPtr\<close> and before it takes
  the lock is queued again although it is registered no more.\<close>

lemma cancel_before_requeue:
  "queue (finish_requeue demo_clock (mk_time 106 0) (mk_time 106 0) 0
     (snd (Ns_Cancel 0 (start_ready (mk_time 105 0) (fire_ready (mk_time 105 0) (demo_sched [5])))))) = [0]"
  "eventsTable (finish_requeue demo_clock (mk_time 106 0) (mk_time 106 0) 0
     (snd (Ns_Cancel 0 (start_ready (mk_time 105 0) (fire_ready (mk_time 105 0) (demo_sched [5])))))) = []"
  by code_simp+

text \<open>Events that are due together run in the reverse order of their times.\<close>

lemma ready_events_reversed:
  "readyPtr (fire_ready (mk_time 8 0) (demo_queue [5, 6])) = [1, 0]"
  by code_simp

end
