(* ===== verification/NsCache.thy ===== *)
theory NsCache
  imports NsTime "HOL-Library.Word"
begin

text \<open>
  The size-limited caches of \<^verbatim>\<open>nsd/cache.c\<close>. A cache holds its entries in a hash table by key and in a
  doubly linked list by use. The model keeps the links: entries live in a store from addresses to records, with
  \<open>nextPtr\<close> and \<open>prevPtr\<close> as addresses or NULL, and the lemmas show that the links form the list of the
  entries of the table.

  Sizes are \<^verbatim>\<open>size_t\<close>, 64-bit words, whose arithmetic wraps around. \<open>entryOverhead\<close> is
  \<^verbatim>\<open>sizeof(Entry) + sizeof(Tcl_HashEntry)\<close>, which depends on the platform and on Tcl. A value is a pointer;
  the calls of the free procedure are recorded. The table is an association list, whose order stands for the order in
  which \<^verbatim>\<open>Tcl_FirstHashEntry\<close> and \<^verbatim>\<open>Tcl_NextHashEntry\<close> visit it. The current time and the address
  \<^verbatim>\<open>ns_calloc\<close> returns are arguments. The operations run with the lock of the cache held.
\<close>

type_synonym size_t = "64 word"

record entry =
  nextPtr :: "nat option"
  prevPtr :: "nat option"
  hkey :: cstring
  expires :: ns_time
  esize :: size_t
  cost :: int
  reuse :: nat
  cvalue :: "nat option"
  uncommittedValue :: "nat option"
  transactionEpoch :: nat

record cache_stats =
  nhit :: nat
  nmiss :: nat
  nexpired :: nat
  nflushed :: nat
  npruned :: nat
  ncommit :: nat
  nrollback :: nat

record cache =
  cname :: cstring
  entries :: "nat \<Rightarrow> entry"
  firstEntryPtr :: "nat option"
  lastEntryPtr :: "nat option"
  maxSize :: size_t
  currentSize :: size_t
  freeProc :: bool
  entriesTable :: "(cstring \<times> nat) list"
  uncommittedTable :: "nat list"
  stats :: cache_stats
  entryOverhead :: size_t
  freeCalls :: "nat list"
  freedEntries :: "nat list"

definition upd :: "nat \<Rightarrow> (entry \<Rightarrow> entry) \<Rightarrow> cache \<Rightarrow> cache" where
  "upd a f c = c\<lparr>entries := (entries c)(a := f (entries c a))\<rparr>"

definition upd_stats :: "(cache_stats \<Rightarrow> cache_stats) \<Rightarrow> cache \<Rightarrow> cache" where
  "upd_stats f c = c\<lparr>stats := f (stats c)\<rparr>"

definition zero_stats :: cache_stats where
  "zero_stats = \<lparr>nhit = 0, nmiss = 0, nexpired = 0, nflushed = 0, npruned = 0, ncommit = 0, nrollback = 0\<rparr>"

definition Ns_CacheCreateSz :: "(nat \<Rightarrow> entry) \<Rightarrow> size_t \<Rightarrow> cstring \<Rightarrow> size_t \<Rightarrow> bool \<Rightarrow> cache" where
  "Ns_CacheCreateSz heap ovh name maxsz freeP =
     \<lparr>cname = name, entries = heap, firstEntryPtr = None, lastEntryPtr = None, maxSize = maxsz, currentSize = 0,
      freeProc = freeP, entriesTable = [], uncommittedTable = [], stats = zero_stats, entryOverhead = ovh,
      freeCalls = [], freedEntries = []\<rparr>"

subsection \<open>The list of entries\<close>

definition Remove :: "nat \<Rightarrow> cache \<Rightarrow> cache" where
  "Remove ePtr c =
     (let c = (case prevPtr (entries c ePtr) of
                 Some p \<Rightarrow> upd p (nextPtr_update (\<lambda>_. nextPtr (entries c ePtr))) c
               | None \<Rightarrow> c\<lparr>firstEntryPtr := nextPtr (entries c ePtr)\<rparr>);
          c = (case nextPtr (entries c ePtr) of
                 Some n \<Rightarrow> upd n (prevPtr_update (\<lambda>_. prevPtr (entries c ePtr))) c
               | None \<Rightarrow> c\<lparr>lastEntryPtr := prevPtr (entries c ePtr)\<rparr>)
      in upd ePtr (\<lambda>e. e\<lparr>nextPtr := None, prevPtr := None\<rparr>) c)"

definition Push :: "nat \<Rightarrow> cache \<Rightarrow> cache" where
  "Push ePtr c =
     (let c = (case firstEntryPtr c of Some f \<Rightarrow> upd f (prevPtr_update (\<lambda>_. Some ePtr)) c | None \<Rightarrow> c);
          c = upd ePtr (\<lambda>e. e\<lparr>prevPtr := None, nextPtr := firstEntryPtr c\<rparr>) c;
          c = c\<lparr>firstEntryPtr := Some ePtr\<rparr>
      in if lastEntryPtr c = None then c\<lparr>lastEntryPtr := Some ePtr\<rparr> else c)"

subsection \<open>Entries and values\<close>

definition Expired :: "ns_time \<Rightarrow> entry \<Rightarrow> bool" where
  "Expired now e \<longleftrightarrow> sec (expires e) > 0 \<and> fst (Ns_DiffTime (expires e) now) < 0"

definition Ns_CacheGetValueT :: "nat list \<Rightarrow> entry \<Rightarrow> nat option" where
  "Ns_CacheGetValueT stack e =
     (case cvalue e of
        Some v \<Rightarrow> Some v
      | None \<Rightarrow> if transactionEpoch e \<in> set stack then uncommittedValue e else None)"

definition Ns_CacheUnsetValue :: "nat \<Rightarrow> cache \<Rightarrow> cache" where
  "Ns_CacheUnsetValue ePtr c =
     (let e = entries c ePtr
      in if cvalue e \<noteq> None \<or> uncommittedValue e \<noteq> None
         then (let (v, e) = (case cvalue e of
                     Some v \<Rightarrow> (v, e\<lparr>cvalue := None\<rparr>)
                   | None \<Rightarrow> (the (uncommittedValue e), e\<lparr>uncommittedValue := None\<rparr>));
                   c = c\<lparr>currentSize := currentSize c - esize e\<rparr>;
                   c = upd ePtr (\<lambda>_. e\<lparr>esize := 0, expires := mk_time 0 0\<rparr>) c
               in if freeProc c then c\<lparr>freeCalls := freeCalls c @ [v]\<rparr> else c)
         else c)"

definition entry_cost :: "cache \<Rightarrow> cstring \<Rightarrow> size_t" where
  "entry_cost c key = entryOverhead c + of_nat (length key)"

definition Ns_CacheDeleteEntry :: "nat \<Rightarrow> cache \<Rightarrow> cache" where
  "Ns_CacheDeleteEntry ePtr c =
     (let key = hkey (entries c ePtr);
          c = c\<lparr>currentSize := currentSize c - entry_cost c key\<rparr>;
          c = Ns_CacheUnsetValue ePtr c;
          c = Remove ePtr c;
          c = c\<lparr>entriesTable := filter (\<lambda>(k, _). k \<noteq> key) (entriesTable c)\<rparr>;
          c = c\<lparr>uncommittedTable := removeAll ePtr (uncommittedTable c)\<rparr>
      in c\<lparr>freedEntries := ePtr # freedEntries c\<rparr>)"

definition Ns_CacheFlushEntry :: "nat \<Rightarrow> cache \<Rightarrow> cache" where
  "Ns_CacheFlushEntry ePtr c = Ns_CacheDeleteEntry ePtr (upd_stats (nflushed_update Suc) c)"

definition Ns_CacheFindEntryT :: "nat list \<Rightarrow> ns_time \<Rightarrow> cstring \<Rightarrow> cache \<Rightarrow> nat option \<times> cache" where
  "Ns_CacheFindEntryT stack now key c =
     (case map_of (entriesTable c) key of
        None \<Rightarrow> (None, upd_stats (nmiss_update Suc) c)
      | Some ePtr \<Rightarrow>
          if cvalue (entries c ePtr) = None \<and> stack = [] then (None, upd_stats (nmiss_update Suc) c)
          else if Expired now (entries c ePtr)
          then (None, upd_stats (nmiss_update Suc) (Ns_CacheDeleteEntry ePtr c))
          else if Ns_CacheGetValueT stack (entries c ePtr) = None then (None, upd_stats (nmiss_update Suc) c)
          else (Some ePtr, Push ePtr (upd ePtr (reuse_update Suc) (Remove ePtr (upd_stats (nhit_update Suc) c)))))"

definition Ns_CacheCreateEntry :: "nat \<Rightarrow> ns_time \<Rightarrow> cstring \<Rightarrow> cache \<Rightarrow> nat \<times> bool \<times> cache" where
  "Ns_CacheCreateEntry newPtr now key c =
     (case map_of (entriesTable c) key of
        None \<Rightarrow>
          (let e = \<lparr>nextPtr = None, prevPtr = None, hkey = key, expires = mk_time 0 0, esize = 0, cost = 0, reuse = 0,
                    cvalue = None, uncommittedValue = None, transactionEpoch = 0\<rparr>;
               c = c\<lparr>entries := (entries c)(newPtr := e), entriesTable := (key, newPtr) # entriesTable c,
                     currentSize := currentSize c + entry_cost c key, freedEntries := removeAll newPtr (freedEntries c)\<rparr>;
               c = upd_stats (nmiss_update Suc) c
           in (newPtr, True, Push newPtr c))
      | Some ePtr \<Rightarrow>
          (let (isNew, c) =
             (if Expired now (entries c ePtr)
              then (True, Ns_CacheUnsetValue ePtr (upd_stats (nexpired_update Suc) c))
              else (False, upd_stats (nhit_update Suc) (upd ePtr (reuse_update Suc) c)))
           in (ePtr, isNew, Push ePtr (Remove ePtr c))))"

text \<open>The pruning loop. \<open>None\<close>: no end within \<open>fuel\<close> rounds, or an access through NULL.\<close>

fun prune_loop :: "nat \<Rightarrow> size_t \<Rightarrow> nat \<Rightarrow> cache \<Rightarrow> cache option" where
  "prune_loop fuel maxsz ePtr c =
     (if currentSize c > maxsz \<and> lastEntryPtr c \<noteq> Some ePtr
      then (case lastEntryPtr c of
              None \<Rightarrow> None
            | Some l \<Rightarrow>
                if cvalue (entries c l) \<noteq> None
                then (case fuel of
                        0 \<Rightarrow> None
                      | Suc f \<Rightarrow> prune_loop f maxsz ePtr (upd_stats (npruned_update Suc) (Ns_CacheDeleteEntry l c)))
                else Some c)
      else Some c)"

declare prune_loop.simps [simp del]

text \<open>The part of \<^verbatim>\<open>Ns_CacheSetValueExpires\<close> before the pruning.\<close>

definition store_value :: "nat \<Rightarrow> nat option \<Rightarrow> size_t \<Rightarrow> ns_time option \<Rightarrow> int \<Rightarrow> nat \<Rightarrow> cache \<Rightarrow> int \<times> cache" where
  "store_value ePtr v sz timeoutPtr cst epoch c =
     (let c = Ns_CacheUnsetValue ePtr c;
          (result, c) =
            (if epoch = 0 then (0, upd ePtr (cvalue_update (\<lambda>_. v)) c)
             else (1, (upd ePtr (\<lambda>e. e\<lparr>uncommittedValue := v, transactionEpoch := epoch\<rparr>) c)
                        \<lparr>uncommittedTable := List.insert ePtr (uncommittedTable c)\<rparr>));
          c = upd ePtr (\<lambda>e. e\<lparr>esize := sz, cost := cst, reuse := 1\<rparr>) c;
          c = (case timeoutPtr of Some t \<Rightarrow> upd ePtr (expires_update (\<lambda>_. t)) c | None \<Rightarrow> c)
      in (result, c\<lparr>currentSize := currentSize c + sz\<rparr>))"

definition Ns_CacheSetValueExpires ::
  "nat \<Rightarrow> nat option \<Rightarrow> size_t \<Rightarrow> ns_time option \<Rightarrow> int \<Rightarrow> size_t \<Rightarrow> nat \<Rightarrow> cache \<Rightarrow> (int \<times> cache) option" where
  "Ns_CacheSetValueExpires ePtr v sz timeoutPtr cst maxsz epoch c =
     (let (result, c) = store_value ePtr v sz timeoutPtr cst epoch c;
          (maxsz, c) = (if maxsz = 0 then (maxSize c, c) else (maxsz, c\<lparr>maxSize := maxsz\<rparr>))
      in map_option (Pair result)
           (if maxsz > 0 then prune_loop (length (entriesTable c)) maxsz ePtr c else Some c))"

definition Ns_CacheSetValueSz :: "nat \<Rightarrow> nat \<Rightarrow> size_t \<Rightarrow> cache \<Rightarrow> cache option" where
  "Ns_CacheSetValueSz ePtr v sz c = map_option snd (Ns_CacheSetValueExpires ePtr (Some v) sz None 0 0 0 c)"

definition Ns_CacheSetValue :: "nat \<Rightarrow> nat \<Rightarrow> cache \<Rightarrow> cache option" where
  "Ns_CacheSetValue ePtr v c = Ns_CacheSetValueSz ePtr v 0 c"

subsection \<open>Searches, flushing and transactions\<close>

text \<open>The state of a search is the part of the table that is still to be visited.\<close>

fun Ns_CacheNextEntryT :: "nat list \<Rightarrow> ns_time \<Rightarrow> (cstring \<times> nat) list \<Rightarrow> cache \<Rightarrow> nat option \<times> (cstring \<times> nat) list \<times> cache" where
  "Ns_CacheNextEntryT stack now [] c = (None, [], c)"
| "Ns_CacheNextEntryT stack now ((k, a) # rest) c =
     (if Ns_CacheGetValueT stack (entries c a) \<noteq> None
      then (if \<not> Expired now (entries c a) then (Some a, rest, c)
            else Ns_CacheNextEntryT stack now rest (Ns_CacheDeleteEntry a (upd_stats (nexpired_update Suc) c)))
      else Ns_CacheNextEntryT stack now rest c)"

definition Ns_CacheFirstEntryT :: "nat list \<Rightarrow> ns_time \<Rightarrow> cache \<Rightarrow> nat option \<times> (cstring \<times> nat) list \<times> cache" where
  "Ns_CacheFirstEntryT stack now c = Ns_CacheNextEntryT stack now (entriesTable c) c"

lemma NextEntryT_shorter:
  "Ns_CacheNextEntryT stack now search c = (Some a, rest, c') \<Longrightarrow> length rest < length search"
  by (induction stack now search c rule: Ns_CacheNextEntryT.induct) (auto split: if_splits)

function flush_loop :: "ns_time \<Rightarrow> nat \<Rightarrow> nat option \<times> (cstring \<times> nat) list \<times> cache \<Rightarrow> nat \<times> cache" where
  "flush_loop now n (None, search, c) = (n, c)"
| "flush_loop now n (Some a, search, c) =
     flush_loop now (Suc n) (Ns_CacheNextEntryT [] now search (Ns_CacheDeleteEntry a c))"
  by pat_completeness auto
termination
proof (relation "measure (\<lambda>(_, _, r, search, _). case r of None \<Rightarrow> 0 | Some _ \<Rightarrow> Suc (length search))")
  fix now n a search c
  obtain r rest c' where "Ns_CacheNextEntryT [] now search (Ns_CacheDeleteEntry a c) = (r, rest, c')"
    by (cases "Ns_CacheNextEntryT [] now search (Ns_CacheDeleteEntry a c)")
  then show "((now, Suc n, Ns_CacheNextEntryT [] now search (Ns_CacheDeleteEntry a c)), now, n, Some a, search, c)
      \<in> measure (\<lambda>(_, _, r, search, _). case r of None \<Rightarrow> 0 | Some _ \<Rightarrow> Suc (length search))"
    by (auto dest: NextEntryT_shorter split: option.split)
qed simp

definition Ns_CacheFlush :: "ns_time \<Rightarrow> cache \<Rightarrow> nat \<times> cache" where
  "Ns_CacheFlush now c =
     (let (n, c) = flush_loop now 0 (Ns_CacheFirstEntryT [] now c) in (n, upd_stats (nflushed_update Suc) c))"

definition transaction_one :: "nat \<Rightarrow> bool \<Rightarrow> nat \<Rightarrow> nat \<times> cache \<Rightarrow> nat \<times> cache" where
  "transaction_one epoch commit a = (\<lambda>(n, c).
     if cvalue (entries c a) = None \<and> transactionEpoch (entries c a) = epoch
     then (Suc n, if commit
                  then (upd a (\<lambda>e. e\<lparr>cvalue := uncommittedValue e, uncommittedValue := None, transactionEpoch := 0\<rparr>) c)
                         \<lparr>uncommittedTable := removeAll a (uncommittedTable c)\<rparr>
                  else Ns_CacheDeleteEntry a c)
     else (n, c))"

definition CacheTransaction :: "nat \<Rightarrow> bool \<Rightarrow> cache \<Rightarrow> nat \<times> cache" where
  "CacheTransaction epoch commit c = fold (transaction_one epoch commit) (uncommittedTable c) (0, c)"

definition Ns_CacheCommitEntries :: "nat \<Rightarrow> cache \<Rightarrow> nat \<times> cache" where
  "Ns_CacheCommitEntries epoch c =
     (let (n, c) = CacheTransaction epoch True c in (n, upd_stats (ncommit_update (\<lambda>m. m + n)) c))"

definition Ns_CacheRollbackEntries :: "nat \<Rightarrow> cache \<Rightarrow> nat \<times> cache" where
  "Ns_CacheRollbackEntries epoch c =
     (let (n, c) = CacheTransaction epoch False c in (n, upd_stats (nrollback_update (\<lambda>m. m + n)) c))"

definition Ns_CacheSetMaxsize :: "size_t \<Rightarrow> cache \<Rightarrow> size_t \<times> cache" where
  "Ns_CacheSetMaxsize sz c = (maxSize c, c\<lparr>maxSize := sz\<rparr>)"

definition Ns_CacheResetStats :: "cache \<Rightarrow> cache" where
  "Ns_CacheResetStats c = c\<lparr>stats := zero_stats\<rparr>"

text \<open>Waiting for the value of an entry. Each element of \<open>waits\<close> is one return of
  \<^verbatim>\<open>Ns_CacheTimedWait\<close>: whether it was in time, what the other threads made of the cache meanwhile, the
  address and the time for the next try. \<open>None\<close>: the thread still waits.\<close>

fun wait_loop ::
  "cstring \<Rightarrow> nat list \<Rightarrow> (bool \<times> (cache \<Rightarrow> cache) \<times> nat \<times> ns_time) list \<Rightarrow> cache \<Rightarrow> (nat option \<times> bool \<times> cache) option" where
  "wait_loop key stack [] c = None"
| "wait_loop key stack ((ok, others, newPtr, now) # waits) c =
     (let (e, isNew, c) = Ns_CacheCreateEntry newPtr now key (others c)
      in if ok \<and> \<not> isNew \<and> Ns_CacheGetValueT stack (entries c e) = None then wait_loop key stack waits c
         else Some (if ok then Some e else None, isNew, c))"

definition Ns_CacheWaitCreateEntryT ::
  "nat \<Rightarrow> ns_time \<Rightarrow> cstring \<Rightarrow> nat list \<Rightarrow> (bool \<times> (cache \<Rightarrow> cache) \<times> nat \<times> ns_time) list \<Rightarrow> cache \<Rightarrow>
   (nat option \<times> bool \<times> cache) option" where
  "Ns_CacheWaitCreateEntryT newPtr now key stack waits c =
     (let (e, isNew, c) = Ns_CacheCreateEntry newPtr now key c
      in if \<not> isNew \<and> Ns_CacheGetValueT stack (entries c e) = None then wait_loop key stack waits c
         else Some (Some e, isNew, c))"


subsection \<open>The links\<close>

text \<open>A segment of the doubly linked list: the links of the entries \<open>xs\<close>, with \<open>p\<close> before the first and
  \<open>n\<close> after the last of them.\<close>

fun dlseg :: "(nat \<Rightarrow> entry) \<Rightarrow> nat option \<Rightarrow> nat list \<Rightarrow> nat option \<Rightarrow> bool" where
  "dlseg h p [] n \<longleftrightarrow> True"
| "dlseg h p (x # xs) n \<longleftrightarrow>
     prevPtr (h x) = p \<and> nextPtr (h x) = (case xs of [] \<Rightarrow> n | y # _ \<Rightarrow> Some y) \<and> dlseg h (Some x) xs n"

abbreviation head :: "nat list \<Rightarrow> nat option" where
  "head xs \<equiv> (case xs of [] \<Rightarrow> None | x # _ \<Rightarrow> Some x)"

abbreviation tail :: "nat list \<Rightarrow> nat option" where
  "tail xs \<equiv> (if xs = [] then None else Some (last xs))"

definition dll :: "cache \<Rightarrow> nat list \<Rightarrow> bool" where
  "dll c xs \<longleftrightarrow> distinct xs \<and> firstEntryPtr c = head xs \<and> lastEntryPtr c = tail xs \<and> dlseg (entries c) None xs None"

lemma dlseg_frame:
  "(\<And>a. a \<in> set xs \<Longrightarrow> nextPtr (h' a) = nextPtr (h a) \<and> prevPtr (h' a) = prevPtr (h a)) \<Longrightarrow> dlseg h p xs n \<Longrightarrow> dlseg h' p xs n"
  by (induction xs arbitrary: p) auto

lemma dlseg_append:
  "dlseg h p (xs @ ys) n \<longleftrightarrow>
    dlseg h p xs (case ys of [] \<Rightarrow> n | y # _ \<Rightarrow> Some y) \<and> dlseg h (if xs = [] then p else Some (last xs)) ys n"
  by (induction xs arbitrary: p) (auto split: list.splits)

text \<open>Changing the link after the last, or before the first, entry of a segment.\<close>

lemma dlseg_set_last:
  "distinct xs \<Longrightarrow> xs \<noteq> [] \<Longrightarrow> dlseg h p xs n \<Longrightarrow> dlseg (h(last xs := (h (last xs))\<lparr>nextPtr := n'\<rparr>)) p xs n'"
proof (induction xs arbitrary: p)
  case (Cons x xs)
  show ?case
  proof (cases "xs = []")
    case False
    have l: "last (x # xs) = last xs" "x \<noteq> last xs" using Cons.prems(1) False by auto
    have c: "(case xs of [] \<Rightarrow> n' | y # _ \<Rightarrow> Some y) = (case xs of [] \<Rightarrow> n | y # _ \<Rightarrow> Some y)"
      using False by (cases xs) simp_all
    define h' where "h' = h(last xs := (h (last xs))\<lparr>nextPtr := n'\<rparr>)"
    have "dlseg h' (Some x) xs n'"
      unfolding h'_def using Cons.prems False by (intro Cons.IH) auto
    moreover have "h' x = h x" using l(2) by (simp add: h'_def)
    ultimately have "dlseg h' p (x # xs) n'" using Cons.prems(3) c by simp
    then show ?thesis unfolding h'_def l(1) .
  qed (use Cons.prems in simp)
qed simp

lemma dlseg_set_first:
  assumes "distinct (x # xs)" "dlseg h p (x # xs) n"
  shows "dlseg (h(x := (h x)\<lparr>prevPtr := p'\<rparr>)) p' (x # xs) n"
proof -
  have "dlseg (h(x := (h x)\<lparr>prevPtr := p'\<rparr>)) (Some x) xs n"
    by (rule dlseg_frame [of _ _ h]) (use assms in auto)
  then show ?thesis using assms(2) by simp
qed

lemma upd_simps [simp]:
  "firstEntryPtr (upd a f c) = firstEntryPtr c" "lastEntryPtr (upd a f c) = lastEntryPtr c"
  "maxSize (upd a f c) = maxSize c" "currentSize (upd a f c) = currentSize c" "freeProc (upd a f c) = freeProc c"
  "entriesTable (upd a f c) = entriesTable c" "uncommittedTable (upd a f c) = uncommittedTable c"
  "entryOverhead (upd a f c) = entryOverhead c" "freeCalls (upd a f c) = freeCalls c"
  "freedEntries (upd a f c) = freedEntries c" "stats (upd a f c) = stats c"
  "entries (upd a f c) = (entries c)(a := f (entries c a))"
  by (simp_all add: upd_def)

lemma upd_stats_simps [simp]:
  "firstEntryPtr (upd_stats f c) = firstEntryPtr c" "lastEntryPtr (upd_stats f c) = lastEntryPtr c"
  "maxSize (upd_stats f c) = maxSize c" "currentSize (upd_stats f c) = currentSize c"
  "freeProc (upd_stats f c) = freeProc c" "entriesTable (upd_stats f c) = entriesTable c"
  "uncommittedTable (upd_stats f c) = uncommittedTable c" "entryOverhead (upd_stats f c) = entryOverhead c"
  "freeCalls (upd_stats f c) = freeCalls c" "freedEntries (upd_stats f c) = freedEntries c"
  "entries (upd_stats f c) = entries c"
  by (simp_all add: upd_stats_def)

lemma dll_same:
  assumes "dll c xs" "firstEntryPtr c' = firstEntryPtr c" "lastEntryPtr c' = lastEntryPtr c"
    and "\<And>a. a \<in> set xs \<Longrightarrow> nextPtr (entries c' a) = nextPtr (entries c a) \<and> prevPtr (entries c' a) = prevPtr (entries c a)"
  shows "dll c' xs"
  using assms dlseg_frame [of xs "entries c'" "entries c" None None] by (simp add: dll_def)

lemma dll_Push:
  assumes "dll c xs" "a \<notin> set xs"
  shows "dll (Push a c) (a # xs)"
proof (cases xs)
  case Nil
  then show ?thesis using assms by (simp add: dll_def Push_def Let_def)
next
  case (Cons y ys)
  have "dlseg ((entries c)(y := (entries c y)\<lparr>prevPtr := Some a\<rparr>)) (Some a) xs None"
    using assms(1) Cons dlseg_set_first [of y ys "entries c" None None "Some a"] by (simp add: dll_def)
  then have "dlseg ((entries c)(y := (entries c y)\<lparr>prevPtr := Some a\<rparr>, a := e)) (Some a) xs None" for e
    using assms(2) by (auto elim!: dlseg_frame [rotated])
  then show ?thesis using assms Cons by (auto simp: dll_def Push_def Let_def)
qed

lemma dll_Remove:
  assumes "dll c xs" "a \<in> set xs"
  shows "dll (Remove a c) (removeAll a xs)"
proof -
  obtain ys zs where xs: "xs = ys @ a # zs" using assms(2) by (metis split_list)
  have d: "distinct ys" "distinct zs" "a \<notin> set ys" "a \<notin> set zs" "set ys \<inter> set zs = {}"
    using assms(1) xs by (auto simp: dll_def)
  then have r: "removeAll a xs = ys @ zs" using xs by simp
  let ?h = "entries c"
  have seg: "dlseg ?h None ys (Some a)" "prevPtr (?h a) = tail ys" "nextPtr (?h a) = head zs" "dlseg ?h (Some a) zs None"
    using assms(1) xs by (auto simp: dll_def dlseg_append split: list.splits)
  define h1 where "h1 = (case tail ys of None \<Rightarrow> ?h | Some p \<Rightarrow> ?h(p := (?h p)\<lparr>nextPtr := head zs\<rparr>))"
  define h2 where "h2 = (case head zs of None \<Rightarrow> h1 | Some n \<Rightarrow> h1(n := (h1 n)\<lparr>prevPtr := tail ys\<rparr>))"
  define h3 where "h3 = h2(a := (h2 a)\<lparr>nextPtr := None, prevPtr := None\<rparr>)"
  have ylast: "ys \<noteq> [] \<Longrightarrow> last ys \<in> set ys" by simp
  have h1a: "h1 a = ?h a" using d(3) ylast by (auto simp: h1_def)
  have e: "entries (Remove a c) = h3"
    using seg(2,3) h1a unfolding Remove_def Let_def h3_def h2_def h1_def
    by (auto split: list.splits if_splits)
  have y1: "dlseg h1 None ys (head zs)"
    using dlseg_set_last [OF d(1) _ seg(1)] by (cases "ys = []") (auto simp: h1_def)
  have z1: "dlseg h1 (Some a) zs None"
    by (rule dlseg_frame [OF _ seg(4)]) (use d(5) ylast in \<open>fastforce simp: h1_def split: if_splits\<close>)
  have y3: "dlseg h3 None ys (head zs)"
    by (rule dlseg_frame [OF _ y1]) (use d in \<open>auto simp: h3_def h2_def split: list.splits\<close>)
  have "dlseg h2 (tail ys) zs None"
    using z1 d(2) dlseg_set_first [of _ _ h1 "Some a" None "tail ys"] by (cases zs) (auto simp: h2_def)
  then have z3: "dlseg h3 (tail ys) zs None"
    by (rule dlseg_frame [rotated]) (use d(4) in \<open>auto simp: h3_def\<close>)
  have "dlseg h3 None (ys @ zs) None" using y3 z3 by (auto simp: dlseg_append split: list.splits)
  moreover have "firstEntryPtr (Remove a c) = head (ys @ zs)"
    using seg(2,3) assms(1) xs by (cases ys; cases zs) (simp_all add: Remove_def Let_def dll_def)
  moreover have "lastEntryPtr (Remove a c) = tail (ys @ zs)"
    using seg(2,3) h1a assms(1) xs
    by (cases ys rule: rev_cases; cases zs) (simp_all add: Remove_def Let_def dll_def h1_def)
  ultimately show ?thesis using d by (auto simp: dll_def r e)
qed


subsection \<open>The invariant\<close>

definition entry_ok :: "entry \<Rightarrow> bool" where
  "entry_ok e \<longleftrightarrow>
     (cvalue e = None \<or> uncommittedValue e = None) \<and>
     (cvalue e = None \<and> uncommittedValue e = None \<longrightarrow> esize e = 0)"

definition total_size :: "cache \<Rightarrow> size_t" where
  "total_size c = (\<Sum>(k, a)\<leftarrow>entriesTable c. entry_cost c k + esize (entries c a))"

text \<open>Keys and entries correspond one to one; an entry has at most one value, and size 0 without value; the
  uncommitted entries are in the table; the recorded size is the sum of the sizes; nothing in the table is freed.\<close>

definition table_ok :: "cache \<Rightarrow> bool" where
  "table_ok c \<longleftrightarrow>
     distinct (map fst (entriesTable c)) \<and> distinct (map snd (entriesTable c)) \<and>
     (\<forall>(k, a)\<in>set (entriesTable c). hkey (entries c a) = k \<and> entry_ok (entries c a)) \<and>
     distinct (uncommittedTable c) \<and> set (uncommittedTable c) \<subseteq> snd ` set (entriesTable c) \<and>
     currentSize c = total_size c \<and> set (freedEntries c) \<inter> snd ` set (entriesTable c) = {}"

text \<open>The links hold the list \<open>xs\<close>, which consists of the entries of the table.\<close>

definition cache_rep :: "cache \<Rightarrow> nat list \<Rightarrow> bool" where
  "cache_rep c xs \<longleftrightarrow> dll c xs \<and> set xs = snd ` set (entriesTable c) \<and> table_ok c"

lemma sum_list_change:
  fixes g :: "'a \<Rightarrow> 'b::ab_group_add"
  shows "distinct xs \<Longrightarrow> x \<in> set xs \<Longrightarrow> (\<And>y. y \<in> set xs \<Longrightarrow> y \<noteq> x \<Longrightarrow> g' y = g y) \<Longrightarrow>
    sum_list (map g' xs) = sum_list (map g xs) - g x + g' x"
proof (induction xs)
  case (Cons y ys)
  show ?case
  proof (cases "x = y")
    case True
    then have "map g' ys = map g ys" using Cons.prems by auto
    then have "sum_list (map g' ys) = sum_list (map g ys)" by (rule arg_cong)
    then show ?thesis using True by simp
  next
    case False
    then show ?thesis using Cons by simp
  qed
qed simp

lemma sum_list_filter_key:
  fixes g :: "'k \<times> 'a \<Rightarrow> 'b::ab_group_add"
  shows "distinct (map fst xs) \<Longrightarrow> (k, a) \<in> set xs \<Longrightarrow>
    sum_list (map g (filter (\<lambda>(j, _). j \<noteq> k) xs)) = sum_list (map g xs) - g (k, a)"
proof (induction xs)
  case (Cons y ys)
  show ?case
  proof (cases "fst y = k")
    case True
    have "k \<notin> fst ` set ys" using Cons.prems(1) True by auto
    then have "(k, a) \<notin> set ys" by (metis fst_conv imageI)
    then have y: "y = (k, a)" using Cons.prems(2) by simp
    have "filter (\<lambda>(j, _). j \<noteq> k) ys = ys"
      by (rule filter_True) (use \<open>k \<notin> fst ` set ys\<close> in \<open>auto simp: image_iff\<close>)
    then show ?thesis using y by simp
  next
    case False
    then show ?thesis using Cons by (auto simp: case_prod_unfold)
  qed
qed simp

lemma table_ok_D:
  assumes "table_ok c"
  shows "distinct (map fst (entriesTable c))" "distinct (map snd (entriesTable c))"
    "\<And>k a. (k, a) \<in> set (entriesTable c) \<Longrightarrow> hkey (entries c a) = k \<and> entry_ok (entries c a)"
    "distinct (uncommittedTable c)" "set (uncommittedTable c) \<subseteq> snd ` set (entriesTable c)"
    "currentSize c = total_size c" "set (freedEntries c) \<inter> snd ` set (entriesTable c) = {}"
  using assms unfolding table_ok_def by fast+

definition body :: "entry \<Rightarrow> entry" where
  "body e = e\<lparr>nextPtr := None, prevPtr := None\<rparr>"

lemma body_eqD:
  assumes "body e' = body e"
  shows "hkey e' = hkey e" "expires e' = expires e" "esize e' = esize e" "cost e' = cost e" "reuse e' = reuse e"
    "cvalue e' = cvalue e" "uncommittedValue e' = uncommittedValue e" "transactionEpoch e' = transactionEpoch e"
  using assms by (cases e; cases e'; simp add: body_def)+

lemma body_value:
  assumes "body e' = body e"
  shows "Ns_CacheGetValueT stack e' = Ns_CacheGetValueT stack e" "Expired now e' = Expired now e"
  unfolding Ns_CacheGetValueT_def Expired_def body_eqD [OF assms] by simp_all

text \<open>Operations on the links change nothing else.\<close>

definition relinked :: "cache \<Rightarrow> cache \<Rightarrow> bool" where
  "relinked c c' \<longleftrightarrow>
     c' = c\<lparr>entries := entries c', firstEntryPtr := firstEntryPtr c', lastEntryPtr := lastEntryPtr c'\<rparr> \<and>
     (\<forall>a. body (entries c' a) = body (entries c a))"

lemma relinked_Remove: "relinked c (Remove a c)"
  by (cases "prevPtr (entries c a)"; cases "nextPtr (entries c a)")
     (auto simp: relinked_def Remove_def Let_def upd_def body_def)

lemma relinked_Push: "relinked c (Push a c)"
  by (auto simp: relinked_def Push_def Let_def upd_def body_def split: option.split)

lemma relinked_simps:
  assumes "relinked c c'"
  shows "entriesTable c' = entriesTable c" "uncommittedTable c' = uncommittedTable c" "currentSize c' = currentSize c"
    "maxSize c' = maxSize c" "entryOverhead c' = entryOverhead c" "freeCalls c' = freeCalls c"
    "freedEntries c' = freedEntries c" "stats c' = stats c" "freeProc c' = freeProc c"
  by (subst assms [unfolded relinked_def, THEN conjunct1], simp)+

lemmas Remove_simps [simp] = relinked_simps [OF relinked_Remove]
lemmas Push_simps [simp] = relinked_simps [OF relinked_Push]

lemma table_ok_same:
  assumes "table_ok c" "entriesTable c' = entriesTable c" "uncommittedTable c' = uncommittedTable c"
    "currentSize c' = currentSize c" "entryOverhead c' = entryOverhead c" "freedEntries c' = freedEntries c"
    and "\<And>a. a \<in> snd ` set (entriesTable c) \<Longrightarrow> hkey (entries c' a) = hkey (entries c a) \<and> esize (entries c' a) = esize (entries c a) \<and>
      cvalue (entries c' a) = cvalue (entries c a) \<and> uncommittedValue (entries c' a) = uncommittedValue (entries c a)"
  shows "table_ok c'"
proof -
  have "total_size c' = total_size c"
    unfolding total_size_def entry_cost_def assms(2,5)
    by (rule arg_cong [where f = sum_list], rule map_cong [OF refl]) (use assms(7) in force)
  moreover have "entry_ok (entries c' a) = entry_ok (entries c a)" if "a \<in> snd ` set (entriesTable c)" for a
    using assms(7) [OF that] by (simp add: entry_ok_def)
  moreover have "hkey (entries c' a) = k \<and> entry_ok (entries c a)" if "(k, a) \<in> set (entriesTable c)" for k a
  proof -
    have "a \<in> snd ` set (entriesTable c)" using that by force
    then show ?thesis using assms(7) table_ok_D(3) [OF assms(1) that] by simp
  qed
  moreover have "a \<in> snd ` set (entriesTable c)" if "(k, a) \<in> set (entriesTable c)" for k a using that by force
  ultimately have "\<forall>(k, a)\<in>set (entriesTable c). hkey (entries c' a) = k \<and> entry_ok (entries c' a)"
    by blast
  then show ?thesis
    using assms(1) \<open>total_size c' = total_size c\<close> unfolding table_ok_def assms(2-6) by simp
qed

lemma relinked_body: "relinked c c' \<Longrightarrow> body (entries c' a) = body (entries c a)"
  by (simp add: relinked_def)

lemma table_ok_relinked:
  assumes "relinked c c'" "table_ok c"
  shows "table_ok c'"
  by (rule table_ok_same [OF assms(2)])
     (simp_all only: relinked_simps [OF assms(1)] body_eqD [OF relinked_body [OF assms(1)]])

lemma cache_rep_front:
  assumes "cache_rep c xs" "a \<in> set xs"
  shows "cache_rep (Push a (Remove a c)) (a # removeAll a xs)"
proof -
  have "dll (Push a (Remove a c)) (a # removeAll a xs)"
    using assms by (intro dll_Push dll_Remove) (auto simp: cache_rep_def)
  moreover have "table_ok (Push a (Remove a c))"
    using assms table_ok_relinked relinked_Remove relinked_Push by (meson cache_rep_def)
  ultimately show ?thesis using assms by (auto simp: cache_rep_def)
qed


lemma cache_repD:
  assumes "cache_rep c xs"
  shows "dll c xs" "set xs = snd ` set (entriesTable c)" "table_ok c" "distinct xs"
  using assms by (simp_all add: cache_rep_def dll_def)

lemma table_key:
  assumes "cache_rep c xs" "a \<in> set xs"
  shows "(hkey (entries c a), a) \<in> set (entriesTable c)"
proof -
  obtain k where k: "(k, a) \<in> set (entriesTable c)" using assms by (auto simp: cache_rep_def)
  then show ?thesis using table_ok_D(3) [OF cache_repD(3) [OF assms(1)] k] by simp
qed

lemma table_distinct: "table_ok c \<Longrightarrow> distinct (entriesTable c)"
  using table_ok_D(1) distinct_map by blast

text \<open>The size of one entry changes and the recorded size changes with it.\<close>

lemma table_ok_resize:
  assumes "cache_rep c xs" "a \<in> set xs" and e: "hkey e = hkey (entries c a)" "entry_ok e"
    and c': "entriesTable c' = entriesTable c" "set (uncommittedTable c') \<subseteq> insert a (set (uncommittedTable c))"
    "distinct (uncommittedTable c')" "currentSize c' = currentSize c - esize (entries c a) + esize e"
    "entryOverhead c' = entryOverhead c" "freedEntries c' = freedEntries c" "entries c' = (entries c)(a := e)"
  shows "table_ok c'"
proof -
  note rep = cache_repD [OF assms(1)] and T = table_ok_D [OF cache_repD(3) [OF assms(1)]]
  let ?k = "hkey (entries c a)"
  have k: "(?k, a) \<in> set (entriesTable c)" by (rule table_key [OF assms(1,2)])
  have other: "b \<noteq> a \<or> j = ?k" if "(j, b) \<in> set (entriesTable c)" for j b
    using T(3) [OF that] by auto
  have other2: "snd y \<noteq> a" if "y \<in> set (entriesTable c)" "y \<noteq> (?k, a)" for y
    using other [of "fst y" "snd y"] that by (cases y) auto
  let ?g = "\<lambda>(k, b). entry_cost c k + esize (entries c b)" and ?g' = "\<lambda>(k, b). entry_cost c k + esize (entries c' b)"
  have "sum_list (map ?g' (entriesTable c)) = sum_list (map ?g (entriesTable c)) - ?g (?k, a) + ?g' (?k, a)"
    by (rule sum_list_change [OF table_distinct [OF rep(3)] k]) (use other2 c'(7) in \<open>auto simp: case_prod_unfold\<close>)
  then have "total_size c' = total_size c - esize (entries c a) + esize e"
    using c'(7) by (simp add: total_size_def c' entry_cost_def)
  then have sz: "currentSize c' = total_size c'" using T(6) c'(4) by simp
  have "hkey (entries c' b) = j \<and> entry_ok (entries c' b)" if "(j, b) \<in> set (entriesTable c)" for j b
    using T(3) [OF that] e other [OF that] c'(7) by auto
  moreover have "set (uncommittedTable c') \<subseteq> snd ` set (entriesTable c)" using c'(2) T(5) k by force
  ultimately show ?thesis
    using T(1,2,7) sz c'(3) unfolding table_ok_def c'(1,6) by blast
qed

lemma Unset_entries:
  assumes "entry_ok (entries c a)"
  shows "entries (Ns_CacheUnsetValue a c) = (entries c)(a := entries (Ns_CacheUnsetValue a c) a)"
    "cvalue (entries (Ns_CacheUnsetValue a c) a) = None" "uncommittedValue (entries (Ns_CacheUnsetValue a c) a) = None"
    "esize (entries (Ns_CacheUnsetValue a c) a) = 0" "hkey (entries (Ns_CacheUnsetValue a c) a) = hkey (entries c a)"
    "nextPtr (entries (Ns_CacheUnsetValue a c) a) = nextPtr (entries c a)"
    "prevPtr (entries (Ns_CacheUnsetValue a c) a) = prevPtr (entries c a)"
    "transactionEpoch (entries (Ns_CacheUnsetValue a c) a) = transactionEpoch (entries c a)"
    "currentSize (Ns_CacheUnsetValue a c) = currentSize c - esize (entries c a)"
  using assms by (auto simp: Ns_CacheUnsetValue_def Let_def entry_ok_def split: option.splits)

lemma Unset_other [simp]: "b \<noteq> a \<Longrightarrow> entries (Ns_CacheUnsetValue a c) b = entries c b"
  by (auto simp: Ns_CacheUnsetValue_def Let_def split: option.split)

lemma Unset_simps [simp]:
  "entriesTable (Ns_CacheUnsetValue a c) = entriesTable c" "uncommittedTable (Ns_CacheUnsetValue a c) = uncommittedTable c"
  "maxSize (Ns_CacheUnsetValue a c) = maxSize c" "entryOverhead (Ns_CacheUnsetValue a c) = entryOverhead c"
  "freedEntries (Ns_CacheUnsetValue a c) = freedEntries c" "stats (Ns_CacheUnsetValue a c) = stats c"
  "firstEntryPtr (Ns_CacheUnsetValue a c) = firstEntryPtr c" "lastEntryPtr (Ns_CacheUnsetValue a c) = lastEntryPtr c"
  by (auto simp: Ns_CacheUnsetValue_def Let_def split: option.split)

lemma rep_entry_ok: "cache_rep c xs \<Longrightarrow> a \<in> set xs \<Longrightarrow> entry_ok (entries c a)"
  using table_ok_D(3) [OF cache_repD(3) table_key] by blast

lemma Unset_rep:
  assumes "cache_rep c xs" "a \<in> set xs"
  shows "cache_rep (Ns_CacheUnsetValue a c) xs"
proof -
  note ok = rep_entry_ok [OF assms] and rep = cache_repD [OF assms(1)]
  note U = Unset_entries [OF ok]
  have "dll (Ns_CacheUnsetValue a c) xs"
    by (rule dll_same [OF rep(1)]) (simp_all, metis U(6,7) Unset_other)
  moreover have "table_ok (Ns_CacheUnsetValue a c)"
  proof (rule table_ok_resize [OF assms, where e = "entries (Ns_CacheUnsetValue a c) a"])
    show "entries (Ns_CacheUnsetValue a c) = (entries c)(a := entries (Ns_CacheUnsetValue a c) a)" by (rule U(1))
    show "distinct (uncommittedTable (Ns_CacheUnsetValue a c))" using table_ok_D(4) [OF rep(3)] by simp
  qed (use U in \<open>auto simp: entry_ok_def\<close>)
  ultimately show ?thesis using rep(2) by (simp add: cache_rep_def)
qed


lemma Unset_size:
  "entries (Ns_CacheUnsetValue a (c\<lparr>currentSize := s\<rparr>)) = entries (Ns_CacheUnsetValue a c)"
  "freeCalls (Ns_CacheUnsetValue a (c\<lparr>currentSize := s\<rparr>)) = freeCalls (Ns_CacheUnsetValue a c)"
  "freeProc (Ns_CacheUnsetValue a c) = freeProc c"
  by (auto simp: Ns_CacheUnsetValue_def Let_def split: option.split)

lemma Delete_simps:
  "entriesTable (Ns_CacheDeleteEntry a c) = filter (\<lambda>(k, _). k \<noteq> hkey (entries c a)) (entriesTable c)"
  "uncommittedTable (Ns_CacheDeleteEntry a c) = removeAll a (uncommittedTable c)"
  "entryOverhead (Ns_CacheDeleteEntry a c) = entryOverhead c" "maxSize (Ns_CacheDeleteEntry a c) = maxSize c"
  "freedEntries (Ns_CacheDeleteEntry a c) = a # freedEntries c" "stats (Ns_CacheDeleteEntry a c) = stats c"
  "freeCalls (Ns_CacheDeleteEntry a c) = freeCalls (Ns_CacheUnsetValue a c)"
  "body (entries (Ns_CacheDeleteEntry a c) b) = body (entries (Ns_CacheUnsetValue a c) b)"
  "freeProc (Ns_CacheDeleteEntry a c) = freeProc c"
  by (simp_all add: Ns_CacheDeleteEntry_def Let_def Unset_size relinked_body [OF relinked_Remove])

lemma Delete_size: "entry_ok (entries c a) \<Longrightarrow>
    currentSize (Ns_CacheDeleteEntry a c) = currentSize c - entry_cost c (hkey (entries c a)) - esize (entries c a)"
  by (simp add: Ns_CacheDeleteEntry_def Let_def Unset_entries(9))

lemma Delete_dll:
  assumes "dll c xs" "a \<in> set xs" "entry_ok (entries c a)"
  shows "dll (Ns_CacheDeleteEntry a c) (removeAll a xs)"
proof -
  let ?c = "c\<lparr>currentSize := currentSize c - entry_cost c (hkey (entries c a))\<rparr>"
  have "dll (Ns_CacheUnsetValue a ?c) xs"
    by (rule dll_same [OF assms(1)]) (simp_all add: Unset_size(1), metis Unset_entries(6,7) [OF assms(3)] Unset_other)
  then have "dll (Remove a (Ns_CacheUnsetValue a ?c)) (removeAll a xs)" by (rule dll_Remove [OF _ assms(2)])
  then show ?thesis by (rule dll_same) (simp_all add: Ns_CacheDeleteEntry_def Let_def)
qed

lemma Delete_other:
  assumes "b \<noteq> a"
  shows "body (entries (Ns_CacheDeleteEntry a c) b) = body (entries c b)"
  using Delete_simps(8) [of a c b] assms by simp

lemma Delete_rep:
  assumes "cache_rep c xs" "a \<in> set xs"
  shows "cache_rep (Ns_CacheDeleteEntry a c) (removeAll a xs)"
proof -
  let ?c = "Ns_CacheDeleteEntry a c" and ?k = "hkey (entries c a)"
  note rep = cache_repD [OF assms(1)] and T = table_ok_D [OF cache_repD(3) [OF assms(1)]]
  note k = table_key [OF assms] and ok = rep_entry_ok [OF assms]
  have ne: "b \<noteq> a \<longleftrightarrow> j \<noteq> ?k" if "(j, b) \<in> set (entriesTable c)" for j b
    using T(3) [OF that] eq_key_imp_eq_value [OF T(1) that, of a] k by auto
  have snds: "snd ` set (entriesTable ?c) = snd ` set (entriesTable c) - {a}"
    using ne by (force simp: Delete_simps image_iff)
  have same: "hkey (entries ?c b) = hkey (entries c b)" "esize (entries ?c b) = esize (entries c b)"
    "entry_ok (entries ?c b) = entry_ok (entries c b)" if "b \<noteq> a" for b
    using body_eqD [OF Delete_other [OF that]] by (simp_all add: entry_ok_def)
  let ?g = "\<lambda>(k, b). entry_cost c k + esize (entries c b)"
  have "total_size ?c = sum_list (map ?g (entriesTable ?c))"
    unfolding total_size_def entry_cost_def Delete_simps(3)
    by (rule arg_cong [where f = sum_list], rule map_cong [OF refl]) (use same(2) ne in \<open>auto simp: Delete_simps(1)\<close>)
  also have "\<dots> = total_size c - ?g (?k, a)"
    unfolding Delete_simps(1) total_size_def by (rule sum_list_filter_key [OF T(1) k])
  finally have size: "currentSize ?c = total_size ?c" using Delete_size [OF ok] T(6) by simp
  have "table_ok ?c"
    unfolding table_ok_def
  proof (intro conjI)
    show "distinct (map fst (entriesTable ?c))" "distinct (map snd (entriesTable ?c))"
      unfolding Delete_simps using T(1,2) by (simp_all add: distinct_map_filter)
    show "\<forall>(k, b)\<in>set (entriesTable ?c). hkey (entries ?c b) = k \<and> entry_ok (entries ?c b)"
      using same(1,3) ne T(3) by (auto simp: Delete_simps(1))
    show "distinct (uncommittedTable ?c)" using T(4) by (simp add: Delete_simps(2) distinct_removeAll)
    show "set (uncommittedTable ?c) \<subseteq> snd ` set (entriesTable ?c)" using T(5) unfolding snds by (auto simp: Delete_simps(2))
    show "currentSize ?c = total_size ?c" by (rule size)
    show "set (freedEntries ?c) \<inter> snd ` set (entriesTable ?c) = {}" using T(7) unfolding snds by (auto simp: Delete_simps(5))
  qed
  moreover have "set (removeAll a xs) = snd ` set (entriesTable ?c)" unfolding snds using rep(2) by auto
  ultimately show ?thesis using Delete_dll [OF rep(1) assms(2) ok] by (simp add: cache_rep_def)
qed

lemma cache_rep_stats [simp]: "cache_rep (upd_stats f c) xs = cache_rep c xs"
  by (simp add: cache_rep_def dll_def table_ok_def total_size_def entry_cost_def)

lemma cache_rep_body:
  assumes "cache_rep c xs" "\<And>e. hkey (f e) = hkey e" "\<And>e. esize (f e) = esize e" "\<And>e. cvalue (f e) = cvalue e"
    "\<And>e. uncommittedValue (f e) = uncommittedValue e" "\<And>e. nextPtr (f e) = nextPtr e" "\<And>e. prevPtr (f e) = prevPtr e"
  shows "cache_rep (upd a f c) xs"
proof -
  have "dll (upd a f c) xs" by (rule dll_same [OF cache_repD(1) [OF assms(1)]]) (use assms in auto)
  moreover have "table_ok (upd a f c)" by (rule table_ok_same [OF cache_repD(3) [OF assms(1)]]) (use assms in auto)
  ultimately show ?thesis using cache_repD(2) [OF assms(1)] by (simp add: cache_rep_def)
qed


lemma table_address: "cache_rep c xs \<Longrightarrow> map_of (entriesTable c) key = Some a \<Longrightarrow> a \<in> set xs \<and> hkey (entries c a) = key"
  using map_of_SomeD [of "entriesTable c" key a] table_ok_D(3) [OF cache_repD(3)] cache_repD(2) by (metis image_eqI snd_conv)

lemma Remove_upd_reuse: "Push a (upd a (reuse_update Suc) (Remove a c)) = upd a (reuse_update Suc) (Push a (Remove a c))"
  by (rule cache.equality) (auto simp: Push_def Let_def upd_def split: option.split)

lemma Find_rep:
  assumes "cache_rep c xs" "Ns_CacheFindEntryT stack now key c = (r, c')"
  shows "\<exists>xs'. cache_rep c' xs' \<and> (case r of
      None \<Rightarrow> xs' = xs \<or> (\<exists>a. map_of (entriesTable c) key = Some a \<and> Expired now (entries c a) \<and> xs' = removeAll a xs)
    | Some a \<Rightarrow> map_of (entriesTable c) key = Some a \<and> a \<in> set xs \<and> \<not> Expired now (entries c a) \<and>
        Ns_CacheGetValueT stack (entries c a) \<noteq> None \<and> xs' = a # removeAll a xs)"
proof (cases "map_of (entriesTable c) key")
  case None
  then show ?thesis using assms by (auto simp: Ns_CacheFindEntryT_def)
next
  case (Some a)
  have a: "a \<in> set xs" using table_address [OF assms(1) Some] by simp
  have front: "cache_rep (Push a (upd a (reuse_update Suc) (Remove a (upd_stats (nhit_update Suc) c)))) (a # removeAll a xs)"
    unfolding Remove_upd_reuse by (rule cache_rep_body [OF cache_rep_front]) (use assms(1) a in simp_all)
  show ?thesis
    using assms(2) [unfolded Ns_CacheFindEntryT_def Some option.case] assms(1) front Delete_rep [OF assms(1) a] a
    unfolding Some by (auto split: if_splits)
qed

lemma Create_new_rep:
  assumes "cache_rep c xs" "key \<notin> fst ` set (entriesTable c)" "n \<notin> set xs" "hkey e = key" "esize e = 0" "entry_ok e"
  shows "cache_rep (Push n (c\<lparr>entries := (entries c)(n := e), entriesTable := (key, n) # entriesTable c,
      currentSize := currentSize c + entry_cost c key, freedEntries := removeAll n (freedEntries c)\<rparr>)) (n # xs)"
    (is "cache_rep (Push n ?c) _")
proof -
  note rep = cache_repD [OF assms(1)] and T = table_ok_D [OF cache_repD(3) [OF assms(1)]]
  have n: "n \<notin> snd ` set (entriesTable c)" using assms(3) rep(2) by simp
  have "dll ?c xs" by (rule dll_same [OF rep(1)]) (use assms(3) in auto)
  then have "dll (Push n ?c) (n # xs)" by (rule dll_Push [OF _ assms(3)])
  moreover have "table_ok ?c"
    unfolding table_ok_def
  proof (intro conjI)
    have "map (\<lambda>(k, a). entry_cost ?c k + esize (entries ?c a)) (entriesTable c) =
        map (\<lambda>(k, a). entry_cost c k + esize (entries c a)) (entriesTable c)"
      using n by (force simp: entry_cost_def)
    then have "(\<Sum>(k, a)\<leftarrow>entriesTable c. entry_cost ?c k + esize (entries ?c a)) = total_size c"
      unfolding total_size_def by (rule arg_cong)
    then have "total_size ?c = entry_cost c key + total_size c"
      unfolding total_size_def [of ?c] using assms(5) by (simp add: entry_cost_def)
    then show "currentSize ?c = total_size ?c" using T(6) by simp
    show "\<forall>(k, a)\<in>set (entriesTable ?c). hkey (entries ?c a) = k \<and> entry_ok (entries ?c a)"
      using T(3) n assms(4,6) by force
    show "set (freedEntries ?c) \<inter> snd ` set (entriesTable ?c) = {}" using T(7) by auto
  qed (use T assms(2) n in auto)
  then have "table_ok (Push n ?c)" by (rule table_ok_relinked [OF relinked_Push])
  ultimately show ?thesis using rep(2) by (simp add: cache_rep_def)
qed

lemma Create_rep:
  assumes "cache_rep c xs" "n \<notin> set xs" "Ns_CacheCreateEntry n now key c = (a, isNew, c')"
  shows "cache_rep c' (a # removeAll a xs)" "map_of (entriesTable c') key = Some a"
    "map_of (entriesTable c) key = None \<Longrightarrow> a = n \<and> isNew"
    "map_of (entriesTable c) key = Some b \<Longrightarrow> a = b \<and> (isNew \<longleftrightarrow> Expired now (entries c b))"
    "isNew \<Longrightarrow> cvalue (entries c' a) = None \<and> uncommittedValue (entries c' a) = None"
proof -
  show m: "map_of (entriesTable c) key = None \<Longrightarrow> a = n \<and> isNew"
    "map_of (entriesTable c) key = Some b \<Longrightarrow> a = b \<and> (isNew \<longleftrightarrow> Expired now (entries c b))"
    using assms(3) by (auto simp: Ns_CacheCreateEntry_def Let_def split: if_splits)
  have "cache_rep c' (a # removeAll a xs) \<and> map_of (entriesTable c') key = Some a \<and>
    (isNew \<longrightarrow> cvalue (entries c' a) = None \<and> uncommittedValue (entries c' a) = None)"
  proof (cases "map_of (entriesTable c) key")
    case None
    let ?e = "\<lparr>nextPtr = None, prevPtr = None, hkey = key, expires = mk_time 0 0, esize = 0, cost = 0, reuse = 0,
                    cvalue = None, uncommittedValue = None, transactionEpoch = 0\<rparr>"
    let ?c = "(upd_stats (nmiss_update Suc) c)\<lparr>entries := (entries c)(n := ?e), entriesTable := (key, n) # entriesTable c,
      currentSize := currentSize c + entry_cost c key, freedEntries := removeAll n (freedEntries c)\<rparr>"
    have c': "a = n" "c' = Push n ?c"
      using assms(3) None by (cases c; simp add: Ns_CacheCreateEntry_def Let_def upd_stats_def entry_cost_def)+
    have "cache_rep c' (n # xs)"
      unfolding c' using Create_new_rep [of "upd_stats (nmiss_update Suc) c" xs key n ?e] assms(1,2) None
      by (simp add: map_of_eq_None_iff entry_ok_def entry_cost_def)
    moreover have "removeAll a xs = xs" using assms(2) c'(1) by simp
    moreover have "cvalue (entries c' n) = None" "uncommittedValue (entries c' n) = None"
      using body_eqD(6,7) [OF relinked_body [OF relinked_Push, of n ?c n]] by (simp_all add: c'(2))
    ultimately show ?thesis using c' by simp
  next
    case (Some e)
    have e: "e \<in> set xs" using table_address [OF assms(1) Some] by simp
    define c1 where "c1 = (if Expired now (entries c e)
       then Ns_CacheUnsetValue e (upd_stats (nexpired_update Suc) c)
       else upd_stats (nhit_update Suc) (upd e (reuse_update Suc) c))"
    have c': "a = e" "c' = Push e (Remove e c1)" "isNew = Expired now (entries c e)"
      using assms(3) Some by (auto simp: Ns_CacheCreateEntry_def Let_def c1_def split: if_splits)
    have "cache_rep c1 xs"
      unfolding c1_def using Unset_rep [of "upd_stats (nexpired_update Suc) c" xs e] assms(1) e
      by (auto intro: cache_rep_body)
    moreover have "cvalue (entries c1 e) = None \<and> uncommittedValue (entries c1 e) = None" if isNew
      using that Unset_entries(2,3) [of "upd_stats (nexpired_update Suc) c" e] rep_entry_ok [OF assms(1) e]
      by (simp add: c1_def c'(3))
    moreover have "body (entries c' e) = body (entries c1 e)"
      unfolding c'(2) relinked_body [OF relinked_Push] relinked_body [OF relinked_Remove] ..
    moreover have "entriesTable c' = entriesTable c" by (simp add: c'(2) c1_def)
    ultimately show ?thesis
      using cache_rep_front [of c1 xs e] e Some body_eqD(6,7) [of "entries c' e" "entries c1 e"] by (simp add: c'(1,2))
  qed
  then show "cache_rep c' (a # removeAll a xs)" "map_of (entriesTable c') key = Some a"
    "isNew \<Longrightarrow> cvalue (entries c' a) = None \<and> uncommittedValue (entries c' a) = None" by auto
qed


lemma store_value_rep:
  assumes "cache_rep c xs" "a \<in> set xs" "store_value a (Some v) sz t cst epoch c = (r, c')"
  shows "cache_rep c' xs" "Ns_CacheGetValueT [epoch] (entries c' a) = Some v" "r = (if epoch = 0 then 0 else 1)"
    "epoch = 0 \<Longrightarrow> cvalue (entries c' a) = Some v" "b \<noteq> a \<Longrightarrow> entries c' b = entries c b"
    "entriesTable c' = entriesTable c" "maxSize c' = maxSize c" "hkey (entries c' a) = hkey (entries c a)"
    "epoch \<noteq> 0 \<Longrightarrow> cvalue (entries c' a) = None \<and> uncommittedValue (entries c' a) = Some v \<and>
       transactionEpoch (entries c' a) = epoch \<and> a \<in> set (uncommittedTable c')"
    "set (uncommittedTable c') - {a} = set (uncommittedTable c) - {a}"
    "t \<noteq> None \<Longrightarrow> expires (entries c' a) = the t"
proof -
  let ?u = "Ns_CacheUnsetValue a c"
  note rep = Unset_rep [OF assms(1,2)] and U = Unset_entries [OF rep_entry_ok [OF assms(1,2)]]
  let ?e = "entries c' a"
  have c': "r = (if epoch = 0 then 0 else 1)" "entries c' = (entries ?u)(a := ?e)" "entriesTable c' = entriesTable c"
    "uncommittedTable c' = (if epoch = 0 then uncommittedTable c else List.insert a (uncommittedTable c))"
    "currentSize c' = currentSize ?u - esize (entries ?u a) + esize ?e" "entryOverhead c' = entryOverhead ?u"
    "freedEntries c' = freedEntries ?u" "firstEntryPtr c' = firstEntryPtr ?u" "lastEntryPtr c' = lastEntryPtr ?u"
    "hkey ?e = hkey (entries ?u a)" "nextPtr ?e = nextPtr (entries ?u a)" "prevPtr ?e = prevPtr (entries ?u a)"
    "cvalue ?e = (if epoch = 0 then Some v else None)" "uncommittedValue ?e = (if epoch = 0 then None else Some v)"
    "epoch \<noteq> 0 \<Longrightarrow> transactionEpoch ?e = epoch" "maxSize c' = maxSize c" "t \<noteq> None \<Longrightarrow> expires ?e = the t"
    using assms(3) U(2-4) by (auto simp: store_value_def Let_def fun_eq_iff split: if_splits option.splits)
  have "dll c' xs"
    by (rule dll_same [OF cache_repD(1) [OF rep]]) (simp_all add: c'(8,9), metis c'(2,11,12) fun_upd_other)
  moreover have "table_ok c'"
    by (rule table_ok_resize [OF rep assms(2) c'(10) _ _ _ _ c'(5-7,2)])
       (use c' table_ok_D(4) [OF cache_repD(3) [OF assms(1)]] in \<open>auto simp: entry_ok_def\<close>)
  ultimately show "cache_rep c' xs" using cache_repD(2) [OF assms(1)] c'(3) by (simp add: cache_rep_def)
  show "Ns_CacheGetValueT [epoch] (entries c' a) = Some v" using c'(13-15) by (auto simp: Ns_CacheGetValueT_def)
  show "r = (if epoch = 0 then 0 else 1)" "entriesTable c' = entriesTable c" "maxSize c' = maxSize c" by (fact c')+
  show "epoch = 0 \<Longrightarrow> cvalue (entries c' a) = Some v" using c'(13) by simp
  show "b \<noteq> a \<Longrightarrow> entries c' b = entries c b" using fun_cong [OF c'(2), of b] by simp
  show "hkey (entries c' a) = hkey (entries c a)" using c'(10) U(5) by simp
  show "epoch \<noteq> 0 \<Longrightarrow> cvalue (entries c' a) = None \<and> uncommittedValue (entries c' a) = Some v \<and>
       transactionEpoch (entries c' a) = epoch \<and> a \<in> set (uncommittedTable c')" using c' by simp
  show "set (uncommittedTable c') - {a} = set (uncommittedTable c) - {a}" using c'(4) by auto
  show "t \<noteq> None \<Longrightarrow> expires (entries c' a) = the t" by (fact c')
qed

lemma removeAll_last: "distinct (us @ [l]) \<Longrightarrow> removeAll l (us @ [l]) = us"
  by simp

lemma prune_loop_spec:
  "cache_rep c xs \<Longrightarrow> a \<in> set xs \<Longrightarrow> length xs \<le> Suc fuel \<Longrightarrow>
    \<exists>c' ys zs. prune_loop fuel m a c = Some c' \<and> cache_rep c' ys \<and> xs = ys @ zs \<and> a \<in> set ys \<and>
      (currentSize c' \<le> m \<or> last ys = a \<or> cvalue (entries c' (last ys)) = None) \<and>
      (\<forall>b\<in>set ys. body (entries c' b) = body (entries c b)) \<and> (\<forall>b\<in>set zs. cvalue (entries c b) \<noteq> None) \<and>
      maxSize c' = maxSize c \<and> uncommittedTable c' = filter (\<lambda>b. b \<notin> set zs) (uncommittedTable c)"
proof (induction fuel arbitrary: c xs)
  case 0
  then have "xs = [a]" by (cases xs) auto
  then have "lastEntryPtr c = Some a" using cache_repD(1) [OF "0.prems"(1)] by (simp add: dll_def)
  then have "prune_loop 0 m a c = Some c" by (simp add: prune_loop.simps)
  then show ?case using "0.prems" \<open>xs = [a]\<close> by force
next
  case (Suc fuel)
  obtain us l where xs: "xs = us @ [l]" using Suc.prems(2) by (cases xs rule: rev_cases) auto
  have last: "lastEntryPtr c = Some l" using cache_repD(1) [OF Suc.prems(1)] by (simp add: dll_def xs)
  show ?case
  proof (cases "currentSize c > m \<and> l \<noteq> a \<and> cvalue (entries c l) \<noteq> None")
    case True
    let ?c = "upd_stats (npruned_update Suc) (Ns_CacheDeleteEntry l c)"
    have us: "removeAll l xs = us" using cache_repD(4) [OF Suc.prems(1)] by (simp add: xs)
    have d: "l \<notin> set us" using cache_repD(4) [OF Suc.prems(1)] by (simp add: xs)
    have rep: "cache_rep ?c us" using Delete_rep [OF Suc.prems(1), of l] us by (simp add: xs)
    have "a \<in> set us" "length us \<le> Suc fuel" using Suc.prems(2,3) True by (auto simp: xs)
    then obtain c' ys zs where IH: "prune_loop fuel m a ?c = Some c'" "cache_rep c' ys" "us = ys @ zs" "a \<in> set ys"
      "currentSize c' \<le> m \<or> last ys = a \<or> cvalue (entries c' (last ys)) = None"
      "\<forall>b\<in>set ys. body (entries c' b) = body (entries ?c b)" "\<forall>b\<in>set zs. cvalue (entries ?c b) \<noteq> None"
      "maxSize c' = maxSize ?c" "uncommittedTable c' = filter (\<lambda>b. b \<notin> set zs) (uncommittedTable ?c)"
      using Suc.IH [OF rep] by blast
    have other: "body (entries ?c b) = body (entries c b)" if "b \<in> set us" for b
      using Delete_other [of b l c] that d by auto
    have "prune_loop (Suc fuel) m a c = prune_loop fuel m a ?c"
      using True last by (subst prune_loop.simps) simp
    moreover have "xs = ys @ (zs @ [l])" using IH(3) xs by simp
    moreover have "\<forall>b\<in>set ys. body (entries c' b) = body (entries c b)" using IH(3,6) other by simp
    moreover have "\<forall>b\<in>set (zs @ [l]). cvalue (entries c b) \<noteq> None"
      using IH(3,7) other True body_eqD(6) [of "entries ?c _" "entries c _"] by auto
    moreover have "uncommittedTable c' = filter (\<lambda>b. b \<notin> set (zs @ [l])) (uncommittedTable c)"
      using IH(9) by (simp add: Delete_simps removeAll_filter_not_eq) (metis (mono_tags, lifting) filter_cong)
    ultimately show ?thesis using IH(1,2,4,5,8) by (auto simp: Delete_simps)
  next
    case False
    then have "prune_loop (Suc fuel) m a c = Some c" using last by (subst prune_loop.simps) auto
    moreover have "currentSize c \<le> m \<or> last xs = a \<or> cvalue (entries c (last xs)) = None"
      using False by (auto simp: xs)
    ultimately show ?thesis using Suc.prems by (intro exI [of _ c] exI [of _ xs] exI [of _ "[]"]) simp
  qed
qed


lemma rep_length: "cache_rep c xs \<Longrightarrow> length (entriesTable c) = length xs"
  using cache_repD(2,4) [of c xs] table_ok_D(2) [OF cache_repD(3)] distinct_card [of xs] distinct_card [of "map snd (entriesTable c)"]
  by simp

lemma cache_rep_maxSize [simp]: "cache_rep (c\<lparr>maxSize := m\<rparr>) xs = cache_rep c xs"
  by (simp add: cache_rep_def dll_def table_ok_def total_size_def entry_cost_def)

lemma SetValueExpires_spec:
  assumes "cache_rep c xs" "a \<in> set xs" and m_def: "m = (if maxsz = 0 then maxSize c else maxsz)"
  shows "\<exists>c' ys zs. Ns_CacheSetValueExpires a (Some v) sz t cst maxsz epoch c = Some (if epoch = 0 then 0 else 1, c') \<and>
    cache_rep c' ys \<and> xs = ys @ zs \<and> a \<in> set ys \<and> Ns_CacheGetValueT [epoch] (entries c' a) = Some v \<and>
    (epoch = 0 \<longrightarrow> cvalue (entries c' a) = Some v) \<and> (t \<noteq> None \<longrightarrow> expires (entries c' a) = the t) \<and>
    (m = 0 \<or> currentSize c' \<le> m \<or> last ys = a \<or> cvalue (entries c' (last ys)) = None) \<and>
    (\<forall>b\<in>set ys - {a}. body (entries c' b) = body (entries c b)) \<and>
    (\<forall>b\<in>set zs. cvalue (entries c b) \<noteq> None) \<and> maxSize c' = m"
proof -
  obtain r c1 where st: "store_value a (Some v) sz t cst epoch c = (r, c1)" by fastforce
  note S = store_value_rep [OF assms(1,2) st]
  define c2 where "c2 = (if maxsz = 0 then c1 else c1\<lparr>maxSize := maxsz\<rparr>)"
  have c2: "cache_rep c2 xs" "entries c2 = entries c1" "maxSize c2 = m" using S(1,7) by (simp_all add: c2_def m_def)
  have r: "Ns_CacheSetValueExpires a (Some v) sz t cst maxsz epoch c =
      map_option (Pair r) (if m > 0 then prune_loop (length (entriesTable c2)) m a c2 else Some c2)"
    using S(7) by (simp add: Ns_CacheSetValueExpires_def st Let_def c2_def m_def)
  have z: "cvalue (entries c b) \<noteq> None" if "cvalue (entries c1 b) \<noteq> None" "b \<noteq> a" for b
    using that S(5) by simp
  show ?thesis
  proof (cases "m > 0")
    case True
    have "length xs \<le> Suc (length (entriesTable c2))" using rep_length [OF c2(1)] by simp
    then obtain c' ys zs where P: "prune_loop (length (entriesTable c2)) m a c2 = Some c'" "cache_rep c' ys" "xs = ys @ zs" "a \<in> set ys"
      "currentSize c' \<le> m \<or> last ys = a \<or> cvalue (entries c' (last ys)) = None"
      "\<forall>b\<in>set ys. body (entries c' b) = body (entries c2 b)" "\<forall>b\<in>set zs. cvalue (entries c2 b) \<noteq> None"
      "maxSize c' = maxSize c2"
      using prune_loop_spec [OF c2(1) assms(2)] by blast
    have body: "body (entries c' a) = body (entries c1 a)" using P(4,6) c2(2) by simp
    then have "Ns_CacheGetValueT [epoch] (entries c' a) = Some v"
      using S(2) body_value(1) [OF body] by simp
    moreover have "a \<notin> set zs" using P(3,4) cache_repD(4) [OF assms(1)] by auto
    then have "\<forall>b\<in>set zs. cvalue (entries c b) \<noteq> None" using P(7) z c2(2) by fastforce
    moreover have "\<forall>b\<in>set ys - {a}. body (entries c' b) = body (entries c b)" using P(6) S(5) c2(2) by auto
    ultimately show ?thesis
      using P(1-5,8) r S(3,4,11) body_eqD(2,6) [OF body] True c2(3) by (intro exI [of _ c'] exI [of _ ys] exI [of _ zs]) simp
  next
    case False
    then have "m = 0" by (simp add: word_gt_0)
    then show ?thesis
      using r S c2 assms(2) by (intro exI [of _ c2] exI [of _ xs] exI [of _ "[]"]) simp
  qed
qed

text \<open>The entries of the table that are still to be visited stay there when another one is deleted.\<close>

lemma Delete_keeps:
  assumes "cache_rep c xs" "a \<in> set xs" "set search \<subseteq> set (entriesTable c)" "a \<notin> snd ` set search"
  shows "set search \<subseteq> set (entriesTable (Ns_CacheDeleteEntry a c))"
proof
  fix y
  assume y: "y \<in> set search"
  note T = table_ok_D [OF cache_repD(3) [OF assms(1)]] and k = table_key [OF assms(1,2)]
  have "y \<in> set (entriesTable c)" "snd y \<noteq> a" using y assms(3,4) by auto
  then have "fst y \<noteq> hkey (entries c a)"
    using eq_key_imp_eq_value [OF T(1), of "fst y" "snd y" a] k by auto
  then show "y \<in> set (entriesTable (Ns_CacheDeleteEntry a c))"
    using \<open>y \<in> set (entriesTable c)\<close> by (auto simp: Delete_simps case_prod_unfold)
qed

lemma NextEntryT_spec:
  "cache_rep c xs \<Longrightarrow> set search \<subseteq> set (entriesTable c) \<Longrightarrow> distinct (map snd search) \<Longrightarrow>
    Ns_CacheNextEntryT stack now search c = (r, rest, c') \<Longrightarrow>
    \<exists>xs'. cache_rep c' xs' \<and> set xs' \<subseteq> set xs \<and> set rest \<subseteq> set (entriesTable c') \<and> distinct (map snd rest) \<and>
      (\<forall>b\<in>set xs'. body (entries c' b) = body (entries c b)) \<and>
      (\<forall>b\<in>set xs - set xs'. Ns_CacheGetValueT stack (entries c b) \<noteq> None) \<and>
      (\<forall>b\<in>snd ` set search \<inter> set xs'. b \<in> snd ` set rest \<or> r = Some b \<or> Ns_CacheGetValueT stack (entries c b) = None) \<and>
      (case r of None \<Rightarrow> rest = [] | Some a \<Rightarrow> a \<in> set xs' \<and> a \<notin> snd ` set rest \<and>
         Ns_CacheGetValueT stack (entries c a) \<noteq> None \<and> \<not> Expired now (entries c a))"
proof (induction stack now search c arbitrary: xs rule: Ns_CacheNextEntryT.induct)
  case (1 stack now c)
  then show ?case by auto
next
  case (2 stack now k a rest' c)
  have a: "a \<in> set xs" using "2.prems"(1,2) by (force simp: cache_rep_def)
  have d: "a \<notin> snd ` set rest'" "distinct (map snd rest')" using "2.prems"(3) by auto
  let ?v = "Ns_CacheGetValueT stack (entries c a)"
  consider (skip) "?v = None" | (found) "?v \<noteq> None" "\<not> Expired now (entries c a)" | (del) "?v \<noteq> None" "Expired now (entries c a)"
    by blast
  then show ?case
  proof cases
    case skip
    then have "Ns_CacheNextEntryT stack now rest' c = (r, rest, c')" using "2.prems"(4) by simp
    then obtain xs' where IH: "cache_rep c' xs'" "set xs' \<subseteq> set xs" "set rest \<subseteq> set (entriesTable c')" "distinct (map snd rest)"
      "\<forall>b\<in>set xs'. body (entries c' b) = body (entries c b)"
      "\<forall>b\<in>set xs - set xs'. Ns_CacheGetValueT stack (entries c b) \<noteq> None"
      "\<forall>b\<in>snd ` set rest' \<inter> set xs'. b \<in> snd ` set rest \<or> r = Some b \<or> Ns_CacheGetValueT stack (entries c b) = None"
      "case r of None \<Rightarrow> rest = [] | Some a \<Rightarrow> a \<in> set xs' \<and> a \<notin> snd ` set rest \<and>
         Ns_CacheGetValueT stack (entries c a) \<noteq> None \<and> \<not> Expired now (entries c a)"
      using "2.IH"(2) [of xs] skip "2.prems"(1,2) d(2) by auto
    have "\<forall>b\<in>snd ` set ((k, a) # rest') \<inter> set xs'. b \<in> snd ` set rest \<or> r = Some b \<or> Ns_CacheGetValueT stack (entries c b) = None"
      using IH(7) skip by auto
    then show ?thesis using IH(1-6,8) by (intro exI [of _ xs']) (intro conjI)
  next
    case found
    then show ?thesis using "2.prems" a d by (auto intro!: exI [of _ xs])
  next
    case del
    let ?c = "Ns_CacheDeleteEntry a (upd_stats (nexpired_update Suc) c)"
    have run: "Ns_CacheNextEntryT stack now rest' ?c = (r, rest, c')" using del "2.prems"(4) by simp
    have rep: "cache_rep (upd_stats (nexpired_update Suc) c) xs" using "2.prems"(1) by simp
    have keep: "set rest' \<subseteq> set (entriesTable ?c)"
      by (rule Delete_keeps [OF rep a]) (use "2.prems"(2) d(1) in simp_all)
    have other: "body (entries ?c b) = body (entries c b)" if "b \<noteq> a" for b using Delete_other [OF that] by simp
    have gv: "Ns_CacheGetValueT stack (entries ?c b) = Ns_CacheGetValueT stack (entries c b)"
      "Expired now (entries ?c b) = Expired now (entries c b)" if "b \<noteq> a" for b
      by (rule body_value [OF other [OF that]])+
    obtain xs' where IH: "cache_rep c' xs'" "set xs' \<subseteq> set (removeAll a xs)" "set rest \<subseteq> set (entriesTable c')" "distinct (map snd rest)"
      "\<forall>b\<in>set xs'. body (entries c' b) = body (entries ?c b)"
      "\<forall>b\<in>set (removeAll a xs) - set xs'. Ns_CacheGetValueT stack (entries ?c b) \<noteq> None"
      "\<forall>b\<in>snd ` set rest' \<inter> set xs'. b \<in> snd ` set rest \<or> r = Some b \<or> Ns_CacheGetValueT stack (entries ?c b) = None"
      "case r of None \<Rightarrow> rest = [] | Some a \<Rightarrow> a \<in> set xs' \<and> a \<notin> snd ` set rest \<and>
         Ns_CacheGetValueT stack (entries ?c a) \<noteq> None \<and> \<not> Expired now (entries ?c a)"
      using "2.IH"(1) [OF _ _ Delete_rep [OF rep a] keep d(2) run] del by auto
    have out: "b \<noteq> a" if "b \<in> set xs'" for b using that IH(2) by auto
    have "case r of None \<Rightarrow> rest = [] | Some a \<Rightarrow> a \<in> set xs' \<and> a \<notin> snd ` set rest \<and>
         Ns_CacheGetValueT stack (entries c a) \<noteq> None \<and> \<not> Expired now (entries c a)"
      using IH(8) gv out by (cases r) auto
    moreover have "\<forall>b\<in>set xs'. body (entries c' b) = body (entries c b)" using IH(5) other out by simp
    moreover have "\<forall>b\<in>set xs - set xs'. Ns_CacheGetValueT stack (entries c b) \<noteq> None"
      using IH(6) gv(1) del(1) by fastforce
    moreover have "\<forall>b\<in>snd ` set ((k, a) # rest') \<inter> set xs'. b \<in> snd ` set rest \<or> r = Some b \<or> Ns_CacheGetValueT stack (entries c b) = None"
      using IH(7) gv(1) out by auto
    moreover have "set xs' \<subseteq> set xs" using IH(2) by auto
    ultimately show ?thesis using IH(1,3,4) by (intro exI [of _ xs']) (intro conjI)
  qed
qed

end
