(* ===== verification/NsCacheRun.thy ===== *)
theory NsCacheRun
  imports NsCache
begin

text \<open>
  The caches at work: flushing, transactions and waiting, the steps of a cache with the states they reach,
  and the properties of the operations of \<^verbatim>\<open>NsCache\<close>.
\<close>

subsection \<open>Flushing\<close>

lemma flush_loop_spec:
  "cache_rep c xs \<Longrightarrow> set search \<subseteq> set (entriesTable c) \<Longrightarrow> distinct (map snd search) \<Longrightarrow>
    (case r of None \<Rightarrow> search = [] | Some a \<Rightarrow> a \<in> set xs \<and> a \<notin> snd ` set search \<and> cvalue (entries c a) \<noteq> None) \<Longrightarrow>
    flush_loop now n (r, search, c) = (n', c') \<Longrightarrow>
    \<exists>xs'. cache_rep c' xs' \<and> set xs' \<subseteq> set xs \<and> (\<forall>b\<in>set xs'. body (entries c' b) = body (entries c b)) \<and>
      (\<forall>b\<in>set xs - set xs'. cvalue (entries c b) \<noteq> None) \<and>
      (\<forall>b\<in>set xs'. b \<in> snd ` set search \<or> r = Some b \<longrightarrow> cvalue (entries c b) = None)"
proof (induction now n "(r, search, c)" arbitrary: r search c xs rule: flush_loop.induct)
  case (1 now n search c)
  then show ?case by auto
next
  case (2 now n a search c)
  have a: "a \<in> set xs" "a \<notin> snd ` set search" "cvalue (entries c a) \<noteq> None" using "2.prems"(4) by auto
  let ?d = "Ns_CacheDeleteEntry a c"
  note rep = Delete_rep [OF "2.prems"(1) a(1)]
  have keep: "set search \<subseteq> set (entriesTable ?d)" by (rule Delete_keeps [OF "2.prems"(1) a(1) "2.prems"(2) a(2)])
  obtain r' rest c1 where nx: "Ns_CacheNextEntryT [] now search ?d = (r', rest, c1)"
    by (cases "Ns_CacheNextEntryT [] now search ?d")
  obtain ys where N: "cache_rep c1 ys" "set ys \<subseteq> set (removeAll a xs)" "set rest \<subseteq> set (entriesTable c1)" "distinct (map snd rest)"
    "\<forall>b\<in>set ys. body (entries c1 b) = body (entries ?d b)"
    "\<forall>b\<in>set (removeAll a xs) - set ys. Ns_CacheGetValueT [] (entries ?d b) \<noteq> None"
    "\<forall>b\<in>snd ` set search \<inter> set ys. b \<in> snd ` set rest \<or> r' = Some b \<or> Ns_CacheGetValueT [] (entries ?d b) = None"
    "case r' of None \<Rightarrow> rest = [] | Some a \<Rightarrow> a \<in> set ys \<and> a \<notin> snd ` set rest \<and>
       Ns_CacheGetValueT [] (entries ?d a) \<noteq> None \<and> \<not> Expired now (entries ?d a)"
    using NextEntryT_spec [OF rep keep "2.prems"(3) nx] by blast
  have gv: "Ns_CacheGetValueT [] e = cvalue e" for e by (simp add: Ns_CacheGetValueT_def split: option.split)
  have d: "body (entries ?d b) = body (entries c b)" "cvalue (entries ?d b) = cvalue (entries c b)" if "b \<noteq> a" for b
    using Delete_other [OF that] body_eqD(6) [OF Delete_other [OF that]] by simp_all
  have out: "b \<noteq> a" if "b \<in> set ys" for b using that N(2) by auto
  have c1: "body (entries c1 b) = body (entries c b)" "cvalue (entries c1 b) = cvalue (entries c b)" if "b \<in> set ys" for b
    using N(5) that d(1) [OF out [OF that]] body_eqD(6) [of "entries c1 b" "entries c b"] by simp_all
  have pre: "case r' of None \<Rightarrow> rest = [] | Some a \<Rightarrow> a \<in> set ys \<and> a \<notin> snd ` set rest \<and> cvalue (entries c1 a) \<noteq> None"
    using N(8) c1(2) d(2) out unfolding gv by (cases r') auto
  have run: "flush_loop now (Suc n) (r', rest, c1) = (n', c')" using "2.prems"(5) nx by simp
  obtain xs' where F: "cache_rep c' xs'" "set xs' \<subseteq> set ys" "\<forall>b\<in>set xs'. body (entries c' b) = body (entries c1 b)"
    "\<forall>b\<in>set ys - set xs'. cvalue (entries c1 b) \<noteq> None"
    "\<forall>b\<in>set xs'. b \<in> snd ` set rest \<or> r' = Some b \<longrightarrow> cvalue (entries c1 b) = None"
    using "2.hyps" [OF nx N(1,3,4) pre run] by blast
  have "\<forall>b\<in>set xs - set xs'. cvalue (entries c b) \<noteq> None"
  proof
    fix b
    assume b: "b \<in> set xs - set xs'"
    show "cvalue (entries c b) \<noteq> None"
      using b a(3) N(6) F(4) c1(2) d(2) unfolding gv by (cases "b = a"; cases "b \<in> set ys") auto
  qed
  moreover have "\<forall>b\<in>set xs'. b \<in> snd ` set search \<or> Some a = Some b \<longrightarrow> cvalue (entries c b) = None"
  proof (intro ballI impI)
    fix b
    assume b: "b \<in> set xs'" "b \<in> snd ` set search \<or> Some a = Some b"
    then have y: "b \<in> set ys" using F(2) by auto
    then have "b \<in> snd ` set search \<inter> set ys" using b(2) out by auto
    from N(7) [unfolded gv, rule_format, OF this]
    have "b \<in> snd ` set rest \<or> r' = Some b \<or> cvalue (entries ?d b) = None" .
    then show "cvalue (entries c b) = None" using F(5) b(1) c1(2) [OF y] d(2) [OF out [OF y]] by auto
  qed
  moreover have "\<forall>b\<in>set xs'. body (entries c' b) = body (entries c b)" using F(2,3) c1(1) by auto
  moreover have "set xs' \<subseteq> set xs" using F(2) N(2) by auto
  ultimately show ?case using F(1) by (intro exI [of _ xs']) (intro conjI)
qed

lemma Flush_spec:
  assumes "cache_rep c xs" "Ns_CacheFlush now c = (n, c')"
  shows "\<exists>xs'. cache_rep c' xs' \<and> set xs' = {b \<in> set xs. cvalue (entries c b) = None} \<and>
    (\<forall>b\<in>set xs'. body (entries c' b) = body (entries c b))"
proof -
  obtain r rest c1 where nx: "Ns_CacheNextEntryT [] now (entriesTable c) c = (r, rest, c1)"
    by (cases "Ns_CacheNextEntryT [] now (entriesTable c) c")
  obtain c2 where fl: "flush_loop now 0 (r, rest, c1) = (n, c2)" "c' = upd_stats (nflushed_update Suc) c2"
    using assms(2) nx by (auto simp: Ns_CacheFlush_def Ns_CacheFirstEntryT_def split: prod.splits)
  have gv: "Ns_CacheGetValueT [] e = cvalue e" for e by (simp add: Ns_CacheGetValueT_def split: option.split)
  obtain ys where N: "cache_rep c1 ys" "set ys \<subseteq> set xs" "set rest \<subseteq> set (entriesTable c1)" "distinct (map snd rest)"
    "\<forall>b\<in>set ys. body (entries c1 b) = body (entries c b)" "\<forall>b\<in>set xs - set ys. cvalue (entries c b) \<noteq> None"
    "\<forall>b\<in>snd ` set (entriesTable c) \<inter> set ys. b \<in> snd ` set rest \<or> r = Some b \<or> cvalue (entries c b) = None"
    "case r of None \<Rightarrow> rest = [] | Some a \<Rightarrow> a \<in> set ys \<and> a \<notin> snd ` set rest \<and> cvalue (entries c a) \<noteq> None \<and> \<not> Expired now (entries c a)"
    using NextEntryT_spec [OF assms(1) subset_refl table_ok_D(2) [OF cache_repD(3) [OF assms(1)]] nx] unfolding gv by blast
  have c1: "cvalue (entries c1 b) = cvalue (entries c b)" if "b \<in> set ys" for b
    using N(5) that body_eqD(6) [of "entries c1 b" "entries c b"] by simp
  have pre: "case r of None \<Rightarrow> rest = [] | Some a \<Rightarrow> a \<in> set ys \<and> a \<notin> snd ` set rest \<and> cvalue (entries c1 a) \<noteq> None"
    using N(8) c1 by (cases r) auto
  obtain xs' where F: "cache_rep c2 xs'" "set xs' \<subseteq> set ys" "\<forall>b\<in>set xs'. body (entries c2 b) = body (entries c1 b)"
    "\<forall>b\<in>set ys - set xs'. cvalue (entries c1 b) \<noteq> None"
    "\<forall>b\<in>set xs'. b \<in> snd ` set rest \<or> r = Some b \<longrightarrow> cvalue (entries c1 b) = None"
    using flush_loop_spec [OF N(1,3,4) pre fl(1)] by blast
  have "cvalue (entries c b) = None" if "b \<in> set xs'" for b
  proof -
    have b: "b \<in> set ys" "b \<in> snd ` set (entriesTable c)" using that F(2) N(2) cache_repD(2) [OF assms(1)] by auto
    show ?thesis using N(7) F(5) c1 [OF b(1)] that b by fastforce
  qed
  moreover have "b \<in> set xs'" if "b \<in> set xs" "cvalue (entries c b) = None" for b
    using that N(6) F(4) c1 by force
  ultimately have "set xs' = {b \<in> set xs. cvalue (entries c b) = None}" using F(2) N(2) by blast
  moreover have "\<forall>b\<in>set xs'. body (entries c' b) = body (entries c b)" using F(2,3) N(5) fl(2) by auto
  ultimately show ?thesis using F(1) fl(2) by auto
qed


subsection \<open>Transactions\<close>

definition pending :: "nat \<Rightarrow> entry \<Rightarrow> bool" where
  "pending epoch e \<longleftrightarrow> cvalue e = None \<and> transactionEpoch e = epoch"

lemma transaction_one_pending:
  "transaction_one epoch commit a (n, c) =
     (if pending epoch (entries c a)
      then (Suc n, if commit
                  then (upd a (\<lambda>e. e\<lparr>cvalue := uncommittedValue e, uncommittedValue := None, transactionEpoch := 0\<rparr>) c)
                         \<lparr>uncommittedTable := removeAll a (uncommittedTable c)\<rparr>
                  else Ns_CacheDeleteEntry a c)
      else (n, c))"
  by (simp add: transaction_one_def pending_def)

lemma commit_one_rep:
  assumes "cache_rep c xs" "a \<in> set xs" "cvalue (entries c a) = None"
  shows "cache_rep ((upd a (\<lambda>e. e\<lparr>cvalue := uncommittedValue e, uncommittedValue := None, transactionEpoch := 0\<rparr>) c)
      \<lparr>uncommittedTable := removeAll a (uncommittedTable c)\<rparr>) xs" (is "cache_rep ?c xs")
proof -
  note rep = cache_repD [OF assms(1)]
  let ?e = "(entries c a)\<lparr>cvalue := uncommittedValue (entries c a), uncommittedValue := None, transactionEpoch := 0\<rparr>"
  have "dll ?c xs" by (rule dll_same [OF rep(1)]) auto
  moreover have "table_ok ?c"
    by (rule table_ok_resize [OF assms(1,2), where e = ?e])
       (use rep_entry_ok [OF assms(1,2)] assms(3) table_ok_D(4) [OF rep(3)] in \<open>auto simp: entry_ok_def distinct_removeAll\<close>)
  ultimately show ?thesis using rep(2) by (simp add: cache_rep_def)
qed

lemma commit_fold:
  "cache_rep c xs \<Longrightarrow> distinct us \<Longrightarrow> set us \<subseteq> set xs \<Longrightarrow> fold (transaction_one epoch True) us (n, c) = (n', c') \<Longrightarrow>
    cache_rep c' xs \<and> entriesTable c' = entriesTable c \<and>
    n' = n + length (filter (\<lambda>b. pending epoch (entries c b)) us) \<and>
    (\<forall>b. entries c' b = (if b \<in> set us \<and> pending epoch (entries c b)
       then (entries c b)\<lparr>cvalue := uncommittedValue (entries c b), uncommittedValue := None, transactionEpoch := 0\<rparr>
       else entries c b))"
proof (induction us arbitrary: n c)
  case (Cons a us)
  obtain m c1 where one: "transaction_one epoch True a (n, c) = (m, c1)" by fastforce
  have rest: "fold (transaction_one epoch True) us (m, c1) = (n', c')" using Cons.prems(4) one by simp
  have a: "a \<in> set xs" "a \<notin> set us" "distinct us" "set us \<subseteq> set xs" using Cons.prems(2,3) by auto
  have c1: "entries c1 = (if pending epoch (entries c a) then (entries c)(a := (entries c a)
      \<lparr>cvalue := uncommittedValue (entries c a), uncommittedValue := None, transactionEpoch := 0\<rparr>) else entries c)"
    "m = (if pending epoch (entries c a) then Suc n else n)" "entriesTable c1 = entriesTable c"
    using one by (auto simp: transaction_one_pending split: if_splits)
  have "cache_rep c1 xs"
    using one commit_one_rep [OF Cons.prems(1) a(1)] Cons.prems(1)
    by (auto simp: transaction_one_pending pending_def split: if_splits)
  note IH = Cons.IH [OF this a(3,4) rest]
  have "filter (\<lambda>b. pending epoch (entries c1 b)) us = filter (\<lambda>b. pending epoch (entries c b)) us"
    by (rule filter_cong [OF refl]) (use a(2) c1(1) in auto)
  then have n': "n' = n + length (filter (\<lambda>b. pending epoch (entries c b)) (a # us))" using IH c1(2) by simp
  have "entries c' b = (if b \<in> set (a # us) \<and> pending epoch (entries c b)
      then (entries c b)\<lparr>cvalue := uncommittedValue (entries c b), uncommittedValue := None, transactionEpoch := 0\<rparr>
      else entries c b)" for b
    using IH a(2) c1(1) by (cases "b = a") simp_all
  then show ?case using IH n' c1(3) by simp
qed simp

lemma rollback_fold:
  "cache_rep c xs \<Longrightarrow> distinct us \<Longrightarrow> set us \<subseteq> set xs \<Longrightarrow> fold (transaction_one epoch False) us (n, c) = (n', c') \<Longrightarrow>
    cache_rep c' (filter (\<lambda>b. \<not> (b \<in> set us \<and> pending epoch (entries c b))) xs) \<and>
    n' = n + length (filter (\<lambda>b. pending epoch (entries c b)) us) \<and>
    (\<forall>b. b \<in> set us \<and> pending epoch (entries c b) \<or> body (entries c' b) = body (entries c b))"
proof (induction us arbitrary: n c xs)
  case (Cons a us)
  obtain m c1 where one: "transaction_one epoch False a (n, c) = (m, c1)" by fastforce
  have rest: "fold (transaction_one epoch False) us (m, c1) = (n', c')" using Cons.prems(4) one by simp
  have a: "a \<in> set xs" "a \<notin> set us" "distinct us" "set us \<subseteq> set xs" using Cons.prems(2,3) by auto
  show ?case
  proof (cases "pending epoch (entries c a)")
    case True
    then have c1: "c1 = Ns_CacheDeleteEntry a c" "m = Suc n" using one by (auto simp: transaction_one_pending)
    have other: "body (entries c1 b) = body (entries c b)" "pending epoch (entries c1 b) = pending epoch (entries c b)"
      if "b \<noteq> a" for b
      using Delete_other [OF that] body_eqD(6,8) [OF Delete_other [OF that, of c]] by (simp_all add: c1 pending_def)
    have "cache_rep c1 (removeAll a xs)" unfolding c1 by (rule Delete_rep [OF Cons.prems(1) a(1)])
    moreover have "set us \<subseteq> set (removeAll a xs)" using a by auto
    ultimately have IH: "cache_rep c' (filter (\<lambda>b. \<not> (b \<in> set us \<and> pending epoch (entries c1 b))) (removeAll a xs)) \<and>
      n' = m + length (filter (\<lambda>b. pending epoch (entries c1 b)) us) \<and>
      (\<forall>b. b \<in> set us \<and> pending epoch (entries c1 b) \<or> body (entries c' b) = body (entries c1 b))"
      using Cons.IH [OF _ a(3) _ rest] by blast
    have f: "filter (\<lambda>b. pending epoch (entries c1 b)) us = filter (\<lambda>b. pending epoch (entries c b)) us"
      by (rule filter_cong [OF refl]) (metis other(2) a(2))
    have g: "filter (\<lambda>b. \<not> (b \<in> set us \<and> pending epoch (entries c1 b))) (removeAll a xs) =
        filter (\<lambda>b. \<not> (b \<in> set (a # us) \<and> pending epoch (entries c b))) xs"
      unfolding removeAll_filter_not_eq filter_filter
      by (rule filter_cong [OF refl]) (metis other(2) True list.set_intros(1) set_ConsD list.set_intros(2))
    have "b \<in> set (a # us) \<and> pending epoch (entries c b) \<or> body (entries c' b) = body (entries c b)" for b
      using IH other [of b] True by (cases "b = a") auto
    then show ?thesis using IH True c1(2) unfolding f g by simp
  next
    case False
    then have c1: "c1 = c" "m = n" using one by (auto simp: transaction_one_pending)
    have g: "filter (\<lambda>b. \<not> (b \<in> set us \<and> pending epoch (entries c b))) xs =
        filter (\<lambda>b. \<not> (b \<in> set (a # us) \<and> pending epoch (entries c b))) xs"
      by (rule filter_cong [OF refl]) (use False in auto)
    show ?thesis using Cons.IH [OF Cons.prems(1) a(3,4) rest [unfolded c1]] False unfolding g by auto
  qed
qed simp


subsection \<open>Steps\<close>

text \<open>The operations on a cache, in any order. An entry an operation works on is in the table; a new
  entry gets an address that is not in use.\<close>

inductive cache_step :: "cache \<Rightarrow> cache \<Rightarrow> bool" where
  create: "n \<notin> snd ` set (entriesTable c) \<Longrightarrow> cache_step c (snd (snd (Ns_CacheCreateEntry n now key c)))"
| find: "cache_step c (snd (Ns_CacheFindEntryT stack now key c))"
| set_value: "a \<in> snd ` set (entriesTable c) \<Longrightarrow>
    Ns_CacheSetValueExpires a (Some v) sz t cst maxsz epoch c = Some (r, c') \<Longrightarrow> cache_step c c'"
| unset: "a \<in> snd ` set (entriesTable c) \<Longrightarrow> cache_step c (Ns_CacheUnsetValue a c)"
| delete: "a \<in> snd ` set (entriesTable c) \<Longrightarrow> cache_step c (Ns_CacheDeleteEntry a c)"
| flush_entry: "a \<in> snd ` set (entriesTable c) \<Longrightarrow> cache_step c (Ns_CacheFlushEntry a c)"
| search: "set rest \<subseteq> set (entriesTable c) \<Longrightarrow> distinct (map snd rest) \<Longrightarrow>
    cache_step c (snd (snd (Ns_CacheNextEntryT stack now rest c)))"
| flush: "cache_step c (snd (Ns_CacheFlush now c))"
| commit: "cache_step c (snd (Ns_CacheCommitEntries epoch c))"
| rollback: "cache_step c (snd (Ns_CacheRollbackEntries epoch c))"
| resize: "cache_step c (snd (Ns_CacheSetMaxsize sz c))"
| reset: "cache_step c (Ns_CacheResetStats c)"

inductive cache_reach :: "cache \<Rightarrow> bool" where
  init: "cache_reach (Ns_CacheCreateSz heap ovh name maxsz freeP)"
| step: "cache_reach c \<Longrightarrow> cache_step c c' \<Longrightarrow> cache_reach c'"

lemma commit_rep:
  assumes "cache_rep c xs" "Ns_CacheCommitEntries epoch c = (n, c')"
  shows "cache_rep c' xs" "entriesTable c' = entriesTable c"
    "n = length (filter (\<lambda>b. pending epoch (entries c b)) (uncommittedTable c))"
    "entries c' b = (if b \<in> set (uncommittedTable c) \<and> pending epoch (entries c b)
       then (entries c b)\<lparr>cvalue := uncommittedValue (entries c b), uncommittedValue := None, transactionEpoch := 0\<rparr>
       else entries c b)"
proof -
  note T = table_ok_D [OF cache_repD(3) [OF assms(1)]]
  obtain c1 where tr: "fold (transaction_one epoch True) (uncommittedTable c) (0, c) = (n, c1)"
    "c' = upd_stats (ncommit_update (\<lambda>m. m + n)) c1"
    using assms(2) by (auto simp: Ns_CacheCommitEntries_def CacheTransaction_def split: prod.splits)
  have "set (uncommittedTable c) \<subseteq> set xs" using T(5) cache_repD(2) [OF assms(1)] by simp
  note F = commit_fold [OF assms(1) T(4) this tr(1)]
  show "cache_rep c' xs" "entriesTable c' = entriesTable c"
    "n = length (filter (\<lambda>b. pending epoch (entries c b)) (uncommittedTable c))"
    "entries c' b = (if b \<in> set (uncommittedTable c) \<and> pending epoch (entries c b)
       then (entries c b)\<lparr>cvalue := uncommittedValue (entries c b), uncommittedValue := None, transactionEpoch := 0\<rparr>
       else entries c b)"
    using F tr(2) by simp_all
qed

lemma rollback_rep:
  assumes "cache_rep c xs" "Ns_CacheRollbackEntries epoch c = (n, c')"
  shows "cache_rep c' (filter (\<lambda>b. \<not> (b \<in> set (uncommittedTable c) \<and> pending epoch (entries c b))) xs)"
    "n = length (filter (\<lambda>b. pending epoch (entries c b)) (uncommittedTable c))"
    "b \<in> set (uncommittedTable c) \<and> pending epoch (entries c b) \<or> body (entries c' b) = body (entries c b)"
proof -
  note T = table_ok_D [OF cache_repD(3) [OF assms(1)]]
  obtain c1 where tr: "fold (transaction_one epoch False) (uncommittedTable c) (0, c) = (n, c1)"
    "c' = upd_stats (nrollback_update (\<lambda>m. m + n)) c1"
    using assms(2) by (auto simp: Ns_CacheRollbackEntries_def CacheTransaction_def split: prod.splits)
  have "set (uncommittedTable c) \<subseteq> set xs" using T(5) cache_repD(2) [OF assms(1)] by simp
  note F = rollback_fold [OF assms(1) T(4) this tr(1)]
  show "cache_rep c' (filter (\<lambda>b. \<not> (b \<in> set (uncommittedTable c) \<and> pending epoch (entries c b))) xs)"
    "n = length (filter (\<lambda>b. pending epoch (entries c b)) (uncommittedTable c))"
    using F tr(2) by simp_all
  show "b \<in> set (uncommittedTable c) \<and> pending epoch (entries c b) \<or> body (entries c' b) = body (entries c b)"
    using F tr(2) by simp
qed

lemma cache_init_rep: "cache_rep (Ns_CacheCreateSz heap ovh name maxsz freeP) []"
  by (simp add: cache_rep_def dll_def table_ok_def total_size_def Ns_CacheCreateSz_def)

lemma cache_step_rep:
  assumes "cache_step c c'" "cache_rep c xs"
  shows "\<exists>xs'. cache_rep c' xs'"
  using assms(1)
proof cases
  case (create n now key)
  obtain a isNew c1 where "Ns_CacheCreateEntry n now key c = (a, isNew, c1)" by (cases "Ns_CacheCreateEntry n now key c")
  then show ?thesis using Create_rep(1) [OF assms(2)] create cache_repD(2) [OF assms(2)] by fastforce
next
  case (find stack now key)
  obtain r c1 where "Ns_CacheFindEntryT stack now key c = (r, c1)" by fastforce
  then show ?thesis using Find_rep [OF assms(2)] find by fastforce
next
  case (set_value a v sz t cst maxsz epoch r)
  have "a \<in> set xs" using set_value(1) cache_repD(2) [OF assms(2)] by simp
  from SetValueExpires_spec [OF assms(2) this refl, where maxsz = maxsz and v = v and sz = sz and t = t and cst = cst and epoch = epoch]
  obtain c1 ys where "Ns_CacheSetValueExpires a (Some v) sz t cst maxsz epoch c = Some (if epoch = 0 then 0 else 1, c1)"
    "cache_rep c1 ys" by blast
  then show ?thesis using set_value(2) by auto
next
  case (unset a)
  then show ?thesis using Unset_rep [OF assms(2)] cache_repD(2) [OF assms(2)] by auto
next
  case (delete a)
  then show ?thesis using Delete_rep [OF assms(2)] cache_repD(2) [OF assms(2)] by auto
next
  case (flush_entry a)
  then show ?thesis
    using Delete_rep [of "upd_stats (nflushed_update Suc) c" xs a] assms(2) cache_repD(2) [OF assms(2)]
    by (auto simp: Ns_CacheFlushEntry_def)
next
  case (search rest stack now)
  obtain r rest' c1 where "Ns_CacheNextEntryT stack now rest c = (r, rest', c1)" by (cases "Ns_CacheNextEntryT stack now rest c")
  then show ?thesis using NextEntryT_spec [OF assms(2) search(2,3)] search(1) by fastforce
next
  case (flush now)
  obtain n c1 where "Ns_CacheFlush now c = (n, c1)" by fastforce
  then show ?thesis using Flush_spec [OF assms(2)] flush by fastforce
next
  case (commit epoch)
  obtain n c1 where "Ns_CacheCommitEntries epoch c = (n, c1)" by fastforce
  then show ?thesis using commit_rep(1) [OF assms(2)] commit by fastforce
next
  case (rollback epoch)
  obtain n c1 where "Ns_CacheRollbackEntries epoch c = (n, c1)" by fastforce
  then show ?thesis using rollback_rep(1) [OF assms(2)] rollback by fastforce
next
  case (resize sz)
  then show ?thesis using assms(2) by (auto simp: Ns_CacheSetMaxsize_def)
next
  case reset
  have "Ns_CacheResetStats c = upd_stats (\<lambda>_. zero_stats) c" by (simp add: Ns_CacheResetStats_def upd_stats_def)
  then show ?thesis using assms(2) reset by auto
qed

lemma cache_reach_repE:
  assumes "cache_reach c"
  obtains xs where "cache_rep c xs"
proof -
  have "\<exists>xs. cache_rep c xs"
    using assms by (induction rule: cache_reach.induct) (use cache_init_rep cache_step_rep in blast)+
  then show ?thesis using that by blast
qed


lemma SetValue_hkey:
  assumes "cache_rep c xs" "a \<in> set xs" "Ns_CacheSetValueExpires a (Some v) sz t cst maxsz 0 c = Some (r, c')"
  shows "hkey (entries c' a) = hkey (entries c a)"
proof -
  obtain r1 c1 where st: "store_value a (Some v) sz t cst 0 c = (r1, c1)" by fastforce
  note S = store_value_rep [OF assms(1,2) st]
  define c2 where "c2 = (if maxsz = 0 then c1 else c1\<lparr>maxSize := maxsz\<rparr>)"
  have rep: "cache_rep c2 xs" "entries c2 = entries c1" using S(1) by (simp_all add: c2_def)
  have "(if maxSize c2 > 0 then prune_loop (length (entriesTable c2)) (maxSize c2) a c2 else Some c2) = Some c'"
    using assms(3) S(7) by (auto simp: Ns_CacheSetValueExpires_def st Let_def c2_def split: if_splits)
  moreover have "hkey (entries c'' a) = hkey (entries c2 a)"
    if "prune_loop (length (entriesTable c2)) (maxSize c2) a c2 = Some c''" for c''
  proof -
    have "length xs \<le> Suc (length (entriesTable c2))" using rep_length [OF rep(1)] by simp
    from prune_loop_spec [OF rep(1) assms(2) this, of "maxSize c2"] that
    have "body (entries c'' a) = body (entries c2 a)" by auto
    then show ?thesis by (rule body_eqD(1))
  qed
  ultimately show ?thesis using S(8) rep(2) by (auto split: if_splits)
qed

subsection \<open>Properties\<close>

text \<open>Concrete caches: entries cost 160 bytes each, values are freed.\<close>

definition demo_entry :: entry where
  "demo_entry = \<lparr>nextPtr = None, prevPtr = None, hkey = [], expires = mk_time 0 0, esize = 0, cost = 0, reuse = 0,
     cvalue = None, uncommittedValue = None, transactionEpoch = 0\<rparr>"

definition demo_cache :: "size_t \<Rightarrow> cache" where
  "demo_cache m = Ns_CacheCreateSz (\<lambda>_. demo_entry) 160 ''demo'' m True"

definition demo_put :: "nat \<Rightarrow> cstring \<Rightarrow> nat \<Rightarrow> size_t \<Rightarrow> nat \<Rightarrow> cache \<Rightarrow> cache" where
  "demo_put a key v sz epoch c =
     snd (the (Ns_CacheSetValueExpires a (Some v) sz None 0 0 epoch (snd (snd (Ns_CacheCreateEntry a (mk_time 1 0) key c)))))"

lemma demo_put_reach:
  assumes "cache_reach c" "a \<notin> snd ` set (entriesTable c)" "key \<notin> fst ` set (entriesTable c)"
  shows "cache_reach (demo_put a key v sz epoch c)"
proof -
  let ?c = "snd (snd (Ns_CacheCreateEntry a (mk_time 1 0) key c))"
  have r1: "cache_reach ?c" by (rule cache_reach.step [OF assms(1) cache_step.create [OF assms(2)]])
  obtain x isNew c1 where cr: "Ns_CacheCreateEntry a (mk_time 1 0) key c = (x, isNew, c1)"
    by (cases "Ns_CacheCreateEntry a (mk_time 1 0) key c")
  obtain xs where xs: "cache_rep c xs" by (rule cache_reach_repE [OF assms(1)])
  have "a \<notin> set xs" using assms(2) cache_repD(2) [OF xs] by simp
  note C = Create_rep [OF xs this cr]
  have "x = a" using C(3) assms(3) by (simp add: map_of_eq_None_iff)
  then have rep: "cache_rep ?c (a # removeAll a xs)" using C(1) cr by simp
  have "a \<in> set (a # removeAll a xs)" by simp
  from SetValueExpires_spec [OF rep this refl, where maxsz = 0 and v = v and sz = sz and t = None and cst = 0 and epoch = epoch]
  obtain r c' where s: "Ns_CacheSetValueExpires a (Some v) sz None 0 0 epoch ?c = Some (r, c')" by blast
  have "a \<in> snd ` set (entriesTable ?c)" using cache_repD(2) [OF rep] by auto
  then have "cache_reach c'" using cache_reach.step [OF r1 cache_step.set_value [OF _ s]] by simp
  then show ?thesis using s by (simp add: demo_put_def)
qed

lemma demo_cache_reach: "cache_reach (demo_cache m)"
  unfolding demo_cache_def by (rule cache_reach.init)

lemma demo_cache_reach1: "cache_reach (demo_put 1 ''a'' 11 100 e (demo_cache m))"
  by (rule demo_put_reach [OF demo_cache_reach]) (simp_all add: demo_cache_def Ns_CacheCreateSz_def)

text \<open>
  C33. In every state a cache reaches, whatever operations are applied in whatever order, the links form one
  list without repetition that holds exactly the entries of the hash table; keys and entries correspond one to one;
  the recorded size is the sum of the overhead, key length and value size of all entries; no entry has two values;
  every pending entry of a transaction is in the table; and no entry of the table has been freed.
\<close>

theorem cache_reach_rep:
  assumes "cache_reach c"
  shows "\<exists>xs. cache_rep c xs"
  by (rule cache_reach_repE [OF assms]) blast

theorem cache_reach_rep_witness:
  "(\<exists>xs. cache_rep (demo_put 1 ''a'' 11 100 0 (demo_cache 0)) xs) \<and>
    currentSize (demo_put 1 ''a'' 11 100 0 (demo_cache 0)) = 261"
proof
  show "\<exists>xs. cache_rep (demo_put 1 ''a'' 11 100 0 (demo_cache 0)) xs" by (rule cache_reach_rep [OF demo_cache_reach1])
  show "currentSize (demo_put 1 ''a'' 11 100 0 (demo_cache 0)) = 261" by code_simp
qed



text \<open>
  A value that is stored under a key is found under it: after \<^verbatim>\<open>Ns_CacheCreateEntry\<close> and
  \<^verbatim>\<open>Ns_CacheSetValueExpires\<close>, a lookup of the key returns the entry with the value, as long as it has not
  expired, and makes it the most recently used one.
\<close>

theorem cache_create_find:
  assumes "cache_reach c" "n \<notin> snd ` set (entriesTable c)" "Ns_CacheCreateEntry n now key c = (a, isNew, c1)"
    and "Ns_CacheSetValueExpires a (Some v) sz t cst maxsz 0 c1 = Some (r, c2)" "\<not> Expired now' (entries c2 a)"
  shows "\<exists>c3. Ns_CacheFindEntryT stack now' key c2 = (Some a, c3) \<and> cvalue (entries c3 a) = Some v \<and>
    firstEntryPtr c3 = Some a"
proof -
  obtain xs where xs: "cache_rep c xs" by (rule cache_reach_repE [OF assms(1)])
  have "n \<notin> set xs" using assms(2) cache_repD(2) [OF xs] by simp
  note C = Create_rep [OF xs this assms(3)]
  have "a \<in> set (a # removeAll a xs)" by simp
  from SetValueExpires_spec [OF C(1) this refl, where maxsz = maxsz and v = v and sz = sz and t = t and cst = cst and epoch = 0] assms(4)
  obtain ys where S: "cache_rep c2 ys" "a \<in> set ys" "cvalue (entries c2 a) = Some v" "hkey (entries c2 a) = key"
    using table_address [OF C(1,2)] SetValue_hkey [OF C(1) \<open>a \<in> set (a # removeAll a xs)\<close> assms(4)] by auto
  have m: "map_of (entriesTable c2) key = Some a"
    using map_of_is_SomeI [OF table_ok_D(1) [OF cache_repD(3) [OF S(1)]] table_key [OF S(1,2)]] S(4) by simp
  obtain r3 c3 where f: "Ns_CacheFindEntryT stack now' key c2 = (r3, c3)" by fastforce
  let ?c3 = "Push a (upd a (reuse_update Suc) (Remove a (upd_stats (nhit_update Suc) c2)))"
  have r3: "r3 = Some a" "c3 = ?c3"
    using f m S(3) assms(5) by (auto simp: Ns_CacheFindEntryT_def Ns_CacheGetValueT_def)
  have "cvalue (entries ?c3 a) = cvalue (entries c2 a)"
    using body_eqD(6) [OF relinked_body [OF relinked_Remove, of a "upd_stats (nhit_update Suc) c2" a]]
    unfolding body_eqD(6) [OF relinked_body [OF relinked_Push]] by simp
  then have "cvalue (entries c3 a) = Some v" using S(3) r3(2) by simp
  moreover have "firstEntryPtr c3 = Some a" by (simp add: r3(2) Push_def Let_def)
  ultimately show ?thesis using f r3(1) by auto
qed


theorem cache_create_find_witness:
  "\<exists>c3. Ns_CacheFindEntryT [] (mk_time 2 0) ''a'' (demo_put 1 ''a'' 11 100 0 (demo_cache 0)) = (Some 1, c3) \<and>
    cvalue (entries c3 1) = Some 11"
proof -
  let ?c1 = "snd (snd (Ns_CacheCreateEntry 1 (mk_time 1 0) ''a'' (demo_cache 0)))" and ?c2 = "demo_put 1 ''a'' 11 100 0 (demo_cache 0)"
  have 1: "Ns_CacheCreateEntry 1 (mk_time 1 0) ''a'' (demo_cache 0) = (1, True, ?c1)"
    by (simp add: demo_cache_def Ns_CacheCreateSz_def Ns_CacheCreateEntry_def Let_def)
  have "map_option fst (Ns_CacheSetValueExpires 1 (Some 11) 100 None 0 0 0 ?c1) = Some 0" by code_simp
  then have 2: "Ns_CacheSetValueExpires 1 (Some 11) 100 None 0 0 0 ?c1 = Some (0, ?c2)" by (auto simp: demo_put_def)
  have 3: "\<not> Expired (mk_time 2 0) (entries ?c2 1)" by code_simp
  have 4: "1 \<notin> snd ` set (entriesTable (demo_cache 0))" by (simp add: demo_cache_def Ns_CacheCreateSz_def)
  show ?thesis using cache_create_find [OF demo_cache_reach 4 1 2 3] by blast
qed

text \<open>
  Committing the transaction of an epoch makes exactly the pending values of that epoch visible to
  everybody and changes no other entry; the table stays the same.
\<close>

theorem Ns_CacheCommitEntries_spec:
  assumes "cache_reach c" "Ns_CacheCommitEntries epoch c = (n, c')"
  shows "entriesTable c' = entriesTable c \<and>
    n = length (filter (\<lambda>b. pending epoch (entries c b)) (uncommittedTable c)) \<and>
    (\<forall>b. if b \<in> set (uncommittedTable c) \<and> pending epoch (entries c b)
         then cvalue (entries c' b) = uncommittedValue (entries c b) \<and> uncommittedValue (entries c' b) = None
         else entries c' b = entries c b)"
proof -
  obtain xs where xs: "cache_rep c xs" by (rule cache_reach_repE [OF assms(1)])
  show ?thesis using commit_rep [OF xs assms(2)] by simp
qed

theorem Ns_CacheCommitEntries_spec_witness:
  "cvalue (entries (demo_put 1 ''a'' 11 100 5 (demo_cache 0)) 1) = None \<and>
    cvalue (entries (snd (Ns_CacheCommitEntries 5 (demo_put 1 ''a'' 11 100 5 (demo_cache 0)))) 1) = Some 11"
proof -
  let ?c = "demo_put 1 ''a'' 11 100 5 (demo_cache 0)"
  have p: "1 \<in> set (uncommittedTable ?c)" "pending 5 (entries ?c 1)" "uncommittedValue (entries ?c 1) = Some 11"
    "cvalue (entries ?c 1) = None" by code_simp+
  obtain n c' where r: "Ns_CacheCommitEntries 5 ?c = (n, c')" by fastforce
  show ?thesis using Ns_CacheCommitEntries_spec [OF demo_cache_reach1 r] p r by auto
qed

text \<open>
  Rolling back the transaction of an epoch deletes exactly the entries with a pending value of that epoch
  and keeps all other entries as they are, in their order of use.
\<close>

theorem Ns_CacheRollbackEntries_spec:
  assumes "cache_reach c" "Ns_CacheRollbackEntries epoch c = (n, c')"
  shows "\<exists>xs. dll c xs \<and> dll c' (filter (\<lambda>b. \<not> (b \<in> set (uncommittedTable c) \<and> pending epoch (entries c b))) xs) \<and>
    set xs = snd ` set (entriesTable c) \<and>
    snd ` set (entriesTable c') =
      {b \<in> snd ` set (entriesTable c). \<not> (b \<in> set (uncommittedTable c) \<and> pending epoch (entries c b))} \<and>
    (\<forall>b. b \<in> set (uncommittedTable c) \<and> pending epoch (entries c b) \<or> body (entries c' b) = body (entries c b))"
proof -
  obtain xs where xs: "cache_rep c xs" by (rule cache_reach_repE [OF assms(1)])
  note R = rollback_rep [OF xs assms(2)]
  show ?thesis
    using cache_repD(1,2) [OF xs] cache_repD(1,2) [OF R(1)] R(3) by (intro exI [of _ xs] conjI allI) (assumption | simp)+
qed

theorem Ns_CacheRollbackEntries_spec_witness:
  "snd ` set (entriesTable (demo_put 1 ''a'' 11 100 5 (demo_cache 0))) = {1} \<and>
    snd ` set (entriesTable (snd (Ns_CacheRollbackEntries 5 (demo_put 1 ''a'' 11 100 5 (demo_cache 0))))) = {}"
proof -
  let ?c = "demo_put 1 ''a'' 11 100 5 (demo_cache 0)"
  have p: "1 \<in> set (uncommittedTable ?c)" "pending 5 (entries ?c 1)" "entriesTable ?c = [(''a'', 1)]" by code_simp+
  obtain n c' where r: "Ns_CacheRollbackEntries 5 ?c = (n, c')" by fastforce
  have s: "snd ` set (entriesTable c') =
      {b \<in> snd ` set (entriesTable ?c). \<not> (b \<in> set (uncommittedTable ?c) \<and> pending 5 (entries ?c b))}"
    using Ns_CacheRollbackEntries_spec [OF demo_cache_reach1 r] by blast
  have "snd ` set (entriesTable c') = {}" unfolding s p(3) using p(1,2) by auto
  then show ?thesis using p(3) r by simp
qed

text \<open>
  \<^verbatim>\<open>Ns_CacheFlush\<close> removes every entry with a committed value and keeps the others (those
  another thread is computing, and the pending ones of transactions) unchanged.
\<close>

theorem Ns_CacheFlush_spec:
  assumes "cache_reach c" "Ns_CacheFlush now c = (n, c')"
  shows "snd ` set (entriesTable c') = {b \<in> snd ` set (entriesTable c). cvalue (entries c b) = None} \<and>
    (\<forall>b\<in>snd ` set (entriesTable c'). body (entries c' b) = body (entries c b))"
proof -
  obtain xs where xs: "cache_rep c xs" by (rule cache_reach_repE [OF assms(1)])
  obtain ys where "cache_rep c' ys" "set ys = {b \<in> set xs. cvalue (entries c b) = None}"
    "\<forall>b\<in>set ys. body (entries c' b) = body (entries c b)"
    using Flush_spec [OF xs assms(2)] by blast
  then show ?thesis using cache_repD(2) [OF xs] cache_repD(2) [of c' ys] by simp
qed

theorem Ns_CacheFlush_spec_witness:
  "snd ` set (entriesTable (snd (Ns_CacheFlush (mk_time 2 0) (demo_put 1 ''a'' 11 100 0 (demo_cache 0))))) = {}"
proof -
  let ?c = "demo_put 1 ''a'' 11 100 0 (demo_cache 0)"
  have p: "cvalue (entries ?c 1) \<noteq> None" "entriesTable ?c = [(''a'', 1)]" by code_simp+
  obtain n c' where r: "Ns_CacheFlush (mk_time 2 0) ?c = (n, c')" by fastforce
  have "snd ` set (entriesTable c') = {b \<in> snd ` set (entriesTable ?c). cvalue (entries ?c b) = None}"
    by (rule Ns_CacheFlush_spec [OF demo_cache_reach1 r, THEN conjunct1])
  then show ?thesis unfolding p(2) using p(1) r by auto
qed

text \<open>
  Whatever other threads do to the cache meanwhile, a thread that waits for an entry gets one only when
  it is new, so that the thread has to compute the value, or when it has a value the thread may see.
\<close>

theorem Ns_CacheWaitCreateEntryT_ready:
  assumes "Ns_CacheWaitCreateEntryT newPtr now key stack waits c = Some (Some e, isNew, c')"
  shows "isNew \<or> Ns_CacheGetValueT stack (entries c' e) \<noteq> None"
proof -
  have loop: "wait_loop key stack waits c = Some (Some e, isNew, c') \<Longrightarrow> isNew \<or> Ns_CacheGetValueT stack (entries c' e) \<noteq> None" for c
    by (induction key stack waits c rule: wait_loop.induct) (auto simp: Let_def split: prod.splits if_splits)
  show ?thesis
    using assms loop by (auto simp: Ns_CacheWaitCreateEntryT_def split: prod.splits if_splits)
qed

theorem Ns_CacheWaitCreateEntryT_ready_witness:
  "\<exists>c'. Ns_CacheWaitCreateEntryT 2 (mk_time 2 0) ''a'' [] [] (demo_put 1 ''a'' 11 100 0 (demo_cache 0)) = Some (Some 1, False, c') \<and>
    Ns_CacheGetValueT [] (entries c' 1) \<noteq> None"
proof -
  let ?r = "Ns_CacheWaitCreateEntryT 2 (mk_time 2 0) ''a'' [] [] (demo_put 1 ''a'' 11 100 0 (demo_cache 0))"
  have "map_option (\<lambda>(e, n, _). (e, n)) ?r = Some (Some 1, False)" by code_simp
  then obtain c' where r: "?r = Some (Some 1, False, c')" by auto
  show ?thesis using Ns_CacheWaitCreateEntryT_ready [OF r] r by auto
qed

subsection \<open>Observations\<close>

text \<open>A lookup that meets an expired entry counts a miss only; \<^verbatim>\<open>nexpired\<close>, which is described as the number of
  unsuccessful gets due to expiry, is not changed.\<close>

lemma find_expired_stats:
  assumes "map_of (entriesTable c) key = Some a" "cvalue (entries c a) \<noteq> None" "Expired now (entries c a)"
  shows "nexpired (stats (snd (Ns_CacheFindEntryT stack now key c))) = nexpired (stats c)"
    "nmiss (stats (snd (Ns_CacheFindEntryT stack now key c))) = Suc (nmiss (stats c))"
  using assms by (simp_all add: Ns_CacheFindEntryT_def upd_stats_def Delete_simps)

text \<open>A pending value of a transaction survives \<^verbatim>\<open>Ns_CacheFlush\<close>, also the one in
  \<^verbatim>\<open>Ns_CacheDestroy\<close>: the entry and the value are never freed then.\<close>

lemma flush_keeps_pending:
  "map fst (entriesTable (snd (Ns_CacheFlush (mk_time 2 0) (demo_put 1 ''a'' 11 100 5 (demo_cache 0))))) = [''a'']"
  "freeCalls (snd (Ns_CacheFlush (mk_time 2 0) (demo_put 1 ''a'' 11 100 5 (demo_cache 0)))) = []"
  by code_simp+

end
