(* ===== verification/NsScan.thy ===== *)
theory NsScan
  imports NsPrelude
begin

text \<open>
  What the parsers of the server share: a pointer that moves along a C string is the suffix that starts
  there, a loop that moves it over a class of characters is \<open>dropWhile\<close>, and \<^verbatim>\<open>strchr\<close> splits the
  text at the first occurrence of a character. The lemmas describe such loops on a text that is composed of a token
  and what follows it.
\<close>

named_theorems scan "how a scan stops on a composed text"

definition NUL_char :: char where "NUL_char = CHR 0x00"

definition CRLF :: cstring where "CRLF = [CHR 0x0D, CHR 0x0A]"

text \<open>The texts on both sides of the first \<open>c\<close>: \<^verbatim>\<open>strchr\<close> followed by overwriting the character with NUL.\<close>

definition split_at :: "char \<Rightarrow> cstring \<Rightarrow> (cstring \<times> cstring) option" where
  "split_at c s = (if c \<in> set s then Some (takeWhile (\<lambda>x. x \<noteq> c) s, tl (dropWhile (\<lambda>x. x \<noteq> c) s)) else None)"

definition skip_spaces :: "cstring \<Rightarrow> cstring" where
  "skip_spaces s = dropWhile c_isspace s"

lemma takeWhile_stop [scan]:
  "\<forall>x \<in> set xs. P x \<Longrightarrow> \<not> P y \<Longrightarrow> takeWhile P (xs @ y # ys) = xs"
  "\<forall>x \<in> set xs. P x \<Longrightarrow> takeWhile P xs = xs"
  by (simp_all add: takeWhile_append2 takeWhile_eq_all_conv)

lemma dropWhile_stop [scan]:
  "\<forall>x \<in> set xs. P x \<Longrightarrow> \<not> P y \<Longrightarrow> dropWhile P (xs @ y # ys) = y # ys"
  "\<forall>x \<in> set xs. P x \<Longrightarrow> dropWhile P xs = []"
  by (simp_all add: dropWhile_append2)

lemma takeWhile_until [scan]:
  "c \<notin> set xs \<Longrightarrow> takeWhile (\<lambda>x. x \<noteq> c) (xs @ c # ys) = xs"
  "c \<notin> set xs \<Longrightarrow> takeWhile (\<lambda>x. x \<noteq> c) xs = xs"
  by (auto intro: takeWhile_stop)

lemma dropWhile_until [scan]:
  "c \<notin> set xs \<Longrightarrow> dropWhile (\<lambda>x. x \<noteq> c) (xs @ c # ys) = c # ys"
  "c \<notin> set xs \<Longrightarrow> dropWhile (\<lambda>x. x \<noteq> c) xs = []"
  by (auto intro: dropWhile_stop)

lemma split_at_join [scan]: "c \<notin> set xs \<Longrightarrow> split_at c (xs @ c # ys) = Some (xs, ys)"
  by (simp add: split_at_def scan)

lemma split_at_None_iff: "split_at c s = None \<longleftrightarrow> c \<notin> set s"
  by (simp add: split_at_def)

lemma split_at_SomeD:
  assumes "split_at c s = Some (a, b)"
  shows "s = a @ c # b" "c \<notin> set a"
proof -
  have c: "c \<in> set s" and ab: "a = takeWhile (\<lambda>x. x \<noteq> c) s" "b = tl (dropWhile (\<lambda>x. x \<noteq> c) s)"
    using assms by (auto simp: split_at_def split: if_splits)
  obtain u v where u: "s = u @ c # v" "c \<notin> set u" using split_list_first [OF c] by blast
  then show "s = a @ c # b" "c \<notin> set a" using ab by (simp_all add: scan)
qed

lemma split_at_length: "split_at c s = Some (a, b) \<Longrightarrow> length a < length s \<and> length b < length s"
  using split_at_SomeD(1) by fastforce

lemma skip_spaces_stop [scan]: "s \<noteq> [] \<Longrightarrow> \<not> c_isspace (hd s) \<Longrightarrow> skip_spaces s = s"
  by (cases s) (simp_all add: skip_spaces_def)

lemma skip_spaces_blank [scan]: "\<forall>x \<in> set b. c_isspace x \<Longrightarrow> skip_spaces (b @ s) = skip_spaces s"
  by (simp add: skip_spaces_def dropWhile_append2)

lemma length_skip_spaces: "length (skip_spaces s) \<le> length s"
  by (simp add: skip_spaces_def length_dropWhile_le)

lemma c_isspace_space [simp]: "c_isspace CHR '' ''"
  by (simp add: c_isspace_def)

subsection \<open>Decimal numbers\<close>

fun decimal :: "nat \<Rightarrow> cstring" where
  "decimal n = (if n < 10 then [] else decimal (n div 10)) @ [char_of (48 + n mod 10)]"

declare decimal.simps [simp del]

definition digits_value :: "cstring \<Rightarrow> int" where
  "digits_value ds = foldl (\<lambda>n c. 10 * n + (int (byte_of c) - 48)) 0 ds"

lemma digits_value_nonneg: "list_all c_isdigit ds \<Longrightarrow> 0 \<le> digits_value ds"
proof -
  have "0 \<le> foldl (\<lambda>n c. 10 * n + (int (byte_of c) - 48)) m ds" if "0 \<le> m" "list_all c_isdigit ds" for m
    using that by (induction ds arbitrary: m) (auto simp: c_isdigit_def)
  then show "list_all c_isdigit ds \<Longrightarrow> 0 \<le> digits_value ds" by (simp add: digits_value_def)
qed

text \<open>
  \<^verbatim>\<open>strtol\<close> to the base ten with 64-bit results: leading white space, a sign, digits; a value out of range
  saturates, and a text without digits has the value 0. The rest is what \<^verbatim>\<open>endptr\<close> points to when there are digits.
\<close>

definition strtol :: "cstring \<Rightarrow> int \<times> cstring" where
  "strtol s =
     (let t = skip_spaces s;
          sign = (if t \<noteq> [] \<and> hd t = CHR ''-'' then -1 else 1);
          t = (if t \<noteq> [] \<and> (hd t = CHR ''-'' \<or> hd t = CHR ''+'') then tl t else t);
          ds = takeWhile c_isdigit t
      in if ds = [] then (0, s)
         else (max (- (2 ^ 63)) (min (2 ^ 63 - 1) (sign * digits_value ds)), dropWhile c_isdigit t))"

lemma decimal_digits: "list_all c_isdigit (decimal n)"
proof (induction n rule: decimal.induct)
  case (1 n)
  have "c_isdigit (char_of (48 + n mod 10))" by (simp add: c_isdigit_def)
  then show ?case using 1 by (cases "n < 10") (simp_all add: decimal.simps [of n])
qed

lemma decimal_not_Nil [simp]: "decimal n \<noteq> []"
  by (subst decimal.simps) simp

lemma digits_value_append: "digits_value (ds @ [c]) = 10 * digits_value ds + (int (byte_of c) - 48)"
  by (simp add: digits_value_def)

lemma digits_value_decimal [simp]: "digits_value (decimal n) = int n"
proof (induction n rule: decimal.induct)
  case (1 n)
  have c: "byte_of (char_of (48 + n mod 10)) = 48 + n mod 10" by simp
  show ?case
  proof (cases "n < 10")
    case True
    then show ?thesis by (simp add: decimal.simps [of n] digits_value_def)
  next
    case False
    then have "int (n div 10) * 10 + int (n mod 10) = int n" by presburger
    then show ?thesis
      using 1 False by (simp add: decimal.simps [of n] digits_value_append c)
  qed
qed

lemma strtol_decimal:
  assumes "int n < 2 ^ 63" "r = [] \<or> \<not> c_isdigit (hd r)"
  shows "strtol (decimal n @ r) = (int n, r)"
proof -
  obtain d ds where d: "decimal n = d # ds" by (cases "decimal n") auto
  have dig: "\<forall>c \<in> set (decimal n). c_isdigit c" using decimal_digits by (simp add: list_all_iff)
  have "c_isdigit d" using dig d by simp
  then have h: "\<not> c_isspace d" "d \<noteq> CHR ''-''" "d \<noteq> CHR ''+''" by (auto simp: c_isdigit_def c_isspace_def)
  have sk: "skip_spaces (decimal n @ r) = decimal n @ r" using h(1) by (simp add: d scan)
  have tk: "takeWhile c_isdigit (decimal n @ r) = decimal n" "dropWhile c_isdigit (decimal n @ r) = r"
    using dig assms(2) by (cases r; simp add: scan)+
  have hd: "hd (decimal n) \<noteq> CHR ''-''" "hd (decimal n) \<noteq> CHR ''+''" using h d by simp_all
  show ?thesis
    using assms(1) by (simp add: strtol_def Let_def sk tk hd)
qed

end
