(* ===== verification/NsRange.thy ===== *)
theory NsRange
  imports NsSet NsScan
begin

text \<open>
  Partial content: the model of \<^verbatim>\<open>nsd/range.c\<close> with the file vectors of \<^verbatim>\<open>nsd/sockfile.c\<close>. The
  request headers are a key/value set of \<^verbatim>\<open>NsSet\<close>. The operations on the connection (response status and
  headers) are recorded in order. Offsets are \<^verbatim>\<open>off_t\<close>, lengths \<^verbatim>\<open>size_t\<close>: unbounded integers
  here, with the saturation of \<^verbatim>\<open>strtoll\<close> written out; the object is shorter than \<open>2 ^ 63\<close> bytes, and every
  offset the code computes is then below its length. \<^verbatim>\<open>Ns_ParseHttpTime\<close> is an argument.
\<close>

record range =
  r_start :: int
  r_end :: int

record Ns_FileVec =
  fv_buffer :: "cstring option"
  fv_length :: nat
  fv_offset :: int
  fv_fd :: int

datatype conn_effect =
  CondSetHeaders cstring cstring
| SetResponseStatus nat
| PrintfHeaders cstring cstring
| SetLengthHeader nat
| SetTypeHeader cstring
| ReturnStatus nat

definition NS_MAX_RANGES :: nat where "NS_MAX_RANGES = 32"

text \<open>\<^verbatim>\<open>strtoll\<close> at a digit: the value, at most \<^verbatim>\<open>LLONG_MAX\<close>, and the rest of the string.\<close>

definition strtoll :: "cstring \<Rightarrow> int \<times> cstring" where
  "strtoll s = (min (2 ^ 63 - 1) (digits_value (takeWhile c_isdigit s)), dropWhile c_isdigit s)"

definition at_digit :: "cstring \<Rightarrow> bool" where
  "at_digit s \<longleftrightarrow> s \<noteq> [] \<and> c_isdigit (hd s)"

subsection \<open>Parsing\<close>

definition MatchRange :: "(cstring \<Rightarrow> int) \<Rightarrow> ns_set \<Rightarrow> int \<Rightarrow> bool" where
  "MatchRange parseHttpTime headers mtime =
     (if Ns_SetIGet headers ''range'' \<noteq> None
      then (case Ns_SetIGet headers ''if-range'' of
              None \<Rightarrow> True
            | Some hdr \<Rightarrow> \<not> mtime > parseHttpTime hdr)
      else True)"

text \<open>One byte-range-spec: first and last position and the rest of the string; \<open>None\<close> for invalid syntax.\<close>

definition parse_spec :: "int \<Rightarrow> cstring \<Rightarrow> (int \<times> int \<times> cstring) option" where
  "parse_spec objLength s =
     (if at_digit s
      then (let (start, s) = strtoll s
            in if s \<noteq> [] \<and> hd s = CHR ''-''
               then (let s = tl s
                     in if at_digit s
                        then (let (e, s) = strtoll s in Some (start, if e \<ge> objLength then objLength - 1 else e, s))
                        else Some (start, objLength - 1, s))
               else None)
      else if s \<noteq> [] \<and> hd s = CHR ''-''
      then (let s = tl s
            in if \<not> at_digit s then None
               else (let (e, s) = strtoll s;
                         e = (if e \<ge> objLength then objLength else e);
                         start = objLength - e
                     in Some (start, start + e - 1, s)))
      else None)"

definition end_of_spec :: "cstring \<Rightarrow> cstring option" where
  "end_of_spec s = (if s = [] then Some [] else if hd s = CHR '','' then Some (tl s) else None)"

lemma strtoll_shorter: "at_digit s \<Longrightarrow> strtoll s = (v, r) \<Longrightarrow> length r < length s"
  by (cases s) (auto simp: at_digit_def strtoll_def less_Suc_eq_le length_dropWhile_le)

lemma parse_spec_shorter: "parse_spec len s = Some (st, e, r) \<Longrightarrow> length r < length s"
  by (auto simp: parse_spec_def Let_def split: if_splits prod.splits dest!: strtoll_shorter)

lemma end_of_spec_shorter: "end_of_spec s = Some r \<Longrightarrow> length r \<le> length s"
  by (auto simp: end_of_spec_def split: if_splits)

definition add_range :: "range \<Rightarrow> range list \<Rightarrow> range list" where
  "add_range this ranges =
     (if ranges = [] then [this]
      else (let prev = last ranges
            in if r_start this > r_end prev + 1 \<or> (r_start prev \<noteq> 0 \<and> r_end this < r_start prev - 1)
               then ranges @ [this]
               else butlast ranges @ [\<lparr>r_start = min (r_start prev) (r_start this), r_end = max (r_end prev) (r_end this)\<rparr>]))"

text \<open>The loop over the specs: the count that is returned, the ranges and the effects.\<close>

function range_loop :: "nat \<Rightarrow> nat \<Rightarrow> cstring \<Rightarrow> range list \<Rightarrow> int \<times> range list \<times> conn_effect list" where
  "range_loop objLength maxRanges s ranges =
     (if s = [] \<or> length ranges = maxRanges then (int (length ranges), ranges, [])
      else (case parse_spec (int objLength) s of
              None \<Rightarrow> (0, ranges, [])
            | Some (start, e, s') \<Rightarrow>
                (case end_of_spec s' of
                   None \<Rightarrow> (0, ranges, [])
                 | Some s'' \<Rightarrow>
                     if start \<ge> int objLength
                     then (-1, ranges, [PrintfHeaders ''content-range'' (''bytes */'' @ decimal objLength), ReturnStatus 416])
                     else if e < start then (0, ranges, [])
                     else range_loop objLength maxRanges s'' (add_range \<lparr>r_start = start, r_end = e\<rparr> ranges))))"
  by auto
termination
  by (relation "measure (\<lambda>(_, _, s, _). length s)") (auto dest!: parse_spec_shorter end_of_spec_shorter)

declare range_loop.simps [simp del]

definition ParseRangeOffsets :: "ns_set \<Rightarrow> nat \<Rightarrow> nat \<Rightarrow> int \<times> range list \<times> conn_effect list" where
  "ParseRangeOffsets headers objLength maxRanges =
     (case Ns_SetIGet headers ''range'' of
        None \<Rightarrow> (0, [], [])
      | Some hdr \<Rightarrow>
          (case strstr hdr ''bytes='' of
             None \<Rightarrow> (0, [], [])
           | Some s \<Rightarrow> range_loop objLength maxRanges (drop 6 s) []))"

subsection \<open>The response\<close>

definition Ns_SetFileVec :: "Ns_FileVec list \<Rightarrow> nat \<Rightarrow> int \<Rightarrow> cstring option \<Rightarrow> int \<Rightarrow> nat \<Rightarrow> nat \<times> Ns_FileVec list" where
  "Ns_SetFileVec bufs i fd data offset len =
     (len, bufs[i := \<lparr>fv_buffer = data, fv_length = len, fv_offset = offset, fv_fd = fd\<rparr>])"

definition range_text :: "int \<Rightarrow> int \<Rightarrow> nat \<Rightarrow> cstring" where
  "range_text start e objLength = ''bytes '' @ decimal (nat start) @ ''-'' @ decimal (nat e) @ ''/'' @ decimal objLength"

definition boundary :: cstring where "boundary = ''NaviServerNaviServerNaviServer''"

definition multipart_header :: "cstring \<Rightarrow> int \<Rightarrow> int \<Rightarrow> nat \<Rightarrow> cstring" where
  "multipart_header type start e objLength =
     ''--'' @ boundary @ CRLF @ ''content-type: '' @ type @ CRLF @
     ''content-range: '' @ range_text start e objLength @ CRLF @ CRLF"

definition AppendMultipartRangeHeader :: "cstring \<Rightarrow> cstring \<Rightarrow> int \<Rightarrow> int \<Rightarrow> nat \<Rightarrow> nat \<times> cstring" where
  "AppendMultipartRangeHeader ds type start e objLength =
     (let ds' = ds @ multipart_header type start e objLength in (length ds' - length ds, ds'))"

definition AppendMultipartRangeTrailer :: "cstring \<Rightarrow> nat \<times> cstring" where
  "AppendMultipartRangeTrailer ds =
     (let ds' = ds @ ''--'' @ boundary @ ''--'' @ CRLF in (length ds' - length ds, ds'))"

text \<open>The first loop: the headers are appended to the string, with their offsets in it.\<close>

fun header_loop ::
  "cstring \<Rightarrow> nat \<Rightarrow> range list \<Rightarrow> nat \<Rightarrow> cstring \<Rightarrow> Ns_FileVec list \<Rightarrow> int \<Rightarrow> nat \<Rightarrow> nat \<times> cstring \<times> Ns_FileVec list \<times> int \<times> nat" where
  "header_loop type objLength [] v ds bufs dsbase len = (v, ds, bufs, dsbase, len)"
| "header_loop type objLength (r # rs) v ds bufs dsbase len =
     (let (n, ds) = AppendMultipartRangeHeader ds type (r_start r) (r_end r) objLength;
          (m, bufs) = Ns_SetFileVec bufs v (-1) None dsbase (len + n)
      in header_loop type objLength rs (v + 2) (ds @ CRLF) bufs (dsbase + int m) 2)"

text \<open>The second loop: the headers get their buffer, and the data is put between them.\<close>

fun rebase_loop ::
  "cstring \<Rightarrow> int \<Rightarrow> cstring option \<Rightarrow> range list \<Rightarrow> nat \<Rightarrow> Ns_FileVec list \<Rightarrow> nat \<Rightarrow> nat \<times> Ns_FileVec list \<times> nat" where
  "rebase_loop ds fd data [] v bufs n = (v, bufs, n)"
| "rebase_loop ds fd data (r # rs) v bufs n =
     (let (m1, bufs) = Ns_SetFileVec bufs v (-1) (Some ds) (fv_offset (bufs ! v)) (fv_length (bufs ! v));
          (m2, bufs) = Ns_SetFileVec bufs (v + 1) fd data (r_start r) (nat (r_end r - r_start r + 1))
      in rebase_loop ds fd data rs (v + 2) bufs (n + m1 + m2))"

definition NsConnParseRange ::
  "(cstring \<Rightarrow> int) \<Rightarrow> ns_set \<Rightarrow> int \<Rightarrow> cstring \<Rightarrow> int \<Rightarrow> cstring option \<Rightarrow> nat \<Rightarrow> Ns_FileVec list \<Rightarrow> nat \<Rightarrow>
   int \<times> Ns_FileVec list \<times> nat \<times> cstring \<times> conn_effect list" where
  "NsConnParseRange parseHttpTime headers mtime type fd data objLength bufs nbufs =
     (let eff0 = [CondSetHeaders ''accept-ranges'' ''bytes''];
          (rangeCount, ranges, eff1) =
            (if MatchRange parseHttpTime headers mtime then ParseRangeOffsets headers objLength NS_MAX_RANGES else (0, [], []))
      in if rangeCount < 1 then (rangeCount, bufs, 0, [], eff0 @ eff1)
         else if rangeCount = 1
         then (let start = r_start (ranges ! 0); e = r_end (ranges ! 0);
                   (responseLength, bufs) = Ns_SetFileVec bufs 0 fd data start (nat (e - start + 1))
               in (rangeCount, bufs, 1, [], eff0 @ eff1 @ [SetResponseStatus 206,
                     PrintfHeaders ''content-range'' (range_text start e objLength), SetLengthHeader responseLength]))
         else (let ranges = take (nat rangeCount) ranges;
                   (v, ds, bufs, dsbase, len) = header_loop type objLength ranges 0 [] bufs 0 0;
                   (n, ds) = AppendMultipartRangeTrailer ds;
                   (_, bufs) = Ns_SetFileVec bufs v (-1) None dsbase (len + n);
                   (v, bufs, responseLength) = rebase_loop ds fd data ranges 0 bufs 0;
                   (m, bufs) = Ns_SetFileVec bufs v (-1) (Some ds) (fv_offset (bufs ! v)) (fv_length (bufs ! v))
               in (rangeCount, bufs, nat rangeCount * 2 + 1, ds, eff0 @ eff1 @ [SetResponseStatus 206,
                     SetTypeHeader (''multipart/byteranges; boundary='' @ boundary), SetLengthHeader (responseLength + m)])))"

fun Ns_ResetFileVec :: "Ns_FileVec list \<Rightarrow> nat \<Rightarrow> nat \<times> Ns_FileVec list" where
  "Ns_ResetFileVec [] sent = (0, [])"
| "Ns_ResetFileVec (b # bs) sent =
     (if sent = 0 then (0, b # bs)
      else if fv_length b > 0
      then (if sent \<ge> fv_length b
            then (let (i, bs) = Ns_ResetFileVec bs (sent - fv_length b)
                  in (Suc i, b\<lparr>fv_buffer := None, fv_offset := 0, fv_length := 0\<rparr> # bs))
            else (0, b\<lparr>fv_offset := fv_offset b + int sent, fv_length := fv_length b - sent\<rparr> # bs))
      else (let (i, bs) = Ns_ResetFileVec bs sent in (Suc i, b # bs)))"


subsection \<open>Valid ranges\<close>

definition range_ok :: "nat \<Rightarrow> range \<Rightarrow> bool" where
  "range_ok objLength r \<longleftrightarrow> 0 \<le> r_start r \<and> r_start r \<le> r_end r \<and> r_end r < int objLength"

lemma strtoll_nonneg: "strtoll s = (v, r) \<Longrightarrow> 0 \<le> v"
proof -
  have "list_all c_isdigit (takeWhile c_isdigit s)" unfolding list_all_iff using set_takeWhileD by fast
  then show "strtoll s = (v, r) \<Longrightarrow> 0 \<le> v" using digits_value_nonneg by (auto simp: strtoll_def)
qed

lemma parse_spec_bounds:
  assumes "parse_spec (int len) s = Some (st, e, r)"
  shows "0 \<le> st" "e < int len"
  using assms by (auto simp: parse_spec_def Let_def split: if_splits prod.splits dest!: strtoll_nonneg)

lemma add_range_ok:
  assumes "range_ok len r" "list_all (range_ok len) rs"
  shows "list_all (range_ok len) (add_range r rs)" "length (add_range r rs) \<le> Suc (length rs)"
proof -
  have "range_ok len (last rs)" if "rs \<noteq> []" using that assms(2) by (simp add: list_all_iff)
  then show "list_all (range_ok len) (add_range r rs)"
    using assms by (auto simp: add_range_def Let_def list_all_iff range_ok_def dest: in_set_butlastD)
  show "length (add_range r rs) \<le> Suc (length rs)" by (auto simp: add_range_def Let_def)
qed

lemma range_loop_ok:
  "list_all (range_ok len) ranges \<Longrightarrow> length ranges \<le> maxr \<Longrightarrow> range_loop len maxr s ranges = (n, rs, eff) \<Longrightarrow>
    list_all (range_ok len) rs \<and> length rs \<le> maxr \<and> -1 \<le> n \<and> (0 < n \<longrightarrow> n = int (length rs)) \<and>
    eff = (if n = -1 then [PrintfHeaders ''content-range'' (''bytes */'' @ decimal len), ReturnStatus 416] else [])"
proof (induction len maxr s ranges rule: range_loop.induct)
  case (1 len maxr s ranges)
  show ?case
  proof (cases "s = [] \<or> length ranges = maxr")
    case True
    then show ?thesis using "1.prems" by (auto simp: range_loop.simps [of len maxr s ranges])
  next
    case go: False
    show ?thesis
    proof (cases "parse_spec (int len) s")
      case None
      then show ?thesis using "1.prems" go by (auto simp: range_loop.simps [of len maxr s ranges])
    next
      case (Some t)
      obtain st e s' where t: "parse_spec (int len) s = Some (st, e, s')" using Some by (cases t) auto
      show ?thesis
      proof (cases "end_of_spec s' \<noteq> None \<and> st < int len \<and> st \<le> e")
        case True
        then obtain s'' where e: "end_of_spec s' = Some s''" "\<not> st \<ge> int len" "\<not> e < st" by auto
        have ok: "range_ok len \<lparr>r_start = st, r_end = e\<rparr>"
          using parse_spec_bounds [OF t] True by (simp add: range_ok_def)
        have "range_loop len maxr s'' (add_range \<lparr>r_start = st, r_end = e\<rparr> ranges) = (n, rs, eff)"
          using "1.prems"(3) go t e by (simp add: range_loop.simps [of len maxr s ranges])
        moreover have "length (add_range \<lparr>r_start = st, r_end = e\<rparr> ranges) \<le> maxr"
          using add_range_ok(2) [OF ok "1.prems"(1)] go "1.prems"(2) by linarith
        ultimately show ?thesis
          using "1.IH" [OF go t refl refl e(1) e(2) e(3)] add_range_ok(1) [OF ok "1.prems"(1)] by simp
      next
        case False
        then show ?thesis
          using "1.prems" go t by (auto simp: range_loop.simps [of len maxr s ranges] split: option.splits if_splits)
      qed
    qed
  qed
qed

text \<open>
  Whatever the \<^verbatim>\<open>Range\<close> header contains, \<^verbatim>\<open>ParseRangeOffsets\<close> returns -1 (after
  answering with status 416) or the number of ranges, at most the maximum; every range it stores lies inside the object:
  its first position is not negative and not after its last, which is before the end of the object.
\<close>

theorem ParseRangeOffsets_valid:
  assumes "ParseRangeOffsets headers objLength maxRanges = (n, rs, eff)"
  shows "-1 \<le> n \<and> n \<le> int maxRanges \<and> length rs \<le> maxRanges \<and> (0 < n \<longrightarrow> n = int (length rs)) \<and>
    (\<forall>r\<in>set rs. 0 \<le> r_start r \<and> r_start r \<le> r_end r \<and> r_end r < int objLength) \<and>
    (ReturnStatus 416 \<in> set eff \<longleftrightarrow> n = -1)"
proof -
  have "list_all (range_ok objLength) rs \<and> length rs \<le> maxRanges \<and> -1 \<le> n \<and> (0 < n \<longrightarrow> n = int (length rs)) \<and>
    eff = (if n = -1 then [PrintfHeaders ''content-range'' (''bytes */'' @ decimal objLength), ReturnStatus 416] else [])"
  proof (cases "\<exists>hdr s. Ns_SetIGet headers ''range'' = Some hdr \<and> strstr hdr ''bytes='' = Some s")
    case True
    then obtain hdr s where "Ns_SetIGet headers ''range'' = Some hdr" "strstr hdr ''bytes='' = Some s" by blast
    then have "range_loop objLength maxRanges (drop 6 s) [] = (n, rs, eff)" using assms by (simp add: ParseRangeOffsets_def)
    then show ?thesis by (intro range_loop_ok) simp_all
  qed (use assms in \<open>auto simp: ParseRangeOffsets_def split: option.splits\<close>)
  then show ?thesis by (auto simp: list_all_iff range_ok_def)
qed

definition demo_headers :: "cstring \<Rightarrow> ns_set" where
  "demo_headers v = snd (Ns_SetPut (Ns_SetCreate None) ''Range'' (Some v))"

theorem ParseRangeOffsets_valid_witness:
  "\<exists>n rs eff. ParseRangeOffsets (demo_headers ''bytes=0-9,5-19,-10'') 100 32 = (n, rs, eff) \<and> n = 2 \<and>
    (\<forall>r\<in>set rs. r_end r < 100)"
proof -
  obtain n rs eff where r: "ParseRangeOffsets (demo_headers ''bytes=0-9,5-19,-10'') 100 32 = (n, rs, eff)"
    by (cases "ParseRangeOffsets (demo_headers ''bytes=0-9,5-19,-10'') 100 32")
  have "fst (ParseRangeOffsets (demo_headers ''bytes=0-9,5-19,-10'') 100 32) = 2" by code_simp
  then show ?thesis using ParseRangeOffsets_valid [OF r] r by auto
qed

subsection \<open>The parts of a response\<close>

text \<open>The bytes a vector stands for, given the contents of the open files.\<close>

definition fv_source :: "(int \<Rightarrow> cstring) \<Rightarrow> int \<Rightarrow> cstring option \<Rightarrow> cstring" where
  "fv_source file fd buf = (if fd < 0 then (case buf of None \<Rightarrow> [] | Some d \<Rightarrow> d) else file fd)"

definition fv_bytes :: "(int \<Rightarrow> cstring) \<Rightarrow> Ns_FileVec \<Rightarrow> cstring" where
  "fv_bytes file b = take (fv_length b) (drop (nat (fv_offset b)) (fv_source file (fv_fd b) (fv_buffer b)))"

definition trailer :: cstring where
  "trailer = ''--'' @ boundary @ ''--'' @ CRLF"

abbreviation header :: "cstring \<Rightarrow> nat \<Rightarrow> range \<Rightarrow> cstring" where
  "header type len r \<equiv> multipart_header type (r_start r) (r_end r) len"

definition range_slice :: "cstring \<Rightarrow> range \<Rightarrow> cstring" where
  "range_slice obj r = take (nat (r_end r - r_start r + 1)) (drop (nat (r_start r)) obj)"

text \<open>The body of a multipart response (after the text \<open>pend\<close>), and the pieces of it that are not data.\<close>

fun multipart_body :: "cstring \<Rightarrow> nat \<Rightarrow> cstring \<Rightarrow> cstring \<Rightarrow> range list \<Rightarrow> cstring" where
  "multipart_body type len obj pend [] = pend @ trailer"
| "multipart_body type len obj pend (r # rs) =
     pend @ header type len r @ range_slice obj r @ multipart_body type len obj CRLF rs"

fun pieces :: "cstring \<Rightarrow> nat \<Rightarrow> cstring \<Rightarrow> range list \<Rightarrow> cstring list" where
  "pieces type len pend [] = [pend @ trailer]"
| "pieces type len pend (r # rs) = (pend @ header type len r) # pieces type len CRLF rs"

lemma length_pieces [simp]: "length (pieces type len pend rs) = Suc (length rs)"
  by (induction rs arbitrary: pend) auto

lemma length_CRLF [simp]: "length CRLF = 2"
  by (simp add: CRLF_def)

lemma header_loop_spec:
  "header_loop type len rs v ds bufs (int dsbase) l = (v', ds', bufs', dsbase', l') \<Longrightarrow>
    length ds = dsbase + l \<Longrightarrow> v + 2 * length rs \<le> length bufs \<Longrightarrow>
    v' = v + 2 * length rs \<and> length bufs' = length bufs \<and> length ds' = nat dsbase' + l' \<and>
    ds' @ trailer = take dsbase ds @ concat (pieces type len (drop dsbase ds) rs) \<and>
    dsbase' = int (dsbase + length (concat (take (length rs) (pieces type len (drop dsbase ds) rs)))) \<and>
    l' + length trailer = length (pieces type len (drop dsbase ds) rs ! length rs) \<and>
    (\<forall>k<v. bufs' ! k = bufs ! k) \<and>
    (\<forall>j<length rs. fv_offset (bufs' ! (v + 2 * j)) = int (dsbase + length (concat (take j (pieces type len (drop dsbase ds) rs)))) \<and>
       fv_length (bufs' ! (v + 2 * j)) = length (pieces type len (drop dsbase ds) rs ! j))"
proof (induction rs arbitrary: v ds bufs dsbase l)
  case Nil
  then show ?case by auto
next
  case (Cons r rs)
  let ?h = "header type len r" and ?pend = "drop dsbase ds"
  let ?b = "\<lparr>fv_buffer = None, fv_length = l + length ?h, fv_offset = int dsbase, fv_fd = -1\<rparr>"
  let ?ds = "(ds @ ?h) @ CRLF" and ?base = "dsbase + (l + length ?h)"
  have pend: "length ?pend = l" using Cons.prems(2) by simp
  have run: "header_loop type len rs (v + 2) ?ds (bufs[v := ?b]) (int ?base) 2 = (v', ds', bufs', dsbase', l')"
    using Cons.prems(1) by (simp add: AppendMultipartRangeHeader_def Ns_SetFileVec_def Let_def)
  have base: "take ?base ?ds = take dsbase ds @ (?pend @ ?h)" "drop ?base ?ds = CRLF"
    using Cons.prems(2) by auto
  have IH: "v' = v + 2 + 2 * length rs \<and> length bufs' = length (bufs[v := ?b]) \<and> length ds' = nat dsbase' + l' \<and>
    ds' @ trailer = take ?base ?ds @ concat (pieces type len (drop ?base ?ds) rs) \<and>
    dsbase' = int (?base + length (concat (take (length rs) (pieces type len (drop ?base ?ds) rs)))) \<and>
    l' + length trailer = length (pieces type len (drop ?base ?ds) rs ! length rs) \<and>
    (\<forall>k<v + 2. bufs' ! k = bufs[v := ?b] ! k) \<and>
    (\<forall>j<length rs. fv_offset (bufs' ! (v + 2 + 2 * j)) = int (?base + length (concat (take j (pieces type len (drop ?base ?ds) rs)))) \<and>
       fv_length (bufs' ! (v + 2 + 2 * j)) = length (pieces type len (drop ?base ?ds) rs ! j))"
    by (rule Cons.IH [OF run]) (use Cons.prems(2,3) in auto)
  have v: "bufs' ! v = ?b" using IH Cons.prems(3) by simp
  have each: "fv_offset (bufs' ! (v + 2 * j)) = int (dsbase + length (concat (take j (pieces type len ?pend (r # rs))))) \<and>
      fv_length (bufs' ! (v + 2 * j)) = length (pieces type len ?pend (r # rs) ! j)" if "j < Suc (length rs)" for j
  proof (cases j)
    case 0
    then show ?thesis using v pend by simp
  next
    case (Suc i)
    then show ?thesis using IH that pend unfolding base by (auto simp: add.assoc)
  qed
  show ?case using IH each pend Cons.prems(2) unfolding base by auto
qed


lemma rebase_loop_spec:
  "rebase_loop ds fd data rs v bufs n = (v', bufs', n') \<Longrightarrow> v + 2 * length rs \<le> length bufs \<Longrightarrow>
    v' = v + 2 * length rs \<and> length bufs' = length bufs \<and>
    (\<forall>k. k < v \<or> v + 2 * length rs \<le> k \<longrightarrow> bufs' ! k = bufs ! k) \<and>
    (\<forall>j<length rs.
       bufs' ! (v + 2 * j) = \<lparr>fv_buffer = Some ds, fv_length = fv_length (bufs ! (v + 2 * j)),
         fv_offset = fv_offset (bufs ! (v + 2 * j)), fv_fd = -1\<rparr> \<and>
       bufs' ! (v + 2 * j + 1) = \<lparr>fv_buffer = data, fv_length = nat (r_end (rs ! j) - r_start (rs ! j) + 1),
         fv_offset = r_start (rs ! j), fv_fd = fd\<rparr>) \<and>
    n' = n + (\<Sum>j<length rs. fv_length (bufs ! (v + 2 * j)) + nat (r_end (rs ! j) - r_start (rs ! j) + 1))"
proof (induction rs arbitrary: v bufs n)
  case Nil
  then show ?case by auto
next
  case (Cons r rs)
  let ?b0 = "\<lparr>fv_buffer = Some ds, fv_length = fv_length (bufs ! v), fv_offset = fv_offset (bufs ! v), fv_fd = -1\<rparr>"
  let ?len = "nat (r_end r - r_start r + 1)"
  let ?b1 = "\<lparr>fv_buffer = data, fv_length = ?len, fv_offset = r_start r, fv_fd = fd\<rparr>"
  let ?bufs = "bufs[v := ?b0, v + 1 := ?b1]"
  have run: "rebase_loop ds fd data rs (v + 2) ?bufs (n + fv_length (bufs ! v) + ?len) = (v', bufs', n')"
    using Cons.prems(1) by (simp add: Ns_SetFileVec_def Let_def)
  have b: "v + 2 + 2 * length rs \<le> length ?bufs" using Cons.prems(2) by simp
  note IH = Cons.IH [OF run b]
  have old: "?bufs ! (v + 2 + 2 * j) = bufs ! (v + 2 * Suc j)" for j by simp
  have v01: "bufs' ! v = ?b0" "bufs' ! (v + 1) = ?b1" using IH b by simp_all
  have each: "bufs' ! (v + 2 * j) = \<lparr>fv_buffer = Some ds, fv_length = fv_length (bufs ! (v + 2 * j)),
         fv_offset = fv_offset (bufs ! (v + 2 * j)), fv_fd = -1\<rparr> \<and>
       bufs' ! (v + 2 * j + 1) = \<lparr>fv_buffer = data, fv_length = nat (r_end ((r # rs) ! j) - r_start ((r # rs) ! j) + 1),
         fv_offset = r_start ((r # rs) ! j), fv_fd = fd\<rparr>" if "j < Suc (length rs)" for j
  proof (cases j)
    case 0
    then show ?thesis using v01 by simp
  next
    case (Suc i)
    then show ?thesis using IH that old [of i] by simp
  qed
  have frame: "bufs' ! k = bufs ! k" if "k < v \<or> v + 2 * length (r # rs) \<le> k" for k
    using IH that by auto
  have "n' = n + (\<Sum>j<Suc (length rs). fv_length (bufs ! (v + 2 * j)) + nat (r_end ((r # rs) ! j) - r_start ((r # rs) ! j) + 1))"
    using IH by (subst sum.lessThan_Suc_shift) (simp add: old)
  then show ?case using IH each frame by simp
qed

text \<open>Vectors that hold the pieces and the data alternately stand for the body.\<close>

lemma concat_pieces:
  "length bs = Suc (2 * length rs) \<Longrightarrow> (\<And>j. j \<le> length rs \<Longrightarrow> f (bs ! (2 * j)) = pieces type len pend rs ! j) \<Longrightarrow>
    (\<And>j. j < length rs \<Longrightarrow> f (bs ! (2 * j + 1)) = range_slice obj (rs ! j)) \<Longrightarrow>
    concat (map f bs) = multipart_body type len obj pend rs"
proof (induction rs arbitrary: bs pend)
  case Nil
  then obtain b where "bs = [b]" by (cases bs) auto
  then show ?case using Nil.prems(2) [of 0] by simp
next
  case (Cons r rs)
  obtain b0 b1 bs' where bs: "bs = b0 # b1 # bs'" "length bs' = Suc (2 * length rs)"
    using Cons.prems(1) by (cases bs; cases "tl bs") auto
  have "concat (map f bs') = multipart_body type len obj CRLF rs"
  proof (rule Cons.IH [OF bs(2)])
    show "f (bs' ! (2 * j)) = pieces type len CRLF rs ! j" if "j \<le> length rs" for j
      using Cons.prems(2) [of "Suc j"] that by (simp add: bs(1))
    show "f (bs' ! (2 * j + 1)) = range_slice obj (rs ! j)" if "j < length rs" for j
      using Cons.prems(3) [of "Suc j"] that by (simp add: bs(1))
  qed
  moreover have "f b0 = pend @ header type len r" "f b1 = range_slice obj r"
    using Cons.prems(2) [of 0] Cons.prems(3) [of 0] by (simp_all add: bs(1))
  ultimately show ?case by (simp add: bs(1))
qed

lemma length_multipart_body:
  "list_all (range_ok (length obj)) rs \<Longrightarrow>
    length (multipart_body type len obj pend rs) =
      (\<Sum>j<length rs. length (pieces type len pend rs ! j) + nat (r_end (rs ! j) - r_start (rs ! j) + 1)) +
      length (pieces type len pend rs ! length rs)"
proof (induction rs arbitrary: pend)
  case (Cons r rs)
  have "length (range_slice obj r) = nat (r_end r - r_start r + 1)"
    using Cons.prems by (auto simp: range_slice_def range_ok_def)
  then show ?case using Cons by (subst length_Cons, subst sum.lessThan_Suc_shift) (simp add: o_def)
qed simp

lemma piece_at:
  assumes "j < length ps"
  shows "take (length (ps ! j)) (drop (length (concat (take j ps))) (concat ps)) = ps ! j"
proof -
  have "concat ps = concat (take j ps) @ ps ! j @ concat (drop (Suc j) ps)"
    by (metis assms concat.simps(2) concat_append id_take_nth_drop)
  then show ?thesis by simp
qed


text \<open>The vectors of a multipart response.\<close>

lemma multipart_vectors:
  assumes hl: "header_loop type (length obj) rs 0 [] bufs 0 0 = (v, ds, bufs1, dsbase, l)"
    and tr: "AppendMultipartRangeTrailer ds = (n, ds')"
    and sv: "Ns_SetFileVec bufs1 v (-1) None dsbase (l + n) = (m0, bufs2)"
    and rl: "rebase_loop ds' fd data rs 0 bufs2 0 = (v2, bufs3, len)"
    and sv2: "Ns_SetFileVec bufs3 v2 (-1) (Some ds') (fv_offset (bufs3 ! v2)) (fv_length (bufs3 ! v2)) = (m, bufs4)"
    and room: "2 * length rs < length bufs" and ok: "list_all (range_ok (length obj)) rs"
    and obj: "obj = fv_source file fd data"
  shows "length bufs4 = length bufs"
    "concat (map (fv_bytes file) (take (Suc (2 * length rs)) bufs4)) = multipart_body type (length obj) obj [] rs"
    "len + m = length (multipart_body type (length obj) obj [] rs)"
proof -
  let ?k = "length rs" and ?ps = "pieces type (length obj) [] rs"
  have H: "v = 2 * ?k" "length bufs1 = length bufs" "ds @ trailer = concat ?ps"
    "dsbase = int (length (concat (take ?k ?ps)))" "l + length trailer = length (?ps ! ?k)"
    "\<forall>j<?k. fv_offset (bufs1 ! (2 * j)) = int (length (concat (take j ?ps))) \<and> fv_length (bufs1 ! (2 * j)) = length (?ps ! j)"
    using header_loop_spec [of type "length obj" rs 0 "[]" bufs 0 0 v ds bufs1 dsbase l] hl room by auto
  have T: "n = length trailer" "ds' = concat ?ps" using tr H(3) by (auto simp: AppendMultipartRangeTrailer_def trailer_def Let_def)
  have B2: "length bufs2 = length bufs" "fv_offset (bufs2 ! (2 * j)) = int (length (concat (take j ?ps)))"
    "fv_length (bufs2 ! (2 * j)) = length (?ps ! j)" if "j \<le> ?k" for j
    using that sv H room T(1) by (auto simp: Ns_SetFileVec_def nth_list_update)
  have "0 + 2 * ?k \<le> length bufs2" using B2(1) [of 0] room by simp
  note R = rebase_loop_spec [OF rl this]
  have v2: "v2 = 2 * ?k" "length bufs3 = length bufs" using R B2(1) [of 0] by simp_all
  have last: "bufs3 ! (2 * ?k) = bufs2 ! (2 * ?k)" using R by simp
  have B4: "length bufs4 = length bufs" "m = length (?ps ! ?k)"
    using sv2 v2 last B2(3) [of ?k] by (auto simp: Ns_SetFileVec_def)
  show "length bufs4 = length bufs" by (rule B4(1))
  have piece: "fv_bytes file (bufs4 ! (2 * j)) = ?ps ! j" if "j \<le> ?k" for j
  proof -
    have "bufs4 ! (2 * j) = \<lparr>fv_buffer = Some ds', fv_length = length (?ps ! j), fv_offset = int (length (concat (take j ?ps))), fv_fd = -1\<rparr>"
    proof (cases "j = ?k")
      case True
      then show ?thesis using sv2 v2 last B2(2,3) [of ?k] room by (auto simp: Ns_SetFileVec_def)
    next
      case False
      then have "bufs4 ! (2 * j) = bufs3 ! (2 * j)" using sv2 v2 that by (auto simp: Ns_SetFileVec_def)
      then show ?thesis using R False that B2(2,3) [OF that] by simp
    qed
    then show ?thesis using piece_at [of j ?ps] that T(2) by (simp add: fv_bytes_def fv_source_def)
  qed
  have data: "fv_bytes file (bufs4 ! (2 * j + 1)) = range_slice obj (rs ! j)" if "j < ?k" for j
  proof -
    have "bufs4 ! (2 * j + 1) = bufs3 ! (2 * j + 1)"
    proof -
      have "2 * j + 1 \<noteq> 2 * ?k" by presburger
      then show ?thesis using sv2 v2(1) by (auto simp: Ns_SetFileVec_def)
    qed
    then show ?thesis using R that by (simp add: fv_bytes_def range_slice_def obj)
  qed
  show "concat (map (fv_bytes file) (take (Suc (2 * ?k)) bufs4)) = multipart_body type (length obj) obj [] rs"
    by (rule concat_pieces) (use B4(1) room piece data in auto)
  have "len = (\<Sum>j<?k. length (?ps ! j) + nat (r_end (rs ! j) - r_start (rs ! j) + 1))"
    using R B2(3) by simp
  then show "len + m = length (multipart_body type (length obj) obj [] rs)"
    using length_multipart_body [OF ok, of type "length obj" "[]"] B4(2) by simp
qed



definition demo_bufs :: "Ns_FileVec list" where
  "demo_bufs = replicate 65 \<lparr>fv_buffer = None, fv_length = 0, fv_offset = 0, fv_fd = -1\<rparr>"


subsection \<open>Sending in parts\<close>

definition fv_ok :: "(int \<Rightarrow> cstring) \<Rightarrow> Ns_FileVec \<Rightarrow> bool" where
  "fv_ok file b \<longleftrightarrow> 0 \<le> fv_offset b \<and> nat (fv_offset b) + fv_length b \<le> length (fv_source file (fv_fd b) (fv_buffer b))"

lemma length_fv_bytes: "fv_ok file b \<Longrightarrow> length (fv_bytes file b) = fv_length b"
  by (auto simp: fv_ok_def fv_bytes_def)

lemma fv_bytes_advance:
  assumes "fv_ok file b" "sent \<le> fv_length b"
  shows "fv_bytes file (b\<lparr>fv_offset := fv_offset b + int sent, fv_length := fv_length b - sent\<rparr>) = drop sent (fv_bytes file b)"
proof -
  have "nat (fv_offset b + int sent) = nat (fv_offset b) + sent" using assms(1) by (simp add: fv_ok_def nat_add_distrib)
  then show ?thesis by (simp add: fv_bytes_def drop_take add.commute)
qed

text \<open>
  After \<open>sent\<close> bytes of a vector have been written, \<^verbatim>\<open>Ns_ResetFileVec\<close> leaves a vector that
  stands for exactly the bytes that are still to be written, and returns the index of the first entry to go on with:
  everything before it is empty.
\<close>

theorem Ns_ResetFileVec_rest:
  assumes "list_all (fv_ok file) bufs" "Ns_ResetFileVec bufs sent = (i, bufs')"
  shows "concat (map (fv_bytes file) bufs') = drop sent (concat (map (fv_bytes file) bufs)) \<and>
    i \<le> length bufs' \<and> length bufs' = length bufs \<and> concat (map (fv_bytes file) (take i bufs')) = []"
  using assms
proof (induction bufs sent arbitrary: i bufs' rule: Ns_ResetFileVec.induct)
  case (1 sent)
  then show ?case by simp
next
  case (2 b bs sent)
  have b: "length (fv_bytes file b) = fv_length b" using "2.prems"(1) by (simp add: length_fv_bytes)
  consider "sent = 0" | (all) "sent > 0" "fv_length b > 0" "sent \<ge> fv_length b" | (part) "fv_length b > sent" "sent > 0"
    | (skip) "sent > 0" "fv_length b = 0" by linarith
  then show ?case
  proof cases
    case all
    obtain j bs' where r: "Ns_ResetFileVec bs (sent - fv_length b) = (j, bs')" by fastforce
    have IH: "concat (map (fv_bytes file) bs') = drop (sent - fv_length b) (concat (map (fv_bytes file) bs)) \<and>
      j \<le> length bs' \<and> length bs' = length bs \<and> concat (map (fv_bytes file) (take j bs')) = []"
      using "2.IH"(1) [OF _ _ _ _ r] all "2.prems"(1) by simp
    have "fv_bytes file (b\<lparr>fv_buffer := None, fv_offset := 0, fv_length := 0\<rparr>) = []" by (simp add: fv_bytes_def)
    then show ?thesis using all IH r "2.prems"(2) b by (auto simp: Let_def)
  next
    case part
    have "fv_bytes file (b\<lparr>fv_offset := fv_offset b + int sent, fv_length := fv_length b - sent\<rparr>) = drop sent (fv_bytes file b)"
      using "2.prems"(1) part(1) by (intro fv_bytes_advance) simp_all
    then show ?thesis using part "2.prems"(2) b by auto
  next
    case skip
    obtain j bs' where r: "Ns_ResetFileVec bs sent = (j, bs')" by fastforce
    have "concat (map (fv_bytes file) bs') = drop sent (concat (map (fv_bytes file) bs)) \<and>
      j \<le> length bs' \<and> length bs' = length bs \<and> concat (map (fv_bytes file) (take j bs')) = []"
      using "2.IH"(2) [OF _ _ _ r] skip "2.prems"(1) by simp
    then show ?thesis using skip r "2.prems"(2) b by (auto simp: Let_def)
  qed (use "2.prems" in simp)
qed

theorem Ns_ResetFileVec_rest_witness:
  "let bufs = [\<lparr>fv_buffer = Some ''abcdef'', fv_length = 3, fv_offset = 1, fv_fd = -1\<rparr>,
               \<lparr>fv_buffer = Some ''xyz'', fv_length = 3, fv_offset = 0, fv_fd = -1\<rparr>]
   in concat (map (fv_bytes (\<lambda>_. [])) (snd (Ns_ResetFileVec bufs 4))) = ''yz''"
proof -
  let ?bufs = "[\<lparr>fv_buffer = Some ''abcdef'', fv_length = 3, fv_offset = 1, fv_fd = -1\<rparr>,
    \<lparr>fv_buffer = Some ''xyz'', fv_length = 3, fv_offset = 0, fv_fd = -1\<rparr>]"
  obtain i bufs' where r: "Ns_ResetFileVec ?bufs 4 = (i, bufs')" by fastforce
  have "list_all (fv_ok (\<lambda>_. [])) ?bufs" by code_simp
  from Ns_ResetFileVec_rest [OF this r] have "concat (map (fv_bytes (\<lambda>_. [])) bufs') = drop 4 (concat (map (fv_bytes (\<lambda>_. [])) ?bufs))" ..
  moreover have "drop 4 (concat (map (fv_bytes (\<lambda>_. [])) ?bufs)) = ''yz''" by code_simp
  ultimately show ?thesis unfolding Let_def r snd_conv by (rule trans)
qed

subsection \<open>Observations\<close>

text \<open>A header that merely contains \<^verbatim>\<open>bytes=\<close> is accepted although the message for the other case says
  that the specification has to start with it; and a range is merged with its predecessor only, so the ranges of a response
  may overlap.\<close>

lemma range_header_anywhere:
  "fst (ParseRangeOffsets (demo_headers ''items=1;bytes=0-1'') 100 32) = 1"
  by code_simp

lemma ranges_overlap:
  "fst (snd (ParseRangeOffsets (demo_headers ''bytes=10-20,30-40,15-35'') 100 32)) =
     [\<lparr>r_start = 10, r_end = 20\<rparr>, \<lparr>r_start = 15, r_end = 40\<rparr>]"
  by code_simp

end
