(* ===== verification/NsSockaddr.thy ===== *)
theory NsSockaddr
  imports NsScan "HOL-Library.Word"
begin

unbundle bit_operations_syntax

text \<open>
  Socket addresses: the model of the address arithmetic of \<^verbatim>\<open>nsd/sockaddr.c\<close>. An address has a family and the
  bytes of its IPv4 and of its IPv6 address in network order (the two do not overlap in a
  \<^verbatim>\<open>sockaddr_storage\<close>). The code masks addresses in words of 4 and 8 bytes, which is the
  conjunction of the bytes in either byte order. The functions take distinct objects, as all their callers pass. The
  conversion of a text to an address, \<^verbatim>\<open>inet_pton\<close> of the C library, is the argument \<open>pton4\<close> and
  \<open>pton6\<close>.

  The bits of an address are the list of its bits from the most significant one on; a constraint in CIDR
  notation matches exactly the addresses that agree with it in the leading bits it asks for.
\<close>

datatype sa_family_t = AF_UNSPEC | AF_INET | AF_INET6

record sockaddr =
  sa_family :: sa_family_t
  sin_addr :: "8 word list"
  sin6_addr :: "8 word list"

definition sa_zero :: sockaddr where
  "sa_zero = \<lparr>sa_family = AF_UNSPEC, sin_addr = replicate 4 0, sin6_addr = replicate 16 0\<rparr>"

definition sa_ok :: "sockaddr \<Rightarrow> bool" where
  "sa_ok sa \<longleftrightarrow> length (sin_addr sa) = 4 \<and> length (sin6_addr sa) = 16"

subsection \<open>Operations\<close>

definition mapped_prefix :: "8 word list" where
  "mapped_prefix = replicate 10 0 @ [0xFF, 0xFF]"

definition SockaddrGetMappedV4 :: "sockaddr \<Rightarrow> 8 word list option" where
  "SockaddrGetMappedV4 sa =
     (if sa_family sa = AF_INET6 \<and> take 12 (sin6_addr sa) = mapped_prefix then Some (drop 12 (sin6_addr sa)) else None)"

definition SockaddrSetMappedV4 :: "sockaddr \<Rightarrow> 8 word list \<Rightarrow> sockaddr" where
  "SockaddrSetMappedV4 sa addr4 = sa\<lparr>sin6_addr := mapped_prefix @ addr4\<rparr>"

definition SockaddrGetComparableV4 :: "sockaddr \<Rightarrow> 8 word list option" where
  "SockaddrGetComparableV4 sa = (if sa_family sa = AF_INET then Some (sin_addr sa) else SockaddrGetMappedV4 sa)"

definition and_bytes :: "8 word list \<Rightarrow> 8 word list \<Rightarrow> 8 word list" where
  "and_bytes a m = map2 (AND) a m"

text \<open>The result and the new \<^verbatim>\<open>*maskedAddr\<close>.\<close>

definition Ns_SockaddrMask :: "sockaddr \<Rightarrow> sockaddr \<Rightarrow> bool \<times> sockaddr" where
  "Ns_SockaddrMask addr msk =
     (if sa_family addr = AF_INET6 \<and> sa_family msk = AF_INET6 then
        (True, addr\<lparr>sin6_addr := and_bytes (sin6_addr addr) (sin6_addr msk)\<rparr>)
      else if sa_family addr = AF_INET \<and> sa_family msk = AF_INET then
        (True, addr\<lparr>sin_addr := and_bytes (sin_addr addr) (sin_addr msk)\<rparr>)
      else if sa_family addr = AF_INET \<and> sa_family msk = AF_INET6 then
        (case SockaddrGetMappedV4 msk of
           Some mask4 \<Rightarrow> (True, addr\<lparr>sin_addr := and_bytes (sin_addr addr) mask4\<rparr>)
         | None \<Rightarrow> (False, addr))
      else if sa_family addr = AF_INET6 \<and> sa_family msk = AF_INET then
        (case SockaddrGetMappedV4 addr of
           Some addr4 \<Rightarrow> (True, SockaddrSetMappedV4 addr (and_bytes addr4 (sin_addr msk)))
         | None \<Rightarrow> (False, addr))
      else (False, addr))"

definition Ns_SockaddrSameIP :: "sockaddr \<Rightarrow> sockaddr \<Rightarrow> bool" where
  "Ns_SockaddrSameIP addr1 addr2 =
     (if sa_family addr1 = AF_INET6 \<and> sa_family addr2 = AF_INET6 then sin6_addr addr1 = sin6_addr addr2
      else if sa_family addr1 = AF_INET \<and> sa_family addr2 = AF_INET then sin_addr addr1 = sin_addr addr2
      else if sa_family addr1 = AF_INET \<and> sa_family addr2 = AF_INET6 then SockaddrGetMappedV4 addr2 = Some (sin_addr addr1)
      else if sa_family addr1 = AF_INET6 \<and> sa_family addr2 = AF_INET then SockaddrGetMappedV4 addr1 = Some (sin_addr addr2)
      else False)"

definition Ns_SockaddrMaskedMatch :: "sockaddr \<Rightarrow> sockaddr \<Rightarrow> sockaddr \<Rightarrow> bool" where
  "Ns_SockaddrMaskedMatch addr msk masked =
     (if sa_family addr = AF_INET6 \<and> sa_family msk = AF_INET6 \<and> sa_family masked = AF_INET6 then
        and_bytes (sin6_addr addr) (sin6_addr msk) = sin6_addr masked
      else if sa_family addr = AF_INET \<and> sa_family msk = AF_INET \<and> sa_family masked = AF_INET then
        and_bytes (sin_addr addr) (sin_addr msk) = sin_addr masked
      else
        (case (SockaddrGetComparableV4 addr, SockaddrGetComparableV4 msk, SockaddrGetComparableV4 masked) of
           (Some a, Some m, Some o4) \<Rightarrow> and_bytes a m = o4
         | _ \<Rightarrow> False))"

text \<open>The bytes \<^verbatim>\<open>Ns_SockaddrMaskBits\<close> writes into an address of \<open>len\<close> bytes.\<close>

definition mask_bytes :: "nat \<Rightarrow> nat \<Rightarrow> 8 word list" where
  "mask_bytes len nrBits =
     (let full = nrBits div 8; rem = nrBits mod 8
      in replicate full 0xFF @
         (if full < len then
            (if rem \<noteq> 0 then push_bit (8 - rem) 0xFF # replicate (len - full - 1) 0 else replicate (len - full) 0)
          else []))"

definition Ns_SockaddrMaskBits :: "sockaddr \<Rightarrow> nat \<Rightarrow> bool \<times> sockaddr" where
  "Ns_SockaddrMaskBits msk nrBits =
     (case sa_family msk of
        AF_INET6 \<Rightarrow> (True, msk\<lparr>sin6_addr := mask_bytes 16 (min nrBits 128)\<rparr>)
      | AF_INET \<Rightarrow> (True, msk\<lparr>sin_addr := mask_bytes 4 (min nrBits 32)\<rparr>)
      | AF_UNSPEC \<Rightarrow> (False, msk))"

text \<open>
  \<^verbatim>\<open>ns_inet_pton\<close> tries IPv4 first; the address is changed only on success. Only whether the result
  is positive matters to the callers below.
\<close>

type_synonym pton = "cstring \<Rightarrow> 8 word list option"

definition ns_inet_pton :: "pton \<Rightarrow> pton \<Rightarrow> sockaddr \<Rightarrow> cstring \<Rightarrow> bool \<times> sockaddr" where
  "ns_inet_pton pton4 pton6 sa addr =
     (case pton4 addr of
        Some b \<Rightarrow> (True, sa\<lparr>sa_family := AF_INET, sin_addr := b\<rparr>)
      | None \<Rightarrow>
          (case pton6 addr of
             Some b \<Rightarrow> (True, sa\<lparr>sa_family := AF_INET6, sin6_addr := b\<rparr>)
           | None \<Rightarrow> (False, sa)))"

text \<open>The bytes of a 32-bit number in network order, and the IPv4 mask of a mapped constraint.\<close>

definition htonl_bytes :: "32 word \<Rightarrow> 8 word list" where
  "htonl_bytes w = map (\<lambda>k. ucast (drop_bit k w)) [24, 16, 8, 0]"

definition v4mask :: "nat \<Rightarrow> 8 word list" where
  "v4mask v4bits =
     (if v4bits = 0 then htonl_bytes 0 else htonl_bytes (NOT (push_bit (32 - v4bits) 1 - 1)))"

text \<open>\<^verbatim>\<open>(unsigned int)strtol(slash, NULL, 10)\<close>\<close>

definition mask_number :: "cstring \<Rightarrow> nat" where
  "mask_number s = nat (fst (strtol s) mod 2 ^ 32)"

definition parse_mask :: "pton \<Rightarrow> pton \<Rightarrow> sockaddr \<Rightarrow> cstring \<Rightarrow> sockaddr \<times> nat" where
  "parse_mask pton4 pton6 ip slash =
     (if CHR ''.'' \<notin> set slash \<and> CHR '':'' \<notin> set slash then
        (let msk = sa_zero\<lparr>sa_family := sa_family ip\<rparr>;
             nrBits = mask_number slash
         in (if sa_family ip = AF_INET6 \<and> SockaddrGetMappedV4 ip \<noteq> None \<and> 96 \<le> nrBits \<and> nrBits \<le> 128 then
               SockaddrSetMappedV4 msk (v4mask (nrBits - 96))
             else snd (Ns_SockaddrMaskBits msk nrBits), nrBits))
      else
        (case ns_inet_pton pton4 pton6 sa_zero slash of
           (valid, msk) \<Rightarrow> (msk, if valid then (if sa_family msk = AF_INET6 then 128 else 32) else 0)))"

text \<open>
  The status with the masked address, the mask and the number of bits. In the form without a mask nothing has to
  be masked. An invalid mask is not an error by itself (the test is \<^verbatim>\<open>validMask < 0\<close>), but
  an address cannot be masked by the address without family it leaves behind.
\<close>

definition Ns_SockaddrParseIPMask ::
    "pton \<Rightarrow> pton \<Rightarrow> cstring \<Rightarrow> Ns_ReturnCode \<times> sockaddr \<times> sockaddr \<times> nat" where
  "Ns_SockaddrParseIPMask pton4 pton6 ipString =
     (case split_at (CHR ''/'') ipString of
        None \<Rightarrow>
          (case ns_inet_pton pton4 pton6 sa_zero ipString of
             (validIP, ip) \<Rightarrow>
               if validIP then
                 (let nrBits = (if sa_family ip = AF_INET6 then 128 else 32);
                      (ok, msk) = Ns_SockaddrMaskBits (sa_zero\<lparr>sa_family := sa_family ip\<rparr>) nrBits
                  in (if ok then NS_OK else NS_ERROR, ip, msk, nrBits))
               else (NS_ERROR, ip, sa_zero, 0))
      | Some (addr, slash) \<Rightarrow>
          (case ns_inet_pton pton4 pton6 sa_zero addr of
             (validIP, ip) \<Rightarrow>
               (let (msk, nrBits) = parse_mask pton4 pton6 ip slash;
                    (ok, masked) = Ns_SockaddrMask ip msk
                in (if validIP \<and> ok then NS_OK else NS_ERROR, masked, msk, nrBits))))"

subsection \<open>Public addresses and trusted proxies\<close>

definition nonPublicCIDR :: "cstring list" where
  "nonPublicCIDR =
     [''10.0.0.0/8'', ''172.16.0.0/12'', ''192.168.0.0/16'', ''fc00::/7'', ''127.0.0.0/8'', ''::1/128'',
      ''169.254.0.0/16'', ''fe80::/10'', ''0.0.0.0/8'', ''::/128'']"

text \<open>An entry is kept also when its text is invalid: its mask then has no family or an arbitrary one.\<close>

definition SockkAddrInitMaskedEntry :: "pton \<Rightarrow> pton \<Rightarrow> cstring \<Rightarrow> sockaddr \<times> sockaddr" where
  "SockkAddrInitMaskedEntry pton4 pton6 cdirString =
     (case Ns_SockaddrParseIPMask pton4 pton6 cdirString of (_, masked, msk, _) \<Rightarrow> (msk, masked))"

definition SockAddrInit :: "pton \<Rightarrow> pton \<Rightarrow> cstring list \<Rightarrow> (sockaddr \<times> sockaddr) list \<times> (sockaddr \<times> sockaddr) list" where
  "SockAddrInit pton4 pton6 trustedservers =
     (map (SockkAddrInitMaskedEntry pton4 pton6) nonPublicCIDR, map (SockkAddrInitMaskedEntry pton4 pton6) trustedservers)"

definition in_entries :: "(sockaddr \<times> sockaddr) list \<Rightarrow> sockaddr \<Rightarrow> bool" where
  "in_entries es sa = list_ex (\<lambda>(msk, masked). Ns_SockaddrMaskedMatch sa msk masked) es"

definition Ns_SockaddrTrustedReverseProxy :: "pton \<Rightarrow> pton \<Rightarrow> cstring list \<Rightarrow> sockaddr \<Rightarrow> bool" where
  "Ns_SockaddrTrustedReverseProxy pton4 pton6 trusted sa = in_entries (snd (SockAddrInit pton4 pton6 trusted)) sa"

definition Ns_SockaddrPublicIpAddress :: "pton \<Rightarrow> pton \<Rightarrow> cstring list \<Rightarrow> sockaddr \<Rightarrow> bool" where
  "Ns_SockaddrPublicIpAddress pton4 pton6 trusted sa = (\<not> in_entries (fst (SockAddrInit pton4 pton6 trusted)) sa)"

definition Ns_SockaddrInAny :: "sockaddr \<Rightarrow> bool" where
  "Ns_SockaddrInAny sa =
     (case sa_family sa of
        AF_INET \<Rightarrow> sin_addr sa = replicate 4 0
      | AF_INET6 \<Rightarrow> sin6_addr sa = replicate 16 0
      | AF_UNSPEC \<Rightarrow> False)"

definition Ns_SockaddrSetLoopback :: "sockaddr \<Rightarrow> bool \<times> sockaddr" where
  "Ns_SockaddrSetLoopback sa =
     (case sa_family sa of
        AF_INET \<Rightarrow> (True, sa\<lparr>sin_addr := [127, 0, 0, 1]\<rparr>)
      | AF_INET6 \<Rightarrow> (True, sa\<lparr>sin6_addr := replicate 15 0 @ [1]\<rparr>)
      | AF_UNSPEC \<Rightarrow> (False, sa))"

subsection \<open>Bits\<close>

definition octet_bits :: "8 word \<Rightarrow> bool list" where
  "octet_bits b = map (bit b) [7, 6, 5, 4, 3, 2, 1, 0]"

definition bits :: "8 word list \<Rightarrow> bool list" where
  "bits bs = concat (map octet_bits bs)"

lemma length_octet_bits [simp]: "length (octet_bits b) = 8"
  by (simp add: octet_bits_def)

lemma length_bits [simp]: "length (bits bs) = 8 * length bs"
  by (induction bs) (simp_all add: bits_def)

lemma bits_simps [simp]: "bits [] = []" "bits (b # bs) = octet_bits b @ bits bs" "bits (as @ bs) = bits as @ bits bs"
  by (simp_all add: bits_def)

lemma octet_bits_inject: "octet_bits a = octet_bits b \<longleftrightarrow> a = b"
proof
  assume "octet_bits a = octet_bits b"
  then have "bit a n = bit b n" if "n < 8" for n
    using that by (auto simp: octet_bits_def less_Suc_eq numeral_eq_Suc)
  then show "a = b" by (intro bit_word_eqI) simp
qed simp

lemma bits_inject: "length a = length b \<Longrightarrow> bits a = bits b \<longleftrightarrow> a = b"
  by (induction a b rule: list_induct2) (auto simp: octet_bits_inject)

lemma bits_and: "length a = length m \<Longrightarrow> bits (and_bytes a m) = map2 (\<and>) (bits a) (bits m)"
  by (induction a m rule: list_induct2) (simp_all add: and_bytes_def octet_bits_def bit_and_iff)

lemma length_and_bytes [simp]: "length (and_bytes a m) = min (length a) (length m)"
  by (simp add: and_bytes_def)

lemma bits_replicate: "bits (replicate n 0) = replicate (8 * n) False" "bits (replicate n 0xFF) = replicate (8 * n) True"
proof -
  have "octet_bits 0 = replicate 8 False" "octet_bits 0xFF = replicate 8 True" by code_simp+
  then show "bits (replicate n 0) = replicate (8 * n) False" "bits (replicate n 0xFF) = replicate (8 * n) True"
    by (induction n) (simp_all add: replicate_add [symmetric])
qed

lemma bits_partial: "r < 8 \<Longrightarrow> octet_bits (push_bit (8 - r) 0xFF) = replicate r True @ replicate (8 - r) False"
proof -
  have "list_all (\<lambda>r. octet_bits (push_bit (8 - r) 0xFF) = replicate r True @ replicate (8 - r) False) [0..<8]"
    by code_simp
  then show "r < 8 \<Longrightarrow> octet_bits (push_bit (8 - r) 0xFF) = replicate r True @ replicate (8 - r) False"
    by (simp add: list_all_iff)
qed

lemma bits_mask_bytes:
  assumes "n \<le> 8 * len"
  shows "bits (mask_bytes len n) = replicate n True @ replicate (8 * len - n) False" "length (mask_bytes len n) = len"
proof -
  define f r where "f = n div 8" and "r = n mod 8"
  have n: "n = 8 * f + r" "r < 8" by (simp_all add: f_def r_def)
  consider "f = len" "r = 0" | "f < len" "r = 0" | "f < len" "r > 0" using assms n by linarith
  then have "bits (mask_bytes len n) = replicate n True @ replicate (8 * len - n) False \<and> length (mask_bytes len n) = len"
  proof cases
    case 3
    have l: "8 * len - n = (8 - r) + 8 * (len - f - 1)" using 3 n by auto
    have "replicate (8 * len - n) False = replicate (8 - r) False @ replicate (8 * (len - f - 1)) False"
      unfolding l by (rule replicate_add)
    moreover have "replicate n True = replicate (8 * f) True @ replicate r True"
      unfolding n(1) by (rule replicate_add)
    ultimately show ?thesis
      using 3 bits_partial [OF n(2)]
      by (simp add: mask_bytes_def f_def [symmetric] r_def [symmetric] bits_replicate Let_def)
  qed (use n in \<open>auto simp: mask_bytes_def f_def [symmetric] r_def [symmetric] bits_replicate Let_def
        diff_mult_distrib2\<close>)
  then show "bits (mask_bytes len n) = replicate n True @ replicate (8 * len - n) False" "length (mask_bytes len n) = len"
    by auto
qed

lemma map2_and_prefix:
  "n \<le> length a \<Longrightarrow> map2 (\<and>) a (replicate n True @ replicate (length a - n) False) =
     take n a @ replicate (length a - n) False"
proof -
  assume n: "n \<le> length a"
  have "map2 (\<and>) (take n a) (replicate n True) = take n a"
    using n by (auto intro!: nth_equalityI)
  moreover have "map2 (\<and>) (drop n a) (replicate (length a - n) False) = replicate (length a - n) False"
    by (auto intro!: nth_equalityI)
  moreover have "map2 (\<and>) (take n a @ drop n a) (replicate n True @ replicate (length a - n) False) =
      map2 (\<and>) (take n a) (replicate n True) @ map2 (\<and>) (drop n a) (replicate (length a - n) False)"
    using n by (subst zip_append) simp_all
  ultimately show ?thesis by simp
qed

text \<open>Two addresses that are equal under the mask agree in its leading bits, and conversely.\<close>

lemma masked_eq_iff:
  assumes "length a = len" "length c = len" "n \<le> 8 * len"
  shows "and_bytes a (mask_bytes len n) = and_bytes c (mask_bytes len n) \<longleftrightarrow> take n (bits a) = take n (bits c)"
proof -
  have m: "bits (and_bytes x (mask_bytes len n)) = take n (bits x) @ replicate (8 * len - n) False" if "length x = len" for x
    using that assms(3) map2_and_prefix [of n "bits x"] by (simp add: bits_and bits_mask_bytes)
  have "and_bytes a (mask_bytes len n) = and_bytes c (mask_bytes len n) \<longleftrightarrow>
      bits (and_bytes a (mask_bytes len n)) = bits (and_bytes c (mask_bytes len n))"
    using assms by (subst bits_inject) (simp_all add: bits_mask_bytes(2))
  then show ?thesis using assms m by simp
qed

lemma v4mask_bytes: "n \<le> 32 \<Longrightarrow> v4mask n = mask_bytes 4 n"
proof -
  have "list_all (\<lambda>n. v4mask n = mask_bytes 4 n) [0..<33]" by code_simp
  then show "n \<le> 32 \<Longrightarrow> v4mask n = mask_bytes 4 n" by (simp add: list_all_iff)
qed

subsection \<open>Constraints in CIDR notation\<close>

definition cidr :: "cstring \<Rightarrow> nat \<Rightarrow> cstring" where
  "cidr addr n = addr @ CHR ''/'' # decimal n"

lemma decimal_no_punct: "CHR ''.'' \<notin> set (decimal n)" "CHR '':'' \<notin> set (decimal n)"
  using decimal_digits [of n] by (auto simp: list_all_iff c_isdigit_def)

lemma mask_number_decimal: "n < 2 ^ 32 \<Longrightarrow> mask_number (decimal n) = n"
  using strtol_decimal [of n "[]"] by (simp add: mask_number_def)

lemma split_cidr: "CHR ''/'' \<notin> set addr \<Longrightarrow> split_at (CHR ''/'') (cidr addr n) = Some (addr, decimal n)"
  by (simp add: cidr_def scan)

text \<open>An address matches a constraint \<open>(masked, mask)\<close>; and the same with the constraint given as text.\<close>

definition cidr_matches :: "pton \<Rightarrow> pton \<Rightarrow> cstring \<Rightarrow> sockaddr \<Rightarrow> bool" where
  "cidr_matches pton4 pton6 t client =
     (case SockkAddrInitMaskedEntry pton4 pton6 t of (m, masked) \<Rightarrow> Ns_SockaddrMaskedMatch client m masked)"

definition v4_addr :: "8 word list \<Rightarrow> sockaddr" where
  "v4_addr b = sa_zero\<lparr>sa_family := AF_INET, sin_addr := b\<rparr>"

definition v6_addr :: "8 word list \<Rightarrow> sockaddr" where
  "v6_addr b = sa_zero\<lparr>sa_family := AF_INET6, sin6_addr := b\<rparr>"

lemma parse_cidr_v4:
  assumes "pton4 addr = Some b" "CHR ''/'' \<notin> set addr" "n \<le> 32"
  shows "Ns_SockaddrParseIPMask pton4 pton6 (cidr addr n) =
    (NS_OK, v4_addr (and_bytes b (mask_bytes 4 n)), v4_addr (mask_bytes 4 n), n)"
  using assms
  by (simp add: Ns_SockaddrParseIPMask_def split_cidr ns_inet_pton_def parse_mask_def decimal_no_punct mask_number_decimal
      Ns_SockaddrMaskBits_def Ns_SockaddrMask_def v4_addr_def Let_def)

definition mapped_bytes :: "8 word list \<Rightarrow> bool" where
  "mapped_bytes b \<longleftrightarrow> take 12 b = mapped_prefix"

lemma parse_cidr_v6:
  assumes "pton4 addr = None" "pton6 addr = Some b" "CHR ''/'' \<notin> set addr" "n \<le> 128"
  shows "Ns_SockaddrParseIPMask pton4 pton6 (cidr addr n) =
    (let m = (if mapped_bytes b \<and> 96 \<le> n then mapped_prefix @ mask_bytes 4 (n - 96) else mask_bytes 16 n)
     in (NS_OK, v6_addr (and_bytes b m), v6_addr m, n))"
  using assms
  by (simp add: Ns_SockaddrParseIPMask_def split_cidr ns_inet_pton_def parse_mask_def decimal_no_punct mask_number_decimal
      Ns_SockaddrMaskBits_def Ns_SockaddrMask_def v6_addr_def mapped_bytes_def SockaddrGetMappedV4_def
      SockaddrSetMappedV4_def v4mask_bytes Let_def)

lemma mask_not_mapped: "n \<le> 128 \<Longrightarrow> \<not> mapped_bytes (mask_bytes 16 n)"
proof -
  have "list_all (\<lambda>n. \<not> mapped_bytes (mask_bytes 16 n)) [0..<129]" by code_simp
  then show "n \<le> 128 \<Longrightarrow> \<not> mapped_bytes (mask_bytes 16 n)" by (simp add: list_all_iff)
qed

lemma comparable_length: "sa_ok client \<Longrightarrow> SockaddrGetComparableV4 client = Some a \<Longrightarrow> length a = 4"
  by (auto simp: sa_ok_def SockaddrGetComparableV4_def SockaddrGetMappedV4_def split: if_splits)

lemma comparable_v4 [simp]: "SockaddrGetComparableV4 (v4_addr b) = Some b"
  by (simp add: SockaddrGetComparableV4_def v4_addr_def)

lemma match_v4:
  assumes "sa_ok client" "length b = 4" "n \<le> 32"
  shows "Ns_SockaddrMaskedMatch client (v4_addr (mask_bytes 4 n)) (v4_addr (and_bytes b (mask_bytes 4 n))) \<longleftrightarrow>
    (\<exists>a. SockaddrGetComparableV4 client = Some a \<and> take n (bits a) = take n (bits b))"
proof -
  have eq: "Ns_SockaddrMaskedMatch client (v4_addr m) (v4_addr o4) \<longleftrightarrow>
      (\<exists>a. SockaddrGetComparableV4 client = Some a \<and> and_bytes a m = o4)" for m o4
    unfolding Ns_SockaddrMaskedMatch_def comparable_v4
    by (auto simp: SockaddrGetComparableV4_def v4_addr_def split: option.splits)
  show ?thesis
    unfolding eq using masked_eq_iff [of _ 4 b n] comparable_length [OF assms(1)] assms(2,3) by fastforce
qed

lemma match_v6:
  assumes "sa_ok client" "length b = 16" "n \<le> 128"
  shows "Ns_SockaddrMaskedMatch client (v6_addr (mask_bytes 16 n)) (v6_addr (and_bytes b (mask_bytes 16 n))) \<longleftrightarrow>
    sa_family client = AF_INET6 \<and> take n (bits (sin6_addr client)) = take n (bits b)"
proof (cases "sa_family client = AF_INET6")
  case True
  then show ?thesis
    using masked_eq_iff [of "sin6_addr client" 16 b n] assms by (simp add: Ns_SockaddrMaskedMatch_def v6_addr_def sa_ok_def)
next
  case False
  have "SockaddrGetComparableV4 (v6_addr (mask_bytes 16 n)) = None"
    using mask_not_mapped [OF assms(3)]
    by (simp add: SockaddrGetComparableV4_def SockaddrGetMappedV4_def v6_addr_def mapped_bytes_def)
  moreover have "sa_family (v6_addr x) = AF_INET6" for x by (simp add: v6_addr_def)
  ultimately show ?thesis
    using False by (simp add: Ns_SockaddrMaskedMatch_def split: option.splits)
qed

lemma cidr_matches_v4:
  assumes "pton4 addr = Some b" "length b = 4" "CHR ''/'' \<notin> set addr" "n \<le> 32" "sa_ok client"
  shows "cidr_matches pton4 pton6 (cidr addr n) client \<longleftrightarrow>
    (\<exists>a. SockaddrGetComparableV4 client = Some a \<and> take n (bits a) = take n (bits b))"
  using match_v4 [OF assms(5,2,4)] parse_cidr_v4 [of pton4 addr b n, OF assms(1,3,4)]
  by (simp add: cidr_matches_def SockkAddrInitMaskedEntry_def)

lemma cidr_matches_v6:
  assumes "pton4 addr = None" "pton6 addr = Some b" "length b = 16" "\<not> (mapped_bytes b \<and> 96 \<le> n)"
    "CHR ''/'' \<notin> set addr" "n \<le> 128" "sa_ok client"
  shows "cidr_matches pton4 pton6 (cidr addr n) client \<longleftrightarrow>
    sa_family client = AF_INET6 \<and> take n (bits (sin6_addr client)) = take n (bits b)"
  using match_v6 [OF assms(7,3,6)] parse_cidr_v6 [of pton4 addr pton6 b n, OF assms(1,2,5,6)] assms(4)
  by (simp add: cidr_matches_def SockkAddrInitMaskedEntry_def Let_def)


text \<open>A conversion of four digits with dots, enough for the witness.\<close>

definition demo_pton4 :: pton where
  "demo_pton4 s = map_of [(''10.1.0.0'', [10, 1, 0, 0]), (''10.0.0.0'', [10, 0, 0, 0]), (''172.16.0.0'', [172, 16, 0, 0]),
     (''192.168.0.0'', [192, 168, 0, 0]), (''127.0.0.0'', [127, 0, 0, 0]), (''169.254.0.0'', [169, 254, 0, 0]),
     (''0.0.0.0'', [0, 0, 0, 0])] s"


text \<open>The mapped form of an IPv4 constraint matches an IPv4 client, native or mapped, by the last bits of the prefix.\<close>

lemma mapped_constraint_v4:
  assumes "pton4 addr = None" "pton6 addr = Some (mapped_prefix @ b)" "length b = 4" "CHR ''/'' \<notin> set addr"
    "96 \<le> n" "n \<le> 128" "sa_ok client" "SockaddrGetComparableV4 client = Some a"
  shows "cidr_matches pton4 pton6 (cidr addr n) client \<longleftrightarrow> take (n - 96) (bits a) = take (n - 96) (bits b)"
proof -
  let ?m = "mask_bytes 4 (n - 96)"
  have pre: "length mapped_prefix = 12" "and_bytes mapped_prefix mapped_prefix = mapped_prefix"
    by (simp add: mapped_prefix_def) code_simp
  have cat: "and_bytes (mapped_prefix @ x) (mapped_prefix @ ?m) = mapped_prefix @ and_bytes x ?m" for x
    using pre(2) unfolding and_bytes_def by (simp add: pre(1))
  have a: "length a = 4" using comparable_length assms(7,8) by blast
  have mb: "mapped_bytes (mapped_prefix @ b)" by (simp add: mapped_bytes_def pre(1))
  have parse: "SockkAddrInitMaskedEntry pton4 pton6 (cidr addr n) =
      (v6_addr (mapped_prefix @ ?m), v6_addr (mapped_prefix @ and_bytes b ?m))"
    using parse_cidr_v6 [of pton4 addr pton6 "mapped_prefix @ b" n] assms mb cat
    by (simp add: SockkAddrInitMaskedEntry_def Let_def)
  have cmp: "SockaddrGetComparableV4 (v6_addr (mapped_prefix @ x)) = Some x" for x
    by (simp add: SockaddrGetComparableV4_def SockaddrGetMappedV4_def v6_addr_def pre(1))
  have "cidr_matches pton4 pton6 (cidr addr n) client \<longleftrightarrow> and_bytes a ?m = and_bytes b ?m"
  proof (cases "sa_family client = AF_INET6")
    case True
    then have "sin6_addr client = mapped_prefix @ a"
      using assms(8) by (auto simp: SockaddrGetComparableV4_def SockaddrGetMappedV4_def split: if_splits)
        (metis append_take_drop_id)
    then show ?thesis
      using True cat by (simp add: cidr_matches_def parse Ns_SockaddrMaskedMatch_def v6_addr_def)
  next
    case False
    then show ?thesis
      unfolding cidr_matches_def parse Ns_SockaddrMaskedMatch_def
      using assms(8) by (simp add: cmp) (simp add: v6_addr_def)
  qed
  then show ?thesis using masked_eq_iff [of a 4 b "n - 96"] a assms(3,6) by simp
qed

subsection \<open>Public addresses\<close>

definition private4 :: "8 word list \<Rightarrow> bool" where
  "private4 b \<longleftrightarrow> b ! 0 \<in> {0, 10, 127} \<or> b ! 0 = 172 \<and> 16 \<le> b ! 1 \<and> b ! 1 \<le> 31
     \<or> b ! 0 = 192 \<and> b ! 1 = 168 \<or> b ! 0 = 169 \<and> b ! 1 = 254"

definition private6 :: "8 word list \<Rightarrow> bool" where
  "private6 b \<longleftrightarrow> b ! 0 = 0xFC \<or> b ! 0 = 0xFD \<or> b ! 0 = 0xFE \<and> 0x80 \<le> b ! 1 \<and> b ! 1 \<le> 0xBF
     \<or> b = replicate 15 0 @ [1] \<or> b = replicate 16 0"

text \<open>What \<^verbatim>\<open>inet_pton\<close> answers for the built-in texts.\<close>

definition pton_builtin :: "pton \<Rightarrow> pton \<Rightarrow> bool" where
  "pton_builtin pton4 pton6 \<longleftrightarrow>
     pton4 ''10.0.0.0'' = Some [10, 0, 0, 0] \<and> pton4 ''172.16.0.0'' = Some [172, 16, 0, 0] \<and>
     pton4 ''192.168.0.0'' = Some [192, 168, 0, 0] \<and> pton4 ''127.0.0.0'' = Some [127, 0, 0, 0] \<and>
     pton4 ''169.254.0.0'' = Some [169, 254, 0, 0] \<and> pton4 ''0.0.0.0'' = Some [0, 0, 0, 0] \<and>
     pton4 ''fc00::'' = None \<and> pton4 ''::1'' = None \<and> pton4 ''fe80::'' = None \<and> pton4 ''::'' = None \<and>
     pton6 ''fc00::'' = Some (0xFC # replicate 15 0) \<and> pton6 ''::1'' = Some (replicate 15 0 @ [1]) \<and>
     pton6 ''fe80::'' = Some (0xFE # 0x80 # replicate 14 0) \<and> pton6 ''::'' = Some (replicate 16 0)"

lemma nonPublicCIDR_cidr:
  "nonPublicCIDR =
     [cidr ''10.0.0.0'' 8, cidr ''172.16.0.0'' 12, cidr ''192.168.0.0'' 16, cidr ''fc00::'' 7, cidr ''127.0.0.0'' 8,
      cidr ''::1'' 128, cidr ''169.254.0.0'' 16, cidr ''fe80::'' 10, cidr ''0.0.0.0'' 8, cidr ''::'' 128]"
  by code_simp

lemma take_bits_byte:
  "take 8 (bits (a # as)) = octet_bits a" "take 16 (bits (a # b # as)) = octet_bits a @ octet_bits b"
  "k \<le> 8 \<Longrightarrow> take k (bits (a # as)) = take k (octet_bits a)"
  "k \<le> 8 \<Longrightarrow> take (8 + k) (bits (a # b # as)) = octet_bits a @ take k (octet_bits b)"
  by simp_all

lemma all_octets: "list_all P (map word_of_nat [0..<256]) \<Longrightarrow> P (b :: 8 word)"
proof -
  assume "list_all P (map word_of_nat [0..<256])"
  moreover have "unat b < 256" by (rule order_less_le_trans [OF unsigned_less]) simp
  ultimately have "P (word_of_nat (unat b))" unfolding list_all_iff by force
  then show "P b" by simp
qed

lemma byte_ranges:
  fixes b :: "8 word"
  shows "take 4 (octet_bits b) = take 4 (octet_bits 16) \<longleftrightarrow> 16 \<le> b \<and> b \<le> 31"
    "take 7 (octet_bits b) = take 7 (octet_bits 0xFC) \<longleftrightarrow> b = 0xFC \<or> b = 0xFD"
    "take 2 (octet_bits b) = take 2 (octet_bits 0x80) \<longleftrightarrow> 0x80 \<le> b \<and> b \<le> 0xBF"
  by (rule all_octets [of _ b], code_simp)+

lemma in_entries_public:
  "in_entries (fst (SockAddrInit pton4 pton6 tr)) sa = list_ex (\<lambda>t. cidr_matches pton4 pton6 t sa) nonPublicCIDR"
  by (simp add: in_entries_def SockAddrInit_def cidr_matches_def list_ex_iff)

lemma length4D: "length b = 4 \<Longrightarrow> b = [b ! 0, b ! 1, b ! 2, b ! 3]"
  by (simp add: numeral_eq_Suc length_Suc_conv) auto

lemma builtin_v4:
  fixes a :: "8 word list"
  assumes "length a = 4"
  shows "take 8 (bits a) = take 8 (bits [x, 0, 0, 0]) \<longleftrightarrow> a ! 0 = x"
    "take 16 (bits a) = take 16 (bits [x, y, 0, 0]) \<longleftrightarrow> a ! 0 = x \<and> a ! 1 = y"
    "take 12 (bits a) = take 12 (bits [x, 16, 0, 0]) \<longleftrightarrow> a ! 0 = x \<and> 16 \<le> a ! 1 \<and> a ! 1 \<le> 31"
proof -
  obtain p q r s where a: "a = [p, q, r, s]" using length4D [OF assms] by metis
  show "take 8 (bits a) = take 8 (bits [x, 0, 0, 0]) \<longleftrightarrow> a ! 0 = x"
    "take 16 (bits a) = take 16 (bits [x, y, 0, 0]) \<longleftrightarrow> a ! 0 = x \<and> a ! 1 = y"
    "take 12 (bits a) = take 12 (bits [x, 16, 0, 0]) \<longleftrightarrow> a ! 0 = x \<and> 16 \<le> a ! 1 \<and> a ! 1 \<le> 31"
    using byte_ranges(1) [of q] by (simp_all add: a octet_bits_inject)
qed

lemma builtin_v6:
  fixes a :: "8 word list"
  assumes "length a = 16"
  shows "take 7 (bits a) = take 7 (bits (0xFC # replicate 15 0)) \<longleftrightarrow> a ! 0 = 0xFC \<or> a ! 0 = 0xFD"
    "take 10 (bits a) = take 10 (bits (0xFE # 0x80 # replicate 14 0)) \<longleftrightarrow> a ! 0 = 0xFE \<and> 0x80 \<le> a ! 1 \<and> a ! 1 \<le> 0xBF"
    "length c = 16 \<Longrightarrow> take 128 (bits a) = take 128 (bits c) \<longleftrightarrow> a = c"
proof -
  obtain p q r where a: "a = p # q # r" using assms by (cases a; cases "tl a") auto
  show "take 7 (bits a) = take 7 (bits (0xFC # replicate 15 0)) \<longleftrightarrow> a ! 0 = 0xFC \<or> a ! 0 = 0xFD"
    "take 10 (bits a) = take 10 (bits (0xFE # 0x80 # replicate 14 0)) \<longleftrightarrow> a ! 0 = 0xFE \<and> 0x80 \<le> a ! 1 \<and> a ! 1 \<le> 0xBF"
    using byte_ranges(2) [of p] byte_ranges(3) [of q] by (simp_all add: a octet_bits_inject)
  show "length c = 16 \<Longrightarrow> take 128 (bits a) = take 128 (bits c) \<longleftrightarrow> a = c"
    using bits_inject [of a c] assms by simp
qed

lemma v4_entry:
  assumes "sa_ok sa" "pton4 t = Some b" "length b = 4" "CHR ''/'' \<notin> set t" "n \<le> 32"
    "\<And>a. length a = 4 \<Longrightarrow> take n (bits a) = take n (bits b) \<longleftrightarrow> P a"
  shows "cidr_matches pton4 pton6 (cidr t n) sa \<longleftrightarrow> (\<exists>a. SockaddrGetComparableV4 sa = Some a \<and> P a)"
  using cidr_matches_v4 [of pton4 t b n sa pton6] comparable_length [OF assms(1)] assms by blast

lemma v6_entry:
  assumes "sa_ok sa" "pton4 t = None" "pton6 t = Some b" "length b = 16" "\<not> mapped_bytes b" "CHR ''/'' \<notin> set t" "n \<le> 128"
    "\<And>a. length a = 16 \<Longrightarrow> take n (bits a) = take n (bits b) \<longleftrightarrow> P a"
  shows "cidr_matches pton4 pton6 (cidr t n) sa \<longleftrightarrow> sa_family sa = AF_INET6 \<and> P (sin6_addr sa)"
  using cidr_matches_v6 [of pton4 t pton6 b n sa] assms by (auto simp: sa_ok_def)

lemma not_public_iff:
  assumes "pton_builtin pton4 pton6" "sa_ok sa"
  shows "list_ex (\<lambda>t. cidr_matches pton4 pton6 t sa) nonPublicCIDR \<longleftrightarrow>
    (\<exists>a. SockaddrGetComparableV4 sa = Some a \<and> private4 a) \<or> sa_family sa = AF_INET6 \<and> private6 (sin6_addr sa)"
proof -
  note p = assms(1) [unfolded pton_builtin_def]
  have nm: "\<not> mapped_bytes (replicate 15 0 @ [1])" "\<not> mapped_bytes (replicate 16 0)"
    "\<not> mapped_bytes (0xFC # replicate 15 0)" "\<not> mapped_bytes (0xFE # 0x80 # replicate 14 0)" by code_simp+
  note v4 = v4_entry [OF assms(2)] and v6 = v6_entry [OF assms(2)]
  have e4: "cidr_matches pton4 pton6 (cidr ''10.0.0.0'' 8) sa \<longleftrightarrow> (\<exists>a. SockaddrGetComparableV4 sa = Some a \<and> a ! 0 = 10)"
    "cidr_matches pton4 pton6 (cidr ''172.16.0.0'' 12) sa \<longleftrightarrow>
       (\<exists>a. SockaddrGetComparableV4 sa = Some a \<and> a ! 0 = 172 \<and> 16 \<le> a ! 1 \<and> a ! 1 \<le> 31)"
    "cidr_matches pton4 pton6 (cidr ''192.168.0.0'' 16) sa \<longleftrightarrow>
       (\<exists>a. SockaddrGetComparableV4 sa = Some a \<and> a ! 0 = 192 \<and> a ! 1 = 168)"
    "cidr_matches pton4 pton6 (cidr ''127.0.0.0'' 8) sa \<longleftrightarrow> (\<exists>a. SockaddrGetComparableV4 sa = Some a \<and> a ! 0 = 127)"
    "cidr_matches pton4 pton6 (cidr ''169.254.0.0'' 16) sa \<longleftrightarrow>
       (\<exists>a. SockaddrGetComparableV4 sa = Some a \<and> a ! 0 = 169 \<and> a ! 1 = 254)"
    "cidr_matches pton4 pton6 (cidr ''0.0.0.0'' 8) sa \<longleftrightarrow> (\<exists>a. SockaddrGetComparableV4 sa = Some a \<and> a ! 0 = 0)"
    by (rule v4, use p in blast, simp, simp, simp, erule builtin_v4)+
  have e6: "cidr_matches pton4 pton6 (cidr ''fc00::'' 7) sa \<longleftrightarrow>
       sa_family sa = AF_INET6 \<and> (sin6_addr sa ! 0 = 0xFC \<or> sin6_addr sa ! 0 = 0xFD)"
    "cidr_matches pton4 pton6 (cidr ''fe80::'' 10) sa \<longleftrightarrow>
       sa_family sa = AF_INET6 \<and> sin6_addr sa ! 0 = 0xFE \<and> 0x80 \<le> sin6_addr sa ! 1 \<and> sin6_addr sa ! 1 \<le> 0xBF"
    "cidr_matches pton4 pton6 (cidr ''::1'' 128) sa \<longleftrightarrow> sa_family sa = AF_INET6 \<and> sin6_addr sa = replicate 15 0 @ [1]"
    "cidr_matches pton4 pton6 (cidr ''::'' 128) sa \<longleftrightarrow> sa_family sa = AF_INET6 \<and> sin6_addr sa = replicate 16 0"
    by (rule v6, use p in blast, use p in blast, simp, rule nm, simp, simp, erule builtin_v6, (simp; fail)?)+
  show ?thesis
    unfolding nonPublicCIDR_cidr by (auto simp: e4 e6 private4_def private6_def)
qed

text \<open>
  C25. The built-in list makes exactly these addresses non-public: IPv4 addresses (native or mapped) of the networks
  0/8, 10/8, 127/8, 172.16/12, 192.168/16 and 169.254/16, and the IPv6 addresses \<^verbatim>\<open>::\<close>, \<^verbatim>\<open>::1\<close> and
  those of the networks \<^verbatim>\<open>fc00::/7\<close> and \<^verbatim>\<open>fe80::/10\<close>.
\<close>

theorem Ns_SockaddrPublicIpAddress_correct:
  assumes "pton_builtin pton4 pton6" "sa_ok sa"
  shows "Ns_SockaddrPublicIpAddress pton4 pton6 trusted sa \<longleftrightarrow>
    \<not> ((\<exists>a. SockaddrGetComparableV4 sa = Some a \<and> private4 a) \<or> sa_family sa = AF_INET6 \<and> private6 (sin6_addr sa))"
  unfolding Ns_SockaddrPublicIpAddress_def in_entries_public not_public_iff [OF assms] ..

definition demo_pton6 :: pton where
  "demo_pton6 s = map_of [(''fc00::'', 0xFC # replicate 15 0), (''::1'', replicate 15 0 @ [1]),
     (''fe80::'', 0xFE # 0x80 # replicate 14 0), (''::'', replicate 16 0)] s"

theorem Ns_SockaddrPublicIpAddress_correct_witness:
  "Ns_SockaddrPublicIpAddress demo_pton4 demo_pton6 [] (v4_addr [172, 32, 0, 1])
   \<and> \<not> Ns_SockaddrPublicIpAddress demo_pton4 demo_pton6 [] (v6_addr (mapped_prefix @ [172, 31, 0, 1]))"
proof -
  have p: "pton_builtin demo_pton4 demo_pton6" by (simp add: pton_builtin_def demo_pton4_def demo_pton6_def)
  have ok: "sa_ok (v6_addr (mapped_prefix @ [172, 31, 0, 1]))" "sa_ok (v4_addr [172, 32, 0, 1])"
    by (simp_all add: sa_ok_def v6_addr_def v4_addr_def sa_zero_def mapped_prefix_def)
  have c: "SockaddrGetComparableV4 (v6_addr (mapped_prefix @ [172, 31, 0, 1])) = Some [172, 31, 0, 1]" by code_simp
  have "private4 [172, 31, 0, 1]" "\<not> private4 [172, 32, 0, 1]" by code_simp+
  moreover have "sa_family (v4_addr [172, 32, 0, 1]) = AF_INET" by (simp add: v4_addr_def)
  ultimately show ?thesis
    using Ns_SockaddrPublicIpAddress_correct [OF p ok(1), of "[]"] Ns_SockaddrPublicIpAddress_correct [OF p ok(2), of "[]"] c
    by simp
qed

subsection \<open>Equal addresses\<close>

text \<open>The identity of an address: its IPv4 address, native or mapped, or its IPv6 address.\<close>

definition ip_identity :: "sockaddr \<Rightarrow> 8 word list + 8 word list" where
  "ip_identity sa = (case SockaddrGetComparableV4 sa of Some a \<Rightarrow> Inl a | None \<Rightarrow> Inr (sin6_addr sa))"

lemma Ns_SockaddrSameIP_iff:
  assumes "sa_family x \<noteq> AF_UNSPEC" "sa_family y \<noteq> AF_UNSPEC"
  shows "Ns_SockaddrSameIP x y \<longleftrightarrow> ip_identity x = ip_identity y"
proof -
  have "take 12 s = take 12 t \<Longrightarrow> drop 12 s = drop 12 t \<longleftrightarrow> s = t" for s t :: "8 word list"
    by (metis append_take_drop_id)
  then show ?thesis
    using assms
    by (cases "sa_family x"; cases "sa_family y")
      (auto simp: Ns_SockaddrSameIP_def ip_identity_def SockaddrGetComparableV4_def SockaddrGetMappedV4_def
        split: if_splits)
qed

subsection \<open>Differences\<close>

text \<open>
  A mask that is no number is read as 0 by \<^verbatim>\<open>strtol\<close>: the constraint is accepted and matches every IPv4 client; a
  list of trusted proxies with such an entry trusts everybody.
\<close>

lemma invalid_mask_matches_all:
  assumes "pton4 addr = Some b" "length b = 4" "CHR ''/'' \<notin> set addr" "length a = 4"
  shows "fst (Ns_SockaddrParseIPMask pton4 pton6 (addr @ ''/x'')) = NS_OK"
    and "Ns_SockaddrTrustedReverseProxy pton4 pton6 [addr @ ''/x''] (v4_addr a)"
proof -
  have m: "mask_number ''x'' = 0" by code_simp
  have z: "mask_bytes 4 0 = [0, 0, 0, 0]" by code_simp
  have "and_bytes [p, q, r, s] [0, 0, 0, 0] = [0, 0, 0, 0]" for p q r s by (simp add: and_bytes_def)
  then have "and_bytes x [0, 0, 0, 0] = [0, 0, 0, 0]" if "length x = 4" for x using length4D [OF that] by metis
  then have "Ns_SockaddrParseIPMask pton4 pton6 (addr @ ''/x'') =
      (NS_OK, v4_addr [0, 0, 0, 0], v4_addr [0, 0, 0, 0], 0)" "and_bytes a [0, 0, 0, 0] = [0, 0, 0, 0]"
    using assms
    by (simp_all add: Ns_SockaddrParseIPMask_def scan ns_inet_pton_def parse_mask_def m Ns_SockaddrMaskBits_def z
        Ns_SockaddrMask_def v4_addr_def Let_def)
  then show "fst (Ns_SockaddrParseIPMask pton4 pton6 (addr @ ''/x'')) = NS_OK"
    "Ns_SockaddrTrustedReverseProxy pton4 pton6 [addr @ ''/x''] (v4_addr a)"
    by (simp_all add: Ns_SockaddrTrustedReverseProxy_def SockAddrInit_def in_entries_def SockkAddrInitMaskedEntry_def
        Ns_SockaddrMaskedMatch_def) (simp add: v4_addr_def)
qed

text \<open>
  The mask of a mapped constraint has zeros in its first ten bytes, so the constraint also matches IPv6 addresses that are not
  mapped: here \<^verbatim>\<open>::ffff:10.1.0.0/112\<close> and the client \<^verbatim>\<open>2001:db8::ffff:a01:203\<close>.
\<close>

lemma mapped_constraint_too_wide:
  assumes "pton4 addr = None" "pton6 addr = Some (mapped_prefix @ [10, 1, 0, 0])" "CHR ''/'' \<notin> set addr"
  shows "cidr_matches pton4 pton6 (cidr addr 112)
    (v6_addr ([0x20, 0x01, 0x0D, 0xB8] @ replicate 6 0 @ [0xFF, 0xFF, 10, 1, 2, 3]))"
proof -
  have mb: "mapped_bytes (mapped_prefix @ [10, 1, 0, 0])" by code_simp
  have e: "and_bytes ([0x20, 0x01, 0x0D, 0xB8] @ replicate 6 0 @ [0xFF, 0xFF, 10, 1, 2, 3]) (mapped_prefix @ mask_bytes 4 16) =
      and_bytes (mapped_prefix @ [10, 1, 0, 0]) (mapped_prefix @ mask_bytes 4 16)" by code_simp
  show ?thesis
    using parse_cidr_v6 [of pton4 addr pton6 "mapped_prefix @ [10, 1, 0, 0]" 112] assms mb
    unfolding cidr_matches_def SockkAddrInitMaskedEntry_def Ns_SockaddrMaskedMatch_def
    by (simp add: e [simplified] Let_def v6_addr_def)
qed

text \<open>
  Without a mask, a mapped constraint gets a full IPv6 mask, which is no mapped mask: the native client of the same
  IPv4 address does not match, although it does with the equivalent mask 128.
\<close>

lemma mapped_address_without_mask:
  assumes "pton4 addr = None" "pton6 addr = Some (mapped_prefix @ b)" "length b = 4" "CHR ''/'' \<notin> set addr"
  shows "\<not> cidr_matches pton4 pton6 addr (v4_addr b)" "cidr_matches pton4 pton6 (cidr addr 128) (v4_addr b)"
proof -
  have "SockaddrGetComparableV4 (v6_addr (mask_bytes 16 128)) = None"
    using mask_not_mapped [of 128]
    by (simp add: SockaddrGetComparableV4_def SockaddrGetMappedV4_def v6_addr_def mapped_bytes_def)
  moreover have "SockkAddrInitMaskedEntry pton4 pton6 addr = (v6_addr (mask_bytes 16 128), v6_addr (mapped_prefix @ b))"
    using assms
    by (simp add: SockkAddrInitMaskedEntry_def Ns_SockaddrParseIPMask_def ns_inet_pton_def Ns_SockaddrMaskBits_def split_at_def
        v6_addr_def Let_def)
  ultimately show "\<not> cidr_matches pton4 pton6 addr (v4_addr b)"
    by (simp add: cidr_matches_def Ns_SockaddrMaskedMatch_def) (simp add: v4_addr_def v6_addr_def)
  have ok: "sa_ok (v4_addr b)" using assms(3) by (simp add: sa_ok_def v4_addr_def sa_zero_def)
  show "cidr_matches pton4 pton6 (cidr addr 128) (v4_addr b)"
    using mapped_constraint_v4 [of pton4 addr pton6 b 128 "v4_addr b" b] assms ok by simp
qed

end
