(* ===== verification/NsUrlspace.thy ===== *)
theory NsUrlspace
  imports NsIndex NsSockaddr
begin

unbundle bit_operations_syntax

text \<open>
  The URL space: the model of \<^verbatim>\<open>nsd/urlspace.c\<close>, where request handlers, permissions and
  aliases are registered for a method and a URL. A junction holds channels, one per file-name pattern
  of a last URL segment, and a channel holds a trie of URL segments with the registered data at its
  nodes. A sequence (\<^verbatim>\<open>key\0token\0...\0\0\<close>) is built as bytes by \<open>MkSeq\<close> and read as its list of
  words; overwriting the first byte of its last word by a NUL (\<open>wipe_last\<close>) leaves an empty word, at
  which every walk over the sequence stops.

  An \<^verbatim>\<open>Ns_Index\<close> is its list of elements: lookups are the \<open>bsearch\<close> and insertions the \<open>add_pos\<close>
  of \<open>NsIndex\<close>, which also shows that its array always has room. The channels are
  objects shared by two indexes of a junction, so the junction is a store of channels (in the order of
  their allocation) and two lists of positions in that store. Calls of free procedures are recorded
  in the order the code makes them. \<^verbatim>\<open>Tcl_StringMatch\<close> is the argument \<open>smatch\<close> (string, pattern);
  the evaluation of context constraints is the function the caller passes, as in the code.
\<close>

subsection \<open>Data\<close>

datatype spec_type = SpecTypeConjunction | SpecTypeIPv6 | SpecTypeIPv4 | SpecTypeHeader

fun spec_type_rank :: "spec_type \<Rightarrow> nat" where
  "spec_type_rank SpecTypeConjunction = 0"
| "spec_type_rank SpecTypeIPv6 = 1"
| "spec_type_rank SpecTypeIPv4 = 2"
| "spec_type_rank SpecTypeHeader = 3"

type_synonym free_proc = nat

text \<open>A constraint; \<^verbatim>\<open>field.list\<close> of a conjunction is \<open>Inr\<close>, \<^verbatim>\<open>field.str\<close> of the others \<open>Inl\<close>.\<close>

datatype 'd context_spec = ContextSpec
  (spec_freeProc: "free_proc option") (spec_data: "'d option") (spec_dataFreeProc: "free_proc option")
  (spec_field: "cstring + 'd context_spec list") (patternString: "cstring option")
  (spec_ip: sockaddr) (spec_mask: sockaddr)
  (spec_kind: spec_type) (specificity: "32 word") (hasPattern: bool)

record 'd node =
  dataInherit :: "'d option"
  dataNoInherit :: "'d option"
  deletefuncInherit :: "free_proc option"
  deletefuncNoInherit :: "free_proc option"
  node_specs :: "'d context_spec list"

datatype 'd trie = Trie (branches: "'d branch list") (trie_node: "'d node option")
and 'd branch = Branch (word: cstring) (branch_trie: "'d trie")

record 'd channel =
  filter_str :: cstring
  channel_trie :: "'d trie"
  channel_flags :: "32 word"

record 'd junction =
  channels :: "'d channel list"
  byname :: "nat list"
  byuse :: "nat list"

datatype 'd freed = FreedData free_proc "'d option" | FreedSpec free_proc "'d context_spec"

definition NS_OP_NOINHERIT :: "32 word" where "NS_OP_NOINHERIT = 0x02"
definition NS_OP_NODELETE :: "32 word" where "NS_OP_NODELETE = 0x04"
definition NS_OP_RECURSE :: "32 word" where "NS_OP_RECURSE = 0x08"
definition NS_OP_ALLCONSTRAINTS :: "32 word" where "NS_OP_ALLCONSTRAINTS = 0x10"
definition NS_OP_SEGMENT_MATCH :: "32 word" where "NS_OP_SEGMENT_MATCH = 0x20"

definition op_flag :: "32 word \<Rightarrow> 32 word \<Rightarrow> bool" where
  "op_flag flags f \<longleftrightarrow> flags AND f \<noteq> 0"

subsection \<open>Sequences\<close>

abbreviation NUL :: char where "NUL \<equiv> CHR 0x00"

text \<open>The loop of \<^verbatim>\<open>MkSeq\<close> over the URL: a slash is skipped, other bytes up to the next slash are
  one token.\<close>

function mkseq_loop :: "cstring \<Rightarrow> string" where
  "mkseq_loop url =
     (if url = [] then []
      else if hd url \<noteq> CHR ''/'' then
        (case strchr url (CHR ''/'') of
           Some l \<Rightarrow> take l url @ [NUL] @ mkseq_loop (drop (l + 1) url)
         | None \<Rightarrow> url @ [NUL])
      else mkseq_loop (tl url))"
  by pat_completeness auto
termination by (relation "measure length") (auto simp: diff_less)

declare mkseq_loop.simps [simp del]

definition MkSeq :: "cstring \<Rightarrow> cstring \<Rightarrow> string" where
  "MkSeq key url = key @ [NUL] @ mkseq_loop url @ [NUL]"

text \<open>The words of a sequence, stepping by \<^verbatim>\<open>strlen(p) + 1\<close> until \<^verbatim>\<open>p[strlen(p) + 1]\<close> is a NUL.\<close>

function seq_words :: "string \<Rightarrow> cstring list" where
  "seq_words p =
     (let w = takeWhile (\<lambda>c. c \<noteq> NUL) p; rest = drop (length w + 1) p in
      if rest = [] \<or> hd rest = NUL then [w] else w # seq_words rest)"
  by pat_completeness auto
termination
  by (relation "measure length") (auto simp: length_greater_0_conv [symmetric] simp del: length_greater_0_conv)

declare seq_words.simps [simp del]

definition wipe_last :: "cstring list \<Rightarrow> cstring list" where
  "wipe_last seq = butlast seq @ [[]]"

subsection \<open>Comparison functions\<close>

definition CmpBranches :: "'d branch \<Rightarrow> 'd branch \<Rightarrow> int" where
  "CmpBranches l r = strcmp (word l) (word r)"

definition CmpKeyWithBranch :: "cstring \<Rightarrow> 'd branch \<Rightarrow> int" where
  "CmpKeyWithBranch key b = strcmp key (word b)"

text \<open>The patterns are compared with themselves in the code (\<^verbatim>\<open>ctxLeft\<close> twice), so that comparison
  is always 0; the list lengths of conjunctions are read only for conjunctions.\<close>

definition spec_list_size :: "'d context_spec \<Rightarrow> nat" where
  "spec_list_size s = (case spec_field s of Inr l \<Rightarrow> length l | Inl _ \<Rightarrow> 0)"

definition pattern_cmp :: "cstring option \<Rightarrow> cstring option \<Rightarrow> int" where
  "pattern_cmp a b = (case (a, b) of (Some x, Some y) \<Rightarrow> strcmp x y | _ \<Rightarrow> 0)"

definition CmpUrlSpaceContextSpecs :: "'d context_spec \<Rightarrow> 'd context_spec \<Rightarrow> int" where
  "CmpUrlSpaceContextSpecs l r =
     (if spec_kind l \<noteq> spec_kind r then
        (if spec_type_rank (spec_kind l) < spec_type_rank (spec_kind r) then -1 else 1)
      else if hasPattern l \<and> hasPattern r then
        (let result = sint (specificity r) - sint (specificity l) in
         if result = 0 then pattern_cmp (patternString l) (patternString l) else result)
      else if spec_kind r = SpecTypeConjunction then
        (let result = sint (specificity r) - sint (specificity l) in
         if result \<noteq> 0 then result
         else if spec_list_size l = spec_list_size r then 0
         else if spec_list_size l > spec_list_size r then -1 else 1)
      else if \<not> hasPattern l \<and> \<not> hasPattern r then
        pattern_cmp (patternString l) (patternString l)
      else (if hasPattern l then 1 else 0) - (if hasPattern r then 1 else 0))"

definition contains_cmp :: "(cstring \<Rightarrow> cstring \<Rightarrow> bool) \<Rightarrow> cstring \<Rightarrow> cstring \<Rightarrow> int" where
  "contains_cmp smatch left right =
     (let lcontainsr = smatch right left; rcontainsl = smatch left right in
      if lcontainsr \<and> rcontainsl then 0
      else if lcontainsr then 1
      else if rcontainsl then -1
      else 0)"

definition CmpChannels :: "(cstring \<Rightarrow> cstring \<Rightarrow> bool) \<Rightarrow> 'd channel list \<Rightarrow> nat \<Rightarrow> nat \<Rightarrow> int" where
  "CmpChannels smatch cs l r = contains_cmp smatch (filter_str (cs ! l)) (filter_str (cs ! r))"

definition CmpChannelsAsStrings :: "'d channel list \<Rightarrow> nat \<Rightarrow> nat \<Rightarrow> int" where
  "CmpChannelsAsStrings cs l r = strcmp (filter_str (cs ! l)) (filter_str (cs ! r))"

definition CmpKeyWithChannelAsStrings :: "'d channel list \<Rightarrow> cstring \<Rightarrow> nat \<Rightarrow> int" where
  "CmpKeyWithChannelAsStrings cs key i = strcmp key (filter_str (cs ! i))"

text \<open>\<^verbatim>\<open>Ns_IndexAdd\<close> and the position \<^verbatim>\<open>Ns_IndexFind\<close> finds, on the elements of an index.\<close>

definition index_insert :: "('a \<Rightarrow> 'a \<Rightarrow> int) \<Rightarrow> 'a \<Rightarrow> 'a list \<Rightarrow> 'a list" where
  "index_insert cmp e xs = insert_at (add_pos cmp e xs) e xs"

definition find_branch :: "'d branch list \<Rightarrow> cstring \<Rightarrow> nat option" where
  "find_branch bs key = bsearch (CmpKeyWithBranch key) bs 0 (length bs)"

subsection \<open>Nodes and tries\<close>

definition TrieInit :: "'d trie" where
  "TrieInit = Trie [] None"

definition node_new :: "'d node" where
  "node_new = \<lparr>dataInherit = None, dataNoInherit = None, deletefuncInherit = None,
     deletefuncNoInherit = None, node_specs = []\<rparr>"

text \<open>A free procedure is called when there is one.\<close>

definition call_free :: "free_proc option \<Rightarrow> 'd option \<Rightarrow> 'd freed list" where
  "call_free proc d = (case proc of Some p \<Rightarrow> [FreedData p d] | None \<Rightarrow> [])"

definition ContextFilterDestroy :: "'d context_spec list \<Rightarrow> 'd freed list" where
  "ContextFilterDestroy specs =
     concat (map (\<lambda>s. call_free (spec_dataFreeProc s) (spec_data s) @
       (case spec_freeProc s of Some p \<Rightarrow> [FreedSpec p s] | None \<Rightarrow> [])) specs)"

definition NodeDestroy :: "'d node \<Rightarrow> 'd freed list" where
  "NodeDestroy n =
     call_free (deletefuncNoInherit n) (dataNoInherit n) @
     call_free (deletefuncInherit n) (dataInherit n) @
     ContextFilterDestroy (node_specs n)"

fun TrieDestroy :: "'d trie \<Rightarrow> 'd freed list"
and BranchDestroy :: "'d branch \<Rightarrow> 'd freed list" where
  "TrieDestroy (Trie bs n) =
     concat (map BranchDestroy bs) @ (case n of Some nd \<Rightarrow> NodeDestroy nd | None \<Rightarrow> [])"
| "BranchDestroy (Branch w t) = TrieDestroy t"

text \<open>The end of \<^verbatim>\<open>TrieAdd\<close>: the node of the last word, an existing one or a new one.\<close>

definition node_release :: "'d node \<Rightarrow> 32 word \<Rightarrow> 'd context_spec option \<Rightarrow> 'd node \<times> 'd freed list" where
  "node_release n flags contextSpec =
     (if op_flag flags NS_OP_NODELETE then (n, [])
      else if op_flag flags NS_OP_NOINHERIT then
        (n, call_free (deletefuncNoInherit n) (dataNoInherit n))
      else if contextSpec = None \<and> deletefuncInherit n \<noteq> None then
        (n\<lparr>dataInherit := None\<rparr>, call_free (deletefuncInherit n) (dataInherit n))
      else (n, []))"

fun spec_attach :: "'d context_spec \<Rightarrow> 'd \<Rightarrow> free_proc option \<Rightarrow> 'd context_spec" where
  "spec_attach (ContextSpec fp _ _ field pat ip msk k sp hp) d proc =
     ContextSpec fp (Some d) proc field pat ip msk k sp hp"

definition node_add ::
    "'d node option \<Rightarrow> 'd \<Rightarrow> 32 word \<Rightarrow> free_proc option \<Rightarrow> 'd context_spec option \<Rightarrow>
     'd node \<times> 'd freed list" where
  "node_add nodePtr d flags deleteProc contextSpec =
     (let (n, freed) =
        (case nodePtr of
           None \<Rightarrow> (node_new, [])
         | Some n \<Rightarrow> node_release n flags contextSpec);
        n = (if op_flag flags NS_OP_NOINHERIT then
               n\<lparr>dataNoInherit := Some d, deletefuncNoInherit := deleteProc\<rparr>
             else if contextSpec = None then
               n\<lparr>dataInherit := Some d, deletefuncInherit := deleteProc\<rparr>
             else n);
        n = (case contextSpec of
               Some spec \<Rightarrow>
                 if \<not> op_flag flags NS_OP_NOINHERIT then
                   n\<lparr>node_specs := index_insert CmpUrlSpaceContextSpecs
                        (spec_attach spec d deleteProc) (node_specs n)\<rparr>
                 else n
             | None \<Rightarrow> n)
      in (n, freed))"

text \<open>\<open>seq_end\<close> is the test \<^verbatim>\<open>*seq == '\0'\<close> of the walks.\<close>

definition seq_end :: "cstring list \<Rightarrow> bool" where
  "seq_end seq \<longleftrightarrow> seq = [] \<or> hd seq = []"

lemma seq_end_simps [simp]: "seq_end []" "seq_end (w # ws) \<longleftrightarrow> w = []"
  by (simp_all add: seq_end_def)

text \<open>A branch of the trie replaced at the position where it was found; the code updates it in place.\<close>

definition set_branch :: "'d trie \<Rightarrow> nat \<Rightarrow> 'd trie \<Rightarrow> 'd trie" where
  "set_branch t i t' = Trie ((branches t)[i := Branch (word (branches t ! i)) t']) (trie_node t)"

text \<open>The branch for a word, created when it does not exist.\<close>

definition ensure_branch :: "'d trie \<Rightarrow> cstring \<Rightarrow> 'd trie" where
  "ensure_branch t w =
     (case find_branch (branches t) w of
        None \<Rightarrow> Trie (index_insert CmpBranches (Branch w TrieInit) (branches t)) (trie_node t)
      | Some _ \<Rightarrow> t)"

function TrieAdd ::
    "'d trie \<Rightarrow> cstring list \<Rightarrow> 'd \<Rightarrow> 32 word \<Rightarrow> free_proc option \<Rightarrow> 'd context_spec option \<Rightarrow>
     'd trie \<times> 'd freed list" where
  "TrieAdd t seq d flags deleteProc contextSpec =
     (if seq_end seq then
        (let (n, freed) = node_add (trie_node t) d flags deleteProc contextSpec
         in (Trie (branches t) (Some n), freed))
      else
        (let t = ensure_branch t (hd seq);
             i = the (find_branch (branches t) (hd seq));
             (t', freed) = TrieAdd (branch_trie (branches t ! i)) (tl seq) d flags deleteProc contextSpec
         in (set_branch t i t', freed)))"
  by pat_completeness auto
termination by (relation "measure (\<lambda>(t, seq, _). length seq)") (auto simp: seq_end_def diff_less)

fun TrieTrunc :: "'d trie \<Rightarrow> 'd trie \<times> 'd freed list"
and BranchTrunc :: "'d branch \<Rightarrow> 'd branch \<times> 'd freed list" where
  "TrieTrunc (Trie bs n) =
     (let rs = map BranchTrunc bs in
      (Trie (map fst rs) None,
       concat (map snd rs) @ (case n of Some nd \<Rightarrow> NodeDestroy nd | None \<Rightarrow> [])))"
| "BranchTrunc (Branch w t) = (let (t', freed) = TrieTrunc t in (Branch w t', freed))"

function TrieTruncBranch :: "'d trie \<Rightarrow> cstring list \<Rightarrow> int \<times> 'd trie \<times> 'd freed list" where
  "TrieTruncBranch t seq =
     (if \<not> seq_end seq then
        (case find_branch (branches t) (hd seq) of
           Some i \<Rightarrow>
             (let (result, t', freed) = TrieTruncBranch (branch_trie (branches t ! i)) (tl seq)
              in (result, set_branch t i t', freed))
         | None \<Rightarrow> (-1, t, []))
      else (0, TrieTrunc t))"
  by pat_completeness auto
termination by (relation "measure (\<lambda>(t, seq). length seq)") (auto simp: seq_end_def diff_less)

text \<open>The data of a node a lookup takes: the non-inheriting data only at the end of the sequence,
  otherwise the first constraint in the order of the node's index that the context satisfies, and
  the inheriting data when there is none.\<close>

definition node_data ::
    "'d node \<Rightarrow> bool \<Rightarrow> ('d context_spec \<Rightarrow> 'c \<Rightarrow> bool) \<Rightarrow> 'c option \<Rightarrow> 'd option" where
  "node_data n atEnd proc context =
     (if atEnd \<and> dataNoInherit n \<noteq> None then dataNoInherit n
      else (case context of
              Some c \<Rightarrow> (case find (\<lambda>spec. proc spec c) (node_specs n) of
                           Some spec \<Rightarrow> spec_data spec
                         | None \<Rightarrow> dataInherit n)
            | None \<Rightarrow> dataInherit n))"

function TrieFind ::
    "'d trie \<Rightarrow> cstring list \<Rightarrow> ('d context_spec \<Rightarrow> 'c \<Rightarrow> bool) \<Rightarrow> 'c option \<Rightarrow> int \<Rightarrow>
     'd option \<times> int" where
  "TrieFind t seq proc context depth =
     (let data = (case trie_node t of
                    Some n \<Rightarrow> node_data n (seq_end seq) proc context
                  | None \<Rightarrow> None)
      in if \<not> seq_end seq then
           (case find_branch (branches t) (hd seq) of
              Some i \<Rightarrow>
                (let (p, ldepth) = TrieFind (branch_trie (branches t ! i)) (tl seq) proc context (depth + 1)
                 in if p \<noteq> None then (p, ldepth) else (data, depth))
            | None \<Rightarrow> (data, depth))
         else (data, depth))"
  by pat_completeness auto
termination by (relation "measure (\<lambda>(t, seq, _). length seq)") (auto simp: seq_end_def diff_less)

text \<open>The second result is the value left in \<^verbatim>\<open>*nodePtrPtr\<close>: \<open>None\<close> when the variable is not
  written, \<open>Some None\<close> for NULL.\<close>

function TrieFindExact ::
    "'d trie \<Rightarrow> cstring list \<Rightarrow> 32 word \<Rightarrow> 'd option \<times> 'd node option option" where
  "TrieFindExact t seq flags =
     (if \<not> seq_end seq then
        (case find_branch (branches t) (hd seq) of
           Some i \<Rightarrow> TrieFindExact (branch_trie (branches t ! i)) (tl seq) flags
         | None \<Rightarrow> (None, None))
      else
        (case trie_node t of
           Some n \<Rightarrow> (if op_flag flags NS_OP_NOINHERIT then dataNoInherit n else dataInherit n,
                      Some (Some n))
         | None \<Rightarrow> (None, Some None)))"
  by pat_completeness auto
termination by (relation "measure (\<lambda>(t, seq, _). length seq)") (auto simp: seq_end_def diff_less)

definition node_delete :: "'d node \<Rightarrow> 32 word \<Rightarrow> 'd option \<times> 'd node \<times> 'd freed list" where
  "node_delete n flags =
     (let (d, n, freed) =
        (if op_flag flags NS_OP_NOINHERIT then
           (dataNoInherit n, n\<lparr>dataNoInherit := None, deletefuncNoInherit := None\<rparr>,
            if op_flag flags NS_OP_NODELETE then []
            else call_free (deletefuncNoInherit n) (dataNoInherit n))
         else
           (dataInherit n, n\<lparr>dataInherit := None, deletefuncInherit := None\<rparr>,
            if op_flag flags NS_OP_NODELETE then []
            else call_free (deletefuncInherit n) (dataInherit n)))
      in if op_flag flags NS_OP_ALLCONSTRAINTS then
           (d, n\<lparr>node_specs := []\<rparr>, freed @ ContextFilterDestroy (node_specs n))
         else (d, n, freed))"

function TrieDelete :: "'d trie \<Rightarrow> cstring list \<Rightarrow> 32 word \<Rightarrow> 'd option \<times> 'd trie \<times> 'd freed list" where
  "TrieDelete t seq flags =
     (if \<not> seq_end seq then
        (case find_branch (branches t) (hd seq) of
           Some i \<Rightarrow>
             (let (d, t', freed) = TrieDelete (branch_trie (branches t ! i)) (tl seq) flags
              in (d, set_branch t i t', freed))
         | None \<Rightarrow> (None, t, []))
      else
        (case trie_node t of
           Some n \<Rightarrow> (let (d, n, freed) = node_delete n flags
                      in (d, Trie (branches t) (Some n), freed))
         | None \<Rightarrow> (None, t, [])))"
  by pat_completeness auto
termination by (relation "measure (\<lambda>(t, seq, _). length seq)") (auto simp: seq_end_def diff_less)

lemmas trie_simps = TrieAdd.simps TrieTruncBranch.simps TrieFind.simps TrieFindExact.simps
  TrieDelete.simps

declare trie_simps [simp del]

subsection \<open>Junctions\<close>

definition junction_new :: "'d junction" where
  "junction_new = \<lparr>channels = [], byname = [], byuse = []\<rparr>"

definition set_channel_trie :: "'d junction \<Rightarrow> nat \<Rightarrow> 'd trie \<Rightarrow> 'd junction" where
  "set_channel_trie j i t = j\<lparr>channels := (channels j)[i := (channels j ! i)\<lparr>channel_trie := t\<rparr>]\<rparr>"

fun truncbranch_loop ::
    "'d junction \<Rightarrow> cstring list \<Rightarrow> nat list \<Rightarrow> 'd junction \<times> 'd freed list" where
  "truncbranch_loop j seq [] = (j, [])"
| "truncbranch_loop j seq (i # is) =
     (let (_, t, freed) = TrieTruncBranch (channel_trie (channels j ! i)) seq;
          (j', freed') = truncbranch_loop (set_channel_trie j i t) seq is
      in (j', freed @ freed'))"

definition JunctionTruncBranch :: "'d junction \<Rightarrow> cstring list \<Rightarrow> 'd junction \<times> 'd freed list" where
  "JunctionTruncBranch j seq = truncbranch_loop j seq (byuse j)"

text \<open>The filter for a sequence and the sequence left for the trie: a last word with a wildcard is
  the filter, when the sequence is more than the key.\<close>

definition has_wildcard :: "cstring \<Rightarrow> bool" where
  "has_wildcard p \<longleftrightarrow> strchr p (CHR ''*'') \<noteq> None \<or> strchr p (CHR ''?'') \<noteq> None"

definition seq_filter :: "cstring list \<Rightarrow> cstring \<times> cstring list" where
  "seq_filter seq =
     (if length seq > 1 \<and> has_wildcard (last seq) then (last seq, wipe_last seq) else (''*'', seq))"

definition find_channel :: "'d junction \<Rightarrow> cstring \<Rightarrow> nat option" where
  "find_channel j f =
     map_option ((!) (byname j))
       (bsearch (CmpKeyWithChannelAsStrings (channels j) f) (byname j) 0 (length (byname j)))"

definition add_channel ::
    "(cstring \<Rightarrow> cstring \<Rightarrow> bool) \<Rightarrow> 'd junction \<Rightarrow> cstring \<Rightarrow> 32 word \<Rightarrow> 'd junction" where
  "add_channel smatch j f flags =
     (let cs = channels j @ [\<lparr>filter_str = f, channel_trie = TrieInit, channel_flags = flags\<rparr>];
          c = length (channels j)
      in \<lparr>channels = cs, byname = index_insert (CmpChannelsAsStrings cs) c (byname j),
          byuse = index_insert (CmpChannels smatch cs) c (byuse j)\<rparr>)"

definition JunctionAdd ::
    "(cstring \<Rightarrow> cstring \<Rightarrow> bool) \<Rightarrow> 'd junction \<Rightarrow> cstring list \<Rightarrow> 'd \<Rightarrow> 32 word \<Rightarrow>
     free_proc option \<Rightarrow> 'd context_spec option \<Rightarrow> 'd junction \<times> 'd freed list" where
  "JunctionAdd smatch j seq d flags freeProc contextSpec =
     (let (f, seq) = seq_filter seq;
          (j, i) = (case find_channel j f of
                      Some i \<Rightarrow> (j, i)
                    | None \<Rightarrow> (add_channel smatch j f flags, length (channels j)));
          (t, freed) = TrieAdd (channel_trie (channels j ! i)) seq d flags freeProc contextSpec
      in (set_channel_trie j i t, freed))"

record match_info =
  mi_offset :: nat
  mi_isSegmentMatch :: bool
  mi_segmentLength :: nat

text \<open>A candidate: the data, its depth and what would be stored in the caller's match information.\<close>

type_synonym 'd candidate = "'d option \<times> int \<times> match_info"

definition no_info :: match_info where
  "no_info = \<lparr>mi_offset = 0, mi_isSegmentMatch = False, mi_segmentLength = 0\<rparr>"

text \<open>The segment loop: every segment but the last that matches the filter replaces the candidate.\<close>

fun segment_loop ::
    "(cstring \<Rightarrow> cstring \<Rightarrow> bool) \<Rightarrow> cstring \<Rightarrow> 'd option \<times> int \<Rightarrow> nat \<Rightarrow> cstring list \<Rightarrow>
     'd candidate \<Rightarrow> 'd candidate" where
  "segment_loop smatch f found offset [] cand = cand"
| "segment_loop smatch f found offset (segment # segs) cand =
     segment_loop smatch f found (offset + length segment + 1) segs
       (if smatch segment f then
          (fst found, snd found,
           \<lparr>mi_offset = offset, mi_isSegmentMatch = True, mi_segmentLength = length segment\<rparr>)
        else cand)"

definition channel_candidate ::
    "(cstring \<Rightarrow> cstring \<Rightarrow> bool) \<Rightarrow> 'd channel \<Rightarrow> cstring list \<Rightarrow>
     ('d context_spec \<Rightarrow> 'c \<Rightarrow> bool) \<Rightarrow> 'c option \<Rightarrow> 'd candidate" where
  "channel_candidate smatch ch seq proc context =
     (let noFilter = (filter_str ch = ''*'');
          match = (noFilter \<or> smatch (last seq) (filter_str ch));
          found = TrieFind (channel_trie ch) seq proc context 0
      in if match then (fst found, snd found, no_info)
         else if \<not> noFilter \<and> op_flag (channel_flags ch) NS_OP_SEGMENT_MATCH then
           segment_loop smatch (filter_str ch) found 0 (butlast seq) (None, 0, no_info)
         else (None, 0, no_info))"

definition take_candidate :: "'d candidate \<Rightarrow> 'd candidate \<Rightarrow> 'd candidate" where
  "take_candidate best cand =
     (if fst cand \<noteq> None \<and> (fst best = None \<or> fst (snd cand) > fst (snd best)) then cand else best)"

definition JunctionFind ::
    "(cstring \<Rightarrow> cstring \<Rightarrow> bool) \<Rightarrow> 'd junction \<Rightarrow> cstring list \<Rightarrow>
     ('d context_spec \<Rightarrow> 'c \<Rightarrow> bool) \<Rightarrow> 'c option \<Rightarrow> 'd candidate" where
  "JunctionFind smatch j seq proc context =
     foldl (\<lambda>best i. take_candidate best
              (channel_candidate smatch (channels j ! i) seq proc context))
       (None, 0, no_info) (byuse j)"

definition JunctionFindExact :: "'d junction \<Rightarrow> cstring list \<Rightarrow> 32 word \<Rightarrow> 'd option" where
  "JunctionFindExact j seq flags =
     (case find (\<lambda>i. last seq = filter_str (channels j ! i)) (byuse j) of
        Some i \<Rightarrow> fst (TrieFindExact (channel_trie (channels j ! i)) (wipe_last seq) flags)
      | None \<Rightarrow>
          (case find (\<lambda>i. filter_str (channels j ! i) = ''*'') (byuse j) of
             Some i \<Rightarrow> fst (TrieFindExact (channel_trie (channels j ! i)) seq flags)
           | None \<Rightarrow> None))"

text \<open>One channel of the loop of \<^verbatim>\<open>JunctionDeleteNode\<close>, with \<^verbatim>\<open>nodePtr\<close> initialised to NULL.\<close>

definition delete_in_channel ::
    "'d junction \<Rightarrow> nat \<Rightarrow> cstring list \<Rightarrow> 32 word \<Rightarrow> 'd option \<times> 'd junction \<times> 'd freed list" where
  "delete_in_channel j i seq flags =
     (let t = channel_trie (channels j ! i);
          (d, np) = TrieFindExact t seq flags;
          nodePtr = (case np of Some n \<Rightarrow> n | None \<Rightarrow> None)
      in if d \<noteq> None \<or> nodePtr \<noteq> None then
           (let (_, t', freed) = TrieDelete t seq flags in (d, set_channel_trie j i t', freed))
         else (d, j, []))"

fun delete_loop ::
    "(cstring \<Rightarrow> cstring \<Rightarrow> bool) \<Rightarrow> 'd junction \<Rightarrow> nat list \<Rightarrow> cstring list \<Rightarrow> 32 word \<Rightarrow>
     'd option \<times> 'd junction \<times> 'd freed list" where
  "delete_loop smatch j [] seq flags = (None, j, [])"
| "delete_loop smatch j (i # is) seq flags =
     (let p = last seq; f = filter_str (channels j ! i);
          seq = (if p = f then wipe_last seq else seq);
          (d, j, freed) =
            (if p = f \<or> smatch p f then delete_in_channel j i seq flags else (None, j, []))
      in if d = None then
           (let (d, j, freed') = delete_loop smatch j is seq flags in (d, j, freed @ freed'))
         else (d, j, freed))"

definition JunctionDeleteNode ::
    "(cstring \<Rightarrow> cstring \<Rightarrow> bool) \<Rightarrow> 'd junction \<Rightarrow> cstring list \<Rightarrow> 32 word \<Rightarrow>
     'd option \<times> 'd junction \<times> 'd freed list" where
  "JunctionDeleteNode smatch j seq flags = delete_loop smatch j (byuse j) seq flags"

subsection \<open>The interface\<close>

text \<open>The servers by name; each has an array of junctions, created on their first use.\<close>

definition MAX_URLSPACES :: nat where "MAX_URLSPACES = 16"

type_synonym 'd urlspaces = "cstring \<rightharpoonup> 'd junction option list"

definition Ns_UrlSpecificAlloc :: "nat \<Rightarrow> (nat \<times> nat) option" where
  "Ns_UrlSpecificAlloc nextid = (if nextid \<ge> MAX_URLSPACES then None else Some (nextid, nextid + 1))"

definition JunctionGet :: "'d junction option list \<Rightarrow> nat \<Rightarrow> 'd junction" where
  "JunctionGet js sid = (case js ! sid of Some j \<Rightarrow> j | None \<Rightarrow> junction_new)"

definition Ns_UrlSpecificSet2 ::
    "(cstring \<Rightarrow> cstring \<Rightarrow> bool) \<Rightarrow> 'd urlspaces \<Rightarrow> cstring \<Rightarrow> cstring \<Rightarrow> cstring \<Rightarrow> nat \<Rightarrow> 'd \<Rightarrow>
     32 word \<Rightarrow> free_proc option \<Rightarrow> 'd context_spec option \<Rightarrow> 'd urlspaces \<times> 'd freed list" where
  "Ns_UrlSpecificSet2 smatch us server key url sid d flags freeProc contextSpec =
     (case us server of
        Some js \<Rightarrow>
          (let (j, freed) = JunctionAdd smatch (JunctionGet js sid) (seq_words (MkSeq key url)) d flags
                              freeProc contextSpec
           in (us(server \<mapsto> js[sid := Some j]), freed))
      | None \<Rightarrow> (us, []))"

definition Ns_UrlSpecificSet ::
    "(cstring \<Rightarrow> cstring \<Rightarrow> bool) \<Rightarrow> 'd urlspaces \<Rightarrow> cstring \<Rightarrow> cstring \<Rightarrow> cstring \<Rightarrow> nat \<Rightarrow> 'd \<Rightarrow>
     32 word \<Rightarrow> free_proc option \<Rightarrow> 'd urlspaces \<times> 'd freed list" where
  "Ns_UrlSpecificSet smatch us server key url sid d flags freeProc =
     Ns_UrlSpecificSet2 smatch us server key url sid d flags freeProc None"

datatype url_space_op = NS_URLSPACE_DEFAULT | NS_URLSPACE_EXACT | NS_URLSPACE_FAST

text \<open>A lookup also creates the junction of the id when it does not exist.\<close>

definition Ns_UrlSpecificGet ::
    "(cstring \<Rightarrow> cstring \<Rightarrow> bool) \<Rightarrow> 'd junction option list \<Rightarrow> cstring \<Rightarrow> cstring \<Rightarrow> nat \<Rightarrow> 32 word \<Rightarrow>
     url_space_op \<Rightarrow> ('d context_spec \<Rightarrow> 'c \<Rightarrow> bool) \<Rightarrow> 'c option \<Rightarrow>
     'd candidate \<times> 'd junction option list" where
  "Ns_UrlSpecificGet smatch js key url sid flags op proc context =
     (let junction = JunctionGet js sid; seq = seq_words (MkSeq key url) in
      (case op of
         NS_URLSPACE_DEFAULT \<Rightarrow> JunctionFind smatch junction seq proc context
       | NS_URLSPACE_EXACT \<Rightarrow> (JunctionFindExact junction seq flags, 0, no_info)
       | NS_URLSPACE_FAST \<Rightarrow> JunctionFind smatch junction seq proc context,
       js[sid := Some junction]))"

definition Ns_UrlSpecificGetExact ::
    "(cstring \<Rightarrow> cstring \<Rightarrow> bool) \<Rightarrow> 'd urlspaces \<Rightarrow> cstring \<Rightarrow> cstring \<Rightarrow> cstring \<Rightarrow> nat \<Rightarrow> 32 word \<Rightarrow>
     'd option \<times> 'd urlspaces" where
  "Ns_UrlSpecificGetExact smatch us server key url sid flags =
     (case us server of
        Some js \<Rightarrow>
          (let (cand, js') = Ns_UrlSpecificGet smatch js key url sid flags NS_URLSPACE_EXACT
                               (\<lambda>_ _. False) (None :: unit option)
           in (fst cand, us(server \<mapsto> js')))
      | None \<Rightarrow> (None, us))"

definition Ns_UrlSpecificDestroy ::
    "(cstring \<Rightarrow> cstring \<Rightarrow> bool) \<Rightarrow> 'd urlspaces \<Rightarrow> cstring \<Rightarrow> cstring \<Rightarrow> cstring \<Rightarrow> nat \<Rightarrow> 32 word \<Rightarrow>
     'd option \<times> 'd urlspaces \<times> 'd freed list" where
  "Ns_UrlSpecificDestroy smatch us server key url sid flags =
     (case us server of
        Some js \<Rightarrow>
          (let seq = seq_words (MkSeq key url) in
           if op_flag flags NS_OP_RECURSE then
             (let (j, freed) = JunctionTruncBranch (JunctionGet js sid) seq
              in (None, us(server \<mapsto> js[sid := Some j]), freed))
           else
             (let (d, j, freed) = JunctionDeleteNode smatch (JunctionGet js sid) seq flags
              in (d, us(server \<mapsto> js[sid := Some j]), freed)))
      | None \<Rightarrow> (None, us, []))"

subsection \<open>The words of a sequence\<close>

definition url_tokens :: "cstring \<Rightarrow> cstring list" where
  "url_tokens url = filter (\<lambda>w. w \<noteq> []) (split_on (CHR ''/'') url)"

lemma mkseq_loop_tokens: "mkseq_loop url = concat (map (\<lambda>w. w @ [NUL]) (url_tokens url))"
proof (induction url rule: mkseq_loop.induct)
  case (1 url)
  show ?case
  proof (cases url)
    case Nil
    then show ?thesis by (simp add: mkseq_loop.simps url_tokens_def)
  next
    case (Cons x xs)
    show ?thesis
    proof (cases "x = CHR ''/''")
      case True
      then show ?thesis using 1 Cons by (subst mkseq_loop.simps) (simp add: url_tokens_def)
    next
      case False
      show ?thesis
      proof (cases "strchr url (CHR ''/'')")
        case None
        then have "split_on (CHR ''/'') url = [url]" by (simp add: strchr_None_iff split_on_none)
        then show ?thesis using None Cons False by (subst mkseq_loop.simps) (simp add: url_tokens_def)
      next
        case (Some l)
        note l = strchr_SomeD [OF Some]
        then have "url = take l url @ CHR ''/'' # drop (Suc l) url"
          using id_take_nth_drop [of l url] by simp
        moreover have "split_on (CHR ''/'') (take l url @ CHR ''/'' # drop (Suc l) url) =
            take l url # split_on (CHR ''/'') (drop (Suc l) url)"
          using l by (intro split_on_append) simp
        ultimately have "split_on (CHR ''/'') url = take l url # split_on (CHR ''/'') (drop (Suc l) url)"
          by simp
        moreover have "take l url \<noteq> []" using l Cons False by (cases l) auto
        ultimately have "url_tokens url = take l url # url_tokens (drop (Suc l) url)"
          by (simp add: url_tokens_def)
        moreover have url: "url \<noteq> []" "hd url \<noteq> CHR ''/''" using Cons False by simp_all
        ultimately show ?thesis
          using 1(1) [OF url Some] by (subst mkseq_loop.simps) (simp add: Some)
      qed
    qed
  qed
qed

lemma takeWhile_word: "NUL \<notin> set w \<Longrightarrow> takeWhile (\<lambda>c. c \<noteq> NUL) (w @ NUL # rest) = w"
  by (induction w) auto

lemma seq_words_concat:
  "NUL \<notin> set w \<Longrightarrow> (\<forall>v\<in>set ws. v \<noteq> [] \<and> NUL \<notin> set v) \<Longrightarrow>
    seq_words (w @ NUL # concat (map (\<lambda>w. w @ [NUL]) ws) @ [NUL]) = w # ws"
proof (induction ws arbitrary: w)
  case Nil
  then show ?case by (simp add: seq_words.simps takeWhile_word Let_def)
next
  case (Cons v ws)
  then obtain c cs where v: "v = c # cs" "c \<noteq> NUL" by (cases v) auto
  have "seq_words (v @ NUL # concat (map (\<lambda>w. w @ [NUL]) ws) @ [NUL]) = v # ws" using Cons by simp
  then show ?case
    using Cons.prems v by (subst seq_words.simps) (simp add: takeWhile_word Let_def)
qed

subsection \<open>Branches as a finite map\<close>

interpretation branchindex: index_order CmpBranches "\<lambda>_. True" CmpKeyWithBranch
proof unfold_locales
  fix x y :: "'d branch" and k
  assume "CmpBranches x y \<le> 0"
  then show "sgn (CmpKeyWithBranch k y) \<le> sgn (CmpKeyWithBranch k x)"
    unfolding CmpBranches_def CmpKeyWithBranch_def
    by (intro sgn_le_intro) (use str.cmp_less_trans str.cmp_trans in blast)+
qed (auto simp: CmpBranches_def strcmp_less_flip intro: strcmp_trans)

definition kids :: "'d branch list \<Rightarrow> cstring \<rightharpoonup> 'd trie" where
  "kids bs = map_of (map (\<lambda>b. (word b, branch_trie b)) bs)"

definition branches_ok :: "'d branch list \<Rightarrow> bool" where
  "branches_ok bs \<longleftrightarrow> sorted_wrt (\<lambda>x y. CmpBranches x y \<le> 0) bs \<and> distinct (map word bs)"

lemma find_branch_SomeD:
  "find_branch bs w = Some i \<Longrightarrow> i < length bs \<and> word (bs ! i) = w"
  by (auto simp: find_branch_def CmpKeyWithBranch_def dest: bsearch_SomeD)

lemma find_branch_None_iff:
  "branches_ok bs \<Longrightarrow> find_branch bs w = None \<longleftrightarrow> w \<notin> word ` set bs"
  using branchindex.bsearch_iff [of bs w]
  by (auto simp: find_branch_def branches_ok_def CmpKeyWithBranch_def)

lemma kids_find:
  assumes "branches_ok bs"
  shows "kids bs w = map_option (\<lambda>i. branch_trie (bs ! i)) (find_branch bs w)"
proof (cases "find_branch bs w")
  case None
  then have "w \<notin> word ` set bs" using find_branch_None_iff [OF assms] by blast
  then have "kids bs w = None" by (auto simp: kids_def map_of_eq_None_iff)
  then show ?thesis using None by simp
next
  case (Some i)
  note i = find_branch_SomeD [OF Some]
  have "distinct (map fst (map (\<lambda>b. (word b, branch_trie b)) bs))"
    using assms by (simp add: branches_ok_def comp_def)
  moreover have "(w, branch_trie (bs ! i)) \<in> set (map (\<lambda>b. (word b, branch_trie b)) bs)"
    using i by force
  ultimately show ?thesis using Some by (simp add: kids_def)
qed

lemma map_of_list_update:
  "distinct (map fst ps) \<Longrightarrow> i < length ps \<Longrightarrow> fst (ps ! i) = k \<Longrightarrow>
    map_of (ps[i := (k, v)]) = (map_of ps)(k \<mapsto> v)"
proof (induction ps arbitrary: i)
  case (Cons p ps)
  show ?case
  proof (cases i)
    case (Suc n)
    then have "map_of (ps[n := (k, v)]) = (map_of ps)(k \<mapsto> v)"
      using Cons.prems by (intro Cons.IH) simp_all
    moreover have "fst p \<noteq> k" using Cons.prems Suc by force
    ultimately show ?thesis using Suc by (cases p) (auto simp: fun_upd_twist)
  qed (use Cons in \<open>cases p; auto\<close>)
qed simp

lemma map_of_insert_at:
  assumes "k \<notin> fst ` set ps"
  shows "map_of (insert_at i (k, v) ps) = (map_of ps)(k \<mapsto> v)"
proof
  fix x
  have ps: "map_of ps = map_of (drop i ps) ++ map_of (take i ps)"
    using map_of_append [of "take i ps" "drop i ps"] by simp
  have "map_of (take i ps) k = None"
    using assms by (auto simp: map_of_eq_None_iff dest: in_set_takeD)
  then show "map_of (insert_at i (k, v) ps) x = ((map_of ps)(k \<mapsto> v)) x"
    by (auto simp: insert_at_def ps map_add_def split: option.splits)
qed

lemma map_insert_at: "map f (insert_at i x xs) = insert_at i (f x) (map f xs)"
  by (simp add: insert_at_def take_map drop_map)

lemma distinct_insert_at: "distinct (insert_at i x xs) \<longleftrightarrow> x \<notin> set xs \<and> distinct xs"
proof -
  have "mset (insert_at i x xs) = mset (x # xs)" by simp
  then have "distinct (insert_at i x xs) \<longleftrightarrow> distinct (x # xs)" by (rule mset_eq_imp_distinct_iff)
  then show ?thesis by simp
qed

lemma sorted_branches_words:
  "sorted_wrt (\<lambda>x y. CmpBranches x y \<le> 0) bs \<longleftrightarrow> sorted_wrt (\<lambda>v w. strcmp v w \<le> 0) (map word bs)"
  by (simp add: sorted_wrt_map CmpBranches_def)

lemma branches_ok_set:
  assumes "branches_ok bs" "i < length bs" "w = word (bs ! i)"
  shows "branches_ok (bs[i := Branch w t])" "kids (bs[i := Branch w t]) = (kids bs)(w \<mapsto> t)"
proof -
  have "map word (bs[i := Branch w t]) = map word bs"
    using assms(2,3) by (simp add: map_update list_update_same_conv)
  then show "branches_ok (bs[i := Branch w t])"
    using assms(1) by (simp add: branches_ok_def sorted_branches_words)
  have "distinct (map fst (map (\<lambda>b. (word b, branch_trie b)) bs))"
    using assms(1) by (simp add: branches_ok_def comp_def)
  then show "kids (bs[i := Branch w t]) = (kids bs)(w \<mapsto> t)"
    using assms(2,3) by (simp add: kids_def map_update map_of_list_update)
qed

lemma branches_ok_insert:
  assumes "branches_ok bs" "w \<notin> word ` set bs"
  shows "branches_ok (index_insert CmpBranches (Branch w t) bs)"
    and "kids (index_insert CmpBranches (Branch w t) bs) = (kids bs)(w \<mapsto> t)"
proof -
  show "branches_ok (index_insert CmpBranches (Branch w t) bs)"
    using assms branchindex.sorted_insert [of bs "Branch w t"]
    by (simp add: branches_ok_def index_insert_def map_insert_at distinct_insert_at)
  have "w \<notin> fst ` set (map (\<lambda>b. (word b, branch_trie b)) bs)" using assms(2) by force
  then show "kids (index_insert CmpBranches (Branch w t) bs) = (kids bs)(w \<mapsto> t)"
    by (simp add: kids_def index_insert_def map_insert_at map_of_insert_at)
qed

subsection \<open>A trie as a map from paths to nodes\<close>

fun trie_inv :: "'d trie \<Rightarrow> bool"
and branch_inv :: "'d branch \<Rightarrow> bool" where
  "trie_inv (Trie bs n) \<longleftrightarrow> branches_ok bs \<and> list_all branch_inv bs"
| "branch_inv (Branch w t) \<longleftrightarrow> trie_inv t"

fun node_at :: "'d trie \<Rightarrow> cstring list \<Rightarrow> 'd node option" where
  "node_at t [] = trie_node t"
| "node_at t (w # ws) = (case kids (branches t) w of Some t' \<Rightarrow> node_at t' ws | None \<Rightarrow> None)"

definition seq_path :: "cstring list \<Rightarrow> cstring list" where
  "seq_path seq = takeWhile (\<lambda>w. w \<noteq> []) seq"

lemma seq_path_simps [simp]:
  "seq_path [] = []" "seq_path ([] # ws) = []" "w \<noteq> [] \<Longrightarrow> seq_path (w # ws) = w # seq_path ws"
  "seq_end seq \<Longrightarrow> seq_path seq = []"
  by (auto simp: seq_path_def seq_end_def, cases seq, auto)

lemma seq_path_step: "\<not> seq_end seq \<Longrightarrow> seq_path seq = hd seq # seq_path (tl seq)"
  by (cases seq) auto

lemma branch_inv_iff: "branch_inv b \<longleftrightarrow> trie_inv (branch_trie b)"
  by (cases b) simp

lemma trie_inv_iff:
  "trie_inv t \<longleftrightarrow> branches_ok (branches t) \<and> (\<forall>b\<in>set (branches t). trie_inv (branch_trie b))"
  by (cases t) (simp add: list_all_iff branch_inv_iff)

lemma trie_inv_init [simp]: "trie_inv TrieInit"
  by (simp add: TrieInit_def branches_ok_def)

lemma kids_init [simp]: "kids (branches TrieInit) = Map.empty" "trie_node TrieInit = None"
  by (simp_all add: TrieInit_def kids_def)

lemma node_at_init [simp]: "node_at TrieInit p = None"
  by (cases p) simp_all

lemma trie_inv_kid: "trie_inv t \<Longrightarrow> kids (branches t) w = Some t' \<Longrightarrow> trie_inv t'"
  unfolding trie_inv_iff [of t] kids_def by (force dest!: map_of_SomeD)

lemma trie_inv_find:
  "trie_inv t \<Longrightarrow> find_branch (branches t) w = Some i \<Longrightarrow> trie_inv (branch_trie (branches t ! i))"
  unfolding trie_inv_iff [of t] using find_branch_SomeD by fastforce

lemma set_branch_inv:
  assumes "trie_inv t" "find_branch (branches t) w = Some i" "trie_inv t'"
  shows "trie_inv (set_branch t i t')"
    and "kids (branches (set_branch t i t')) = (kids (branches t))(w \<mapsto> t')"
    and "trie_node (set_branch t i t') = trie_node t"
proof -
  note i = find_branch_SomeD [OF assms(2)]
  have ok: "branches_ok (branches t)" "\<forall>b\<in>set (branches t). trie_inv (branch_trie b)"
    using assms(1) by (simp_all add: trie_inv_iff [of t])
  have bs: "branches (set_branch t i t') = (branches t)[i := Branch w t']"
    using i by (simp add: set_branch_def)
  have "\<forall>b\<in>set ((branches t)[i := Branch w t']). trie_inv (branch_trie b)"
    using ok(2) assms(3) set_update_subset_insert [of "branches t" i "Branch w t'"] by fastforce
  then show "trie_inv (set_branch t i t')"
    unfolding trie_inv_iff [of "set_branch t i t'"] bs using branches_ok_set(1) [OF ok(1), of i w t'] i by simp
  show "kids (branches (set_branch t i t')) = (kids (branches t))(w \<mapsto> t')"
    unfolding bs using branches_ok_set(2) [OF ok(1), of i w t'] i by simp
qed (simp add: set_branch_def)

lemma node_at_set_branch:
  assumes "trie_inv t" "find_branch (branches t) w = Some i" "trie_inv t'"
  shows "node_at (set_branch t i t') p =
    (case p of v # ps \<Rightarrow> if v = w then node_at t' ps else node_at t p | [] \<Rightarrow> node_at t p)"
  using set_branch_inv [OF assms] by (cases p) auto

lemma new_branch:
  assumes "trie_inv t" "find_branch (branches t) w = None"
    and t': "t' = Trie (index_insert CmpBranches (Branch w TrieInit) (branches t)) (trie_node t)"
  shows "trie_inv t'" "kids (branches t') = (kids (branches t))(w \<mapsto> TrieInit)"
    "\<exists>i. find_branch (branches t') w = Some i \<and> branch_trie (branches t' ! i) = TrieInit"
    "node_at t' p = node_at t p"
proof -
  have ok: "branches_ok (branches t)" "\<forall>b\<in>set (branches t). trie_inv (branch_trie b)"
    using assms(1) by (simp_all add: trie_inv_iff [of t])
  then have "w \<notin> word ` set (branches t)" using assms(2) find_branch_None_iff by blast
  note new = branches_ok_insert [OF ok(1) this, of TrieInit]
  show "trie_inv t'"
    unfolding trie_inv_iff [of t'] using new(1) ok(2) by (simp add: t' index_insert_def)
  show kids: "kids (branches t') = (kids (branches t))(w \<mapsto> TrieInit)" using new(2) by (simp add: t')
  have "kids (branches t) w = None" using kids_find [OF ok(1)] assms(2) by simp
  then show "node_at t' p = node_at t p" using kids by (cases p) (auto simp: t')
  have "kids (branches t') w = Some TrieInit" using kids by simp
  moreover have "branches_ok (branches t')" using new(1) by (simp add: t')
  ultimately show "\<exists>i. find_branch (branches t') w = Some i \<and> branch_trie (branches t' ! i) = TrieInit"
    by (simp add: kids_find)
qed

lemma TrieAdd_spec:
  assumes "trie_inv t" "TrieAdd t seq d flags proc spec = (t', freed)"
  shows "trie_inv t' \<and>
    node_at t' p = (if p = seq_path seq then Some (fst (node_add (node_at t p) d flags proc spec))
                    else node_at t p)"
  using assms
proof (induction seq arbitrary: t t' freed p)
  case Nil
  then show ?case
    by (cases p) (auto simp: trie_simps trie_inv_iff [of t] trie_inv_iff [of t'] split: prod.splits)
next
  case (Cons w ws)
  show ?case
  proof (cases "w = []")
    case True
    then show ?thesis using Cons.prems
      by (cases p) (auto simp: trie_simps trie_inv_iff [of t] trie_inv_iff [of t'] split: prod.splits)
  next
    case False
    define u where "u = ensure_branch t w"
    have "trie_inv u \<and> (\<forall>p. node_at u p = node_at t p) \<and> (\<exists>i. find_branch (branches u) w = Some i)"
    proof (cases "find_branch (branches t) w")
      case None
      then have "u = Trie (index_insert CmpBranches (Branch w TrieInit) (branches t)) (trie_node t)"
        by (simp add: u_def ensure_branch_def)
      then show ?thesis using new_branch [OF Cons.prems(1) None, of u] by blast
    qed (use Cons.prems(1) in \<open>simp add: u_def ensure_branch_def\<close>)
    then obtain i where u: "trie_inv u" "\<And>p. node_at u p = node_at t p" "find_branch (branches u) w = Some i"
      by blast
    obtain v freed' where v: "TrieAdd (branch_trie (branches u ! i)) ws d flags proc spec = (v, freed')"
      by fastforce
    have t': "t' = set_branch u i v"
      using Cons.prems(2) False u(3) v by (simp add: TrieAdd.simps [of t] u_def [symmetric] Let_def)
    note IH = Cons.IH [OF trie_inv_find [OF u(1,3)] v]
    have "branches_ok (branches u)" using u(1) by (simp add: trie_inv_iff [of u])
    then have kid: "kids (branches u) w = Some (branch_trie (branches u ! i))" using u(3) by (simp add: kids_find)
    have "node_at t' p = (if p = w # seq_path ws
        then Some (fst (node_add (node_at t p) d flags proc spec)) else node_at t p)"
    proof (cases "\<exists>ps. p = w # ps")
      case True
      then obtain ps where p: "p = w # ps" by blast
      have "node_at t p = node_at (branch_trie (branches u ! i)) ps" using u(2) [of p] kid p by simp
      then show ?thesis using IH [of ps] p t' node_at_set_branch [OF u(1,3), of v p] by auto
    next
      case no: False
      have "node_at t' p = node_at u p"
        using node_at_set_branch [OF u(1,3), of v p] IH [of "[]"] no t' by (cases p) auto
      then show ?thesis using no u(2) by auto
    qed
    then show ?thesis using set_branch_inv(1) [OF u(1,3)] IH [of "[]"] t' False by simp
  qed
qed

lemma kids_step:
  "trie_inv t \<Longrightarrow> kids (branches t) w = map_option (\<lambda>i. branch_trie (branches t ! i)) (find_branch (branches t) w)"
  using trie_inv_iff [of t] kids_find by blast

lemma TrieFindExact_spec:
  "trie_inv t \<Longrightarrow> fst (TrieFindExact t seq flags) =
    (case node_at t (seq_path seq) of
       Some n \<Rightarrow> if op_flag flags NS_OP_NOINHERIT then dataNoInherit n else dataInherit n
     | None \<Rightarrow> None)"
proof (induction t seq flags rule: TrieFindExact.induct)
  case (1 t seq flags)
  show ?case
  proof (cases "seq_end seq")
    case True
    then show ?thesis by (simp add: TrieFindExact.simps split: option.splits)
  next
    case False
    then show ?thesis
      using 1 trie_inv_find [OF 1(2)]
      by (auto simp: TrieFindExact.simps [of t] seq_path_step kids_step split: option.splits)
  qed
qed

text \<open>The data a lookup of a path finds at its prefix of length \<open>n\<close>.\<close>

definition prefix_data ::
    "'d trie \<Rightarrow> cstring list \<Rightarrow> ('d context_spec \<Rightarrow> 'c \<Rightarrow> bool) \<Rightarrow> 'c option \<Rightarrow> nat \<Rightarrow> 'd option" where
  "prefix_data t path proc context n =
     (case node_at t (take n path) of
        Some nd \<Rightarrow> node_data nd (n = length path) proc context
      | None \<Rightarrow> None)"

text \<open>What the longest prefix with data gives.\<close>

definition longest_prefix ::
    "'d trie \<Rightarrow> cstring list \<Rightarrow> ('d context_spec \<Rightarrow> 'c \<Rightarrow> bool) \<Rightarrow> 'c option \<Rightarrow> 'd option \<Rightarrow> int \<Rightarrow> bool" where
  "longest_prefix t path proc context found k \<longleftrightarrow>
     (case found of
        Some d \<Rightarrow> \<exists>n\<le>length path. k = int n \<and> prefix_data t path proc context n = Some d \<and>
          (\<forall>m. n < m \<longrightarrow> m \<le> length path \<longrightarrow> prefix_data t path proc context m = None)
      | None \<Rightarrow> k = 0 \<and> (\<forall>n\<le>length path. prefix_data t path proc context n = None))"

lemma prefix_data_0:
  "prefix_data t path proc context 0 =
    (case trie_node t of Some n \<Rightarrow> node_data n (path = []) proc context | None \<Rightarrow> None)"
  by (cases path) (auto simp: prefix_data_def split: option.splits)

lemma prefix_data_Suc:
  "prefix_data t (w # ps) proc context (Suc n) =
    (case kids (branches t) w of Some t' \<Rightarrow> prefix_data t' ps proc context n | None \<Rightarrow> None)"
  by (auto simp: prefix_data_def split: option.splits)

lemma all_le_Suc: "(\<forall>n\<le>Suc k. P n) \<longleftrightarrow> P 0 \<and> (\<forall>n\<le>k. P (Suc n))"
  by (metis Suc_le_mono le0 not0_implies_Suc)

lemma longest_prefix_step:
  assumes "longest_prefix t' ps proc context found k" "kids (branches t) w = Some t'"
  shows "longest_prefix t (w # ps) proc context
    (if found \<noteq> None then found else prefix_data t (w # ps) proc context 0)
    (if found \<noteq> None then k + 1 else 0)"
proof (cases found)
  case None
  then have "\<forall>n\<le>length ps. prefix_data t' ps proc context n = None"
    using assms(1) by (simp add: longest_prefix_def)
  then have none: "prefix_data t (w # ps) proc context (Suc n) = None" if "n \<le> length ps" for n
    using that assms(2) by (simp add: prefix_data_Suc)
  show ?thesis
  proof (cases "prefix_data t (w # ps) proc context 0")
    case None
    then show ?thesis using \<open>found = None\<close> none by (simp add: longest_prefix_def all_le_Suc)
  next
    case (Some d)
    have "prefix_data t (w # ps) proc context m = None" if "0 < m" "m \<le> Suc (length ps)" for m
      using none [of "m - 1"] that by (cases m) simp_all
    then show ?thesis using \<open>found = None\<close> Some by (auto simp: longest_prefix_def intro!: exI [of _ 0])
  qed
next
  case (Some d)
  then obtain n where n: "n \<le> length ps" "k = int n" "prefix_data t' ps proc context n = Some d"
    "\<forall>m. n < m \<longrightarrow> m \<le> length ps \<longrightarrow> prefix_data t' ps proc context m = None"
    using assms(1) by (auto simp: longest_prefix_def)
  have "prefix_data t (w # ps) proc context m = None" if "Suc n < m" "m \<le> Suc (length ps)" for m
    using n(4) that assms(2) by (cases m) (simp_all add: prefix_data_Suc)
  then show ?thesis
    using n Some assms(2) by (auto simp: longest_prefix_def prefix_data_Suc intro!: exI [of _ "Suc n"])
qed

lemma longest_prefix_root:
  assumes "\<forall>n. 0 < n \<longrightarrow> n \<le> length path \<longrightarrow> prefix_data t path proc context n = None"
  shows "longest_prefix t path proc context (prefix_data t path proc context 0) 0"
proof -
  have "\<forall>n\<le>length path. n = 0 \<or> prefix_data t path proc context n = None" using assms by auto
  then show ?thesis using assms by (auto simp: longest_prefix_def split: option.splits)
qed

lemma TrieFind_longest:
  "trie_inv t \<Longrightarrow> TrieFind t seq proc context depth = (found, depth') \<Longrightarrow>
    longest_prefix t (seq_path seq) proc context found (depth' - depth)"
proof (induction t seq proc "context" depth arbitrary: found depth' rule: TrieFind.induct)
  case (1 t seq proc ctxt depth)
  have here: "(case trie_node t of Some n \<Rightarrow> node_data n (seq_end seq) proc ctxt | None \<Rightarrow> None) =
      prefix_data t (seq_path seq) proc ctxt 0"
    by (cases "seq_end seq") (simp_all add: prefix_data_0 seq_path_step split: option.splits)
  show ?case
  proof (cases "seq_end seq")
    case True
    then have "found = prefix_data t (seq_path seq) proc ctxt 0" "depth' = depth"
      using 1(3) here by (simp_all add: TrieFind.simps [of t])
    then show ?thesis using True longest_prefix_root [of "[]" t proc ctxt] by simp
  next
    case False
    note path = seq_path_step [OF False]
    show ?thesis
    proof (cases "find_branch (branches t) (hd seq)")
      case None
      then have "found = prefix_data t (seq_path seq) proc ctxt 0" "depth' = depth"
        using 1(3) False here by (simp_all add: TrieFind.simps [of t] Let_def)
      moreover have "kids (branches t) (hd seq) = None" using None kids_step [OF 1(2)] by simp
      then have "prefix_data t (seq_path seq) proc ctxt n = None" if "0 < n" for n
        using that by (cases n) (simp_all add: path prefix_data_Suc)
      ultimately show ?thesis using longest_prefix_root [of "seq_path seq" t proc ctxt] by simp
    next
      case (Some i)
      obtain p ldepth where rec: "TrieFind (branch_trie (branches t ! i)) (tl seq) proc ctxt (depth + 1) =
          (p, ldepth)" by fastforce
      have kid: "kids (branches t) (hd seq) = Some (branch_trie (branches t ! i))"
        using Some kids_step [OF 1(2)] by simp
      have "longest_prefix (branch_trie (branches t ! i)) (seq_path (tl seq)) proc ctxt p (ldepth - (depth + 1))"
        using 1(1) [OF refl _ Some trie_inv_find [OF 1(2) Some] rec] False by simp
      note step = longest_prefix_step [OF this kid, folded path]
      have "found = (if p \<noteq> None then p else prefix_data t (seq_path seq) proc ctxt 0)"
        "depth' = (if p \<noteq> None then ldepth else depth)"
        using 1(3) False Some rec here by (auto simp: TrieFind.simps [of t] Let_def split: if_splits)
      then show ?thesis using step by (simp split: if_splits)
    qed
  qed
qed

subsection \<open>Junctions as maps from filters and paths to nodes\<close>

interpretation channelindex:
  index_order "CmpChannelsAsStrings cs" "\<lambda>_. True" "CmpKeyWithChannelAsStrings cs" for cs
proof unfold_locales
  fix x y k
  assume "CmpChannelsAsStrings cs x y \<le> 0"
  then show "sgn (CmpKeyWithChannelAsStrings cs k y) \<le> sgn (CmpKeyWithChannelAsStrings cs k x)"
    unfolding CmpChannelsAsStrings_def CmpKeyWithChannelAsStrings_def
    by (intro sgn_le_intro) (use str.cmp_less_trans str.cmp_trans in blast)+
qed (auto simp: CmpChannelsAsStrings_def strcmp_less_flip intro: strcmp_trans)

definition junction_inv :: "'d junction \<Rightarrow> bool" where
  "junction_inv j \<longleftrightarrow>
     mset (byname j) = mset [0..<length (channels j)] \<and>
     mset (byuse j) = mset [0..<length (channels j)] \<and>
     sorted_wrt (\<lambda>x y. CmpChannelsAsStrings (channels j) x y \<le> 0) (byname j) \<and>
     distinct (map filter_str (channels j)) \<and>
     (\<forall>c\<in>set (channels j). trie_inv (channel_trie c) \<and> has_wildcard (filter_str c))"

lemma junction_invD:
  assumes "junction_inv j"
  shows "set (byname j) = {..<length (channels j)}" "set (byuse j) = {..<length (channels j)}"
    "distinct (byuse j)" "distinct (map filter_str (channels j))"
    "sorted_wrt (\<lambda>x y. CmpChannelsAsStrings (channels j) x y \<le> 0) (byname j)"
    "\<forall>c\<in>set (channels j). trie_inv (channel_trie c) \<and> has_wildcard (filter_str c)"
proof -
  have m: "mset (byname j) = mset [0..<length (channels j)]"
    "mset (byuse j) = mset [0..<length (channels j)]"
    using assms unfolding junction_inv_def by blast+
  show "set (byname j) = {..<length (channels j)}" "set (byuse j) = {..<length (channels j)}"
    using mset_eq_setD [OF m(1)] mset_eq_setD [OF m(2)] by (simp_all add: lessThan_atLeast0)
  show "distinct (byuse j)" using mset_eq_imp_distinct_iff [OF m(2)] by simp
qed (use assms junction_inv_def in blast)+

definition channel_of :: "'d junction \<Rightarrow> cstring \<Rightarrow> 'd trie option" where
  "channel_of j f = map_of (map (\<lambda>c. (filter_str c, channel_trie c)) (channels j)) f"

definition junction_at :: "'d junction \<Rightarrow> cstring \<Rightarrow> cstring list \<Rightarrow> 'd node option" where
  "junction_at j f p = (case channel_of j f of Some t \<Rightarrow> node_at t p | None \<Rightarrow> None)"

lemma distinct_filters:
  "junction_inv j \<Longrightarrow> distinct (map fst (map (\<lambda>c. (filter_str c, channel_trie c)) (channels j)))"
  using junction_invD(4) by (simp add: comp_def)

lemma channel_of_nth:
  assumes "junction_inv j" "i < length (channels j)"
  shows "channel_of j (filter_str (channels j ! i)) = Some (channel_trie (channels j ! i))"
proof -
  have "(filter_str (channels j ! i), channel_trie (channels j ! i)) \<in>
      set (map (\<lambda>c. (filter_str c, channel_trie c)) (channels j))"
    using assms(2) by force
  then show ?thesis using distinct_filters [OF assms(1)] by (simp add: channel_of_def)
qed

lemma filter_unique:
  assumes "junction_inv j" "i < length (channels j)" "k < length (channels j)"
    "filter_str (channels j ! i) = filter_str (channels j ! k)"
  shows "i = k"
  using junction_invD(4) [OF assms(1)] assms(2-4) by (auto simp: distinct_conv_nth)

lemma find_channel_Some:
  assumes "junction_inv j" "find_channel j f = Some i"
  shows "i < length (channels j) \<and> filter_str (channels j ! i) = f"
proof -
  obtain k where k: "bsearch (CmpKeyWithChannelAsStrings (channels j) f) (byname j) 0 (length (byname j)) = Some k"
    "i = byname j ! k"
    using assms(2) by (auto simp: find_channel_def)
  have "k < length (byname j)" "CmpKeyWithChannelAsStrings (channels j) f i = 0"
    using bsearch_SomeD [OF k(1)] k(2) by simp_all
  moreover from this have "i \<in> {..<length (channels j)}"
    using k(2) junction_invD(1) [OF assms(1)] nth_mem by metis
  ultimately show ?thesis by (simp add: CmpKeyWithChannelAsStrings_def)
qed

lemma find_channel_None:
  assumes "junction_inv j" "find_channel j f = None"
  shows "f \<notin> filter_str ` set (channels j)"
proof -
  have "bsearch (CmpKeyWithChannelAsStrings (channels j) f) (byname j) 0 (length (byname j)) = None"
    using assms(2) by (simp add: find_channel_def)
  then have "\<forall>i\<in>set (byname j). CmpKeyWithChannelAsStrings (channels j) f i \<noteq> 0"
    using channelindex.bsearch_iff junction_invD(5) [OF assms(1)] by blast
  then show ?thesis
    using junction_invD(1) [OF assms(1)]
    by (auto simp: CmpKeyWithChannelAsStrings_def in_set_conv_nth)
qed

lemma find_byuse:
  assumes "junction_inv j" "i < length (channels j)" "filter_str (channels j ! i) = f"
  shows "find (\<lambda>i. filter_str (channels j ! i) = f) (byuse j) = Some i"
proof -
  have "find (\<lambda>i. filter_str (channels j ! i) = f) (byuse j) \<noteq> None"
    using assms(2,3) junction_invD(2) [OF assms(1)] by (auto simp: find_None_iff)
  then obtain k where k: "find (\<lambda>i. filter_str (channels j ! i) = f) (byuse j) = Some k" by blast
  then have "k \<in> set (byuse j)" "filter_str (channels j ! k) = f" by (auto simp: find_Some_iff)
  then have "k = i" using filter_unique [OF assms(1), of k i] assms(2,3) junction_invD(2) [OF assms(1)] by simp
  then show ?thesis using k by simp
qed

lemma find_byuse_none:
  assumes "junction_inv j" "f \<notin> filter_str ` set (channels j)"
  shows "find (\<lambda>i. filter_str (channels j ! i) = f) (byuse j) = None"
  using assms junction_invD(2) [OF assms(1)] by (auto simp: find_None_iff)

lemma add_channel_inv:
  assumes "junction_inv j" "f \<notin> filter_str ` set (channels j)" "has_wildcard f"
  shows "junction_inv (add_channel smatch j f flags)"
    and "junction_at (add_channel smatch j f flags) = junction_at j"
proof -
  define cs where
    "cs = channels j @ [\<lparr>filter_str = f, channel_trie = TrieInit, channel_flags = flags\<rparr>]"
  have "sorted_wrt (\<lambda>x y. CmpChannelsAsStrings cs x y \<le> 0) (byname j)"
    using junction_invD(5) [OF assms(1)]
  proof (rule sorted_wrt_mono_rel [rotated])
    fix x y assume "x \<in> set (byname j)" "y \<in> set (byname j)" "CmpChannelsAsStrings (channels j) x y \<le> 0"
    then show "CmpChannelsAsStrings cs x y \<le> 0"
      using junction_invD(1) [OF assms(1)] by (simp add: CmpChannelsAsStrings_def cs_def nth_append)
  qed
  then have "sorted_wrt (\<lambda>x y. CmpChannelsAsStrings cs x y \<le> 0)
      (index_insert (CmpChannelsAsStrings cs) (length (channels j)) (byname j))"
    unfolding index_insert_def by (intro channelindex.sorted_insert) simp_all
  then show "junction_inv (add_channel smatch j f flags)"
    using assms unfolding junction_inv_def
    by (auto simp: add_channel_def Let_def index_insert_def cs_def)
  show "junction_at (add_channel smatch j f flags) = junction_at j"
    using assms(2)
    by (intro ext) (auto simp: junction_at_def channel_of_def add_channel_def Let_def map_add_def
        image_iff split: option.splits dest: map_of_SomeD)
qed

lemma set_channel_inv:
  assumes "junction_inv j" "i < length (channels j)" "trie_inv t"
  shows "junction_inv (set_channel_trie j i t)"
    and "channel_of (set_channel_trie j i t) = (channel_of j)(filter_str (channels j ! i) \<mapsto> t)"
proof -
  define cs where "cs = (channels j)[i := (channels j ! i)\<lparr>channel_trie := t\<rparr>]"
  have filters: "map filter_str cs = map filter_str (channels j)"
    using assms(2) by (simp add: cs_def map_update list_update_same_conv)
  have nths: "filter_str (cs ! k) = filter_str (channels j ! k)" for k
    using assms(2) by (cases "k = i") (simp_all add: cs_def)
  have "set cs \<subseteq> insert ((channels j ! i)\<lparr>channel_trie := t\<rparr>) (set (channels j))"
    unfolding cs_def by (rule set_update_subset_insert)
  moreover have "channels j ! i \<in> set (channels j)" using assms(2) by simp
  ultimately have "\<forall>c\<in>set cs. trie_inv (channel_trie c) \<and> has_wildcard (filter_str c)"
    using junction_invD(6) [OF assms(1)] assms(3) by fastforce
  then show "junction_inv (set_channel_trie j i t)"
    using assms(1) filters unfolding junction_inv_def
    by (simp add: set_channel_trie_def cs_def [symmetric] CmpChannelsAsStrings_def nths)
      (simp add: cs_def)
  show "channel_of (set_channel_trie j i t) = (channel_of j)(filter_str (channels j ! i) \<mapsto> t)"
    using distinct_filters [OF assms(1)] assms(2)
    by (intro ext) (simp add: channel_of_def set_channel_trie_def map_update map_of_list_update)
qed

lemma has_wildcard_star [simp]: "has_wildcard ''*''"
  by (simp add: has_wildcard_def)

lemma seq_filter_wildcard: "seq_filter seq = (f, seq') \<Longrightarrow> has_wildcard f"
  by (auto simp: seq_filter_def split: if_splits)

lemma JunctionAdd_at:
  assumes "junction_inv j" "seq_filter seq = (f, seq')"
    "JunctionAdd smatch j seq d flags proc spec = (j', freed)"
  shows "junction_inv j' \<and>
    junction_at j' g p = (if g = f \<and> p = seq_path seq'
      then Some (fst (node_add (junction_at j g p) d flags proc spec)) else junction_at j g p)"
proof -
  obtain k i where ki: "(case find_channel j f of Some i \<Rightarrow> (j, i)
      | None \<Rightarrow> (add_channel smatch j f flags, length (channels j))) = (k, i)" by fastforce
  have "junction_inv k \<and> junction_at k = junction_at j \<and> i < length (channels k) \<and>
      filter_str (channels k ! i) = f"
  proof (cases "find_channel j f")
    case None
    then show ?thesis
      using ki add_channel_inv [OF assms(1) find_channel_None [OF assms(1) None]
          seq_filter_wildcard [OF assms(2)], of smatch flags]
      by (auto simp: add_channel_def Let_def)
  next
    case (Some m)
    then show ?thesis using ki find_channel_Some [OF assms(1) Some] assms(1) by auto
  qed
  then have k: "junction_inv k" "junction_at k = junction_at j" "i < length (channels k)"
    "filter_str (channels k ! i) = f" by simp_all
  obtain t where t: "TrieAdd (channel_trie (channels k ! i)) seq' d flags proc spec = (t, freed)"
    "j' = set_channel_trie k i t"
    using assms(2,3) ki by (auto simp: JunctionAdd_def split: prod.splits)
  have "trie_inv (channel_trie (channels k ! i))" using junction_invD(6) [OF k(1)] k(3) by simp
  note add = TrieAdd_spec [OF this t(1)]
  have at: "junction_at k f = node_at (channel_trie (channels k ! i))"
    using channel_of_nth [OF k(1,3)] k(4) by (auto simp: junction_at_def)
  have inv: "junction_inv j'" and ch: "channel_of j' = (channel_of k)(f \<mapsto> t)"
    using set_channel_inv [OF k(1,3)] add t(2) k(4) by auto
  have "junction_at j' g p = (if g = f then node_at t p else junction_at j g p)"
    using k(2) by (auto simp: junction_at_def ch fun_eq_iff)
  then show ?thesis using inv add [of p] at k(2) by auto
qed

lemma junction_at_exists:
  assumes "junction_inv j" "junction_at j f p = Some n"
  obtains i where "i < length (channels j)" "filter_str (channels j ! i) = f"
    "node_at (channel_trie (channels j ! i)) p = Some n"
proof -
  obtain t where "channel_of j f = Some t" "node_at t p = Some n"
    using assms(2) by (auto simp: junction_at_def split: option.splits)
  then show thesis
    using that by (auto simp: channel_of_def in_set_conv_nth dest!: map_of_SomeD)
qed

definition flag_data :: "32 word \<Rightarrow> 'd node \<Rightarrow> 'd option" where
  "flag_data flags n = (if op_flag flags NS_OP_NOINHERIT then dataNoInherit n else dataInherit n)"

lemma JunctionFindExact_at:
  assumes "junction_inv j" "seq_filter seq = (f, seq')" "junction_at j f (seq_path seq') = Some n"
    "length seq > 1 \<or> \<not> has_wildcard (last seq)"
  shows "JunctionFindExact j seq flags = flag_data flags n"
proof -
  obtain i where i: "i < length (channels j)" "filter_str (channels j ! i) = f"
    "node_at (channel_trie (channels j ! i)) (seq_path seq') = Some n"
    using junction_at_exists [OF assms(1,3)] by blast
  have "trie_inv (channel_trie (channels j ! i))" using junction_invD(6) [OF assms(1)] i(1) by simp
  note exact = TrieFindExact_spec [OF this, of seq' flags]
  show ?thesis
  proof (cases "length seq > 1 \<and> has_wildcard (last seq)")
    case True
    then show ?thesis
      using find_byuse [OF assms(1) i(1,2)] assms(2) exact i(3)
      by (auto simp: JunctionFindExact_def seq_filter_def flag_data_def eq_commute [of "last seq"])
  next
    case False
    then have "last seq \<notin> filter_str ` set (channels j)"
      using assms(4) junction_invD(6) [OF assms(1)] by auto
    note none = find_byuse_none [OF assms(1) this]
    have "f = ''*''" "seq' = seq" using False assms(2) unfolding seq_filter_def by auto
    then show ?thesis
      using find_byuse [OF assms(1) i(1,2)] none exact i(3)
      by (simp add: JunctionFindExact_def flag_data_def eq_commute [of "last seq"])
  qed
qed

lemma flag_data_add:
  "op_flag flags' NS_OP_NOINHERIT = op_flag flags NS_OP_NOINHERIT \<Longrightarrow>
    flag_data flags' (fst (node_add n d flags proc None)) = Some d"
  by (auto simp: flag_data_def node_add_def Let_def split: prod.splits)

lemma junction_inv_new [simp]: "junction_inv junction_new"
  by (simp add: junction_inv_def junction_new_def)

subsection \<open>The deepest registration wins\<close>

text \<open>A channel is searched when its filter matches the last word, or, for a channel that allows it,
  another word of the sequence.\<close>

definition applies :: "(cstring \<Rightarrow> cstring \<Rightarrow> bool) \<Rightarrow> 'd channel \<Rightarrow> cstring list \<Rightarrow> bool" where
  "applies smatch ch seq \<longleftrightarrow>
     filter_str ch = ''*'' \<or> smatch (last seq) (filter_str ch) \<or>
     op_flag (channel_flags ch) NS_OP_SEGMENT_MATCH \<and> (\<exists>w\<in>set (butlast seq). smatch w (filter_str ch))"

lemma segment_loop_found:
  "\<exists>info. segment_loop smatch f found offset segs cand =
    (if \<exists>w\<in>set segs. smatch w f then (fst found, snd found, info) else cand)"
proof (induction segs arbitrary: offset cand)
  case (Cons w ws)
  obtain info where "segment_loop smatch f found (offset + length w + 1) ws
      (if smatch w f then (fst found, snd found,
         \<lparr>mi_offset = offset, mi_isSegmentMatch = True, mi_segmentLength = length w\<rparr>) else cand) =
      (if \<exists>w\<in>set ws. smatch w f then (fst found, snd found, info)
       else if smatch w f then (fst found, snd found,
         \<lparr>mi_offset = offset, mi_isSegmentMatch = True, mi_segmentLength = length w\<rparr>) else cand)"
    using Cons by blast
  then show ?case by auto
qed simp

lemma channel_candidate_find:
  "\<exists>info. channel_candidate smatch ch seq proc ctxt =
    (if applies smatch ch seq then
       (fst (TrieFind (channel_trie ch) seq proc ctxt 0), snd (TrieFind (channel_trie ch) seq proc ctxt 0), info)
     else (None, 0, info))"
proof -
  obtain info where "segment_loop smatch (filter_str ch) (TrieFind (channel_trie ch) seq proc ctxt 0) 0
      (butlast seq) (None, 0, no_info) =
      (if \<exists>w\<in>set (butlast seq). smatch w (filter_str ch) then
         (fst (TrieFind (channel_trie ch) seq proc ctxt 0), snd (TrieFind (channel_trie ch) seq proc ctxt 0), info)
       else (None, 0, no_info))"
    using segment_loop_found by blast
  then show ?thesis by (auto simp: channel_candidate_def applies_def Let_def)
qed

text \<open>The loop of \<^verbatim>\<open>JunctionFind\<close> keeps the candidate of greatest depth.\<close>

lemma best_candidate:
  assumes "foldl take_candidate (None, 0, no_info) cands = (found, k, info)"
  shows "(found \<noteq> None \<longrightarrow> (found, k, info) \<in> set cands) \<and>
    (\<forall>c\<in>set cands. fst c \<noteq> None \<longrightarrow> found \<noteq> None \<and> fst (snd c) \<le> k)"
  using assms
proof (induction cands arbitrary: found k info rule: rev_induct)
  case (snoc c cs)
  obtain f l i where best: "foldl take_candidate (None, 0, no_info) cs = (f, l, i)"
    by (metis prod_cases3)
  note IH = snoc.IH [OF best]
  have step: "take_candidate (f, l, i) c = (found, k, info)" using snoc.prems best by simp
  show ?case
  proof (cases "fst c \<noteq> None \<and> (f = None \<or> fst (snd c) > l)")
    case True
    then have "c = (found, k, info)" using step by (simp add: take_candidate_def)
    then show ?thesis using IH True by fastforce
  next
    case False
    then have "found = f" "k = l" "info = i"
      using step by (auto simp: take_candidate_def split: if_splits)
    then show ?thesis using IH False by auto
  qed
qed simp

lemma JunctionFind_best:
  assumes inv: "junction_inv j" and find: "JunctionFind smatch j seq proc ctxt = (found, k, info)"
    and path: "path = seq_path seq"
  shows "(\<forall>d. found = Some d \<longrightarrow> (\<exists>ch\<in>set (channels j). \<exists>n\<le>length path. k = int n \<and>
      applies smatch ch seq \<and> prefix_data (channel_trie ch) path proc ctxt n = Some d)) \<and>
    (\<forall>ch\<in>set (channels j). \<forall>n\<le>length path.
      applies smatch ch seq \<longrightarrow> prefix_data (channel_trie ch) path proc ctxt n \<noteq> None \<longrightarrow>
      found \<noteq> None \<and> int n \<le> k)"
proof -
  define cand where "cand i = channel_candidate smatch (channels j ! i) seq proc ctxt" for i
  have best: "(found \<noteq> None \<longrightarrow> (found, k, info) \<in> set (map cand (byuse j))) \<and>
    (\<forall>c\<in>set (map cand (byuse j)). fst c \<noteq> None \<longrightarrow> found \<noteq> None \<and> fst (snd c) \<le> k)"
  proof (rule best_candidate)
    show "foldl take_candidate (None, 0, no_info) (map cand (byuse j)) = (found, k, info)"
      using find by (simp add: JunctionFind_def foldl_map cand_def)
  qed
  have longest: "longest_prefix (channel_trie ch) path proc ctxt
      (fst (TrieFind (channel_trie ch) seq proc ctxt 0)) (snd (TrieFind (channel_trie ch) seq proc ctxt 0))"
    if "ch \<in> set (channels j)" for ch
    using junction_invD(6) [OF inv] that path
      TrieFind_longest [of "channel_trie ch" seq proc ctxt 0] by (metis diff_zero prod.collapse)
  have byuse: "set (byuse j) = {..<length (channels j)}" using junction_invD(2) [OF inv] .
  show ?thesis
  proof (intro conjI allI impI ballI)
    fix d assume "found = Some d"
    then obtain i where i: "i < length (channels j)" "cand i = (Some d, k, info)" using best byuse by auto
    obtain info' where "cand i = (if applies smatch (channels j ! i) seq then
        (fst (TrieFind (channel_trie (channels j ! i)) seq proc ctxt 0),
         snd (TrieFind (channel_trie (channels j ! i)) seq proc ctxt 0), info') else (None, 0, info'))"
      using channel_candidate_find unfolding cand_def by blast
    then have "applies smatch (channels j ! i) seq"
      "fst (TrieFind (channel_trie (channels j ! i)) seq proc ctxt 0) = Some d"
      "snd (TrieFind (channel_trie (channels j ! i)) seq proc ctxt 0) = k"
      using i(2) by (auto split: if_splits)
    then show "\<exists>ch\<in>set (channels j). \<exists>n\<le>length path. k = int n \<and> applies smatch ch seq \<and>
        prefix_data (channel_trie ch) path proc ctxt n = Some d"
      using longest [of "channels j ! i"] i(1) by (auto simp: longest_prefix_def intro!: bexI [of _ "channels j ! i"])
  next
    fix ch n
    assume ch: "ch \<in> set (channels j)" "n \<le> length path" "applies smatch ch seq"
      "prefix_data (channel_trie ch) path proc ctxt n \<noteq> None"
    then obtain i where i: "i < length (channels j)" "channels j ! i = ch" by (auto simp: in_set_conv_nth)
    obtain info' where c: "cand i = (fst (TrieFind (channel_trie ch) seq proc ctxt 0),
        snd (TrieFind (channel_trie ch) seq proc ctxt 0), info')"
      using channel_candidate_find [of smatch ch seq proc ctxt] ch(3) i(2) unfolding cand_def by auto
    have "fst (TrieFind (channel_trie ch) seq proc ctxt 0) \<noteq> None \<and>
        int n \<le> snd (TrieFind (channel_trie ch) seq proc ctxt 0)"
      using longest [OF ch(1)] ch(2,4) by (auto simp: longest_prefix_def not_less [symmetric] split: option.splits)
    moreover have "cand i \<in> set (map cand (byuse j))" using i(1) byuse by auto
    ultimately show "found \<noteq> None" "int n \<le> k" using best c by fastforce+
  qed
qed

end
