(* ===== verification/NsUrlspaceRun.thy ===== *)
theory NsUrlspaceRun
  imports NsUrlspace
begin

text \<open>
  The URL space in operation: what deletion and truncation do to a trie and a junction, the
  junctions a server can reach by any sequence of registrations, deletions and truncations, and the
  properties of \<^verbatim>\<open>nsd/urlspace.c\<close>.
\<close>

subsection \<open>Deletion and truncation\<close>

lemma TrieDelete_spec:
  assumes "trie_inv t" "TrieDelete t seq flags = (d, t', freed)"
  shows "trie_inv t' \<and>
    node_at t' p = (if p = seq_path seq then map_option (\<lambda>n. fst (snd (node_delete n flags))) (node_at t p)
                    else node_at t p) \<and>
    d = fst (TrieFindExact t seq flags)"
  using assms
proof (induction seq arbitrary: t t' d freed p)
  case Nil
  then show ?case
    by (cases p) (auto simp: trie_simps trie_inv_iff [of t] trie_inv_iff [of t'] node_delete_def
        split: prod.splits option.splits if_splits)
next
  case (Cons w ws)
  show ?case
  proof (cases "w = []")
    case True
    then show ?thesis using Cons.prems
      by (cases p) (auto simp: trie_simps trie_inv_iff [of t] trie_inv_iff [of t'] node_delete_def
        split: prod.splits option.splits if_splits)
  next
    case False
    show ?thesis
    proof (cases "find_branch (branches t) w")
      case None
      then show ?thesis using Cons.prems False kids_step [OF Cons.prems(1), of w]
        by (auto simp: trie_simps split: option.splits)
    next
      case (Some i)
      obtain v where v: "TrieDelete (branch_trie (branches t ! i)) ws flags = (d, v, freed)"
        "t' = set_branch t i v"
        using Cons.prems(2) False Some by (auto simp: TrieDelete.simps [of t] split: prod.splits)
      note IH = Cons.IH [OF trie_inv_find [OF Cons.prems(1) Some] v(1)]
      have kid: "kids (branches t) w = Some (branch_trie (branches t ! i))"
        using Some kids_step [OF Cons.prems(1)] by simp
      have "node_at t' p = (if p = w # seq_path ws
          then map_option (\<lambda>n. fst (snd (node_delete n flags))) (node_at t p) else node_at t p)"
        using node_at_set_branch [OF Cons.prems(1) Some, of v p] IH v(2) kid by (auto split: list.splits)
      then show ?thesis
        using set_branch_inv(1) [OF Cons.prems(1) Some] IH v(2) False Some
        by (simp add: TrieFindExact.simps [of t])
    qed
  qed
qed

lemma TrieTrunc_words: "word (fst (BranchTrunc b)) = word b"
  by (cases b) (simp split: prod.splits)

lemma TrieTrunc_inv: "trie_inv (t :: 'd trie) \<Longrightarrow> trie_inv (fst (TrieTrunc t))"
  and BranchTrunc_inv: "branch_inv (b :: 'd branch) \<Longrightarrow> branch_inv (fst (BranchTrunc b))"
proof (induction t and b rule: TrieTrunc_BranchTrunc.induct)
  case (1 bs n)
  have "map word (map fst (map BranchTrunc bs)) = map word bs" by (simp add: TrieTrunc_words)
  then have "branches_ok (map fst (map BranchTrunc bs)) = branches_ok bs"
    unfolding branches_ok_def sorted_branches_words by metis
  moreover have "list_all branch_inv (map fst (map BranchTrunc bs))"
    using 1 by (auto simp: list_all_iff)
  ultimately show ?case using 1(2) by (simp add: Let_def comp_def)
next
  case (2 w t)
  then show ?case by (auto split: prod.splits)
qed

lemma TrieTruncBranch_inv:
  "trie_inv t \<Longrightarrow> trie_inv (fst (snd (TrieTruncBranch t seq)))"
proof (induction t seq rule: TrieTruncBranch.induct)
  case (1 t seq)
  show ?case
  proof (cases "seq_end seq")
    case True
    then show ?thesis using TrieTrunc_inv [OF 1(2)] by (simp add: TrieTruncBranch.simps)
  next
    case False
    then show ?thesis
      using 1 trie_inv_find [OF 1(2)] set_branch_inv(1) [OF 1(2)]
      by (auto simp: TrieTruncBranch.simps [of t] Let_def split: option.splits prod.splits)
  qed
qed

lemma truncbranch_loop_inv:
  "junction_inv j \<Longrightarrow> set is \<subseteq> {..<length (channels j)} \<Longrightarrow> junction_inv (fst (truncbranch_loop j seq is))"
proof (induction j seq "is" rule: truncbranch_loop.induct)
  case (2 j seq i "is")
  obtain r t freed where t: "TrieTruncBranch (channel_trie (channels j ! i)) seq = (r, t, freed)"
    by (metis prod_cases3)
  have "trie_inv t"
    using TrieTruncBranch_inv [of "channel_trie (channels j ! i)" seq] t 2(2,3) junction_invD(6) by fastforce
  then have "junction_inv (set_channel_trie j i t)" using set_channel_inv(1) [OF 2(2)] 2(3) by simp
  moreover have "set is \<subseteq> {..<length (channels (set_channel_trie j i t))}"
    using 2(3) by (simp add: set_channel_trie_def)
  ultimately have "junction_inv (fst (truncbranch_loop (set_channel_trie j i t) seq is))"
    using 2(1) t by simp
  then show ?case using t by (cases "truncbranch_loop (set_channel_trie j i t) seq is") simp
qed simp

lemma delete_in_channel_inv:
  assumes "junction_inv j" "i < length (channels j)" "delete_in_channel j i seq flags = (d, j', freed)"
  shows "junction_inv j' \<and> length (channels j') = length (channels j)"
proof -
  obtain e t' fr where t': "TrieDelete (channel_trie (channels j ! i)) seq flags = (e, t', fr)"
    by (metis prod_cases3)
  have "trie_inv (channel_trie (channels j ! i))" using junction_invD(6) [OF assms(1)] assms(2) by simp
  then have "junction_inv (set_channel_trie j i t')"
    using set_channel_inv(1) [OF assms(1,2)] TrieDelete_spec [OF _ t'] by blast
  moreover have "length (channels (set_channel_trie j i t')) = length (channels j)"
    by (simp add: set_channel_trie_def)
  ultimately show ?thesis
    using assms(1,3) t' by (auto simp: delete_in_channel_def Let_def split: prod.splits if_splits)
qed

lemma delete_loop_inv:
  "junction_inv j \<Longrightarrow> set is \<subseteq> {..<length (channels j)} \<Longrightarrow>
    junction_inv (fst (snd (delete_loop smatch j is seq flags)))"
proof (induction "is" arbitrary: j seq)
  case (Cons i "is")
  define s where "s = (if last seq = filter_str (channels j ! i) then wipe_last seq else seq)"
  obtain d k freed where k: "(if last seq = filter_str (channels j ! i) \<or>
      smatch (last seq) (filter_str (channels j ! i)) then delete_in_channel j i s flags
      else (None, j, [])) = (d, k, freed)"
    by (metis prod_cases3)
  have "junction_inv k \<and> length (channels k) = length (channels j)"
    using k Cons.prems delete_in_channel_inv [of j i s flags d k freed] by (auto split: if_splits)
  then have "junction_inv k" "junction_inv (fst (snd (delete_loop smatch k is s flags)))"
    using Cons by simp_all
  moreover have "fst (snd (delete_loop smatch j (i # is) seq flags)) =
      (if d = None then fst (snd (delete_loop smatch k is s flags)) else k)"
    unfolding delete_loop.simps Let_def s_def [symmetric] k
    by (cases "delete_loop smatch k is s flags") simp
  ultimately show ?case by simp
qed simp

subsection \<open>Reachable URL spaces\<close>

text \<open>The servers start with no junction; registrations, lookups (which may create a junction) and
  deletions follow in any order, with ids from \<^verbatim>\<open>Ns_UrlSpecificAlloc\<close>. What a lookup changes does not depend on
  its context, so its type is fixed here.\<close>

inductive url_reach :: "(cstring \<Rightarrow> cstring \<Rightarrow> bool) \<Rightarrow> 'd urlspaces \<Rightarrow> bool" for smatch where
  start: "(\<And>s js. us s = Some js \<Longrightarrow> js = replicate MAX_URLSPACES None) \<Longrightarrow> url_reach smatch us"
| set: "url_reach smatch us \<Longrightarrow> sid < MAX_URLSPACES \<Longrightarrow>
    Ns_UrlSpecificSet2 smatch us server key url sid d flags proc spec = (us', freed) \<Longrightarrow>
    url_reach smatch us'"
| get: "url_reach smatch us \<Longrightarrow> sid < MAX_URLSPACES \<Longrightarrow> us server = Some js \<Longrightarrow>
    Ns_UrlSpecificGet smatch js key url sid flags op proc (ctxt :: unit option) = (cand, js') \<Longrightarrow>
    url_reach smatch (us(server \<mapsto> js'))"
| destroy: "url_reach smatch us \<Longrightarrow> sid < MAX_URLSPACES \<Longrightarrow>
    Ns_UrlSpecificDestroy smatch us server key url sid flags = (d, us', freed) \<Longrightarrow>
    url_reach smatch us'"

definition junctions_ok :: "'d junction option list \<Rightarrow> bool" where
  "junctions_ok js \<longleftrightarrow> length js = MAX_URLSPACES \<and> (\<forall>j. Some j \<in> set js \<longrightarrow> junction_inv j)"

definition spaces_ok :: "'d urlspaces \<Rightarrow> bool" where
  "spaces_ok us \<longleftrightarrow> (\<forall>js\<in>ran us. junctions_ok js)"

lemma JunctionGet_inv: "junctions_ok js \<Longrightarrow> sid < MAX_URLSPACES \<Longrightarrow> junction_inv (JunctionGet js sid)"
  by (auto simp: junctions_ok_def JunctionGet_def split: option.splits) (metis nth_mem)

lemma junctions_ok_update: "junctions_ok js \<Longrightarrow> junction_inv j \<Longrightarrow> junctions_ok (js[sid := Some j])"
  by (auto simp: junctions_ok_def dest!: set_update_subset_insert [THEN subsetD])

lemma spaces_ok_update: "spaces_ok us \<Longrightarrow> junctions_ok js \<Longrightarrow> spaces_ok (us(server \<mapsto> js))"
  by (auto simp: spaces_ok_def ran_def split: if_splits)

lemma spaces_ok_server: "spaces_ok us \<Longrightarrow> us server = Some js \<Longrightarrow> junctions_ok js"
  by (auto simp: spaces_ok_def ran_def)

lemma JunctionAdd_inv:
  "junction_inv j \<Longrightarrow> junction_inv (fst (JunctionAdd smatch j seq d flags proc spec))"
  using JunctionAdd_at [of j seq _ _ smatch d flags proc spec] by (metis prod.collapse)

lemma JunctionTruncBranch_inv: "junction_inv j \<Longrightarrow> junction_inv (fst (JunctionTruncBranch j seq))"
  using truncbranch_loop_inv [of j "byuse j" seq] junction_invD(2) [of j]
  by (simp add: JunctionTruncBranch_def)

lemma JunctionDeleteNode_inv:
  "junction_inv j \<Longrightarrow> junction_inv (fst (snd (JunctionDeleteNode smatch j seq flags)))"
  using delete_loop_inv [of j "byuse j" smatch seq flags] junction_invD(2) [of j]
  by (simp add: JunctionDeleteNode_def)

lemma url_reach_ok: "url_reach smatch us \<Longrightarrow> spaces_ok us"
proof (induction rule: url_reach.induct)
  case (start us)
  then have "js = replicate MAX_URLSPACES None" if "js \<in> ran us" for js
    using that by (auto simp: ran_def)
  then show ?case by (fastforce simp: spaces_ok_def junctions_ok_def)
next
  case (set us sid server key url d flags proc spec us' freed)
  show ?case
  proof (cases "us server")
    case (Some js)
    define add where "add = JunctionAdd smatch (JunctionGet js sid) (seq_words (MkSeq key url)) d flags proc spec"
    have "junctions_ok js" using spaces_ok_server [OF set.IH Some] .
    then have "junctions_ok (js[sid := Some (fst add)])"
      using JunctionGet_inv set.hyps(2) unfolding add_def by (intro junctions_ok_update JunctionAdd_inv) auto
    moreover have "us' = us(server \<mapsto> js[sid := Some (fst add)])"
      using set.hyps(3) Some by (auto simp: Ns_UrlSpecificSet2_def add_def split: prod.splits)
    ultimately show ?thesis using spaces_ok_update [OF set.IH] by metis
  qed (use set in \<open>simp add: Ns_UrlSpecificSet2_def\<close>)
next
  case (get us sid server js key url flags op proc ctxt cand js')
  have "junctions_ok js" using spaces_ok_server [OF get.IH get.hyps(3)] .
  moreover have "js' = js[sid := Some (JunctionGet js sid)]"
    using get.hyps(4) by (auto simp: Ns_UrlSpecificGet_def Let_def)
  ultimately show ?case
    using JunctionGet_inv [OF _ get.hyps(2)] junctions_ok_update spaces_ok_update [OF get.IH] by metis
next
  case (destroy us sid server key url flags d us' freed)
  show ?case
  proof (cases "us server")
    case (Some js)
    have ok: "junctions_ok js" using spaces_ok_server [OF destroy.IH Some] .
    have "\<exists>j. us' = us(server \<mapsto> js[sid := Some j]) \<and> junction_inv j"
      using destroy.hyps(3) Some JunctionGet_inv [OF ok destroy.hyps(2)]
        JunctionTruncBranch_inv [of "JunctionGet js sid" "seq_words (MkSeq key url)"]
        JunctionDeleteNode_inv [of "JunctionGet js sid" smatch "seq_words (MkSeq key url)" flags]
      by (auto simp: Ns_UrlSpecificDestroy_def Let_def split: prod.splits if_splits)
    then show ?thesis using junctions_ok_update [OF ok] spaces_ok_update [OF destroy.IH] by auto
  qed (use destroy in \<open>simp add: Ns_UrlSpecificDestroy_def\<close>)
qed

text \<open>Where a URL is registered: its channel and its path in the trie of the channel.\<close>

definition url_address :: "cstring \<Rightarrow> cstring \<Rightarrow> cstring \<times> cstring list" where
  "url_address key url = (let (f, seq) = seq_filter (key # url_tokens url) in (f, seq_path seq))"

definition registered :: "'d urlspaces \<Rightarrow> cstring \<Rightarrow> nat \<Rightarrow> cstring \<times> cstring list \<Rightarrow> bool" where
  "registered us server sid a \<longleftrightarrow>
     (\<exists>js. us server = Some js \<and> junction_at (JunctionGet js sid) (fst a) (snd a) \<noteq> None)"

text \<open>A key is searched like the segments of a URL only when no segment follows it.\<close>

definition plain_url :: "cstring \<Rightarrow> cstring \<Rightarrow> bool" where
  "plain_url key url \<longleftrightarrow>
     NUL \<notin> set key \<and> NUL \<notin> set url \<and> (url_tokens url \<noteq> [] \<or> \<not> has_wildcard key)"

lemma tokens_ok: "NUL \<notin> set url \<Longrightarrow> \<forall>w\<in>set (url_tokens url). w \<noteq> [] \<and> NUL \<notin> set w"
  using set_split_on unfolding url_tokens_def by fastforce

lemma words_of_seq:
  "NUL \<notin> set key \<Longrightarrow> NUL \<notin> set url \<Longrightarrow> seq_words (MkSeq key url) = key # url_tokens url"
  using seq_words_concat [OF _ tokens_ok] by (simp add: MkSeq_def mkseq_loop_tokens)

lemma exact_at:
  assumes "spaces_ok us" "us server = Some js" "sid < MAX_URLSPACES" "plain_url key url"
    "junction_at (JunctionGet js sid) (fst (url_address key url)) (snd (url_address key url)) = Some n"
  shows "fst (Ns_UrlSpecificGetExact smatch us server key url sid flags) = flag_data flags n"
proof -
  obtain f seq' where f: "seq_filter (key # url_tokens url) = (f, seq')" by fastforce
  have inv: "junction_inv (JunctionGet js sid)"
    using JunctionGet_inv spaces_ok_server assms(1-3) by blast
  have "JunctionFindExact (JunctionGet js sid) (key # url_tokens url) flags = flag_data flags n"
    using assms(4,5) f by (intro JunctionFindExact_at [OF inv f]) (auto simp: url_address_def plain_url_def)
  then show ?thesis
    using assms(2,4) by (simp add: Ns_UrlSpecificGetExact_def Ns_UrlSpecificGet_def Let_def words_of_seq plain_url_def)
qed

lemma set_at:
  assumes "spaces_ok us" "us server = Some js" "sid < MAX_URLSPACES" "plain_url key url"
    "Ns_UrlSpecificSet smatch us server key url sid d flags proc = (us', freed)"
  shows "\<exists>js'. us' = us(server \<mapsto> js') \<and> spaces_ok us' \<and>
    (\<forall>g p. junction_at (JunctionGet js' sid) g p = (if (g, p) = url_address key url
      then Some (fst (node_add (junction_at (JunctionGet js sid) g p) d flags proc None))
      else junction_at (JunctionGet js sid) g p))"
proof -
  obtain f seq' where f: "seq_filter (key # url_tokens url) = (f, seq')" by fastforce
  have ok: "junctions_ok js" using spaces_ok_server [OF assms(1,2)] .
  have inv: "junction_inv (JunctionGet js sid)" using JunctionGet_inv [OF ok assms(3)] .
  obtain j where j: "JunctionAdd smatch (JunctionGet js sid) (key # url_tokens url) d flags proc None = (j, freed)"
    "us' = us(server \<mapsto> js[sid := Some j])"
    using assms(2,4,5)
    by (auto simp: Ns_UrlSpecificSet_def Ns_UrlSpecificSet2_def words_of_seq plain_url_def split: prod.splits)
  note add = JunctionAdd_at [OF inv f j(1)]
  have "JunctionGet (js[sid := Some j]) sid = j"
    using ok assms(3) by (simp add: JunctionGet_def junctions_ok_def)
  then have "junction_at (JunctionGet (js[sid := Some j]) sid) g p = (if (g, p) = url_address key url
      then Some (fst (node_add (junction_at (JunctionGet js sid) g p) d flags proc None))
      else junction_at (JunctionGet js sid) g p)" for g p
    using add [of g p] f by (simp add: url_address_def)
  moreover have "spaces_ok us'"
    unfolding j(2) using add junctions_ok_update [OF ok] spaces_ok_update [OF assms(1)] by blast
  ultimately show ?thesis using j(2) by blast
qed

subsection \<open>Properties\<close>


text \<open>C10. What is registered for a key and a URL is what an exact lookup of them returns (with the
  inheritance flag it was registered with), and an exact lookup of a URL registered at another
  address returns what it returned before.\<close>

theorem Ns_UrlSpecificSet_get:
  assumes "url_reach smatch us" "us server = Some js" "sid < MAX_URLSPACES" "plain_url key url"
    and "Ns_UrlSpecificSet smatch us server key url sid d flags proc = (us', freed)"
  shows "(op_flag flags' NS_OP_NOINHERIT = op_flag flags NS_OP_NOINHERIT \<longrightarrow>
      fst (Ns_UrlSpecificGetExact smatch us' server key url sid flags') = Some d) \<and>
    (\<forall>key' url'. plain_url key' url' \<longrightarrow> url_address key' url' \<noteq> url_address key url \<longrightarrow>
      registered us server sid (url_address key' url') \<longrightarrow>
      fst (Ns_UrlSpecificGetExact smatch us' server key' url' sid flags') =
      fst (Ns_UrlSpecificGetExact smatch us server key' url' sid flags'))"
proof (intro conjI impI allI)
  have ok: "spaces_ok us" using url_reach_ok [OF assms(1)] .
  obtain js' where us': "us' = us(server \<mapsto> js')" "spaces_ok us'"
    and at: "\<And>g p. junction_at (JunctionGet js' sid) g p = (if (g, p) = url_address key url
      then Some (fst (node_add (junction_at (JunctionGet js sid) g p) d flags proc None))
      else junction_at (JunctionGet js sid) g p)"
    using set_at [OF ok assms(2-5)] by blast
  have s: "us' server = Some js'" using us' by simp
  {
    assume same: "op_flag flags' NS_OP_NOINHERIT = op_flag flags NS_OP_NOINHERIT"
    show "fst (Ns_UrlSpecificGetExact smatch us' server key url sid flags') = Some d"
      using exact_at [OF us'(2) s assms(3,4)] at flag_data_add [OF same] by simp
  next
    fix key' url'
    assume other: "plain_url key' url'" "url_address key' url' \<noteq> url_address key url"
      "registered us server sid (url_address key' url')"
    then obtain n where n: "junction_at (JunctionGet js sid) (fst (url_address key' url'))
        (snd (url_address key' url')) = Some n"
      using assms(2) by (auto simp: registered_def)
    then show "fst (Ns_UrlSpecificGetExact smatch us' server key' url' sid flags') =
        fst (Ns_UrlSpecificGetExact smatch us server key' url' sid flags')"
      using exact_at [OF us'(2) s assms(3) other(1), of n smatch flags']
        exact_at [OF ok assms(2,3) other(1) n] at other(2) by simp
  }
qed

text \<open>C11. A lookup returns the data of the longest registered prefix of the path over all channels whose
  filter applies to the URL: what it returns is the data of such a channel at a prefix of the returned
  length, and no such channel has data at a longer prefix; it returns nothing only when none has any.\<close>

theorem JunctionFind_deepest:
  assumes "junction_inv j" "path = seq_path seq"
    and "JunctionFind smatch j seq proc ctxt = (found, k, info)"
  shows "(\<forall>d. found = Some d \<longrightarrow> (\<exists>ch\<in>set (channels j). \<exists>n\<le>length path. k = int n \<and>
      applies smatch ch seq \<and> prefix_data (channel_trie ch) path proc ctxt n = Some d)) \<and>
    (\<forall>ch\<in>set (channels j). \<forall>n\<le>length path.
      applies smatch ch seq \<longrightarrow> prefix_data (channel_trie ch) path proc ctxt n \<noteq> None \<longrightarrow>
      found \<noteq> None \<and> int n \<le> k)"
  using JunctionFind_best [OF assms(1,3,2)] .

text \<open>The sequence built for a key and a URL holds the key and the non-empty parts of the URL between
  slashes, in order.\<close>

theorem MkSeq_words:
  assumes "NUL \<notin> set key" "NUL \<notin> set url"
  shows "seq_words (MkSeq key url) = key # filter (\<lambda>w. w \<noteq> []) (split_on (CHR ''/'') url)"
  using words_of_seq [OF assms] by (simp add: url_tokens_def)

theorem MkSeq_words_witness:
  "seq_words (MkSeq ''GET'' ''//foo/bar//x.html/'') = [''GET'', ''foo'', ''bar'', ''x.html'']"
  using MkSeq_words [of "''GET''" "''//foo/bar//x.html/''"] by simp

subsection \<open>Witnesses and observations\<close>

text \<open>A matcher for the wildcards \<open>*\<close> and \<open>?\<close> in the place of \<^verbatim>\<open>Tcl_StringMatch\<close>.\<close>

fun demo_match :: "cstring \<Rightarrow> cstring \<Rightarrow> bool" where
  "demo_match s [] \<longleftrightarrow> s = []"
| "demo_match [] (p # ps) \<longleftrightarrow> p = CHR ''*'' \<and> demo_match [] ps"
| "demo_match (c # cs) (p # ps) \<longleftrightarrow>
     (if p = CHR ''*'' then demo_match (c # cs) ps \<or> demo_match cs (p # ps)
      else (p = CHR ''?'' \<or> p = c) \<and> demo_match cs ps)"

definition demo_add :: "nat junction \<Rightarrow> cstring \<Rightarrow> nat \<Rightarrow> nat junction" where
  "demo_add j url d = fst (JunctionAdd demo_match j (seq_words (MkSeq ''GET'' url)) d 0 None None)"

definition demo_junction :: "nat junction" where
  "demo_junction = demo_add (demo_add junction_new ''/foo'' 1) ''/bar/*.html'' 2"

lemma demo_junction_inv: "junction_inv demo_junction"
  unfolding demo_junction_def demo_add_def by (intro JunctionAdd_inv junction_inv_new)

definition demo_spaces0 :: "nat urlspaces" where
  "demo_spaces0 = [''s'' \<mapsto> replicate MAX_URLSPACES None]"

definition demo_spaces :: "nat urlspaces" where
  "demo_spaces = fst (Ns_UrlSpecificSet demo_match demo_spaces0 ''s'' ''GET'' ''/foo'' 3 1 0 None)"

lemma demo_spaces_reach: "url_reach demo_match demo_spaces"
proof (rule url_reach.set)
  show "url_reach demo_match demo_spaces0"
    by (rule url_reach.start) (simp add: demo_spaces0_def split: if_splits)
  show "3 < MAX_URLSPACES" by (simp add: MAX_URLSPACES_def)
  show "Ns_UrlSpecificSet2 demo_match demo_spaces0 ''s'' ''GET'' ''/foo'' 3 1 0 None None =
      (demo_spaces, snd (Ns_UrlSpecificSet demo_match demo_spaces0 ''s'' ''GET'' ''/foo'' 3 1 0 None))"
    by (simp add: demo_spaces_def Ns_UrlSpecificSet_def)
qed

lemma demo_spaces_foo:
  "map_option (\<lambda>js. map_option dataInherit (junction_at (JunctionGet js 3) ''*'' [''GET'', ''foo''])) (demo_spaces ''s'') =
    Some (Some (Some 1))"
  by code_simp


theorem Ns_UrlSpecificSet_get_witness:
  "\<exists>us' freed. Ns_UrlSpecificSet demo_match demo_spaces ''s'' ''GET'' ''/bar/*.html'' 3 2 0 None = (us', freed) \<and>
    fst (Ns_UrlSpecificGetExact demo_match us' ''s'' ''GET'' ''/bar/*.html'' 3 0) = Some 2 \<and>
    fst (Ns_UrlSpecificGetExact demo_match us' ''s'' ''GET'' ''/foo'' 3 0) = Some 1"
proof -
  obtain us' freed where set: "Ns_UrlSpecificSet demo_match demo_spaces ''s'' ''GET'' ''/bar/*.html'' 3 2 0 None =
      (us', freed)" by fastforce
  obtain js where js: "demo_spaces ''s'' = Some js"
    "junction_at (JunctionGet js 3) ''*'' [''GET'', ''foo''] \<noteq> None"
    using demo_spaces_foo by auto
  have addr: "url_address ''GET'' ''/foo'' = (''*'', [''GET'', ''foo''])"
    "url_address ''GET'' ''/bar/*.html'' = (''*.html'', [''GET'', ''bar''])" by code_simp+
  have plain: "plain_url ''GET'' ''/foo''" "plain_url ''GET'' ''/bar/*.html''" by code_simp+
  have reg: "registered demo_spaces ''s'' 3 (url_address ''GET'' ''/foo'')"
    using js addr by (simp add: registered_def)
  have lt: "3 < MAX_URLSPACES" by (simp add: MAX_URLSPACES_def)
  have "fst (Ns_UrlSpecificGetExact demo_match demo_spaces ''s'' ''GET'' ''/foo'' 3 0) = Some 1" by code_simp
  then show ?thesis
    using Ns_UrlSpecificSet_get [OF demo_spaces_reach js(1) lt plain(2) set, of 0] set reg plain(1) addr by auto
qed

theorem JunctionFind_deepest_witness:
  "JunctionFind demo_match demo_junction [''GET'', ''foo'', ''x.html''] (\<lambda>_ (_ :: unit). False) None =
     (Some 1, 2, no_info) \<and>
   (\<exists>ch\<in>set (channels demo_junction). prefix_data (channel_trie ch) [''GET'', ''foo'', ''x.html'']
      (\<lambda>_ (_ :: unit). False) None 2 = Some 1)"
proof -
  have find: "JunctionFind demo_match demo_junction [''GET'', ''foo'', ''x.html''] (\<lambda>_ (_ :: unit). False) None =
     (Some 1, 2, no_info)" by code_simp
  have path: "[''GET'', ''foo'', ''x.html''] = seq_path [''GET'', ''foo'', ''x.html'']" by simp
  from JunctionFind_deepest [OF demo_junction_inv path find] find show ?thesis by fastforce
qed

text \<open>Deleting \<^verbatim>\<open>/foo/*.html\<close>, which is not registered, deletes the registration of \<^verbatim>\<open>/foo\<close>: the channel
  of the filter \<^verbatim>\<open>*.html\<close> wipes the last word, and the search goes on in the channel \<^verbatim>\<open>*\<close> with what
  is left of the sequence.\<close>

lemma delete_pattern_deletes_parent:
  "junction_at demo_junction ''*.html'' [''GET'', ''foo''] = None \<and>
   fst (JunctionDeleteNode demo_match demo_junction [''GET'', ''foo'', ''*.html''] 0) = Some 1 \<and>
   JunctionFindExact demo_junction [''GET'', ''foo''] 0 = Some 1 \<and>
   JunctionFindExact (fst (snd (JunctionDeleteNode demo_match demo_junction [''GET'', ''foo'', ''*.html''] 0)))
     [''GET'', ''foo''] 0 = None"
  by code_simp

text \<open>An exact lookup of a pattern whose channel does not exist reads the trie of the channel \<^verbatim>\<open>*\<close>, so the
  data of \<^verbatim>\<open>/a*/*\<close> is returned for \<^verbatim>\<open>/a*\<close>.\<close>

lemma exact_lookup_of_other_pattern:
  "JunctionFindExact (demo_add junction_new ''/a*/*'' 1) [''GET'', ''a*''] 0 = Some 1"
  by code_simp

text \<open>Constraints of equal specificity compare as equal whatever their patterns are.\<close>

lemma CmpUrlSpaceContextSpecs_patterns_ignored:
  "spec_kind l = spec_kind r \<Longrightarrow> spec_kind l \<noteq> SpecTypeConjunction \<Longrightarrow> hasPattern l = hasPattern r \<Longrightarrow>
    specificity l = specificity r \<Longrightarrow> CmpUrlSpaceContextSpecs l r = 0"
  by (auto simp: CmpUrlSpaceContextSpecs_def pattern_cmp_def split: option.splits)

end
