(* ===== verification/NsUrlencode.thy ===== *)
theory NsUrlencode
  imports NsStr
begin

text \<open>
  Percent encoding: the model of the encoding and decoding functions of \<^verbatim>\<open>nsd/urlencode.c\<close> (compiled
  without \<^verbatim>\<open>RFC1738\<close>). A scheme is the character the C code switches on: \<open>q\<close> for queries, \<open>p\<close> for path
  segments, \<open>f\<close> for fragments, \<open>c\<close> for cookies, \<open>o\<close> for OAuth 1; every other one selects the table of
  queries. The conversions between UTF-8 and other character sets are functions of the Tcl library and
  arguments here. Writing beyond the space reserved for a result is \<open>None\<close>.
\<close>

subsection \<open>Tables\<close>

text \<open>An entry is \<^verbatim>\<open>{1, NULL}\<close> for the bytes a table leaves as they are and \<^verbatim>\<open>{3, "xx"}\<close>, with the
  hexadecimal digits of the byte, for the others, so a table is given by the former; the table of OAuth 1 has upper
  case digits.\<close>

record ByteKey =
  bk_len :: nat
  bk_str :: "string option"

definition alnum_bytes :: string where
  "alnum_bytes = ''0123456789ABCDEFGHIJKLMNOPQRSTUVWXYZabcdefghijklmnopqrstuvwxyz''"

definition hex_digit :: "bool \<Rightarrow> nat \<Rightarrow> char" where
  "hex_digit upper d = (if upper then ''0123456789ABCDEF'' else ''0123456789abcdef'') ! d"

definition byte_key :: "string \<Rightarrow> bool \<Rightarrow> char \<Rightarrow> ByteKey" where
  "byte_key plain upper c =
     (if c \<in> set plain then \<lparr>bk_len = 1, bk_str = None\<rparr>
      else \<lparr>bk_len = 3,
             bk_str = Some [hex_digit upper (byte_of c div 16), hex_digit upper (byte_of c mod 16)]\<rparr>)"

definition query_scheme :: "char \<Rightarrow> ByteKey" where
  "query_scheme = byte_key (alnum_bytes @ '' !$()*-./:?@_~'' @ [CHR 0x27]) False"

definition path_scheme :: "char \<Rightarrow> ByteKey" where
  "path_scheme = byte_key (alnum_bytes @ ''!$&()*+,-.:@_~'' @ [CHR 0x27]) False"

definition cookie_scheme :: "char \<Rightarrow> ByteKey" where
  "cookie_scheme = byte_key (alnum_bytes @ ''!#$&()*+-./:<=>?@[]^_{|}~'' @ [CHR 0x27, CHR 0x60]) False"

definition oauth1_scheme :: "char \<Rightarrow> ByteKey" where
  "oauth1_scheme = byte_key (alnum_bytes @ ''-._~'') True"

definition fragment_scheme :: "char \<Rightarrow> ByteKey" where
  "fragment_scheme = byte_key (alnum_bytes @ ''!$&()*+,-./:;=?@_~'' @ [CHR 0x27]) False"

definition scheme_table :: "char \<Rightarrow> char \<Rightarrow> ByteKey" where
  "scheme_table percentScheme =
     (if percentScheme = CHR ''q'' then query_scheme
      else if percentScheme = CHR ''p'' then path_scheme
      else if percentScheme = CHR ''f'' then fragment_scheme
      else if percentScheme = CHR ''c'' then cookie_scheme
      else if percentScheme = CHR ''o'' then oauth1_scheme
      else query_scheme)"

subsection \<open>Encoding\<close>

definition hex_upper :: "char \<Rightarrow> char" where
  "hex_upper c = (if byte_of (CHR ''a'') \<le> byte_of c \<and> byte_of c \<le> byte_of (CHR ''f'') then c_toupper c else c)"

definition encode_byte :: "char \<Rightarrow> bool \<Rightarrow> char \<Rightarrow> string" where
  "encode_byte percentScheme upperCase c =
     (if c = CHR '' '' \<and> percentScheme = CHR ''q'' then ''+''
      else (case bk_str (scheme_table percentScheme c) of
              None \<Rightarrow> [c]
            | Some s \<Rightarrow> CHR ''%'' # (if upperCase then map hex_upper s else s)))"

text \<open>Writing into the \<open>n\<close> bytes reserved at the end of the result.\<close>

definition fill :: "nat \<Rightarrow> string \<Rightarrow> string option" where
  "fill n out = (if length out \<le> n then Some (out @ replicate (n - length out) (CHR 0x00)) else None)"

definition UrlEncode ::
    "('e \<Rightarrow> cstring \<Rightarrow> string) \<Rightarrow> string \<Rightarrow> cstring \<Rightarrow> 'e option \<Rightarrow> char \<Rightarrow> bool \<Rightarrow> string option" where
  "UrlEncode utf_to_ext ds urlSegment encoding percentScheme upperCase =
     (let urlSegment = (case encoding of
                          Some e \<Rightarrow> takeWhile (\<lambda>c. c \<noteq> CHR 0x00) (utf_to_ext e urlSegment)
                        | None \<Rightarrow> urlSegment);
          n = sum_list (map (\<lambda>c. bk_len (scheme_table percentScheme c)) urlSegment)
      in map_option ((@) ds) (fill n (concat (map (encode_byte percentScheme upperCase) urlSegment))))"

datatype query_result = QUERY_OK | QUERY_ERROR

fun query_pairs ::
    "('e \<Rightarrow> cstring \<Rightarrow> string) \<Rightarrow> 'e option \<Rightarrow> bool \<Rightarrow> string \<Rightarrow> bool \<Rightarrow> cstring list \<Rightarrow> string option" where
  "query_pairs utf_to_ext encoding upperCase ds first (name # val # rest) =
     (let ds = (if first then ds else ds @ ''&'') in
      case UrlEncode utf_to_ext ds name encoding (CHR ''q'') upperCase of
        None \<Rightarrow> None
      | Some ds \<Rightarrow>
          (case UrlEncode utf_to_ext (ds @ ''='') val encoding (CHR ''q'') upperCase of
             None \<Rightarrow> None
           | Some ds \<Rightarrow> query_pairs utf_to_ext encoding upperCase ds False rest))"
| "query_pairs utf_to_ext encoding upperCase ds first _ = Some ds"

definition UrlEncodeQuery ::
    "('e \<Rightarrow> cstring \<Rightarrow> string) \<Rightarrow> string \<Rightarrow> cstring list \<Rightarrow> 'e option \<Rightarrow> bool \<Rightarrow> query_result \<times> string option" where
  "UrlEncodeQuery utf_to_ext ds args encoding upperCase =
     (if length args = 1 then (QUERY_OK, UrlEncode utf_to_ext ds (hd args) encoding (CHR ''q'') upperCase)
      else if length args mod 2 \<noteq> 0 then (QUERY_ERROR, Some ds)
      else (QUERY_OK, query_pairs utf_to_ext encoding upperCase ds True args))"

fun UrlEncodeSegment ::
    "('e \<Rightarrow> cstring \<Rightarrow> string) \<Rightarrow> string \<Rightarrow> bool \<Rightarrow> cstring list \<Rightarrow> 'e option \<Rightarrow> bool \<Rightarrow> string option" where
  "UrlEncodeSegment utf_to_ext ds first [] encoding upperCase = Some ds"
| "UrlEncodeSegment utf_to_ext ds first (seg # segs) encoding upperCase =
     (case UrlEncode utf_to_ext (if first then ds else ds @ ''/'') seg encoding (CHR ''p'') upperCase of
        None \<Rightarrow> None
      | Some ds \<Rightarrow> UrlEncodeSegment utf_to_ext ds False segs encoding upperCase)"

text \<open>The loop of \<^verbatim>\<open>UrlEncodeFullpath\<close>: \<open>p\<close> runs to the next slash or the end.\<close>

function UrlEncodeFullpath ::
    "('e \<Rightarrow> cstring \<Rightarrow> string) \<Rightarrow> string \<Rightarrow> cstring \<Rightarrow> 'e option \<Rightarrow> bool \<Rightarrow> string option" where
  "UrlEncodeFullpath utf_to_ext ds path encoding upperCase =
     (case strchr path (CHR ''/'') of
        Some p \<Rightarrow>
          (case UrlEncode utf_to_ext ds (take p path) encoding (CHR ''p'') upperCase of
             None \<Rightarrow> None
           | Some ds \<Rightarrow> UrlEncodeFullpath utf_to_ext (ds @ ''/'') (drop (p + 1) path) encoding upperCase)
      | None \<Rightarrow> UrlEncode utf_to_ext ds path encoding (CHR ''p'') upperCase)"
  by pat_completeness auto
termination
  by (relation "measure (\<lambda>(_, _, path, _, _). length path)") (auto dest: strchr_SomeD)

declare UrlEncodeFullpath.simps [simp del]

subsection \<open>Decoding\<close>

definition hex_code :: "char \<Rightarrow> int" where
  "hex_code c =
     (if c_isdigit c then int (byte_of c) - 48
      else if byte_of (CHR ''A'') \<le> byte_of c \<and> byte_of c \<le> byte_of (CHR ''F'') then int (byte_of c) - 55
      else if byte_of (CHR ''a'') \<le> byte_of c \<and> byte_of c \<le> byte_of (CHR ''f'') then int (byte_of c) - 87
      else -1)"

fun PercentDecode :: "char \<Rightarrow> cstring \<Rightarrow> string" where
  "PercentDecode percentScheme [] = []"
| "PercentDecode percentScheme (p # ps) =
     (if p = CHR ''%'' \<and> length ps \<ge> 2 \<and> hex_code (ps ! 0) \<ge> 0 \<and> hex_code (ps ! 1) \<ge> 0
      then char_of (nat (hex_code (ps ! 0)) * 16 + nat (hex_code (ps ! 1))) #
             PercentDecode percentScheme (drop 2 ps)
      else if p = CHR ''+'' \<and> percentScheme = CHR ''q'' then CHR '' '' # PercentDecode percentScheme ps
      else p # PercentDecode percentScheme ps)"

definition UrlDecode ::
    "'e \<Rightarrow> ('e \<Rightarrow> string \<Rightarrow> string) \<Rightarrow> string \<Rightarrow> cstring \<Rightarrow> 'e option \<Rightarrow> char \<Rightarrow> string option \<times> Ns_ReturnCode" where
  "UrlDecode utf8 ext_to_utf ds urlSegment encoding percentScheme =
     (let firstCode = find_index (\<lambda>c. c = CHR ''%'' \<or> c = CHR ''+'') urlSegment
      in if firstCode = None \<and> (encoding = Some utf8 \<or> encoding = None) then (Some (ds @ urlSegment), NS_OK)
         else
           (let decoded = (case firstCode of
                             Some offset \<Rightarrow> take offset urlSegment @ PercentDecode percentScheme (drop offset urlSegment)
                           | None \<Rightarrow> urlSegment)
            in if length decoded > length urlSegment then (None, NS_OK)
               else (case encoding of
                       Some e \<Rightarrow>
                         if e \<noteq> utf8 \<or> Ns_Valid_UTF8 (map of_char decoded)
                         then (Some (ds @ ext_to_utf e decoded), NS_OK)
                         else (Some ds, NS_ERROR)
                     | None \<Rightarrow> (Some (ds @ decoded), NS_OK))))"

text \<open>The interface: each function fixes the scheme; the decoders of paths, cookies and OAuth 1 drop the return
  code.\<close>

definition Ns_UrlPathEncode :: "('e \<Rightarrow> cstring \<Rightarrow> string) \<Rightarrow> string \<Rightarrow> cstring \<Rightarrow> 'e option \<Rightarrow> string option" where
  "Ns_UrlPathEncode utf_to_ext ds s encoding = UrlEncode utf_to_ext ds s encoding (CHR ''p'') False"

definition Ns_UrlPathDecode ::
    "'e \<Rightarrow> ('e \<Rightarrow> string \<Rightarrow> string) \<Rightarrow> string \<Rightarrow> cstring \<Rightarrow> 'e option \<Rightarrow> string option" where
  "Ns_UrlPathDecode utf8 ext_to_utf ds s encoding = fst (UrlDecode utf8 ext_to_utf ds s encoding (CHR ''p''))"

definition Ns_UrlQueryEncode :: "('e \<Rightarrow> cstring \<Rightarrow> string) \<Rightarrow> string \<Rightarrow> cstring \<Rightarrow> 'e option \<Rightarrow> string option" where
  "Ns_UrlQueryEncode utf_to_ext ds s encoding = UrlEncode utf_to_ext ds s encoding (CHR ''q'') False"

definition Ns_UrlQueryDecode ::
    "'e \<Rightarrow> ('e \<Rightarrow> string \<Rightarrow> string) \<Rightarrow> string \<Rightarrow> cstring \<Rightarrow> 'e option \<Rightarrow> string option \<times> Ns_ReturnCode" where
  "Ns_UrlQueryDecode utf8 ext_to_utf ds s encoding = UrlDecode utf8 ext_to_utf ds s encoding (CHR ''q'')"

definition Ns_CookieEncode :: "('e \<Rightarrow> cstring \<Rightarrow> string) \<Rightarrow> string \<Rightarrow> cstring \<Rightarrow> 'e option \<Rightarrow> string option" where
  "Ns_CookieEncode utf_to_ext ds s encoding = UrlEncode utf_to_ext ds s encoding (CHR ''c'') False"

definition Ns_CookieDecode ::
    "'e \<Rightarrow> ('e \<Rightarrow> string \<Rightarrow> string) \<Rightarrow> string \<Rightarrow> cstring \<Rightarrow> 'e option \<Rightarrow> string option" where
  "Ns_CookieDecode utf8 ext_to_utf ds s encoding = fst (UrlDecode utf8 ext_to_utf ds s encoding (CHR ''c''))"

definition Ns_Oauth1Encode :: "('e \<Rightarrow> cstring \<Rightarrow> string) \<Rightarrow> string \<Rightarrow> cstring \<Rightarrow> 'e option \<Rightarrow> string option" where
  "Ns_Oauth1Encode utf_to_ext ds s encoding = UrlEncode utf_to_ext ds s encoding (CHR ''o'') False"

definition Ns_Oauth1Decode ::
    "'e \<Rightarrow> ('e \<Rightarrow> string \<Rightarrow> string) \<Rightarrow> string \<Rightarrow> cstring \<Rightarrow> 'e option \<Rightarrow> string option" where
  "Ns_Oauth1Decode utf8 ext_to_utf ds s encoding = fst (UrlDecode utf8 ext_to_utf ds s encoding (CHR ''o''))"

subsection \<open>Bytes\<close>

definition scheme_plain :: "char \<Rightarrow> string" where
  "scheme_plain s = alnum_bytes @
     (if s = CHR ''p'' then ''!$&()*+,-.:@_~'' @ [CHR 0x27]
      else if s = CHR ''f'' then ''!$&()*+,-./:;=?@_~'' @ [CHR 0x27]
      else if s = CHR ''c'' then ''!#$&()*+-./:<=>?@[]^_{|}~'' @ [CHR 0x27, CHR 0x60]
      else if s = CHR ''o'' then ''-._~''
      else '' !$()*-./:?@_~'' @ [CHR 0x27])"

lemma scheme_table_plain: "scheme_table s = byte_key (scheme_plain s) (s = CHR ''o'')"
  by (simp add: scheme_table_def scheme_plain_def query_scheme_def path_scheme_def fragment_scheme_def
      cookie_scheme_def oauth1_scheme_def)

lemma percent_not_plain: "CHR ''%'' \<notin> set (scheme_plain s)"
  by (simp add: scheme_plain_def alnum_bytes_def)

lemma query_not_plain: "CHR ''+'' \<notin> set (scheme_plain (CHR ''q''))" "CHR ''&'' \<notin> set (scheme_plain (CHR ''q''))"
    "CHR ''='' \<notin> set (scheme_plain (CHR ''q''))"
  by (simp_all add: scheme_plain_def alnum_bytes_def)

lemma slash_not_plain: "CHR ''/'' \<notin> set (scheme_plain (CHR ''p''))"
  by (simp add: scheme_plain_def alnum_bytes_def)

lemma list_all_upt: "list_all P [0..<n] \<Longrightarrow> d < n \<Longrightarrow> P d"
  by (simp add: list_all_iff)

lemma hex_code_digit: "d < 16 \<Longrightarrow> hex_code (hex_digit u d) = int d"
proof -
  have "list_all (\<lambda>d. hex_code (hex_digit True d) = int d \<and> hex_code (hex_digit False d) = int d) [0..<16]"
    by code_simp
  from list_all_upt [OF this] show "d < 16 \<Longrightarrow> hex_code (hex_digit u d) = int d" by (cases u) simp_all
qed

lemma hex_code_upper: "hex_code (hex_upper c) = hex_code c"
proof (cases "97 \<le> byte_of c \<and> byte_of c \<le> 102")
  case True
  then have "c_islower c" by (simp add: c_islower_def)
  then have "byte_of (hex_upper c) = byte_of c - 32" using True by (auto simp: hex_upper_def c_toupper_def)
  then show ?thesis using True by (auto simp: hex_code_def c_isdigit_def)
qed (auto simp: hex_upper_def)

lemma byte_halves: "byte_of c div 16 < 16" "byte_of c mod 16 < 16"
    "char_of (byte_of c div 16 * 16 + byte_of c mod 16) = c"
  using of_char_less_256 [of c] by (simp_all add: less_mult_imp_div_less)

text \<open>An encoded byte: one byte, or a percent sign and two hexadecimal digits that decode to it.\<close>

lemma encode_byte_cases:
  obtains (space) "c = CHR '' ''" "s = CHR ''q''" "encode_byte s u c = ''+''"
    | (plain) "encode_byte s u c = [c]" "c \<in> set (scheme_plain s)" "c \<noteq> CHR ''%''" "s = CHR ''q'' \<longrightarrow> c \<noteq> CHR ''+''"
        "bk_len (scheme_table s c) = 1"
    | (coded) a b where "encode_byte s u c = [CHR ''%'', a, b]" "hex_code a = int (byte_of c div 16)"
        "hex_code b = int (byte_of c mod 16)" "bk_len (scheme_table s c) = 3"
proof -
  define plain where "plain = scheme_plain s"
  have tab: "scheme_table s = byte_key plain (s = CHR ''o'')" "CHR ''%'' \<notin> set plain"
    "s = CHR ''q'' \<longrightarrow> CHR ''+'' \<notin> set plain"
    using scheme_table_plain percent_not_plain query_not_plain(1) by (auto simp: plain_def)
  show thesis
  proof (cases "c = CHR '' '' \<and> s = CHR ''q''")
    case True
    then show thesis using that(1) by (simp add: encode_byte_def)
  next
    case False
    show thesis
    proof (cases "c \<in> set plain")
      case True
      then have "c \<noteq> CHR ''%''" "s = CHR ''q'' \<longrightarrow> c \<noteq> CHR ''+''" using tab(2,3) by auto
      then show thesis using that(2) True False tab(1) by (auto simp: encode_byte_def byte_key_def plain_def)
    next
      case coded: False
      then show thesis
        using that(3) False tab(1) hex_code_digit [OF byte_halves(1)] hex_code_digit [OF byte_halves(2)]
        by (cases u) (auto simp: encode_byte_def byte_key_def hex_code_upper)
    qed
  qed
qed

lemma query_space: "bk_len (query_scheme (CHR '' '')) = 1"
  by code_simp

lemma length_encode_byte: "length (encode_byte s u c) = bk_len (scheme_table s c)"
  by (rule encode_byte_cases [of c s u]) (simp_all add: scheme_table_def query_space)

lemma decode_encode_byte: "PercentDecode s (encode_byte s u c @ rest) = c # PercentDecode s rest"
  by (rule encode_byte_cases [of c s u]) (auto simp: byte_halves(3))

definition encoded :: "char \<Rightarrow> bool \<Rightarrow> cstring \<Rightarrow> string" where
  "encoded s u seg = concat (map (encode_byte s u) seg)"

lemma decode_encoded: "PercentDecode s (encoded s u seg @ rest) = seg @ PercentDecode s rest"
  by (induction seg) (simp_all add: encoded_def decode_encode_byte)

lemma fill_exact: "length out = n \<Longrightarrow> fill n out = Some out"
  by (simp add: fill_def)

lemma UrlEncode_plain: "UrlEncode conv ds seg None s u = Some (ds @ encoded s u seg)"
proof -
  have "length (encoded s u seg) = sum_list (map (\<lambda>c. bk_len (scheme_table s c)) seg)"
    by (simp add: encoded_def length_concat comp_def length_encode_byte)
  from fill_exact [OF this] show ?thesis by (simp add: UrlEncode_def encoded_def)
qed

lemma length_PercentDecode: "length (PercentDecode s p) \<le> length p"
  by (induction s p rule: PercentDecode.induct) auto

subsection \<open>Queries and paths\<close>

text \<open>The bytes of an encoded string: percent signs, hexadecimal digits, plus signs and plain bytes.\<close>

lemma hex_code_bytes: "hex_code c \<ge> 0 \<Longrightarrow> c \<noteq> CHR ''&'' \<and> c \<noteq> CHR ''='' \<and> c \<noteq> CHR ''/''"
  by (auto simp: hex_code_def c_isdigit_def)

lemma encode_byte_set:
  "x \<in> set (encode_byte s u c) \<Longrightarrow>
    x = CHR ''%'' \<or> x = CHR ''+'' \<or> x \<in> set (scheme_plain s) \<or> hex_code x \<ge> 0"
  by (rule encode_byte_cases [of c s u]) auto

lemma encoded_set:
  assumes "x \<in> {CHR ''&'', CHR ''='', CHR ''/''}" "x \<notin> set (scheme_plain s)"
  shows "x \<notin> set (encoded s u seg)"
proof
  assume "x \<in> set (encoded s u seg)"
  then obtain c where "x \<in> set (encode_byte s u c)" by (auto simp: encoded_def)
  then have "x = CHR ''%'' \<or> x = CHR ''+'' \<or> hex_code x \<ge> 0" using encode_byte_set assms(2) by blast
  then show False using assms(1) hex_code_bytes [of x] by auto
qed

lemma encoded_query_bytes: "CHR ''&'' \<notin> set (encoded (CHR ''q'') u seg)" "CHR ''='' \<notin> set (encoded (CHR ''q'') u seg)"
  using query_not_plain by (simp_all add: encoded_set)

lemma encoded_path_bytes: "CHR ''/'' \<notin> set (encoded (CHR ''p'') u seg)"
  using slash_not_plain by (simp add: encoded_set)

fun pairs_of :: "'a list \<Rightarrow> ('a \<times> 'a) list" where
  "pairs_of (a # b # rest) = (a, b) # pairs_of rest"
| "pairs_of _ = []"

definition pair_text :: "bool \<Rightarrow> cstring \<times> cstring \<Rightarrow> string" where
  "pair_text u = (\<lambda>(n, v). encoded (CHR ''q'') u n @ ''='' @ encoded (CHR ''q'') u v)"

lemma query_pairs_plain:
  "query_pairs conv None u ds first args =
    Some (ds @ concat (map (\<lambda>p. (if first then [] else ''&'') @ pair_text u p) (take 1 (pairs_of args))) @
      concat (map (\<lambda>p. ''&'' @ pair_text u p) (drop 1 (pairs_of args))))"
proof (induction args arbitrary: ds first rule: pairs_of.induct)
  case (1 a b rest)
  then show ?case
    by (cases "pairs_of rest") (simp_all add: UrlEncode_plain pair_text_def)
qed simp_all

lemma split_amp: "CHR ''&'' \<notin> set (pair_text u p)"
  using encoded_query_bytes by (cases p) (simp add: pair_text_def)

lemma split_pairs:
  "ps \<noteq> [] \<Longrightarrow> split_on (CHR ''&'') (pair_text u (hd ps) @ concat (map (\<lambda>p. ''&'' @ pair_text u p) (tl ps))) =
    map (pair_text u) ps"
proof (induction ps)
  case (Cons p ps)
  show ?case
  proof (cases ps)
    case Nil
    then show ?thesis using split_on_none [OF split_amp] by simp
  next
    case (Cons q qs)
    then show ?thesis using Cons.IH split_on_append [OF split_amp] by simp
  qed
qed simp

lemma split_equals: "split_on (CHR ''='') (pair_text u (n, v)) = [encoded (CHR ''q'') u n, encoded (CHR ''q'') u v]"
  using split_on_append [OF encoded_query_bytes(2)] split_on_none [OF encoded_query_bytes(2)]
  by (simp add: pair_text_def)

lemma decode_encoded_all: "PercentDecode s (encoded s u seg) = seg"
  using decode_encoded [of s u seg "[]"] by simp

lemma UrlEncodeFullpath_plain:
  "\<exists>out. UrlEncodeFullpath conv ds path None u = Some (ds @ out) \<and>
    split_on (CHR ''/'') out = map (encoded (CHR ''p'') u) (split_on (CHR ''/'') path)"
proof (induction "length path" arbitrary: ds path rule: less_induct)
  case less
  show ?case
  proof (cases "strchr path (CHR ''/'')")
    case None
    then have "split_on (CHR ''/'') path = [path]" by (simp add: strchr_None_iff split_on_none)
    then show ?thesis
      using None split_on_none [OF encoded_path_bytes] by (simp add: UrlEncodeFullpath.simps UrlEncode_plain)
  next
    case (Some i)
    note i = strchr_SomeD [OF Some]
    define rest where "rest = drop (Suc i) path"
    have path: "path = take i path @ CHR ''/'' # rest"
      using i id_take_nth_drop [of i path] by (simp add: rest_def)
    have split: "split_on (CHR ''/'') path = take i path # split_on (CHR ''/'') rest"
      by (subst path, rule split_on_append) (use i in simp)
    have "length rest < length path" unfolding rest_def length_drop using i by linarith
    from less [OF this, of "ds @ encoded (CHR ''p'') u (take i path) @ ''/''"] obtain out where
      out: "UrlEncodeFullpath conv (ds @ encoded (CHR ''p'') u (take i path) @ ''/'') rest None u =
          Some ((ds @ encoded (CHR ''p'') u (take i path) @ ''/'') @ out)"
        "split_on (CHR ''/'') out = map (encoded (CHR ''p'') u) (split_on (CHR ''/'') rest)"
      by blast
    have "UrlEncodeFullpath conv ds path None u = Some (ds @ encoded (CHR ''p'') u (take i path) @ CHR ''/'' # out)"
      using out(1) by (subst UrlEncodeFullpath.simps) (simp add: Some UrlEncode_plain rest_def)
    moreover have "split_on (CHR ''/'') (encoded (CHR ''p'') u (take i path) @ CHR ''/'' # out) =
        map (encoded (CHR ''p'') u) (split_on (CHR ''/'') path)"
      using out(2) split split_on_append [OF encoded_path_bytes] by simp
    ultimately show ?thesis by blast
  qed
qed

subsection \<open>Properties\<close>

text \<open>C29. Encoding writes exactly the bytes that were reserved for it, whatever the scheme, and decoding with
  the same scheme gives the string back.\<close>

theorem UrlEncode_roundtrip:
  "\<exists>out. UrlEncode conv ds seg None s u = Some (ds @ out) \<and>
    length out = sum_list (map (\<lambda>c. bk_len (scheme_table s c)) seg) \<and>
    UrlDecode utf8 ext [] out (None :: 'e option) s = (Some seg, NS_OK)"
proof -
  define out where "out = encoded s u seg"
  have len: "length out = sum_list (map (\<lambda>c. bk_len (scheme_table s c)) seg)"
    by (simp add: out_def encoded_def length_concat comp_def length_encode_byte)
  have dec: "PercentDecode s out = seg" by (simp add: out_def decode_encoded_all)
  have skip: "PercentDecode s (xs @ ys) = xs @ PercentDecode s ys"
    if "\<forall>c\<in>set xs. c \<noteq> CHR ''%'' \<and> c \<noteq> CHR ''+''" for xs ys
    using that by (induction xs) auto
  have "UrlDecode utf8 ext [] out (None :: 'e option) s = (Some seg, NS_OK)"
  proof (cases "find_index (\<lambda>c. c = CHR ''%'' \<or> c = CHR ''+'') out")
    case None
    then have "PercentDecode s out = out" using skip [of out "[]"] by (simp add: find_index_None_iff)
    then show ?thesis using None dec by (simp add: UrlDecode_def)
  next
    case (Some i)
    have "\<forall>c\<in>set (take i out). c \<noteq> CHR ''%'' \<and> c \<noteq> CHR ''+''"
      using find_index_SomeD [OF Some] by (auto simp: in_set_conv_nth)
    from skip [OF this, of "drop i out"] have "take i out @ PercentDecode s (drop i out) = seg" using dec by simp
    moreover have "length seg \<le> length out" using length_PercentDecode [of s out] dec by simp
    ultimately show ?thesis using Some by (simp add: UrlDecode_def)
  qed
  then show ?thesis using len UrlEncode_plain [of conv ds seg s u] out_def by blast
qed

text \<open>A query string built from names and values can be taken apart again: its parts between ampersands are
  the pairs in order, each split by one equals sign, and decoding gives the names and values.\<close>

theorem UrlEncodeQuery_pairs:
  assumes "length args mod 2 = 0" "args \<noteq> []"
  shows "\<exists>out. UrlEncodeQuery conv ds args None u = (QUERY_OK, Some (ds @ out)) \<and>
    map (map (PercentDecode (CHR ''q'')) \<circ> split_on (CHR ''='')) (split_on (CHR ''&'') out) =
    map (\<lambda>(n, v). [n, v]) (pairs_of args)"
proof -
  obtain a b rest where args: "args = a # b # rest"
    using assms by (cases args; cases "tl args") auto
  define ps where "ps = pairs_of args"
  define out where "out = pair_text u (hd ps) @ concat (map (\<lambda>p. ''&'' @ pair_text u p) (tl ps))"
  have ne: "ps \<noteq> []" by (simp add: ps_def args)
  have "query_pairs conv None u ds True args = Some (ds @ out)"
    unfolding query_pairs_plain out_def ps_def by (simp add: args)
  moreover have "length args \<noteq> 1" using args by simp
  ultimately have "UrlEncodeQuery conv ds args None u = (QUERY_OK, Some (ds @ out))"
    using assms(1) by (simp add: UrlEncodeQuery_def)
  moreover have "map (map (PercentDecode (CHR ''q'')) \<circ> split_on (CHR ''='')) (map (pair_text u) ps) =
      map (\<lambda>(n, v). [n, v]) ps"
    by (auto simp: split_equals decode_encoded_all)
  ultimately show ?thesis using split_pairs [OF ne, of u] by (auto simp: out_def ps_def)
qed

theorem UrlEncodeQuery_pairs_witness:
  "\<exists>out. UrlEncodeQuery (\<lambda>(_ :: unit) s. s) [] [''a b'', ''x&y'', ''k'', ''50%''] None False = (QUERY_OK, Some ([] @ out)) \<and>
    map (map (PercentDecode (CHR ''q'')) \<circ> split_on (CHR ''='')) (split_on (CHR ''&'') out) =
    [[''a b'', ''x&y''], [''k'', ''50%'']]"
  using UrlEncodeQuery_pairs [of "[''a b'', ''x&y'', ''k'', ''50%'']" "\<lambda>(_ :: unit) s. s" "[]" False] by simp

text \<open>Encoding a whole path keeps its slashes: the parts of the result between slashes decode to the
  parts of the path.\<close>

theorem UrlEncodeFullpath_segments:
  "\<exists>out. UrlEncodeFullpath conv ds path None u = Some (ds @ out) \<and>
    map (PercentDecode (CHR ''p'')) (split_on (CHR ''/'') out) = split_on (CHR ''/'') path"
proof -
  obtain out where "UrlEncodeFullpath conv ds path None u = Some (ds @ out)"
    "split_on (CHR ''/'') out = map (encoded (CHR ''p'') u) (split_on (CHR ''/'') path)"
    using UrlEncodeFullpath_plain by blast
  then show ?thesis by (auto simp: comp_def decode_encoded_all)
qed

end
