(* ===== verification/NsPathname.thy ===== *)
theory NsPathname
  imports NsStr
begin

text \<open>
  Path names: the model of the path functions of \<^verbatim>\<open>nsd/pathname.c\<close> (compiled for Unix). A
  \<^verbatim>\<open>Tcl_DString\<close> that a function appends to is the string it holds, passed in and returned. File
  paths may be separated by slashes and backslashes, URLs only by slashes.
\<close>

subsection \<open>Operations\<close>

definition ISSLASH :: "char \<Rightarrow> bool" where
  "ISSLASH c \<longleftrightarrow> c = CHR ''/'' \<or> c = CHR 0x5C"

definition IsSlashInPath :: "bool \<Rightarrow> char \<Rightarrow> bool" where
  "IsSlashInPath inUrl c \<longleftrightarrow> (if inUrl then c = CHR ''/'' else ISSLASH c)"

definition Ns_PathIsAbsolute :: "cstring \<Rightarrow> bool" where
  "Ns_PathIsAbsolute path \<longleftrightarrow> path \<noteq> [] \<and> ISSLASH (hd path)"

text \<open>\<^verbatim>\<open>strrchr\<close>: the offset of the last occurrence.\<close>

fun strrchr :: "cstring \<Rightarrow> char \<Rightarrow> nat option" where
  "strrchr [] c = None"
| "strrchr (a # as) c =
     (case strrchr as c of Some i \<Rightarrow> Some (Suc i) | None \<Rightarrow> if a = c then Some 0 else None)"

definition normalize_part :: "cstring \<Rightarrow> cstring \<Rightarrow> cstring" where
  "normalize_part ds part =
     (if part = ''..'' then
        (case strrchr ds (CHR ''/'') of Some slash \<Rightarrow> take slash ds | None \<Rightarrow> ds)
      else if part \<noteq> [] \<and> part \<noteq> ''.'' then ds @ [CHR ''/''] @ part
      else ds)"

function normalize_loop :: "bool \<Rightarrow> cstring \<Rightarrow> cstring \<Rightarrow> cstring" where
  "normalize_loop url ds src =
     (let part = takeWhile (\<lambda>c. \<not> IsSlashInPath url c) src;
          rest = dropWhile (\<lambda>c. \<not> IsSlashInPath url c) src;
          ds = normalize_part ds part
      in if rest = [] then ds else normalize_loop url ds (tl rest))"
  by pat_completeness auto
termination
proof (relation "measure (\<lambda>(url, ds, src). length src)")
  fix url :: bool and ds src part rest ds' :: cstring
  assume "rest = dropWhile (\<lambda>c. \<not> IsSlashInPath url c) src" and ne: "rest \<noteq> []"
  then have "length rest \<le> length src" by (simp only: length_dropWhile_le)
  then have "length (tl rest) < length src" using ne by (cases rest) simp_all
  then show "((url, ds', tl rest), url, ds, src) \<in> measure (\<lambda>(url, ds, src). length src)" by simp
qed simp

declare normalize_loop.simps [simp del]

definition NormalizePath :: "cstring \<Rightarrow> cstring \<Rightarrow> bool \<Rightarrow> cstring" where
  "NormalizePath ds path url =
     (let ds = normalize_loop url ds (dropWhile (IsSlashInPath url) path)
      in if ds = [] then ''/'' else ds)"

definition Ns_NormalizePath :: "cstring \<Rightarrow> cstring \<Rightarrow> cstring" where
  "Ns_NormalizePath ds path = NormalizePath ds path False"

definition Ns_NormalizeUrl :: "cstring \<Rightarrow> cstring \<Rightarrow> cstring" where
  "Ns_NormalizeUrl ds path = NormalizePath ds path True"

text \<open>The inner loop of \<^verbatim>\<open>MakePath\<close>: each run of characters that are no slashes is appended after one
  slash.\<close>

function make_path_loop :: "cstring \<Rightarrow> cstring \<Rightarrow> cstring" where
  "make_path_loop dest s =
     (if s = [] then dest
      else (let s = dropWhile ISSLASH s
            in if s = [] then dest
               else make_path_loop (dest @ [CHR ''/''] @ takeWhile (\<lambda>c. \<not> ISSLASH c) s)
                      (dropWhile (\<lambda>c. \<not> ISSLASH c) s)))"
  by pat_completeness auto
termination
proof (relation "measure (\<lambda>(dest, s). length s)")
  fix dest s x :: cstring
  assume "s \<noteq> []" and x: "x = dropWhile ISSLASH s" "x \<noteq> []"
  have "length x \<le> length s" unfolding x(1) by (rule length_dropWhile_le)
  moreover obtain a y where y: "x = a # y" using x(2) by (cases x) auto
  moreover have "\<not> ISSLASH a" using hd_dropWhile [of ISSLASH s] x y by (metis list.sel(1))
  moreover have "length (dropWhile (\<lambda>c. \<not> ISSLASH c) y) \<le> length y" by (rule length_dropWhile_le)
  ultimately show "((dest @ [CHR ''/''] @ takeWhile (\<lambda>c. \<not> ISSLASH c) x, dropWhile (\<lambda>c. \<not> ISSLASH c) x), dest, s)
      \<in> measure (\<lambda>(dest, s). length s)"
    by simp
qed simp

declare make_path_loop.simps [simp del]

definition c_isalpha :: "char \<Rightarrow> bool" where
  "c_isalpha c \<longleftrightarrow> c_isupper c \<or> c_islower c"

fun MakePath :: "cstring \<Rightarrow> cstring list \<Rightarrow> cstring" where
  "MakePath dest [] = dest"
| "MakePath dest (s # ss) =
     (if length s \<ge> 2 \<and> c_isalpha (hd s) \<and> s ! 1 = CHR '':''
      then MakePath (make_path_loop (dest @ take 2 s) (drop 2 s)) ss
      else MakePath (make_path_loop dest s) ss)"

definition Ns_MakePath :: "cstring \<Rightarrow> cstring list \<Rightarrow> cstring" where
  "Ns_MakePath ds args = MakePath ds args"

text \<open>The test for a trailing slash reads the byte behind the string, its terminating NUL.\<close>

fun Ns_HashPath :: "cstring \<Rightarrow> cstring \<Rightarrow> nat \<Rightarrow> cstring" where
  "Ns_HashPath ds p 0 = ds"
| "Ns_HashPath ds p (Suc levels) =
     (let ds = (if (ds @ [CHR 0x00]) ! length ds \<noteq> CHR ''/'' then ds @ ''/'' else ds);
          p = dropWhile (\<lambda>c. c = CHR ''.'' \<or> ISSLASH c) p
      in if p \<noteq> [] then Ns_HashPath (ds @ [hd p]) (tl p) levels
         else Ns_HashPath (ds @ ''_'') p levels)"

text \<open>The virtual host part of a server's configuration, and the branch of \<^verbatim>\<open>ServerRoot\<close> for a server
  with virtual hosts and without a registered procedure: \<open>None\<close> when the path is left NULL.\<close>

record vhost =
  strip_www :: bool
  strip_port :: bool
  hosthashlevel :: nat
  hostprefix :: "cstring option"
  serverdir :: cstring

definition vhost_base :: "vhost \<Rightarrow> cstring \<Rightarrow> cstring" where
  "vhost_base v dest =
     Ns_MakePath dest (serverdir v # (case hostprefix v of Some p \<Rightarrow> [p] | None \<Rightarrow> []))"

definition safe_host :: "vhost \<Rightarrow> cstring \<Rightarrow> cstring" where
  "safe_host v rawHost =
     (let safehost = Ns_StrToLower rawHost;
          safehost = (if strip_www v \<and> take 4 safehost = ''www.'' then drop 4 safehost else safehost)
      in if strip_port v then
           (case strrchr safehost (CHR '':'') of Some p \<Rightarrow> take p safehost | None \<Rightarrow> safehost)
         else safehost)"

definition vhost_root :: "vhost \<Rightarrow> cstring \<Rightarrow> cstring \<Rightarrow> cstring option" where
  "vhost_root v dest rawHost =
     (if Ns_StrIsValidHostHeaderContent rawHost then
        (let safehost = safe_host v rawHost;
             dest = vhost_base v dest;
             dest = (if hosthashlevel v > 0 then Ns_HashPath dest safehost (hosthashlevel v) else dest)
         in Some (Ns_NormalizePath dest safehost))
      else None)"

subsection \<open>Paths as lists of segments\<close>

fun split_by :: "(char \<Rightarrow> bool) \<Rightarrow> string \<Rightarrow> string list" where
  "split_by sep [] = [[]]"
| "split_by sep (x # xs) =
     (if sep x then [] # split_by sep xs
      else (x # hd (split_by sep xs)) # tl (split_by sep xs))"

definition resolve_step :: "cstring list \<Rightarrow> cstring \<Rightarrow> cstring list" where
  "resolve_step segs part =
     (if part = ''..'' then butlast segs
      else if part = [] \<or> part = ''.'' then segs
      else segs @ [part])"

definition resolve :: "bool \<Rightarrow> cstring \<Rightarrow> cstring list" where
  "resolve url path = foldl resolve_step [] (split_by (IsSlashInPath url) path)"

definition render :: "cstring list \<Rightarrow> cstring" where
  "render segs = concat (map (\<lambda>s. CHR ''/'' # s) segs)"

definition clean_seg :: "bool \<Rightarrow> cstring \<Rightarrow> bool" where
  "clean_seg url s \<longleftrightarrow> s \<noteq> [] \<and> s \<noteq> ''.'' \<and> s \<noteq> ''..'' \<and> (\<forall>c\<in>set s. \<not> IsSlashInPath url c)"

lemma render_simps [simp]: "render [] = []" "render (s # ss) = CHR ''/'' # s @ render ss"
  "render (ss @ ss') = render ss @ render ss'"
  by (simp_all add: render_def)

lemma render_Nil_iff [simp]: "render segs = [] \<longleftrightarrow> segs = []"
  by (cases segs) simp_all

lemma slash_sep [simp]: "IsSlashInPath url (CHR ''/'')"
  by (simp add: IsSlashInPath_def ISSLASH_def)

lemma split_by_nonempty [simp]: "split_by sep xs \<noteq> []"
  by (cases xs) auto

lemma split_by_none: "\<forall>c\<in>set xs. \<not> sep c \<Longrightarrow> split_by sep xs = [xs]"
  by (induction xs) auto

lemma split_by_append: "\<forall>c\<in>set xs. \<not> sep c \<Longrightarrow> sep y \<Longrightarrow> split_by sep (xs @ y # ys) = xs # split_by sep ys"
  by (induction xs) auto

lemma split_by_parts:
  "split_by sep src = takeWhile (\<lambda>c. \<not> sep c) src #
    (case dropWhile (\<lambda>c. \<not> sep c) src of [] \<Rightarrow> [] | _ # rest \<Rightarrow> split_by sep rest)"
  by (induction src) auto

lemma split_by_no_sep: "\<forall>w\<in>set (split_by sep xs). \<forall>c\<in>set w. \<not> sep c"
proof (induction xs)
  case (Cons x xs)
  then show ?case by (cases "split_by sep xs") (auto split: if_splits)
qed simp

lemma split_by_drop_leading:
  "foldl resolve_step segs (split_by sep (dropWhile sep xs)) = foldl resolve_step segs (split_by sep xs)"
  by (induction xs) (auto simp: resolve_step_def)

lemma strrchr_None: "c \<notin> set s \<Longrightarrow> strrchr s c = None"
  by (induction s) auto

lemma strrchr_last: "c \<notin> set s \<Longrightarrow> strrchr (xs @ c # s) c = Some (length xs)"
  by (induction xs) (auto simp: strrchr_None)

lemma resolve_step_clean:
  "\<forall>s\<in>set segs. clean_seg url s \<Longrightarrow> \<forall>c\<in>set part. \<not> IsSlashInPath url c \<Longrightarrow>
    \<forall>s\<in>set (resolve_step segs part). clean_seg url s"
  by (auto simp: resolve_step_def clean_seg_def dest: in_set_butlastD)

lemma resolve_clean: "\<forall>s\<in>set (resolve url path). clean_seg url s"
proof -
  have "\<forall>s\<in>set segs. clean_seg url s \<Longrightarrow> \<forall>w\<in>set ws. \<forall>c\<in>set w. \<not> IsSlashInPath url c \<Longrightarrow>
      \<forall>s\<in>set (foldl resolve_step segs ws). clean_seg url s" for segs ws
  proof (induction ws arbitrary: segs)
    case (Cons w ws)
    then show ?case using resolve_step_clean [of segs url w] by simp
  qed simp
  from this [of "[]" "split_by (IsSlashInPath url) path"] show ?thesis
    using split_by_no_sep [of "IsSlashInPath url" path] by (simp add: resolve_def)
qed

lemma normalize_part_render:
  assumes "\<forall>s\<in>set segs. clean_seg url s"
  shows "normalize_part (render segs) part = render (resolve_step segs part)"
proof (cases segs rule: rev_cases)
  case Nil
  then show ?thesis by (auto simp: normalize_part_def resolve_step_def)
next
  case (snoc ss s)
  then have "CHR ''/'' \<notin> set s" using assms by (auto simp: clean_seg_def)
  then have "strrchr (render segs) (CHR ''/'') = Some (length (render ss))"
    using snoc strrchr_last [of "CHR ''/''" s "render ss"] by simp
  then show ?thesis using snoc by (auto simp: normalize_part_def resolve_step_def)
qed

lemma normalize_loop_render:
  "\<forall>s\<in>set segs. clean_seg url s \<Longrightarrow>
    normalize_loop url (render segs) src = render (foldl resolve_step segs (split_by (IsSlashInPath url) src))"
proof (induction "length src" arbitrary: src segs rule: less_induct)
  case less
  define part where "part = takeWhile (\<lambda>c. \<not> IsSlashInPath url c) src"
  have part: "\<forall>c\<in>set part. \<not> IsSlashInPath url c" unfolding part_def by (auto dest: set_takeWhileD)
  note step = normalize_part_render [OF less.prems, of part] and clean = resolve_step_clean [OF less.prems part]
  show ?case
  proof (cases "dropWhile (\<lambda>c. \<not> IsSlashInPath url c) src")
    case Nil
    then have "split_by (IsSlashInPath url) src = [part]" unfolding part_def
      by (subst split_by_parts) (simp del: dropWhile_eq_Nil_conv)
    then show ?thesis
      using step Nil by (simp del: dropWhile_eq_Nil_conv add: normalize_loop.simps [of url _ src] Let_def flip: part_def)
  next
    case (Cons c rest)
    have "length (dropWhile (\<lambda>c. \<not> IsSlashInPath url c) src) \<le> length src" by (rule length_dropWhile_le)
    then have "length rest < length src" using Cons by simp
    from less.hyps [OF this clean] show ?thesis
      using step Cons by (simp add: normalize_loop.simps [of url _ src] split_by_parts [of _ src] Let_def flip: part_def)
  qed
qed

lemma NormalizePath_render:
  "NormalizePath [] path url = (if resolve url path = [] then ''/'' else render (resolve url path))"
  using normalize_loop_render [of "[]" url "dropWhile (IsSlashInPath url) path"]
  by (simp add: NormalizePath_def resolve_def split_by_drop_leading)

lemma split_render:
  "\<forall>s\<in>set segs. clean_seg url s \<Longrightarrow> split_by (IsSlashInPath url) (render segs) = [] # segs"
proof (induction segs)
  case (Cons s ss)
  have "split_by (IsSlashInPath url) (s @ render ss) = s # ss"
  proof (cases ss)
    case Nil
    then show ?thesis using Cons.prems split_by_none [of s "IsSlashInPath url"] by (simp add: clean_seg_def)
  next
    case (Cons t ts)
    have "split_by (IsSlashInPath url) (render ss) = [] # ss" using Cons.IH Cons.prems by simp
    then have "split_by (IsSlashInPath url) (t @ render ts) = ss" using Cons by simp
    moreover have "\<forall>c\<in>set s. \<not> IsSlashInPath url c" using Cons.prems by (simp add: clean_seg_def)
    ultimately show ?thesis using Cons split_by_append [of s "IsSlashInPath url" "CHR ''/''"] by simp
  qed
  then show ?case by simp
qed simp

lemma resolve_render:
  assumes "\<forall>s\<in>set segs. clean_seg url s"
  shows "resolve url (render segs) = segs"
proof -
  have "\<forall>s\<in>set ws. clean_seg url s \<Longrightarrow> foldl resolve_step vs ws = vs @ ws" for vs ws
    by (induction ws arbitrary: vs) (auto simp: resolve_step_def clean_seg_def)
  then show ?thesis using split_render [OF assms] assms by (simp add: resolve_def resolve_step_def)
qed

subsection \<open>Accepted host names\<close>

lemma valid_host_tail: "Ns_StrIsValidHostHeaderContent (p # ps) \<Longrightarrow> Ns_StrIsValidHostHeaderContent ps"
  by (auto split: if_splits)

lemma valid_host_drop: "Ns_StrIsValidHostHeaderContent s \<Longrightarrow> Ns_StrIsValidHostHeaderContent (drop n s)"
proof (induction s arbitrary: n)
  case (Cons p ps)
  then show ?case using valid_host_tail [OF Cons.prems] by (cases n) simp_all
qed simp

lemma valid_host_take: "Ns_StrIsValidHostHeaderContent s \<Longrightarrow> Ns_StrIsValidHostHeaderContent (take n s)"
proof (induction s arbitrary: n)
  case (Cons p ps)
  show ?case
  proof (cases n)
    case (Suc m)
    have "Ns_StrIsValidHostHeaderContent (take m ps)" using Cons valid_host_tail by blast
    then show ?thesis using Cons.prems Suc by (cases m; cases ps) (auto split: if_splits)
  qed simp
qed simp

lemma lower_dot [simp]: "c_tolower c = CHR ''.'' \<longleftrightarrow> c = CHR ''.''"
proof
  assume lower: "c_tolower c = CHR ''.''"
  show "c = CHR ''.''"
  proof (cases "c_isupper c")
    case True
    then have "byte_of (CHR ''.'') = byte_of c + 32" using byte_of_tolower [OF True] lower by simp
    then show ?thesis using True by (simp add: c_isupper_def)
  qed (use lower c_tolower_id in auto)
qed (simp add: c_tolower_def c_isupper_def)

lemma lower_alnum: "c_isalnum c \<Longrightarrow> c_isalnum (c_tolower c)"
proof (cases "c_isupper c")
  case True
  then have "c_islower (c_tolower c)" using byte_of_tolower [OF True] by (simp add: c_isupper_def c_islower_def)
  then show ?thesis by (simp add: c_isalnum_def)
qed (simp add: c_tolower_id)

lemma valid_host_Cons:
  "Ns_StrIsValidHostHeaderContent (p # ps) \<longleftrightarrow>
    (c_isalnum p \<or> p \<in> {CHR '':'', CHR ''['', CHR '']''} \<or>
     p = CHR ''.'' \<and> (ps = [] \<or> hd ps \<noteq> CHR ''.'')) \<and> Ns_StrIsValidHostHeaderContent ps"
  by auto

lemma valid_host_lower: "Ns_StrIsValidHostHeaderContent s \<Longrightarrow> Ns_StrIsValidHostHeaderContent (Ns_StrToLower s)"
proof (induction s)
  case (Cons p ps)
  have rest: "Ns_StrIsValidHostHeaderContent (map c_tolower ps)"
    using Cons.IH [OF valid_host_tail [OF Cons.prems]] by (simp add: Ns_StrToLower_map)
  have other: "c_tolower p = p" if "p \<in> {CHR '':'', CHR ''['', CHR '']''}"
    using that by (auto simp: c_tolower_def c_isupper_def)
  have hd: "ps \<noteq> [] \<Longrightarrow> hd (map c_tolower ps) = CHR ''.'' \<longleftrightarrow> hd ps = CHR ''.''" by (cases ps) simp_all
  consider "c_isalnum p" | "p \<in> {CHR '':'', CHR ''['', CHR '']''}"
    | "p = CHR ''.''" "ps = [] \<or> hd ps \<noteq> CHR ''.''"
    using Cons.prems unfolding valid_host_Cons by blast
  then have "c_isalnum (c_tolower p) \<or> c_tolower p \<in> {CHR '':'', CHR ''['', CHR '']''} \<or>
     c_tolower p = CHR ''.'' \<and> (map c_tolower ps = [] \<or> hd (map c_tolower ps) \<noteq> CHR ''.'')"
  proof cases
    case 1
    then show ?thesis by (simp add: lower_alnum)
  next
    case 2
    then show ?thesis using other by simp
  next
    case 3
    then show ?thesis using hd by (cases "ps = []") simp_all
  qed
  then show ?case using rest unfolding Ns_StrToLower_map list.map valid_host_Cons by blast
qed (simp add: Ns_StrToLower_def)

lemma valid_safe_host: "Ns_StrIsValidHostHeaderContent h \<Longrightarrow> Ns_StrIsValidHostHeaderContent (safe_host v h)"
  using valid_host_lower [of h] valid_host_drop valid_host_take
  by (auto simp: safe_host_def Let_def split: option.splits)

lemma valid_host_chars: "Ns_StrIsValidHostHeaderContent s \<Longrightarrow> c \<in> set s \<Longrightarrow> \<not> ISSLASH c"
proof (induction s)
  case (Cons p ps)
  have "c_isalnum p \<or> p = CHR '':'' \<or> p = CHR ''['' \<or> p = CHR '']'' \<or> p = CHR ''.''"
    using Cons.prems(1) by (auto split: if_splits)
  then have "\<not> ISSLASH p"
    by (auto simp: ISSLASH_def c_isalnum_def c_isupper_def c_islower_def c_isdigit_def)
  then show ?case using Cons.IH [OF valid_host_tail [OF Cons.prems(1)]] Cons.prems(2) by auto
qed simp

lemma valid_host_no_parent: "Ns_StrIsValidHostHeaderContent s \<Longrightarrow> s \<noteq> ''..''"
  by (auto simp: c_isalnum_def c_isupper_def c_islower_def c_isdigit_def)

lemma NormalizePath_one_segment:
  assumes "\<forall>c\<in>set s. \<not> ISSLASH c" "s \<noteq> ''..''"
  shows "Ns_NormalizePath ds s =
    (let r = (if s = [] \<or> s = ''.'' then ds else ds @ CHR ''/'' # s) in if r = [] then ''/'' else r)"
proof -
  have sep: "IsSlashInPath False = ISSLASH" by (simp add: IsSlashInPath_def fun_eq_iff)
  have "dropWhile ISSLASH s = s" using assms(1) by (cases s) auto
  moreover have "takeWhile (\<lambda>c. \<not> ISSLASH c) s = s" using assms(1) by simp
  moreover have "dropWhile (\<lambda>c. \<not> ISSLASH c) s = []" using assms(1) by simp
  ultimately have "normalize_loop False ds (dropWhile ISSLASH s) = normalize_part ds s"
    by (simp add: normalize_loop.simps [of False ds s] sep Let_def
        del: takeWhile_eq_all_conv dropWhile_eq_Nil_conv)
  then show ?thesis
    using assms(2) by (simp add: Ns_NormalizePath_def NormalizePath_def sep normalize_part_def Let_def)
qed

subsection \<open>Properties\<close>

text \<open>C30. Normalisation resolves the path: the result is \<^verbatim>\<open>/\<close> or the segments that remain when \<^verbatim>\<open>..\<close> removes the
  segment before it and empty segments and \<^verbatim>\<open>.\<close> are dropped, each after a slash; none of them is empty,
  \<^verbatim>\<open>.\<close> or \<^verbatim>\<open>..\<close> or holds a separator; and normalising again changes nothing.\<close>

theorem NormalizePath_canonical:
  "NormalizePath [] path url = (if resolve url path = [] then ''/'' else render (resolve url path)) \<and>
   list_all (clean_seg url) (resolve url path) \<and>
   NormalizePath [] (NormalizePath [] path url) url = NormalizePath [] path url"
proof (intro conjI)
  have clean: "\<forall>s\<in>set (resolve url path). clean_seg url s" by (rule resolve_clean)
  have "resolve url ''/'' = []" by (simp add: resolve_def resolve_step_def)
  then show "NormalizePath [] (NormalizePath [] path url) url = NormalizePath [] path url"
    unfolding NormalizePath_render using resolve_render [OF clean] by simp
  show "list_all (clean_seg url) (resolve url path)" using clean by (simp add: list_all_iff)
qed (rule NormalizePath_render)



subsection \<open>Observations\<close>

text \<open>Normalisation appends to the string it is given, and \<^verbatim>\<open>..\<close> also removes segments of that
  string.\<close>

lemma normalize_removes_prefix: "Ns_NormalizePath ''/srv/x'' ''../y'' = ''/srv/y''"
  by code_simp

text \<open>The trailing slash of a path is not recognised: the hashed path then has two slashes.\<close>

lemma hash_path_double_slash: "Ns_HashPath ''/srv/'' ''foo'' 2 = ''/srv//f/o''"
  by code_simp

end
