(* ===== verification/NsQueue.thy ===== *)
theory NsQueue
  imports NsTime "HOL-Library.Word"
begin

unbundle bit_operations_syntax

text \<open>
  The connection queue of a pool: the model of \<^verbatim>\<open>nsd/queue.c\<close>. A pool owns a fixed array of
  connection records, threaded through \<^verbatim>\<open>nextPtr\<close> into a free list or the waiting queue, and a fixed
  array of thread slots, of which the idle ones form the thread queue. Drivers hand a request to
  an idle thread or append it to the waiting queue; connection threads serve requests and put the
  connection record back. Pointers are array positions, the \<^verbatim>\<open>next\<close> pointers are explicit.

  The code works in sections: the statements run while a lock is held, and single accesses outside of
  locks. Each section is a definition here; an access to NULL is the result \<open>None\<close>. \<^verbatim>\<open>NsQueueRun\<close>
  composes them: drivers and threads as programs that interleave between sections.
\<close>

subsection \<open>Data\<close>

datatype ConnThreadState =
    connThread_free | connThread_initial | connThread_warmup | connThread_ready
  | connThread_idle | connThread_busy | connThread_dead

definition NS_CONN_SOCK_WAITING :: "32 word" where "NS_CONN_SOCK_WAITING = 0x01000"
definition NS_CONN_DELIVERY_TRACKED :: "32 word" where "NS_CONN_DELIVERY_TRACKED = 0x4000000"
definition NS_CONN_CONFIGURED :: "32 word" where "NS_CONN_CONFIGURED = 0x1000000"
definition NS_DRIVER_ASYNC :: "32 word" where "NS_DRIVER_ASYNC = 0x01"
definition NS_DRIVER_QUIC :: "32 word" where "NS_DRIVER_QUIC = 0x40"
definition NS_POOL_FULL_NOTICE_INTERVAL_SEC :: int where "NS_POOL_FULL_NOTICE_INTERVAL_SEC = 60"

text \<open>What the queue uses of a connection, of a thread slot and of a socket.\<close>

record Conn =
  c_prevPtr :: "nat option"
  c_nextPtr :: "nat option"
  c_id :: "64 word"
  c_sockPtr :: "nat option"
  c_drvPtr :: nat
  c_location :: "string option"
  c_flags :: "32 word"
  c_acceptTime :: ns_time
  c_requestQueueTime :: ns_time
  c_rateLimit :: int

record ConnThreadArg =
  a_connPtr :: "nat option"
  a_nextPtr :: "nat option"
  a_state :: ConnThreadState

record Sock =
  s_poolPtr :: "nat option"
  s_method :: "string option"
  s_url :: string
  s_drvPtr :: nat
  s_opts :: "32 word"
  s_flags :: "32 word"
  s_location :: "string option"
  s_acceptTime :: ns_time

record ConnPool =
  freePtr :: "nat option"
  maxconns :: nat
  firstPtr :: "nat option"
  lastPtr :: "nat option"
  wait_num :: int
  fullNoticeTime :: ns_time
  fullNoticeSuppressed :: "64 word"
  lowwatermark :: int
  highwatermark :: int
  rejectoverrun :: bool
  nextid :: "64 word"
  t_min :: int
  t_max :: int
  t_current :: int
  t_idle :: int
  connsperthread :: int
  t_creating :: int
  tq_nextPtr :: "nat option"
  args :: "nat \<Rightarrow> ConnThreadArg"
  conns :: "nat \<Rightarrow> Conn"
  st_processed :: "64 word"
  st_queued :: "64 word"
  st_dropped :: "64 word"
  st_connthreads :: "64 word"
  defaultConnectionLimit :: int

record NsServer =
  nextconnid :: "64 word"
  shutdown :: bool

definition set_arg :: "nat \<Rightarrow> (ConnThreadArg \<Rightarrow> ConnThreadArg) \<Rightarrow> ConnPool \<Rightarrow> ConnPool" where
  "set_arg a f p = p\<lparr>args := (args p)(a := f (args p a))\<rparr>"

definition set_conn :: "nat \<Rightarrow> (Conn \<Rightarrow> Conn) \<Rightarrow> ConnPool \<Rightarrow> ConnPool" where
  "set_conn c f p = p\<lparr>conns := (conns p)(c := f (conns p c))\<rparr>"

abbreviation cnext :: "ConnPool \<Rightarrow> nat \<Rightarrow> nat option" where
  "cnext p c \<equiv> c_nextPtr (conns p c)"

abbreviation anext :: "ConnPool \<Rightarrow> nat \<Rightarrow> nat option" where
  "anext p a \<equiv> a_nextPtr (args p a)"

subsection \<open>Queueing a request\<close>

text \<open>
  The pool of a request: the pool already noted in the socket, else the one the URL space has for
  the method and URL (\<open>lookup\<close>), else the default pool. The default is not noted in the socket.
\<close>

definition NsQueueConn_pool :: "(string \<Rightarrow> string \<Rightarrow> nat option) \<Rightarrow> nat \<Rightarrow> Sock \<Rightarrow> nat \<times> Sock" where
  "NsQueueConn_pool lookup defaultPtr s =
     (let (poolPtr, s') =
        (case s_poolPtr s of
           None \<Rightarrow> (case s_method s of
                      Some m \<Rightarrow> let q = lookup m (s_url s) in (q, s\<lparr>s_poolPtr := q\<rparr>)
                    | None \<Rightarrow> (None, s))
         | Some q \<Rightarrow> (Some q, s))
      in (case poolPtr of Some q \<Rightarrow> q | None \<Rightarrow> defaultPtr, s'))"

definition neededAdditionalConnectionThreads :: "bool \<Rightarrow> ConnPool \<Rightarrow> bool" where
  "neededAdditionalConnectionThreads shut p \<longleftrightarrow>
     (if (t_creating p = 0 \<or> wait_num p > highwatermark p)
         \<and> (t_current p < t_min p \<or> wait_num p > lowwatermark p)
         \<and> t_current p < t_max p
      then \<not> shut
      else False)"

definition NsQueueConn_alloc :: "ConnPool \<Rightarrow> nat option \<times> ConnPool" where
  "NsQueueConn_alloc p =
     (case freePtr p of
        None \<Rightarrow> (None, p)
      | Some c \<Rightarrow> (Some c, set_conn c (\<lambda>x. x\<lparr>c_nextPtr := None\<rparr>) (p\<lparr>freePtr := cnext p c\<rparr>)))"

definition NsQueueConn_init ::
    "ns_time \<Rightarrow> nat \<Rightarrow> Sock \<Rightarrow> nat \<Rightarrow> NsServer \<Rightarrow> ConnPool \<Rightarrow> Sock \<times> NsServer \<times> ConnPool" where
  "NsQueueConn_init now i s c srv p =
     (let p1 = set_conn c (\<lambda>x. x\<lparr>
                 c_id := nextconnid srv,
                 c_requestQueueTime := now,
                 c_sockPtr := Some i,
                 c_drvPtr := s_drvPtr s,
                 c_location := s_location s,
                 c_flags := s_flags s AND NOT NS_CONN_DELIVERY_TRACKED,
                 c_acceptTime := (if s_opts s AND NS_DRIVER_ASYNC = 0 then now else s_acceptTime s),
                 c_rateLimit := defaultConnectionLimit p\<rparr>)
               (p\<lparr>st_processed := st_processed p + 1\<rparr>);
          s1 = s\<lparr>
                 s_acceptTime := (s_acceptTime s)\<lparr>sec := 0\<rparr>,
                 s_location := None,
                 s_flags := (if s_opts s AND NS_DRIVER_QUIC \<noteq> 0
                             then s_flags s AND NS_CONN_DELIVERY_TRACKED else 0)\<rparr>
      in (s1, srv\<lparr>nextconnid := nextconnid srv + 1\<rparr>, p1))"

definition NsQueueConn_claim :: "ConnPool \<Rightarrow> nat option \<times> ConnPool" where
  "NsQueueConn_claim p =
     (case tq_nextPtr p of
        None \<Rightarrow> (None, p)
      | Some a \<Rightarrow> (Some a, p\<lparr>tq_nextPtr := anext p a\<rparr>))"

definition NsQueueConn_assign :: "nat \<Rightarrow> nat \<Rightarrow> ConnPool \<Rightarrow> ConnPool" where
  "NsQueueConn_assign a c p = set_arg a (\<lambda>x. x\<lparr>a_connPtr := Some c\<rparr>) p"

definition NsQueueConn_append :: "nat \<Rightarrow> ConnPool \<Rightarrow> ConnPool option" where
  "NsQueueConn_append c p =
     (let linked = (case firstPtr p of
                      None \<Rightarrow> Some (p\<lparr>firstPtr := Some c\<rparr>)
                    | Some f \<Rightarrow> (case lastPtr p of
                                  None \<Rightarrow> None
                                | Some l \<Rightarrow> Some (set_conn l (\<lambda>x. x\<lparr>c_nextPtr := Some c\<rparr>) p)))
      in map_option (\<lambda>q. q\<lparr>lastPtr := Some c, wait_num := wait_num q + 1, st_queued := st_queued q + 1\<rparr>)
           linked)"

definition NsQueueConn_full :: "ns_time \<Rightarrow> Sock \<Rightarrow> ConnPool \<Rightarrow> Ns_ReturnCode \<times> Sock \<times> ConnPool" where
  "NsQueueConn_full now s p =
     (if s_flags s AND NS_CONN_SOCK_WAITING = 0 then
        let s1 = s\<lparr>s_flags := s_flags s OR NS_CONN_SOCK_WAITING\<rparr>;
            logFullNotice = (sec (fullNoticeTime p) = 0
               \<or> sec (snd (Ns_DiffTime now (fullNoticeTime p))) \<ge> NS_POOL_FULL_NOTICE_INTERVAL_SEC);
            p1 = (if logFullNotice then p\<lparr>fullNoticeSuppressed := 0, fullNoticeTime := now\<rparr>
                  else p\<lparr>fullNoticeSuppressed := fullNoticeSuppressed p + 1\<rparr>)
        in if rejectoverrun p then (NS_ERROR, s1, p1\<lparr>st_dropped := st_dropped p1 + 1\<rparr>)
           else (NS_TIMEOUT, s1, p1)
      else (NS_TIMEOUT, s, p))"

definition NsQueueConn_count :: "ConnPool \<Rightarrow> ConnPool" where
  "NsQueueConn_count p = p\<lparr>t_current := t_current p + 1, t_creating := t_creating p + 1\<rparr>"

subsection \<open>Creating threads\<close>

definition CreateConnThread_slot :: "ConnPool \<Rightarrow> nat option \<times> ConnPool" where
  "CreateConnThread_slot p =
     (case find (\<lambda>i. a_state (args p i) = connThread_free) [0..<nat (t_max p)] of
        Some a \<Rightarrow> (Some a, set_arg a (\<lambda>x. x\<lparr>a_state := connThread_initial\<rparr>)
                             (p\<lparr>st_connthreads := st_connthreads p + 1\<rparr>))
      | None \<Rightarrow> (None, p))"

definition CreateConnThread_start :: "nat \<Rightarrow> ConnPool \<Rightarrow> ConnPool" where
  "CreateConnThread_start a p = set_arg a (\<lambda>x. x\<lparr>a_connPtr := None, a_nextPtr := None\<rparr>) p"

definition CreateConnThread_undo :: "ConnPool \<Rightarrow> ConnPool" where
  "CreateConnThread_undo p = p\<lparr>t_current := t_current p - 1, t_creating := t_creating p - 1\<rparr>"

text \<open>The whole function; the first result is the slot of the thread it starts.\<close>

definition CreateConnThread :: "ConnPool \<Rightarrow> nat option \<times> ConnPool" where
  "CreateConnThread p =
     (case CreateConnThread_slot p of
        (Some a, q) \<Rightarrow> (Some a, CreateConnThread_start a q)
      | (None, q) \<Rightarrow> (None, CreateConnThread_undo q))"

definition NsEnsureRunningConnectionThreads_check :: "bool \<Rightarrow> ConnPool \<Rightarrow> bool \<times> ConnPool" where
  "NsEnsureRunningConnectionThreads_check shut p =
     (if neededAdditionalConnectionThreads shut p
      then (True, p\<lparr>t_current := t_current p + 1, t_creating := t_creating p + 1\<rparr>)
      else (False, p))"

definition NsEnsureRunningConnectionThreads :: "bool \<Rightarrow> ConnPool \<Rightarrow> nat option \<times> ConnPool" where
  "NsEnsureRunningConnectionThreads shut p =
     (case NsEnsureRunningConnectionThreads_check shut p of
        (True, q) \<Rightarrow> CreateConnThread q
      | (False, q) \<Rightarrow> (None, q))"

text \<open>
  \<^verbatim>\<open>NsQueueConn\<close> on the selected pool, as one piece: the result code, the started thread, and the new
  socket, server and pool.
\<close>

definition NsQueueConn_create ::
    "bool \<Rightarrow> Ns_ReturnCode \<Rightarrow> Sock \<Rightarrow> NsServer \<Rightarrow> ConnPool \<Rightarrow>
     Ns_ReturnCode \<times> nat option \<times> Sock \<times> NsServer \<times> ConnPool" where
  "NsQueueConn_create create r s srv p =
     (if create then (let (t, q) = CreateConnThread (NsQueueConn_count p) in (r, t, s, srv, q))
      else (r, None, s, srv, p))"

definition NsQueueConn ::
    "ns_time \<Rightarrow> nat \<Rightarrow> Sock \<Rightarrow> NsServer \<Rightarrow> ConnPool \<Rightarrow>
     (Ns_ReturnCode \<times> nat option \<times> Sock \<times> NsServer \<times> ConnPool) option" where
  "NsQueueConn now i s srv p =
     (if shutdown srv then Some (NS_ERROR, None, s, srv, p)
      else case NsQueueConn_alloc p of
        (None, p1) \<Rightarrow> (case NsQueueConn_full now s p1 of (r, s1, p2) \<Rightarrow> Some (r, None, s1, srv, p2))
      | (Some c, p1) \<Rightarrow>
          (case NsQueueConn_init now i s c srv p1 of (s1, srv1, p2) \<Rightarrow>
             (case NsQueueConn_claim p2 of
                (Some a, p3) \<Rightarrow>
                   let p4 = NsQueueConn_assign a c p3
                   in Some (NsQueueConn_create (neededAdditionalConnectionThreads (shutdown srv1) p4) NS_OK s1 srv1 p4)
              | (None, p3) \<Rightarrow>
                   (case NsQueueConn_append c p3 of
                      None \<Rightarrow> None
                    | Some p4 \<Rightarrow>
                        Some (NsQueueConn_create (neededAdditionalConnectionThreads (shutdown srv1) p4) NS_OK s1 srv1 p4)))))"

subsection \<open>A connection thread\<close>

text \<open>
  The places of \<^verbatim>\<open>NsConnThread\<close> between its sections, in the order of the code. \<open>T_none\<close>: no thread
  uses the slot.
\<close>

datatype tpc =
    T_none | T_warmup | T_register | T_ready | T_top | T_take | T_got | T_idle | T_park | T_check
  | T_wait | T_left | T_unlink | T_busy | T_unidle | T_decide | T_fetch | T_serve | T_finish
  | T_detach | T_free | T_quota | T_dead | T_leave | T_exit

text \<open>The local variables \<^verbatim>\<open>connPtr\<close>, \<^verbatim>\<open>ncons\<close>, \<^verbatim>\<open>status\<close> and \<^verbatim>\<open>threadId\<close>.\<close>

record ConnThread =
  t_pc :: tpc
  t_connPtr :: "nat option"
  t_ncons :: int
  t_status :: Ns_ReturnCode
  t_id :: "64 word"

definition set_state :: "nat \<Rightarrow> ConnThreadState \<Rightarrow> ConnPool \<Rightarrow> ConnPool" where
  "set_state a st p = set_arg a (\<lambda>x. x\<lparr>a_state := st\<rparr>) p"

definition NsConnThread_register :: "ConnPool \<Rightarrow> 64 word \<times> ConnPool" where
  "NsConnThread_register p =
     (nextid p,
      p\<lparr>nextid := nextid p + 1, t_creating := (if t_creating p > 0 then t_creating p - 1 else t_creating p)\<rparr>)"

text \<open>Pull the first connection of the waiting queue, if there still is one.\<close>

definition NsConnThread_take :: "ConnPool \<Rightarrow> nat option \<times> ConnPool" where
  "NsConnThread_take p =
     (case firstPtr p of
        None \<Rightarrow> (None, p)
      | Some c \<Rightarrow>
          (Some c,
           set_conn c (\<lambda>x. x\<lparr>c_nextPtr := None\<rparr>)
             (p\<lparr>firstPtr := cnext p c,
                lastPtr := (if lastPtr p = Some c then None else lastPtr p),
                wait_num := wait_num p - 1\<rparr>)))"

definition NsConnThread_got :: "nat \<Rightarrow> nat option \<Rightarrow> ConnPool \<Rightarrow> ConnPool" where
  "NsConnThread_got a c p = set_arg a (\<lambda>x. x\<lparr>a_connPtr := c\<rparr>) p"

definition NsConnThread_idle :: "int \<Rightarrow> ConnPool \<Rightarrow> ConnPool" where
  "NsConnThread_idle d p = p\<lparr>t_idle := t_idle p + d\<rparr>"

text \<open>Enter the thread queue at its front.\<close>

definition NsConnThread_park :: "nat \<Rightarrow> ConnPool \<Rightarrow> ConnPool" where
  "NsConnThread_park a p =
     (set_arg a (\<lambda>x. x\<lparr>a_state := connThread_idle, a_nextPtr := tq_nextPtr p\<rparr>) p)\<lparr>tq_nextPtr := Some a\<rparr>"

text \<open>
  The return of \<^verbatim>\<open>Ns_CondTimedWait\<close> in the idle loop, with the status it returns: the new status, and
  whether the thread leaves the loop.
\<close>

definition NsConnThread_woken :: "Ns_ReturnCode \<Rightarrow> nat \<Rightarrow> ConnPool \<Rightarrow> Ns_ReturnCode \<times> bool" where
  "NsConnThread_woken status a p =
     (if status = NS_TIMEOUT then
        if a_connPtr (args p a) \<noteq> None then (NS_OK, True)
        else if t_current p \<le> t_min p then (status, False)
        else (status, True)
      else (status, a_connPtr (args p a) \<noteq> None))"

text \<open>
  Take the own entry out of the thread queue. \<open>prev\<close> is the entry whose \<^verbatim>\<open>nextPtr\<close> the loop variable
  \<^verbatim>\<open>prevPtr\<close> points to, \<open>None\<close> for the head of the queue; \<open>None\<close> as a result: the fuel is used up.
\<close>

fun unlink_loop :: "nat \<Rightarrow> nat option \<Rightarrow> nat option \<Rightarrow> nat \<Rightarrow> ConnPool \<Rightarrow> ConnPool option" where
  "unlink_loop n prev None a p = Some p"
| "unlink_loop 0 prev (Some x) a p = None"
| "unlink_loop (Suc n) prev (Some x) a p =
     (if x = a then
        Some (set_arg a (\<lambda>y. y\<lparr>a_nextPtr := None\<rparr>)
          (case prev of
             None \<Rightarrow> p\<lparr>tq_nextPtr := anext p x\<rparr>
           | Some z \<Rightarrow> set_arg z (\<lambda>y. y\<lparr>a_nextPtr := anext p x\<rparr>) p))
      else unlink_loop n (Some x) (anext p x) a p)"

definition NsConnThread_unlink :: "nat \<Rightarrow> ConnPool \<Rightarrow> ConnPool option" where
  "NsConnThread_unlink a p =
     map_option (set_state a connThread_busy) (unlink_loop (maxconns p) None (tq_nextPtr p) a p)"

definition NsConnThread_finish :: "nat \<Rightarrow> nat \<Rightarrow> ConnPool \<Rightarrow> ConnPool" where
  "NsConnThread_finish a c p =
     set_state a connThread_ready
       (set_conn c (\<lambda>x. x\<lparr>c_flags := c_flags x AND NOT NS_CONN_CONFIGURED\<rparr>) p)"

definition NsConnThread_detach :: "nat \<Rightarrow> nat \<Rightarrow> ConnPool \<Rightarrow> ConnPool" where
  "NsConnThread_detach a c p =
     (let p1 = set_arg a (\<lambda>x. x\<lparr>a_connPtr := None\<rparr>) p;
          p2 = (case c_prevPtr (conns p1 c) of
                  Some v \<Rightarrow> set_conn v (\<lambda>x. x\<lparr>c_nextPtr := cnext p1 c\<rparr>) p1
                | None \<Rightarrow> p1);
          p3 = (case cnext p2 c of
                  Some n \<Rightarrow> set_conn n (\<lambda>x. x\<lparr>c_prevPtr := c_prevPtr (conns p2 c)\<rparr>) p2
                | None \<Rightarrow> p2)
      in set_conn c (\<lambda>x. x\<lparr>c_prevPtr := None\<rparr>) p3)"

definition NsConnThread_free :: "nat \<Rightarrow> ConnPool \<Rightarrow> ConnPool" where
  "NsConnThread_free c p = (set_conn c (\<lambda>x. x\<lparr>c_nextPtr := freePtr p\<rparr>) p)\<lparr>freePtr := Some c\<rparr>"

text \<open>
  After a request: the new \<^verbatim>\<open>ncons\<close>, and whether the thread ends because it has served its share.
\<close>

definition NsConnThread_quota :: "int \<Rightarrow> ConnPool \<Rightarrow> int \<times> bool" where
  "NsConnThread_quota ncons p =
     (if connsperthread p > 0 then
        let n = ncons - 1 in
        if wait_num p > 0 \<and> (n > 0 \<or> wait_num p > lowwatermark p \<or> t_current p \<le> 1) then (n, False)
        else (n, n \<le> 0)
      else (ncons, False))"

text \<open>The end of a thread: it gives up its place, and asks for a wakeup of the driver when threads run short.\<close>

definition NsConnThread_leave :: "ConnPool \<Rightarrow> bool \<times> ConnPool" where
  "NsConnThread_leave p = (t_current p - 1 < t_min p, p\<lparr>t_current := t_current p - 1\<rparr>)"

subsection \<open>Pools\<close>

text \<open>
  The pool as \<^verbatim>\<open>CreatePool\<close> of \<^verbatim>\<open>server.c\<close> builds it, from the configured numbers; the marks are
  given in percent of the part of the queue that exceeds the threads.
\<close>

record pool_config =
  cf_maxconnections :: nat
  cf_connsperthread :: int
  cf_maxthreads :: int
  cf_minthreads :: int
  cf_rejectoverrun :: bool
  cf_connectionratelimit :: int
  cf_highwatermark :: int
  cf_lowwatermark :: int

definition config_ok :: "pool_config \<Rightarrow> bool" where
  "config_ok cf \<longleftrightarrow> 1 \<le> cf_maxconnections cf \<and> 0 \<le> cf_connsperthread cf
     \<and> 0 \<le> cf_maxthreads cf \<and> cf_maxthreads cf \<le> int (cf_maxconnections cf)
     \<and> 1 \<le> cf_minthreads cf \<and> cf_minthreads cf \<le> cf_maxthreads cf
     \<and> 0 \<le> cf_connectionratelimit cf
     \<and> 0 \<le> cf_highwatermark cf \<and> cf_highwatermark cf \<le> 100
     \<and> 0 \<le> cf_lowwatermark cf \<and> cf_lowwatermark cf \<le> 100"

definition zero_conn :: Conn where
  "zero_conn = \<lparr>c_prevPtr = None, c_nextPtr = None, c_id = 0, c_sockPtr = None, c_drvPtr = 0, c_location = None,
     c_flags = 0, c_acceptTime = mk_time 0 0, c_requestQueueTime = mk_time 0 0, c_rateLimit = 0\<rparr>"

definition zero_arg :: ConnThreadArg where
  "zero_arg = \<lparr>a_connPtr = None, a_nextPtr = None, a_state = connThread_free\<rparr>"

definition CreatePool :: "pool_config \<Rightarrow> ConnPool" where
  "CreatePool cf =
     (let m = cf_maxconnections cf; queueLength = int m - cf_maxthreads cf
      in \<lparr>freePtr = Some 0, maxconns = m, firstPtr = None, lastPtr = None, wait_num = 0,
          fullNoticeTime = mk_time 0 0, fullNoticeSuppressed = 0,
          lowwatermark = (queueLength * cf_lowwatermark cf) sdiv 100,
          highwatermark = (queueLength * cf_highwatermark cf) sdiv 100,
          rejectoverrun = cf_rejectoverrun cf, nextid = 0,
          t_min = cf_minthreads cf, t_max = cf_maxthreads cf, t_current = 0, t_idle = 0,
          connsperthread = cf_connsperthread cf, t_creating = 0, tq_nextPtr = None,
          args = (\<lambda>_. zero_arg),
          conns = (\<lambda>n. if n + 1 < m then zero_conn\<lparr>c_nextPtr := Some (n + 1), c_rateLimit := cf_connectionratelimit cf\<rparr>
                       else zero_conn),
          st_processed = 0, st_queued = 0, st_dropped = 0, st_connthreads = 0,
          defaultConnectionLimit = cf_connectionratelimit cf\<rparr>)"

text \<open>\<^verbatim>\<open>NsStartServer\<close> for one pool: the started slots and the pool.\<close>

primrec start_threads :: "nat \<Rightarrow> ConnPool \<Rightarrow> nat list \<times> ConnPool" where
  "start_threads 0 p = ([], p)"
| "start_threads (Suc n) p =
     (case CreateConnThread p of (t, q) \<Rightarrow>
        (case start_threads n q of (ts, r) \<Rightarrow> ((case t of Some a \<Rightarrow> a # ts | None \<Rightarrow> ts), r)))"

definition NsStartServer :: "ConnPool \<Rightarrow> nat list \<times> ConnPool" where
  "NsStartServer p = start_threads (nat (t_min p)) (p\<lparr>t_idle := 0, t_current := t_min p, t_creating := t_min p\<rparr>)"

text \<open>
  \<^verbatim>\<open>WakeupConnThreads\<close>: the slots that are signalled; the assertion of its loop is \<open>wakeup_asserted\<close>.
  \<^verbatim>\<open>ns_server maxthreads\<close> and \<^verbatim>\<open>minthreads\<close> change the limits of a pool at run time, within bounds.
\<close>

definition WakeupConnThreads :: "ConnPool \<Rightarrow> nat list" where
  "WakeupConnThreads p = filter (\<lambda>i. a_state (args p i) = connThread_idle) [0..<nat (t_max p)]"

definition wakeup_asserted :: "ConnPool \<Rightarrow> bool" where
  "wakeup_asserted p \<longleftrightarrow> list_all (\<lambda>i. a_connPtr (args p i) = None) (WakeupConnThreads p)"

definition ServerMaxThreadsObjCmd :: "int \<Rightarrow> ConnPool \<Rightarrow> ConnPool option" where
  "ServerMaxThreadsObjCmd v p =
     (if t_min p \<le> v \<and> v \<le> int (maxconns p) then Some (p\<lparr>t_max := v\<rparr>) else None)"

definition ServerMinThreadsObjCmd :: "int \<Rightarrow> ConnPool \<Rightarrow> ConnPool option" where
  "ServerMinThreadsObjCmd v p = (if 1 \<le> v \<and> v \<le> t_max p then Some (p\<lparr>t_min := v\<rparr>) else None)"

text \<open>
  The connections \<^verbatim>\<open>ns_server active\<close> and \<^verbatim>\<open>ns_server queued\<close> report: \<^verbatim>\<open>AppendConnList\<close> follows the next pointers,
  here for at most as many steps as there are connections.
\<close>

fun AppendConnList :: "nat \<Rightarrow> ConnPool \<Rightarrow> nat option \<Rightarrow> nat list option" where
  "AppendConnList n p None = Some []"
| "AppendConnList 0 p (Some c) = None"
| "AppendConnList (Suc n) p (Some c) = map_option ((#) c) (AppendConnList n p (cnext p c))"

definition ServerListQueued :: "ConnPool \<Rightarrow> nat list option" where
  "ServerListQueued p = AppendConnList (maxconns p) p (firstPtr p)"

primrec list_active :: "nat list \<Rightarrow> ConnPool \<Rightarrow> nat list option" where
  "list_active [] p = Some []"
| "list_active (i # is) p =
     (case (case a_connPtr (args p i) of None \<Rightarrow> Some [] | Some c \<Rightarrow> AppendConnList (maxconns p) p (Some c)) of
        None \<Rightarrow> None
      | Some xs \<Rightarrow> map_option ((@) xs) (list_active is p))"

definition ServerListActive :: "ConnPool \<Rightarrow> nat list option" where
  "ServerListActive p = list_active [0..<nat (t_max p)] p"

subsection \<open>The lists of a pool\<close>

text \<open>
  The free list holds \<open>fs\<close> and the waiting queue holds \<open>ws\<close>, each connection at most once; the tail
  pointer and the length of the waiting queue are right.
\<close>

definition queues :: "ConnPool \<Rightarrow> nat list \<Rightarrow> nat list \<Rightarrow> bool" where
  "queues p fs ws \<longleftrightarrow>
     links (cnext p) (freePtr p) fs None \<and> links (cnext p) (firstPtr p) ws None
     \<and> distinct (fs @ ws) \<and> set fs \<union> set ws \<subseteq> {..<maxconns p}
     \<and> lastPtr p = (if ws = [] then None else Some (last ws)) \<and> wait_num p = int (length ws)"

text \<open>
  In addition each holder \<open>h\<close> (a driver or a thread) holds the connections \<open>H h\<close>; they are in no list, in no
  other hands, and point to no successor.
\<close>

definition own :: "ConnPool \<Rightarrow> nat list \<Rightarrow> nat list \<Rightarrow> ('h \<Rightarrow> nat set) \<Rightarrow> bool" where
  "own p fs ws H \<longleftrightarrow>
     queues p fs ws \<and> (\<forall>c. c_prevPtr (conns p c) = None)
     \<and> (\<forall>h. \<forall>c\<in>H h. c < maxconns p \<and> c \<notin> set fs \<and> c \<notin> set ws \<and> cnext p c = None)
     \<and> (\<forall>h k c. c \<in> H h \<longrightarrow> c \<in> H k \<longrightarrow> h = k)"

lemma ownI:
  assumes "queues p fs ws" "\<And>c. c_prevPtr (conns p c) = None"
    and "\<And>h c. c \<in> H h \<Longrightarrow> c < maxconns p \<and> c \<notin> set fs \<and> c \<notin> set ws \<and> cnext p c = None"
    and "\<And>h k c. c \<in> H h \<Longrightarrow> c \<in> H k \<Longrightarrow> h = k"
  shows "own p fs ws H"
  using assms unfolding own_def by blast

lemma ownD:
  assumes "own p fs ws H"
  shows "queues p fs ws" "c_prevPtr (conns p c) = None"
    and "c \<in> H h \<Longrightarrow> c < maxconns p \<and> c \<notin> set fs \<and> c \<notin> set ws \<and> cnext p c = None"
    and "c \<in> H h \<Longrightarrow> c \<in> H k \<Longrightarrow> h = k"
  using assms unfolding own_def by blast+

named_theorems section_defs "the definitions of the sections of the connection queue"

lemmas [section_defs] =
  set_arg_def set_conn_def set_state_def NsQueueConn_alloc_def NsQueueConn_init_def NsQueueConn_claim_def
  NsQueueConn_assign_def NsQueueConn_append_def NsQueueConn_full_def NsQueueConn_count_def
  CreateConnThread_slot_def CreateConnThread_start_def CreateConnThread_undo_def
  NsEnsureRunningConnectionThreads_check_def NsConnThread_register_def NsConnThread_take_def
  NsConnThread_got_def NsConnThread_idle_def NsConnThread_park_def NsConnThread_woken_def
  NsConnThread_finish_def NsConnThread_free_def
  NsConnThread_quota_def NsConnThread_leave_def

text \<open>The parts of a pool the lists depend on.\<close>

definition same_lists :: "ConnPool \<Rightarrow> ConnPool \<Rightarrow> bool" where
  "same_lists p q \<longleftrightarrow>
     (\<forall>c. cnext q c = cnext p c \<and> c_prevPtr (conns q c) = c_prevPtr (conns p c))
     \<and> freePtr q = freePtr p \<and> firstPtr q = firstPtr p \<and> lastPtr q = lastPtr p
     \<and> wait_num q = wait_num p \<and> maxconns q = maxconns p"

lemma queues_frame: "queues p fs ws \<Longrightarrow> same_lists p q \<Longrightarrow> queues q fs ws"
  using links_cong [of fs "cnext p" "cnext q"] links_cong [of ws "cnext p" "cnext q"]
  by (auto simp: queues_def same_lists_def)

lemma own_frame:
  assumes "own p fs ws H" "same_lists p q" "\<And>h. K h \<subseteq> H h"
  shows "own q fs ws K"
proof (rule ownI)
  show "queues q fs ws" using queues_frame ownD(1) assms(1,2) .
  show "c_prevPtr (conns q c) = None" for c using ownD(2) [OF assms(1)] assms(2) by (simp add: same_lists_def)
  show "c < maxconns q \<and> c \<notin> set fs \<and> c \<notin> set ws \<and> cnext q c = None" if "c \<in> K h" for h c
    using ownD(3) [OF assms(1)] subsetD [OF assms(3) that] assms(2) by (simp add: same_lists_def)
  show "h = k" if "c \<in> K h" "c \<in> K k" for h k c
    using ownD(4) [OF assms(1)] subsetD [OF assms(3)] that by blast
qed

text \<open>A connection passes from one holder to another.\<close>

lemma own_pass:
  assumes "own p fs ws H" "same_lists p q" "h \<noteq> k" "A \<union> B \<subseteq> H h \<union> H k" "A \<inter> B = {}"
  shows "own q fs ws (H(h := A, k := B))"
proof (rule own_frame [OF _ assms(2) order_refl])
  let ?H = "H(h := A, k := B)"
  note d = ownD(4) [OF assms(1)]
  have in_hk: "c \<in> H h \<union> H k" if "c \<in> A \<union> B" for c using that assms(4) by blast
  show "own p fs ws ?H"
  proof (rule ownI)
    show "c < maxconns p \<and> c \<notin> set fs \<and> c \<notin> set ws \<and> cnext p c = None" if "c \<in> ?H x" for x c
    proof -
      have "\<exists>z. c \<in> H z" using that in_hk by (auto split: if_splits)
      then show ?thesis using ownD(3) [OF assms(1)] by blast
    qed
    show "x = y" if x: "c \<in> ?H x" and y: "c \<in> ?H y" for x y c
    proof (cases "c \<in> A \<union> B")
      case True
      then have "\<And>z. c \<in> H z \<Longrightarrow> z = h \<or> z = k" using in_hk d by blast
      then have "x \<in> {h, k}" "y \<in> {h, k}" using x y by (auto split: if_splits)
      then show ?thesis using x y assms(3,5) by (auto split: if_splits)
    next
      case False
      then show ?thesis using x y d by (auto split: if_splits)
    qed
  qed (use ownD [OF assms(1)] in auto)
qed

lemma queues_empty: "queues p fs ws \<Longrightarrow> freePtr p = None \<longleftrightarrow> fs = []" "queues p fs ws \<Longrightarrow> firstPtr p = None \<longleftrightarrow> ws = []"
  by (cases fs; auto simp: queues_def) (cases ws; auto simp: queues_def)

lemma cnext_set_conn [simp]:
  "(\<lambda>x. cnext (set_conn c (\<lambda>r. r\<lparr>c_nextPtr := v\<rparr>) p) x) = (\<lambda>x. cnext p x)(c := v)"
  by (auto simp: set_conn_def)

lemma own_alloc:
  assumes "own p fs ws H" "NsQueueConn_alloc p = (Some c, q)" "H h = {}"
  shows "fs \<noteq> [] \<and> c = hd fs \<and> own q (tl fs) ws (H(h := {c}))"
proof -
  from assms(2) have f: "freePtr p = Some c" by (auto simp: NsQueueConn_alloc_def split: option.splits)
  then obtain gs where fs: "fs = c # gs" "links (cnext p) (cnext p c) gs None"
    using assms(1) by (auto simp: own_def queues_def dest: links_SomeD)
  have q: "q = set_conn c (\<lambda>x. x\<lparr>c_nextPtr := None\<rparr>) (p\<lparr>freePtr := cnext p c\<rparr>)"
    using assms(2) f by (simp add: NsQueueConn_alloc_def)
  have nx: "cnext q = (cnext p)(c := None)" and at: "\<And>x. cnext q x = (if x = c then None else cnext p x)"
      and sel: "freePtr q = cnext p c" "firstPtr q = firstPtr p"
      "lastPtr q = lastPtr p" "wait_num q = wait_num p" "maxconns q = maxconns p"
      "\<And>x. c_prevPtr (conns q x) = c_prevPtr (conns p x)"
    by (auto simp: q set_conn_def)
  have "queues q gs ws" using assms(1) fs by (auto simp: own_def queues_def nx sel)
  then show ?thesis using assms(1,3) fs unfolding own_def at sel by (auto simp: queues_def)
qed

lemma own_append:
  assumes "own p fs ws H" "H h = {c}"
  shows "\<exists>q. NsQueueConn_append c p = Some q \<and> own q fs (ws @ [c]) (H(h := {}))"
proof -
  have c: "c < maxconns p" "c \<notin> set fs" "c \<notin> set ws" "cnext p c = None" and others: "\<And>k. k \<noteq> h \<Longrightarrow> c \<notin> H k"
    using assms unfolding own_def by (blast, blast, blast, blast, blast)
  have ld: "links (cnext p) (firstPtr p) ws None" "distinct ws" "links (cnext p) (freePtr p) fs None"
    using assms(1) by (auto simp: own_def queues_def)
  define r where "r = (if ws = [] then p\<lparr>firstPtr := Some c\<rparr> else set_conn (last ws) (\<lambda>x. x\<lparr>c_nextPtr := Some c\<rparr>) p)"
  define q where "q = r\<lparr>lastPtr := Some c, wait_num := wait_num r + 1, st_queued := st_queued r + 1\<rparr>"
  have ap: "NsQueueConn_append c p = Some q"
    using assms(1) queues_empty(2) [of p fs ws] by (auto simp: NsQueueConn_append_def q_def r_def own_def queues_def split: option.splits)
  have sel: "freePtr q = freePtr p" "maxconns q = maxconns p" "lastPtr q = Some c" "wait_num q = wait_num p + 1"
      "\<And>x. c_prevPtr (conns q x) = c_prevPtr (conns p x)"
      "firstPtr q = (if ws = [] then Some c else firstPtr p)"
      "cnext q = (if ws = [] then cnext p else (cnext p)(last ws := Some c))"
    and at: "\<And>x. cnext q x = (if ws \<noteq> [] \<and> x = last ws then Some c else cnext p x)"
    by (auto simp: q_def r_def set_conn_def)
  have notin: "last ws \<notin> set fs" if "ws \<noteq> []"
    using assms(1) last_in_set [OF that] by (auto simp: own_def queues_def)
  have "links (cnext q) (firstPtr q) (ws @ [c]) None"
    using links_snoc [OF ld(1)] ld(2) c(3,4) by (auto simp: sel)
  moreover have "links (cnext q) (freePtr q) fs None"
    using ld(3) notin by (auto simp: sel)
  ultimately have "queues q fs (ws @ [c])" using assms(1) c by (auto simp: own_def queues_def sel)
  moreover have "cnext q x = None" if "x \<in> (H(h := {})) k" for x k
  proof -
    have "x \<in> H k" using that by (auto split: if_splits)
    then show ?thesis using ownD(3) [OF assms(1), of x k] last_in_set [of ws] by (auto simp: at)
  qed
  ultimately have "own q fs (ws @ [c]) (H(h := {}))"
    using assms(1) others unfolding own_def by (auto simp: sel(2,5))
  then show ?thesis using ap by blast
qed

lemma own_take:
  assumes "own p fs ws H" "NsConnThread_take p = (Some c, q)"
  shows "ws \<noteq> [] \<and> c = hd ws \<and> own q fs (tl ws) (H(h := insert c (H h)))"
proof -
  from assms(2) have f: "firstPtr p = Some c" by (auto simp: NsConnThread_take_def split: option.splits)
  then obtain vs where ws: "ws = c # vs" "links (cnext p) (cnext p c) vs None"
    using assms(1) by (auto simp: own_def queues_def dest: links_SomeD)
  have q: "q = set_conn c (\<lambda>x. x\<lparr>c_nextPtr := None\<rparr>)
      (p\<lparr>firstPtr := cnext p c, lastPtr := (if lastPtr p = Some c then None else lastPtr p), wait_num := wait_num p - 1\<rparr>)"
    using assms(2) f by (simp add: NsConnThread_take_def)
  have nx: "cnext q = (cnext p)(c := None)" and at: "\<And>x. cnext q x = (if x = c then None else cnext p x)"
      and sel: "freePtr q = freePtr p" "firstPtr q = cnext p c"
      "lastPtr q = (if lastPtr p = Some c then None else lastPtr p)" "wait_num q = wait_num p - 1" "maxconns q = maxconns p"
      "\<And>x. c_prevPtr (conns q x) = c_prevPtr (conns p x)"
    by (auto simp: q set_conn_def)
  have "queues q fs vs" using assms(1) ws last_in_set [of vs] by (auto simp: own_def queues_def nx sel)
  then show ?thesis using assms(1) ws unfolding own_def at sel by (auto simp: queues_def)
qed

lemma own_free:
  assumes "own p fs ws H" "c \<in> H h"
  shows "own (NsConnThread_free c p) (c # fs) ws (H(h := H h - {c}))"
proof -
  let ?q = "NsConnThread_free c p"
  have c: "c < maxconns p" "c \<notin> set fs" "c \<notin> set ws" "cnext p c = None" and others: "\<And>k. k \<noteq> h \<Longrightarrow> c \<notin> H k"
    using assms unfolding own_def by (blast, blast, blast, blast, blast)
  have nx: "cnext ?q = (cnext p)(c := freePtr p)" and at: "\<And>x. cnext ?q x = (if x = c then freePtr p else cnext p x)"
      and sel: "freePtr ?q = Some c" "firstPtr ?q = firstPtr p"
      "lastPtr ?q = lastPtr p" "wait_num ?q = wait_num p" "maxconns ?q = maxconns p"
      "\<And>x. c_prevPtr (conns ?q x) = c_prevPtr (conns p x)"
    by (auto simp: NsConnThread_free_def set_conn_def)
  have "queues ?q (c # fs) ws" using assms(1) c by (auto simp: own_def queues_def nx sel)
  then show ?thesis using assms(1) c others unfolding own_def at sel by (auto split: if_splits)
qed

lemma detach_plain:
  assumes "c_prevPtr (conns p c) = None" "cnext p c = None"
  shows "NsConnThread_detach a c p =
     set_conn c (\<lambda>x. x\<lparr>c_prevPtr := None\<rparr>) (set_arg a (\<lambda>x. x\<lparr>a_connPtr := None\<rparr>) p)"
  using assms by (simp add: NsConnThread_detach_def set_arg_def Let_def)

lemma detach_frame [simp]:
  "args (NsConnThread_detach a c p) = (args p)(a := (args p a)\<lparr>a_connPtr := None\<rparr>)"
  "t_max (NsConnThread_detach a c p) = t_max p" "maxconns (NsConnThread_detach a c p) = maxconns p"
  "t_idle (NsConnThread_detach a c p) = t_idle p" "t_current (NsConnThread_detach a c p) = t_current p"
  "t_creating (NsConnThread_detach a c p) = t_creating p" "t_min (NsConnThread_detach a c p) = t_min p"
  "tq_nextPtr (NsConnThread_detach a c p) = tq_nextPtr p"
  by (simp_all add: NsConnThread_detach_def set_conn_def set_arg_def Let_def split: option.splits)

subsection \<open>The thread queue\<close>

definition thread_queue :: "ConnPool \<Rightarrow> nat list \<Rightarrow> bool" where
  "thread_queue p ts \<longleftrightarrow>
     links (anext p) (tq_nextPtr p) ts None \<and> distinct ts \<and> set ts \<subseteq> {..<maxconns p}"

lemma thread_queue_length: "thread_queue p ts \<Longrightarrow> length ts \<le> maxconns p"
  using distinct_card [of ts] card_mono [of "{..<maxconns p}" "set ts"] by (auto simp: thread_queue_def)

lemma thread_queue_cong:
  "thread_queue p ts \<Longrightarrow> tq_nextPtr q = tq_nextPtr p \<Longrightarrow> maxconns q = maxconns p \<Longrightarrow>
   (\<And>b. b \<in> set ts \<Longrightarrow> anext q b = anext p b) \<Longrightarrow> thread_queue q ts"
  using links_cong [of ts "anext q" "anext p"] by (simp add: thread_queue_def)

lemma thread_queue_claim:
  "thread_queue p ts \<Longrightarrow> NsQueueConn_claim p = (Some a, q) \<Longrightarrow> \<exists>us. ts = a # us \<and> thread_queue q us"
  by (auto simp: thread_queue_def NsQueueConn_claim_def split: option.splits dest: links_SomeD)

lemma thread_queue_park:
  assumes "thread_queue p ts" "a \<notin> set ts" "a < maxconns p"
  shows "thread_queue (NsConnThread_park a p) (a # ts)"
proof -
  have "anext (NsConnThread_park a p) = (anext p)(a := tq_nextPtr p)"
    by (auto simp: NsConnThread_park_def set_arg_def)
  then show ?thesis using assms by (simp add: thread_queue_def NsConnThread_park_def set_arg_def)
qed

text \<open>What leaving the thread queue keeps: everything but the links of the queue.\<close>

definition same_but_links :: "ConnPool \<Rightarrow> ConnPool \<Rightarrow> bool" where
  "same_but_links p q \<longleftrightarrow>
     p\<lparr>tq_nextPtr := None, args := (\<lambda>b. (args p b)\<lparr>a_nextPtr := None\<rparr>)\<rparr> =
     q\<lparr>tq_nextPtr := None, args := (\<lambda>b. (args q b)\<lparr>a_nextPtr := None\<rparr>)\<rparr>"

lemma same_but_links_refl [simp]: "same_but_links p p"
  by (simp add: same_but_links_def)

lemma same_but_linksD:
  assumes "same_but_links p q"
  shows "a_connPtr (args q b) = a_connPtr (args p b)" "a_state (args q b) = a_state (args p b)"
    and "\<exists>h f. q = p\<lparr>tq_nextPtr := h, args := f\<rparr>"
proof -
  let ?k = "\<lambda>r. r\<lparr>tq_nextPtr := None, args := (\<lambda>b. (args r b)\<lparr>a_nextPtr := None\<rparr>)\<rparr>"
  have "args (?k p) b = args (?k q) b" using assms by (simp add: same_but_links_def)
  then have "a_connPtr ((args p b)\<lparr>a_nextPtr := None\<rparr>) = a_connPtr ((args q b)\<lparr>a_nextPtr := None\<rparr>)"
    and "a_state ((args p b)\<lparr>a_nextPtr := None\<rparr>) = a_state ((args q b)\<lparr>a_nextPtr := None\<rparr>)" by simp_all
  then show "a_connPtr (args q b) = a_connPtr (args p b)" "a_state (args q b) = a_state (args p b)" by simp_all
  have "q = (?k q)\<lparr>tq_nextPtr := tq_nextPtr q, args := args q\<rparr>" by simp
  also have "\<dots> = (?k p)\<lparr>tq_nextPtr := tq_nextPtr q, args := args q\<rparr>" using assms by (simp only: same_but_links_def)
  finally show "\<exists>h f. q = p\<lparr>tq_nextPtr := h, args := f\<rparr>" by simp blast
qed

lemma unlink_loop_frame:
  "unlink_loop n prev cur a p = Some q \<Longrightarrow> same_but_links p q"
proof (induction n prev cur a p rule: unlink_loop.induct)
  case (3 n prev x a p)
  show ?case
  proof (cases "x = a")
    case True
    then show ?thesis using 3
      by (cases prev) (auto simp: same_but_links_def set_arg_def fun_eq_iff split: if_splits)
  qed (use 3 in simp)
qed auto

lemma unlink_loop_total:
  assumes "links (anext p) cur ys None" "length ys \<le> n"
  shows "\<exists>q. unlink_loop n prev cur a p = Some q"
  using assms
proof (induction ys arbitrary: n prev cur)
  case (Cons y ys)
  then obtain m where "n = Suc m" "length ys \<le> m" by (cases n) auto
  then show ?case using Cons by auto
qed simp

lemma unlink_loop_correct:
  assumes "links (anext p) (tq_nextPtr p) (xs @ ys) None" "links (anext p) cur ys None" "distinct (xs @ ys)"
    and "a \<notin> set xs" "prev = (if xs = [] then None else Some (last xs))"
    and "unlink_loop n prev cur a p = Some q"
  shows "links (anext q) (tq_nextPtr q) (xs @ remove1 a ys) None"
  using assms
proof (induction ys arbitrary: n prev cur xs)
  case Nil
  then show ?case by (cases n) auto
next
  case (Cons y ys)
  have cur: "cur = Some y" using Cons.prems by simp
  obtain m where n: "n = Suc m" using Cons.prems(6) cur by (cases n) auto
  show ?case
  proof (cases "y = a")
    case False
    have "unlink_loop m (Some y) (anext p y) a p = Some q" using Cons.prems(6) cur n False by simp
    moreover have "links (anext p) (anext p y) ys None" using Cons.prems(2) by simp
    ultimately show ?thesis using Cons.IH [of "xs @ [y]" "anext p y" "Some y" m] Cons.prems False by simp
  next
    case True
    show ?thesis
    proof (cases "xs = []")
      case True
      have q: "tq_nextPtr q = anext p a" "anext q = (anext p)(a := None)"
        using Cons.prems cur n True \<open>y = a\<close> by (auto simp: set_arg_def)
      then show ?thesis using Cons.prems True \<open>y = a\<close> by simp
    next
      case False
      then obtain us z where xs: "xs = us @ [z]" by (cases xs rule: rev_cases) auto
      have q: "tq_nextPtr q = tq_nextPtr p" "anext q = (anext p)(z := anext p a, a := None)"
        using Cons.prems cur n xs \<open>y = a\<close> by (auto simp: set_arg_def)
      have "links ((anext p)(z := anext p a)) (tq_nextPtr p) (us @ z # ys) None"
        using links_bypass [of "anext p" "tq_nextPtr p" us z a ys] Cons.prems xs \<open>y = a\<close> by simp
      then show ?thesis using Cons.prems xs \<open>y = a\<close> unfolding q by simp
    qed
  qed
qed

lemma thread_queue_unlink:
  assumes "thread_queue p ts"
  shows "\<exists>q. NsConnThread_unlink a p = Some q \<and> thread_queue q (remove1 a ts)"
proof -
  have l: "links (anext p) (tq_nextPtr p) ts None" "distinct ts" using assms by (auto simp: thread_queue_def)
  obtain q where q: "unlink_loop (maxconns p) None (tq_nextPtr p) a p = Some q"
    using unlink_loop_total [OF l(1) thread_queue_length [OF assms]] by blast
  have "links (anext q) (tq_nextPtr q) (remove1 a ts) None"
    using unlink_loop_correct [of p "[]" ts "tq_nextPtr p" a None "maxconns p" q] l q by simp
  moreover have "anext (set_state a connThread_busy q) = anext q" by (auto simp: set_state_def set_arg_def)
  moreover have "maxconns q = maxconns p" using same_but_linksD(3) [OF unlink_loop_frame [OF q]] by auto
  ultimately have "thread_queue (set_state a connThread_busy q) (remove1 a ts)"
    using assms set_remove1_subset [of a ts] by (auto simp: thread_queue_def set_state_def set_arg_def)
  then show ?thesis using q by (simp add: NsConnThread_unlink_def)
qed

end
