(* ===== verification/NsQueueRun.thy ===== *)
theory NsQueueRun
  imports NsQueue
begin

text \<open>
  The connection pool in action: any number of drivers (\<^verbatim>\<open>NsQueueConn\<close>,
  \<^verbatim>\<open>NsEnsureRunningConnectionThreads\<close>) and the connection threads (\<^verbatim>\<open>NsConnThread\<close>) run as programs that interleave
  between the sections of \<^verbatim>\<open>NsQueue\<close>, and the server may be stopped. A wait on the condition
  variable of a thread may end at any time, by a wakeup or by a timeout, so signals need no state of
  their own. Serving a request, \<open>run\<close>, is an argument: \<^verbatim>\<open>ConnRun\<close> changes the connection, but not its links.
\<close>

subsection \<open>Drivers and threads as programs\<close>

text \<open>
  The places of a driver, with its local variables: the socket, the connection, the claimed thread
  slot, \<^verbatim>\<open>create\<close> and \<^verbatim>\<open>queued\<close>.
\<close>

datatype dpc =
    D_out
  | D_enter nat
  | D_alloc nat
  | D_init nat nat
  | D_claim nat
  | D_assign nat nat
  | D_needed nat
  | D_append nat
  | D_full nat
  | D_create bool Ns_ReturnCode
  | D_slot Ns_ReturnCode
  | D_start nat Ns_ReturnCode
  | D_undo Ns_ReturnCode
  | D_ret Ns_ReturnCode
  | D_ensure

record queue_sys =
  pool :: ConnPool
  srv :: NsServer
  threads :: "nat \<Rightarrow> ConnThread"
  drivers :: "nat \<Rightarrow> dpc"
  socks :: "nat \<Rightarrow> Sock"

definition go_driver :: "nat \<Rightarrow> dpc \<Rightarrow> ConnPool \<Rightarrow> queue_sys \<Rightarrow> queue_sys" where
  "go_driver d pc p s = s\<lparr>pool := p, drivers := (drivers s)(d := pc)\<rparr>"

definition go_thread :: "nat \<Rightarrow> ConnThread \<Rightarrow> ConnPool \<Rightarrow> queue_sys \<Rightarrow> queue_sys" where
  "go_thread a t p s = s\<lparr>pool := p, threads := (threads s)(a := t)\<rparr>"

definition new_thread :: ConnThread where
  "new_thread = \<lparr>t_pc = T_warmup, t_connPtr = None, t_ncons = 0, t_status = NS_OK, t_id = 0\<rparr>"

definition Driver_step :: "ns_time \<Rightarrow> nat \<Rightarrow> queue_sys \<Rightarrow> queue_sys option" where
  "Driver_step now d s =
     (let p = pool s; down = shutdown (srv s) in
      case drivers s d of
        D_out \<Rightarrow> None
      | D_enter i \<Rightarrow> Some (go_driver d (if down then D_ret NS_ERROR else D_alloc i) p s)
      | D_alloc i \<Rightarrow>
          (case NsQueueConn_alloc p of
             (Some c, q) \<Rightarrow> Some (go_driver d (D_init i c) q s)
           | (None, q) \<Rightarrow> Some (go_driver d (D_full i) q s))
      | D_init i c \<Rightarrow>
          (case NsQueueConn_init now i (socks s i) c (srv s) p of (sk, sv, q) \<Rightarrow>
             Some (go_driver d (D_claim c) q (s\<lparr>srv := sv, socks := (socks s)(i := sk)\<rparr>)))
      | D_claim c \<Rightarrow>
          (case NsQueueConn_claim p of
             (Some a, q) \<Rightarrow> Some (go_driver d (D_assign c a) q s)
           | (None, q) \<Rightarrow> Some (go_driver d (D_append c) q s))
      | D_assign c a \<Rightarrow> Some (go_driver d (D_needed a) (NsQueueConn_assign a c p) s)
      | D_needed a \<Rightarrow> Some (go_driver d (D_create (neededAdditionalConnectionThreads down p) NS_OK) p s)
      | D_append c \<Rightarrow>
          map_option (\<lambda>q. go_driver d (D_create (neededAdditionalConnectionThreads down q) NS_OK) q s)
            (NsQueueConn_append c p)
      | D_full i \<Rightarrow>
          (case NsQueueConn_full now (socks s i) p of (r, sk, q) \<Rightarrow>
             Some (go_driver d (D_create False r) q (s\<lparr>socks := (socks s)(i := sk)\<rparr>)))
      | D_create create r \<Rightarrow>
          Some (if create then go_driver d (D_slot r) (NsQueueConn_count p) s else go_driver d (D_ret r) p s)
      | D_slot r \<Rightarrow>
          (case CreateConnThread_slot p of
             (Some a, q) \<Rightarrow> Some (go_driver d (D_start a r) q s)
           | (None, q) \<Rightarrow> Some (go_driver d (D_undo r) q s))
      | D_start a r \<Rightarrow>
          Some (go_driver d (D_ret r) (CreateConnThread_start a p) (s\<lparr>threads := (threads s)(a := new_thread)\<rparr>))
      | D_undo r \<Rightarrow> Some (go_driver d (D_ret r) (CreateConnThread_undo p) s)
      | D_ret r \<Rightarrow> Some (go_driver d D_out p s)
      | D_ensure \<Rightarrow>
          (case NsEnsureRunningConnectionThreads_check down p of
             (True, q) \<Rightarrow> Some (go_driver d (D_slot NS_OK) q s)
           | (False, q) \<Rightarrow> Some (go_driver d (D_ret NS_OK) q s)))"

text \<open>\<open>status\<close> is what \<^verbatim>\<open>Ns_CondTimedWait\<close> returns, when the thread waits.\<close>

definition NsConnThread_step ::
    "(Conn \<Rightarrow> Conn) \<Rightarrow> Ns_ReturnCode \<Rightarrow> nat \<Rightarrow> queue_sys \<Rightarrow> queue_sys option" where
  "NsConnThread_step run status a s =
     (let p = pool s; t = threads s a; down = shutdown (srv s) in
      case t_pc t of
        T_none \<Rightarrow> None
      | T_warmup \<Rightarrow> Some (go_thread a (t\<lparr>t_pc := T_register\<rparr>) (set_state a connThread_warmup p) s)
      | T_register \<Rightarrow>
          (case NsConnThread_register p of (i, q) \<Rightarrow>
             Some (go_thread a (t\<lparr>t_pc := T_ready, t_id := i, t_ncons := connsperthread q\<rparr>) q s))
      | T_ready \<Rightarrow> Some (go_thread a (t\<lparr>t_pc := T_top\<rparr>) (set_state a connThread_ready p) s)
      | T_top \<Rightarrow> Some (go_thread a (t\<lparr>t_pc := (if firstPtr p \<noteq> None then T_take else T_idle)\<rparr>) p s)
      | T_take \<Rightarrow>
          (case NsConnThread_take p of (c, q) \<Rightarrow> Some (go_thread a (t\<lparr>t_pc := T_got, t_connPtr := c\<rparr>) q s))
      | T_got \<Rightarrow>
          Some (go_thread a (t\<lparr>t_pc := (if t_connPtr t = None then T_idle else T_fetch)\<rparr>)
                  (NsConnThread_got a (t_connPtr t) p) s)
      | T_idle \<Rightarrow> Some (go_thread a (t\<lparr>t_pc := T_park\<rparr>) (NsConnThread_idle 1 p) s)
      | T_park \<Rightarrow> Some (go_thread a (t\<lparr>t_pc := T_check\<rparr>) (NsConnThread_park a p) s)
      | T_check \<Rightarrow> Some (go_thread a (t\<lparr>t_pc := (if down then T_left else T_wait)\<rparr>) p s)
      | T_wait \<Rightarrow>
          (case NsConnThread_woken status a p of (st, leave) \<Rightarrow>
             Some (go_thread a (t\<lparr>t_pc := (if leave then T_left else T_check), t_status := st\<rparr>) p s))
      | T_left \<Rightarrow> Some (go_thread a (t\<lparr>t_pc := (if a_connPtr (args p a) = None then T_unlink else T_busy)\<rparr>) p s)
      | T_unlink \<Rightarrow> map_option (\<lambda>q. go_thread a (t\<lparr>t_pc := T_unidle\<rparr>) q s) (NsConnThread_unlink a p)
      | T_busy \<Rightarrow> Some (go_thread a (t\<lparr>t_pc := T_unidle\<rparr>) (set_state a connThread_busy p) s)
      | T_unidle \<Rightarrow> Some (go_thread a (t\<lparr>t_pc := T_decide\<rparr>) (NsConnThread_idle (- 1) p) s)
      | T_decide \<Rightarrow>
          Some (go_thread a (t\<lparr>t_pc := (if down \<or> t_status t = NS_TIMEOUT then T_dead else T_fetch)\<rparr>) p s)
      | T_fetch \<Rightarrow>
          (case a_connPtr (args p a) of
             None \<Rightarrow> None
           | Some c \<Rightarrow> Some (go_thread a (t\<lparr>t_pc := T_serve, t_connPtr := Some c\<rparr>) p s))
      | T_serve \<Rightarrow>
          map_option (\<lambda>c. go_thread a (t\<lparr>t_pc := T_finish\<rparr>) (set_conn c run p) s) (t_connPtr t)
      | T_finish \<Rightarrow>
          map_option (\<lambda>c. go_thread a (t\<lparr>t_pc := T_detach\<rparr>) (NsConnThread_finish a c p) s) (t_connPtr t)
      | T_detach \<Rightarrow>
          map_option (\<lambda>c. go_thread a (t\<lparr>t_pc := T_free\<rparr>) (NsConnThread_detach a c p) s) (t_connPtr t)
      | T_free \<Rightarrow>
          map_option (\<lambda>c. go_thread a (t\<lparr>t_pc := T_quota\<rparr>) (NsConnThread_free c p) s) (t_connPtr t)
      | T_quota \<Rightarrow>
          (case NsConnThread_quota (t_ncons t) p of (n, stop) \<Rightarrow>
             Some (go_thread a (t\<lparr>t_pc := (if stop then T_dead else T_top), t_ncons := n\<rparr>) p s))
      | T_dead \<Rightarrow> Some (go_thread a (t\<lparr>t_pc := T_leave\<rparr>) (set_state a connThread_dead p) s)
      | T_leave \<Rightarrow> (case NsConnThread_leave p of (w, q) \<Rightarrow> Some (go_thread a (t\<lparr>t_pc := T_exit\<rparr>) q s))
      | T_exit \<Rightarrow> Some (go_thread a (t\<lparr>t_pc := T_none\<rparr>) (set_state a connThread_free p) s))"

text \<open>
  What may happen next: a driver calls one of its two functions, a driver or a thread runs its next
  section, the server is stopped.
\<close>

datatype action =
    Arrive nat nat
  | Ensure nat
  | Driver nat ns_time
  | Thread nat Ns_ReturnCode
  | Stop

definition act :: "(Conn \<Rightarrow> Conn) \<Rightarrow> action \<Rightarrow> queue_sys \<Rightarrow> queue_sys option" where
  "act run x s =
     (case x of
        Arrive d i \<Rightarrow> if drivers s d = D_out then Some (go_driver d (D_enter i) (pool s) s) else None
      | Ensure d \<Rightarrow> if drivers s d = D_out then Some (go_driver d D_ensure (pool s) s) else None
      | Driver d now \<Rightarrow> Driver_step now d s
      | Thread a status \<Rightarrow> NsConnThread_step run status a s
      | Stop \<Rightarrow> Some (s\<lparr>srv := (srv s)\<lparr>shutdown := True\<rparr>\<rparr>))"

definition start_sys :: "pool_config \<Rightarrow> (nat \<Rightarrow> Sock) \<Rightarrow> queue_sys" where
  "start_sys cf sk =
     (case NsStartServer (CreatePool cf) of (ts, p) \<Rightarrow>
        \<lparr>pool = p, srv = \<lparr>nextconnid = 0, shutdown = False\<rparr>,
         threads = (\<lambda>a. if a \<in> set ts then new_thread else new_thread\<lparr>t_pc := T_none\<rparr>),
         drivers = (\<lambda>_. D_out), socks = sk\<rparr>)"

text \<open>
  A claim of a thread by a driver and the end of that thread's wait exclude each other: the thread is not
  taken from the queue after it has decided to leave it, and it does not leave while a driver that
  has taken it has not yet stored the connection. The code does not enforce this; the states
  reached under this assumption are \<open>queue_reach False\<close>, all reachable states are \<open>queue_reach True\<close>.
\<close>

definition no_race :: "nat \<Rightarrow> action \<Rightarrow> queue_sys \<Rightarrow> bool" where
  "no_race nd x s \<longleftrightarrow>
     (case x of
        Driver d now \<Rightarrow>
          (case (drivers s d, tq_nextPtr (pool s)) of
             (D_claim c, Some a) \<Rightarrow> t_pc (threads s a) \<in> {T_check, T_wait}
           | _ \<Rightarrow> True)
      | Thread a status \<Rightarrow>
          (t_pc (threads s a) = T_check \<and> shutdown (srv s) \<or> t_pc (threads s a) = T_wait \<and> status = NS_TIMEOUT) \<longrightarrow>
          list_all (\<lambda>d. \<not> (case drivers s d of D_assign c b \<Rightarrow> b = a | _ \<Rightarrow> False)) [0..<nd]
      | _ \<Rightarrow> True)"

text \<open>Drivers are numbered below \<open>nd\<close>; threads only run in the slots of the pool.\<close>

fun actor_ok :: "nat \<Rightarrow> action \<Rightarrow> queue_sys \<Rightarrow> bool" where
  "actor_ok nd (Arrive d i) s \<longleftrightarrow> d < nd"
| "actor_ok nd (Ensure d) s \<longleftrightarrow> d < nd"
| "actor_ok nd (Driver d now) s \<longleftrightarrow> d < nd"
| "actor_ok nd (Thread a st) s \<longleftrightarrow> a < maxconns (pool s) \<and> (st = NS_OK \<or> st = NS_TIMEOUT)"
| "actor_ok nd Stop s \<longleftrightarrow> True"

inductive queue_reach :: "(Conn \<Rightarrow> Conn) \<Rightarrow> nat \<Rightarrow> bool \<Rightarrow> queue_sys \<Rightarrow> queue_sys \<Rightarrow> bool"
  for run nd races s0 where
  start: "queue_reach run nd races s0 s0"
| step: "queue_reach run nd races s0 s \<Longrightarrow> act run x s = Some s' \<Longrightarrow> actor_ok nd x s \<Longrightarrow>
    races \<or> no_race nd x s \<Longrightarrow> queue_reach run nd races s0 s'"

text \<open>A sequence of actions, one after the other.\<close>

primrec acts :: "(Conn \<Rightarrow> Conn) \<Rightarrow> nat \<Rightarrow> bool \<Rightarrow> action list \<Rightarrow> queue_sys \<Rightarrow> queue_sys option" where
  "acts run nd races [] s = Some s"
| "acts run nd races (x # xs) s =
     (if actor_ok nd x s \<and> (races \<or> no_race nd x s)
      then case act run x s of None \<Rightarrow> None | Some s' \<Rightarrow> acts run nd races xs s'
      else None)"

lemma acts_reach:
  "acts run nd races xs s = Some s' \<Longrightarrow> queue_reach run nd races s0 s \<Longrightarrow> queue_reach run nd races s0 s'"
  by (induction xs arbitrary: s) (auto split: option.splits if_splits intro: queue_reach.step)

subsection \<open>Who holds which connection\<close>

fun dheld :: "dpc \<Rightarrow> nat set" where
  "dheld (D_init i c) = {c}"
| "dheld (D_claim c) = {c}"
| "dheld (D_assign c a) = {c}"
| "dheld (D_append c) = {c}"
| "dheld _ = {}"

definition theld :: "ConnThread \<Rightarrow> ConnThreadArg \<Rightarrow> nat set" where
  "theld t arg = set_option (a_connPtr arg) \<union>
     (if t_pc t \<in> {T_got, T_serve, T_finish, T_detach, T_free} then set_option (t_connPtr t) else {})"

fun hold :: "queue_sys \<Rightarrow> nat + nat \<Rightarrow> nat set" where
  "hold s (Inl d) = dheld (drivers s d)"
| "hold s (Inr a) = theld (threads s a) (args (pool s) a)"

text \<open>
  The specification of a pool: connections wander between the free list, a first-in first-out queue
  and the hands of drivers and threads. Only a step that is \<open>lossy\<close> may forget a connection.
\<close>

type_synonym places = "nat list \<times> nat list \<times> (nat + nat \<Rightarrow> nat set)"

inductive pool_spec :: "bool \<Rightarrow> places \<Rightarrow> places \<Rightarrow> bool" for lossy where
  alloc: "H h = {} \<Longrightarrow> pool_spec lossy (c # fs, ws, H) (fs, ws, H(h := {c}))"
| enqueue: "H h = {c} \<Longrightarrow> pool_spec lossy (fs, ws, H) (fs, ws @ [c], H(h := {}))"
| dequeue: "pool_spec lossy (fs, c # ws, H) (fs, ws, H(h := insert c (H h)))"
| release: "c \<in> H h \<Longrightarrow> pool_spec lossy (fs, ws, H) (c # fs, ws, H(h := H h - {c}))"
| pass: "H h = {c} \<Longrightarrow> h \<noteq> k \<Longrightarrow> c \<in> X \<Longrightarrow> X \<subseteq> insert c (H k) \<Longrightarrow> lossy \<or> X = insert c (H k) \<Longrightarrow>
    pool_spec lossy (fs, ws, H) (fs, ws, H(h := {}, k := X))"
| keep: "(\<And>h. K h \<subseteq> H h) \<Longrightarrow> lossy \<or> K = H \<Longrightarrow> pool_spec lossy (fs, ws, H) (fs, ws, K)"

text \<open>The steps that overwrite a pointer to a connection.\<close>

definition discards :: "action \<Rightarrow> queue_sys \<Rightarrow> bool" where
  "discards x s \<longleftrightarrow>
     (case x of
        Driver d now \<Rightarrow>
          (case drivers s d of
             D_assign c a \<Rightarrow> a_connPtr (args (pool s) a) \<noteq> None
           | D_start a r \<Rightarrow> hold s (Inr a) \<noteq> {}
           | _ \<Rightarrow> False)
      | Thread a status \<Rightarrow>
          (case t_pc (threads s a) of
             T_got \<Rightarrow> a_connPtr (args (pool s) a) \<noteq> None
           | T_detach \<Rightarrow> a_connPtr (args (pool s) a) \<noteq> None \<and> a_connPtr (args (pool s) a) \<noteq> t_connPtr (threads s a)
           | _ \<Rightarrow> False)
      | _ \<Rightarrow> False)"

lemma hold_go_driver:
  "(\<And>a. a_connPtr (args q a) = a_connPtr (args (pool s) a)) \<Longrightarrow>
   hold (go_driver d pc q s) = (hold s)(Inl d := dheld pc)"
proof (rule ext)
  fix h assume "\<And>a. a_connPtr (args q a) = a_connPtr (args (pool s) a)"
  then show "hold (go_driver d pc q s) h = ((hold s)(Inl d := dheld pc)) h"
    by (cases h) (auto simp: go_driver_def theld_def)
qed

lemma hold_go_thread:
  "(\<And>b. b \<noteq> a \<Longrightarrow> a_connPtr (args q b) = a_connPtr (args (pool s) b)) \<Longrightarrow>
   hold (go_thread a t q s) = (hold s)(Inr a := theld t (args q a))"
proof (rule ext)
  fix h assume "\<And>b. b \<noteq> a \<Longrightarrow> a_connPtr (args q b) = a_connPtr (args (pool s) b)"
  then show "hold (go_thread a t q s) h = ((hold s)(Inr a := theld t (args q a))) h"
    by (cases h) (auto simp: go_thread_def theld_def)
qed

lemma hold_cong:
  "drivers s' = drivers s \<Longrightarrow> threads s' = threads s \<Longrightarrow>
   (\<And>a. a_connPtr (args (pool s') a) = a_connPtr (args (pool s) a)) \<Longrightarrow> hold s' = hold s"
proof (rule ext)
  fix h assume "drivers s' = drivers s" "threads s' = threads s"
    "\<And>a. a_connPtr (args (pool s') a) = a_connPtr (args (pool s) a)"
  then show "hold s' h = hold s h" by (cases h) (simp_all add: theld_def)
qed

lemma hold_other [simp]: "hold (s\<lparr>srv := x\<rparr>) = hold s" "hold (s\<lparr>socks := y\<rparr>) = hold s"
  by (rule hold_cong; simp)+

lemma pool_go [simp]:
  "pool (go_driver d pc q s) = q" "pool (go_thread a t q s) = q"
  by (simp_all add: go_driver_def go_thread_def)

text \<open>A step of the program is a step of the specification.\<close>

definition refines :: "bool \<Rightarrow> queue_sys \<Rightarrow> queue_sys \<Rightarrow> nat list \<Rightarrow> nat list \<Rightarrow> bool" where
  "refines lossy s s' fs ws \<longleftrightarrow>
     (\<exists>gs vs. own (pool s') gs vs (hold s') \<and> pool_spec lossy (fs, ws, hold s) (gs, vs, hold s'))"

lemma refinesI:
  "own (pool s') gs vs K \<Longrightarrow> pool_spec lossy (fs, ws, hold s) (gs, vs, K) \<Longrightarrow> hold s' = K \<Longrightarrow>
   refines lossy s s' fs ws"
  by (auto simp: refines_def)

lemma refines_keep:
  assumes "own (pool s) fs ws (hold s)" "same_lists (pool s) (pool s')"
    and "\<And>h. hold s' h \<subseteq> hold s h" "lossy \<or> hold s' = hold s"
  shows "refines lossy s s' fs ws"
  unfolding refines_def using own_frame [OF assms(1-3)] pool_spec.keep [OF assms(3,4)] by blast

lemma driver_keep:
  assumes "own (pool s) fs ws (hold s)" "same_lists (pool s) q"
    and "\<And>a. a_connPtr (args q a) = a_connPtr (args (pool s) a)"
    and "dheld pc = hold s (Inl d)" "hold s2 = hold s" "args (pool s2) = args (pool s)"
  shows "refines lossy s (go_driver d pc q s2) fs ws"
proof -
  have "hold (go_driver d pc q s2) = hold s"
    using hold_go_driver [of q s2 d pc] assms(3-6) by (simp add: fun_upd_idem)
  then show ?thesis using refines_keep [OF assms(1)] assms(2) by simp
qed

lemma driver_refines:
  assumes own: "own (pool s) fs ws (hold s)" and st: "Driver_step now d s = Some s'"
  shows "refines (discards (Driver d now) s) s s' fs ws"
proof (cases "drivers s d")
  case (D_alloc i)
  obtain r q where a: "NsQueueConn_alloc (pool s) = (r, q)" by (cases "NsQueueConn_alloc (pool s)")
  have none: "hold s (Inl d) = {}" using D_alloc by simp
  have eq: "\<And>b. a_connPtr (args q b) = a_connPtr (args (pool s) b)"
    using a by (auto simp: section_defs split: option.splits)
  show ?thesis
  proof (cases r)
    case None
    then have "s' = go_driver d (D_full i) q s" "q = pool s"
      using st a D_alloc by (auto simp: Driver_step_def NsQueueConn_alloc_def split: option.splits)
    then show ?thesis using driver_keep [OF own] none by (simp add: same_lists_def)
  next
    case (Some c)
    then have s': "s' = go_driver d (D_init i c) q s" using st a D_alloc by (simp add: Driver_step_def)
    from own_alloc [OF own, of c q "Inl d"] a Some none
    obtain gs where g: "fs = c # gs" "own q gs ws ((hold s)(Inl d := {c}))" by (cases fs) auto
    have "hold s' = (hold s)(Inl d := {c})" unfolding s' using hold_go_driver [OF eq] by simp
    then show ?thesis using g(2) pool_spec.alloc [of "hold s" "Inl d", OF none] s' g(1) by (intro refinesI) simp_all
  qed
next
  case (D_append c)
  have h: "hold s (Inl d) = {c}" using D_append by simp
  from own_append [OF own h] obtain q where
    q: "NsQueueConn_append c (pool s) = Some q" "own q fs (ws @ [c]) ((hold s)(Inl d := {}))" by blast
  have s': "s' = go_driver d (D_create (neededAdditionalConnectionThreads (shutdown (srv s)) q) NS_OK) q s"
    using st D_append q(1) by (simp add: Driver_step_def)
  have "\<And>b. a_connPtr (args q b) = a_connPtr (args (pool s) b)"
    using q(1) by (auto simp: section_defs split: option.splits)
  then have "hold s' = (hold s)(Inl d := {})" unfolding s' using hold_go_driver by simp
  then show ?thesis using q(2) pool_spec.enqueue [of "hold s" "Inl d", OF h] s' by (intro refinesI) simp_all
next
  case (D_assign c a)
  let ?q = "NsQueueConn_assign a c (pool s)"
  let ?X = "theld (threads s a) (args ?q a)"
  have s': "s' = go_driver d (D_needed a) ?q s" using st D_assign by (simp add: Driver_step_def)
  have hold: "hold s' = (hold s)(Inl d := {}, Inr a := ?X)"
    by (intro ext, case_tac x) (auto simp: s' go_driver_def theld_def section_defs)
  have h: "hold s (Inl d) = {c}" using D_assign by simp
  have X: "c \<in> ?X" "?X \<subseteq> insert c (hold s (Inr a))"
      "discards (Driver d now) s \<or> ?X = insert c (hold s (Inr a))"
    using D_assign by (auto simp: theld_def section_defs discards_def)
  have "own ?q fs ws ((hold s)(Inl d := {}, Inr a := ?X))"
    using h X(2) by (intro own_pass [OF own]) (auto simp: same_lists_def section_defs)
  then show ?thesis
    using pool_spec.pass [of "hold s" "Inl d" c "Inr a" ?X, OF h _ X] hold s' by (intro refinesI) simp_all
next
  case (D_start a r)
  let ?q = "CreateConnThread_start a (pool s)"
  have s': "s' = go_driver d (D_ret r) ?q (s\<lparr>threads := (threads s)(a := new_thread)\<rparr>)"
    using st D_start by (simp add: Driver_step_def)
  have hold: "hold s' = (hold s)(Inr a := {})"
    using D_start by (intro ext, case_tac x) (auto simp: s' go_driver_def theld_def section_defs new_thread_def)
  show ?thesis
  proof (rule refines_keep [OF own])
    show "discards (Driver d now) s \<or> hold s' = hold s"
      unfolding hold using D_start by (simp add: discards_def fun_upd_idem)
    show "hold s' h \<subseteq> hold s h" for h unfolding hold by simp
  qed (simp add: s' same_lists_def section_defs)
qed (use st in \<open>auto simp: Driver_step_def section_defs same_lists_def Let_def
        intro!: driver_keep [OF own] split: option.splits if_splits\<close>)

lemma thread_keep:
  assumes "own (pool s) fs ws (hold s)" "same_lists (pool s) q"
    and "\<And>b. b \<noteq> a \<Longrightarrow> a_connPtr (args q b) = a_connPtr (args (pool s) b)"
    and "theld t (args q a) \<subseteq> hold s (Inr a)" "lossy \<or> theld t (args q a) = hold s (Inr a)"
  shows "refines lossy s (go_thread a t q s) fs ws"
proof -
  have "hold (go_thread a t q s) = (hold s)(Inr a := theld t (args q a))"
    using hold_go_thread [of a q s t] assms(3) by simp
  then show ?thesis using assms(2,4,5) by (intro refines_keep [OF assms(1)]) (auto simp: fun_upd_idem)
qed

text \<open>The local variable of a serving thread, and the state a slot shows at each place of its thread.\<close>

definition serving :: "tpc \<Rightarrow> bool" where
  "serving pc \<longleftrightarrow> pc \<in> {T_serve, T_finish, T_detach, T_free}"

definition local_ok :: "queue_sys \<Rightarrow> nat \<Rightarrow> bool" where
  "local_ok s a \<longleftrightarrow>
     (serving (t_pc (threads s a)) \<longrightarrow> t_connPtr (threads s a) \<noteq> None)
     \<and> (t_pc (threads s a) = T_free \<longrightarrow> t_connPtr (threads s a) \<noteq> a_connPtr (args (pool s) a))"

definition links_kept :: "(Conn \<Rightarrow> Conn) \<Rightarrow> bool" where
  "links_kept run \<longleftrightarrow> (\<forall>x. c_nextPtr (run x) = c_nextPtr x \<and> c_prevPtr (run x) = c_prevPtr x)"

text \<open>Leaving the thread queue, the only section that walks along a list.\<close>

lemma unlink_cases:
  assumes "NsConnThread_step run status a s = Some s'" "t_pc (threads s a) = T_unlink"
  shows "\<exists>x y. s' = go_thread a ((threads s a)\<lparr>t_pc := T_unidle\<rparr>)
       (set_state a connThread_busy ((pool s)\<lparr>tq_nextPtr := x, args := y\<rparr>)) s \<and>
     (\<forall>b. a_connPtr (y b) = a_connPtr (args (pool s) b)) \<and> (\<forall>b. a_state (y b) = a_state (args (pool s) b)) \<and>
     NsConnThread_unlink a (pool s) = Some (set_state a connThread_busy ((pool s)\<lparr>tq_nextPtr := x, args := y\<rparr>))"
proof -
  obtain r where r: "unlink_loop (maxconns (pool s)) None (tq_nextPtr (pool s)) a (pool s) = Some r"
    "s' = go_thread a ((threads s a)\<lparr>t_pc := T_unidle\<rparr>) (set_state a connThread_busy r) s"
    using assms by (auto simp: NsConnThread_step_def NsConnThread_unlink_def Let_def)
  note f = same_but_linksD [OF unlink_loop_frame [OF r(1)]]
  then obtain x y where q: "r = (pool s)\<lparr>tq_nextPtr := x, args := y\<rparr>" by blast
  show ?thesis using r q f(1,2) by (intro exI [of _ x] exI [of _ y]) (simp add: NsConnThread_unlink_def)
qed

lemma thread_refines:
  assumes own: "own (pool s) fs ws (hold s)" and st: "NsConnThread_step run status a s = Some s'"
    and run: "links_kept run" and loc: "local_ok s a"
  shows "refines (discards (Thread a status) s) s s' fs ws"
proof (cases "t_pc (threads s a)")
  case T_take
  let ?t = "(threads s a)\<lparr>t_pc := T_got, t_connPtr := fst (NsConnThread_take (pool s))\<rparr>"
  obtain r q where a: "NsConnThread_take (pool s) = (r, q)" by (cases "NsConnThread_take (pool s)")
  have eq: "\<And>b. a_connPtr (args q b) = a_connPtr (args (pool s) b)"
    using a by (auto simp: section_defs split: option.splits)
  have s': "s' = go_thread a ?t q s" using st a T_take by (simp add: NsConnThread_step_def)
  show ?thesis
  proof (cases r)
    case None
    then have "q = pool s" using a by (auto simp: NsConnThread_take_def split: option.splits)
    then show ?thesis unfolding s' using T_take None a
      by (intro thread_keep [OF own]) (simp_all add: same_lists_def theld_def)
  next
    case (Some c)
    from own_take [OF own, of c q "Inr a"] a Some
    obtain vs where w: "ws = c # vs" "own q fs vs ((hold s)(Inr a := insert c (hold s (Inr a))))" by (cases ws) auto
    have "hold s' = (hold s)(Inr a := insert c (hold s (Inr a)))"
      unfolding s' using hold_go_thread [of a q s ?t] eq a Some T_take by (simp add: theld_def)
    then show ?thesis using w(2) pool_spec.dequeue [of _ fs c vs "hold s" "Inr a"] s' w(1) by (intro refinesI) simp_all
  qed
next
  case T_free
  then obtain c where c: "t_connPtr (threads s a) = Some c" using loc by (auto simp: local_ok_def serving_def)
  let ?t = "(threads s a)\<lparr>t_pc := T_quota\<rparr>" and ?q = "NsConnThread_free c (pool s)"
  have s': "s' = go_thread a ?t ?q s" using st c T_free by (simp add: NsConnThread_step_def)
  have args: "args ?q = args (pool s)" by (simp add: section_defs)
  have h: "c \<in> hold s (Inr a)" "theld ?t (args (pool s) a) = hold s (Inr a) - {c}"
    using T_free c loc by (auto simp: theld_def local_ok_def)
  have "hold s' = (hold s)(Inr a := hold s (Inr a) - {c})"
    unfolding s' using hold_go_thread [of a ?q s ?t] args h(2) by simp
  then show ?thesis using own_free [OF own h(1)] pool_spec.release [of c "hold s", OF h(1)] s' by (intro refinesI) simp_all
next
  case T_detach
  then obtain c where c: "t_connPtr (threads s a) = Some c" using loc by (auto simp: local_ok_def serving_def)
  have "cnext (pool s) c = None" using ownD(3) [OF own, of c "Inr a"] T_detach c by (simp add: theld_def)
  note d = detach_plain [OF ownD(2) [OF own] this]
  have s': "s' = go_thread a ((threads s a)\<lparr>t_pc := T_free\<rparr>) (NsConnThread_detach a c (pool s)) s"
    using st T_detach c by (simp add: NsConnThread_step_def)
  show ?thesis unfolding s' d using T_detach c ownD(2) [OF own]
    by (intro thread_keep [OF own]) (auto simp: same_lists_def theld_def set_conn_def set_arg_def discards_def)
next
  case T_unlink
  obtain x y where s': "s' = go_thread a ((threads s a)\<lparr>t_pc := T_unidle\<rparr>)
       (set_state a connThread_busy ((pool s)\<lparr>tq_nextPtr := x, args := y\<rparr>)) s"
    and y: "\<And>b. a_connPtr (y b) = a_connPtr (args (pool s) b)" "\<And>b. a_state (y b) = a_state (args (pool s) b)"
    using unlink_cases [OF st T_unlink] by blast
  show ?thesis unfolding s' using T_unlink y(1)
    by (intro thread_keep [OF own]) (auto simp: theld_def same_lists_def set_state_def set_arg_def)
qed (use st loc run in \<open>auto simp: NsConnThread_step_def section_defs same_lists_def links_kept_def Let_def theld_def
        local_ok_def serving_def discards_def intro!: thread_keep [OF own] split: option.splits if_splits\<close>)

subsection \<open>Slots and counters\<close>

fun pc_states :: "tpc \<Rightarrow> ConnThreadState set" where
  "pc_states T_none = {connThread_free, connThread_initial}"
| "pc_states T_warmup = {connThread_initial}"
| "pc_states T_register = {connThread_warmup}"
| "pc_states T_ready = {connThread_warmup}"
| "pc_states T_check = {connThread_idle}"
| "pc_states T_wait = {connThread_idle}"
| "pc_states T_left = {connThread_idle}"
| "pc_states T_unlink = {connThread_idle}"
| "pc_states T_busy = {connThread_idle}"
| "pc_states T_unidle = {connThread_busy}"
| "pc_states T_decide = {connThread_busy}"
| "pc_states T_fetch = {connThread_busy, connThread_ready}"
| "pc_states T_serve = {connThread_busy, connThread_ready}"
| "pc_states T_finish = {connThread_busy, connThread_ready}"
| "pc_states T_dead = {connThread_busy, connThread_ready}"
| "pc_states T_leave = {connThread_dead}"
| "pc_states T_exit = {connThread_dead}"
| "pc_states _ = {connThread_ready}"

fun starting :: "dpc \<Rightarrow> nat option" where
  "starting (D_start a r) = Some a"
| "starting _ = None"

text \<open>A slot that is not free has a thread, or a driver is about to start one in it.\<close>

definition slots_ok :: "queue_sys \<Rightarrow> bool" where
  "slots_ok s \<longleftrightarrow>
     (\<forall>a. a_state (args (pool s) a) \<in> pc_states (t_pc (threads s a)))
     \<and> (\<forall>a. a_state (args (pool s) a) \<noteq> connThread_free \<longrightarrow> int a < t_max (pool s))
     \<and> (\<forall>d a. starting (drivers s d) = Some a \<longrightarrow>
            t_pc (threads s a) = T_none \<and> a_state (args (pool s) a) = connThread_initial)
     \<and> (\<forall>d e a. starting (drivers s d) = Some a \<longrightarrow> starting (drivers s e) = Some a \<longrightarrow> d = e)
     \<and> t_max (pool s) \<le> int (maxconns (pool s))"

lemma find_free_slot:
  assumes "find (\<lambda>i. a_state (args p i) = connThread_free) [0..<nat (t_max p)] = Some a"
  shows "a_state (args p a) = connThread_free \<and> int a < t_max p"
proof -
  have "a_state (args p a) = connThread_free \<and> a < nat (t_max p)"
    using assms unfolding find_Some_iff by (auto simp: nth_append)
  then show ?thesis by linarith
qed

lemma free_no_thread: "connThread_free \<in> pc_states pc \<Longrightarrow> pc = T_none"
  by (cases pc) auto

lemma slots_okD:
  assumes "slots_ok s"
  shows "a_state (args (pool s) a) \<in> pc_states (t_pc (threads s a))"
    and "a_state (args (pool s) a) \<noteq> connThread_free \<Longrightarrow> int a < t_max (pool s)"
    and "starting (drivers s d) = Some a \<Longrightarrow> t_pc (threads s a) = T_none"
    and "starting (drivers s d) = Some a \<Longrightarrow> a_state (args (pool s) a) = connThread_initial"
    and "starting (drivers s d) = Some a \<Longrightarrow> starting (drivers s e) = Some a \<Longrightarrow> d = e"
    and "a_state (args (pool s) a) = connThread_free \<Longrightarrow> t_pc (threads s a) = T_none"
    and "a_state (args (pool s) a) \<noteq> connThread_free \<Longrightarrow> a < maxconns (pool s)"
    and "t_pc (threads s a) \<noteq> T_none \<Longrightarrow> a < maxconns (pool s)"
proof -
  have A: "a_state (args (pool s) a) \<noteq> connThread_free \<Longrightarrow> int a < t_max (pool s)" for a
    using assms unfolding slots_ok_def by blast
  have B: "a_state (args (pool s) a) = connThread_free \<Longrightarrow> t_pc (threads s a) = T_none" for a
    using assms free_no_thread unfolding slots_ok_def by metis
  have C: "t_max (pool s) \<le> int (maxconns (pool s))" using assms unfolding slots_ok_def by blast
  show "a_state (args (pool s) a) \<in> pc_states (t_pc (threads s a))"
    and "starting (drivers s d) = Some a \<Longrightarrow> t_pc (threads s a) = T_none"
    and "starting (drivers s d) = Some a \<Longrightarrow> a_state (args (pool s) a) = connThread_initial"
    and "starting (drivers s d) = Some a \<Longrightarrow> starting (drivers s e) = Some a \<Longrightarrow> d = e"
    using assms unfolding slots_ok_def by blast+
  show "a_state (args (pool s) a) \<noteq> connThread_free \<Longrightarrow> int a < t_max (pool s)"
    and "a_state (args (pool s) a) = connThread_free \<Longrightarrow> t_pc (threads s a) = T_none" using A B by blast+
  show D: "a_state (args (pool s) a) \<noteq> connThread_free \<Longrightarrow> a < maxconns (pool s)" for a using A C by fastforce
  show "t_pc (threads s a) \<noteq> T_none \<Longrightarrow> a < maxconns (pool s)" using B D by blast
qed

lemma slots_go_driver:
  assumes "slots_ok s" "\<And>b. a_state (args q b) = a_state (args (pool s) b)" "t_max q = t_max (pool s)"
    and "maxconns q = maxconns (pool s)" "starting pc = None" "threads s2 = threads s" "drivers s2 = drivers s"
  shows "slots_ok (go_driver d pc q s2)"
proof -
  have st: "starting (((drivers s)(d := pc)) e) = Some a \<Longrightarrow> starting (drivers s e) = Some a" for e a
    using assms(5) by (auto split: if_splits)
  show ?thesis using assms slots_okD [OF assms(1)] unfolding slots_ok_def go_driver_def by (auto dest!: st)
qed

lemma slots_go_thread:
  assumes "slots_ok s" "\<And>b. b \<noteq> a \<Longrightarrow> a_state (args q b) = a_state (args (pool s) b)" "t_max q = t_max (pool s)"
    and "maxconns q = maxconns (pool s)" "t_pc (threads s a) \<noteq> T_none" "a_state (args q a) \<in> pc_states (t_pc t)"
  shows "slots_ok (go_thread a t q s)"
proof -
  have "int a < t_max (pool s)" using slots_okD(2,6) [OF assms(1)] assms(5) by blast
  moreover have "starting (drivers s d) \<noteq> Some a" for d using slots_okD(3) [OF assms(1)] assms(5) by blast
  ultimately show ?thesis using assms unfolding slots_ok_def go_thread_def by auto
qed

lemma slots_driver:
  assumes "slots_ok s" "Driver_step now d s = Some s'"
  shows "slots_ok s'"
proof (cases "drivers s d")
  case (D_slot r)
  show ?thesis
  proof (cases "find (\<lambda>i. a_state (args (pool s) i) = connThread_free) [0..<nat (t_max (pool s))]")
    case (Some a)
    note f = find_free_slot [OF Some]
    have "t_pc (threads s a) = T_none" using slots_okD(6) [OF assms(1)] f by blast
    then show ?thesis using assms D_slot Some f slots_okD(4) [OF assms(1)]
      by (auto simp: Driver_step_def section_defs slots_ok_def go_driver_def Let_def split: if_splits)
  next
    case None
    then show ?thesis using assms(2) D_slot
      by (auto simp: Driver_step_def section_defs intro: slots_go_driver [OF assms(1)])
  qed
next
  case (D_start a r)
  then have st: "starting (drivers s d) = Some a" by simp
  have "starting (drivers s e) \<noteq> Some a" if "e \<noteq> d" for e using slots_okD(5) [OF assms(1) st] that by blast
  then show ?thesis using assms D_start slots_okD(4) [OF assms(1) st]
    by (auto simp: Driver_step_def section_defs slots_ok_def go_driver_def new_thread_def Let_def split: if_splits)
qed (use assms(2) in \<open>auto simp: Driver_step_def section_defs Let_def
       intro!: slots_go_driver [OF assms(1)] split: option.splits if_splits\<close>)

lemma slots_thread:
  assumes "slots_ok s" "NsConnThread_step run status a s = Some s'"
  shows "slots_ok s'"
proof (cases "t_pc (threads s a)")
  case T_unlink
  obtain x y where s': "s' = go_thread a ((threads s a)\<lparr>t_pc := T_unidle\<rparr>)
       (set_state a connThread_busy ((pool s)\<lparr>tq_nextPtr := x, args := y\<rparr>)) s"
    and y: "\<And>b. a_connPtr (y b) = a_connPtr (args (pool s) b)" "\<And>b. a_state (y b) = a_state (args (pool s) b)"
    using unlink_cases [OF assms(2) T_unlink] by blast
  show ?thesis unfolding s' using T_unlink y(2)
    by (intro slots_go_thread [OF assms(1)]) (auto simp: set_state_def set_arg_def)
qed (use assms(2) slots_okD(1) [OF assms(1), of a] in \<open>auto simp: NsConnThread_step_def section_defs Let_def
       intro!: slots_go_thread [OF assms(1)] split: option.splits if_splits\<close>)

fun idling :: "tpc \<Rightarrow> bool" where
  "idling pc \<longleftrightarrow> pc \<in> {T_park, T_check, T_wait, T_left, T_unlink, T_busy, T_unidle}"

fun alive :: "tpc \<Rightarrow> bool" where
  "alive pc \<longleftrightarrow> pc \<noteq> T_none \<and> pc \<noteq> T_exit"

fun warming :: "tpc \<Rightarrow> bool" where
  "warming pc \<longleftrightarrow> pc = T_warmup \<or> pc = T_register"

fun making :: "dpc \<Rightarrow> bool" where
  "making (D_slot r) = True"
| "making (D_start a r) = True"
| "making (D_undo r) = True"
| "making _ = False"

text \<open>The counters of the pool count what they say.\<close>

definition counts_ok :: "nat \<Rightarrow> queue_sys \<Rightarrow> bool" where
  "counts_ok nd s \<longleftrightarrow>
     t_idle (pool s) = count_of (\<lambda>t. idling (t_pc t)) (threads s) (maxconns (pool s))
     \<and> t_current (pool s) = count_of (\<lambda>t. alive (t_pc t)) (threads s) (maxconns (pool s)) + count_of making (drivers s) nd
     \<and> t_creating (pool s) = count_of (\<lambda>t. warming (t_pc t)) (threads s) (maxconns (pool s)) + count_of making (drivers s) nd"

lemma counts_go_driver:
  assumes "counts_ok nd s" "d < nd" "maxconns q = maxconns (pool s)" "t_idle q = t_idle (pool s)"
    and "t_current q = t_current (pool s) - of_bool (making (drivers s d)) + of_bool (making pc)"
    and "t_creating q = t_creating (pool s) - of_bool (making (drivers s d)) + of_bool (making pc)"
    and "threads s2 = threads s" "drivers s2 = drivers s"
  shows "counts_ok nd (go_driver d pc q s2)"
  using assms by (simp add: counts_ok_def go_driver_def)

lemma counts_go_thread:
  assumes "counts_ok nd s" "a < maxconns (pool s)" "maxconns q = maxconns (pool s)"
    and "t_idle q = t_idle (pool s) - of_bool (idling (t_pc (threads s a))) + of_bool (idling (t_pc t))"
    and "t_current q = t_current (pool s) - of_bool (alive (t_pc (threads s a))) + of_bool (alive (t_pc t))"
    and "t_creating q = t_creating (pool s) - of_bool (warming (t_pc (threads s a))) + of_bool (warming (t_pc t))"
  shows "counts_ok nd (go_thread a t q s)"
  using assms by (simp add: counts_ok_def go_thread_def del: idling.simps alive.simps warming.simps)

lemma counts_driver:
  assumes "counts_ok nd s" "slots_ok s" "Driver_step now d s = Some s'" "d < nd"
  shows "counts_ok nd s'"
proof (cases "drivers s d")
  case (D_start a r)
  then have "starting (drivers s d) = Some a" by simp
  from slots_okD(3,4) [OF assms(2) this] slots_okD(7) [OF assms(2), of a]
  have a: "a < maxconns (pool s)" "t_pc (threads s a) = T_none" by auto
  have "s' = go_driver d (D_ret r) (CreateConnThread_start a (pool s)) (s\<lparr>threads := (threads s)(a := new_thread)\<rparr>)"
    using assms(3) D_start by (simp add: Driver_step_def)
  then show ?thesis using assms(1,4) D_start a
    by (simp add: section_defs counts_ok_def go_driver_def new_thread_def)
qed (use assms(3) in \<open>auto simp: Driver_step_def section_defs Let_def
       intro!: counts_go_driver [OF assms(1,4)] split: option.splits if_splits\<close>)

lemma counts_thread:
  assumes "counts_ok nd s" "NsConnThread_step run status a s = Some s'" "a < maxconns (pool s)"
  shows "counts_ok nd s'"
proof (cases "t_pc (threads s a)")
  case T_unlink
  obtain x y where s': "s' = go_thread a ((threads s a)\<lparr>t_pc := T_unidle\<rparr>)
       (set_state a connThread_busy ((pool s)\<lparr>tq_nextPtr := x, args := y\<rparr>)) s"
    and y: "\<And>b. a_connPtr (y b) = a_connPtr (args (pool s) b)" "\<And>b. a_state (y b) = a_state (args (pool s) b)"
    using unlink_cases [OF assms(2) T_unlink] by blast
  show ?thesis unfolding s' using T_unlink
    by (intro counts_go_thread [OF assms(1,3)]) (simp_all add: set_state_def set_arg_def)
next
  case T_register
  then have "0 < count_of (\<lambda>t. warming (t_pc t)) (threads s) (maxconns (pool s))"
    using count_of_pos [OF assms(3), of "\<lambda>t. warming (t_pc t)" "threads s"] by simp
  then have "0 < t_creating (pool s)"
    using assms(1) count_of_nonneg [of making "drivers s" nd] unfolding counts_ok_def by linarith
  then show ?thesis using assms(2) T_register
    by (auto simp: NsConnThread_step_def section_defs Let_def intro!: counts_go_thread [OF assms(1,3)])
qed (use assms(2) in \<open>auto simp: NsConnThread_step_def section_defs Let_def
       intro!: counts_go_thread [OF assms(1,3)] split: option.splits if_splits\<close>)

subsection \<open>The invariant of all reachable states\<close>

definition queue_inv :: "nat \<Rightarrow> queue_sys \<Rightarrow> bool" where
  "queue_inv nd s \<longleftrightarrow>
     (\<exists>fs ws. own (pool s) fs ws (hold s)) \<and> (\<forall>a. local_ok s a) \<and> slots_ok s \<and> counts_ok nd s"

lemma local_driver:
  assumes "\<forall>a. local_ok s a" "own (pool s) fs ws (hold s)" "Driver_step now d s = Some s'"
  shows "\<forall>a. local_ok s' a"
proof (cases "drivers s d")
  case (D_assign c a)
  have "t_connPtr (threads s a) \<noteq> Some c" if "t_pc (threads s a) = T_free"
    using ownD(4) [OF assms(2), of c "Inl d" "Inr a"] that D_assign by (auto simp: theld_def)
  then show ?thesis using assms(1,3) D_assign
    by (auto simp: Driver_step_def go_driver_def local_ok_def section_defs Let_def split: if_splits)
qed (use assms(1,3) in \<open>auto simp: Driver_step_def go_driver_def local_ok_def section_defs new_thread_def serving_def Let_def
       split: option.splits if_splits\<close>)

lemma local_thread:
  assumes "\<forall>a. local_ok s a" "NsConnThread_step run status a s = Some s'"
  shows "\<forall>a. local_ok s' a"
proof (cases "t_pc (threads s a)")
  case T_unlink
  obtain x y where s': "s' = go_thread a ((threads s a)\<lparr>t_pc := T_unidle\<rparr>)
       (set_state a connThread_busy ((pool s)\<lparr>tq_nextPtr := x, args := y\<rparr>)) s"
    and y: "\<And>b. a_connPtr (y b) = a_connPtr (args (pool s) b)" "\<And>b. a_state (y b) = a_state (args (pool s) b)"
    using unlink_cases [OF assms(2) T_unlink] by blast
  show ?thesis unfolding s' using y(1) assms(1)
    by (auto simp: local_ok_def go_thread_def set_state_def set_arg_def serving_def)
qed (use assms in \<open>auto simp: NsConnThread_step_def section_defs serving_def local_ok_def go_thread_def Let_def split: option.splits if_splits\<close>)

text \<open>A driver enters one of its functions.\<close>

lemma call_inv:
  assumes inv: "queue_inv nd s" and out: "drivers s d = D_out" "d < nd"
    and pc: "dheld pc = {}" "\<not> making pc" "starting pc = None"
  shows "queue_inv nd (go_driver d pc (pool s) s)"
proof -
  let ?s = "go_driver d pc (pool s) s"
  obtain fs ws where own: "own (pool s) fs ws (hold s)" using inv by (auto simp: queue_inv_def)
  have "refines False s ?s fs ws" using driver_keep [OF own, of "pool s"] out pc by (simp add: same_lists_def)
  moreover have "slots_ok ?s" using pc by (intro slots_go_driver) (use inv in \<open>auto simp: queue_inv_def\<close>)
  moreover have "counts_ok nd ?s" using out pc by (intro counts_go_driver) (use inv in \<open>auto simp: queue_inv_def\<close>)
  ultimately show ?thesis using inv by (auto simp: queue_inv_def refines_def local_ok_def go_driver_def)
qed

lemma act_inv:
  assumes inv: "queue_inv nd s" and st: "act run x s = Some s'" and ok: "actor_ok nd x s" and run: "links_kept run"
  shows "queue_inv nd s'"
proof -
  obtain fs ws where own: "own (pool s) fs ws (hold s)" using inv by (auto simp: queue_inv_def)
  have loc: "\<forall>a. local_ok s a" and sl: "slots_ok s" and co: "counts_ok nd s" using inv by (auto simp: queue_inv_def)
  show ?thesis
  proof (cases x)
    case (Driver d now)
    then have st': "Driver_step now d s = Some s'" "d < nd" using st ok by (auto simp: act_def)
    show ?thesis using driver_refines [OF own st'(1)] local_driver [OF loc own st'(1)]
        slots_driver [OF sl st'(1)] counts_driver [OF co sl st'] by (auto simp: queue_inv_def refines_def)
  next
    case (Thread a status)
    then have st': "NsConnThread_step run status a s = Some s'" "a < maxconns (pool s)" using st ok by (auto simp: act_def)
    have "local_ok s a" using loc by blast
    then show ?thesis using thread_refines [OF own st'(1) run] local_thread [OF loc st'(1)]
        slots_thread [OF sl st'(1)] counts_thread [OF co st'] by (auto simp: queue_inv_def refines_def)
  next
    case Stop
    then have "s' = s\<lparr>srv := (srv s)\<lparr>shutdown := True\<rparr>\<rparr>" using st by (simp add: act_def)
    then show ?thesis using own loc sl co by (auto simp: queue_inv_def local_ok_def slots_ok_def counts_ok_def)
  qed (use st ok in \<open>auto simp: act_def split: if_splits intro!: call_inv [OF inv]\<close>)
qed

subsection \<open>The state after the start\<close>

lemma links_range: "k < m \<Longrightarrow> links (\<lambda>i. if i + 1 < m then Some (i + 1) else None) (Some k) [k..<m] None"
proof (induction "m - k" arbitrary: k)
  case (Suc n)
  show ?case
  proof (cases "Suc k < m")
    case True
    then have "links (\<lambda>i. if i + 1 < m then Some (i + 1) else None) (Some (Suc k)) [Suc k..<m] None"
      using Suc by (metis Suc_diff_Suc diff_Suc_Suc nat.inject)
    then show ?thesis using True by (simp add: upt_conv_Cons)
  next
    case False
    then have "[k..<m] = [k]" using Suc.prems by (simp add: upt_conv_Cons)
    then show ?thesis using False by simp
  qed
qed simp

lemma CreatePool_queues: "1 \<le> cf_maxconnections cf \<Longrightarrow> queues (CreatePool cf) [0..<cf_maxconnections cf] []"
proof -
  assume a: "1 \<le> cf_maxconnections cf"
  let ?m = "cf_maxconnections cf"
  have "cnext (CreatePool cf) = (\<lambda>i. if i + 1 < ?m then Some (i + 1) else None)"
    by (auto simp: CreatePool_def Let_def zero_conn_def)
  then show ?thesis using links_range [of 0 ?m] a by (auto simp: queues_def CreatePool_def Let_def)
qed

text \<open>Starting threads fills the slots from the front.\<close>

definition filled :: "nat \<Rightarrow> ConnPool \<Rightarrow> bool" where
  "filled k p \<longleftrightarrow> (\<forall>a. args p a = (if a < k then zero_arg\<lparr>a_state := connThread_initial\<rparr> else zero_arg))"

lemma CreateConnThread_filled:
  assumes "filled k p" "int k < t_max p"
  shows "\<exists>q. CreateConnThread p = (Some k, q) \<and> filled (Suc k) q \<and>
    q = p\<lparr>args := args q, st_connthreads := st_connthreads q\<rparr>"
proof -
  have "find (\<lambda>i. a_state (args p i) = connThread_free) [0..<nat (t_max p)] = Some k"
    unfolding find_Some_iff using assms by (intro exI [of _ k]) (auto simp: filled_def zero_arg_def)
  then show ?thesis using assms
    by (auto simp: CreateConnThread_def CreateConnThread_slot_def CreateConnThread_start_def set_arg_def filled_def zero_arg_def)
qed

lemma start_threads_filled:
  assumes "filled k p" "int k + int n \<le> t_max p"
  shows "\<exists>q. start_threads n p = ([k..<k + n], q) \<and> filled (k + n) q \<and>
    q = p\<lparr>args := args q, st_connthreads := st_connthreads q\<rparr>"
  using assms
proof (induction n arbitrary: k p)
  case 0
  then show ?case by (intro exI [of _ p]) simp
next
  case (Suc n)
  from CreateConnThread_filled [OF Suc.prems(1)] Suc.prems(2) obtain q where
    q: "CreateConnThread p = (Some k, q)" "filled (Suc k) q" "q = p\<lparr>args := args q, st_connthreads := st_connthreads q\<rparr>" by auto
  have "t_max q = t_max p" by (subst q(3)) simp
  with Suc.IH [OF q(2)] Suc.prems(2) obtain r where
    r: "start_threads n q = ([Suc k..<Suc k + n], r)" "filled (Suc k + n) r"
      "r = q\<lparr>args := args r, st_connthreads := st_connthreads r\<rparr>" by auto
  have "r = p\<lparr>args := args r, st_connthreads := st_connthreads r\<rparr>"
    by (subst r(3), subst q(3)) simp
  then show ?case using q(1) r(1,2) by (intro exI [of _ r]) (simp add: upt_conv_Cons)
qed

lemma count_below: "k \<le> m \<Longrightarrow> count_of P (\<lambda>a. if a < k then x else y) m =
    (if P x then int k else 0) + (if P y then int m - int k else 0)"
proof -
  assume km: "k \<le> m"
  have "{i. i < m \<and> P (if i < k then x else y)} =
    (if P x then {..<k} else {}) \<union> (if P y then {k..<m} else {})" using km by auto
  moreover have "{..<k} \<inter> {k..<m} = {}" by auto
  ultimately show ?thesis using km by (simp add: count_of_def card_Un_disjoint)
qed

lemma start_sys_cases:
  assumes "config_ok cf"
  obtains p where "start_sys cf sk =
      \<lparr>pool = p, srv = \<lparr>nextconnid = 0, shutdown = False\<rparr>,
       threads = (\<lambda>a. if a < nat (cf_minthreads cf) then new_thread else new_thread\<lparr>t_pc := T_none\<rparr>),
       drivers = (\<lambda>_. D_out), socks = sk\<rparr>"
    and "filled (nat (cf_minthreads cf)) p"
    and "p = (CreatePool cf)\<lparr>t_idle := 0, t_current := cf_minthreads cf, t_creating := cf_minthreads cf,
               args := args p, st_connthreads := st_connthreads p\<rparr>"
proof -
  let ?q = "(CreatePool cf)\<lparr>t_idle := 0, t_current := cf_minthreads cf, t_creating := cf_minthreads cf\<rparr>"
  have "filled 0 ?q" by (simp add: filled_def CreatePool_def Let_def)
  moreover have "int 0 + int (nat (cf_minthreads cf)) \<le> t_max ?q"
    using assms by (simp add: config_ok_def CreatePool_def Let_def)
  ultimately obtain p where p: "start_threads (nat (cf_minthreads cf)) ?q = ([0..<nat (cf_minthreads cf)], p)"
    "filled (nat (cf_minthreads cf)) p" "p = ?q\<lparr>args := args p, st_connthreads := st_connthreads p\<rparr>"
    using start_threads_filled [of 0 ?q "nat (cf_minthreads cf)"] by auto
  have "t_min (CreatePool cf) = cf_minthreads cf" by (simp add: CreatePool_def Let_def)
  then show ?thesis using p by (intro that [of p]) (simp_all add: start_sys_def NsStartServer_def)
qed

lemma start_sys_inv:
  assumes "config_ok cf"
  shows "queue_inv nd (start_sys cf sk)"
proof -
  let ?k = "nat (cf_minthreads cf)" and ?s = "start_sys cf sk"
  have m: "1 \<le> cf_maxconnections cf" "?k \<le> cf_maxconnections cf" "int ?k = cf_minthreads cf"
      "cf_minthreads cf \<le> cf_maxthreads cf" "cf_maxthreads cf \<le> int (cf_maxconnections cf)"
    using assms by (auto simp: config_ok_def)
  obtain p where s: "?s = \<lparr>pool = p, srv = \<lparr>nextconnid = 0, shutdown = False\<rparr>,
       threads = (\<lambda>a. if a < ?k then new_thread else new_thread\<lparr>t_pc := T_none\<rparr>),
       drivers = (\<lambda>_. D_out), socks = sk\<rparr>" and f: "filled ?k p"
    and p: "p = (CreatePool cf)\<lparr>t_idle := 0, t_current := cf_minthreads cf, t_creating := cf_minthreads cf,
               args := args p, st_connthreads := st_connthreads p\<rparr>"
    by (rule start_sys_cases [OF assms])
  have same: "same_lists (CreatePool cf) p" by (subst p) (simp add: same_lists_def)
  have sel: "maxconns p = cf_maxconnections cf" "t_max p = cf_maxthreads cf" "t_idle p = 0"
      "t_current p = cf_minthreads cf" "t_creating p = cf_minthreads cf" "\<And>c. c_prevPtr (conns p c) = None"
    by (subst p, simp add: CreatePool_def Let_def zero_conn_def)+
  have args: "\<And>a. args p a = (if a < ?k then zero_arg\<lparr>a_state := connThread_initial\<rparr> else zero_arg)"
    using f by (simp add: filled_def)
  have "hold ?s h = {}" for h
    by (cases h) (auto simp: s theld_def args zero_arg_def new_thread_def)
  then have "own (pool ?s) [0..<cf_maxconnections cf] [] (hold ?s)"
    using queues_frame [OF CreatePool_queues [OF m(1)] same] sel(6) by (intro ownI) (simp_all add: s)
  moreover have "local_ok ?s a" for a by (simp add: s local_ok_def new_thread_def serving_def)
  moreover have "slots_ok ?s" using m sel by (auto simp: slots_ok_def s args zero_arg_def new_thread_def)
  moreover have "counts_ok nd ?s" unfolding counts_ok_def s using m(2,3) sel
    by (simp add: count_below new_thread_def) (simp add: count_of_def)
  ultimately show ?thesis by (auto simp: queue_inv_def)
qed

lemma reach_inv:
  "queue_reach run nd races (start_sys cf sk) s \<Longrightarrow> config_ok cf \<Longrightarrow> links_kept run \<Longrightarrow> queue_inv nd s"
  by (induction rule: queue_reach.induct) (auto intro: start_sys_inv act_inv)

subsection \<open>Without the race\<close>

text \<open>
  When a claim and the end of a wait exclude each other, the thread queue is a proper list of waiting
  threads, each thread knows its connection, and no connection is forgotten before the shutdown.
\<close>

fun claims :: "dpc \<Rightarrow> nat option" where
  "claims (D_assign c a) = Some a"
| "claims _ = None"

fun conn_ok :: "bool \<Rightarrow> ConnThread \<Rightarrow> nat option \<Rightarrow> bool" where
  "conn_ok down t cp =
     (case t_pc t of
        T_none \<Rightarrow> down \<or> cp = None
      | T_check \<Rightarrow> True
      | T_wait \<Rightarrow> True
      | T_left \<Rightarrow> down \<or> (t_status t = NS_TIMEOUT \<longleftrightarrow> cp = None)
      | T_unlink \<Rightarrow> cp = None \<and> (down \<or> t_status t = NS_TIMEOUT)
      | T_busy \<Rightarrow> cp \<noteq> None \<and> (down \<or> t_status t \<noteq> NS_TIMEOUT)
      | T_unidle \<Rightarrow> down \<or> (t_status t = NS_TIMEOUT \<longleftrightarrow> cp = None)
      | T_decide \<Rightarrow> down \<or> (t_status t = NS_TIMEOUT \<longleftrightarrow> cp = None)
      | T_fetch \<Rightarrow> cp \<noteq> None
      | T_serve \<Rightarrow> cp = t_connPtr t
      | T_finish \<Rightarrow> cp = t_connPtr t
      | T_detach \<Rightarrow> cp = t_connPtr t
      | T_dead \<Rightarrow> down \<or> cp = None
      | T_leave \<Rightarrow> down \<or> cp = None
      | T_exit \<Rightarrow> down \<or> cp = None
      | _ \<Rightarrow> cp = None)"

abbreviation cptr :: "queue_sys \<Rightarrow> nat \<Rightarrow> nat option" where
  "cptr s a \<equiv> a_connPtr (args (pool s) a)"

definition parked :: "queue_sys \<Rightarrow> nat list \<Rightarrow> bool" where
  "parked s ts \<longleftrightarrow>
     thread_queue (pool s) ts
     \<and> (\<forall>a. a \<in> set ts \<longrightarrow> t_pc (threads s a) \<in> {T_check, T_wait, T_left, T_unlink} \<and> cptr s a = None)
     \<and> (\<forall>d a. claims (drivers s d) = Some a \<longrightarrow>
            t_pc (threads s a) \<in> {T_check, T_wait} \<and> a \<notin> set ts \<and> cptr s a = None)
     \<and> (\<forall>d e a. claims (drivers s d) = Some a \<longrightarrow> claims (drivers s e) = Some a \<longrightarrow> d = e)
     \<and> (\<forall>a. conn_ok (shutdown (srv s)) (threads s a) (cptr s a))"

lemma parkedD:
  assumes "parked s ts"
  shows "thread_queue (pool s) ts"
    and "a \<in> set ts \<Longrightarrow> t_pc (threads s a) \<in> {T_check, T_wait, T_left, T_unlink} \<and> cptr s a = None"
    and "claims (drivers s d) = Some a \<Longrightarrow> t_pc (threads s a) \<in> {T_check, T_wait} \<and> a \<notin> set ts \<and> cptr s a = None"
    and "claims (drivers s d) = Some a \<Longrightarrow> claims (drivers s e) = Some a \<Longrightarrow> d = e"
    and "conn_ok (shutdown (srv s)) (threads s a) (cptr s a)"
  using assms unfolding parked_def by blast+

lemma parkedI:
  assumes "thread_queue (pool s) ts"
    and "\<And>a. a \<in> set ts \<Longrightarrow> t_pc (threads s a) \<in> {T_check, T_wait, T_left, T_unlink} \<and> cptr s a = None"
    and "\<And>d a. claims (drivers s d) = Some a \<Longrightarrow> t_pc (threads s a) \<in> {T_check, T_wait} \<and> a \<notin> set ts \<and> cptr s a = None"
    and "\<And>d e a. claims (drivers s d) = Some a \<Longrightarrow> claims (drivers s e) = Some a \<Longrightarrow> d = e"
    and "\<And>a. conn_ok (shutdown (srv s)) (threads s a) (cptr s a)"
  shows "parked s ts"
  using assms unfolding parked_def by blast

lemma parked_go_thread:
  assumes "parked s ts" "thread_queue q us" "\<And>b. b \<noteq> a \<Longrightarrow> a_connPtr (args q b) = cptr s b"
    and "\<And>b. b \<noteq> a \<Longrightarrow> b \<in> set us \<Longrightarrow> b \<in> set ts"
    and "a \<in> set us \<Longrightarrow> t_pc t \<in> {T_check, T_wait, T_left, T_unlink} \<and> a_connPtr (args q a) = None"
    and "\<And>d. claims (drivers s d) = Some a \<Longrightarrow> t_pc t \<in> {T_check, T_wait} \<and> a \<notin> set us \<and> a_connPtr (args q a) = None"
    and "conn_ok (shutdown (srv s)) t (a_connPtr (args q a))"
  shows "parked (go_thread a t q s) us"
proof (rule parkedI)
  note D = parkedD [OF assms(1)]
  show "t_pc (threads (go_thread a t q s) b) \<in> {T_check, T_wait, T_left, T_unlink} \<and> cptr (go_thread a t q s) b = None"
    if "b \<in> set us" for b
    using that assms(3-5) D(2) [of b] by (cases "b = a") (auto simp: go_thread_def)
  show "t_pc (threads (go_thread a t q s) b) \<in> {T_check, T_wait} \<and> b \<notin> set us \<and> cptr (go_thread a t q s) b = None"
    if "claims (drivers (go_thread a t q s) d) = Some b" for d b
    using that assms(3,4,6) D(3) [of d b] by (cases "b = a") (auto simp: go_thread_def)
  show "conn_ok (shutdown (srv (go_thread a t q s))) (threads (go_thread a t q s) b) (cptr (go_thread a t q s) b)" for b
    using assms(3,7) D(5) [of b] by (cases "b = a") (simp_all add: go_thread_def del: conn_ok.simps)
  show "d = e" if "claims (drivers (go_thread a t q s) d) = Some b" "claims (drivers (go_thread a t q s) e) = Some b" for d e b
    using that D(4) by (simp add: go_thread_def)
qed (use assms(2) in simp)

lemma parked_go_driver:
  assumes "parked s ts" "thread_queue q us" "\<And>b. a_connPtr (args q b) = cptr s b" "set us \<subseteq> set ts"
    and "\<And>a. claims pc = Some a \<Longrightarrow> t_pc (threads s a) \<in> {T_check, T_wait} \<and> a \<in> set ts \<and> a \<notin> set us"
    and "threads s2 = threads s" "drivers s2 = drivers s" "shutdown (srv s2) = shutdown (srv s)"
  shows "parked (go_driver d pc q s2) us"
proof (rule parkedI)
  note D = parkedD [OF assms(1)]
  show "t_pc (threads (go_driver d pc q s2) a) \<in> {T_check, T_wait, T_left, T_unlink} \<and> cptr (go_driver d pc q s2) a = None"
    if "a \<in> set us" for a
    using D(2) [of a] that assms(3,4,6) by (auto simp: go_driver_def)
  show "t_pc (threads (go_driver d pc q s2) a) \<in> {T_check, T_wait} \<and> a \<notin> set us \<and> cptr (go_driver d pc q s2) a = None"
    if "claims (drivers (go_driver d pc q s2) e) = Some a" for e a
  proof (cases "e = d")
    case True
    then show ?thesis using that assms(3,5,6) D(2) [of a] by (auto simp: go_driver_def)
  next
    case False
    then show ?thesis using that assms(3,4,6,7) D(3) [of e a] by (auto simp: go_driver_def)
  qed
  show "e = f" if "claims (drivers (go_driver d pc q s2) e) = Some a" "claims (drivers (go_driver d pc q s2) f) = Some a" for e f a
  proof -
    have "claims (drivers s g) \<noteq> Some a" if "claims pc = Some a" for g using assms(5) [OF that] D(3) [of g a] by blast
    then show ?thesis using that assms(7) D(4) [of e a f] by (auto simp: go_driver_def split: if_splits)
  qed
  show "conn_ok (shutdown (srv (go_driver d pc q s2))) (threads (go_driver d pc q s2) a) (cptr (go_driver d pc q s2) a)" for a
    using D(5) [of a] assms(3,6,8) by (simp add: go_driver_def del: conn_ok.simps)
qed (use assms(2) in simp)

lemma parked_driver:
  assumes par: "parked s ts" and sl: "slots_ok s" and st: "Driver_step now d s = Some s'"
    and nr: "no_race nd (Driver d now) s"
  shows "\<exists>us. parked s' us"
proof (cases "drivers s d")
  case (D_claim c)
  note tq = parkedD(1) [OF par]
  show ?thesis
  proof (cases "NsQueueConn_claim (pool s)")
    case (Pair r q)
    have eq: "a_connPtr (args q b) = cptr s b" for b using Pair by (auto simp: section_defs split: option.splits)
    show ?thesis
    proof (cases r)
      case None
      then have "s' = go_driver d (D_append c) q s" "q = pool s" using st D_claim Pair
        by (auto simp: Driver_step_def NsQueueConn_claim_def split: option.splits)
      then show ?thesis using parked_go_driver [OF par tq, of "D_append c" s d] by auto
    next
      case (Some a)
      from thread_queue_claim [OF tq, of a q] Pair Some obtain us where us: "ts = a # us" "thread_queue q us" by auto
      have "tq_nextPtr (pool s) = Some a" using Pair Some by (auto simp: NsQueueConn_claim_def split: option.splits)
      then have pc: "t_pc (threads s a) \<in> {T_check, T_wait}" using nr D_claim by (simp add: no_race_def)
      have "a \<notin> set us" using tq us(1) by (simp add: thread_queue_def)
      moreover have "s' = go_driver d (D_assign c a) q s" using st D_claim Pair Some by (simp add: Driver_step_def)
      ultimately show ?thesis using parked_go_driver [OF par us(2) eq, of "D_assign c a" s d] pc us(1) by auto
    qed
  qed
next
  case (D_assign c a)
  note D = parkedD [OF par]
  let ?q = "NsQueueConn_assign a c (pool s)"
  have cl: "claims (drivers s d) = Some a" using D_assign by simp
  have s': "s' = go_driver d (D_needed a) ?q s" using st D_assign by (simp add: Driver_step_def)
  have tq: "thread_queue ?q ts" by (rule thread_queue_cong [OF D(1)]) (auto simp: section_defs)
  have sel: "a_connPtr (args ?q b) = (if b = a then Some c else cptr s b)" for b by (simp add: section_defs)
  have only: "e = d" if "claims (drivers s e) = Some a" for e using D(4) [OF that cl] .
  have "parked s' ts"
  proof (rule parkedI)
    show "t_pc (threads s' b) \<in> {T_check, T_wait, T_left, T_unlink} \<and> cptr s' b = None" if "b \<in> set ts" for b
      using D(2) [OF that] D(3) [OF cl] that by (auto simp: s' go_driver_def sel)
    show "t_pc (threads s' b) \<in> {T_check, T_wait} \<and> b \<notin> set ts \<and> cptr s' b = None"
      if "claims (drivers s' e) = Some b" for e b
    proof -
      have "e \<noteq> d" using that by (auto simp: s' go_driver_def)
      moreover from this have "claims (drivers s e) = Some b" using that by (simp add: s' go_driver_def)
      moreover have "b \<noteq> a" using calculation only by blast
      ultimately show ?thesis using D(3) [of e b] by (simp add: s' go_driver_def sel)
    qed
    show "e = f" if "claims (drivers s' e) = Some b" "claims (drivers s' f) = Some b" for e f b
      using that D(4) [of e b f] by (auto simp: s' go_driver_def split: if_splits)
    show "conn_ok (shutdown (srv s')) (threads s' b) (cptr s' b)" for b
      using D(5) [of b] D(3) [OF cl] by (auto simp: s' go_driver_def sel simp del: conn_ok.simps) simp_all
  qed (use tq s' in simp)
  then show ?thesis by blast
next
  case (D_start a r)
  note D = parkedD [OF par]
  let ?q = "CreateConnThread_start a (pool s)"
  have a: "t_pc (threads s a) = T_none" using slots_okD(3) [OF sl, of d a] D_start by simp
  have s': "s' = go_driver d (D_ret r) ?q (s\<lparr>threads := (threads s)(a := new_thread)\<rparr>)"
    using st D_start by (simp add: Driver_step_def)
  have nin: "a \<notin> set ts" using D(2) [of a] a by auto
  have tq: "thread_queue ?q ts" by (rule thread_queue_cong [OF D(1)]) (use nin in \<open>auto simp: section_defs\<close>)
  have sel: "a_connPtr (args ?q b) = (if b = a then None else cptr s b)" for b by (simp add: section_defs)
  have cl: "claims (drivers s' e) = Some b \<Longrightarrow> claims (drivers s e) = Some b \<and> b \<noteq> a" for e b
    using D(3) [of e b] a by (auto simp: s' go_driver_def split: if_splits)
  have "parked s' ts"
  proof (rule parkedI)
    show "t_pc (threads s' b) \<in> {T_check, T_wait, T_left, T_unlink} \<and> cptr s' b = None" if "b \<in> set ts" for b
      using D(2) [OF that] that nin by (auto simp: s' go_driver_def sel)
    show "t_pc (threads s' b) \<in> {T_check, T_wait} \<and> b \<notin> set ts \<and> cptr s' b = None"
      if "claims (drivers s' e) = Some b" for e b
      using cl [OF that] D(3) [of e b] by (auto simp: s' go_driver_def sel)
    show "e = f" if "claims (drivers s' e) = Some b" "claims (drivers s' f) = Some b" for e f b
      using cl that D(4) by blast
    show "conn_ok (shutdown (srv s')) (threads s' b) (cptr s' b)" for b
    proof (cases "b = a")
      case True
      then show ?thesis by (simp add: s' go_driver_def sel new_thread_def)
    next
      case False
      then show ?thesis using D(5) [of b] by (simp add: s' go_driver_def sel del: conn_ok.simps)
    qed
  qed (use tq s' in simp)
  then show ?thesis by blast
qed (use st in \<open>auto simp: Driver_step_def section_defs Let_def split: option.splits if_splits
       intro!: exI [of _ ts] parked_go_driver [OF par] thread_queue_cong [OF parkedD(1) [OF par]]\<close>)

lemma parked_thread:
  assumes par: "parked s ts" and st: "NsConnThread_step run status a s = Some s'" and a: "a < maxconns (pool s)"
    and nr: "no_race nd (Thread a status) s" and out: "\<And>d. nd \<le> d \<Longrightarrow> drivers s d = D_out"
    and status: "status = NS_OK \<or> status = NS_TIMEOUT"
  shows "\<exists>us. parked s' us"
proof -
  note D = parkedD [OF par]
  have cl: "t_pc (threads s a) \<in> {T_check, T_wait}" if "claims (drivers s d) = Some a" for d using D(3) [OF that] by blast
  have free: "claims (drivers s d) \<noteq> Some a"
    if "t_pc (threads s a) = T_check \<and> shutdown (srv s) \<or> t_pc (threads s a) = T_wait \<and> status = NS_TIMEOUT" for d
  proof
    assume c: "claims (drivers s d) = Some a"
    then obtain x where x: "drivers s d = D_assign x a" by (cases "drivers s d") auto
    then have "d < nd" using out [of d] by (cases "nd \<le> d") auto
    then show False using nr that x unfolding no_race_def list_all_iff by force
  qed
  show ?thesis
  proof (cases "t_pc (threads s a)")
    case T_park
    then have "a \<notin> set ts" using D(2) [of a] by auto
    then have "thread_queue (NsConnThread_park a (pool s)) (a # ts)" using thread_queue_park [OF D(1)] a by blast
    moreover have "s' = go_thread a ((threads s a)\<lparr>t_pc := T_check\<rparr>) (NsConnThread_park a (pool s)) s"
      using st T_park by (simp add: NsConnThread_step_def)
    ultimately show ?thesis using T_park D(5) [of a] cl
      by (auto intro!: exI [of _ "a # ts"] parked_go_thread [OF par] simp: section_defs)
  next
    case T_unlink
    from thread_queue_unlink [OF D(1), of a] obtain q where
      q: "NsConnThread_unlink a (pool s) = Some q" "thread_queue q (remove1 a ts)" by blast
    have s': "s' = go_thread a ((threads s a)\<lparr>t_pc := T_unidle\<rparr>) q s" using st T_unlink q by (simp add: NsConnThread_step_def)
    have eq: "a_connPtr (args q b) = cptr s b" for b
      using unlink_cases [OF st T_unlink] q(1) by (auto simp: set_state_def set_arg_def)
    have "distinct ts" using D(1) by (simp add: thread_queue_def)
    then show ?thesis unfolding s' using T_unlink D(5) [of a] cl
      by (auto intro!: exI [of _ "remove1 a ts"] parked_go_thread [OF par q(2)] simp: eq)
  next
    case T_check
    have "s' = go_thread a ((threads s a)\<lparr>t_pc := (if shutdown (srv s) then T_left else T_wait)\<rparr>) (pool s) s"
      using st T_check by (simp add: NsConnThread_step_def)
    then show ?thesis using T_check D(1,2) D(3) free
      by (auto intro!: exI [of _ ts] parked_go_thread [OF par])
  next
    case T_wait
    then show ?thesis using st D(1,2) D(3) free status
      by (auto simp: NsConnThread_step_def NsConnThread_woken_def Let_def split: if_splits
               intro!: exI [of _ ts] parked_go_thread [OF par])
  next
    case T_left
    then show ?thesis using st D(1,2) D(5) [of a] cl
      by (auto simp: NsConnThread_step_def Let_def split: if_splits intro!: exI [of _ ts] parked_go_thread [OF par])
  qed (use st D(2) [of a] D(5) [of a] cl in \<open>auto simp: NsConnThread_step_def section_defs Let_def split: option.splits if_splits
       intro!: exI [of _ ts] parked_go_thread [OF par] thread_queue_cong [OF D(1)]\<close>)
qed

text \<open>Every connection is somewhere.\<close>

definition complete :: "queue_sys \<Rightarrow> nat list \<Rightarrow> nat list \<Rightarrow> bool" where
  "complete s fs ws \<longleftrightarrow> set fs \<union> set ws \<union> (\<Union>h. hold s h) = {..<maxconns (pool s)}"

lemma spec_complete:
  "pool_spec lossy (fs, ws, H) (gs, vs, K) \<Longrightarrow> \<not> lossy \<Longrightarrow>
   set gs \<union> set vs \<union> (\<Union>h. K h) = set fs \<union> set ws \<union> (\<Union>h. H h)"
proof (induction "(fs, ws, H)" "(gs, vs, K)" rule: pool_spec.induct)
  case (alloc h c)
  have "(\<Union>x. (H(h := {c})) x) = insert c (\<Union>x. H x)" using alloc
    by (auto split: if_splits) (metis empty_iff)
  then show ?case using alloc by auto
next
  case (enqueue h c)
  have "insert c (\<Union>x. (H(h := {})) x) = (\<Union>x. H x)" using enqueue
    by (auto split: if_splits) (metis singletonD)
  then show ?case using enqueue by auto
next
  case (dequeue c h)
  have "(\<Union>x. (H(h := insert c (H h))) x) = insert c (\<Union>x. H x)" by (auto split: if_splits)
  then show ?case using dequeue by auto
next
  case (release c h)
  have "insert c (\<Union>x. (H(h := H h - {c})) x) = (\<Union>x. H x)" using release by (auto split: if_splits)
  then show ?case using release by auto
next
  case (pass h c k X)
  then have "(\<Union>x. (H(h := {}, k := X)) x) = (\<Union>x. H x)" by (fastforce split: if_splits)
  then show ?case using pass by auto
next
  case (keep)
  then show ?case by blast
qed

definition calm :: "nat \<Rightarrow> queue_sys \<Rightarrow> bool" where
  "calm nd s \<longleftrightarrow>
     queue_inv nd s \<and> (\<exists>ts. parked s ts) \<and> (\<forall>d \<ge> nd. drivers s d = D_out)
     \<and> (shutdown (srv s) \<or> (\<exists>fs ws. own (pool s) fs ws (hold s) \<and> complete s fs ws))"

lemma no_discard:
  assumes "parked s ts" "slots_ok s" "\<not> shutdown (srv s)"
  shows "\<not> discards x s"
proof (cases x)
  case (Driver d now)
  show ?thesis
  proof (cases "drivers s d")
    case (D_assign c a)
    then show ?thesis using parkedD(3) [OF assms(1), of d a] Driver by (simp add: discards_def)
  next
    case (D_start a r)
    then have "t_pc (threads s a) = T_none" using slots_okD(3) [OF assms(2), of d a] by simp
    then show ?thesis using parkedD(5) [OF assms(1), of a] assms(3) D_start Driver by (simp add: discards_def theld_def)
  qed (use Driver in \<open>simp_all add: discards_def\<close>)
next
  case (Thread a st)
  then show ?thesis using parkedD(5) [OF assms(1), of a] by (auto simp: discards_def split: tpc.splits)
qed (simp_all add: discards_def)

lemma maxconns_driver: "Driver_step now d s = Some s' \<Longrightarrow> maxconns (pool s') = maxconns (pool s) \<and> srv s' = (srv s)\<lparr>nextconnid := nextconnid (srv s')\<rparr>"
  by (cases "drivers s d") (auto simp: Driver_step_def section_defs go_driver_def Let_def split: option.splits if_splits)

lemma maxconns_thread: "NsConnThread_step run st a s = Some s' \<Longrightarrow> maxconns (pool s') = maxconns (pool s) \<and> srv s' = srv s \<and> drivers s' = drivers s"
proof (cases "t_pc (threads s a)")
  case T_unlink
  assume st: "NsConnThread_step run st a s = Some s'"
  obtain x y where s': "s' = go_thread a ((threads s a)\<lparr>t_pc := T_unidle\<rparr>)
       (set_state a connThread_busy ((pool s)\<lparr>tq_nextPtr := x, args := y\<rparr>)) s"
    and y: "\<And>b. a_connPtr (y b) = a_connPtr (args (pool s) b)" "\<And>b. a_state (y b) = a_state (args (pool s) b)"
    using unlink_cases [OF st T_unlink] by blast
  show ?thesis by (simp add: s' go_thread_def set_state_def set_arg_def)
qed (auto simp: NsConnThread_step_def section_defs go_thread_def Let_def split: option.splits if_splits)

lemma drivers_above:
  "Driver_step now d s = Some s' \<Longrightarrow> d < nd \<Longrightarrow> \<forall>e \<ge> nd. drivers s e = D_out \<Longrightarrow> \<forall>e \<ge> nd. drivers s' e = D_out"
  by (cases "drivers s d") (auto simp: Driver_step_def go_driver_def Let_def split: option.splits if_splits prod.splits bool.splits)

lemma act_calm:
  assumes calm: "calm nd s" and st: "act run x s = Some s'" and ok: "actor_ok nd x s" and nr: "no_race nd x s"
    and run: "links_kept run"
  shows "calm nd s'"
proof -
  obtain ts where par: "parked s ts" using calm by (auto simp: calm_def)
  have inv: "queue_inv nd s" and out: "\<forall>d \<ge> nd. drivers s d = D_out" using calm by (auto simp: calm_def)
  then have sl: "slots_ok s" and loc: "\<forall>a. local_ok s a" by (auto simp: queue_inv_def)
  have inv': "queue_inv nd s'" using act_inv [OF inv st ok run] .
  have keep: "own (pool s') gs vs (hold s') \<and> complete s' gs vs"
    if "own (pool s') gs vs (hold s')" "pool_spec (discards x s) (fs, ws, hold s) (gs, vs, hold s')"
      "complete s fs ws" "maxconns (pool s') = maxconns (pool s)" "\<not> shutdown (srv s)" for fs ws gs vs
    using spec_complete [OF that(2) no_discard [OF par sl that(5)]] that by (simp add: complete_def)
  show ?thesis
  proof (cases x)
    case (Driver d now)
    then have st': "Driver_step now d s = Some s'" "d < nd" using st ok by (auto simp: act_def)
    note f = maxconns_driver [OF st'(1)]
    have down: "shutdown (srv s') = shutdown (srv s)" using f by (metis NsServer.ext_inject NsServer.surjective NsServer.update_convs(1))
    have "\<exists>us. parked s' us" using parked_driver [OF par sl st'(1)] nr Driver by blast
    moreover have "\<exists>gs vs. own (pool s') gs vs (hold s') \<and> complete s' gs vs" if nd: "\<not> shutdown (srv s)"
    proof -
      obtain fs ws where o: "own (pool s) fs ws (hold s)" "complete s fs ws" using calm nd by (auto simp: calm_def)
      show ?thesis using driver_refines [OF o(1) st'(1)] keep [of _ _ fs ws] o(2) f nd Driver unfolding refines_def by blast
    qed
    ultimately show ?thesis using inv' drivers_above [OF st' out] down by (auto simp: calm_def)
  next
    case (Thread a status)
    then have st': "NsConnThread_step run status a s = Some s'" "a < maxconns (pool s)"
      "status = NS_OK \<or> status = NS_TIMEOUT" using st ok by (auto simp: act_def)
    note f = maxconns_thread [OF st'(1)]
    have "\<exists>us. parked s' us" using parked_thread [OF par st'(1,2)] nr Thread out st'(3) by blast
    moreover have "\<exists>gs vs. own (pool s') gs vs (hold s') \<and> complete s' gs vs" if nd: "\<not> shutdown (srv s)"
    proof -
      obtain fs ws where o: "own (pool s) fs ws (hold s)" "complete s fs ws" using calm nd by (auto simp: calm_def)
      have "local_ok s a" using loc by blast
      then show ?thesis
        using thread_refines [OF o(1) st'(1) run] keep [of _ _ fs ws] o(2) f nd Thread unfolding refines_def by blast
    qed
    ultimately show ?thesis using inv' out f by (auto simp: calm_def)
  next
    case Stop
    then have s': "s' = s\<lparr>srv := (srv s)\<lparr>shutdown := True\<rparr>\<rparr>" using st by (simp add: act_def)
    have "conn_ok True t cp" if "conn_ok b t cp" for b t cp using that by (simp split: tpc.splits)
    then have "parked s' ts" using parkedD [OF par] by (intro parkedI) (simp_all add: s' del: conn_ok.simps, blast+)
    then show ?thesis using inv' out by (auto simp: calm_def s')
  next
    case (Arrive d i)
    then have s': "s' = go_driver d (D_enter i) (pool s) s" "drivers s d = D_out" "d < nd"
      using st ok by (auto simp: act_def split: if_splits)
    have "parked s' ts" unfolding s'(1) by (rule parked_go_driver [OF par parkedD(1) [OF par]]) auto
    moreover have "hold s' = hold s" unfolding s'(1) using hold_go_driver [of "pool s" s d "D_enter i"] s'(2)
      by (simp add: fun_upd_idem)
    ultimately show ?thesis using calm inv' s' by (auto simp: calm_def go_driver_def complete_def)
  next
    case (Ensure d)
    then have s': "s' = go_driver d D_ensure (pool s) s" "drivers s d = D_out" "d < nd"
      using st ok by (auto simp: act_def split: if_splits)
    have "parked s' ts" unfolding s'(1) by (rule parked_go_driver [OF par parkedD(1) [OF par]]) auto
    moreover have "hold s' = hold s" unfolding s'(1) using hold_go_driver [of "pool s" s d D_ensure] s'(2)
      by (simp add: fun_upd_idem)
    ultimately show ?thesis using calm inv' s' by (auto simp: calm_def go_driver_def complete_def)
  qed
qed

lemma start_calm:
  assumes "config_ok cf"
  shows "calm nd (start_sys cf sk)"
proof -
  let ?k = "nat (cf_minthreads cf)" and ?s = "start_sys cf sk"
  obtain p where s: "?s = \<lparr>pool = p, srv = \<lparr>nextconnid = 0, shutdown = False\<rparr>,
       threads = (\<lambda>a. if a < ?k then new_thread else new_thread\<lparr>t_pc := T_none\<rparr>),
       drivers = (\<lambda>_. D_out), socks = sk\<rparr>" and f: "filled ?k p"
    and p: "p = (CreatePool cf)\<lparr>t_idle := 0, t_current := cf_minthreads cf, t_creating := cf_minthreads cf,
               args := args p, st_connthreads := st_connthreads p\<rparr>"
    by (rule start_sys_cases [OF assms])
  have sel: "tq_nextPtr p = None" "maxconns p = cf_maxconnections cf"
    by (subst p, simp add: CreatePool_def Let_def)+
  have args: "\<And>a. a_connPtr (args p a) = None" using f by (simp add: filled_def zero_arg_def)
  have "parked ?s []" by (rule parkedI) (auto simp: s sel args thread_queue_def new_thread_def)
  moreover have "same_lists (CreatePool cf) p" by (subst p) (simp add: same_lists_def)
  then have q: "queues p [0..<cf_maxconnections cf] []"
    using queues_frame [OF CreatePool_queues] assms by (simp add: config_ok_def)
  have h: "hold ?s h = {}" for h by (cases h) (auto simp: s theld_def args new_thread_def)
  have "\<And>c. c_prevPtr (conns p c) = None" by (subst p) (simp add: CreatePool_def Let_def zero_conn_def)
  with q h have "own (pool ?s) [0..<cf_maxconnections cf] [] (hold ?s) \<and> complete ?s [0..<cf_maxconnections cf] []"
    unfolding complete_def by (intro conjI ownI) (auto simp: s sel(2))
  moreover have "\<forall>d. drivers ?s d = D_out" by (simp add: s)
  ultimately show ?thesis using start_sys_inv [OF assms, of nd sk] unfolding calm_def by blast
qed

lemma reach_calm:
  "queue_reach run nd False (start_sys cf sk) s \<Longrightarrow> config_ok cf \<Longrightarrow> links_kept run \<Longrightarrow> calm nd s"
  by (induction rule: queue_reach.induct) (auto intro: start_calm act_calm)

text \<open>The limits of a pool do not change.\<close>

lemma act_max:
  assumes "act run x s = Some s'"
  shows "t_max (pool s') = t_max (pool s)"
proof (cases x)
  case (Driver d now)
  then show ?thesis using assms
    by (cases "drivers s d")
       (auto simp: act_def Driver_step_def section_defs go_driver_def Let_def split: option.splits if_splits)
next
  case (Thread a st)
  show ?thesis
  proof (cases "t_pc (threads s a)")
    case T_unlink
    have st': "NsConnThread_step run st a s = Some s'" using assms Thread by (simp add: act_def)
    then obtain x y where s': "s' = go_thread a ((threads s a)\<lparr>t_pc := T_unidle\<rparr>)
       (set_state a connThread_busy ((pool s)\<lparr>tq_nextPtr := x, args := y\<rparr>)) s"
      using unlink_cases [OF _ T_unlink] by blast
    show ?thesis by (simp add: s' go_thread_def set_state_def set_arg_def)
  qed (use assms Thread in \<open>auto simp: act_def NsConnThread_step_def section_defs go_thread_def Let_def
      split: option.splits if_splits\<close>)
qed (use assms in \<open>auto simp: act_def go_driver_def split: if_splits\<close>)

lemma start_max: "config_ok cf \<Longrightarrow> t_max (pool (start_sys cf sk)) = cf_maxthreads cf"
proof -
  assume "config_ok cf"
  then obtain p where p: "pool (start_sys cf sk) = p"
    "p = (CreatePool cf)\<lparr>t_idle := 0, t_current := cf_minthreads cf, t_creating := cf_minthreads cf,
               args := args p, st_connthreads := st_connthreads p\<rparr>"
    by (rule start_sys_cases [of cf sk]) simp
  show "t_max (pool (start_sys cf sk)) = cf_maxthreads cf"
    unfolding p(1) by (subst p(2)) (simp add: CreatePool_def Let_def)
qed

end
