(* ===== verification/NsQueueProps.thy ===== *)
theory NsQueueProps
  imports NsQueueRun
begin

text \<open>
  What the connection queue guarantees: in every reachable state, under any interleaving, no connection is in two places and no
  two threads serve the same one; the counters are exact; every step implements a step of the specification. As
  long as claims and timeouts do not collide no request is lost and nobody gets stuck. The last
  section shows two runs in which a request is lost or left waiting.
\<close>

subsection \<open>Concrete runs\<close>

definition no_sock :: Sock where
  "no_sock = \<lparr>s_poolPtr = None, s_method = None, s_url = [], s_drvPtr = 0, s_opts = 0, s_flags = 0,
     s_location = None, s_acceptTime = mk_time 0 0\<rparr>"

abbreviation demo_config :: "nat \<Rightarrow> int \<Rightarrow> pool_config" where
  "demo_config m mx \<equiv>
     \<lparr>cf_maxconnections = m, cf_connsperthread = 0, cf_maxthreads = mx, cf_minthreads = 1, cf_rejectoverrun = False,
      cf_connectionratelimit = 0, cf_highwatermark = 80, cf_lowwatermark = 10\<rparr>"

abbreviation demo_start :: "nat \<Rightarrow> int \<Rightarrow> queue_sys" where
  "demo_start m mx \<equiv> start_sys (demo_config m mx) (\<lambda>_. no_sock)"

definition step_thread :: "nat \<Rightarrow> nat \<Rightarrow> action list" where
  "step_thread n a = replicate n (Thread a NS_OK)"

definition step_driver :: "nat \<Rightarrow> nat \<Rightarrow> action list" where
  "step_driver n d = replicate n (Driver d (mk_time 100 0))"

text \<open>
  A thread looks at the waiting queue, a request is queued behind its back, the thread goes to sleep.
\<close>

definition stall_run :: "action list" where
  "stall_run = step_thread 4 0 @ Arrive 0 0 # step_driver 7 0 @ step_thread 3 0"

text \<open>
  Two threads wait; a driver claims one of them while its wait times out, and stores the
  connection after the thread has decided to leave.
\<close>

definition lost_run :: "action list" where
  "lost_run = Arrive 0 0 # step_driver 9 0 @ step_thread 16 0 @ step_thread 7 1 @
     Arrive 0 1 # step_driver 4 0 @ [Thread 1 NS_TIMEOUT] @ step_driver 4 0 @ step_thread 7 1"

lemmas run_simps =
  step_thread_def step_driver_def act_def Driver_step_def NsConnThread_step_def section_defs NsConnThread_detach_def
  NsConnThread_unlink_def go_driver_def go_thread_def start_sys_def NsStartServer_def CreatePool_def
  CreateConnThread_def neededAdditionalConnectionThreads_def new_thread_def zero_arg_def zero_conn_def
  no_sock_def eval_nat_numeral Let_def no_race_def NS_CONN_DELIVERY_TRACKED_def NS_DRIVER_ASYNC_def
  NS_DRIVER_QUIC_def NS_CONN_CONFIGURED_def upt_conv_Cons

lemma demo_config_ok: "config_ok (demo_config 10 1)" "config_ok (demo_config 3 2)"
  by (simp_all add: config_ok_def)

lemma id_links_kept: "links_kept id"
  by (simp add: links_kept_def)

lemma stall_state:
  "\<exists>s. acts id 1 False stall_run (demo_start 10 1) = Some s \<and>
     t_pc (threads s 0) = T_wait \<and> (\<forall>a > 0. t_pc (threads s a) = T_none) \<and> cptr s 0 = None \<and>
     firstPtr (pool s) = Some 0 \<and> wait_num (pool s) = 1 \<and> t_current (pool s) = 1 \<and> t_min (pool s) = 1 \<and>
     drivers s 0 = D_out \<and> \<not> shutdown (srv s)"
  by (simp add: stall_run_def run_simps)

lemma lost_state:
  "\<exists>s. acts id 1 True lost_run (demo_start 3 2) = Some s \<and>
     t_pc (threads s 0) = T_wait \<and> t_pc (threads s 1) = T_none \<and> cptr s 0 = None \<and> cptr s 1 = Some 0 \<and>
     firstPtr (pool s) = None \<and> freePtr (pool s) = Some 1 \<and> cnext (pool s) 1 = Some 2 \<and> cnext (pool s) 2 = None \<and>
     drivers s 0 = D_out \<and> \<not> shutdown (srv s)"
  by (simp add: lost_run_def run_simps)

subsection \<open>Safety\<close>

text \<open>
  C1. In every reachable state of a pool, under every interleaving of drivers and threads, a
  connection is in at most one place: the free list, the waiting queue, or the hands of one driver or one
  thread; the waiting queue has the length and the last element the pool records; and two threads
  never serve the same connection.
\<close>

theorem queue_no_double_service:
  assumes "queue_reach run nd True (start_sys cf sk) s" "config_ok cf" "links_kept run"
  shows "(\<exists>fs ws. own (pool s) fs ws (hold s)) \<and>
    (\<forall>a b. serving (t_pc (threads s a)) \<and> serving (t_pc (threads s b)) \<and>
       t_connPtr (threads s a) = t_connPtr (threads s b) \<longrightarrow> a = b)"
proof -
  have inv: "queue_inv nd s" using reach_inv assms by blast
  then obtain fs ws where own: "own (pool s) fs ws (hold s)" by (auto simp: queue_inv_def)
  have "a = b" if both: "serving (t_pc (threads s a))" "serving (t_pc (threads s b))"
    "t_connPtr (threads s a) = t_connPtr (threads s b)" for a b
  proof -
    have "local_ok s a" using inv by (simp add: queue_inv_def)
    then obtain c where c: "t_connPtr (threads s a) = Some c" using both(1) by (auto simp: local_ok_def)
    then have "c \<in> hold s (Inr a)" "c \<in> hold s (Inr b)" using both by (auto simp: theld_def serving_def)
    then show ?thesis using ownD(4) [OF own] by blast
  qed
  then show ?thesis using own by blast
qed

theorem queue_no_double_service_witness:
  "\<exists>s. acts id 1 True lost_run (demo_start 3 2) = Some s \<and> (\<exists>fs ws. own (pool s) fs ws (hold s))"
proof -
  obtain s where s: "acts id 1 True lost_run (demo_start 3 2) = Some s" using lost_state by blast
  have "queue_reach id 1 True (demo_start 3 2) s" by (rule acts_reach [OF s queue_reach.start])
  from queue_no_double_service [OF this demo_config_ok(2) id_links_kept] s show ?thesis by blast
qed

text \<open>
  C2. Every step of every run implements a step of the specification \<open>pool_spec\<close>: connections wander
  between the free list, the waiting queue, which is first in first out, and their holders. A
  connection is forgotten at most in a step that overwrites a pointer (\<open>discards\<close>).
\<close>

theorem queue_refines_spec:
  assumes "queue_reach run nd True (start_sys cf sk) s" "config_ok cf" "links_kept run"
    and "act run x s = Some s'" "actor_ok nd x s"
  shows "\<exists>fs ws gs vs. own (pool s) fs ws (hold s) \<and> own (pool s') gs vs (hold s') \<and>
    pool_spec (discards x s) (fs, ws, hold s) (gs, vs, hold s')"
proof -
  have inv: "queue_inv nd s" using reach_inv assms(1-3) by blast
  then obtain fs ws where own: "own (pool s) fs ws (hold s)" by (auto simp: queue_inv_def)
  have loc: "local_ok s a" for a using inv by (simp add: queue_inv_def)
  have "refines (discards x s) s s' fs ws"
  proof (cases x)
    case (Driver d now)
    then show ?thesis using driver_refines [OF own] assms(4) by (simp add: act_def)
  next
    case (Thread a status)
    then show ?thesis using thread_refines [OF own _ assms(3) loc] assms(4) by (simp add: act_def)
  next
    case Stop
    then show ?thesis using assms(4) by (auto simp: act_def same_lists_def intro!: refines_keep [OF own])
  qed (use assms(4) in \<open>auto simp: act_def same_lists_def split: if_splits intro!: driver_keep [OF own]\<close>)
  then show ?thesis using own unfolding refines_def by blast
qed

theorem queue_refines_spec_witness:
  "\<exists>fs ws gs vs s'. act id (Thread 0 NS_OK) (demo_start 3 2) = Some s' \<and> own (pool (demo_start 3 2)) fs ws (hold (demo_start 3 2)) \<and>
    own (pool s') gs vs (hold s')"
proof -
  have "\<exists>s'. act id (Thread 0 NS_OK) (demo_start 3 2) = Some s' \<and> actor_ok 1 (Thread 0 NS_OK) (demo_start 3 2)"
    by (simp add: run_simps)
  then obtain s' where s': "act id (Thread 0 NS_OK) (demo_start 3 2) = Some s'" "actor_ok 1 (Thread 0 NS_OK) (demo_start 3 2)" by blast
  from queue_refines_spec [OF queue_reach.start demo_config_ok(2) id_links_kept s'] s'(1) show ?thesis by blast
qed



subsection \<open>Runs without the race\<close>



text \<open>
  C20. In runs without the race nobody gets stuck: a driver inside one of its functions and every thread can
  always take their next step; no NULL pointer is followed, and the walk along the thread queue ends.
\<close>

theorem queue_progress:
  assumes "queue_reach run nd False (start_sys cf sk) s" "config_ok cf" "links_kept run"
  shows "(\<forall>d now. drivers s d \<noteq> D_out \<longrightarrow> (\<exists>s'. Driver_step now d s = Some s')) \<and>
    (\<forall>a status. t_pc (threads s a) \<noteq> T_none \<longrightarrow> (\<exists>s'. NsConnThread_step run status a s = Some s'))"
proof -
  have calm: "calm nd s" using reach_calm assms by blast
  then obtain fs ws ts where own: "own (pool s) fs ws (hold s)" and par: "parked s ts" and loc: "\<forall>a. local_ok s a"
    by (auto simp: calm_def queue_inv_def)
  have "\<exists>s'. Driver_step now d s = Some s'" if "drivers s d \<noteq> D_out" for d now
  proof (cases "drivers s d")
    case (D_append c)
    then show ?thesis using own_append [OF own, of "Inl d" c] by (auto simp: Driver_step_def)
  qed (use that in \<open>auto simp: Driver_step_def Let_def split: prod.splits option.splits bool.splits\<close>)
  moreover have "\<exists>s'. NsConnThread_step run status a s = Some s'" if "t_pc (threads s a) \<noteq> T_none" for a status
  proof (cases "t_pc (threads s a)")
    case T_unlink
    then show ?thesis using thread_queue_unlink [OF parkedD(1) [OF par], of a] by (auto simp: NsConnThread_step_def)
  next
    case T_fetch
    then show ?thesis using parkedD(5) [OF par, of a] by (auto simp: NsConnThread_step_def Let_def)
  qed (use that loc in \<open>auto simp: NsConnThread_step_def Let_def local_ok_def serving_def split: prod.splits option.splits\<close>)
  ultimately show ?thesis by blast
qed

theorem queue_progress_witness:
  "\<exists>s s'. acts id 1 False stall_run (demo_start 10 1) = Some s \<and> NsConnThread_step id NS_TIMEOUT 0 s = Some s'"
proof -
  obtain s where s: "acts id 1 False stall_run (demo_start 10 1) = Some s" "t_pc (threads s 0) = T_wait" using stall_state by blast
  have "queue_reach id 1 False (demo_start 10 1) s" by (rule acts_reach [OF s(1) queue_reach.start])
  from queue_progress [OF this demo_config_ok(1) id_links_kept] s show ?thesis by (metis tpc.distinct(19))
qed

text \<open>
  In runs without the race the assertions of the code hold: the thread a driver takes from the thread queue is
  idle; at the top of its loop a thread has no connection and is ready; after the wait it is still
  idle; a thread that goes on to serve has a connection.
\<close>

theorem queue_assertions:
  assumes "queue_reach run nd False (start_sys cf sk) s" "config_ok cf" "links_kept run"
  shows "(\<forall>a. tq_nextPtr (pool s) = Some a \<longrightarrow> a_state (args (pool s) a) = connThread_idle)
    \<and> (\<forall>a. t_pc (threads s a) = T_top \<longrightarrow> cptr s a = None \<and> a_state (args (pool s) a) = connThread_ready)
    \<and> (\<forall>a. t_pc (threads s a) = T_left \<longrightarrow> a_state (args (pool s) a) = connThread_idle)
    \<and> (\<forall>a. t_pc (threads s a) = T_fetch \<longrightarrow> cptr s a \<noteq> None)"
proof -
  have calm: "calm nd s" using reach_calm assms by blast
  then obtain ts where par: "parked s ts" and sl: "slots_ok s" by (auto simp: calm_def queue_inv_def)
  have "a_state (args (pool s) a) = connThread_idle" if "tq_nextPtr (pool s) = Some a" for a
  proof -
    have "a \<in> set ts" using parkedD(1) [OF par] that by (cases ts) (auto simp: thread_queue_def)
    then show ?thesis using parkedD(2) [OF par, of a] slots_okD(1) [OF sl, of a] by auto
  qed
  moreover have "cptr s a = None \<and> a_state (args (pool s) a) = connThread_ready" if "t_pc (threads s a) = T_top" for a
    using parkedD(5) [OF par, of a] slots_okD(1) [OF sl, of a] that by simp
  moreover have "a_state (args (pool s) a) = connThread_idle" if "t_pc (threads s a) = T_left" for a
    using slots_okD(1) [OF sl, of a] that by simp
  moreover have "cptr s a \<noteq> None" if "t_pc (threads s a) = T_fetch" for a
    using parkedD(5) [OF par, of a] that by simp
  ultimately show ?thesis by blast
qed

theorem queue_assertions_witness:
  "\<exists>s. acts id 1 False stall_run (demo_start 10 1) = Some s \<and>
     (\<forall>a. tq_nextPtr (pool s) = Some a \<longrightarrow> a_state (args (pool s) a) = connThread_idle)"
proof -
  obtain s where s: "acts id 1 False stall_run (demo_start 10 1) = Some s" using stall_state by blast
  have "queue_reach id 1 False (demo_start 10 1) s" by (rule acts_reach [OF s queue_reach.start])
  from queue_assertions [OF this demo_config_ok(1) id_links_kept] s show ?thesis by blast
qed

subsection \<open>Requests are served\<close>



subsection \<open>Queueing as one operation\<close>

lemma CreateConnThread_frame:
  assumes "CreateConnThread p = (t, q)"
  shows "same_lists p q" "conns q = conns p"
    and "a_state (args p a) \<noteq> connThread_free \<Longrightarrow> args q a = args p a"
proof -
  have "conns q = conns p \<and> same_lists p q \<and> (a_state (args p a) \<noteq> connThread_free \<longrightarrow> args q a = args p a)"
  proof (cases "find (\<lambda>i. a_state (args p i) = connThread_free) [0..<nat (t_max p)]")
    case (Some b)
    then have "a_state (args p b) = connThread_free" using find_free_slot by blast
    then show ?thesis using assms Some by (auto simp: CreateConnThread_def section_defs same_lists_def)
  qed (use assms in \<open>auto simp: CreateConnThread_def section_defs same_lists_def\<close>)
  then show "same_lists p q" "conns q = conns p"
    and "a_state (args p a) \<noteq> connThread_free \<Longrightarrow> args q a = args p a" by blast+
qed

lemma create_frame:
  assumes "NsQueueConn_create cr r sk sv p = (r', t, sk', sv', q)"
  shows "r' = r" "sk' = sk" "sv' = sv" "same_lists p q" "conns q = conns p"
    and "a_state (args p a) \<noteq> connThread_free \<Longrightarrow> args q a = args p a"
  using assms CreateConnThread_frame(1,2) [of "NsQueueConn_count p" t q] CreateConnThread_frame(3) [of "NsQueueConn_count p" t q a]
  by (auto simp: NsQueueConn_create_def NsQueueConn_count_def same_lists_def split: if_splits prod.splits)

text \<open>
  C21. \<^verbatim>\<open>NsQueueConn\<close> always returns, with these outcomes: NS_ERROR during shutdown; NS_OK when a
  connection is free, which then belongs to the request and is either stored with the first idle
  thread or appended to the waiting queue; otherwise NS_ERROR for the first attempt of a request when overruns are
  rejected, and NS_TIMEOUT in all other cases. When the result is not NS_OK, lists and threads are unchanged.
\<close>

theorem NsQueueConn_outcome:
  assumes "queues p fs ws" "\<forall>c. c_prevPtr (conns p c) = None"
    and "\<forall>a. tq_nextPtr p = Some a \<longrightarrow> a_state (args p a) \<noteq> connThread_free"
  shows "\<exists>r t sk' sv' q. NsQueueConn now i sk sv p = Some (r, t, sk', sv', q) \<and>
    r = (if shutdown sv then NS_ERROR else if fs \<noteq> [] then NS_OK
         else if rejectoverrun p \<and> s_flags sk AND NS_CONN_SOCK_WAITING = 0 then NS_ERROR else NS_TIMEOUT) \<and>
    (r \<noteq> NS_OK \<longrightarrow> queues q fs ws \<and> args q = args p \<and> t = None) \<and>
    (r = NS_OK \<longrightarrow> c_sockPtr (conns q (hd fs)) = Some i \<and> c_id (conns q (hd fs)) = nextconnid sv \<and>
       (case tq_nextPtr p of
          Some a \<Rightarrow> a_connPtr (args q a) = Some (hd fs) \<and> queues q (tl fs) ws
        | None \<Rightarrow> queues q (tl fs) (ws @ [hd fs])))"
proof -
  have own: "own p fs ws (\<lambda>_::unit. {})" using assms(1,2) by (intro ownI) auto
  show ?thesis
  proof (cases "shutdown sv \<or> fs = []")
    case True
    then have "shutdown sv \<or> NsQueueConn_alloc p = (None, p)"
      using queues_empty(1) [OF assms(1)] by (auto simp: NsQueueConn_alloc_def)
    moreover have "queues (snd (snd (NsQueueConn_full now sk p))) fs ws" "args (snd (snd (NsQueueConn_full now sk p))) = args p"
      using queues_frame [OF assms(1)] by (auto simp: NsQueueConn_full_def same_lists_def Let_def)
    ultimately show ?thesis using True assms(1)
      by (auto simp: NsQueueConn_def NsQueueConn_full_def Let_def)
  next
    case False
    then obtain c gs where fs: "fs = c # gs" by (cases fs) auto
    then have "freePtr p = Some c" using assms(1) by (auto simp: queues_def)
    then obtain p1 where p1: "NsQueueConn_alloc p = (Some c, p1)" by (auto simp: NsQueueConn_alloc_def)
    have o1: "own p1 gs ws (\<lambda>_::unit. {c})" using own_alloc [OF own p1, of "()"] fs by (simp add: fun_upd_def)
    obtain sk2 sv2 p2 where p2: "NsQueueConn_init now i sk c sv p1 = (sk2, sv2, p2)" by (cases "NsQueueConn_init now i sk c sv p1") auto
    have o2: "own p2 gs ws (\<lambda>_::unit. {c})" using p2 by (intro own_frame [OF o1]) (auto simp: section_defs same_lists_def)
    have f2: "tq_nextPtr p2 = tq_nextPtr p" "args p2 = args p" "c_sockPtr (conns p2 c) = Some i" "c_id (conns p2 c) = nextconnid sv"
      using p1 p2 by (auto simp: section_defs split: option.splits)
    show ?thesis
    proof (cases "tq_nextPtr p")
      case (Some a)
      let ?p3 = "p2\<lparr>tq_nextPtr := anext p2 a\<rparr>" let ?p4 = "NsQueueConn_assign a c ?p3"
      obtain r t sk4 sv4 q where q: "NsQueueConn_create (neededAdditionalConnectionThreads (shutdown sv2) ?p4) NS_OK sk2 sv2 ?p4 = (r, t, sk4, sv4, q)"
        by (cases "NsQueueConn_create (neededAdditionalConnectionThreads (shutdown sv2) ?p4) NS_OK sk2 sv2 ?p4")
      note f = create_frame [OF q]
      have "NsQueueConn now i sk sv p = Some (r, t, sk4, sv4, q)"
        using False p1 p2 Some f2(1) q by (simp add: NsQueueConn_def NsQueueConn_claim_def Let_def)
      moreover have "a_connPtr (args q a) = Some c"
        using f(6) [of a] assms(3) Some f2(2) by (simp add: NsQueueConn_assign_def set_arg_def)
      moreover have "queues q gs ws"
        using queues_frame [OF ownD(1) [OF o2], of q] f(4) by (simp add: same_lists_def NsQueueConn_assign_def set_arg_def)
      ultimately show ?thesis using False fs f(1,5) f2(3,4) Some by (simp add: NsQueueConn_assign_def set_arg_def)
    next
      case None
      obtain p4 where p4: "NsQueueConn_append c p2 = Some p4" "own p4 gs (ws @ [c]) (\<lambda>_::unit. {})"
        using own_append [OF o2, of c "()"] by (auto simp: fun_upd_def)
      obtain r t sk4 sv4 q where q: "NsQueueConn_create (neededAdditionalConnectionThreads (shutdown sv2) p4) NS_OK sk2 sv2 p4 = (r, t, sk4, sv4, q)"
        by (cases "NsQueueConn_create (neededAdditionalConnectionThreads (shutdown sv2) p4) NS_OK sk2 sv2 p4")
      note f = create_frame [OF q]
      have "NsQueueConn now i sk sv p = Some (r, t, sk4, sv4, q)"
        using False p1 p2 None f2(1) q p4(1) by (simp add: NsQueueConn_def NsQueueConn_claim_def)
      moreover have "queues q gs (ws @ [c])" using queues_frame [OF ownD(1) [OF p4(2)] f(4)] .
      moreover have "c_sockPtr (conns p4 c) = c_sockPtr (conns p2 c)" "c_id (conns p4 c) = c_id (conns p2 c)"
        using p4(1) by (auto simp: NsQueueConn_append_def set_conn_def split: option.splits)
      ultimately show ?thesis using False fs f(1,5) f2(3,4) None by simp
    qed
  qed
qed

theorem NsQueueConn_outcome_witness:
  "\<exists>r t sk' sv' q. NsQueueConn (mk_time 100 0) 7 no_sock \<lparr>nextconnid = 0, shutdown = False\<rparr> (CreatePool (demo_config 3 2)) =
     Some (r, t, sk', sv', q) \<and> r = NS_OK \<and> queues q [1, 2] [0]"
proof -
  let ?p = "CreatePool (demo_config 3 2)"
  have q: "queues ?p [0, 1, 2] []" using CreatePool_queues [of "demo_config 3 2"] by (simp add: upt_rec numeral_2_eq_2)
  have "\<forall>c. c_prevPtr (conns ?p c) = None" "tq_nextPtr ?p = None" by (simp_all add: CreatePool_def Let_def zero_conn_def)
  then show ?thesis
    using NsQueueConn_outcome [OF q, of "mk_time 100 0" 7 no_sock "\<lparr>nextconnid = 0, shutdown = False\<rparr>"] by auto
qed

text \<open>A driver that runs until it returns, undisturbed.\<close>

primrec drive :: "nat \<Rightarrow> ns_time \<Rightarrow> nat \<Rightarrow> queue_sys \<Rightarrow> queue_sys option" where
  "drive 0 now d s = Some s"
| "drive (Suc n) now d s =
     (case drivers s d of
        D_ret r \<Rightarrow> Some s
      | _ \<Rightarrow> (case Driver_step now d s of None \<Rightarrow> None | Some s' \<Rightarrow> drive n now d s'))"

lemma drive_create:
  assumes "drivers s d = D_create cr r" "threads s = th"
  shows "map_option (\<lambda>s'. (drivers s' d, socks s' i, srv s', threads s', pool s')) (drive (Suc (Suc (Suc n))) now d s) =
    Some (case NsQueueConn_create cr r (socks s i) (srv s) (pool s) of (r', t, sk, sv, q) \<Rightarrow>
      (D_ret r', sk, sv, (case t of None \<Rightarrow> th | Some a \<Rightarrow> th(a := new_thread)), q))"
  using assms
  by (cases n) (auto simp: Driver_step_def NsQueueConn_create_def CreateConnThread_def go_driver_def Let_def
      CreateConnThread_slot_def split: option.splits)

text \<open>
  The sections of \<^verbatim>\<open>NsQueueConn\<close> that the drivers of a run execute step by step make up the whole
  function: a driver that is not interrupted ends with the result, the socket, the server, the threads and the pool of
  \<open>NsQueueConn\<close>.
\<close>

theorem NsQueueConn_uninterrupted:
  assumes "drivers s d = D_enter i"
  shows "map_option (\<lambda>s'. (drivers s' d, socks s' i, srv s', threads s', pool s')) (drive 9 now d s) =
    map_option (\<lambda>(r, t, sk, sv, q).
        (D_ret r, sk, sv, (case t of None \<Rightarrow> threads s | Some a \<Rightarrow> (threads s)(a := new_thread)), q))
      (NsQueueConn now i (socks s i) (srv s) (pool s))"
proof (cases "shutdown (srv s)")
  case True
  then show ?thesis using assms by (simp add: eval_nat_numeral Driver_step_def NsQueueConn_def go_driver_def)
next
  case False
  obtain c p1 where a: "NsQueueConn_alloc (pool s) = (c, p1)" by (cases "NsQueueConn_alloc (pool s)")
  show ?thesis
  proof (cases c)
    case None
    then show ?thesis using assms False a
      by (auto simp: eval_nat_numeral Driver_step_def NsQueueConn_def go_driver_def Let_def split: prod.splits)
  next
    case (Some c')
    obtain sk2 sv2 p2 where b: "NsQueueConn_init now i (socks s i) c' (srv s) p1 = (sk2, sv2, p2)"
      by (cases "NsQueueConn_init now i (socks s i) c' (srv s) p1") auto
    define s2 where "s2 = go_driver d (D_claim c') p2 (s\<lparr>srv := sv2, socks := (socks s)(i := sk2)\<rparr>)"
    have "drive 9 now d s = drive 6 now d s2"
      using assms False a b Some by (simp add: eval_nat_numeral Driver_step_def go_driver_def Let_def s2_def)
    moreover have "map_option (\<lambda>s'. (drivers s' d, socks s' i, srv s', threads s', pool s')) (drive 6 now d s2) =
      map_option (\<lambda>(r, t, sk, sv, q).
        (D_ret r, sk, sv, (case t of None \<Rightarrow> threads s | Some a \<Rightarrow> (threads s)(a := new_thread)), q))
      (NsQueueConn now i (socks s i) (srv s) (pool s))"
    proof (cases "NsQueueConn_claim p2")
      case (Pair t q)
      show ?thesis
      proof (cases t)
        case None
        show ?thesis
        proof (cases "NsQueueConn_append c' q")
          case None
          then show ?thesis using \<open>t = None\<close> False a b Some Pair
            by (simp add: s2_def eval_nat_numeral Driver_step_def NsQueueConn_def go_driver_def)
        next
          case (Some p4)
          define s4 where "s4 = go_driver d (D_create (neededAdditionalConnectionThreads (shutdown sv2) p4) NS_OK) p4 s2"
          have "drive 6 now d s2 = drive (Suc (Suc (Suc 1))) now d s4"
            using \<open>t = None\<close> Pair Some by (simp add: s2_def s4_def eval_nat_numeral Driver_step_def go_driver_def)
          moreover have "drivers s4 d = D_create (neededAdditionalConnectionThreads (shutdown sv2) p4) NS_OK"
              "socks s4 i = sk2" "srv s4 = sv2" "pool s4 = p4" "threads s4 = threads s"
            by (simp_all add: s4_def s2_def go_driver_def)
          ultimately show ?thesis
            using drive_create [of s4 d _ _ "threads s" i 1 now] \<open>t = None\<close> \<open>c = Some c'\<close> False a b Some Pair
            by (simp add: NsQueueConn_def split: prod.splits)
        qed
      next
        case (Some a')
        define p4 where "p4 = NsQueueConn_assign a' c' q"
        define s4 where "s4 = go_driver d (D_create (neededAdditionalConnectionThreads (shutdown sv2) p4) NS_OK) p4 s2"
        have "drive 6 now d s2 = drive (Suc (Suc (Suc 0))) now d s4"
          using Pair Some by (simp add: s2_def s4_def p4_def eval_nat_numeral Driver_step_def go_driver_def Let_def)
        moreover have "drivers s4 d = D_create (neededAdditionalConnectionThreads (shutdown sv2) p4) NS_OK"
            "socks s4 i = sk2" "srv s4 = sv2" "pool s4 = p4" "threads s4 = threads s"
          by (simp_all add: s4_def s2_def go_driver_def)
        ultimately show ?thesis
          using drive_create [of s4 d _ _ "threads s" i 0 now] \<open>c = Some c'\<close> False a b Some Pair
          by (simp add: NsQueueConn_def p4_def Let_def split: prod.splits)
      qed
    qed
    ultimately show ?thesis by simp
  qed
qed

theorem NsQueueConn_uninterrupted_witness:
  "\<exists>s'. drive 9 (mk_time 100 0) 0 (go_driver 0 (D_enter 0) (pool (demo_start 3 2)) (demo_start 3 2)) = Some s' \<and> drivers s' 0 = D_ret NS_OK"
proof -
  let ?s = "go_driver 0 (D_enter 0) (pool (demo_start 3 2)) (demo_start 3 2)"
  have "\<exists>t sk sv q. NsQueueConn (mk_time 100 0) 0 (socks ?s 0) (srv ?s) (pool ?s) = Some (NS_OK, t, sk, sv, q)"
    by (simp add: run_simps NsQueueConn_def NsQueueConn_create_def)
  moreover have "drivers ?s 0 = D_enter 0" by (simp add: go_driver_def)
  ultimately show ?thesis using NsQueueConn_uninterrupted [of ?s 0 0 "mk_time 100 0"] by force
qed

subsection \<open>Reports\<close>

lemma AppendConnList_links: "links (cnext p) c xs None \<Longrightarrow> length xs \<le> n \<Longrightarrow> AppendConnList n p c = Some xs"
proof (induction xs arbitrary: n c)
  case Nil
  then show ?case by simp
next
  case (Cons x xs)
  then obtain m where "n = Suc m" "length xs \<le> m" by (cases n) auto
  then show ?case using Cons by simp
qed

lemma list_active_held:
  assumes "own p fs ws H" "\<And>a c. a_connPtr (args p a) = Some c \<Longrightarrow> c \<in> H (f a)"
  shows "list_active as p = Some (List.map_filter (\<lambda>a. a_connPtr (args p a)) as)"
proof (induction as)
  case (Cons a as)
  have "AppendConnList (maxconns p) p (Some c) = Some [c]" if "a_connPtr (args p a) = Some c" for c
  proof -
    have "c < maxconns p" "cnext p c = None" using ownD(3) [OF assms(1) assms(2) [OF that]] by auto
    then show ?thesis using AppendConnList_links [of p "Some c" "[c]" "maxconns p"] by simp
  qed
  then show ?case using Cons by (simp add: map_filter_simps split: option.splits)
qed (simp add: map_filter_simps)

text \<open>
  The report of the queued requests lists the waiting queue from front to back, the report of the active requests
  lists exactly the connections stored with the thread slots: neither report runs into another list.
\<close>

theorem ServerList_correct:
  assumes "queue_reach run nd True (start_sys cf sk) s" "config_ok cf" "links_kept run"
  shows "\<exists>fs ws. queues (pool s) fs ws \<and> ServerListQueued (pool s) = Some ws \<and>
    ServerListActive (pool s) = Some (List.map_filter (\<lambda>a. cptr s a) [0..<nat (t_max (pool s))])"
proof -
  obtain fs ws where own: "own (pool s) fs ws (hold s)" using reach_inv [OF assms] by (auto simp: queue_inv_def)
  have q: "queues (pool s) fs ws" using ownD(1) [OF own] .
  then have "distinct ws" "set ws \<subseteq> {..<maxconns (pool s)}" by (auto simp: queues_def)
  then have "length ws \<le> maxconns (pool s)" using card_mono [of "{..<maxconns (pool s)}" "set ws"] distinct_card [of ws] by simp
  then have "ServerListQueued (pool s) = Some ws"
    unfolding ServerListQueued_def using AppendConnList_links q by (simp add: queues_def)
  moreover have "ServerListActive (pool s) = Some (List.map_filter (\<lambda>a. cptr s a) [0..<nat (t_max (pool s))])"
    unfolding ServerListActive_def by (rule list_active_held [OF own, of Inr]) (simp add: theld_def)
  ultimately show ?thesis using q by blast
qed

theorem ServerList_correct_witness:
  "\<exists>s. acts id 1 True stall_run (demo_start 10 1) = Some s \<and> ServerListQueued (pool s) = Some [0] \<and> ServerListActive (pool s) = Some []"
proof -
  have "\<exists>s. acts id 1 True stall_run (demo_start 10 1) = Some s \<and> firstPtr (pool s) = Some 0 \<and> cnext (pool s) 0 = None \<and>
      t_max (pool s) = 1 \<and> cptr s 0 = None" by (simp add: stall_run_def run_simps)
  then obtain s where s: "acts id 1 True stall_run (demo_start 10 1) = Some s" "firstPtr (pool s) = Some 0"
      "cnext (pool s) 0 = None" "t_max (pool s) = 1" "cptr s 0 = None" by blast
  have "queue_reach id 1 True (demo_start 10 1) s" by (rule acts_reach [OF s(1) queue_reach.start])
  from ServerList_correct [OF this demo_config_ok(1) id_links_kept] obtain fs ws where
    "queues (pool s) fs ws" "ServerListQueued (pool s) = Some ws" "ServerListActive (pool s) = Some (List.map_filter (\<lambda>a. cptr s a) [0..<nat (t_max (pool s))])" by blast
  moreover from this(1) s(2,3) have "ws = [0]" by (auto simp: queues_def dest!: links_SomeD)
  ultimately show ?thesis using s(1,4,5) by (auto simp: map_filter_simps)
qed

subsection \<open>What can go wrong\<close>

text \<open>
  A request can be lost: its driver reports success, but the connection ends up with a slot whose thread has
  left after a timeout; it is neither free nor waiting and nobody will serve it.
\<close>

lemma request_lost_after_timeout:
  "\<exists>s. queue_reach id 1 True (demo_start 3 2) s \<and> \<not> shutdown (srv s) \<and> drivers s 0 = D_out \<and>
     queues (pool s) [1, 2] [] \<and> cptr s 1 = Some 0 \<and> t_pc (threads s 1) = T_none"
proof -
  obtain s where s: "acts id 1 True lost_run (demo_start 3 2) = Some s" "t_pc (threads s 1) = T_none" "cptr s 1 = Some 0"
     "firstPtr (pool s) = None" "freePtr (pool s) = Some 1" "cnext (pool s) 1 = Some 2" "cnext (pool s) 2 = None"
     "drivers s 0 = D_out" "\<not> shutdown (srv s)" using lost_state by blast
  have r: "queue_reach id 1 True (demo_start 3 2) s" by (rule acts_reach [OF s(1) queue_reach.start])
  obtain fs ws where "queues (pool s) fs ws"
    using reach_inv [OF r demo_config_ok(2) id_links_kept] by (auto simp: queue_inv_def dest: ownD(1))
  moreover have "fs = [1, 2]" using calculation s(5-7) by (auto simp: queues_def dest!: links_SomeD)
  moreover have "ws = []" using calculation(1) s(4) by (simp add: queues_def)
  ultimately show ?thesis using r s by blast
qed

text \<open>A pool whose only threads wait while a request is queued, with no more threads than the minimum.\<close>

definition stalled :: "queue_sys \<Rightarrow> bool" where
  "stalled s \<longleftrightarrow> firstPtr (pool s) \<noteq> None \<and> \<not> shutdown (srv s) \<and> t_current (pool s) \<le> t_min (pool s) \<and>
     (\<forall>a. t_pc (threads s a) \<in> {T_none, T_check, T_wait} \<and> cptr s a = None)"

lemma stalled_thread:
  assumes "stalled s" "act run (Thread a status) s = Some s'"
  shows "stalled s' \<and> firstPtr (pool s') = firstPtr (pool s)"
proof -
  have "t_pc (threads s a) \<in> {T_none, T_check, T_wait}" and c: "cptr s a = None" "\<not> shutdown (srv s)"
    using assms(1) by (auto simp: stalled_def)
  then consider "t_pc (threads s a) = T_none" | "t_pc (threads s a) = T_check" | "t_pc (threads s a) = T_wait" by blast
  then show ?thesis
  proof cases
    case 2
    then show ?thesis using assms c by (auto simp: stalled_def act_def NsConnThread_step_def go_thread_def Let_def) blast
  next
    case 3
    have "NsConnThread_woken status a (pool s) = (status, False)"
      using assms(1) c by (auto simp: stalled_def NsConnThread_woken_def)
    then show ?thesis using assms c 3 by (auto simp: stalled_def act_def NsConnThread_step_def go_thread_def Let_def) blast
  qed (use assms in \<open>simp add: act_def NsConnThread_step_def\<close>)
qed

lemma stalled_forever:
  "stalled s \<Longrightarrow> (\<forall>x \<in> set xs. \<exists>a st. x = Thread a st) \<Longrightarrow> acts run nd races xs s = Some s' \<Longrightarrow>
   stalled s' \<and> firstPtr (pool s') = firstPtr (pool s)"
proof (induction xs arbitrary: s)
  case (Cons x xs)
  obtain a st where x: "x = Thread a st" using Cons.prems(2) by auto
  obtain s1 where s1: "act run x s = Some s1" "acts run nd races xs s1 = Some s'"
    using Cons.prems(3) by (auto split: option.splits if_splits)
  have "stalled s1 \<and> firstPtr (pool s1) = firstPtr (pool s)"
    using stalled_thread [OF Cons.prems(1), of run a st s1] s1(1) x by simp
  then show ?case using Cons.IH [of s1] s1(2) Cons.prems(2) by auto
qed simp

text \<open>The states that steps of threads alone lead to.\<close>

definition thread_runs :: "queue_sys \<Rightarrow> queue_sys set" where
  "thread_runs s = {s'. \<exists>xs. (\<forall>x \<in> set xs. \<exists>a st. x = Thread a st) \<and> acts id 1 True xs s = Some s'}"


text \<open>
  The assertion of \<^verbatim>\<open>WakeupConnThreads\<close> that an idle thread has no connection fails between the assignment of
  a connection and the moment the thread wakes up.
\<close>

lemma wakeup_assertion_fails:
  "\<exists>s. acts id 1 False (step_thread 7 0 @ Arrive 0 0 # step_driver 5 0 @ [Stop]) (demo_start 10 1) = Some s \<and>
     \<not> wakeup_asserted (pool s)"
  by (simp add: run_simps wakeup_asserted_def WakeupConnThreads_def)

text \<open>
  When \<^verbatim>\<open>maxthreads\<close> is lowered at run time, idle threads in slots beyond the new limit are not signalled at shutdown.
\<close>

lemma wakeup_misses_high_slots:
  "a_state (args p 5) = connThread_idle \<Longrightarrow> t_min p \<le> 5 \<Longrightarrow> 5 < int (maxconns p) \<Longrightarrow>
   \<exists>q. ServerMaxThreadsObjCmd 5 p = Some q \<and> a_state (args q 5) = connThread_idle \<and> 5 \<notin> set (WakeupConnThreads q)"
  by (simp add: ServerMaxThreadsObjCmd_def WakeupConnThreads_def)

text \<open>The default pool is not noted in the socket, so a rejected request of it gets no \<^verbatim>\<open>Retry-After\<close> header.\<close>

lemma default_pool_not_noted:
  "s_poolPtr sk = None \<Longrightarrow> (\<And>m u. lookup m u = None) \<Longrightarrow>
   fst (NsQueueConn_pool lookup def sk) = def \<and> s_poolPtr (snd (NsQueueConn_pool lookup def sk)) = None"
  by (auto simp: NsQueueConn_pool_def Let_def split: option.splits)

end
