(* ===== verification/NsConnFlags.thy ===== *)
theory NsConnFlags
  imports "HOL-Library.Word"
begin

text \<open>
  The flags of \<^verbatim>\<open>include/ns.h\<close> that the driver sets while it reads the header of a request (\<open>NsDriver\<close>) and
  the connection thread reads, and answers with a status of its own, when it runs the request (\<open>NsRequest\<close>).
\<close>

definition NS_CONN_ZIPACCEPTED :: "32 word" where "NS_CONN_ZIPACCEPTED = 0x0010000"

definition NS_CONN_BROTLIACCEPTED :: "32 word" where "NS_CONN_BROTLIACCEPTED = 0x0020000"

definition NS_CONN_CONTINUE :: "32 word" where "NS_CONN_CONTINUE = 0x0040000"

definition NS_CONN_ENTITYTOOLARGE :: "32 word" where "NS_CONN_ENTITYTOOLARGE = 0x0100000"

definition NS_CONN_REQUESTURITOOLONG :: "32 word" where "NS_CONN_REQUESTURITOOLONG = 0x0200000"

definition NS_CONN_LINETOOLONG :: "32 word" where "NS_CONN_LINETOOLONG = 0x0400000"

end
