(* ===== verification/NsRequest.thy ===== *)
theory NsRequest
  imports NsPrelude NsConnFlags
begin

unbundle bit_operations_syntax

text \<open>
  The life of a request: filters, authorization, the request procedure, traces and cleanups. The model of
  \<^verbatim>\<open>nsd/filter.c\<close>, of the authorization chains of \<^verbatim>\<open>nsd/auth.c\<close>, of \<^verbatim>\<open>Ns_ConnRunRequest\<close> and
  \<^verbatim>\<open>Ns_ConnRedirect\<close> of \<^verbatim>\<open>nsd/op.c\<close>, and of \<^verbatim>\<open>ConnRun\<close> of \<^verbatim>\<open>nsd/queue.c\<close>.

  A connection is a record with the parts these functions read, and a part \<open>rest\<close> for everything else a
  callback may change. Callbacks (filters, authorization procedures, request procedures, traces) are
  functions on connections, so is the delivery of a standard response; they are arguments of the
  model. Lists of callbacks are the linked lists of the code.
\<close>

subsection \<open>Connections and callbacks\<close>

datatype Ns_FilterType = NS_FILTER_PRE_AUTH | NS_FILTER_POST_AUTH | NS_FILTER_TRACE | NS_FILTER_VOID_TRACE

datatype continuation = C_OK | C_ERROR | C_RETURN | C_BREAK | C_CONTINUE

datatype NsRequestType =
    NS_REQUEST_TYPE_PLAIN | NS_REQUEST_TYPE_PROXY | NS_REQUEST_TYPE_CONNECT | NS_REQUEST_TYPE_ASTERISK

record 'x rconn =
  r_method :: "string option"
  r_url :: "string option"
  r_type :: NsRequestType
  r_flags :: "32 word"
  r_sockPtr :: bool
  rest :: 'x

type_synonym 'x proc = "'x rconn \<Rightarrow> Ns_ReturnCode \<times> 'x rconn"

record 'x Filter =
  f_method :: string
  f_url :: string
  f_ctx :: "('x rconn \<Rightarrow> bool) option"
  f_when :: Ns_FilterType
  f_proc :: "Ns_FilterType \<Rightarrow> 'x proc"

record 'x Trace =
  tr_proc :: nat
  tr_run :: "'x rconn \<Rightarrow> 'x rconn"

record 'x RequestAuth =
  ra_authority :: string
  ra_proc :: "'x rconn \<Rightarrow> Ns_ReturnCode \<times> continuation \<times> 'x rconn"

text \<open>What a server has registered, and the functions of other components it calls.\<close>

record 'x request_env =
  e_filters :: "'x Filter list"
  e_traces :: "'x Trace list"
  e_cleanups :: "'x Trace list"
  e_auths :: "'x RequestAuth list"
  e_match :: "string \<Rightarrow> string \<Rightarrow> bool"
  e_driverProc :: "'x proc option"
  e_proxy :: "'x proc"
  e_lookup :: "'x rconn \<Rightarrow> 'x proc option"
  e_respond :: "nat \<Rightarrow> 'x proc"
  e_close :: "'x rconn \<Rightarrow> 'x rconn"
  e_nslog :: "'x rconn \<Rightarrow> 'x rconn"

subsection \<open>Registration\<close>

definition Ns_RegisterFilter2 :: "'x Filter \<Rightarrow> bool \<Rightarrow> 'x request_env \<Rightarrow> 'x request_env" where
  "Ns_RegisterFilter2 f first e =
     (if first then e\<lparr>e_filters := f # e_filters e\<rparr> else e\<lparr>e_filters := e_filters e @ [f]\<rparr>)"

definition Ns_RegisterServerTrace :: "'x Trace \<Rightarrow> 'x request_env \<Rightarrow> 'x request_env" where
  "Ns_RegisterServerTrace t e = e\<lparr>e_traces := e_traces e @ [t]\<rparr>"

definition RegisterCleanup :: "'x Trace \<Rightarrow> 'x request_env \<Rightarrow> 'x request_env" where
  "RegisterCleanup t e = e\<lparr>e_cleanups := t # e_cleanups e\<rparr>"

definition RegisterAuth :: "'x RequestAuth \<Rightarrow> bool \<Rightarrow> 'x request_env \<Rightarrow> 'x request_env" where
  "RegisterAuth a first e =
     (if first then e\<lparr>e_auths := a # e_auths e\<rparr>
      else if e_auths e = [] then e\<lparr>e_auths := [a]\<rparr>
      else e\<lparr>e_auths := e_auths e @ [a]\<rparr>)"

subsection \<open>Filters and traces\<close>

definition filter_applies :: "(string \<Rightarrow> string \<Rightarrow> bool) \<Rightarrow> Ns_FilterType \<Rightarrow> 'x rconn \<Rightarrow> 'x rconn \<Rightarrow> 'x Filter \<Rightarrow> bool" where
  "filter_applies smatch why start c f \<longleftrightarrow>
     f_when f = why
     \<and> (case r_method c of Some m \<Rightarrow> smatch m (f_method f) | None \<Rightarrow> False)
     \<and> (case r_url c of Some u \<Rightarrow> smatch u (f_url f) | None \<Rightarrow> False)
     \<and> (case f_ctx f of None \<Rightarrow> True | Some holds \<Rightarrow> holds start)"

text \<open>
  The loop over the filters. The context of the constraints is built once from the connection at the start,
  method and URL are read again for each filter.
\<close>

fun filter_loop ::
    "(string \<Rightarrow> string \<Rightarrow> bool) \<Rightarrow> Ns_FilterType \<Rightarrow> 'x rconn \<Rightarrow> 'x Filter list \<Rightarrow> 'x proc" where
  "filter_loop smatch why start [] c = (NS_OK, c)"
| "filter_loop smatch why start (f # fs) c =
     (if filter_applies smatch why start c f then
        (case f_proc f why c of (st, c') \<Rightarrow>
           if st = NS_OK then filter_loop smatch why start fs c' else (st, c'))
      else filter_loop smatch why start fs c)"

definition NsRunFilters :: "'x request_env \<Rightarrow> Ns_FilterType \<Rightarrow> 'x proc" where
  "NsRunFilters e why c =
     (if r_method c \<noteq> None \<and> r_url c \<noteq> None then
        (case filter_loop (e_match e) why c (e_filters e) c of (st, c') \<Rightarrow>
           if st = NS_FILTER_BREAK \<or> why = NS_FILTER_TRACE \<and> st = NS_FILTER_RETURN
           then (NS_OK, c') else (st, c'))
      else (NS_OK, c))"

fun RunTraces :: "'x Trace list \<Rightarrow> 'x rconn \<Rightarrow> 'x rconn" where
  "RunTraces [] c = c"
| "RunTraces (t # ts) c = RunTraces ts (tr_run t c)"

fun RunSelectedTraces :: "'x Trace list \<Rightarrow> nat \<Rightarrow> 'x rconn \<Rightarrow> 'x rconn" where
  "RunSelectedTraces [] traceProc c = c"
| "RunSelectedTraces (t # ts) traceProc c =
     (if tr_proc t = traceProc then RunSelectedTraces ts traceProc (tr_run t c) else c)"

definition NsRunTraces :: "'x request_env \<Rightarrow> 'x rconn \<Rightarrow> 'x rconn" where
  "NsRunTraces e c = RunTraces (e_traces e) c"

definition NsRunCleanups :: "'x request_env \<Rightarrow> 'x rconn \<Rightarrow> 'x rconn" where
  "NsRunCleanups e c = RunTraces (e_cleanups e) c"

subsection \<open>Authorization\<close>

fun auth_loop :: "'x RequestAuth list \<Rightarrow> Ns_ReturnCode \<Rightarrow> string option \<Rightarrow> 'x rconn \<Rightarrow>
    Ns_ReturnCode \<times> continuation \<times> string option \<times> 'x rconn" where
  "auth_loop [] status authority c = (status, C_OK, authority, c)"
| "auth_loop (a # as) status authority c =
     (case ra_proc a c of (st, cont, c') \<Rightarrow>
        if cont = C_OK then auth_loop as st (Some (ra_authority a)) c'
        else (st, cont, Some (ra_authority a), c'))"

text \<open>The status, the authority label and the connection.\<close>

definition Ns_AuthorizeRequest :: "'x request_env \<Rightarrow> 'x rconn \<Rightarrow> Ns_ReturnCode \<times> string option \<times> 'x rconn" where
  "Ns_AuthorizeRequest e c =
     (case auth_loop (e_auths e) NS_OK None c of (st, cont, authority, c') \<Rightarrow>
        (if cont = C_RETURN then NS_FILTER_RETURN else st, authority, c'))"

text \<open>\<^verbatim>\<open>Ns_AuthorizeUser\<close> on a chain of procedures that see the user name and the password.\<close>

fun user_auth_loop :: "(string \<times> (string \<Rightarrow> string \<Rightarrow> Ns_ReturnCode \<times> continuation)) list \<Rightarrow> string \<Rightarrow> string \<Rightarrow>
    Ns_ReturnCode \<Rightarrow> string option \<Rightarrow> Ns_ReturnCode \<times> continuation \<times> string option" where
  "user_auth_loop [] user passwd status authority = (status, C_OK, authority)"
| "user_auth_loop ((label, p) # as) user passwd status authority =
     (case p user passwd of (st, cont) \<Rightarrow>
        if cont = C_OK then user_auth_loop as user passwd st (Some label) else (st, cont, Some label))"

definition Ns_AuthorizeUser :: "(string \<times> (string \<Rightarrow> string \<Rightarrow> Ns_ReturnCode \<times> continuation)) list \<Rightarrow> string \<Rightarrow> string \<Rightarrow>
    Ns_ReturnCode \<times> string option" where
  "Ns_AuthorizeUser as user passwd =
     (case user_auth_loop as user passwd NS_UNAUTHORIZED None of (st, cont, authority) \<Rightarrow>
        (if cont = C_RETURN then NS_FILTER_RETURN else st, authority))"

subsection \<open>Running the request\<close>

text \<open>
  \<^verbatim>\<open>Ns_ConnTryReturnInternalError\<close>: nothing is sent on a closed connection. The standard responses are
  numbered by their HTTP status.
\<close>

definition Ns_ConnTryReturnInternalError :: "'x request_env \<Rightarrow> Ns_ReturnCode \<Rightarrow> 'x proc" where
  "Ns_ConnTryReturnInternalError e status c = (if \<not> r_sockPtr c then (status, c) else e_respond e 500 c)"

definition Ns_ConnRunRequest :: "'x request_env \<Rightarrow> 'x proc" where
  "Ns_ConnRunRequest e c =
     (if r_flags c AND NS_CONN_ENTITYTOOLARGE \<noteq> 0 then
        e_respond e 413 (c\<lparr>r_flags := r_flags c AND NOT NS_CONN_ENTITYTOOLARGE\<rparr>)
      else if r_flags c AND NS_CONN_REQUESTURITOOLONG \<noteq> 0 then
        e_respond e 414 (c\<lparr>r_flags := r_flags c AND NOT NS_CONN_REQUESTURITOOLONG\<rparr>)
      else if r_flags c AND NS_CONN_LINETOOLONG \<noteq> 0 then
        e_respond e 431 (c\<lparr>r_flags := r_flags c AND NOT NS_CONN_LINETOOLONG\<rparr>)
      else
        (case (r_method c, r_url c) of
           (Some m, Some u) \<Rightarrow>
             (case e_lookup e c of
                None \<Rightarrow> if m = ''BAD'' then e_respond e 400 c else e_respond e 405 c
              | Some p \<Rightarrow> p c)
         | _ \<Rightarrow> (NS_OK, c)))"

text \<open>The part of \<^verbatim>\<open>ConnRun\<close> for classical requests, after the pre-authorization filters.\<close>

definition conn_authorized :: "'x request_env \<Rightarrow> 'x proc" where
  "conn_authorized e c =
     (case Ns_AuthorizeRequest e c of (st, authority, c1) \<Rightarrow>
        (case st of
           NS_FORBIDDEN \<Rightarrow> (st, snd (e_respond e 403 c1))
         | NS_UNAUTHORIZED \<Rightarrow> (st, snd (e_respond e 401 c1))
         | NS_FILTER_RETURN \<Rightarrow> (st, c1)
         | NS_ERROR \<Rightarrow> (st, snd (Ns_ConnTryReturnInternalError e st c1))
         | NS_TIMEOUT \<Rightarrow> (st, snd (Ns_ConnTryReturnInternalError e st c1))
         | _ \<Rightarrow>
             (case NsRunFilters e NS_FILTER_POST_AUTH c1 of (st2, c2) \<Rightarrow>
                if st2 = NS_OK \<and> r_sockPtr c2 then Ns_ConnRunRequest e c2 else (st2, c2))))"

definition conn_classical :: "'x request_env \<Rightarrow> 'x proc" where
  "conn_classical e c =
     (case NsRunFilters e NS_FILTER_PRE_AUTH c of (st, c1) \<Rightarrow>
        let st = (if \<not> r_sockPtr c1 then NS_FILTER_RETURN else st)
        in if st = NS_OK then conn_authorized e c1
           else if st \<noteq> NS_FILTER_RETURN then (NS_FILTER_RETURN, snd (Ns_ConnTryReturnInternalError e st c1))
           else (st, c1))"

definition conn_serve :: "'x request_env \<Rightarrow> 'x proc" where
  "conn_serve e c =
     (case e_driverProc e of
        Some p \<Rightarrow> p c
      | None \<Rightarrow> if r_type c = NS_REQUEST_TYPE_PROXY \<or> r_type c = NS_REQUEST_TYPE_CONNECT then e_proxy e c else conn_classical e c)"

definition conn_traces :: "'x request_env \<Rightarrow> Ns_ReturnCode \<Rightarrow> 'x rconn \<Rightarrow> 'x rconn" where
  "conn_traces e status c =
     (if status = NS_OK \<or> status = NS_FILTER_RETURN then
        (case NsRunFilters e NS_FILTER_TRACE c of (st, c1) \<Rightarrow>
           if st = NS_OK then NsRunTraces e (snd (NsRunFilters e NS_FILTER_VOID_TRACE c1)) else c1)
      else e_nslog e c)"

definition ConnRun :: "'x request_env \<Rightarrow> 'x rconn \<Rightarrow> 'x rconn" where
  "ConnRun e c =
     (case conn_serve e c of (status, c1) \<Rightarrow> e_close e (NsRunCleanups e (conn_traces e status c1)))"

text \<open>The internal redirect, with \<open>set_url\<close> for \<^verbatim>\<open>Ns_SetRequestUrl\<close>.\<close>

definition Ns_ConnRedirect :: "'x request_env \<Rightarrow> (string \<Rightarrow> 'x proc) \<Rightarrow> string \<Rightarrow> 'x proc" where
  "Ns_ConnRedirect e set_url url c =
     (case set_url url c of (st0, c0) \<Rightarrow>
      (case (if st0 = NS_OK then (case Ns_AuthorizeRequest e c0 of (st, _, c1) \<Rightarrow> (st, c1)) else (st0, c0)) of
         (st, c1) \<Rightarrow>
           (case st of
              NS_OK \<Rightarrow> Ns_ConnRunRequest e c1
            | NS_FORBIDDEN \<Rightarrow> e_respond e 403 c1
            | NS_UNAUTHORIZED \<Rightarrow> e_respond e 401 c1
            | _ \<Rightarrow> Ns_ConnTryReturnInternalError e st c1)))"

subsection \<open>Filters\<close>

lemma filter_loop_append:
  "filter_loop m why s (fs @ gs) c =
     (case filter_loop m why s fs c of (st, c') \<Rightarrow> if st = NS_OK then filter_loop m why s gs c' else (st, c'))"
  by (induction m why s fs c rule: filter_loop.induct) (auto split: prod.splits)

text \<open>The answers a filter may give.\<close>

definition filter_code :: "Ns_ReturnCode \<Rightarrow> bool" where
  "filter_code st \<longleftrightarrow> st \<in> {NS_OK, NS_ERROR, NS_FILTER_BREAK, NS_FILTER_RETURN}"

text \<open>
  Filters run in the order of the list, and the first one that does not answer NS_OK ends the run: what is
  registered behind it has no influence. If all filters give one of the four documented answers, the
  result is NS_OK, NS_ERROR or NS_FILTER_RETURN, as the assertion at the end of \<^verbatim>\<open>NsRunFilters\<close> demands, and
  after trace filters it is never NS_FILTER_RETURN.
\<close>

theorem NsRunFilters_first_answer:
  assumes "filter_loop (e_match e) why c fs c = (NS_OK, c1)" "filter_applies (e_match e) why c c1 f"
    and "f_proc f why c1 = (st, c2)" "st \<noteq> NS_OK" "e_filters e = fs @ f # gs" "r_method c \<noteq> None" "r_url c \<noteq> None"
    and "\<forall>g \<in> set (e_filters e). \<forall>x. filter_code (fst (f_proc g why x))"
  shows "NsRunFilters e why c =
      (if st = NS_FILTER_BREAK \<or> why = NS_FILTER_TRACE \<and> st = NS_FILTER_RETURN then NS_OK else st, c2)
    \<and> fst (NsRunFilters e why c) \<in> {NS_OK, NS_ERROR, NS_FILTER_RETURN}
    \<and> (why = NS_FILTER_TRACE \<longrightarrow> fst (NsRunFilters e why c) \<noteq> NS_FILTER_RETURN)"
proof -
  have "filter_loop (e_match e) why c (e_filters e) c = (st, c2)"
    using assms(1-5) by (simp add: filter_loop_append)
  then have eq: "NsRunFilters e why c =
      (if st = NS_FILTER_BREAK \<or> why = NS_FILTER_TRACE \<and> st = NS_FILTER_RETURN then NS_OK else st, c2)"
    using assms(6,7) by (simp add: NsRunFilters_def)
  have "filter_code (fst (f_proc f why c1))" using assms(5,8) by (metis in_set_conv_decomp)
  then have "filter_code st" using assms(3) by simp
  then show ?thesis unfolding eq by (auto simp: filter_code_def)
qed

text \<open>A filter that stops the request, behind one that does not apply, for the witnesses.\<close>

definition demo_env :: "nat request_env" where
  "demo_env =
     \<lparr>e_filters = [\<lparr>f_method = ''POST'', f_url = ''/'', f_ctx = None, f_when = NS_FILTER_PRE_AUTH,
                    f_proc = (\<lambda>why c. (NS_ERROR, c))\<rparr>,
                   \<lparr>f_method = ''GET'', f_url = ''/'', f_ctx = None, f_when = NS_FILTER_PRE_AUTH,
                    f_proc = (\<lambda>why c. (NS_FILTER_RETURN, c\<lparr>rest := rest c + 1\<rparr>))\<rparr>],
      e_traces = [], e_cleanups = [], e_auths = [], e_match = (=), e_driverProc = None,
      e_proxy = (\<lambda>c. (NS_OK, c)), e_lookup = (\<lambda>c. Some (\<lambda>c. (NS_OK, c\<lparr>rest := 100\<rparr>))),
      e_respond = (\<lambda>n c. (NS_OK, c\<lparr>rest := n\<rparr>)), e_close = (\<lambda>c. c\<lparr>r_sockPtr := False\<rparr>), e_nslog = id\<rparr>"

definition demo_conn :: "nat rconn" where
  "demo_conn = \<lparr>r_method = Some ''GET'', r_url = Some ''/'', r_type = NS_REQUEST_TYPE_PLAIN, r_flags = 0, r_sockPtr = True, rest = 0\<rparr>"

theorem NsRunFilters_first_answer_witness:
  "NsRunFilters demo_env NS_FILTER_PRE_AUTH demo_conn = (NS_FILTER_RETURN, demo_conn\<lparr>rest := 1\<rparr>)"
  using NsRunFilters_first_answer [of demo_env NS_FILTER_PRE_AUTH demo_conn "[hd (e_filters demo_env)]" demo_conn
      "e_filters demo_env ! 1" NS_FILTER_RETURN "demo_conn\<lparr>rest := 1\<rparr>" "[]"]
  by (simp add: demo_env_def demo_conn_def filter_applies_def filter_code_def)

subsection \<open>The life of a request\<close>

text \<open>
  The way to the request procedure: the connection after the pre-authorization filters, the authorization and the
  post-authorization filters, if all of them agree and the connection is still open.
\<close>

definition admitted :: "'x request_env \<Rightarrow> 'x rconn \<Rightarrow> 'x rconn option" where
  "admitted e c =
     (case NsRunFilters e NS_FILTER_PRE_AUTH c of (st1, c1) \<Rightarrow>
        if st1 = NS_OK \<and> r_sockPtr c1 then
          (case Ns_AuthorizeRequest e c1 of (st2, _, c2) \<Rightarrow>
             if st2 = NS_OK \<or> st2 = NS_FILTER_BREAK then
               (case NsRunFilters e NS_FILTER_POST_AUTH c2 of (st3, c3) \<Rightarrow>
                  if st3 = NS_OK \<and> r_sockPtr c3 then Some c3 else None)
             else None)
        else None)"

lemma env_lookup_irrelevant [simp]:
  "NsRunFilters (e\<lparr>e_lookup := f\<rparr>) = NsRunFilters e" "Ns_AuthorizeRequest (e\<lparr>e_lookup := f\<rparr>) = Ns_AuthorizeRequest e"
  "Ns_ConnTryReturnInternalError (e\<lparr>e_lookup := f\<rparr>) = Ns_ConnTryReturnInternalError e"
  "conn_traces (e\<lparr>e_lookup := f\<rparr>) = conn_traces e" "NsRunCleanups (e\<lparr>e_lookup := f\<rparr>) = NsRunCleanups e"
  by (auto simp: NsRunFilters_def Ns_AuthorizeRequest_def Ns_ConnTryReturnInternalError_def conn_traces_def
      NsRunTraces_def NsRunCleanups_def fun_eq_iff split: prod.splits)

lemma admitted_lookup [simp]: "admitted (e\<lparr>e_lookup := f\<rparr>) = admitted e"
  by (auto simp: admitted_def fun_eq_iff split: prod.splits)

lemma conn_classical_admitted:
  "conn_classical e c =
     (case admitted e c of
        Some c3 \<Rightarrow> Ns_ConnRunRequest e c3
      | None \<Rightarrow> conn_classical (e\<lparr>e_lookup := f\<rparr>) c)"
  by (auto simp: conn_classical_def conn_authorized_def admitted_def Let_def
      split: prod.splits Ns_ReturnCode.splits)



lemma RunTraces_append: "RunTraces (ts @ us) c = RunTraces us (RunTraces ts c)"
  by (induction ts c rule: RunTraces.induct) auto

lemma RunTraces_rev: "RunTraces (rev ts) c = foldr tr_run ts c"
  by (induction ts arbitrary: c) (auto simp: RunTraces_append)

lemma env_cleanups_irrelevant [simp]:
  "NsRunFilters (e\<lparr>e_cleanups := f\<rparr>) = NsRunFilters e" "Ns_AuthorizeRequest (e\<lparr>e_cleanups := f\<rparr>) = Ns_AuthorizeRequest e"
  "Ns_ConnTryReturnInternalError (e\<lparr>e_cleanups := f\<rparr>) = Ns_ConnTryReturnInternalError e"
  "Ns_ConnRunRequest (e\<lparr>e_cleanups := f\<rparr>) = Ns_ConnRunRequest e" "conn_traces (e\<lparr>e_cleanups := f\<rparr>) = conn_traces e"
  "conn_serve (e\<lparr>e_cleanups := f\<rparr>) = conn_serve e"
proof -
  show a: "NsRunFilters (e\<lparr>e_cleanups := f\<rparr>) = NsRunFilters e" "Ns_AuthorizeRequest (e\<lparr>e_cleanups := f\<rparr>) = Ns_AuthorizeRequest e"
    "Ns_ConnTryReturnInternalError (e\<lparr>e_cleanups := f\<rparr>) = Ns_ConnTryReturnInternalError e"
    "Ns_ConnRunRequest (e\<lparr>e_cleanups := f\<rparr>) = Ns_ConnRunRequest e"
    by (auto simp: NsRunFilters_def Ns_AuthorizeRequest_def Ns_ConnTryReturnInternalError_def Ns_ConnRunRequest_def fun_eq_iff
        split: option.splits prod.splits)
  then show "conn_traces (e\<lparr>e_cleanups := f\<rparr>) = conn_traces e" "conn_serve (e\<lparr>e_cleanups := f\<rparr>) = conn_serve e"
    by (auto simp: conn_traces_def NsRunTraces_def conn_serve_def conn_classical_def conn_authorized_def fun_eq_iff Let_def
        split: option.splits prod.splits Ns_ReturnCode.splits)
qed

lemma fold_RegisterCleanup: "fold RegisterCleanup ts e = e\<lparr>e_cleanups := rev ts @ e_cleanups e\<rparr>"
  by (induction ts arbitrary: e) (auto simp: RegisterCleanup_def)

text \<open>
  Whatever a request does and whatever its status is, the registered cleanups run once each, the last registered
  first, after the request procedure, the trace filters and the traces, and then the connection is closed.
\<close>

theorem cleanups_run_last:
  assumes "e_cleanups e = []" "conn_serve e c = (status, c1)"
  shows "ConnRun (fold RegisterCleanup ts e) c = e_close e (foldr tr_run ts (conn_traces e status c1))"
  using assms by (simp add: fold_RegisterCleanup ConnRun_def NsRunCleanups_def RunTraces_rev)

theorem cleanups_run_last_witness:
  "rest (ConnRun (fold RegisterCleanup [\<lparr>tr_proc = 1, tr_run = (\<lambda>c. c\<lparr>rest := 2 * rest c\<rparr>)\<rparr>,
      \<lparr>tr_proc = 2, tr_run = (\<lambda>c. c\<lparr>rest := rest c + 5\<rparr>)\<rparr>] demo_env) demo_conn) = 12"
proof -
  have a: "e_cleanups demo_env = []" by (simp add: demo_env_def)
  have s: "conn_serve demo_env demo_conn = (NS_FILTER_RETURN, demo_conn\<lparr>rest := 1\<rparr>)"
    by (simp add: conn_serve_def conn_classical_def NsRunFilters_def demo_env_def demo_conn_def filter_applies_def Let_def)
  show ?thesis unfolding cleanups_run_last [OF a s]
    by (simp add: conn_traces_def NsRunFilters_def NsRunTraces_def demo_env_def demo_conn_def filter_applies_def)
qed

subsection \<open>Differences\<close>

text \<open>
  \<^verbatim>\<open>RunSelectedTraces\<close> ends at the first trace of another procedure instead of skipping it, so a selected trace that is
  registered behind another one is never run.
\<close>

lemma selected_traces_stop_early:
  "tr_proc t \<noteq> p \<Longrightarrow> RunSelectedTraces (t # ts) p c = c"
  by simp

text \<open>
  After an answer NS_FILTER_BREAK of the authorization an ordinary request is run, but an internal redirect returns an
  internal error; and a redirect whose authorization procedure has responded itself (NS_FILTER_RETURN) sends
  a second response.
\<close>

lemma redirect_rejects_break:
  assumes "Ns_AuthorizeRequest e c1 = (NS_FILTER_BREAK, a, c2)" "set_url url c = (NS_OK, c1)" "r_sockPtr c2"
  shows "Ns_ConnRedirect e set_url url c = e_respond e 500 c2"
  using assms by (simp add: Ns_ConnRedirect_def Ns_ConnTryReturnInternalError_def)

lemma redirect_responds_twice:
  assumes "Ns_AuthorizeRequest e c1 = (NS_FILTER_RETURN, a, c2)" "set_url url c = (NS_OK, c1)" "r_sockPtr c2"
  shows "Ns_ConnRedirect e set_url url c = e_respond e 500 c2"
  using assms by (simp add: Ns_ConnRedirect_def Ns_ConnTryReturnInternalError_def)

text \<open>After an error of a post-authorization filter nothing is sent to the client.\<close>

lemma post_auth_error_silent:
  assumes "Ns_AuthorizeRequest e c = (NS_OK, a, c2)" "NsRunFilters e NS_FILTER_POST_AUTH c2 = (NS_ERROR, c3)"
  shows "conn_authorized e c = (NS_ERROR, c3)"
  using assms by (simp add: conn_authorized_def)

end
