(* ===== verification/NsAuth.thy ===== *)
theory NsAuth
  imports NsSet NsBase64 NsScan
begin

unbundle bit_operations_syntax

text \<open>
  \<^verbatim>\<open>NsParseAuth\<close> of \<^verbatim>\<open>nsd/auth.c\<close>: the credentials of an Authorization header, as the fields of the set
  \<^verbatim>\<open>connPtr->auth\<close>, and the accessors of \<^verbatim>\<open>nsd/conn.c\<close>. A client that encodes a user name and a password
  with the Basic scheme, or the parameters of a Digest response, is understood: the set holds exactly what
  was encoded.
\<close>

definition auth_set :: "ns_set option \<Rightarrow> ns_set" where
  "auth_set a = (case a of
     Some st \<Rightarrow> st
   | None \<Rightarrow> (let st = Ns_SetCreate (Some ''auth'') in st\<lparr>flags := flags st OR NS_SET_OPTION_NOCASE\<rparr>))"

definition put_str :: "ns_set \<Rightarrow> cstring \<Rightarrow> cstring \<Rightarrow> ns_set" where
  "put_str st k v = snd (Ns_SetPutSz st k (Some (length k)) (Some v) (Some (length v)))"

subsection \<open>The schemes\<close>

text \<open>The decoded text is a buffer with a length, in which \<^verbatim>\<open>strchr\<close> stops at the first NUL.\<close>

definition parse_basic :: "ns_set \<Rightarrow> cstring \<Rightarrow> ns_set" where
  "parse_basic st q =
     (let st = put_str st ''AuthMethod'' ''Basic'';
          q = skip_spaces q;
          size = Ns_HtuuDecode q;
          v = map (\<lambda>b. char_of (unat b)) (take size (snd (Ns_HtuuDecode2 q 0 False)))
      in if CHR '':'' \<in> set (takeWhile (\<lambda>c. c \<noteq> NUL_char) v) then
           (let user = takeWhile (\<lambda>c. c \<noteq> CHR '':'') v;
                st = put_str st ''Password'' (drop (length user + 1) v)
            in put_str st ''Username'' user)
         else put_str st ''Username'' v)"

text \<open>
  The name of a parameter without its trailing spaces; the loop that trims them never passes the first character.
\<close>

definition digest_name :: "cstring \<Rightarrow> cstring" where
  "digest_name n = (case n of [] \<Rightarrow> [] | c # cs \<Rightarrow> c # rev (dropWhile c_isspace (rev cs)))"

text \<open>The value at the start of a text and the rest behind it.\<close>

definition digest_value :: "cstring \<Rightarrow> cstring \<times> cstring" where
  "digest_value p =
     (if hd p = CHR 0x22 then (takeWhile (\<lambda>c. c \<noteq> CHR 0x22) (tl p), dropWhile (\<lambda>c. c \<noteq> CHR 0x22) (tl p))
      else (let stop = (\<lambda>c. c \<noteq> CHR '','' \<and> \<not> c_isspace c) in (takeWhile stop p, dropWhile stop p)))"

definition digest_skip :: "cstring \<Rightarrow> cstring" where
  "digest_skip = dropWhile (\<lambda>c. c = CHR '','' \<or> c = CHR 0x22 \<or> c_isspace c)"

lemma digest_value_length: "p \<noteq> [] \<Longrightarrow> length (snd (digest_value p)) \<le> length p"
  by (cases p) (auto simp: digest_value_def Let_def intro: le_trans [OF length_dropWhile_le])

function digest_loop :: "ns_set \<Rightarrow> cstring \<Rightarrow> set_error + ns_set" where
  "digest_loop st q =
     (case split_at (CHR ''='') q of
        None \<Rightarrow> Inr st
      | Some (n, p) \<Rightarrow>
          (let name = digest_name n;
               (idx, st) = Ns_SetPutSz st name (Some (length name)) None (Some 0);
               p = skip_spaces p
           in if p = [] then Inr st
              else case Ns_SetPutValueSz st idx (fst (digest_value p)) None of
                     Inl e \<Rightarrow> Inl e
                   | Inr st \<Rightarrow> digest_loop st (digest_skip (snd (digest_value p)))))"
  by pat_completeness auto
termination
proof (relation "measure (\<lambda>(st, q). length q)")
  fix st q x n p idx st1 st2 name and p1 :: cstring and x2 :: "nat \<times> ns_set"
  assume a: "split_at (CHR ''='') q = Some x" "(n, p) = x" "p1 = skip_spaces p" "p1 \<noteq> []"
  have "length (digest_skip (snd (digest_value p1))) \<le> length p1"
    using digest_value_length [OF a(4)] length_dropWhile_le unfolding digest_skip_def by (metis le_trans)
  also have "\<dots> \<le> length p" using a(3) by (simp add: length_skip_spaces)
  also have "\<dots> < length q" using split_at_length [of "CHR ''=''" q n p] a(1,2) by simp
  finally show "((st2, digest_skip (snd (digest_value p1))), st, q) \<in> measure (\<lambda>(st, q). length q)" by simp
qed simp

declare digest_loop.simps [simp del]

text \<open>
  A header without a space after the scheme is ignored; so is an unknown scheme.
\<close>

definition NsParseAuth :: "ns_set option \<Rightarrow> cstring \<Rightarrow> set_error + ns_set" where
  "NsParseAuth a auth =
     (let st = auth_set a;
          scheme = takeWhile (\<lambda>c. \<not> c_isspace c) auth;
          p = dropWhile (\<lambda>c. \<not> c_isspace c) auth
      in if p = [] then Inr st
         else if strcasecmp scheme ''Basic'' = 0 then Inr (parse_basic st (tl p))
         else if strcasecmp scheme ''Digest'' = 0 then
           digest_loop (put_str st ''AuthMethod'' ''Digest'') (skip_spaces (tl p))
         else if strcasecmp scheme ''Bearer'' = 0 then
           Inr (put_str (put_str st ''AuthMethod'' ''Bearer'') ''Token'' (skip_spaces (tl p)))
         else Inr st)"

definition Ns_ConnAuthUser :: "ns_set option \<Rightarrow> cstring option" where
  "Ns_ConnAuthUser a = (case a of None \<Rightarrow> None | Some st \<Rightarrow> Ns_SetIGet st ''username'')"

definition Ns_ConnAuthPasswd :: "ns_set option \<Rightarrow> cstring option" where
  "Ns_ConnAuthPasswd a = (case a of None \<Rightarrow> None | Some st \<Rightarrow> Ns_SetIGet st ''password'')"

subsection \<open>The set\<close>

definition pairs :: "ns_set \<Rightarrow> (cstring \<times> cstring option) list" where
  "pairs st = map (\<lambda>f. (fname f, fvalue f)) (set_fields st)"

definition auth_ok :: "ns_set \<Rightarrow> bool" where
  "auth_ok st \<longleftrightarrow> set_ok st \<and> nocase st"

lemma auth_ok_create: "auth_ok (auth_set None)" "pairs (auth_set None) = []"
  by (simp_all add: auth_set_def auth_ok_def set_ok_def set_wf_def nocase_def pairs_def Ns_SetCreate_def SetCreate_def
      NS_SET_OPTION_NOCASE_def Let_def)

lemma auth_ok_put: "auth_ok st \<Longrightarrow> auth_ok (snd (Ns_SetPutSz st k kl v vl))"
  using set_ok_put [of st k kl v vl] by (auto simp: auth_ok_def Ns_SetPutSz_eq)

lemma put_str_pairs:
  assumes "auth_ok st"
  shows "auth_ok (put_str st k v)" "pairs (put_str st k v) = pairs st @ [(lower k, Some v)]"
  using assms by (simp_all add: put_str_def auth_ok_put) (simp add: auth_ok_def pairs_def Ns_SetPutSz_eq stored_key_def)

lemma Ns_SetIGet_pairs:
  assumes "auth_ok st"
  shows "Ns_SetIGet st k = Option.bind (map_of (pairs st) (lower k)) id"
proof -
  have wf: "set_wf st" and nc: "nocase st" using assms by (auto simp: auth_ok_def set_ok_def)
  have l: "list_all (\<lambda>f. lower (fname f) = fname f) (set_fields st)" using wf nc by (simp add: set_wf_def)
  have "list_all (\<lambda>f. lower (fname f) = fname f) fs \<Longrightarrow> (case find (matches ikey_canon True k) fs of Some f \<Rightarrow> fvalue f | None \<Rightarrow> None) =
      Option.bind (map_of (map (\<lambda>f. (fname f, fvalue f)) fs) (lower k)) id" for fs
    by (induction fs) (auto simp: matches_def ikey_canon_def)
  from this [OF l] show ?thesis
    using setifind.get_by_find [OF wf, of k] nc by (simp add: get_by_Ns_SetGet pairs_def)
qed

subsection \<open>Every header is accepted\<close>

lemma put_value_last:
  assumes f: "set_fields S = fs @ [\<lparr>fname = n, fvalue = None\<rparr>]" and m: "length fs < maxSize S"
  shows "Ns_SetPutValueSz S (length fs) v None =
    Inr (if v = [] then S else S\<lparr>set_fields := fs @ [\<lparr>fname = n, fvalue = Some v\<rparr>]\<rparr>)"
proof -
  have "\<not> maxSize S \<le> length fs" using m by simp
  then show ?thesis
    unfolding Ns_SetPutValueSz_def Let_def f by (simp del: put_value_same)
qed

lemma digest_step:
  assumes "auth_ok st"
  obtains st' where "Ns_SetPutValueSz (snd (Ns_SetPutSz st n (Some (length n)) None (Some 0))) (size_of st) v None = Inr st'"
    "auth_ok st'" "pairs st' = pairs st @ [(lower n, if v = [] then None else Some v)]"
proof
  let ?st = "snd (Ns_SetPutSz st n (Some (length n)) None (Some 0))"
  let ?f = "\<lambda>v. \<lparr>fname = lower n, fvalue = v\<rparr>"
  let ?r = "if v = [] then ?st else ?st\<lparr>set_fields := set_fields st @ [?f (Some v)]\<rparr>"
  define S where "S = ?st"
  have f: "set_fields S = set_fields st @ [?f None]"
    using assms by (simp add: S_def Ns_SetPutSz_eq auth_ok_def stored_key_def)
  have ok: "auth_ok ?st" using assms by (rule auth_ok_put)
  have "size_of st < maxSize S" using ok f unfolding S_def [symmetric] by (simp add: auth_ok_def set_ok_def)
  then show "Ns_SetPutValueSz ?st (size_of st) v None = Inr ?r"
    using put_value_last [OF f] by (simp add: S_def del: put_value_same)
  have "auth_ok (S\<lparr>set_fields := set_fields st @ [?f (Some v)]\<rparr>)"
    using ok f unfolding S_def [symmetric] by (simp add: auth_ok_def set_ok_def set_wf_def comp_def)
  then show "auth_ok ?r" using ok by (simp add: S_def)
  show "pairs ?r = pairs st @ [(lower n, if v = [] then None else Some v)]"
    using f unfolding S_def [symmetric] by (simp add: pairs_def)
qed

lemma fst_put: "fst (Ns_SetPutSz st n l v m) = size_of st"
  by (simp add: Ns_SetPutSz_eq)

lemma digest_loop_total: "auth_ok st \<Longrightarrow> \<exists>st'. digest_loop st q = Inr st' \<and> auth_ok st'"
proof (induction st q rule: digest_loop.induct)
  case (1 st q)
  show ?case
  proof (cases "split_at (CHR ''='') q")
    case (Some np)
    obtain n p where np: "np = (n, p)" by force
    let ?n = "digest_name n" and ?p = "skip_spaces p"
    obtain st' where st': "Ns_SetPutValueSz (snd (Ns_SetPutSz st ?n (Some (length ?n)) None (Some 0))) (size_of st)
        (fst (digest_value ?p)) None = Inr st'" "auth_ok st'"
      using digest_step [OF 1(2), of ?n "fst (digest_value ?p)"] by blast
    have put: "(size_of st, snd (Ns_SetPutSz st ?n (Some (length ?n)) None (Some 0))) =
        Ns_SetPutSz st ?n (Some (length ?n)) None (Some 0)" by (simp add: prod_eq_iff fst_put)
    have "?p \<noteq> [] \<Longrightarrow> \<exists>st''. digest_loop st' (digest_skip (snd (digest_value ?p))) = Inr st'' \<and> auth_ok st''"
      using 1(1) [OF Some np [symmetric] refl _ refl refl] put st' by blast
    then show ?thesis
      using st' Some np auth_ok_put [OF 1(2)]
      by (subst digest_loop.simps) (simp add: Let_def case_prod_unfold fst_put)
  qed (use 1 in \<open>simp add: digest_loop.simps [of st q]\<close>)
qed

lemma parse_basic_ok: "auth_ok st \<Longrightarrow> auth_ok (parse_basic st q)"
  by (simp add: parse_basic_def Let_def put_str_pairs)

text \<open>
  Whatever the header holds, parsing it ends, stays inside the set and keeps its invariant: the set grows
  before it is full and its names are in lower case.
\<close>

theorem NsParseAuth_total:
  assumes "\<forall>st. a = Some st \<longrightarrow> auth_ok st"
  shows "\<exists>st'. NsParseAuth a auth = Inr st' \<and> auth_ok st'"
proof -
  have "auth_ok (auth_set a)" using assms auth_ok_create by (cases a) (auto simp: auth_set_def)
  then show ?thesis
    by (simp add: NsParseAuth_def Let_def put_str_pairs parse_basic_ok digest_loop_total)
qed

theorem NsParseAuth_total_witness:
  "\<exists>st'. NsParseAuth (Some (auth_set None)) ''Digest a=,b'' = Inr st' \<and> auth_ok st'"
  using NsParseAuth_total [of "Some (auth_set None)" "''Digest a=,b''"] auth_ok_create by simp

subsection \<open>Basic credentials\<close>

definition octets :: "cstring \<Rightarrow> octet list" where
  "octets s = map (\<lambda>c. of_nat (byte_of c)) s"

lemma octets_back: "map (\<lambda>b. char_of (unat b)) (octets s) = s"
  by (simp add: octets_def comp_def unat_of_nat nat_of_char_less_256 map_idI)

lemma scheme_no_space:
  assumes "strcasecmp scheme w = 0" "\<not> list_ex c_isspace w"
  shows "\<forall>c \<in> set scheme. \<not> c_isspace c"
proof
  fix c assume c: "c \<in> set scheme"
  have m: "map c_tolower scheme = map c_tolower w" using assms(1) by (simp add: strcasecmp_eq_0_iff)
  have sp: "c_isspace (c_tolower x) = c_isspace x" for x
    using byte_of_tolower [of x] by (cases "c_isupper x") (auto simp: c_isspace_def c_isupper_def c_tolower_id)
  have "c_tolower c \<in> c_tolower ` set w" using c m by (metis image_eqI list.set_map)
  then show "\<not> c_isspace c" using assms(2) sp by (metis imageE list_ex_iff)
qed

text \<open>How a header splits into its scheme and the rest.\<close>

lemma NsParseAuth_split:
  assumes "strcasecmp scheme w = 0" "\<not> list_ex c_isspace w" "b \<noteq> []" "\<forall>c \<in> set b. c_isspace c"
  shows "takeWhile (\<lambda>c. \<not> c_isspace c) (scheme @ b @ t) = scheme"
    "dropWhile (\<lambda>c. \<not> c_isspace c) (scheme @ b @ t) = b @ t" "skip_spaces (tl (b @ t)) = skip_spaces t"
proof -
  obtain x xs where b: "b = x # xs" using assms(3) by (cases b) auto
  then have x: "c_isspace x" and xs: "\<forall>c \<in> set xs. c_isspace c" using assms(4) by auto
  show "takeWhile (\<lambda>c. \<not> c_isspace c) (scheme @ b @ t) = scheme"
    "dropWhile (\<lambda>c. \<not> c_isspace c) (scheme @ b @ t) = b @ t"
    using scheme_no_space [OF assms(1,2)] x by (simp_all add: b scan)
  show "skip_spaces (tl (b @ t)) = skip_spaces t" using xs by (simp add: b scan)
qed

lemma auth_names:
  "lower ''AuthMethod'' = ''authmethod''" "lower ''Password'' = ''password''" "lower ''Username'' = ''username''"
  "lower ''Token'' = ''token''" "lower ''username'' = ''username''" "lower ''password'' = ''password''"
  by code_simp+

lemma parse_basic_encoded:
  assumes ok: "auth_ok st" and user: "CHR '':'' \<notin> set user" "NUL_char \<notin> set user"
    and q: "skip_spaces q = Ns_Base64Encode (octets (user @ '':'' @ pw)) m 0"
  shows "pairs (parse_basic st q) =
    pairs st @ [(''authmethod'', Some ''Basic''), (''password'', Some pw), (''username'', Some user)]"
proof -
  let ?v = "user @ CHR '':'' # pw"
  have n: "Ns_HtuuDecode (skip_spaces q) = length ?v"
    unfolding q Ns_HtuuDecode_def base64_decode_encode by (simp add: octets_def)
  have v: "map (\<lambda>b. char_of (unat b)) (take (length ?v) (snd (Ns_HtuuDecode2 (skip_spaces q) 0 False))) = ?v"
    unfolding q base64_decode_encode using octets_back [of ?v] by (simp add: octets_def)
  have c: "CHR '':'' \<in> set (takeWhile (\<lambda>c. c \<noteq> NUL_char) ?v)"
    using user(2) by (subst takeWhile_append2) (auto simp: NUL_char_def)
  show ?thesis
    unfolding parse_basic_def Let_def n v if_P [OF c]
    using ok user(1) by (simp add: put_str_pairs scan auth_names del: list.map)
qed



subsection \<open>Digest credentials\<close>

text \<open>A parameter: its name, whether its value is quoted, and the value.\<close>

type_synonym digest_param = "cstring \<times> bool \<times> cstring"

definition param_text :: "digest_param \<Rightarrow> cstring" where
  "param_text x = (case x of (n, quoted, v) \<Rightarrow>
     n @ CHR ''='' # (if quoted then CHR 0x22 # v @ [CHR 0x22] else v))"

fun digest_text :: "digest_param list \<Rightarrow> cstring" where
  "digest_text [] = []"
| "digest_text [x] = param_text x"
| "digest_text (x # y # zs) = param_text x @ '', '' @ digest_text (y # zs)"

definition separator :: "char \<Rightarrow> bool" where
  "separator c \<longleftrightarrow> c = CHR '','' \<or> c = CHR 0x22 \<or> c_isspace c"

definition param_ok :: "digest_param \<Rightarrow> bool" where
  "param_ok x = (case x of (n, quoted, v) \<Rightarrow>
     n \<noteq> [] \<and> CHR ''='' \<notin> set n \<and> \<not> separator (hd n) \<and> \<not> c_isspace (last n) \<and> v \<noteq> [] \<and>
     (if quoted then CHR 0x22 \<notin> set v
      else hd v \<noteq> CHR 0x22 \<and> list_all (\<lambda>c. c \<noteq> CHR '','' \<and> \<not> c_isspace c) v))"

lemma digest_name_trimmed: "n \<noteq> [] \<Longrightarrow> \<not> c_isspace (last n) \<Longrightarrow> digest_name n = n"
proof (cases n)
  case (Cons c cs)
  assume "\<not> c_isspace (last n)"
  then have "dropWhile c_isspace (rev cs) = rev cs"
    using Cons by (cases cs rule: rev_cases) auto
  then show "digest_name n = n" by (simp add: digest_name_def Cons)
qed simp

text \<open>What follows a value: the end, or a comma and the next parameter.\<close>

definition param_rest :: "digest_param list \<Rightarrow> cstring" where
  "param_rest xs = (if xs = [] then [] else '', '' @ digest_text xs)"

lemma digest_text_Cons: "digest_text (x # xs) = param_text x @ param_rest xs"
  by (cases xs) (simp_all add: param_rest_def)

lemma param_value_scan:
  fixes xs :: "digest_param list"
  assumes "param_ok (n, quoted, v)"
  defines "p \<equiv> (if quoted then CHR 0x22 # v @ [CHR 0x22] else v) @ param_rest xs"
  shows "p \<noteq> []" "skip_spaces p = p" "fst (digest_value p) = v"
    "snd (digest_value p) = (if quoted then [CHR 0x22] else []) @ param_rest xs"
proof -
  show "p \<noteq> []" "skip_spaces p = p"
    using assms(1) by (cases v; auto simp: p_def param_ok_def skip_spaces_def c_isspace_def)+
  have bare: "takeWhile (\<lambda>c. c \<noteq> CHR '','' \<and> \<not> c_isspace c) (v @ param_rest xs) = v \<and>
      dropWhile (\<lambda>c. c \<noteq> CHR '','' \<and> \<not> c_isspace c) (v @ param_rest xs) = param_rest xs" if "\<not> quoted"
    using assms(1) that
    by (auto simp: param_ok_def param_rest_def list_all_iff takeWhile_append2 dropWhile_append2
        takeWhile_eq_all_conv)
  show "fst (digest_value p) = v" "snd (digest_value p) = (if quoted then [CHR 0x22] else []) @ param_rest xs"
    using assms(1) bare by (cases v; auto simp: p_def param_ok_def digest_value_def scan)+
qed

lemma digest_skip_rest:
  "list_all param_ok xs \<Longrightarrow> digest_skip ((if quoted then [CHR 0x22] else []) @ param_rest xs) = digest_text xs"
proof (cases xs)
  case (Cons y ys)
  assume "list_all param_ok xs"
  then have "digest_text xs \<noteq> []" "\<not> separator (hd (digest_text xs))"
    by (auto simp: Cons digest_text_Cons param_text_def param_ok_def split: prod.splits)
  then show ?thesis
    by (cases "digest_text xs") (auto simp: digest_skip_def param_rest_def separator_def Cons)
qed (simp add: digest_skip_def param_rest_def)

lemma digest_loop_params:
  "auth_ok st \<Longrightarrow> list_all param_ok xs \<Longrightarrow>
   \<exists>st'. digest_loop st (digest_text xs) = Inr st' \<and> auth_ok st' \<and>
     pairs st' = pairs st @ map (\<lambda>(n, q, v). (lower n, Some v)) xs"
proof (induction xs arbitrary: st)
  case Nil
  then show ?case by (subst digest_loop.simps) (simp add: split_at_def)
next
  case (Cons x xs)
  obtain n quoted v where x: "x = (n, quoted, v)" by (cases x)
  define p where "p = (if quoted then CHR 0x22 # v @ [CHR 0x22] else v) @ param_rest xs"
  have ok: "param_ok (n, quoted, v)" and xs: "list_all param_ok xs" using Cons.prems x by auto
  have tx: "digest_text (x # xs) = n @ CHR ''='' # p"
    by (simp add: digest_text_Cons param_text_def x p_def)
  have n: "CHR ''='' \<notin> set n" "digest_name n = n" "v \<noteq> []"
    using ok digest_name_trimmed by (auto simp: param_ok_def)
  note p = param_value_scan [OF ok, of xs, unfolded p_def [symmetric]]
  obtain st1 where st1: "Ns_SetPutValueSz (snd (Ns_SetPutSz st n (Some (length n)) None (Some 0))) (size_of st) v None = Inr st1"
      "auth_ok st1" "pairs st1 = pairs st @ [(lower n, Some v)]"
    using digest_step [OF Cons.prems(1), of n v] n(3) by auto
  obtain st2 where st2: "digest_loop st1 (digest_text xs) = Inr st2" "auth_ok st2"
      "pairs st2 = pairs st1 @ map (\<lambda>(n, q, v). (lower n, Some v)) xs"
    using Cons.IH [OF st1(2) xs] by blast
  have "digest_loop st (digest_text (x # xs)) = digest_loop st1 (digest_text xs)"
    unfolding tx
    by (subst digest_loop.simps)
      (simp add: split_at_join [OF n(1)] n(2) p st1(1) digest_skip_rest [OF xs] case_prod_unfold fst_put Let_def
        del: put_value_same)
  then show ?case using st1 st2 by (simp add: x del: put_value_same)
qed

text \<open>
  The parameters of a Digest authorization header are understood, quoted or not: the set holds the method
  and exactly the names, in lower case, and the values of the header, in their order.
\<close>

theorem NsParseAuth_digest:
  assumes "list_all param_ok xs" "strcasecmp scheme ''Digest'' = 0" "b \<noteq> []" "\<forall>c \<in> set b. c_isspace c"
  shows "\<exists>st. NsParseAuth None (scheme @ b @ digest_text xs) = Inr st
    \<and> pairs st = (''authmethod'', Some ''Digest'') # map (\<lambda>(n, q, v). (lower n, Some v)) xs"
proof -
  have sp: "\<not> list_ex c_isspace ''Digest''" by (simp add: ctype_simps)
  note split = NsParseAuth_split [OF assms(2) sp assms(3,4), of "digest_text xs"]
  have nb: "strcasecmp scheme ''Basic'' \<noteq> 0" using assms(2) by (auto simp: strcasecmp_eq_0_iff dest: arg_cong [where f = length])
  have start: "skip_spaces (digest_text xs) = digest_text xs"
    using assms(1) by (cases xs)
      (auto simp: skip_spaces_def digest_text_Cons param_text_def param_ok_def separator_def split: prod.splits
        intro!: skip_spaces_stop [unfolded skip_spaces_def])
  let ?st = "put_str (auth_set None) ''AuthMethod'' ''Digest''"
  have st: "auth_ok ?st" "pairs ?st = [(''authmethod'', Some ''Digest'')]"
    using put_str_pairs [OF auth_ok_create(1)] auth_ok_create(2) by (simp_all add: auth_names del: list.map)
  have "NsParseAuth None (scheme @ b @ digest_text xs) = digest_loop ?st (digest_text xs)"
    unfolding NsParseAuth_def Let_def split using assms(2,3) nb by (simp add: start)
  then show ?thesis using digest_loop_params [OF st(1) assms(1)] st(2) by auto
qed

theorem NsParseAuth_digest_witness:
  "\<exists>st. NsParseAuth None (''Digest'' @ '' '' @ digest_text [(''Realm'', True, ''a, b''), (''nc'', False, ''01'')]) = Inr st
    \<and> pairs st = (''authmethod'', Some ''Digest'') #
        map (\<lambda>(n, q, v). (lower n, Some v)) [(''Realm'', True, ''a, b''), (''nc'', False, ''01'')]"
  by (rule NsParseAuth_digest) (simp_all add: param_ok_def separator_def c_isspace_def strcasecmp_def)

end
