(* ===== verification/NsContext.thy ===== *)
theory NsContext
  imports NsUrlspaceRun NsSet
begin

unbundle bit_operations_syntax

text \<open>
  The context constraints of \<^verbatim>\<open>nsd/urlspace.c\<close>: a constraint asks for a header field that matches a pattern or for
  a client address in a network, or is a conjunction of such constraints. The URL space keeps the constraints of
  a node in an index and answers a lookup with the data of the first one the request satisfies; here the
  constraints are built and evaluated, on the sets of \<open>NsSet\<close> and the addresses of \<open>NsSockaddr\<close>, and composed with the nodes of
  \<open>NsUrlspace\<close>. The reader of the constraints, \<^verbatim>\<open>inet_pton\<close> and \<^verbatim>\<open>Tcl_StringMatch\<close> are arguments;
  \<open>specFree\<close> is the address of \<^verbatim>\<open>UrlSpaceContextSpecFree\<close>.
\<close>

record url_context =
  ctx_headers :: "ns_set option"
  ctx_saPtr :: "sockaddr option"

fun CountNonWildcharChars :: "cstring \<Rightarrow> nat" where
  "CountNonWildcharChars [] = 0"
| "CountNonWildcharChars (c # cs) = (if c \<noteq> CHR ''*'' then 1 else 0) + CountNonWildcharChars cs"

definition header_spec :: "free_proc \<Rightarrow> cstring \<Rightarrow> cstring \<Rightarrow> sockaddr \<Rightarrow> sockaddr \<Rightarrow> 'd context_spec" where
  "header_spec specFree field pat ip msk =
     ContextSpec (Some specFree) None None (Inl field) (Some pat) ip msk SpecTypeHeader
       (of_nat (CountNonWildcharChars pat)) (CHR ''*'' \<in> set pat)"

definition NsUrlSpaceContextSpecNew :: "pton \<Rightarrow> pton \<Rightarrow> free_proc \<Rightarrow> cstring \<Rightarrow> cstring \<Rightarrow> 'd context_spec" where
  "NsUrlSpaceContextSpecNew pton4 pton6 specFree field pat =
     (if length field = 7 \<and> strcasecmp field ''X-NS-ip'' = 0 then
        (case Ns_SockaddrParseIPMask pton4 pton6 pat of
           (status, ip, msk, nrBits) \<Rightarrow>
             if status = NS_OK then
               ContextSpec (Some specFree) None None (Inl field) (Some pat) ip msk
                 (if sa_family msk = AF_INET then SpecTypeIPv4 else SpecTypeIPv6) (of_nat nrBits) (CHR ''/'' \<in> set pat)
             else header_spec specFree field pat ip msk)
      else header_spec specFree field pat sa_zero sa_zero)"

fun spec_pairs :: "pton \<Rightarrow> pton \<Rightarrow> free_proc \<Rightarrow> cstring list \<Rightarrow> 'd context_spec list" where
  "spec_pairs pton4 pton6 specFree (k # v # r) =
     NsUrlSpaceContextSpecNew pton4 pton6 specFree k v # spec_pairs pton4 pton6 specFree r"
| "spec_pairs pton4 pton6 specFree _ = []"

text \<open>The elements of the list object; \<open>None\<close> is the error.\<close>

definition NsObjToUrlSpaceContextSpec :: "pton \<Rightarrow> pton \<Rightarrow> free_proc \<Rightarrow> cstring list \<Rightarrow> 'd context_spec option" where
  "NsObjToUrlSpaceContextSpec pton4 pton6 specFree ov =
     (if length ov mod 2 \<noteq> 0 then None
      else if length ov = 2 then Some (NsUrlSpaceContextSpecNew pton4 pton6 specFree (ov ! 0) (ov ! 1))
      else
        (let specs = spec_pairs pton4 pton6 specFree ov
         in Some (ContextSpec (Some specFree) None None (Inr specs) None sa_zero sa_zero SpecTypeConjunction
              (sum_list (map specificity specs)) False)))"

text \<open>The client address in reverse proxy mode is the forwarded one, when there is one.\<close>

definition NsUrlSpaceContextInit :: "bool \<Rightarrow> sockaddr \<Rightarrow> sockaddr \<Rightarrow> ns_set option \<Rightarrow> url_context" where
  "NsUrlSpaceContextInit reverseproxymode clientsa sa headers =
     \<lparr>ctx_headers = headers,
      ctx_saPtr = Some (if reverseproxymode \<and> sa_family clientsa \<noteq> AF_UNSPEC then clientsa else sa)\<rparr>"

text \<open>The success, the context and the set after it; an error of the deletion cannot happen (\<open>Ns_SetDeleteKey_correct\<close>).\<close>

definition NsUrlSpaceContextFromSet :: "pton \<Rightarrow> pton \<Rightarrow> sockaddr \<Rightarrow> ns_set \<Rightarrow> set_error + bool \<times> url_context" where
  "NsUrlSpaceContextFromSet pton4 pton6 ipPtr st =
     (case Ns_SetIGet st ''x-ns-ip'' of
        None \<Rightarrow> Inr (True, \<lparr>ctx_headers = Some st, ctx_saPtr = None\<rparr>)
      | Some ipString \<Rightarrow>
          (let (valid, ip) = ns_inet_pton pton4 pton6 ipPtr ipString
           in case Ns_SetDeleteKey st ''x-ns-ip'' of
                Inl e \<Rightarrow> Inl e
              | Inr (_, st') \<Rightarrow> Inr (valid, \<lparr>ctx_headers = Some st', ctx_saPtr = if valid then Some ip else None\<rparr>)))"

subsection \<open>Evaluation\<close>

fun NsUrlSpaceContextFilterEval :: "(cstring \<Rightarrow> cstring \<Rightarrow> bool) \<Rightarrow> 'd context_spec \<Rightarrow> url_context \<Rightarrow> bool"
and eval_loop :: "(cstring \<Rightarrow> cstring \<Rightarrow> bool) \<Rightarrow> 'd context_spec list \<Rightarrow> url_context \<Rightarrow> bool \<Rightarrow> bool" where
  "NsUrlSpaceContextFilterEval smatch (ContextSpec fp d dfp field pat ip msk kind sp hp) ctx =
     (case (kind, field) of
        (SpecTypeConjunction, Inr specs) \<Rightarrow> eval_loop smatch specs ctx False
      | (SpecTypeHeader, Inl str) \<Rightarrow>
          (case ctx_headers ctx of
             Some h \<Rightarrow>
               (case (Ns_SetIGet h str, pat) of
                  (Some val, Some p) \<Rightarrow> smatch val p
                | _ \<Rightarrow> False)
           | None \<Rightarrow> False)
      | (SpecTypeIPv4, Inl str) \<Rightarrow>
          (case ctx_saPtr ctx of Some sa \<Rightarrow> Ns_SockaddrMaskedMatch sa msk ip | None \<Rightarrow> False)
      | (SpecTypeIPv6, Inl str) \<Rightarrow>
          (case ctx_saPtr ctx of Some sa \<Rightarrow> Ns_SockaddrMaskedMatch sa msk ip | None \<Rightarrow> False)
      | _ \<Rightarrow> False)"
| "eval_loop smatch [] ctx success = success"
| "eval_loop smatch (s # ss) ctx success =
     (if NsUrlSpaceContextFilterEval smatch s ctx then eval_loop smatch ss ctx True else False)"

subsection \<open>What a constraint means\<close>

definition kv_holds :: "pton \<Rightarrow> pton \<Rightarrow> (cstring \<Rightarrow> cstring \<Rightarrow> bool) \<Rightarrow> cstring \<Rightarrow> cstring \<Rightarrow> url_context \<Rightarrow> bool" where
  "kv_holds pton4 pton6 smatch k v ctx \<longleftrightarrow>
     (if strcasecmp k ''X-NS-ip'' = 0 \<and> fst (Ns_SockaddrParseIPMask pton4 pton6 v) = NS_OK
      then \<exists>sa. ctx_saPtr ctx = Some sa \<and> cidr_matches pton4 pton6 v sa
      else \<exists>h val. ctx_headers ctx = Some h \<and> Ns_SetIGet h k = Some val \<and> smatch val v)"

lemma strcasecmp_length: "strcasecmp a b = 0 \<Longrightarrow> length a = length b"
  by (auto simp: strcasecmp_eq_0_iff dest: arg_cong [where f = length])

lemma eval_header:
  "NsUrlSpaceContextFilterEval smatch (header_spec f k v ip m) ctx \<longleftrightarrow>
     (\<exists>h val. ctx_headers ctx = Some h \<and> Ns_SetIGet h k = Some val \<and> smatch val v)"
  by (auto simp: header_spec_def split: option.splits)

lemma eval_SpecNew:
  "NsUrlSpaceContextFilterEval smatch (NsUrlSpaceContextSpecNew pton4 pton6 f k v) ctx \<longleftrightarrow> kv_holds pton4 pton6 smatch k v ctx"
proof (cases "strcasecmp k ''X-NS-ip'' = 0")
  case True
  then have l: "length k = 7" using strcasecmp_length by fastforce
  obtain st ip m n where p: "Ns_SockaddrParseIPMask pton4 pton6 v = (st, ip, m, n)" by (metis surj_pair)
  show ?thesis
    using True l p
    by (auto simp: eval_header NsUrlSpaceContextSpecNew_def kv_holds_def cidr_matches_def SockkAddrInitMaskedEntry_def split: option.splits)
next
  case False
  then show ?thesis by (simp add: eval_header NsUrlSpaceContextSpecNew_def kv_holds_def)
qed

lemma eval_loop_iff:
  "eval_loop smatch ss ctx b \<longleftrightarrow> (if ss = [] then b else \<forall>s \<in> set ss. NsUrlSpaceContextFilterEval smatch s ctx)"
  by (induction ss arbitrary: b) auto

definition kv_list :: "(cstring \<times> cstring) list \<Rightarrow> cstring list" where
  "kv_list kvs = concat (map (\<lambda>(k, v). [k, v]) kvs)"

lemma kv_list_simps [simp]: "kv_list [] = []" "kv_list ((k, v) # r) = k # v # kv_list r" "length (kv_list r) = 2 * length r"
  by (simp_all add: kv_list_def) (induction r, auto)

lemma spec_pairs_kv: "spec_pairs pton4 pton6 f (kv_list kvs) = map (\<lambda>(k, v). NsUrlSpaceContextSpecNew pton4 pton6 f k v) kvs"
  by (induction kvs) auto

text \<open>
  A list of keys and patterns is accepted as a constraint exactly when its length is even, and a request satisfies the
  constraint exactly when it satisfies every pair: an address in the network for \<^verbatim>\<open>X-NS-ip\<close> with a valid network, a header
  field that matches the pattern otherwise.
\<close>

theorem context_constraint_meaning:
  assumes "kvs \<noteq> []"
  shows "\<exists>spec :: 'd context_spec. NsObjToUrlSpaceContextSpec pton4 pton6 f (kv_list kvs) = Some spec \<and>
    (\<forall>ctx. NsUrlSpaceContextFilterEval smatch spec ctx \<longleftrightarrow> (\<forall>(k, v) \<in> set kvs. kv_holds pton4 pton6 smatch k v ctx))"
proof (cases "length kvs = 1")
  case True
  then obtain k v where "kvs = [(k, v)]" by (auto simp: length_Suc_conv)
  then show ?thesis
    by (intro exI [of _ "NsUrlSpaceContextSpecNew pton4 pton6 f k v :: 'd context_spec"])
      (simp add: NsObjToUrlSpaceContextSpec_def eval_SpecNew)
next
  case False
  let ?specs = "map (\<lambda>(k, v). NsUrlSpaceContextSpecNew pton4 pton6 f k v :: 'd context_spec) kvs"
  show ?thesis
    using assms False
    by (intro exI [of _ "ContextSpec (Some f) None None (Inr ?specs) None sa_zero sa_zero SpecTypeConjunction
          (sum_list (map specificity ?specs)) False"])
      (auto simp: NsObjToUrlSpaceContextSpec_def spec_pairs_kv eval_loop_iff eval_SpecNew Let_def)
qed

subsection \<open>The order of the constraints\<close>

definition spec_valid :: "'d context_spec \<Rightarrow> bool" where
  "spec_valid s \<longleftrightarrow> (spec_kind s = SpecTypeConjunction \<longrightarrow> \<not> hasPattern s)"

lemma spec_type_rank_inject: "spec_type_rank a = spec_type_rank b \<longleftrightarrow> a = b"
  by (cases a; cases b) simp_all

lemma pattern_cmp_same [simp]: "pattern_cmp p p = 0"
  by (simp add: pattern_cmp_def split: option.split)

text \<open>The comparison is lexicographic: type, patterns last, specificity, length of a conjunction.\<close>

definition spec_weight :: "'d context_spec \<Rightarrow> int" where
  "spec_weight s = (if spec_kind s = SpecTypeConjunction \<or> hasPattern s then sint (specificity s) else 0)"

definition spec_elements :: "'d context_spec \<Rightarrow> nat" where
  "spec_elements s = (if spec_kind s = SpecTypeConjunction then spec_list_size s else 0)"

definition spec_before :: "bool \<Rightarrow> 'd context_spec \<Rightarrow> 'd context_spec \<Rightarrow> bool" where
  "spec_before strict l r \<longleftrightarrow>
     spec_type_rank (spec_kind l) < spec_type_rank (spec_kind r) \<or>
     spec_type_rank (spec_kind l) = spec_type_rank (spec_kind r) \<and>
       (hasPattern l < hasPattern r \<or> hasPattern l = hasPattern r \<and>
          (spec_weight r < spec_weight l \<or> spec_weight l = spec_weight r \<and>
             (spec_elements r < spec_elements l \<or> \<not> strict \<and> spec_elements r = spec_elements l)))"

lemma Cmp_before:
  assumes "spec_valid l" "spec_valid r"
  shows "CmpUrlSpaceContextSpecs l r \<le> 0 \<longleftrightarrow> spec_before False l r" "CmpUrlSpaceContextSpecs l r < 0 \<longleftrightarrow> spec_before True l r"
proof -
  consider "spec_kind l \<noteq> spec_kind r" | "spec_kind l = spec_kind r" "spec_kind r = SpecTypeConjunction"
    | "spec_kind l = spec_kind r" "spec_kind r \<noteq> SpecTypeConjunction" by blast
  then have "(CmpUrlSpaceContextSpecs l r \<le> 0 \<longleftrightarrow> spec_before False l r) \<and>
      (CmpUrlSpaceContextSpecs l r < 0 \<longleftrightarrow> spec_before True l r)"
  proof cases
    case 1
    then have "spec_type_rank (spec_kind l) \<noteq> spec_type_rank (spec_kind r)" by (simp add: spec_type_rank_inject)
    then show ?thesis using 1 by (auto simp: CmpUrlSpaceContextSpecs_def spec_before_def)
  next
    case 2
    then show ?thesis using assms
      by (auto simp: CmpUrlSpaceContextSpecs_def spec_before_def spec_valid_def spec_weight_def spec_elements_def Let_def)
  next
    case 3
    then show ?thesis using assms
      by (cases "hasPattern l"; cases "hasPattern r")
        (auto simp: CmpUrlSpaceContextSpecs_def spec_before_def spec_weight_def spec_elements_def Let_def)
  qed
  then show "CmpUrlSpaceContextSpecs l r \<le> 0 \<longleftrightarrow> spec_before False l r" "CmpUrlSpaceContextSpecs l r < 0 \<longleftrightarrow> spec_before True l r"
    by auto
qed

lemma spec_before_trans: "spec_before False x y \<Longrightarrow> spec_before False y z \<Longrightarrow> spec_before False x z"
  unfolding spec_before_def by (elim disjE conjE; simp)

lemma spec_before_total: "spec_before True x y \<longleftrightarrow> \<not> spec_before False y x"
  unfolding spec_before_def by (cases "hasPattern x"; cases "hasPattern y") auto

interpretation specorder: c_comparator CmpUrlSpaceContextSpecs spec_valid
proof
  fix x y z :: "'d context_spec"
  show "CmpUrlSpaceContextSpecs x x = 0" by (simp add: CmpUrlSpaceContextSpecs_def Let_def)
  show "spec_valid x \<Longrightarrow> spec_valid y \<Longrightarrow> CmpUrlSpaceContextSpecs x y < 0 \<longleftrightarrow> 0 < CmpUrlSpaceContextSpecs y x"
    using Cmp_before spec_before_total by (metis linorder_not_le)
  show "spec_valid x \<Longrightarrow> spec_valid y \<Longrightarrow> spec_valid z \<Longrightarrow> CmpUrlSpaceContextSpecs x y \<le> 0 \<Longrightarrow>
      CmpUrlSpaceContextSpecs y z \<le> 0 \<Longrightarrow> CmpUrlSpaceContextSpecs x z \<le> 0"
    using Cmp_before(1) spec_before_trans by blast
qed

subsection \<open>Choice of a constraint\<close>

definition specs_sorted :: "'d node \<Rightarrow> bool" where
  "specs_sorted n \<longleftrightarrow> sorted_wrt (\<lambda>x y. CmpUrlSpaceContextSpecs x y \<le> 0) (node_specs n) \<and> (\<forall>s \<in> set (node_specs n). spec_valid s)"

lemma spec_attach_sel [simp]:
  "spec_kind (spec_attach s d p) = spec_kind s" "hasPattern (spec_attach s d p) = hasPattern s"
  "specificity (spec_attach s d p) = specificity s" "spec_data (spec_attach s d p) = Some d"
  "NsUrlSpaceContextFilterEval m (spec_attach s d p) ctx = NsUrlSpaceContextFilterEval m s ctx"
  "spec_valid (spec_attach s d p) = spec_valid s"
  by (cases s; simp add: spec_valid_def)+

lemma set_index_insert: "set (index_insert cmp e xs) = insert e (set xs)"
  by (simp add: index_insert_def)

text \<open>Registering data under a constraint enters it in the order of the constraints.\<close>

lemma node_add_spec:
  fixes d :: 'd and proc :: "free_proc option"
  assumes "specs_sorted n" "spec_valid spec"
  defines "n' \<equiv> fst (node_add (Some n) d 0 proc (Some spec))"
  shows "specs_sorted n'" "set (node_specs n') = insert (spec_attach spec d proc) (set (node_specs n))"
    "dataInherit n' = dataInherit n" "dataNoInherit n' = dataNoInherit n"
proof -
  have n': "n' = n\<lparr>node_specs := index_insert CmpUrlSpaceContextSpecs (spec_attach spec d proc) (node_specs n)\<rparr>"
    by (simp add: n'_def node_add_def node_release_def op_flag_def)
  show "set (node_specs n') = insert (spec_attach spec d proc) (set (node_specs n))"
    "dataInherit n' = dataInherit n" "dataNoInherit n' = dataNoInherit n"
    by (simp_all add: n' set_index_insert)
  show "specs_sorted n'"
    using assms(1,2) unfolding specs_sorted_def n'
    by (auto simp: set_index_insert index_insert_def intro!: specorder.sorted_insert)
qed

text \<open>The constraint a lookup takes is one that no other satisfied constraint precedes.\<close>

lemma node_data_first:
  assumes "specs_sorted n" "find (\<lambda>s. proc s c) (node_specs n) = Some s"
  shows "s \<in> set (node_specs n)" "proc s c"
    "\<forall>t \<in> set (node_specs n). proc t c \<longrightarrow> s = t \<or> CmpUrlSpaceContextSpecs s t \<le> 0"
proof -
  obtain i where i: "i < length (node_specs n)" "proc (node_specs n ! i) c" "s = node_specs n ! i"
      "\<forall>j<i. \<not> proc (node_specs n ! j) c"
    using assms(2) by (auto simp: find_Some_iff)
  show "s \<in> set (node_specs n)" "proc s c" using i by auto
  show "\<forall>t \<in> set (node_specs n). proc t c \<longrightarrow> s = t \<or> CmpUrlSpaceContextSpecs s t \<le> 0"
  proof (intro ballI impI)
    fix t assume "t \<in> set (node_specs n)" "proc t c"
    then obtain j where j: "j < length (node_specs n)" "t = node_specs n ! j" "\<not> j < i"
      using i(4) by (auto simp: in_set_conv_nth)
    then show "s = t \<or> CmpUrlSpaceContextSpecs s t \<le> 0"
      using assms(1) i(3) sorted_wrt_nth_less [of _ "node_specs n" i j] unfolding specs_sorted_def
      by (cases "i = j") auto
  qed
qed

text \<open>Networks with data, entered one after the other at a node.\<close>

definition net_spec :: "pton \<Rightarrow> pton \<Rightarrow> free_proc \<Rightarrow> cstring \<Rightarrow> nat \<Rightarrow> 'd context_spec" where
  "net_spec pton4 pton6 f addr k = NsUrlSpaceContextSpecNew pton4 pton6 f ''X-NS-ip'' (cidr addr k)"

definition enter_nets :: "pton \<Rightarrow> pton \<Rightarrow> free_proc \<Rightarrow> (cstring \<times> nat \<times> 'd) list \<Rightarrow> 'd node \<Rightarrow> 'd node" where
  "enter_nets pton4 pton6 f nets n =
     fold (\<lambda>(addr, k, d) n. fst (node_add (Some n) d 0 None (Some (net_spec pton4 pton6 f addr k)))) nets n"

definition net_ok :: "pton \<Rightarrow> cstring \<times> nat \<times> 'd \<Rightarrow> bool" where
  "net_ok pton4 x = (case x of (addr, k, d) \<Rightarrow>
     CHR ''/'' \<notin> set addr \<and> k \<le> 32 \<and> (case pton4 addr of Some b \<Rightarrow> length b = 4 | None \<Rightarrow> False))"

definition in_net :: "pton \<Rightarrow> sockaddr \<Rightarrow> cstring \<times> nat \<times> 'd \<Rightarrow> bool" where
  "in_net pton4 sa x = (case x of (addr, k, d) \<Rightarrow>
     \<exists>a b. SockaddrGetComparableV4 sa = Some a \<and> pton4 addr = Some b \<and> take k (bits a) = take k (bits b))"

lemma net_spec_eq:
  assumes "pton4 addr = Some b" "CHR ''/'' \<notin> set addr" "k \<le> 32"
  shows "net_spec pton4 pton6 f addr k = ContextSpec (Some f) None None (Inl ''X-NS-ip'') (Some (cidr addr k))
      (v4_addr (and_bytes b (mask_bytes 4 k))) (v4_addr (mask_bytes 4 k)) SpecTypeIPv4 (of_nat k) True"
proof -
  have x: "strcasecmp ''X-NS-ip'' ''X-NS-ip'' = 0" by (simp add: strcasecmp_def)
  show ?thesis
    by (simp add: net_spec_def NsUrlSpaceContextSpecNew_def parse_cidr_v4 [of pton4 addr, OF assms] x)
      (simp add: v4_addr_def cidr_def)
qed

lemma net_spec_fields:
  assumes "net_ok pton4 (addr, k, d)"
  shows "spec_kind (net_spec pton4 pton6 f addr k) = SpecTypeIPv4" "hasPattern (net_spec pton4 pton6 f addr k)"
    "specificity (net_spec pton4 pton6 f addr k) = of_nat k" "spec_valid (net_spec pton4 pton6 f addr k)"
proof -
  obtain b where b: "pton4 addr = Some b" "CHR ''/'' \<notin> set addr" "k \<le> 32"
    using assms by (auto simp: net_ok_def split: option.splits)
  show "spec_kind (net_spec pton4 pton6 f addr k) = SpecTypeIPv4" "hasPattern (net_spec pton4 pton6 f addr k)"
    "specificity (net_spec pton4 pton6 f addr k) = of_nat k" "spec_valid (net_spec pton4 pton6 f addr k)"
    by (simp_all add: spec_valid_def net_spec_eq [of pton4 addr, OF b])
qed

lemma sint_prefix: "k \<le> 32 \<Longrightarrow> sint (of_nat k :: 32 word) = int k"
proof -
  have "list_all (\<lambda>k. sint (of_nat k :: 32 word) = int k) [0..<33]" by code_simp
  then show "k \<le> 32 \<Longrightarrow> sint (of_nat k :: 32 word) = int k" by (simp add: list_all_iff)
qed

lemma net_spec_order:
  assumes "net_ok pton4 (addr, k, d)" "net_ok pton4 (addr', k', d')"
    and "spec_attach (net_spec pton4 pton6 f addr k) d None = spec_attach (net_spec pton4 pton6 f addr' k') d' None \<or>
      CmpUrlSpaceContextSpecs (spec_attach (net_spec pton4 pton6 f addr k) d None)
        (spec_attach (net_spec pton4 pton6 f addr' k') d' None) \<le> 0"
  shows "k' \<le> k"
proof -
  let ?l = "spec_attach (net_spec pton4 pton6 f addr k) d None" and ?r = "spec_attach (net_spec pton4 pton6 f addr' k') d' None"
  have f: "spec_kind ?l = SpecTypeIPv4" "hasPattern ?l" "specificity ?l = of_nat k"
    "spec_kind ?r = SpecTypeIPv4" "hasPattern ?r" "specificity ?r = of_nat k'"
    by (simp_all add: net_spec_fields [OF assms(1)] net_spec_fields [OF assms(2)])
  from assms(3) have "sint (of_nat k' :: 32 word) \<le> sint (of_nat k :: 32 word)"
  proof
    assume "?l = ?r"
    then show ?thesis using f(3,6) by simp
  next
    assume "CmpUrlSpaceContextSpecs ?l ?r \<le> 0"
    then show ?thesis using f unfolding CmpUrlSpaceContextSpecs_def by (simp add: Let_def split: if_splits)
  qed
  then show ?thesis using assms(1,2) by (simp add: net_ok_def sint_prefix)
qed

lemma eval_net_spec:
  assumes "net_ok pton4 (addr, k, d)" "sa_ok sa" "ctx_saPtr ctx = Some sa"
  shows "NsUrlSpaceContextFilterEval smatch (net_spec pton4 pton6 f addr k) ctx \<longleftrightarrow> in_net pton4 sa (addr, k, d)"
proof -
  obtain b where b: "pton4 addr = Some b" "length b = 4" "CHR ''/'' \<notin> set addr" "k \<le> 32"
    using assms by (auto simp: net_ok_def split: option.splits)
  have x: "strcasecmp ''X-NS-ip'' ''X-NS-ip'' = 0" by (simp add: strcasecmp_def)
  show ?thesis
    using cidr_matches_v4 [of pton4 addr, OF b assms(2), of pton6] parse_cidr_v4 [of pton4 addr, OF b(1,3,4), of pton6] b(1) assms(3)
    by (simp add: net_spec_def eval_SpecNew kv_holds_def x in_net_def)
qed

lemma enter_nets_specs:
  assumes "\<forall>x \<in> set nets. net_ok pton4 x" "specs_sorted n"
  shows "specs_sorted (enter_nets pton4 pton6 f nets n)
    \<and> set (node_specs (enter_nets pton4 pton6 f nets n)) =
        set (node_specs n) \<union> (\<lambda>(addr, k, d). spec_attach (net_spec pton4 pton6 f addr k) d None) ` set nets
    \<and> dataInherit (enter_nets pton4 pton6 f nets n) = dataInherit n
    \<and> dataNoInherit (enter_nets pton4 pton6 f nets n) = dataNoInherit n"
  using assms
proof (induction nets arbitrary: n)
  case (Cons x nets)
  obtain addr k d where x: "x = (addr, k, d)" by (cases x)
  have v: "spec_valid (net_spec pton4 pton6 f addr k)" using net_spec_fields(4) Cons.prems(1) x by auto
  show ?case
    using Cons.IH [of "fst (node_add (Some n) d 0 None (Some (net_spec pton4 pton6 f addr k)))"] Cons.prems
      node_add_spec [OF Cons.prems(2) v, of d None]
    by (auto simp: enter_nets_def x)
qed (simp add: enter_nets_def)



theorem context_constraint_meaning_witness:
  "\<exists>spec :: nat context_spec.
     NsObjToUrlSpaceContextSpec demo_pton4 (\<lambda>_. None) 0 [''Host'', ''a'', ''X-NS-ip'', ''10.0.0.0/8''] = Some spec \<and>
     \<not> NsUrlSpaceContextFilterEval (=) spec \<lparr>ctx_headers = None, ctx_saPtr = Some (v4_addr [10, 1, 2, 3])\<rparr>"
  using context_constraint_meaning [of "[(''Host'', ''a''), (''X-NS-ip'', ''10.0.0.0/8'')]" demo_pton4 "\<lambda>_. None" 0 "(=)"]
  by (fastforce simp: kv_holds_def strcasecmp_def)

subsection \<open>Differences\<close>

text \<open>An empty list of constraints is accepted, as a conjunction that no request satisfies.\<close>

lemma empty_constraints_never_hold:
  "\<exists>spec. NsObjToUrlSpaceContextSpec pton4 pton6 f [] = Some spec \<and> \<not> NsUrlSpaceContextFilterEval smatch spec ctx"
  by (simp add: NsObjToUrlSpaceContextSpec_def Let_def)

text \<open>
  The entry \<^verbatim>\<open>x-ns-ip\<close> of a set is found whatever its case, but deleted only in lower case: under
  another spelling it stays among the header fields.
\<close>

lemma x_ns_ip_stays:
  "map_sum id (\<lambda>(_, c). map_option set_fields (ctx_headers c))
     (NsUrlSpaceContextFromSet demo_pton4 (\<lambda>_. None) sa_zero
        \<lparr>set_name = None, set_fields = [\<lparr>fname = ''X-NS-IP'', fvalue = Some ''10.0.0.0''\<rparr>], maxSize = 10, flags = 0\<rparr>) =
   Inr (Some [\<lparr>fname = ''X-NS-IP'', fvalue = Some ''10.0.0.0''\<rparr>])"
  by code_simp

end
