(* ===== verification/NsUrl.thy ===== *)
theory NsUrl
  imports NsStr NsScan
begin

text \<open>
  URLs: the model of \<^verbatim>\<open>nsd/url.c\<close> and of \<^verbatim>\<open>Ns_HttpParseHost2\<close> of \<^verbatim>\<open>nsd/tclhttp.c\<close>. The parser works on
  one writable buffer: it overwrites separators with NUL and hands out pointers into the buffer, so a
  component ends where the next NUL happens to be. The buffer is a list of characters (its terminating NUL is
  implicit), a pointer is NULL, the static empty string or a position in the buffer, and the string at a
  position extends to the next NUL. The character tables are given by their ranges.
\<close>

subsection \<open>The buffer\<close>

datatype uptr = U_Null | U_Empty | U_At nat

definition at0 :: "cstring \<Rightarrow> nat \<Rightarrow> char" where
  "at0 buf i = (if i < length buf then buf ! i else NUL_char)"

definition set0 :: "cstring \<Rightarrow> nat \<Rightarrow> cstring" where
  "set0 buf i = buf[i := NUL_char]"

definition buf_str :: "cstring \<Rightarrow> nat \<Rightarrow> cstring" where
  "buf_str buf i = takeWhile (\<lambda>c. c \<noteq> NUL_char) (drop i buf)"

definition uview :: "cstring \<Rightarrow> uptr \<Rightarrow> cstring option" where
  "uview buf p = (case p of U_Null \<Rightarrow> None | U_Empty \<Rightarrow> Some [] | U_At i \<Rightarrow> Some (buf_str buf i))"

text \<open>A loop that advances while a table, which never holds for NUL, allows it.\<close>

definition scan_to :: "(char \<Rightarrow> bool) \<Rightarrow> cstring \<Rightarrow> nat \<Rightarrow> nat" where
  "scan_to P buf i = i + length (takeWhile P (drop i buf))"

definition find_in :: "cstring \<Rightarrow> nat \<Rightarrow> char \<Rightarrow> nat option" where
  "find_in buf i c = map_option (\<lambda>k. i + k) (strchr (buf_str buf i) c)"

text \<open>\<^verbatim>\<open>strrchr\<close>: the last occurrence.\<close>

definition rfind_in :: "cstring \<Rightarrow> nat \<Rightarrow> char \<Rightarrow> nat option" where
  "rfind_in buf i c =
     (let s = buf_str buf i in if c \<in> set s then Some (i + (length s - 1 - length (takeWhile (\<lambda>x. x \<noteq> c) (rev s)))) else None)"

subsection \<open>Character tables\<close>

definition in_ranges :: "(nat \<times> nat) list \<Rightarrow> char \<Rightarrow> bool" where
  "in_ranges rs c = list_ex (\<lambda>(a, b). a \<le> byte_of c \<and> byte_of c \<le> b) rs"

definition alpha_table :: "char \<Rightarrow> bool" where
  "alpha_table = in_ranges [(0x41, 0x5A), (0x61, 0x7A)]"

definition url_scheme_table :: "char \<Rightarrow> bool" where
  "url_scheme_table = in_ranges [(0x2B, 0x2B), (0x2D, 0x2E), (0x30, 0x39), (0x41, 0x5A), (0x61, 0x7A)]"

definition userinfo_table :: "char \<Rightarrow> bool" where
  "userinfo_table = in_ranges [(0x21, 0x21), (0x24, 0x2E), (0x30, 0x3B), (0x3D, 0x3D), (0x41, 0x5A), (0x5F, 0x5F),
     (0x61, 0x7A), (0x7E, 0x7E)]"

definition path_table :: "char \<Rightarrow> bool" where
  "path_table = in_ranges [(0x21, 0x21), (0x24, 0x2F), (0x30, 0x3B), (0x3D, 0x3D), (0x40, 0x5A), (0x5F, 0x5F),
     (0x61, 0x7A), (0x7E, 0x7E)]"

definition fragment_table :: "char \<Rightarrow> bool" where
  "fragment_table = in_ranges [(0x21, 0x21), (0x24, 0x2F), (0x30, 0x3B), (0x3D, 0x3D), (0x3F, 0x5A), (0x5F, 0x5F),
     (0x61, 0x7A), (0x7E, 0x7E)]"

definition regname_table :: "char \<Rightarrow> bool" where
  "regname_table = in_ranges [(0x25, 0x25), (0x2D, 0x2E), (0x30, 0x39), (0x41, 0x5A), (0x5F, 0x5F), (0x61, 0x7A),
     (0x7E, 0x7E)]"

definition delimiter_table :: "char \<Rightarrow> bool" where
  "delimiter_table c = (byte_of c \<notin> {0x00, 0x20, 0x23, 0x2F, 0x3A, 0x3F})"

subsection \<open>The parser\<close>

record Ns_URL =
  u_protocol :: uptr
  u_userinfo :: uptr
  u_host :: uptr
  u_port :: uptr
  u_path :: uptr
  u_tail :: uptr
  u_query :: uptr
  u_fragment :: uptr

definition url_zero :: Ns_URL where
  "url_zero = \<lparr>u_protocol = U_Null, u_userinfo = U_Null, u_host = U_Null, u_port = U_Null, u_path = U_Null,
     u_tail = U_Null, u_query = U_Null, u_fragment = U_Null\<rparr>"

text \<open>The new buffer, the user information and the position of the host.\<close>

definition ParseUserInfo :: "cstring \<Rightarrow> nat \<Rightarrow> cstring \<times> uptr \<times> nat" where
  "ParseUserInfo buf chars =
     (let p = scan_to userinfo_table buf chars
      in if at0 buf p = CHR ''@'' then (set0 buf p, U_At chars, p + 1) else (buf, U_Null, chars))"

definition ParseUpTo :: "cstring \<Rightarrow> nat \<Rightarrow> char \<Rightarrow> cstring \<times> uptr" where
  "ParseUpTo buf chars ch = (case find_in buf chars ch of Some p \<Rightarrow> (set0 buf p, U_At (p + 1)) | None \<Rightarrow> (buf, U_Null))"

text \<open>The checked pointer and the error message, which is kept when the text is valid.\<close>

definition ValidateChars :: "cstring \<Rightarrow> (char \<Rightarrow> bool) \<Rightarrow> cstring \<Rightarrow> uptr \<Rightarrow> cstring option \<Rightarrow> uptr \<times> cstring option" where
  "ValidateChars buf table msg p err =
     (case p of
        U_Null \<Rightarrow> (U_Null, err)
      | U_Empty \<Rightarrow> (U_Empty, err)
      | U_At i \<Rightarrow> if at0 buf (scan_to table buf i) = NUL_char then (p, err) else (U_Null, Some msg))"

definition SkipDigits :: "cstring \<Rightarrow> nat \<Rightarrow> nat" where
  "SkipDigits buf i = scan_to c_isdigit buf i"

text \<open>Success, buffer, host, port and the end; the end is \<open>None\<close> after a missing bracket.\<close>

definition Ns_HttpParseHost2 :: "cstring \<Rightarrow> nat \<Rightarrow> bool \<Rightarrow> bool \<times> cstring \<times> uptr \<times> uptr \<times> nat option" where
  "Ns_HttpParseHost2 buf h strict =
     (let (success, buf, host, port, end1) =
        (if at0 buf h = CHR ''['' then
           (case find_in buf (h + 1) (CHR '']'') of
              Some p \<Rightarrow>
                (let buf = set0 buf p
                 in if at0 buf (p + 1) = CHR '':''
                    then (let buf = set0 buf (p + 1) in (True, buf, U_At (h + 1), U_At (p + 2), Some (SkipDigits buf (p + 2))))
                    else (True, buf, U_At (h + 1), U_Null, Some (p + 1)))
            | None \<Rightarrow> (False, buf, U_Null, U_Null, None))
         else
           (let p = scan_to (if strict then regname_table else delimiter_table) buf h;
                ok = (at0 buf h \<noteq> CHR ''.'' \<and> at0 buf p \<in> {NUL_char, CHR '':'', CHR ''/'', CHR ''?'', CHR ''#''})
            in if at0 buf p = CHR '':''
               then (let buf = set0 buf p in (ok, buf, U_At h, U_At (p + 1), Some (SkipDigits buf (p + 1))))
               else (ok, buf, U_At h, U_Null, Some p)))
      in (success \<and> (case port of U_At i \<Rightarrow> end1 \<noteq> Some i | _ \<Rightarrow> True), buf, host, port, end1))"

text \<open>The scheme: \<open>None\<close> is the error, otherwise the protocol and where the rest starts.\<close>

definition parse_scheme :: "cstring \<Rightarrow> (cstring \<times> uptr \<times> nat) option" where
  "parse_scheme buf =
     (let end1 = (if alpha_table (at0 buf 0) then scan_to url_scheme_table buf 1 else 0)
      in if end1 \<noteq> 0 \<and> at0 buf end1 = CHR '':'' then Some (set0 buf end1, U_At 0, end1 + 1)
         else if at0 buf end1 \<notin> {CHR ''/'', CHR ''?'', CHR ''#'', NUL_char}
              \<and> CHR '':'' \<in> set (takeWhile (\<lambda>c. c \<noteq> NUL_char \<and> c \<noteq> CHR ''/'') (drop end1 buf))
         then None
         else Some (buf, U_Null, 0))"

definition validate_parts :: "bool \<Rightarrow> cstring \<Rightarrow> Ns_URL \<Rightarrow> cstring option \<Rightarrow> Ns_URL \<times> cstring option" where
  "validate_parts strict buf u err =
     (if strict then
        (let (q, err) = ValidateChars buf fragment_table ''query contains invalid character'' (u_query u) err;
             (f, err) = ValidateChars buf fragment_table ''fragment contains invalid character'' (u_fragment u) err;
             (t, err) = ValidateChars buf path_table ''tail contains invalid character'' (u_tail u) err;
             (p, err) = ValidateChars buf path_table ''path contains invalid character'' (u_path u) err
         in (u\<lparr>u_query := q, u_fragment := f, u_tail := t, u_path := p\<rparr>, err))
      else (u, err))"

text \<open>The separation of the last segment from the path.\<close>

definition cut_tail :: "cstring \<Rightarrow> nat \<Rightarrow> cstring \<times> uptr \<times> uptr" where
  "cut_tail buf url =
     (case rfind_in buf url (CHR ''/'') of
        None \<Rightarrow> (buf, U_Empty, U_At url)
      | Some p \<Rightarrow> (set0 buf p, U_At url, U_At (p + 1)))"

text \<open>The part behind the authority, from the position \<open>e\<close> on.\<close>

definition parse_path :: "cstring \<Rightarrow> nat \<Rightarrow> Ns_URL \<Rightarrow> cstring \<times> uptr \<times> uptr \<times> uptr \<times> uptr" where
  "parse_path buf e u =
     (if at0 buf e = CHR ''/'' then
        (let buf = set0 buf e;
             url = e + 1;
             (buf, query) = ParseUpTo buf url (CHR ''?'');
             (buf, fragment) = (if query = U_Null then ParseUpTo buf url (CHR ''#'') else (buf, U_Null));
             (buf, path, tail) = cut_tail buf url
         in (buf, path, tail, query, fragment))
      else (buf, u_path u, U_At e, U_Null, U_Null))"

definition parse_rest :: "cstring \<Rightarrow> nat \<Rightarrow> bool \<Rightarrow> Ns_URL \<Rightarrow> Ns_URL \<times> cstring option \<times> cstring" where
  "parse_rest buf e strict u =
     (let c = at0 buf e
      in if c = NUL_char then (u, None, buf)
         else if c = CHR ''#'' then (u\<lparr>u_fragment := U_At (e + 1)\<rparr>, None, set0 buf e)
         else if c = CHR ''?'' then
           (let (buf, fragment) = ParseUpTo (set0 buf e) (e + 1) (CHR ''#'')
            in (u\<lparr>u_query := U_At (e + 1), u_fragment := fragment\<rparr>, None, buf))
         else
           (let (buf, path, tail, query, fragment) = parse_path buf e u;
                t = (case tail of U_At i \<Rightarrow> i | _ \<Rightarrow> 0);
                (buf, query) = (if query = U_Null then ParseUpTo buf t (CHR ''?'') else (buf, query));
                (buf, fragment) =
                  (case query of
                     U_At q \<Rightarrow> ParseUpTo buf q (CHR ''#'')
                   | _ \<Rightarrow> if fragment = U_Null then ParseUpTo buf t (CHR ''#'') else (buf, fragment));
                (u, err) = validate_parts strict buf
                   (u\<lparr>u_path := path, u_tail := tail, u_query := query, u_fragment := fragment\<rparr>) None
            in (u, err, buf)))"

text \<open>The status, the components, the error message and the buffer the components point into.\<close>

definition Ns_ParseUrl :: "cstring \<Rightarrow> bool \<Rightarrow> Ns_ReturnCode \<times> Ns_URL \<times> cstring option \<times> cstring" where
  "Ns_ParseUrl text0 strict =
     (case parse_scheme text0 of
        None \<Rightarrow> (NS_ERROR, url_zero, Some ''invalid scheme'', text0)
      | Some (buf, protocol, url) \<Rightarrow>
          (let u = url_zero\<lparr>u_protocol := protocol\<rparr>
           in if at0 buf url = CHR ''/'' \<and> at0 buf (url + 1) = CHR ''/'' then
                (let (buf, userinfo, h) = ParseUserInfo buf (url + 2);
                     (ok, buf, host, port, end1) = Ns_HttpParseHost2 buf h strict;
                     u = u\<lparr>u_path := U_Empty, u_tail := U_Empty, u_userinfo := userinfo, u_host := host, u_port := port\<rparr>
                 in case end1 of
                      None \<Rightarrow> (NS_ERROR, u, Some ''invalid authority'', buf)
                    | Some e \<Rightarrow>
                        if ok then (let (u, err, buf) = parse_rest buf e strict u in (NS_OK, u, err, buf))
                        else (NS_ERROR, u, Some ''invalid authority'', buf))
              else (let (u, err, buf) = parse_rest buf url strict u in (NS_OK, u, err, buf))))"

subsection \<open>Clients of the parser\<close>

text \<open>\<^verbatim>\<open>Ns_RelativeUrl\<close> for two texts.\<close>

fun strip_double_slash :: "cstring \<Rightarrow> cstring" where
  "strip_double_slash (a # b # s) = (if a = CHR ''/'' \<and> b = CHR ''/'' then strip_double_slash (b # s) else a # b # s)"
| "strip_double_slash s = s"

definition Ns_RelativeUrl :: "cstring \<Rightarrow> cstring \<Rightarrow> cstring" where
  "Ns_RelativeUrl url location =
     strip_double_slash (case Ns_Match (Some location) (Some url) of Some v \<Rightarrow> v | None \<Rightarrow> url)"

definition Ns_PlainUrlPath :: "cstring \<Rightarrow> bool" where
  "Ns_PlainUrlPath url =
     (case Ns_ParseUrl url False of (status, u, _) \<Rightarrow> status = NS_OK \<and> u_query u = U_Null \<and> u_fragment u = U_Null)"

text \<open>
  \<^verbatim>\<open>Ns_AbsoluteUrl\<close>: the status and the appended text. Only the protocol, host, port, path and tail are appended; the tail may
  be NULL, which ends the arguments of \<^verbatim>\<open>Ns_DStringVarAppend\<close>.
\<close>

definition Ns_AbsoluteUrl :: "cstring \<Rightarrow> cstring \<Rightarrow> Ns_ReturnCode \<times> cstring" where
  "Ns_AbsoluteUrl urlString baseString =
     (case (Ns_ParseUrl (if urlString = [] then ''/'' else urlString) False, Ns_ParseUrl baseString False) of
        ((_, u, _, ub), (status, b, _, bb)) \<Rightarrow>
          (case (uview bb (u_protocol b), uview bb (u_host b), uview bb (u_path b)) of
             (Some bprot, Some bhost, Some bpath) \<Rightarrow>
               (let prot = (case uview ub (u_protocol u) of Some p \<Rightarrow> p | None \<Rightarrow> bprot);
                    (host, port) = (case uview ub (u_host u) of
                       Some h \<Rightarrow> (h, uview ub (u_port u))
                     | None \<Rightarrow> (bhost, uview bb (u_port b)));
                    path = (case uview ub (u_path u) of Some p \<Rightarrow> p | None \<Rightarrow> bpath);
                    tail = (case uview ub (u_tail u) of Some t \<Rightarrow> t | None \<Rightarrow> [])
                in (status,
                    prot @ ''://'' @ (if CHR '':'' \<notin> set host then host else ''['' @ host @ '']'') @
                    (case port of Some p \<Rightarrow> '':'' @ p | None \<Rightarrow> []) @
                    (if path = [] then ''/'' @ tail else ''/'' @ path @ ''/'' @ tail)))
           | _ \<Rightarrow> (NS_ERROR, [])))"

subsection \<open>Reading and writing the buffer\<close>

lemma at0_eq: "i = length pre \<Longrightarrow> at0 (pre @ c # post) i = c"
  by (simp add: at0_def)

lemma at0_end: "length buf \<le> i \<Longrightarrow> at0 buf i = NUL_char"
  by (simp add: at0_def)

lemma set0_eq: "i = length pre \<Longrightarrow> set0 (pre @ c # post) i = pre @ NUL_char # post"
  by (simp add: set0_def)

definition stops :: "cstring \<Rightarrow> bool" where
  "stops r \<longleftrightarrow> r = [] \<or> hd r = NUL_char"

lemma stops_simps [simp]: "stops []" "stops (NUL_char # r)"
  by (simp_all add: stops_def)

lemma buf_str_eq: "drop i buf = w @ r \<Longrightarrow> stops r \<Longrightarrow> NUL_char \<notin> set w \<Longrightarrow> buf_str buf i = w"
  by (cases r) (auto simp: buf_str_def stops_def scan)

lemma scan_to_eq: "drop i buf = w @ c # r \<Longrightarrow> \<forall>x \<in> set w. P x \<Longrightarrow> \<not> P c \<Longrightarrow> scan_to P buf i = i + length w"
  by (simp add: scan_to_def scan)

lemma strchr_first: "c \<notin> set w \<Longrightarrow> strchr (w @ c # r) c = Some (length w)"
  by (induction w) auto

lemma find_in_eq:
  "drop i buf = w @ c # r \<Longrightarrow> c \<notin> set w \<Longrightarrow> NUL_char \<notin> set w \<Longrightarrow> c \<noteq> NUL_char \<Longrightarrow> find_in buf i c = Some (i + length w)"
proof -
  assume a: "drop i buf = w @ c # r" "c \<notin> set w" "NUL_char \<notin> set w" "c \<noteq> NUL_char"
  have "takeWhile (\<lambda>x. x \<noteq> NUL_char) (w @ c # r) = w @ c # takeWhile (\<lambda>x. x \<noteq> NUL_char) r"
    using a(3,4) by (induction w) auto
  then show ?thesis using a strchr_first by (simp add: find_in_def buf_str_def)
qed

lemma ParseUpTo_found:
  "drop i buf = w @ c # r \<Longrightarrow> c \<notin> set w \<Longrightarrow> NUL_char \<notin> set w \<Longrightarrow> c \<noteq> NUL_char \<Longrightarrow>
   ParseUpTo buf i c = (set0 buf (i + length w), U_At (i + length w + 1))"
  by (simp add: ParseUpTo_def find_in_eq)

lemma ParseUpTo_none:
  "drop i buf = w @ r \<Longrightarrow> stops r \<Longrightarrow> NUL_char \<notin> set w \<Longrightarrow> c \<notin> set w \<Longrightarrow> ParseUpTo buf i c = (buf, U_Null)"
  using strchr_None_iff [of w c] by (simp add: ParseUpTo_def find_in_def buf_str_eq)

lemma rfind_in_eq:
  assumes "drop i buf = w @ c # v @ r" "stops r" "NUL_char \<notin> set w" "NUL_char \<notin> set v" "c \<noteq> NUL_char" "c \<notin> set v"
  shows "rfind_in buf i c = Some (i + length w)"
proof -
  have "buf_str buf i = w @ c # v" by (rule buf_str_eq [of _ _ _ r]) (use assms in auto)
  moreover have "takeWhile (\<lambda>x. x \<noteq> c) (rev v @ c # rev w) = rev v" using assms(6) by (simp add: scan)
  ultimately show ?thesis by (simp add: rfind_in_def)
qed

lemma rfind_in_none:
  "drop i buf = w @ r \<Longrightarrow> stops r \<Longrightarrow> NUL_char \<notin> set w \<Longrightarrow> c \<notin> set w \<Longrightarrow> rfind_in buf i c = None"
  by (simp add: rfind_in_def buf_str_eq)

lemma ValidateChars_ok:
  assumes "drop i buf = w @ r" "stops r" "\<forall>x \<in> set w. table x" "\<not> table NUL_char"
  shows "ValidateChars buf table msg (U_At i) err = (U_At i, err)"
proof -
  have "at0 buf (scan_to table buf i) = NUL_char"
  proof (cases r)
    case Nil
    then have "scan_to table buf i = i + length w"
      using assms by (simp add: scan_to_def takeWhile_eq_all_conv [THEN iffD2])
    moreover have "length buf \<le> i + length w" using assms(1) Nil by (metis append_Nil2 drop_drop drop_eq_Nil drop_all add.commute order_refl)
    ultimately show ?thesis by (simp add: at0_end)
  next
    case (Cons c cs)
    then have c: "c = NUL_char" using assms(2) by (simp add: stops_def)
    have sc: "scan_to table buf i = i + length w"
      by (rule scan_to_eq [of i buf w c cs]) (use assms c Cons in auto)
    have "drop (i + length w) buf = c # cs" using assms(1) Cons by (metis add.commute append_eq_conv_conj drop_drop)
    then show ?thesis unfolding sc at0_def using c by (metis drop_eq_Nil hd_drop_conv_nth linorder_not_le list.distinct(1) list.sel(1))
  qed
  then show ?thesis by (simp add: ValidateChars_def)
qed

lemma tables_NUL [simp]: "\<not> path_table NUL_char" "\<not> fragment_table NUL_char" "\<not> regname_table NUL_char" "\<not> userinfo_table NUL_char"
  by code_simp+

subsection \<open>The path\<close>

definition lead :: "char \<Rightarrow> cstring option \<Rightarrow> cstring" where
  "lead c t = (case t of None \<Rightarrow> [] | Some w \<Rightarrow> c # w)"

lemma lead_simps [simp]: "lead c None = []" "lead c (Some w) = c # w"
  by (simp_all add: lead_def)

definition slash_path :: "char \<Rightarrow> cstring \<Rightarrow> cstring" where
  "slash_path c path = (if path = [] then [] else path @ [c])"

definition slen :: "cstring \<Rightarrow> nat" where
  "slen path = (if path = [] then 0 else length path + 1)"

lemma slen_Nil [simp]: "slen [] = 0"
  by (simp add: slen_def)

definition path_ptr :: "nat \<Rightarrow> cstring \<Rightarrow> uptr" where
  "path_ptr i path = (if path = [] then U_Empty else U_At i)"

lemma length_slash_path [simp]: "length (slash_path c path) = slen path"
  by (simp add: slash_path_def slen_def)

definition chars_ok :: "(char \<Rightarrow> bool) \<Rightarrow> cstring \<Rightarrow> bool" where
  "chars_ok P w \<longleftrightarrow> (\<forall>c \<in> set w. P c)"

definition rest_ok :: "cstring \<Rightarrow> cstring \<Rightarrow> cstring option \<Rightarrow> cstring option \<Rightarrow> bool" where
  "rest_ok path tail q f \<longleftrightarrow>
     chars_ok path_table path \<and> chars_ok path_table tail \<and> CHR ''/'' \<notin> set tail \<and>
     (\<forall>w. q = Some w \<longrightarrow> chars_ok fragment_table w) \<and>
     (\<forall>w. f = Some w \<longrightarrow> chars_ok fragment_table w \<and> (q = None \<longrightarrow> CHR ''?'' \<notin> set w))"

lemma table_excludes:
  "chars_ok path_table w \<Longrightarrow> NUL_char \<notin> set w \<and> CHR ''?'' \<notin> set w \<and> CHR ''#'' \<notin> set w"
  "chars_ok fragment_table w \<Longrightarrow> NUL_char \<notin> set w \<and> CHR ''#'' \<notin> set w"
proof -
  have "\<not> path_table NUL_char" "\<not> path_table CHR ''?''" "\<not> path_table CHR ''#''" "\<not> fragment_table NUL_char"
    "\<not> fragment_table CHR ''#''" by code_simp+
  then show "chars_ok path_table w \<Longrightarrow> NUL_char \<notin> set w \<and> CHR ''?'' \<notin> set w \<and> CHR ''#'' \<notin> set w"
    "chars_ok fragment_table w \<Longrightarrow> NUL_char \<notin> set w \<and> CHR ''#'' \<notin> set w"
    by (auto simp: chars_ok_def)
qed

text \<open>The buffer and the positions after the part behind the authority has been taken apart.\<close>

definition final_rest :: "cstring \<Rightarrow> cstring \<Rightarrow> cstring \<Rightarrow> cstring option \<Rightarrow> cstring option \<Rightarrow> cstring" where
  "final_rest pre path tail q f = pre @ NUL_char # slash_path NUL_char path @ tail @ lead NUL_char q @ lead NUL_char f"

lemma NUL_not [simp]: "NUL_char \<noteq> CHR ''/''" "NUL_char \<noteq> CHR ''?''" "NUL_char \<noteq> CHR ''#''" "NUL_char \<noteq> CHR '':''" "NUL_char \<noteq> CHR ''@''"
  "NUL_char \<noteq> CHR '']''" "NUL_char \<noteq> CHR ''[''" "NUL_char \<noteq> CHR ''.''"
  "CHR ''/'' \<noteq> NUL_char" "CHR ''?'' \<noteq> NUL_char" "CHR ''#'' \<noteq> NUL_char" "CHR '':'' \<noteq> NUL_char" "CHR ''@'' \<noteq> NUL_char"
  "CHR '']'' \<noteq> NUL_char"
  by (simp_all add: NUL_char_def)

lemma cut_tail_eq:
  assumes "chars_ok path_table path" "chars_ok path_table tail" "CHR ''/'' \<notin> set tail" "stops T"
  shows "cut_tail (pre @ NUL_char # slash_path (CHR ''/'') path @ tail @ T) (Suc (length pre)) =
    (pre @ NUL_char # slash_path NUL_char path @ tail @ T, path_ptr (Suc (length pre)) path,
     U_At (Suc (length pre + slen path)))"
proof (cases "path = []")
  case True
  have "rfind_in (pre @ NUL_char # tail @ T) (Suc (length pre)) (CHR ''/'') = None"
    by (rule rfind_in_none [of _ _ tail T]) (use assms table_excludes in auto)
  then show ?thesis using True by (simp add: slash_path_def cut_tail_def path_ptr_def slen_def)
next
  case False
  have "rfind_in (pre @ NUL_char # path @ CHR ''/'' # tail @ T) (Suc (length pre)) (CHR ''/'') = Some (Suc (length pre) + length path)"
    by (rule rfind_in_eq [of _ _ path _ tail T]) (use assms table_excludes in auto)
  moreover have "set0 (pre @ NUL_char # path @ CHR ''/'' # tail @ T) (Suc (length pre) + length path) =
      pre @ NUL_char # path @ NUL_char # tail @ T"
    using set0_eq [of "Suc (length pre) + length path" "pre @ NUL_char # path"] by simp
  ultimately show ?thesis using False by (simp add: slash_path_def cut_tail_def path_ptr_def slen_def)
qed

lemma parse_path_eq:
  assumes ok: "rest_ok path tail q f"
  defines "P \<equiv> slash_path (CHR ''/'') path @ tail"
  shows "parse_path (pre @ CHR ''/'' # P @ lead (CHR ''?'') q @ lead (CHR ''#'') f) (length pre) u =
    (pre @ NUL_char # slash_path NUL_char path @ tail @
       (case q of Some w \<Rightarrow> NUL_char # w @ lead (CHR ''#'') f | None \<Rightarrow> lead NUL_char f),
     path_ptr (length pre + 1) path,
     U_At (length pre + 1 + slen path),
     (case q of Some w \<Rightarrow> U_At (length pre + 2 + length P) | None \<Rightarrow> U_Null),
     (case q of Some w \<Rightarrow> U_Null | None \<Rightarrow> (case f of Some w \<Rightarrow> U_At (length pre + 2 + length P) | None \<Rightarrow> U_Null)))"
proof -
  have P: "NUL_char \<notin> set P" "CHR ''?'' \<notin> set P" "CHR ''#'' \<notin> set P"
    using ok table_excludes(1) by (auto simp: rest_ok_def P_def slash_path_def)
  have a0: "at0 (pre @ CHR ''/'' # X) (length pre) = CHR ''/''" "set0 (pre @ CHR ''/'' # X) (length pre) = pre @ NUL_char # X" for X
    by (simp_all add: at0_eq set0_eq)
  let ?i = "Suc (length pre)"
  have up: "ParseUpTo (pre @ NUL_char # P @ c # R) ?i c = (pre @ NUL_char # P @ NUL_char # R, U_At (length pre + 2 + length P))"
    if "c \<notin> set P" "c \<noteq> NUL_char" for c R
  proof -
    have "ParseUpTo (pre @ NUL_char # P @ c # R) ?i c =
        (set0 (pre @ NUL_char # P @ c # R) (?i + length P), U_At (?i + length P + 1))"
      by (rule ParseUpTo_found [of _ _ P c R]) (use that P in simp_all)
    then show ?thesis using set0_eq [of "?i + length P" "pre @ NUL_char # P" c R] by simp
  qed
  have none: "ParseUpTo (pre @ NUL_char # W) ?i c = (pre @ NUL_char # W, U_Null)"
    if "NUL_char \<notin> set W" "c \<notin> set W" for c W
    by (rule ParseUpTo_none [of _ _ W "[]"]) (use that in simp_all)
  have pt: "chars_ok path_table path" "chars_ok path_table tail" "CHR ''/'' \<notin> set tail" using ok by (simp_all add: rest_ok_def)
  show ?thesis
  proof (cases q)
    case (Some w)
    show ?thesis
      using cut_tail_eq [OF pt, of "NUL_char # w @ lead (CHR ''#'') f"] up [of "CHR ''?''" "w @ lead (CHR ''#'') f"] P Some
      by (simp add: parse_path_def a0 P_def)
  next
    case None
    show ?thesis
    proof (cases f)
      case (Some w)
      have w: "NUL_char \<notin> set w" "CHR ''?'' \<notin> set w" using ok None Some table_excludes(2) by (auto simp: rest_ok_def)
      show ?thesis
        using cut_tail_eq [OF pt, of "NUL_char # w"] up [of "CHR ''#''" w] none [of "P @ CHR ''#'' # w" "CHR ''?''"] P w Some None
        by (simp add: parse_path_def a0 P_def)
    next
      case fn: None
      show ?thesis
        using cut_tail_eq [OF pt, of "[]"] none [of P "CHR ''?''"] none [of P "CHR ''#''"] P fn None
        by (simp add: parse_path_def a0 P_def)
    qed
  qed
qed

definition rest_url :: "nat \<Rightarrow> cstring \<Rightarrow> cstring \<Rightarrow> cstring option \<Rightarrow> cstring option \<Rightarrow> Ns_URL \<Rightarrow> Ns_URL" where
  "rest_url i path tail q f u =
     (let t = i + slen path; r = t + length tail + 1
      in u\<lparr>u_path := path_ptr i path, u_tail := U_At t,
           u_query := (case q of Some _ \<Rightarrow> U_At r | None \<Rightarrow> U_Null),
           u_fragment := (case f of Some _ \<Rightarrow> U_At (case q of Some w \<Rightarrow> r + length w + 1 | None \<Rightarrow> r) | None \<Rightarrow> U_Null)\<rparr>)"

lemma validate_parts_ok:
  assumes "rest_ok path tail q f"
  shows "validate_parts strict (final_rest pre path tail q f) (rest_url (length pre + 1) path tail q f u) None =
    (rest_url (length pre + 1) path tail q f u, None)"
proof (cases strict)
  case True
  let ?B = "final_rest pre path tail q f" and ?i = "length pre + 1"
  have ok: "\<forall>x \<in> set path. path_table x" "\<forall>x \<in> set tail. path_table x"
    "\<And>w. q = Some w \<Longrightarrow> \<forall>x \<in> set w. fragment_table x" "\<And>w. f = Some w \<Longrightarrow> \<forall>x \<in> set w. fragment_table x"
    using assms by (auto simp: rest_ok_def chars_ok_def)
  have st: "stops (lead NUL_char q @ lead NUL_char f)" "stops (lead NUL_char f)" by (cases q; cases f; simp)+
  have p1: "ValidateChars ?B path_table m (U_At ?i) e = (U_At ?i, e)" if "path \<noteq> []" for m e
    by (rule ValidateChars_ok [of _ _ path "NUL_char # tail @ lead NUL_char q @ lead NUL_char f"])
      (use ok that in \<open>simp_all add: final_rest_def slash_path_def\<close>)
  have t: "ValidateChars ?B path_table m (U_At (?i + slen path)) e =
      (U_At (?i + slen path), e)" for m e
    by (rule ValidateChars_ok [of _ _ tail "lead NUL_char q @ lead NUL_char f"]) (use ok st in \<open>simp_all add: final_rest_def\<close>)
  let ?r = "?i + slen path + length tail + 1"
  have qv: "ValidateChars ?B fragment_table m (U_At ?r) e = (U_At ?r, e)" if "q = Some w" for m e w
    by (rule ValidateChars_ok [of _ _ w "lead NUL_char f"]) (use ok st that in \<open>simp_all add: final_rest_def\<close>)
  have f1: "ValidateChars ?B fragment_table m (U_At ?r) e = (U_At ?r, e)" if "q = None" "f = Some w" for m e w
    by (rule ValidateChars_ok [of _ _ w "[]"]) (use ok that in \<open>simp_all add: final_rest_def\<close>)
  have f2: "ValidateChars ?B fragment_table m (U_At (?r + length v + 1)) e = (U_At (?r + length v + 1), e)"
    if "q = Some v" "f = Some w" for m e v w
    by (rule ValidateChars_ok [of _ _ w "[]"]) (use ok that in \<open>simp_all add: final_rest_def numeral_3_eq_3\<close>)
  have nul: "ValidateChars ?B T m U_Null e = (U_Null, e)" "ValidateChars ?B T m U_Empty e = (U_Empty, e)" for T m e
    by (simp_all add: ValidateChars_def)
  have p: "ValidateChars ?B path_table m (path_ptr ?i path) e = (path_ptr ?i path, e)" for m e
  proof (cases "path = []")
    case True
    then have "path_ptr ?i path = U_Empty" by (simp add: path_ptr_def)
    then show ?thesis by (simp only: nul)
  qed (use p1 in \<open>simp add: path_ptr_def\<close>)
  have u: "u_path (rest_url ?i path tail q f u) = path_ptr ?i path"
    "u_tail (rest_url ?i path tail q f u) = U_At (?i + slen path)"
    "u_query (rest_url ?i path tail q f u) = (case q of Some _ \<Rightarrow> U_At ?r | None \<Rightarrow> U_Null)"
    "u_fragment (rest_url ?i path tail q f u) =
      (case f of Some _ \<Rightarrow> U_At (case q of Some w \<Rightarrow> ?r + length w + 1 | None \<Rightarrow> ?r) | None \<Rightarrow> U_Null)"
    by (simp_all add: rest_url_def Let_def split: option.split)
  have "ValidateChars ?B fragment_table m (u_query (rest_url ?i path tail q f u)) e = (u_query (rest_url ?i path tail q f u), e)"
    "ValidateChars ?B fragment_table m (u_fragment (rest_url ?i path tail q f u)) e = (u_fragment (rest_url ?i path tail q f u), e)"
    "ValidateChars ?B path_table m (u_tail (rest_url ?i path tail q f u)) e = (u_tail (rest_url ?i path tail q f u), e)"
    "ValidateChars ?B path_table m (u_path (rest_url ?i path tail q f u)) e = (u_path (rest_url ?i path tail q f u), e)" for m e
    unfolding u using p t qv f1 f2 nul by (cases q; cases f; simp)+
  then show ?thesis using True by (simp add: validate_parts_def)
qed (simp add: validate_parts_def)

lemma parse_rest_eq:
  assumes ok: "rest_ok path tail q f"
  shows "parse_rest (pre @ CHR ''/'' # slash_path (CHR ''/'') path @ tail @ lead (CHR ''?'') q @ lead (CHR ''#'') f)
      (length pre) strict u =
    (rest_url (length pre + 1) path tail q f u, None, final_rest pre path tail q f)"
proof -
  let ?P = "slash_path NUL_char path" and ?i = "length pre + 1"
  have tail: "NUL_char \<notin> set tail" "CHR ''?'' \<notin> set tail" "CHR ''#'' \<notin> set tail"
    using ok table_excludes(1) by (auto simp: rest_ok_def)
  have a0: "at0 (pre @ CHR ''/'' # X) (length pre) = CHR ''/''" for X by (simp add: at0_eq)
  have none: "ParseUpTo (pre @ NUL_char # ?P @ tail @ T) (Suc (length pre + slen path)) c = (pre @ NUL_char # ?P @ tail @ T, U_Null)"
    if "c \<notin> set tail" "stops T" for c T
    by (rule ParseUpTo_none [of _ _ tail T]) (use that tail in simp_all)
  have v: "validate_parts strict (pre @ NUL_char # ?P @ tail @ lead NUL_char q @ lead NUL_char f) (rest_url ?i path tail q f u) None =
      (rest_url ?i path tail q f u, None)"
    using validate_parts_ok [OF ok, of strict pre u] by (simp add: final_rest_def)
  show ?thesis
  proof (cases q)
    case (Some w)
    have w: "NUL_char \<notin> set w" "CHR ''#'' \<notin> set w" using ok Some table_excludes(2) by (auto simp: rest_ok_def)
    let ?r = "Suc (Suc (length pre + (slen path + length tail)))"
    have frag: "ParseUpTo (pre @ NUL_char # ?P @ tail @ NUL_char # w @ lead (CHR ''#'') f) ?r (CHR ''#'') =
        (pre @ NUL_char # ?P @ tail @ NUL_char # w @ lead NUL_char f, case f of Some _ \<Rightarrow> U_At (?r + length w + 1) | None \<Rightarrow> U_Null)"
    proof (cases f)
      case None
      then show ?thesis using ParseUpTo_none [of ?r "pre @ NUL_char # ?P @ tail @ NUL_char # w" w "[]" "CHR ''#''"] w by simp
    next
      case (Some x)
      have "set0 (pre @ NUL_char # ?P @ tail @ NUL_char # w @ CHR ''#'' # x) (?r + length w) =
          pre @ NUL_char # ?P @ tail @ NUL_char # w @ NUL_char # x"
        using set0_eq [of "?r + length w" "pre @ NUL_char # ?P @ tail @ NUL_char # w" "CHR ''#''" x] by simp
      then show ?thesis
        using Some w ParseUpTo_found [of ?r "pre @ NUL_char # ?P @ tail @ NUL_char # w @ CHR ''#'' # x" w "CHR ''#''" x] by simp
    qed
    show ?thesis
      using Some frag v parse_path_eq [OF ok, of pre u] unfolding parse_rest_def a0
      by (cases f) (simp_all add: final_rest_def rest_url_def Let_def add.assoc)
  next
    case None
    have "stops (lead NUL_char f)" by (cases f) simp_all
    then show ?thesis
      using None none [of "CHR ''?''" "lead NUL_char f"] none [of "CHR ''#''" "[]"] tail v parse_path_eq [OF ok, of pre u]
      unfolding parse_rest_def a0
      by (cases f) (simp_all add: final_rest_def rest_url_def Let_def add.assoc)
  qed
qed

lemma rest_views:
  fixes pre :: cstring and u :: Ns_URL
  assumes ok: "rest_ok path tail q f"
  defines "B \<equiv> final_rest pre path tail q f" and "u' \<equiv> rest_url (length pre + 1) path tail q f u"
  shows "uview B (u_path u') = Some path" "uview B (u_tail u') = Some tail" "uview B (u_query u') = q" "uview B (u_fragment u') = f"
proof -
  have n: "NUL_char \<notin> set path" "NUL_char \<notin> set tail" "\<And>w. q = Some w \<Longrightarrow> NUL_char \<notin> set w" "\<And>w. f = Some w \<Longrightarrow> NUL_char \<notin> set w"
    using ok table_excludes by (auto simp: rest_ok_def)
  have st: "stops (lead NUL_char q @ lead NUL_char f)" "stops (lead NUL_char f)" by (cases q; cases f; simp)+
  let ?i = "Suc (length pre)"
  have "buf_str B ?i = path" if "path \<noteq> []"
    by (rule buf_str_eq [of _ _ _ "NUL_char # tail @ lead NUL_char q @ lead NUL_char f"])
      (use n that in \<open>simp_all add: B_def final_rest_def slash_path_def\<close>)
  then show "uview B (u_path u') = Some path" by (simp add: u'_def rest_url_def Let_def path_ptr_def uview_def)
  have "buf_str B (?i + slen path) = tail"
    by (rule buf_str_eq [of _ _ _ "lead NUL_char q @ lead NUL_char f"]) (use n st in \<open>simp_all add: B_def final_rest_def\<close>)
  then show "uview B (u_tail u') = Some tail" by (simp add: u'_def rest_url_def Let_def uview_def)
  let ?r = "Suc (Suc (length pre + slen path + length tail))"
  have "buf_str B ?r = w" if "q = Some w" for w
    by (rule buf_str_eq [of _ _ _ "lead NUL_char f"]) (use n st that in \<open>simp_all add: B_def final_rest_def\<close>)
  then show "uview B (u_query u') = q" by (simp add: u'_def rest_url_def Let_def uview_def split: option.split)
  have "buf_str B ?r = w" if "q = None" "f = Some w" for w
    by (rule buf_str_eq [of _ _ _ "[]"]) (use n that in \<open>simp_all add: B_def final_rest_def\<close>)
  moreover have "buf_str B (Suc (?r + length v)) = w" if "q = Some v" "f = Some w" for v w
    by (rule buf_str_eq [of _ _ _ "[]"]) (use n that in \<open>simp_all add: B_def final_rest_def numeral_3_eq_3\<close>)
  ultimately show "uview B (u_fragment u') = f" by (simp add: u'_def rest_url_def Let_def uview_def split: option.split)
qed

subsection \<open>The authority\<close>

definition host_text :: "cstring \<Rightarrow> cstring" where
  "host_text h = (if CHR '':'' \<in> set h then ''['' @ h @ '']'' else h)"

definition host_ok :: "cstring \<Rightarrow> bool" where
  "host_ok h \<longleftrightarrow> (if CHR '':'' \<in> set h then CHR '']'' \<notin> set h \<and> NUL_char \<notin> set h
     else h \<noteq> [] \<and> hd h \<noteq> CHR ''.'' \<and> chars_ok regname_table h)"

definition port_ok :: "cstring option \<Rightarrow> bool" where
  "port_ok p \<longleftrightarrow> (\<forall>w. p = Some w \<longrightarrow> w \<noteq> [] \<and> chars_ok c_isdigit w)"

lemma regname_subset: "regname_table c \<Longrightarrow> delimiter_table c \<and> userinfo_table c \<and> c \<noteq> CHR ''[''"
  by (auto simp: regname_table_def delimiter_table_def userinfo_table_def in_ranges_def)

lemma table_stops:
  "\<not> regname_table CHR '':''" "\<not> regname_table CHR ''/''" "\<not> delimiter_table CHR '':''" "\<not> delimiter_table CHR ''/''"
  "\<not> c_isdigit CHR ''/''" "\<not> userinfo_table CHR ''/''" "\<not> userinfo_table CHR ''[''" "\<not> userinfo_table CHR ''@''"
  "userinfo_table CHR '':''"
  by code_simp+

lemma digit_userinfo: "c_isdigit c \<Longrightarrow> userinfo_table c \<and> c \<noteq> NUL_char"
  by (auto simp: c_isdigit_def userinfo_table_def in_ranges_def NUL_char_def)

text \<open>The host and the port, as they will be read once the slash behind them has been overwritten.\<close>

lemma parse_host_name:
  assumes h: "host_ok host" "CHR '':'' \<notin> set host" and p: "port_ok port"
  shows "\<exists>x hp pp. Ns_HttpParseHost2 (pre @ host_text host @ lead (CHR '':'') port @ CHR ''/'' # R) (length pre) strict =
      (True, (pre @ x) @ CHR ''/'' # R, U_At hp, pp, Some (length (pre @ x)))
    \<and> (\<forall>R'. uview ((pre @ x) @ NUL_char # R') (U_At hp) = Some host \<and> uview ((pre @ x) @ NUL_char # R') pp = port)"
proof -
  have r: "chars_ok regname_table host" "host \<noteq> []" "hd host \<noteq> CHR ''.''" using h by (auto simp: host_ok_def)
  have t: "host_text host = host" using h(2) by (simp add: host_text_def)
  have n: "NUL_char \<notin> set host" using r(1) by (auto simp: chars_ok_def)
  obtain d ds where host: "host = d # ds" using r(2) by (cases host) auto
  have d: "d \<noteq> CHR ''[''" "d \<noteq> CHR ''.''" using r regname_subset by (auto simp: host chars_ok_def)
  have a: "at0 (pre @ host @ X) (length pre) = d" for X using at0_eq [of "length pre" pre d] by (simp add: host)
  let ?T = "if strict then regname_table else delimiter_table"
  have sc: "scan_to ?T (pre @ host @ c # X) (length pre) = length pre + length host" if "c = CHR '':'' \<or> c = CHR ''/''" for c X
    by (rule scan_to_eq [of _ _ host c X]) (use r(1) that table_stops regname_subset in \<open>auto simp: chars_ok_def\<close>)
  have c: "at0 (pre @ host @ e # X) (length pre + length host) = e" for e X
    using at0_eq [of "length pre + length host" "pre @ host" e] by simp
  have vh: "buf_str (pre @ host @ NUL_char # X) (length pre) = host" for X
    by (rule buf_str_eq [of _ _ _ "NUL_char # X"]) (use n in simp_all)
  show ?thesis
  proof (cases port)
    case None
    show ?thesis
      using None d vh
      by (intro exI [of _ host] exI [of _ "length pre"] exI [of _ U_Null])
        (simp add: Ns_HttpParseHost2_def t a sc c uview_def Let_def)
  next
    case (Some w)
    have w: "w \<noteq> []" "chars_ok c_isdigit w" using p Some by (auto simp: port_ok_def)
    have wn: "NUL_char \<notin> set w" using w(2) digit_userinfo by (auto simp: chars_ok_def)
    let ?i = "Suc (length pre + length host)"
    have s0: "set0 (pre @ host @ CHR '':'' # X) (length pre + length host) = pre @ host @ NUL_char # X" for X
      using set0_eq [of "length pre + length host" "pre @ host"] by simp
    have sk: "SkipDigits (pre @ host @ NUL_char # w @ CHR ''/'' # R) ?i = ?i + length w"
      unfolding SkipDigits_def by (rule scan_to_eq [of _ _ w "CHR ''/''" R]) (use w table_stops in \<open>auto simp: chars_ok_def\<close>)
    have vp: "buf_str (pre @ host @ NUL_char # w @ NUL_char # X) ?i = w" for X
      by (rule buf_str_eq [of _ _ _ "NUL_char # X"]) (use wn in simp_all)
    show ?thesis
      using Some d vh vp w(1)
      by (intro exI [of _ "host @ NUL_char # w"] exI [of _ "length pre"] exI [of _ "U_At ?i"])
        (simp add: Ns_HttpParseHost2_def t a sc c s0 sk uview_def Let_def)
  qed
qed

lemma parse_host_literal:
  assumes h: "host_ok host" "CHR '':'' \<in> set host" and p: "port_ok port"
  shows "\<exists>x hp pp. Ns_HttpParseHost2 (pre @ host_text host @ lead (CHR '':'') port @ CHR ''/'' # R) (length pre) strict =
      (True, (pre @ x) @ CHR ''/'' # R, U_At hp, pp, Some (length (pre @ x)))
    \<and> (\<forall>R'. uview ((pre @ x) @ NUL_char # R') (U_At hp) = Some host \<and> uview ((pre @ x) @ NUL_char # R') pp = port)"
proof -
  have r: "CHR '']'' \<notin> set host" "NUL_char \<notin> set host" using h by (auto simp: host_ok_def)
  have t: "host_text host = CHR ''['' # host @ [CHR '']'']" using h(2) by (simp add: host_text_def)
  have a: "at0 (pre @ CHR ''['' # X) (length pre) = CHR ''[''" for X by (simp add: at0_eq)
  let ?p = "Suc (length pre + length host)"
  have fi: "find_in (pre @ CHR ''['' # host @ CHR '']'' # X) (Suc (length pre)) (CHR '']'') = Some ?p" for X
    using find_in_eq [of "Suc (length pre)" "pre @ CHR ''['' # host @ CHR '']'' # X" host "CHR '']''" X] r by simp
  have s0: "set0 (pre @ CHR ''['' # host @ CHR '']'' # X) ?p = pre @ CHR ''['' # host @ NUL_char # X" for X
    using set0_eq [of ?p "pre @ CHR ''['' # host"] by simp
  have c: "at0 (pre @ CHR ''['' # host @ NUL_char # e # X) (Suc ?p) = e" for e X
    using at0_eq [of "Suc ?p" "pre @ CHR ''['' # host @ [NUL_char]" e] by simp
  have vh: "buf_str (pre @ CHR ''['' # host @ NUL_char # X) (Suc (length pre)) = host" for X
    by (rule buf_str_eq [of _ _ _ "NUL_char # X"]) (use r in simp_all)
  show ?thesis
  proof (cases port)
    case None
    show ?thesis
      using None vh
      by (intro exI [of _ "CHR ''['' # host @ [NUL_char]"] exI [of _ "Suc (length pre)"] exI [of _ U_Null])
        (simp add: Ns_HttpParseHost2_def t a fi s0 c uview_def Let_def)
  next
    case (Some w)
    have w: "w \<noteq> []" "chars_ok c_isdigit w" using p Some by (auto simp: port_ok_def)
    have wn: "NUL_char \<notin> set w" using w(2) digit_userinfo by (auto simp: chars_ok_def)
    let ?i = "Suc (Suc ?p)"
    have s1: "set0 (pre @ CHR ''['' # host @ NUL_char # CHR '':'' # X) (Suc ?p) = pre @ CHR ''['' # host @ NUL_char # NUL_char # X" for X
      using set0_eq [of "Suc ?p" "pre @ CHR ''['' # host @ [NUL_char]"] by simp
    have sk: "SkipDigits (pre @ CHR ''['' # host @ NUL_char # NUL_char # w @ CHR ''/'' # R) ?i = ?i + length w"
      unfolding SkipDigits_def
      by (rule scan_to_eq [of _ _ w "CHR ''/''" R]) (use w table_stops in \<open>auto simp: chars_ok_def numeral_3_eq_3\<close>)
    have vp: "buf_str (pre @ CHR ''['' # host @ NUL_char # NUL_char # w @ NUL_char # X) ?i = w" for X
      by (rule buf_str_eq [of _ _ _ "NUL_char # X"]) (use wn in \<open>simp_all add: numeral_3_eq_3\<close>)
    show ?thesis
      using Some vh vp w(1)
      by (intro exI [of _ "CHR ''['' # host @ NUL_char # NUL_char # w"] exI [of _ "Suc (length pre)"] exI [of _ "U_At ?i"])
        (simp add: Ns_HttpParseHost2_def t a fi s0 s1 c sk uview_def Let_def)
  qed
qed

lemma parse_host:
  assumes "host_ok host" "port_ok port"
  shows "\<exists>x hp pp. Ns_HttpParseHost2 (pre @ host_text host @ lead (CHR '':'') port @ CHR ''/'' # R) (length pre) strict =
      (True, (pre @ x) @ CHR ''/'' # R, U_At hp, pp, Some (length (pre @ x)))
    \<and> (\<forall>R'. uview ((pre @ x) @ NUL_char # R') (U_At hp) = Some host \<and> uview ((pre @ x) @ NUL_char # R') pp = port)"
  using parse_host_name [OF assms(1) _ assms(2)] parse_host_literal [OF assms(1) _ assms(2)]
  by (cases "CHR '':'' \<in> set host") blast+

definition userinfo_text :: "cstring option \<Rightarrow> cstring" where
  "userinfo_text ui = (case ui of Some w \<Rightarrow> w @ ''@'' | None \<Rightarrow> [])"

definition userinfo_ok :: "cstring option \<Rightarrow> bool" where
  "userinfo_ok ui \<longleftrightarrow> (\<forall>w. ui = Some w \<longrightarrow> chars_ok userinfo_table w)"

lemma parse_userinfo:
  assumes "userinfo_ok ui" "host_ok host" "port_ok port"
  shows "\<exists>x up. ParseUserInfo (pre @ userinfo_text ui @ host_text host @ lead (CHR '':'') port @ CHR ''/'' # R) (length pre) =
      ((pre @ x) @ host_text host @ lead (CHR '':'') port @ CHR ''/'' # R, up, length (pre @ x))
    \<and> (\<forall>R'. uview ((pre @ x) @ R') up = ui)"
proof (cases ui)
  case (Some w)
  have w: "\<forall>x \<in> set w. userinfo_table x" using assms(1) Some by (simp add: userinfo_ok_def chars_ok_def)
  have wn: "NUL_char \<notin> set w" using w tables_NUL by auto
  let ?p = "length pre + length w"
  have "scan_to userinfo_table (pre @ w @ CHR ''@'' # X) (length pre) = ?p" for X
    by (rule scan_to_eq [of _ _ w "CHR ''@''" X]) (use w table_stops in simp_all)
  moreover have "at0 (pre @ w @ CHR ''@'' # X) ?p = CHR ''@''" "set0 (pre @ w @ CHR ''@'' # X) ?p = pre @ w @ NUL_char # X" for X
    using at0_eq [of ?p "pre @ w"] set0_eq [of ?p "pre @ w"] by simp_all
  moreover have "buf_str (pre @ w @ NUL_char # X) (length pre) = w" for X
    by (rule buf_str_eq [of _ _ _ "NUL_char # X"]) (use wn in simp_all)
  ultimately show ?thesis
    using Some
    by (intro exI [of _ "w @ [NUL_char]"] exI [of _ "U_At (length pre)"]) (simp add: ParseUserInfo_def userinfo_text_def uview_def)
next
  case None
  obtain w c X where t: "host_text host @ lead (CHR '':'') port @ CHR ''/'' # R = w @ c # X"
    "\<forall>x \<in> set w. userinfo_table x" "c = CHR ''/'' \<or> c = CHR ''[''"
  proof (cases "CHR '':'' \<in> set host")
    case True
    then show ?thesis using that [of "[]" "CHR ''[''"] by (simp add: host_text_def)
  next
    case False
    then have "\<forall>x \<in> set (host @ lead (CHR '':'') port). userinfo_table x"
      using assms(2,3) regname_subset digit_userinfo table_stops(9)
      by (cases port) (auto simp: host_ok_def port_ok_def chars_ok_def)
    then show ?thesis using that [of "host @ lead (CHR '':'') port" "CHR ''/''" R] False by (simp add: host_text_def)
  qed
  have "\<not> userinfo_table c" "c \<noteq> CHR ''@''" using t(3) table_stops by auto
  moreover have "scan_to userinfo_table (pre @ w @ c # X) (length pre) = length pre + length w"
    by (rule scan_to_eq [of _ _ w c X]) (use t(2) calculation in simp_all)
  moreover have "at0 (pre @ w @ c # X) (length pre + length w) = c" using at0_eq [of "length pre + length w" "pre @ w"] by simp
  ultimately show ?thesis
    using None by (intro exI [of _ "[]"] exI [of _ U_Null]) (simp add: ParseUserInfo_def userinfo_text_def uview_def t(1))
qed

subsection \<open>Round trip\<close>

definition scheme_ok :: "cstring \<Rightarrow> bool" where
  "scheme_ok s \<longleftrightarrow> s \<noteq> [] \<and> alpha_table (hd s) \<and> chars_ok url_scheme_table (tl s)"

lemma parse_scheme_eq:
  assumes "scheme_ok s"
  shows "parse_scheme (s @ CHR '':'' # R) = Some (s @ NUL_char # R, U_At 0, length s + 1)" "NUL_char \<notin> set s"
proof -
  obtain c cs where s: "s = c # cs" using assms by (cases s) (auto simp: scheme_ok_def)
  have c: "alpha_table c" "\<forall>x \<in> set cs. url_scheme_table x" using assms by (auto simp: scheme_ok_def s chars_ok_def)
  have tb: "\<not> url_scheme_table CHR '':''" "\<not> url_scheme_table NUL_char" "\<not> alpha_table NUL_char" by code_simp+
  have "scan_to url_scheme_table (s @ CHR '':'' # R) 1 = 1 + length cs"
    by (rule scan_to_eq [of _ _ cs "CHR '':''" R]) (use c tb in \<open>simp_all add: s\<close>)
  moreover have "at0 (s @ CHR '':'' # R) 0 = c" by (simp add: at0_def s)
  moreover have "at0 (s @ CHR '':'' # R) (length s) = CHR '':''" "set0 (s @ CHR '':'' # R) (length s) = s @ NUL_char # R"
    by (simp_all add: at0_eq set0_eq)
  ultimately show "parse_scheme (s @ CHR '':'' # R) = Some (s @ NUL_char # R, U_At 0, length s + 1)"
    using c(1) by (simp add: parse_scheme_def s)
  show "NUL_char \<notin> set s" using c tb by (auto simp: s)
qed

definition url_text :: "cstring \<Rightarrow> cstring option \<Rightarrow> cstring \<Rightarrow> cstring option \<Rightarrow> cstring \<Rightarrow> cstring \<Rightarrow> cstring option \<Rightarrow>
    cstring option \<Rightarrow> cstring" where
  "url_text s ui host port path tail q f =
     s @ ''://'' @ userinfo_text ui @ host_text host @ lead (CHR '':'') port @
     ''/'' @ slash_path (CHR ''/'') path @ tail @ lead (CHR ''?'') q @ lead (CHR ''#'') f"

definition url_ok :: "cstring \<Rightarrow> cstring option \<Rightarrow> cstring \<Rightarrow> cstring option \<Rightarrow> cstring \<Rightarrow> cstring \<Rightarrow> cstring option \<Rightarrow>
    cstring option \<Rightarrow> bool" where
  "url_ok s ui host port path tail q f \<longleftrightarrow>
     scheme_ok s \<and> userinfo_ok ui \<and> host_ok host \<and> port_ok port \<and> rest_ok path tail q f"

definition url_views :: "cstring \<Rightarrow> Ns_URL \<Rightarrow> cstring option list" where
  "url_views B u = map (\<lambda>g. uview B (g u)) [u_protocol, u_userinfo, u_host, u_port, u_path, u_tail, u_query, u_fragment]"

lemma Ns_ParseUrl_text:
  assumes "url_ok s ui host port path tail q f"
  shows "\<exists>u B. Ns_ParseUrl (url_text s ui host port path tail q f) strict = (NS_OK, u, None, B)
    \<and> url_views B u = [Some s, ui, Some host, port, Some path, Some tail, q, f]"
proof -
  have ok: "scheme_ok s" "userinfo_ok ui" "host_ok host" "port_ok port" "rest_ok path tail q f"
    using assms by (auto simp: url_ok_def)
  let ?R = "slash_path (CHR ''/'') path @ tail @ lead (CHR ''?'') q @ lead (CHR ''#'') f"
  let ?H = "host_text host @ lead (CHR '':'') port @ CHR ''/'' # ?R"
  let ?p0 = "s @ NUL_char # ''//''"
  obtain x up where ui: "ParseUserInfo (?p0 @ userinfo_text ui @ ?H) (length ?p0) = ((?p0 @ x) @ ?H, up, length (?p0 @ x))"
      "\<And>R'. uview ((?p0 @ x) @ R') up = ui"
    using parse_userinfo [OF ok(2-4), of ?p0 ?R] by blast
  obtain y hp pp where h: "Ns_HttpParseHost2 ((?p0 @ x) @ ?H) (length (?p0 @ x)) strict =
      (True, ((?p0 @ x) @ y) @ CHR ''/'' # ?R, U_At hp, pp, Some (length ((?p0 @ x) @ y)))"
      "\<And>R'. uview (((?p0 @ x) @ y) @ NUL_char # R') (U_At hp) = Some host \<and> uview (((?p0 @ x) @ y) @ NUL_char # R') pp = port"
    using parse_host [OF ok(3,4), of "?p0 @ x" ?R strict] by blast
  let ?pre = "(?p0 @ x) @ y"
  let ?init = "url_zero\<lparr>u_protocol := U_At 0, u_path := U_Empty, u_tail := U_Empty, u_userinfo := up, u_host := U_At hp, u_port := pp\<rparr>"
  let ?u = "rest_url (length ?pre + 1) path tail q f ?init" and ?B = "final_rest ?pre path tail q f"
  have sl: "at0 (s @ NUL_char # ''//'' @ X) (length s + 1) = CHR ''/''" "at0 (s @ NUL_char # ''//'' @ X) (length s + 2) = CHR ''/''" for X
    by (simp_all add: at0_def nth_append)
  have parse: "Ns_ParseUrl (url_text s ui host port path tail q f) strict = (NS_OK, ?u, None, ?B)"
  proof -
    have "parse_scheme (url_text s ui host port path tail q f) = Some (?p0 @ userinfo_text ui @ ?H, U_At 0, length s + 1)"
      using parse_scheme_eq(1) [OF ok(1)] by (simp add: url_text_def)
    moreover have "parse_rest (?pre @ CHR ''/'' # ?R) (length ?pre) strict ?init = (?u, None, ?B)" by (rule parse_rest_eq [OF ok(5)])
    ultimately show ?thesis
      using ui(1) h(1) sl by (simp add: Ns_ParseUrl_def Let_def)
  qed
  have B: "?B = ?pre @ NUL_char # slash_path NUL_char path @ tail @ lead NUL_char q @ lead NUL_char f" by (simp add: final_rest_def)
  have "uview ?B (U_At 0) = Some s"
    using parse_scheme_eq(2) [OF ok(1)] unfolding B uview_def by (simp add: buf_str_eq [of 0 _ s "NUL_char # _"])
  moreover have "uview ?B up = ui"
    using ui(2) [of "y @ NUL_char # slash_path NUL_char path @ tail @ lead NUL_char q @ lead NUL_char f"]
    by (simp add: final_rest_def)
  moreover have "uview ?B (U_At hp) = Some host" "uview ?B pp = port" using h(2) unfolding B by blast+
  moreover have "u_protocol ?u = U_At 0" "u_userinfo ?u = up" "u_host ?u = U_At hp" "u_port ?u = pp"
    by (simp_all add: rest_url_def Let_def)
  ultimately have "url_views ?B ?u = [Some s, ui, Some host, port, Some path, Some tail, q, f]"
    using rest_views [OF ok(5), of ?pre ?init] by (simp add: url_views_def)
  then show ?thesis using parse by blast
qed

text \<open>
  C13. A URL is taken apart into what it was put together from: for every scheme, user information, host name or IP literal, port,
  path, last segment, query and fragment over the characters of their tables, parsing the composed URL
  succeeds, with and without the strict checks, and the components read from the buffer are the given ones.
\<close>

theorem Ns_ParseUrl_roundtrip:
  assumes "url_ok s ui host port path tail q f"
  shows "\<exists>u B. Ns_ParseUrl (url_text s ui host port path tail q f) strict = (NS_OK, u, None, B)
    \<and> url_views B u = [Some s, ui, Some host, port, Some path, Some tail, q, f]"
  by (rule Ns_ParseUrl_text [OF assms])

theorem Ns_ParseUrl_roundtrip_witness:
  "\<exists>u B. Ns_ParseUrl (url_text ''http'' (Some ''me'') ''::1'' (Some ''80'') ''a/b'' ''c'' (Some ''x=1'') None) True = (NS_OK, u, None, B)
    \<and> url_views B u = [Some ''http'', Some ''me'', Some ''::1'', Some ''80'', Some ''a/b'', Some ''c'', Some ''x=1'', None]"
proof (rule Ns_ParseUrl_roundtrip)
  show "url_ok ''http'' (Some ''me'') ''::1'' (Some ''80'') ''a/b'' ''c'' (Some ''x=1'') None"
    by (simp add: url_ok_def scheme_ok_def userinfo_ok_def host_ok_def port_ok_def rest_ok_def chars_ok_def NUL_char_def
        alpha_table_def url_scheme_table_def userinfo_table_def path_table_def fragment_table_def in_ranges_def c_isdigit_def)
qed

subsection \<open>Relative and absolute URLs\<close>

text \<open>A name: a relative URL of one segment.\<close>

lemma parse_name:
  assumes "name \<noteq> []" "chars_ok path_table name" "CHR ''/'' \<notin> set name" "CHR '':'' \<notin> set name"
  shows "Ns_ParseUrl name False = (NS_OK, url_zero\<lparr>u_tail := U_At 0\<rparr>, None, name)"
proof -
  note n = table_excludes(1) [OF assms(2)]
  obtain c cs where name: "name = c # cs" using assms(1) by (cases name) auto
  have c: "c \<noteq> CHR ''/''" "c \<noteq> CHR ''?''" "c \<noteq> CHR ''#''" "c \<noteq> NUL_char" using assms(3) n by (auto simp: name)
  have "at0 name i \<noteq> CHR '':''" for i
    using assms(4) nth_mem [of i name] by (cases "i < length name") (metis at0_def, simp add: at0_def NUL_char_def)
  moreover have "CHR '':'' \<notin> set (takeWhile (\<lambda>c. c \<noteq> NUL_char \<and> c \<noteq> CHR ''/'') (drop i name))" for i
    using assms(4) by (meson in_set_dropD set_takeWhileD)
  ultimately have ps: "parse_scheme name = Some (name, U_Null, 0)" by (simp add: parse_scheme_def Let_def)
  have a: "at0 name 0 = c" by (simp add: at0_def name)
  have up: "ParseUpTo name 0 x = (name, U_Null)" if "x \<notin> set name" for x
    by (rule ParseUpTo_none [of _ _ name "[]"]) (use n that in simp_all)
  have "parse_rest name 0 False url_zero = (url_zero\<lparr>u_tail := U_At 0\<rparr>, None, name)"
    using c n up by (simp add: parse_rest_def a parse_path_def validate_parts_def Let_def url_zero_def)
  then show ?thesis
    using ps c by (simp add: Ns_ParseUrl_def a Let_def) (simp add: url_zero_def)
qed

text \<open>
  Relative to a base URL, a name replaces the last segment: scheme, host, port and path are those of
  the base, the query and the fragment of the base are dropped.
\<close>

theorem Ns_AbsoluteUrl_name:
  assumes "url_ok s ui host port path tail q f"
    and "name \<noteq> []" "chars_ok path_table name" "CHR ''/'' \<notin> set name" "CHR '':'' \<notin> set name"
  shows "Ns_AbsoluteUrl name (url_text s ui host port path tail q f) = (NS_OK, url_text s None host port path name None None)"
proof -
  obtain u B where b: "Ns_ParseUrl (url_text s ui host port path tail q f) False = (NS_OK, u, None, B)"
      "url_views B u = [Some s, ui, Some host, port, Some path, Some tail, q, f]"
    using Ns_ParseUrl_text [OF assms(1)] by blast
  have v: "uview B (u_protocol u) = Some s" "uview B (u_host u) = Some host" "uview B (u_port u) = port" "uview B (u_path u) = Some path"
    using b(2) by (simp_all add: url_views_def)
  have "buf_str name 0 = name" by (rule buf_str_eq [of _ _ _ "[]"]) (use table_excludes(1) [OF assms(3)] in simp_all)
  then have n: "uview name (U_At 0) = Some name" "uview name U_Null = None" by (simp_all add: uview_def)
  have "Ns_AbsoluteUrl name (url_text s ui host port path tail q f) =
      (NS_OK, s @ ''://'' @ host_text host @ (case port of Some p \<Rightarrow> '':'' @ p | None \<Rightarrow> []) @
        (if path = [] then ''/'' @ name else ''/'' @ path @ ''/'' @ name))"
    using assms(2) by (simp add: Ns_AbsoluteUrl_def b(1) parse_name [OF assms(2-5)] v n url_zero_def host_text_def)
  then show ?thesis by (cases port) (simp_all add: url_text_def userinfo_text_def slash_path_def lead_def)
qed

theorem Ns_AbsoluteUrl_name_witness:
  "Ns_AbsoluteUrl ''foo.html'' (url_text ''http'' None ''::1'' (Some ''80'') ''www'' ''t.html'' None None) =
    (NS_OK, url_text ''http'' None ''::1'' (Some ''80'') ''www'' ''foo.html'' None None)"
  by (rule Ns_AbsoluteUrl_name)
    (simp_all add: url_ok_def scheme_ok_def userinfo_ok_def host_ok_def port_ok_def rest_ok_def chars_ok_def NUL_char_def
        alpha_table_def url_scheme_table_def path_table_def in_ranges_def c_isdigit_def)

subsection \<open>Differences\<close>

text \<open>A question mark inside the fragment starts a query, and the text before it, with the number sign, becomes the last segment.\<close>

lemma fragment_with_question_mark:
  "case Ns_ParseUrl ''/a#b?c'' False of (st, u, e, B) \<Rightarrow>
     url_views B u = [None, None, None, None, Some [], Some ''a#b'', Some ''c'', None]"
  by code_simp

text \<open>Text behind the port is accepted, as a part of the port and as the last segment.\<close>

lemma text_behind_port:
  "case Ns_ParseUrl ''http://h:80abc'' True of (st, u, e, B) \<Rightarrow>
     st = NS_OK \<and> e = None \<and> url_views B u = [Some ''http'', None, Some ''h'', Some ''80abc'', Some [], Some ''abc'', None, None]"
  by code_simp

text \<open>The query of a partial URL is lost.\<close>

lemma absolute_url_loses_query:
  "Ns_AbsoluteUrl ''foo.html?x=1'' ''http://h/www/t.html'' = (NS_OK, ''http://h/www/foo.html'')"
  by code_simp

text \<open>Stripping the location of the server does not check that the host name ends where the location ends.\<close>

lemma relative_url_of_other_host: "Ns_RelativeUrl ''http://www.foo.computer/x'' ''http://www.foo.com'' = ''puter/x''"
  by code_simp

end
