(* ===== verification/NsHttp.thy ===== *)
theory NsHttp
  imports Complex_Main NsUrl NsSet NsUrlencode NsPathname
begin

text \<open>
  The syntax of HTTP messages: request lines, the URL of a request, header lines and the negotiation of
  compression, as in \<^verbatim>\<open>nsd/request.c\<close>. A request line is parsed with the host parser of \<open>NsUrl\<close>,
  the URL with the decoder of \<open>NsUrlencode\<close> and the normalisation of \<open>NsPathname\<close>, and header lines are
  put into the sets of \<open>NsSet\<close>. The server's URL encoding and the conversion between character sets are
  arguments, and so is \<^verbatim>\<open>strtod\<close>; the version of a request is the rational number it returns.
\<close>

text \<open>A buffer read as a C string ends at the first NUL.\<close>

definition c_str :: "string \<Rightarrow> cstring" where
  "c_str s = takeWhile (\<lambda>c. c \<noteq> NUL_char) s"

lemma c_str_id [simp]: "NUL_char \<notin> set s \<Longrightarrow> c_str s = s"
  by (auto simp: c_str_def takeWhile_eq_all_conv)

lemma c_str_no_NUL [simp]: "NUL_char \<notin> set (c_str s)"
  by (auto simp: c_str_def dest: set_takeWhileD)

subsection \<open>Requests\<close>

datatype Ns_RequestType =
    NS_REQUEST_TYPE_PLAIN | NS_REQUEST_TYPE_PROXY | NS_REQUEST_TYPE_CONNECT | NS_REQUEST_TYPE_ASTERISK

text \<open>The query is a pointer that can dangle.\<close>

datatype query_ptr = Q_Null | Q_Str cstring | Q_Freed

record Ns_Request =
  rq_line :: "cstring option"
  rq_method :: "cstring option"
  rq_protocol :: "cstring option"
  rq_host :: "cstring option"
  rq_url :: "cstring option"
  rq_urlv :: "cstring list option"
  rq_query :: query_ptr
  rq_type :: Ns_RequestType
  rq_port :: "16 word"
  rq_version :: rat

definition request_zero :: Ns_Request where
  "request_zero = \<lparr>rq_line = None, rq_method = None, rq_protocol = None, rq_host = None, rq_url = None, rq_urlv = None,
     rq_query = Q_Null, rq_type = NS_REQUEST_TYPE_PLAIN, rq_port = 0, rq_version = 0\<rparr>"

fun has_backslash_traversal :: "cstring \<Rightarrow> bool" where
  "has_backslash_traversal (a # b # c # d # e # r) =
     ((a = CHR ''.'' \<and> b = CHR ''.'' \<and> c = CHR ''%'' \<and> d = CHR ''5'' \<and> (e = CHR ''c'' \<or> e = CHR ''C''))
      \<or> has_backslash_traversal (b # c # d # e # r))"
| "has_backslash_traversal _ = False"

definition PlainRequestTargetContainsBackslashTraversal :: "cstring \<Rightarrow> bool" where
  "PlainRequestTargetContainsBackslashTraversal url \<longleftrightarrow>
     CHR 0x5C \<in> set url \<or> has_backslash_traversal (takeWhile (\<lambda>c. c \<noteq> CHR ''?'') url)"

text \<open>The server's URL encoding with the conversions of the character set library.\<close>

record 'e url_env =
  env_utf8 :: 'e
  env_encoding :: "'e option"
  env_ext_to_utf :: "'e \<Rightarrow> string \<Rightarrow> string"

definition path_decode :: "'e url_env \<Rightarrow> cstring \<Rightarrow> string option" where
  "path_decode E s = Ns_UrlPathDecode (env_utf8 E) (env_ext_to_utf E) [] s (env_encoding E)"

text \<open>
  The parts of a path between slashes, without a last part that is empty; each is decoded on its own, and a
  part that cannot be decoded is empty.
\<close>

definition url_segments :: "'e url_env \<Rightarrow> cstring \<Rightarrow> cstring list" where
  "url_segments E path =
     (let parts = split_on (CHR ''/'') path;
          parts = (if last parts = [] then butlast parts else parts)
      in map (\<lambda>s. case path_decode E s of Some d \<Rightarrow> d | None \<Rightarrow> []) parts)"

text \<open>The normalised URL; a slash is appended when the text as it was sent ends with one that is not also the leading one.\<close>

definition normalized_url :: "cstring \<Rightarrow> string option \<Rightarrow> cstring" where
  "normalized_url url decoded =
     (let norm = Ns_NormalizeUrl [] (case decoded of Some d \<Rightarrow> c_str d | None \<Rightarrow> url);
          rest = dropWhile (\<lambda>c. c = CHR ''/'') url
      in if rest \<noteq> [] \<and> last rest = CHR ''/'' then norm @ ''/'' else norm)"

definition SetUrl :: "'e url_env \<Rightarrow> Ns_Request \<Rightarrow> cstring \<Rightarrow> Ns_ReturnCode \<times> Ns_Request" where
  "SetUrl E request url0 =
     (let (url, request) = (case split_at (CHR ''?'') url0 of
            Some (path, q) \<Rightarrow>
              (path, request\<lparr>rq_query := if q \<noteq> [] then Q_Str q else if rq_query request = Q_Null then Q_Null else Q_Freed\<rparr>)
          | None \<Rightarrow> (url0, request));
          decoded = path_decode E url
      in if decoded = Some [] then (NS_ERROR, request)
         else (NS_OK, request\<lparr>rq_url := Some (normalized_url url decoded), rq_urlv := Some (url_segments E (tl url))\<rparr>))"

definition FreeUrl :: "Ns_Request \<Rightarrow> Ns_Request" where
  "FreeUrl request = request\<lparr>rq_url := None, rq_urlv := None\<rparr>"

definition Ns_SetRequestUrl :: "'e url_env \<Rightarrow> Ns_Request \<Rightarrow> cstring \<Rightarrow> Ns_ReturnCode \<times> Ns_Request" where
  "Ns_SetRequestUrl E request url = SetUrl E (FreeUrl request) url"

text \<open>\<^verbatim>\<open>Ns_SkipUrl\<close> on the list of the parts: the first \<open>n\<close> of them and their slashes are skipped.\<close>

definition Ns_SkipUrl :: "Ns_Request \<Rightarrow> nat \<Rightarrow> cstring option" where
  "Ns_SkipUrl request n =
     (case (rq_url request, rq_urlv request) of
        (Some url, Some urlv) \<Rightarrow>
          if n \<le> length urlv then Some (drop (sum_list (map (\<lambda>s. length s + 1) (take n urlv))) url) else None
      | _ \<Rightarrow> None)"

subsection \<open>Request lines\<close>

text \<open>The steps of \<^verbatim>\<open>Ns_ParseRequest\<close>; \<open>Inl\<close> is a jump to the error exit with the request at that point.\<close>

text \<open>The text between the method and the end: the request target and the version.\<close>

definition parse_version :: "(cstring \<Rightarrow> rat) \<Rightarrow> cstring \<Rightarrow> (cstring \<times> rat) option" where
  "parse_version strtod url =
     (case strrchr url (CHR '' '') of
        Some i \<Rightarrow>
          if starts_with (drop (i + 1) url) ''HTTP/'' then Some (take i url, strtod (drop (i + 6) url)) else None
      | None \<Rightarrow> if at0 url 0 = CHR ''/'' then Some (url, 0) else None)"

text \<open>The scheme of the target, the type of the request and where the authority starts.\<close>

definition parse_target_scheme :: "Ns_Request \<Rightarrow> cstring \<Rightarrow> Ns_Request \<times> cstring \<times> cstring" where
  "parse_target_scheme request url =
     (let scheme = takeWhile c_isalpha url;
          rest = dropWhile c_isalpha url
      in if at0 rest 0 = CHR '':'' then
           (request\<lparr>rq_type := NS_REQUEST_TYPE_PROXY, rq_protocol := Some scheme\<rparr>, scheme,
            if starts_with (tl rest) ''//'' then drop 2 (tl rest) else tl rest)
         else
           (request\<lparr>rq_type :=
              (if url = ''*'' then NS_REQUEST_TYPE_ASTERISK
               else if strcasecmp (case rq_method request of Some m \<Rightarrow> m | None \<Rightarrow> []) ''connect'' = 0
                 then NS_REQUEST_TYPE_CONNECT
               else rq_type request)\<rparr>, url, url))"

definition set_authority :: "Ns_Request \<Rightarrow> cstring \<Rightarrow> Ns_Request" where
  "set_authority request h =
     (case Ns_HttpParseHost2 h 0 False of
        (ok, buf, host, port, _) \<Rightarrow>
          if ok then
            request\<lparr>rq_port := (case uview buf port of Some p \<Rightarrow> word_of_int (fst (strtol p)) | None \<Rightarrow> rq_port request),
                    rq_host := uview buf host\<rparr>
          else request)"

text \<open>The target behind the authority, by the type of the request; \<open>None\<close> is an error.\<close>

definition check_target :: "Ns_Request \<Rightarrow> cstring \<Rightarrow> cstring option" where
  "check_target request url =
     (case rq_type request of
        NS_REQUEST_TYPE_PLAIN \<Rightarrow> if at0 url 0 = CHR ''/'' then Some url else None
      | NS_REQUEST_TYPE_PROXY \<Rightarrow> if url = [] then Some ''/'' else if rq_protocol request = None then None else Some url
      | NS_REQUEST_TYPE_CONNECT \<Rightarrow> if url = [] then Some ''/'' else None
      | NS_REQUEST_TYPE_ASTERISK \<Rightarrow>
          if strcasecmp (case rq_method request of Some m \<Rightarrow> m | None \<Rightarrow> []) ''OPTIONS'' = 0 then Some url else None)"

definition parse_target :: "Ns_Request \<Rightarrow> cstring \<Rightarrow> Ns_Request + Ns_Request \<times> cstring" where
  "parse_target request url =
     (if at0 url 0 = CHR ''/'' then Inr (request, url)
      else
        (let (request, url, p) = parse_target_scheme request url
         in if p = [] \<or> hd p = CHR ''/'' then Inr (request, url)
            else
              (let h = takeWhile (\<lambda>c. c \<noteq> CHR ''/'') p;
                   url = tl (dropWhile (\<lambda>c. c \<noteq> CHR ''/'') p);
                   request = set_authority request h
               in case check_target request url of Some url \<Rightarrow> Inr (request, url) | None \<Rightarrow> Inl request)))"

definition parse_error :: "Ns_Request \<Rightarrow> Ns_ReturnCode \<times> Ns_Request" where
  "parse_error request = (NS_ERROR, request\<lparr>rq_protocol := None, rq_host := None\<rparr>)"

definition signed_byte :: "char \<Rightarrow> int" where
  "signed_byte c = (if byte_of c < 128 then int (byte_of c) else int (byte_of c) - 256)"

definition Ns_ParseRequest ::
    "'e url_env \<Rightarrow> (cstring \<Rightarrow> rat) \<Rightarrow> Ns_Request \<Rightarrow> string \<Rightarrow> Ns_ReturnCode \<times> Ns_Request" where
  "Ns_ParseRequest E strtod request0 line =
     (if at0 line 0 = CHR 0x16 \<and> 3 \<le> signed_byte (at0 line 1) \<and> at0 line 2 = CHR 0x01 then (NS_ERROR, request0)
      else
        (let l = Ns_StrTrim (c_str line);
             url = dropWhile (\<lambda>c. \<not> c_isspace c) l
         in if l = [] then parse_error request_zero
            else if url = [] then parse_error (request_zero\<lparr>rq_line := Some l\<rparr>)
            else
              (let request = request_zero\<lparr>rq_line := Some l, rq_method := Some (takeWhile (\<lambda>c. \<not> c_isspace c) l)\<rparr>;
                   url = skip_spaces (tl url)
               in if url = [] then parse_error request
                  else case parse_version strtod url of
                    None \<Rightarrow> parse_error request
                  | Some (url, v) \<Rightarrow>
                      (let request = request\<lparr>rq_version := v\<rparr>;
                           url = Ns_StrTrimRight url
                       in if url = [] then parse_error request
                          else case parse_target request url of
                            Inl request \<Rightarrow> parse_error request
                          | Inr (request, url) \<Rightarrow>
                              if rq_type request = NS_REQUEST_TYPE_PLAIN \<and> PlainRequestTargetContainsBackslashTraversal url
                              then parse_error request
                              else (case SetUrl E request url of
                                      (NS_OK, request) \<Rightarrow> (NS_OK, request)
                                    | (_, request) \<Rightarrow> parse_error request)))))"

text \<open>\<^verbatim>\<open>Ns_ResetRequest\<close>: all strings are freed and the structure is zeroed.\<close>

definition Ns_ResetRequest :: "Ns_Request \<Rightarrow> Ns_Request" where
  "Ns_ResetRequest request = request_zero"

subsection \<open>Header lines\<close>

text \<open>
  The status, the number of the field and the set; a continuation replaces the value of the last field.
  \<^verbatim>\<open>Ns_DStringVarAppend\<close> stops at the first NULL, so a field without a value stays without one.
\<close>

definition Ns_ParseHeader :: "ns_set \<Rightarrow> cstring \<Rightarrow> cstring option \<Rightarrow> set_error + Ns_ReturnCode \<times> nat \<times> ns_set" where
  "Ns_ParseHeader st line prefix =
     (if line \<noteq> [] \<and> c_isspace (hd line) then
        (if size_of st = 0 then Inr (NS_ERROR, 0, st)
         else
           (let idx = size_of st - 1;
                line = skip_spaces line
            in if line = [] then Inr (NS_OK, idx, st)
               else
                 (let v = (case fvalue (set_fields st ! idx) of Some v \<Rightarrow> v @ '' '' @ line | None \<Rightarrow> [])
                  in case Ns_SetPutValueSz st idx v (Some (length v)) of
                       Inl e \<Rightarrow> Inl e
                     | Inr st \<Rightarrow> Inr (NS_OK, idx, st))))
      else
        (let line = (case prefix of Some p \<Rightarrow> p @ line | None \<Rightarrow> line)
         in case strchr line (CHR '':'') of
              None \<Rightarrow> Inr (NS_ERROR, 0, st)
            | Some sep \<Rightarrow>
                (let (idx, st) = Ns_SetPutSz st line (Some sep) (Some (skip_spaces (drop (sep + 1) line))) None
                 in Inr (NS_OK, idx, st))))"

text \<open>\<^verbatim>\<open>NsHeaderSetGet\<close> of \<^verbatim>\<open>nsd/queue.c\<close>.\<close>

definition NsHeaderSetGet :: "nat \<Rightarrow> ns_set" where
  "NsHeaderSetGet sz = (let st = Ns_SetCreateSz (Some ''request headers'') (max 10 sz) in st\<lparr>flags := flags st OR NS_SET_OPTION_NOCASE\<rparr>)"

subsection \<open>Compression\<close>

text \<open>The number of characters of the quality value and where it starts; \<open>None\<close> stands for no or an invalid value.\<close>

definition skip_blanks :: "cstring \<Rightarrow> cstring" where
  "skip_blanks s = dropWhile (\<lambda>c. c = CHR '' '') s"

fun qvalue_end :: "nat \<Rightarrow> cstring \<Rightarrow> cstring" where
  "qvalue_end 0 s = s"
| "qvalue_end (Suc n) s = (if s \<noteq> [] \<and> c_isdigit (hd s) then qvalue_end n (tl s) else s)"

definition GetQvalue :: "cstring \<Rightarrow> (cstring \<times> nat) option" where
  "GetQvalue str =
     (let s1 = skip_blanks str;
          s2 = skip_blanks (tl s1);
          s3 = skip_blanks (tl s2);
          s4 = skip_blanks (tl s3);
          s5 = tl s4;
          s6 = (if at0 s5 0 = CHR ''.'' then qvalue_end 3 (tl s5) else s5)
      in if at0 s1 0 = CHR '';'' \<and> at0 s2 0 = CHR ''q'' \<and> at0 s3 0 = CHR ''='' \<and> c_isdigit (at0 s4 0)
            \<and> at0 s6 0 \<in> {CHR '' '', CHR '','', CHR '';'', NUL_char}
         then Some (s4, length s4 - length s6) else None)"

definition GetEncodingFormat :: "(cstring \<Rightarrow> rat) \<Rightarrow> cstring \<Rightarrow> cstring \<Rightarrow> bool \<times> rat" where
  "GetEncodingFormat strtod encodingString encodingFormat =
     (case strstr encodingString encodingFormat of
        None \<Rightarrow> (False, -1)
      | Some s \<Rightarrow> (True, case GetQvalue (drop (length encodingFormat) s) of Some (q, _) \<Rightarrow> strtod q | None \<Rightarrow> 1))"

definition CompressAllow :: "rat \<Rightarrow> rat \<Rightarrow> rat \<Rightarrow> bool" where
  "CompressAllow compressQvalue identityQvalue starQvalue =
     (if compressQvalue > 999 / 1000 then True
      else if compressQvalue < 9 / 10000 then False
      else if identityQvalue \<ge> -1 then compressQvalue \<ge> identityQvalue
      else if starQvalue \<ge> -1 then compressQvalue \<ge> starQvalue
      else True)"

definition NsParseAcceptEncoding :: "(cstring \<Rightarrow> rat) \<Rightarrow> rat \<Rightarrow> cstring \<Rightarrow> bool \<times> bool" where
  "NsParseAcceptEncoding strtod version hdr =
     (let (gzipFormat, gzipQvalue) = GetEncodingFormat strtod hdr ''gzip'';
          (brotliFormat, brotliQvalue) = GetEncodingFormat strtod hdr ''br'';
          (starFormat, starQvalue) = GetEncodingFormat strtod hdr ''*'';
          (_, identityQvalue) = GetEncodingFormat strtod hdr ''identity''
      in if gzipFormat \<or> brotliFormat then
           (CompressAllow gzipQvalue identityQvalue starQvalue, CompressAllow brotliQvalue identityQvalue starQvalue)
         else if starFormat then
           (let accept = (if starQvalue < 9 / 10000 then False
                          else if identityQvalue \<ge> -1 then starQvalue \<ge> identityQvalue \<and> version \<ge> 11 / 10
                          else version \<ge> 11 / 10)
            in (accept, accept))
         else (False, False))"

subsection \<open>Decoding of paths\<close>

text \<open>What the server relies on when its URL encoding is UTF-8: valid text without NUL is left as it is.\<close>

definition utf8_env :: "'e url_env \<Rightarrow> bool" where
  "utf8_env E \<longleftrightarrow> env_encoding E = Some (env_utf8 E)
     \<and> (\<forall>s. Ns_Valid_UTF8 (map of_char s) \<and> NUL_char \<notin> set s \<longrightarrow> env_ext_to_utf E (env_utf8 E) s = s)"

definition utf8_text :: "cstring \<Rightarrow> bool" where
  "utf8_text s \<longleftrightarrow> Ns_Valid_UTF8 (map of_char s) \<and> NUL_char \<notin> set s"

lemma utf8_text_append: "utf8_text a \<Longrightarrow> utf8_text b \<Longrightarrow> utf8_text (a @ b)"
proof -
  have "utf8_ref a' \<Longrightarrow> utf8_ref b' \<Longrightarrow> utf8_ref (a' @ b')" for a' b'
    unfolding utf8_ref_iff by (metis concat_append list_all_append map_append)
  then show "utf8_text a \<Longrightarrow> utf8_text b \<Longrightarrow> utf8_text (a @ b)" by (simp add: utf8_text_def Ns_Valid_UTF8_ref)
qed

lemma utf8_text_render: "\<forall>s \<in> set segs. utf8_text s \<Longrightarrow> utf8_text (render segs)"
proof (induction segs)
  case (Cons s ss)
  have "utf8_text ''/''" by code_simp
  from utf8_text_append [OF this utf8_text_append [of s "render ss"]] show ?case using Cons by simp
qed (simp add: utf8_text_def Ns_Valid_UTF8_ref)

lemma PercentDecode_skip: "CHR ''%'' \<notin> set a \<Longrightarrow> PercentDecode (CHR ''p'') (a @ b) = a @ PercentDecode (CHR ''p'') b"
  by (induction a) auto

lemma path_decode_eq:
  assumes "utf8_env E" "utf8_text (PercentDecode (CHR ''p'') s)"
  shows "path_decode E s = Some (PercentDecode (CHR ''p'') s)"
proof -
  let ?P = "\<lambda>c. c = CHR ''%'' \<or> c = CHR ''+''"
  have *: "env_ext_to_utf E (env_utf8 E) (PercentDecode (CHR ''p'') s) = PercentDecode (CHR ''p'') s"
    "Ns_Valid_UTF8 (map of_char (PercentDecode (CHR ''p'') s))" "env_encoding E = Some (env_utf8 E)"
    using assms by (auto simp: utf8_env_def utf8_text_def)
  show ?thesis
  proof (cases "find_index ?P s")
    case None
    then have "PercentDecode (CHR ''p'') s = s"
      using PercentDecode_skip [of s "[]"] by (auto simp: find_index_None_iff)
    then show ?thesis using None * by (simp add: path_decode_def Ns_UrlPathDecode_def UrlDecode_def)
  next
    case (Some i)
    have "\<not> ?P (s ! j)" if "j < i" for j using find_index_SomeD [OF Some] that by blast
    then have "CHR ''%'' \<notin> set (take i s)" by (auto simp: in_set_conv_nth)
    then have "take i s @ PercentDecode (CHR ''p'') (drop i s) = PercentDecode (CHR ''p'') s"
      using PercentDecode_skip [of "take i s" "drop i s"] by simp
    then show ?thesis
      using Some * length_PercentDecode [of "CHR ''p''" s]
      by (simp add: path_decode_def Ns_UrlPathDecode_def UrlDecode_def Let_def not_less)
  qed
qed

subsection \<open>Paths of requests\<close>

definition canonical :: "cstring list \<Rightarrow> cstring" where
  "canonical segs = (if segs = [] then ''/'' else render segs)"

text \<open>A path as a client writes it.\<close>

definition path_text :: "cstring list \<Rightarrow> cstring" where
  "path_text segs = canonical (map (encoded (CHR ''p'') False) segs)"

lemma encoded_path_chars:
  assumes "x \<in> set (encoded (CHR ''p'') u seg)"
  shows "\<not> c_isspace x" "x \<noteq> NUL_char" "x \<noteq> CHR ''?''" "x \<noteq> CHR ''/''"
proof -
  obtain c where "x \<in> set (encode_byte (CHR ''p'') u c)" using assms by (auto simp: encoded_def)
  then have c: "x = CHR ''%'' \<or> x = CHR ''+'' \<or> x \<in> set (scheme_plain (CHR ''p'')) \<or> hex_code x \<ge> 0"
    by (rule encode_byte_set)
  let ?Q = "\<lambda>x. \<not> c_isspace x \<and> x \<noteq> NUL_char \<and> x \<noteq> CHR ''?'' \<and> x \<noteq> CHR ''/''"
  have "list_all ?Q (scheme_plain (CHR ''p''))"
    by (simp add: scheme_plain_def alnum_bytes_def c_isspace_def NUL_char_def)
  then have "?Q x" if "x \<in> set (scheme_plain (CHR ''p''))" using that unfolding list_all_iff by (rule bspec)
  moreover have "?Q x" if "hex_code x \<ge> 0"
    using that by (auto simp: hex_code_def c_isdigit_def c_isspace_def NUL_char_def split: if_splits)
  moreover have "?Q (CHR ''%'')" "?Q (CHR ''+'')" by (simp_all add: c_isspace_def NUL_char_def)
  ultimately have "?Q x" using c by (elim disjE) simp_all
  then show "\<not> c_isspace x" "x \<noteq> NUL_char" "x \<noteq> CHR ''?''" "x \<noteq> CHR ''/''" by simp_all
qed

lemma encoded_Nil_iff [simp]: "encoded s u seg = [] \<longleftrightarrow> seg = []"
  using decode_encoded_all [of s u seg] by (metis PercentDecode.simps(1) concat.simps(1) encoded_def list.map(1))

lemma set_path_text:
  "x \<in> set (path_text segs) \<Longrightarrow> \<not> c_isspace x \<and> x \<noteq> NUL_char \<and> x \<noteq> CHR ''?''"
  using encoded_path_chars by (fastforce simp: path_text_def canonical_def render_def c_isspace_def NUL_char_def split: if_splits)

lemma decode_render: "PercentDecode (CHR ''p'') (render (map (encoded (CHR ''p'') u) segs)) = render segs"
  by (induction segs) (simp_all add: decode_encoded)

lemma split_on_render:
  "segs \<noteq> [] \<Longrightarrow> \<forall>s \<in> set segs. CHR ''/'' \<notin> set s \<Longrightarrow> split_on (CHR ''/'') (tl (render segs)) = segs"
proof (induction segs)
  case (Cons s ss)
  show ?case
  proof (cases ss)
    case (Cons t ts)
    then have "split_on (CHR ''/'') (t @ render ts) = ss" using Cons.IH Cons.prems by simp
    then show ?thesis using Cons Cons.prems split_on_append [of "CHR ''/''" s "t @ render ts"] by simp
  qed (use Cons.prems split_on_none in simp)
qed simp

lemma url_segments_path_text:
  assumes "utf8_env E" "\<forall>s \<in> set segs. clean_seg True s \<and> utf8_text s"
  shows "url_segments E (tl (path_text segs)) = segs"
proof (cases "segs = []")
  case False
  let ?es = "map (encoded (CHR ''p'') False) segs"
  have sp: "split_on (CHR ''/'') (tl (path_text segs)) = ?es"
    using split_on_render [of ?es] False encoded_path_bytes by (simp add: path_text_def canonical_def)
  have "last ?es \<noteq> []" using False assms(2) last_in_set [OF False] by (simp add: last_map clean_seg_def)
  moreover have "path_decode E (encoded (CHR ''p'') False s) = Some s" if "s \<in> set segs" for s
    using path_decode_eq [OF assms(1)] assms(2) that by (simp add: decode_encoded_all)
  ultimately show ?thesis using sp by (simp add: url_segments_def Let_def comp_def map_idI)
qed (simp add: url_segments_def path_text_def canonical_def Let_def)

text \<open>The last character is no slash, unless the path is a single slash.\<close>

lemma path_text_no_trailing:
  assumes "\<forall>s \<in> set segs. clean_seg True s"
  shows "dropWhile (\<lambda>c. c = CHR ''/'') (path_text segs) = [] \<or> last (dropWhile (\<lambda>c. c = CHR ''/'') (path_text segs)) \<noteq> CHR ''/''"
proof (cases segs rule: rev_cases)
  case (snoc ss s)
  let ?e = "encoded (CHR ''p'') False s"
  have e: "?e \<noteq> []" "last ?e \<noteq> CHR ''/''"
    using assms snoc encoded_path_chars(4) [OF last_in_set, of False s] by (auto simp: clean_seg_def)
  have "path_text segs = render (map (encoded (CHR ''p'') False) ss) @ ''/'' @ ?e" using snoc by (simp add: path_text_def canonical_def)
  then have "last (path_text segs) = last ?e" using e by simp
  moreover have "last (dropWhile P xs) = last xs" if "dropWhile P xs \<noteq> []" for P and xs :: string
    using that by (metis dropWhile_eq_drop last_drop drop_eq_Nil not_less)
  ultimately show ?thesis using e by metis
qed (simp add: path_text_def canonical_def)

lemma resolve_canonical: "\<forall>s \<in> set segs. clean_seg True s \<Longrightarrow> Ns_NormalizeUrl [] (canonical segs) = canonical segs"
  using resolve_render [of segs True] by (simp add: Ns_NormalizeUrl_def NormalizePath_render canonical_def)
    (simp add: resolve_def resolve_step_def)

definition query_text :: "cstring option \<Rightarrow> cstring" where
  "query_text q = (case q of Some w \<Rightarrow> CHR ''?'' # w | None \<Rightarrow> [])"

definition query_of :: "cstring option \<Rightarrow> query_ptr" where
  "query_of q = (case q of Some w \<Rightarrow> if w = [] then Q_Null else Q_Str w | None \<Rightarrow> Q_Null)"

lemma SetUrl_path_text:
  assumes "utf8_env E" "\<forall>s \<in> set segs. clean_seg True s \<and> utf8_text s" "rq_query rq = Q_Null"
  shows "SetUrl E rq (path_text segs @ query_text q) =
    (NS_OK, rq\<lparr>rq_query := query_of q, rq_url := Some (canonical segs), rq_urlv := Some segs\<rparr>)"
proof -
  have d: "PercentDecode (CHR ''p'') (path_text segs) = canonical segs"
    using decode_render [of False segs] by (simp add: path_text_def canonical_def)
  have "utf8_text (canonical segs)"
    using utf8_text_render [of segs] assms(2) by (simp add: canonical_def) code_simp
  then have pd: "path_decode E (path_text segs) = Some (canonical segs)" "c_str (canonical segs) = canonical segs"
    using path_decode_eq [OF assms(1)] d by (simp_all add: utf8_text_def)
  have ne: "canonical segs \<noteq> []" by (simp add: canonical_def)
  have sp: "split_at (CHR ''?'') (path_text segs @ query_text q) = map_option (\<lambda>w. (path_text segs, w)) q"
    using set_path_text [of "CHR ''?''" segs] split_at_join [of "CHR ''?''" "path_text segs"]
    by (cases q) (auto simp: query_text_def split_at_None_iff)
  show ?thesis
    using pd ne sp path_text_no_trailing [of segs] resolve_canonical [of segs] url_segments_path_text [OF assms(1,2)] assms(2,3)
    by (cases q) (auto simp: SetUrl_def normalized_url_def query_text_def query_of_def Let_def)
qed

subsection \<open>Properties of request lines\<close>

lemma Ns_StrTrimRight_id: "s = [] \<or> \<not> c_isspace (last s) \<Longrightarrow> Ns_StrTrimRight s = s"
  by (cases s rule: rev_cases) (simp_all add: Ns_StrTrimRight_dropWhile)

lemma Ns_StrTrim_id: "s = [] \<or> \<not> c_isspace (hd s) \<and> \<not> c_isspace (last s) \<Longrightarrow> Ns_StrTrim s = s"
  by (cases s) (auto simp: Ns_StrTrim_def Ns_StrTrimLeft_def Ns_StrTrimRight_id)

definition token :: "cstring \<Rightarrow> bool" where
  "token s \<longleftrightarrow> (\<forall>c \<in> set s. \<not> c_isspace c \<and> c \<noteq> NUL_char)"

definition request_line :: "cstring \<Rightarrow> cstring list \<Rightarrow> cstring option \<Rightarrow> cstring \<Rightarrow> cstring" where
  "request_line method segs q v = method @ '' '' @ path_text segs @ query_text q @ '' HTTP/'' @ v"

text \<open>
  C14. A request line is taken apart into what it was put together from: the method, the version, the query,
  and the segments of the path, which the client percent-encoded; the URL the server works with is the path made of
  these segments. Segments are clean (not empty and not dots) valid UTF-8, and the path is not one the
  backslash check refuses.
\<close>

theorem Ns_ParseRequest_roundtrip:
  assumes "utf8_env E" "\<forall>s \<in> set segs. clean_seg True s \<and> utf8_text s"
    and "method \<noteq> []" "token method" "hd method \<noteq> CHR 0x16" "token v" "\<forall>w. q = Some w \<longrightarrow> token w"
    and "\<not> PlainRequestTargetContainsBackslashTraversal (path_text segs @ query_text q)"
  shows "Ns_ParseRequest E strtod rq (request_line method segs q v) =
    (NS_OK, request_zero\<lparr>rq_line := Some (request_line method segs q v), rq_method := Some method, rq_version := strtod v,
       rq_url := Some (canonical segs), rq_urlv := Some segs, rq_query := query_of q\<rparr>)"
proof -
  let ?t = "path_text segs @ query_text q"
  let ?line = "request_line method segs q v"
  have tt: "token ?t" using assms(7) set_path_text [of _ segs] by (cases q) (auto simp: token_def query_text_def c_isspace_def NUL_char_def)
  have pt: "path_text segs \<noteq> []" "hd (path_text segs) = CHR ''/''" by (auto simp: path_text_def canonical_def render_def neq_Nil_conv)
  from pt have t: "?t \<noteq> []" "hd ?t = CHR ''/''" "\<not> c_isspace (hd ?t)" "at0 ?t 0 = CHR ''/''"
    by (simp_all add: c_isspace_def at0_def hd_conv_nth nth_append)
  have line: "?line = method @ CHR '' '' # ?t @ CHR '' '' # ''HTTP/'' @ v" by (simp add: request_line_def)
  have cs: "c_str ?line = ?line"
    using assms(4,6) tt by (intro c_str_id) (auto simp: line token_def NUL_char_def)
  have "\<not> c_isspace (last ?line)" using assms(6) by (cases v rule: rev_cases) (simp_all add: request_line_def token_def c_isspace_def)
  then have trim: "Ns_StrTrim ?line = ?line"
    using assms(3,4) by (intro Ns_StrTrim_id) (auto simp: line token_def)
  have dw: "dropWhile (\<lambda>c. \<not> c_isspace c) ?line = CHR '' '' # ?t @ CHR '' '' # ''HTTP/'' @ v"
      "takeWhile (\<lambda>c. \<not> c_isspace c) ?line = method"
    using assms(4) unfolding line by (simp_all add: scan token_def del: append_assoc)
  have sk: "skip_spaces (?t @ X) = ?t @ X" for X
    using t(1,3) by (cases ?t) (simp_all add: skip_spaces_def del: append_assoc)
  have "CHR '' '' \<notin> set (''HTTP/'' @ v)" using assms(6) by (auto simp: token_def)
  from strrchr_last [OF this, of ?t] have pv: "parse_version strtod (?t @ CHR '' '' # ''HTTP/'' @ v) = Some (?t, strtod v)"
    by (simp add: parse_version_def del: append_assoc)
  have tr: "Ns_StrTrimRight ?t = ?t" using tt last_in_set [OF t(1)] by (intro Ns_StrTrimRight_id) (auto simp: token_def)
  have first: "at0 ?line 0 \<noteq> CHR 0x16" using assms(3,5) by (simp add: line at0_def hd_conv_nth nth_append)
  have ne: "?line \<noteq> []" by (simp add: line)
  show ?thesis
    using SetUrl_path_text [OF assms(1,2)] assms(8) first t ne pt(1)
    by (simp add: Ns_ParseRequest_def Let_def cs trim dw sk pv [unfolded append_Cons append_Nil] tr parse_target_def request_zero_def del: append_assoc)
qed

text \<open>An instance of the parameters: the conversion is the identity.\<close>

definition plain_env :: "unit url_env" where
  "plain_env = \<lparr>env_utf8 = (), env_encoding = Some (), env_ext_to_utf = (\<lambda>_ s. s)\<rparr>"

definition version_number :: "cstring \<Rightarrow> rat" where
  "version_number s = (if s = ''1.1'' then 11 / 10 else if s = ''1.0'' then 1 else 0)"

theorem Ns_ParseRequest_roundtrip_witness:
  "Ns_ParseRequest plain_env version_number request_zero ''GET /a%20b/c?x=1 HTTP/1.1'' =
    (NS_OK, request_zero\<lparr>rq_line := Some ''GET /a%20b/c?x=1 HTTP/1.1'', rq_method := Some ''GET'', rq_version := 11 / 10,
       rq_url := Some ''/a b/c'', rq_urlv := Some [''a b'', ''c''], rq_query := Q_Str ''x=1''\<rparr>)"
proof -
  have l: "request_line ''GET'' [''a b'', ''c''] (Some ''x=1'') ''1.1'' = ''GET /a%20b/c?x=1 HTTP/1.1''" by code_simp
  have c: "canonical [''a b'', ''c''] = ''/a b/c''" by code_simp
  have E: "utf8_env plain_env" by (simp add: utf8_env_def plain_env_def)
  have s: "\<forall>s \<in> set [''a b'', ''c'']. clean_seg True s \<and> utf8_text s" by code_simp
  have b: "\<not> PlainRequestTargetContainsBackslashTraversal (path_text [''a b'', ''c''] @ query_text (Some ''x=1''))" by code_simp
  from Ns_ParseRequest_roundtrip [OF E s _ _ _ _ _ b, of "''GET''" "''1.1''" version_number request_zero] show ?thesis
    by (simp add: l c token_def c_isspace_def NUL_char_def version_number_def query_of_def)
qed

lemma normalized_url_clean:
  "\<exists>segs. list_all (clean_seg True) segs \<and> (normalized_url url d = canonical segs \<or> normalized_url url d = canonical segs @ ''/'')"
proof -
  let ?p = "case d of Some d \<Rightarrow> c_str d | None \<Rightarrow> url"
  have "list_all (clean_seg True) (resolve True ?p)" using resolve_clean [of True ?p] by (simp add: list_all_iff)
  moreover have "Ns_NormalizeUrl [] ?p = canonical (resolve True ?p)" by (simp add: Ns_NormalizeUrl_def NormalizePath_render canonical_def)
  ultimately show ?thesis unfolding normalized_url_def Let_def by metis
qed

lemma SetUrl_clean:
  assumes "SetUrl E rq url = (NS_OK, rq')"
  shows "\<exists>segs. list_all (clean_seg True) segs \<and> (rq_url rq' = Some (canonical segs) \<or> rq_url rq' = Some (canonical segs @ ''/''))"
proof -
  obtain u d where "rq_url rq' = Some (normalized_url u d)"
    using assms by (auto simp: SetUrl_def Let_def split: if_splits prod.splits)
  then show ?thesis using normalized_url_clean [of u d] by simp
qed

lemma Ns_ParseRequest_SetUrl:
  assumes "Ns_ParseRequest E strtod rq0 line = (NS_OK, rq)"
  shows "\<exists>rq1 url. SetUrl E rq1 url = (NS_OK, rq)"
  using assms
  by (auto simp: Ns_ParseRequest_def parse_error_def Let_def
      split: if_splits option.splits prod.splits sum.splits Ns_ReturnCode.splits)



subsection \<open>Differences\<close>

text \<open>
  The parts of the URL are taken from the text as it was sent: they keep dots that the URL has lost, and skipping
  over them leaves the URL, so that \<^verbatim>\<open>Ns_SkipUrl\<close> returns a pointer behind its end.
\<close>

lemma urlv_not_normalised:
  "case Ns_ParseRequest plain_env version_number request_zero ''GET /a/../b HTTP/1.0'' of (st, rq) \<Rightarrow>
     st = NS_OK \<and> rq_url rq = Some ''/b'' \<and> rq_urlv rq = Some [''a'', ''..'', ''b'']
     \<and> sum_list (map (\<lambda>s. length s + 1) [''a'', ''..'', ''b'']) > length ''/b''"
  by code_simp

text \<open>In a proxy request the text behind the authority has no slash in front, and the first character of the first part is lost.\<close>

lemma proxy_urlv_loses_char:
  "case Ns_ParseRequest plain_env version_number request_zero ''GET http://h/foo/bar HTTP/1.0'' of (st, rq) \<Rightarrow>
     st = NS_OK \<and> rq_url rq = Some ''/foo/bar'' \<and> rq_urlv rq = Some [''oo'', ''bar'']"
  by code_simp

text \<open>The asterisk form is documented and never accepted: its path is empty, which is taken for an encoding error.\<close>

lemma options_asterisk_refused: "fst (Ns_ParseRequest plain_env version_number request_zero ''OPTIONS * HTTP/1.1'') = NS_ERROR"
  by code_simp

text \<open>A host name of letters only is taken for a scheme in a \<^verbatim>\<open>CONNECT\<close> request.\<close>

lemma connect_localhost:
  "case Ns_ParseRequest plain_env version_number request_zero ''CONNECT localhost:443 HTTP/1.1'' of (st, rq) \<Rightarrow>
     st = NS_OK \<and> rq_type rq = NS_REQUEST_TYPE_PROXY \<and> rq_protocol rq = Some ''localhost'' \<and> rq_host rq = Some ''443''"
  by code_simp

text \<open>A target that does not start with a slash is accepted as a plain request when it holds two slashes in a row.\<close>

lemma target_without_slash:
  "case Ns_ParseRequest plain_env version_number request_zero ''GET foo//etc HTTP/1.0'' of (st, rq) \<Rightarrow>
     st = NS_OK \<and> rq_type rq = NS_REQUEST_TYPE_PLAIN \<and> rq_host rq = Some ''foo'' \<and> rq_url rq = Some ''/etc''"
  by code_simp

text \<open>Setting a URL that ends with a question mark frees the query and keeps the pointer to it.\<close>

lemma set_request_url_dangling:
  "rq_query (snd (Ns_SetRequestUrl plain_env (request_zero\<lparr>rq_query := Q_Str ''x=1''\<rparr>) ''/a?'')) = Q_Freed"
  by code_simp

text \<open>An absent format has the value -1, which passes the test whether the value was given, so the value of the asterisk is never used.\<close>

lemma star_qvalue_ignored:
  assumes "GetEncodingFormat strtod hdr ''identity'' = (False, i)"
  shows "CompressAllow q i s = CompressAllow q i s'"
  using assms by (auto simp: CompressAllow_def GetEncodingFormat_def split: option.splits)

end
