(* ===== verification/NsChunk.thy ===== *)
theory NsChunk
  imports NsHttp
begin

text \<open>
  Chunked transfer coding: the decoder \<^verbatim>\<open>ChunkedDecode\<close> of \<^verbatim>\<open>nsd/driver.c\<close>, which works on the receive buffer of
  a request and overwrites it with the decoded bytes, and the framing that \<^verbatim>\<open>Ns_ConnWriteVData\<close> of
  \<^verbatim>\<open>nsd/connio.c\<close> puts around what it writes. The decoder can be called again whenever more
  bytes have arrived.
\<close>

subsection \<open>The request under construction\<close>

datatype SockState =
    SOCK_READY | SOCK_MORE | SOCK_SPOOL | SOCK_ERROR | SOCK_CLOSE | SOCK_CLOSETIMEOUT | SOCK_READTIMEOUT
  | SOCK_WRITETIMEOUT | SOCK_READERROR | SOCK_WRITEERROR | SOCK_SHUTERROR | SOCK_BADREQUEST | SOCK_ENTITYTOOLARGE
  | SOCK_BADHEADER | SOCK_TOOMANYHEADERS | SOCK_QUEUEFULL

text \<open>
  The members of \<^verbatim>\<open>Request\<close> that reading uses. The buffer is the list of its bytes, without the NUL that
  \<^verbatim>\<open>Tcl_DString\<close> keeps behind them; the offsets count from its start. The content is an offset of the buffer or the
  start of a mapped file.
\<close>

datatype content_ptr = C_Null | C_Buf nat | C_Map

record Request =
  request :: Ns_Request
  headers :: ns_set
  content :: content_ptr
  rlength :: nat
  contentLength :: nat
  avail :: nat
  expectedLength :: nat
  chunkStartOff :: nat
  chunkWriteOff :: nat
  woff :: nat
  roff :: nat
  coff :: nat
  leftover :: nat
  rbuf :: string
  savedChar :: char

subsection \<open>Numbers\<close>

definition xdigit :: "char \<Rightarrow> bool" where
  "xdigit c \<longleftrightarrow> hex_code c \<ge> 0"

definition hex_value :: "cstring \<Rightarrow> int" where
  "hex_value ds = foldl (\<lambda>n c. 16 * n + hex_code c) 0 ds"

text \<open>
  \<^verbatim>\<open>strtol\<close> to the base 16: white space, a sign, an optional prefix \<^verbatim>\<open>0x\<close>, digits. The value, the rest
  and whether the value is out of the range of a \<^verbatim>\<open>long\<close>; \<open>None\<close> when there is no number.
\<close>

definition strtol16 :: "cstring \<Rightarrow> (int \<times> cstring \<times> bool) option" where
  "strtol16 s =
     (let t = skip_spaces s;
          sign = (if at0 t 0 = CHR ''-'' then -1 else 1);
          t = (if at0 t 0 = CHR ''-'' \<or> at0 t 0 = CHR ''+'' then tl t else t);
          t = (if at0 t 0 = CHR ''0'' \<and> (at0 t 1 = CHR ''x'' \<or> at0 t 1 = CHR ''X'') \<and> xdigit (at0 t 2) then drop 2 t else t);
          ds = takeWhile xdigit t;
          v = sign * hex_value ds
      in if ds = [] then None else Some (v, dropWhile xdigit t, v < - (2 ^ 63) \<or> v > 2 ^ 63 - 1))"

text \<open>The number of a size line, \<open>None\<close> when the line is refused: overflow, a negative number, no number, or other text behind it than an extension.\<close>

definition chunk_size :: "cstring \<Rightarrow> nat option" where
  "chunk_size line =
     (case strtol16 line of
        None \<Rightarrow> None
      | Some (v, rest, erange) \<Rightarrow>
          if erange \<or> v < 0 then None
          else (let rest = skip_spaces rest in if rest = [] \<or> hd rest = CHR '';'' then Some (nat v) else None))"

subsection \<open>The decoder\<close>

text \<open>Where the text \<open>t\<close> starts, at or behind the offset \<open>i\<close> and before the next NUL.\<close>

definition find_str :: "string \<Rightarrow> nat \<Rightarrow> cstring \<Rightarrow> nat option" where
  "find_str buf i t = map_option (\<lambda>r. i + (length (buf_str buf i) - length r)) (strstr (buf_str buf i) t)"

text \<open>\<^verbatim>\<open>memmove\<close> followed by a terminating NUL; \<open>None\<close> when this leaves the buffer.\<close>

definition put_bytes :: "nat \<Rightarrow> string \<Rightarrow> string \<Rightarrow> string option" where
  "put_bytes i bs buf = (if i + length bs < length buf then Some (take i buf @ bs @ NUL_char # drop (i + length bs + 1) buf) else None)"

definition write_chunk :: "bool \<Rightarrow> nat \<Rightarrow> nat \<Rightarrow> Request \<Rightarrow> Request option" where
  "write_chunk update dataStart n r =
     (if update then
        map_option (\<lambda>buf. r\<lparr>rbuf := buf, chunkWriteOff := chunkWriteOff r + n\<rparr>)
          (put_bytes (chunkWriteOff r) (take n (drop dataStart (rbuf r))) (rbuf r))
      else Some r)"

text \<open>The chunk of size 0: where the next message starts when the trailer is complete.\<close>

definition trailer_end :: "string \<Rightarrow> nat \<Rightarrow> nat option" where
  "trailer_end buf i =
     (if i + 2 \<le> length buf \<and> take 2 (drop i buf) = CRLF then Some (i + 2)
      else map_option (\<lambda>p. p + 4) (find_str buf i (CRLF @ CRLF)))"

text \<open>
  One turn of the loop: the result with the request when the loop ends, or the request for the next turn. \<open>None\<close>
  stands for a write outside of the buffer.
\<close>

definition chunk_step :: "bool \<Rightarrow> Request \<Rightarrow> (SockState \<times> Request + Request) option" where
  "chunk_step update r =
     (case find_str (rbuf r) (chunkStartOff r) CRLF of
        None \<Rightarrow> Some (Inl (SOCK_MORE, r))
      | Some p \<Rightarrow>
          (case chunk_size (take (p - chunkStartOff r) (drop (chunkStartOff r) (rbuf r))) of
             None \<Rightarrow> Some (Inl (SOCK_BADREQUEST, r))
           | Some n \<Rightarrow>
               (let dataStart = p + 2; dataEnd = dataStart + n
                in if n > length (rbuf r) - dataStart then Some (Inl (SOCK_MORE, r))
                   else if n = 0 then
                     (case trailer_end (rbuf r) dataStart of
                        Some e \<Rightarrow> Some (Inl (SOCK_READY, r\<lparr>chunkStartOff := e\<rparr>))
                      | None \<Rightarrow> Some (Inl (SOCK_MORE, r)))
                   else if length (rbuf r) - dataEnd < 2 then
                     (if expectedLength r \<noteq> 0 \<and> (chunkWriteOff r - coff r) + n \<ge> expectedLength r \<and> dataEnd = length (rbuf r)
                      then map_option (\<lambda>r. Inl (SOCK_MORE, r\<lparr>chunkStartOff := dataEnd\<rparr>)) (write_chunk update dataStart n r)
                      else Some (Inl (SOCK_MORE, r)))
                   else if take 2 (drop dataEnd (rbuf r)) \<noteq> CRLF then Some (Inl (SOCK_BADREQUEST, r))
                   else map_option (\<lambda>r. Inr (r\<lparr>chunkStartOff := dataEnd + 2\<rparr>)) (write_chunk update dataStart n r))))"

lemma length_put_bytes: "put_bytes i bs buf = Some buf' \<Longrightarrow> length buf' = length buf"
  by (auto simp: put_bytes_def split: if_splits)

lemma write_chunk_length: "write_chunk u d n r = Some r' \<Longrightarrow> length (rbuf r') = length (rbuf r) \<and> chunkStartOff r' = chunkStartOff r"
  by (auto simp: write_chunk_def length_put_bytes split: if_splits)

lemma find_str_bounds:
  assumes "find_str buf i t = Some p"
  shows "i \<le> p" "p + length t \<le> i + length (buf_str buf i)"
proof -
  obtain r where r: "strstr (buf_str buf i) t = Some r" "p = i + (length (buf_str buf i) - length r)"
    using assms by (auto simp: find_str_def)
  have "strstr s t = Some r \<Longrightarrow> length t \<le> length r \<and> length r \<le> length s" for s t r
  proof (induction s)
    case (Cons a s)
    have "starts_with x y \<Longrightarrow> length y \<le> length x" for x y by (induction x y rule: starts_with.induct) auto
    then show ?case using Cons by (fastforce split: if_splits)
  qed (auto split: if_splits)
  from this [OF r(1)] show "i \<le> p" "p + length t \<le> i + length (buf_str buf i)" using r(2) by auto
qed

lemma chunk_step_progress:
  assumes "chunk_step u r = Some (Inr r')"
  shows "length (rbuf r') = length (rbuf r)" "chunkStartOff r < chunkStartOff r'" "chunkStartOff r' \<le> length (rbuf r)"
proof -
  obtain p n r1 where p: "find_str (rbuf r) (chunkStartOff r) CRLF = Some p" "write_chunk u (p + 2) n r = Some r1"
      "r' = r1\<lparr>chunkStartOff := p + 2 + n + 2\<rparr>" "\<not> length (rbuf r) - (p + 2 + n) < 2" "\<not> n > length (rbuf r) - (p + 2)"
    using assms by (auto simp: chunk_step_def Let_def split: option.splits if_splits)
  show "length (rbuf r') = length (rbuf r)" "chunkStartOff r < chunkStartOff r'" "chunkStartOff r' \<le> length (rbuf r)"
    using p(3-5) write_chunk_length [OF p(2)] find_str_bounds(1) [OF p(1)] by auto
qed

lemma chunk_step_measure:
  assumes "chunk_step u r = Some (Inr r')"
  shows "length (rbuf r') - chunkStartOff r' < length (rbuf r) - chunkStartOff r"
  using chunk_step_progress [OF assms] by linarith

function ChunkedDecode :: "bool \<Rightarrow> Request \<Rightarrow> (SockState \<times> Request) option" where
  "ChunkedDecode update r =
     (if chunkStartOff r < length (rbuf r) then
        (case chunk_step update r of
           None \<Rightarrow> None
         | Some (Inl result) \<Rightarrow> Some result
         | Some (Inr r) \<Rightarrow> ChunkedDecode update r)
      else Some (SOCK_MORE, r))"
  by pat_completeness auto
termination
  by (relation "measure (\<lambda>(u, r). length (rbuf r) - chunkStartOff r)") (auto dest: chunk_step_measure)

declare ChunkedDecode.simps [simp del]

subsection \<open>The writer\<close>

text \<open>\<^verbatim>\<open>%lx\<close> of \<^verbatim>\<open>snprintf\<close>.\<close>

fun to_hex :: "nat \<Rightarrow> cstring" where
  "to_hex n = (if n < 16 then [] else to_hex (n div 16)) @ [hex_digit False (n mod 16)]"

declare to_hex.simps [simp del]

text \<open>What \<^verbatim>\<open>Ns_ConnWriteVData\<close> sends for the buffers in chunked mode; the last call closes the stream.\<close>

definition chunk_frame :: "string list \<Rightarrow> bool \<Rightarrow> string" where
  "chunk_frame bufs stream_close =
     (let body = concat bufs
      in (if length body > 0 then to_hex (length body) @ CRLF @ body @ CRLF else [])
         @ (if stream_close then ''0'' @ CRLF @ CRLF else []))"

subsection \<open>Searching in a buffer that grows\<close>

lemma starts_with_append: "length t \<le> length s \<Longrightarrow> starts_with (s @ x) t = starts_with s t"
  by (induction s t rule: starts_with.induct) auto

lemma starts_with_iff: "starts_with s t \<longleftrightarrow> (\<exists>r. s = t @ r)"
  by (induction s t rule: starts_with.induct) auto

lemma strstr_length: "strstr s t = Some r \<Longrightarrow> length t \<le> length r \<and> length r \<le> length s"
proof (induction s)
  case (Cons a s)
  have "starts_with x y \<Longrightarrow> length y \<le> length x" for x y by (auto simp: starts_with_iff)
  then show ?case using Cons by (fastforce split: if_splits)
qed (auto split: if_splits)

lemma strstr_append: "strstr s t = Some r \<Longrightarrow> strstr (s @ x) t = Some (r @ x)"
proof (induction s)
  case (Cons a s)
  show ?case
  proof (cases "starts_with (a # s) t")
    case True
    then have "starts_with ((a # s) @ x) t" by (metis append.assoc starts_with_iff)
    moreover have "r = a # s" using Cons.prems True by simp
    ultimately show ?thesis by simp
  next
    case False
    then have r: "strstr s t = Some r" using Cons.prems by simp
    then have "length t \<le> length (a # s)" using strstr_length [OF r] by simp
    then have "\<not> starts_with ((a # s) @ x) t" using False starts_with_append by blast
    then show ?thesis using Cons.IH r by simp
  qed
qed (cases x; auto split: if_splits)

lemma buf_str_append:
  assumes "i \<le> length B"
  shows "\<exists>x. buf_str (B @ b) i = buf_str B i @ x"
proof (cases "NUL_char \<in> set (drop i B)")
  case True
  then show ?thesis using assms by (auto simp: buf_str_def takeWhile_append)
next
  case False
  then have "buf_str (B @ b) i = buf_str B i @ buf_str b 0" using assms by (auto simp: buf_str_def takeWhile_append scan)
  then show ?thesis by blast
qed

lemma find_str_append:
  assumes "find_str B i t = Some p" "i \<le> length B"
  shows "find_str (B @ b) i t = Some p"
proof -
  obtain r where r: "strstr (buf_str B i) t = Some r" "p = i + (length (buf_str B i) - length r)"
    using assms(1) by (auto simp: find_str_def)
  obtain x where "buf_str (B @ b) i = buf_str B i @ x" using buf_str_append [OF assms(2)] by blast
  then show ?thesis using strstr_append [OF r(1), of x] r(2) by (simp add: find_str_def)
qed

lemma length_buf_str: "i \<le> length B \<Longrightarrow> i + length (buf_str B i) \<le> length B"
  using length_takeWhile_le [of "\<lambda>c. c \<noteq> NUL_char" "drop i B"] by (simp add: buf_str_def)

lemma find_str_in:
  assumes "find_str B i t = Some p" "i \<le> length B"
  shows "i \<le> p" "p + length t \<le> length B"
  using find_str_bounds [OF assms(1)] length_buf_str [OF assms(2)] by auto

lemma find_str_eq:
  assumes "drop i B = w @ t @ r" "NUL_char \<notin> set (w @ t)" "strstr (w @ t) t = Some t"
  shows "find_str B i t = Some (i + length w)"
proof -
  have "\<exists>x. buf_str B i = (w @ t) @ x"
    using assms(1,2) by (intro exI [of _ "takeWhile (\<lambda>c. c \<noteq> NUL_char) r"]) (auto simp: buf_str_def takeWhile_append)
  then obtain x where x: "buf_str B i = (w @ t) @ x" by blast
  then show ?thesis using strstr_append [OF assms(3), of x] by (simp add: find_str_def)
qed

subsection \<open>More bytes arrive\<close>

definition feed :: "string \<Rightarrow> Request \<Rightarrow> Request" where
  "feed b r = r\<lparr>rbuf := rbuf r @ b\<rparr>"

text \<open>What has been decoded never overtakes what has been read.\<close>

definition chunk_inv :: "Request \<Rightarrow> bool" where
  "chunk_inv r \<longleftrightarrow> chunkWriteOff r \<le> chunkStartOff r \<and> chunkStartOff r \<le> length (rbuf r)"

lemma feed_simps [simp]: "rbuf (feed b r) = rbuf r @ b" "chunkStartOff (feed b r) = chunkStartOff r"
  "chunkWriteOff (feed b r) = chunkWriteOff r" "expectedLength (feed b r) = expectedLength r" "coff (feed b r) = coff r"
  "feed b (feed a r) = feed (a @ b) r" "feed [] r = r"
  by (simp_all add: feed_def)

lemma chunk_inv_feed: "chunk_inv r \<Longrightarrow> chunk_inv (feed b r)"
  by (simp add: chunk_inv_def)

lemma put_bytes_append: "put_bytes i bs B = Some B' \<Longrightarrow> put_bytes i bs (B @ b) = Some (B' @ b)"
  by (auto simp: put_bytes_def split: if_splits)

lemma write_chunk_feed:
  assumes "write_chunk u d n r = Some r'" "d + n \<le> length (rbuf r)"
  shows "write_chunk u d n (feed b r) = Some (feed b r')"
  using assms by (auto simp: write_chunk_def feed_def put_bytes_append split: if_splits)

lemma write_chunk_ok:
  assumes "chunk_inv r" "chunkStartOff r + 2 \<le> d" "d + n \<le> length (rbuf r)"
  shows "\<exists>r'. write_chunk u d n r = Some r'"
  using assms by (auto simp: write_chunk_def put_bytes_def chunk_inv_def)

lemma trailer_end_in:
  assumes "trailer_end B i = Some e" "i \<le> length B"
  shows "e \<le> length B"
  using assms find_str_in(2) [of B i "CRLF @ CRLF"] by (auto simp: trailer_end_def CRLF_def split: if_splits)

lemma trailer_end_append:
  assumes "trailer_end B i = Some e" "i \<le> length B"
  shows "trailer_end (B @ b) i = Some e"
proof (cases "i + 2 \<le> length B \<and> take 2 (drop i B) = CRLF")
  case True
  then show ?thesis using assms by (auto simp: trailer_end_def)
next
  case False
  then obtain p where p: "find_str B i (CRLF @ CRLF) = Some p" "e = p + 4" using assms by (auto simp: trailer_end_def split: if_splits)
  have "p + 4 \<le> length B" "i \<le> p" using find_str_in [OF p(1) assms(2)] by (simp_all add: CRLF_def)
  then have "i + 2 \<le> length B" by simp
  then have "take 2 (drop i (B @ b)) = take 2 (drop i B)" by simp
  then show ?thesis using False p find_str_append [OF p(1) assms(2)] \<open>i + 2 \<le> length B\<close> by (simp add: trailer_end_def)
qed

lemma chunk_size_line_append:
  "find_str B i t = Some p \<Longrightarrow> i \<le> length B \<Longrightarrow> take (p - i) (drop i (B @ b)) = take (p - i) (drop i B)"
  using find_str_in [of B i t p] by simp

lemma chunk_step_data:
  assumes "find_str (rbuf r) (chunkStartOff r) CRLF = Some p"
    "chunk_size (take (p - chunkStartOff r) (drop (chunkStartOff r) (rbuf r))) = Some n"
    "n > 0" "p + 2 + n + 2 \<le> length (rbuf r)" "take 2 (drop (p + 2 + n) (rbuf r)) = CRLF"
    "write_chunk u (p + 2) n r = Some r'"
  shows "chunk_step u r = Some (Inr (r'\<lparr>chunkStartOff := p + 2 + n + 2\<rparr>))"
proof -
  have "\<not> length (rbuf r) - (p + 2) < n" "\<not> length (rbuf r) - (p + 2 + n) < 2" using assms(4) by linarith+
  then show ?thesis
    using assms(1-3,5,6) unfolding chunk_step_def Let_def by simp
qed

lemma chunk_step_bad:
  assumes "find_str (rbuf r) (chunkStartOff r) CRLF = Some p"
    "chunk_size (take (p - chunkStartOff r) (drop (chunkStartOff r) (rbuf r))) = Some n"
    "n > 0" "p + 2 + n + 2 \<le> length (rbuf r)" "take 2 (drop (p + 2 + n) (rbuf r)) \<noteq> CRLF"
  shows "chunk_step u r = Some (Inl (SOCK_BADREQUEST, r))"
proof -
  have "\<not> length (rbuf r) - (p + 2) < n" "\<not> length (rbuf r) - (p + 2 + n) < 2" using assms(4) by linarith+
  then show ?thesis
    using assms(1-3,5) unfolding chunk_step_def Let_def by simp
qed

text \<open>A turn that ends with a verdict, or goes on, does the same when more bytes follow.\<close>

lemma chunk_step_feed:
  assumes "chunk_step u r = Some res" "chunk_inv r" "expectedLength r = 0"
  shows "res = Inl (SOCK_MORE, r) \<or> chunk_step u (feed b r) = Some (map_sum (map_prod id (feed b)) (feed b) res)"
proof (cases "find_str (rbuf r) (chunkStartOff r) CRLF")
  case (Some p)
  have i: "chunkStartOff r \<le> length (rbuf r)" using assms(2) by (simp add: chunk_inv_def)
  note f = find_str_append [OF Some i, of b] chunk_size_line_append [OF Some i, of b]
  have p: "p + 2 \<le> length (rbuf r)" using find_str_in(2) [OF Some i] by (simp add: CRLF_def)
  show ?thesis
  proof (cases "chunk_size (take (p - chunkStartOff r) (drop (chunkStartOff r) (rbuf r)))")
    case None
    then show ?thesis using assms(1) Some f i p by (auto simp: chunk_step_def)
  next
    case n: (Some n)
    consider "n > length (rbuf r) - (p + 2)" | "n = 0" | "n > 0" "p + 2 + n \<le> length (rbuf r)" "length (rbuf r) < p + 2 + n + 2"
      | "n > 0" "p + 2 + n + 2 \<le> length (rbuf r)" by linarith
    then show ?thesis
    proof cases
      case 3
      then have "\<not> length (rbuf r) - (p + 2) < n" "length (rbuf r) - (p + 2 + n) < 2" by linarith+
      then have "chunk_step u r = Some (Inl (SOCK_MORE, r))"
        using Some n 3(1) assms(3) unfolding chunk_step_def Let_def by simp
      then show ?thesis using assms(1) by simp
    next
      case 2
      then show ?thesis
        using assms(1) Some f n i p trailer_end_append [of "rbuf r" "p + 2" _ b]
        by (cases "trailer_end (rbuf r) (p + 2)") (auto simp: chunk_step_def feed_def)
    next
      case 4
      then have d: "take 2 (drop (p + 2 + n) (rbuf (feed b r))) = take 2 (drop (p + 2 + n) (rbuf r))" by simp
      have le: "p + 2 + n + 2 \<le> length (rbuf (feed b r))" using 4(2) by simp
      have fd: "find_str (rbuf (feed b r)) (chunkStartOff (feed b r)) CRLF = Some p" using f(1) by simp
      have sz: "chunk_size (take (p - chunkStartOff (feed b r)) (drop (chunkStartOff (feed b r)) (rbuf (feed b r)))) = Some n"
        unfolding feed_simps f(2) by (rule n)
      show ?thesis
      proof (cases "take 2 (drop (p + 2 + n) (rbuf r)) = CRLF")
        case True
        have "chunkStartOff r + 2 \<le> p + 2" using find_str_in(1) [OF Some i] by simp
        then obtain r' where r': "write_chunk u (p + 2) n r = Some r'" using write_chunk_ok [OF assms(2)] 4 by fastforce
        have "write_chunk u (p + 2) n (feed b r) = Some (feed b r')" using write_chunk_feed [OF r'] 4 by simp
        with d True have "chunk_step u (feed b r) = Some (Inr ((feed b r')\<lparr>chunkStartOff := p + 2 + n + 2\<rparr>))"
          using chunk_step_data [OF fd sz 4(1) le] by metis
        then show ?thesis using assms(1) chunk_step_data [OF Some n 4 True r'] by (auto simp: feed_def)
      next
        case False
        then have "chunk_step u (feed b r) = Some (Inl (SOCK_BADREQUEST, feed b r))"
          using chunk_step_bad [OF fd sz 4(1) le] d by metis
        then show ?thesis using assms(1) chunk_step_bad [OF Some n 4 False] by auto
      qed
    qed (use assms(1,3) Some n in \<open>auto simp: chunk_step_def\<close>)
  qed
qed (use assms(1) in \<open>simp add: chunk_step_def\<close>)

lemma chunk_step_inv:
  assumes "chunk_step u r = Some res" "chunk_inv r"
  shows "res = Inr r' \<Longrightarrow> chunk_inv r' \<and> expectedLength r' = expectedLength r \<and> coff r' = coff r \<and> length (rbuf r') = length (rbuf r)"
    "res = Inl (st, r') \<Longrightarrow> chunk_inv r' \<and> expectedLength r' = expectedLength r \<and> coff r' = coff r \<and> length (rbuf r') = length (rbuf r)"
proof -
  let ?i = "chunkStartOff r"
  have i: "?i \<le> length (rbuf r)" using assms(2) by (simp add: chunk_inv_def)
  have p: "p + 2 \<le> length (rbuf r) \<and> ?i \<le> p" if "find_str (rbuf r) ?i CRLF = Some p" for p
    using find_str_in [OF that i] by (simp add: CRLF_def)
  have w: "length (rbuf r') = length (rbuf r) \<and> expectedLength r' = expectedLength r \<and> coff r' = coff r \<and> chunkWriteOff r' \<le> ?i + n"
    if "write_chunk u d n r = Some r'" for d n r'
    using that assms(2) by (auto simp: write_chunk_def chunk_inv_def length_put_bytes split: if_splits)
  have t: "e \<le> length (rbuf r) \<and> ?i \<le> e" if "trailer_end (rbuf r) d = Some e" "d \<le> length (rbuf r)" "?i \<le> d" for d e
    using trailer_end_in [OF that(1,2)] that find_str_in(1) [of "rbuf r" d "CRLF @ CRLF"]
    by (fastforce simp: trailer_end_def split: if_splits)
  show "res = Inr r' \<Longrightarrow> chunk_inv r' \<and> expectedLength r' = expectedLength r \<and> coff r' = coff r \<and> length (rbuf r') = length (rbuf r)"
    using assms(1) unfolding chunk_step_def Let_def
    by (auto simp: chunk_inv_def dest!: p w split: option.splits if_splits)
  show "res = Inl (st, r') \<Longrightarrow> chunk_inv r' \<and> expectedLength r' = expectedLength r \<and> coff r' = coff r \<and> length (rbuf r') = length (rbuf r)"
    using assms unfolding chunk_step_def Let_def
    by (auto simp: chunk_inv_def dest!: p w t split: option.splits if_splits)
qed

text \<open>The decoder never writes outside of the buffer.\<close>

lemma chunk_step_total:
  assumes "chunk_inv r"
  shows "chunk_step u r \<noteq> None"
proof -
  have i: "chunkStartOff r \<le> length (rbuf r)" using assms by (simp add: chunk_inv_def)
  have w: "write_chunk u (p + 2) n r \<noteq> None"
    if "find_str (rbuf r) (chunkStartOff r) CRLF = Some p" "\<not> n > length (rbuf r) - (p + 2)" for p n
    using write_chunk_ok [OF assms, of "p + 2" n u] find_str_in [OF that(1) i] that(2) by (auto simp: CRLF_def)
  show ?thesis
    using w unfolding chunk_step_def Let_def by (auto split: option.splits)
qed

lemma ChunkedDecode_total: "chunk_inv r \<Longrightarrow> \<exists>st r'. ChunkedDecode u r = Some (st, r') \<and> chunk_inv r' \<and> length (rbuf r') = length (rbuf r)
    \<and> expectedLength r' = expectedLength r \<and> coff r' = coff r"
proof (induction u r rule: ChunkedDecode.induct)
  case (1 u r)
  obtain res where res: "chunk_step u r = Some res" using chunk_step_total [OF 1(2)] by blast
  show ?case
  proof (cases "chunkStartOff r < length (rbuf r)")
    case True
    show ?thesis
    proof (cases res)
      case (Inl x)
      then show ?thesis using res True chunk_step_inv(2) [OF res 1(2)] by (cases x) (simp add: ChunkedDecode.simps [of u r])
    next
      case (Inr r1)
      then show ?thesis
        using res True chunk_step_inv(1) [OF res 1(2) Inr] 1(1) [OF True res Inr] by (simp add: ChunkedDecode.simps [of u r])
    qed
  qed (use 1(2) in \<open>simp add: ChunkedDecode.simps [of u r]\<close>)
qed

lemma chunk_step_more: "chunk_step u r = Some (Inl (SOCK_MORE, r')) \<Longrightarrow> expectedLength r = 0 \<Longrightarrow> r' = r"
  by (auto simp: chunk_step_def Let_def split: option.splits if_splits)

lemma ChunkedDecode_more:
  assumes "ChunkedDecode u r = Some (SOCK_MORE, r')" "chunk_inv r" "expectedLength r = 0"
  shows "ChunkedDecode u (feed b r) = ChunkedDecode u (feed b r')"
  using assms
proof (induction u r rule: ChunkedDecode.induct)
  case (1 u r)
  show ?case
  proof (cases "chunkStartOff r < length (rbuf r)")
    case True
    then obtain res where res: "chunk_step u r = Some res" using chunk_step_total [OF 1(3)] by blast
    show ?thesis
    proof (cases res)
      case (Inl x)
      then have "x = (SOCK_MORE, r')" using res True 1(2) by (simp add: ChunkedDecode.simps [of u r])
      then show ?thesis using chunk_step_more [of u r r'] Inl res 1(4) by simp
    next
      case (Inr r1)
      then have "ChunkedDecode u (feed b r1) = ChunkedDecode u (feed b r')"
        using 1(1) [OF True res Inr] 1(2-4) res True chunk_step_inv(1) [OF res 1(3) Inr] by (simp add: ChunkedDecode.simps [of u r])
      then show ?thesis
        using chunk_step_feed [OF res 1(3,4), of b] Inr True by (simp add: ChunkedDecode.simps [of u "feed b r"])
    qed
  qed (use 1(2) in \<open>simp add: ChunkedDecode.simps [of u r]\<close>)
qed

lemma ChunkedDecode_stable:
  assumes "ChunkedDecode u r = Some (st, r')" "st \<noteq> SOCK_MORE" "chunk_inv r" "expectedLength r = 0"
  shows "ChunkedDecode u (feed b r) = Some (st, feed b r')"
  using assms
proof (induction u r rule: ChunkedDecode.induct)
  case (1 u r)
  show ?case
  proof (cases "chunkStartOff r < length (rbuf r)")
    case True
    then obtain res where res: "chunk_step u r = Some res" using chunk_step_total [OF 1(4)] by blast
    show ?thesis
    proof (cases res)
      case (Inl x)
      then have "x = (st, r')" using res True 1(2) by (simp add: ChunkedDecode.simps [of u r])
      then show ?thesis
        using chunk_step_feed [OF res 1(4,5), of b] Inl True 1(3) by (simp add: ChunkedDecode.simps [of u "feed b r"])
    next
      case (Inr r1)
      then have "ChunkedDecode u (feed b r1) = Some (st, feed b r')"
        using 1(1) [OF True res Inr] 1(2-5) res True chunk_step_inv(1) [OF res 1(4) Inr] by (simp add: ChunkedDecode.simps [of u r])
      then show ?thesis
        using chunk_step_feed [OF res 1(4,5), of b] Inr True by (simp add: ChunkedDecode.simps [of u "feed b r"])
    qed
  qed (use 1(2,3) in \<open>simp add: ChunkedDecode.simps [of u r]\<close>)
qed

subsection \<open>Complete messages\<close>

text \<open>A size line and the bytes of its chunk.\<close>

definition size_line :: "cstring \<Rightarrow> nat \<Rightarrow> bool" where
  "size_line l n \<longleftrightarrow> chunk_size l = Some n \<and> CHR 0x0D \<notin> set l \<and> NUL_char \<notin> set l"

definition chunk_text :: "cstring \<times> string \<Rightarrow> string" where
  "chunk_text = (\<lambda>(l, c). l @ CRLF @ c @ CRLF)"

definition chunks_ok :: "(cstring \<times> string) list \<Rightarrow> bool" where
  "chunks_ok cs \<longleftrightarrow> list_all (\<lambda>(l, c). c \<noteq> [] \<and> size_line l (length c)) cs"

text \<open>Trailer fields are lines that are not empty.\<close>

definition trailer_ok :: "cstring list \<Rightarrow> bool" where
  "trailer_ok ts \<longleftrightarrow> list_all (\<lambda>t. t \<noteq> [] \<and> CHR 0x0D \<notin> set t \<and> NUL_char \<notin> set t) ts"

definition trailer_text :: "cstring list \<Rightarrow> string" where
  "trailer_text ts = concat (map (\<lambda>t. t @ CRLF) ts) @ CRLF"

definition chunked_text :: "(cstring \<times> string) list \<Rightarrow> cstring \<Rightarrow> cstring list \<Rightarrow> string" where
  "chunked_text cs l0 ts = concat (map chunk_text cs) @ l0 @ CRLF @ trailer_text ts"

lemma CRLF_simps [simp]: "length CRLF = 2" "CHR 0x0D \<in> set CRLF" "NUL_char \<notin> set CRLF" "CRLF \<noteq> []"
  by (simp_all add: CRLF_def NUL_char_def)

lemma strstr_skip: "c \<notin> set s \<Longrightarrow> strstr (s @ t) (c # x) = strstr t (c # x)"
  by (induction s) auto

lemma find_CRLF:
  assumes "drop i B = l @ CRLF @ r" "CHR 0x0D \<notin> set l" "NUL_char \<notin> set l"
  shows "find_str B i CRLF = Some (i + length l)"
proof (rule find_str_eq [OF assms(1)])
  show "NUL_char \<notin> set (l @ CRLF)" using assms(3) by simp
  show "strstr (l @ CRLF) CRLF = Some CRLF" using strstr_skip [OF assms(2), of CRLF] by (simp add: CRLF_def)
qed

lemma drop_behind_write:
  assumes "w + length c < k" "w + length c < length B"
  shows "drop k (take w B @ c @ NUL_char # drop (w + length c + 1) B) = drop k B"
proof -
  obtain j where k: "k = w + length c + 1 + j" using assms(1) by (metis Suc_eq_plus1 Suc_leI le_iff_add)
  have "min (length B) w = w" using assms(2) by simp
  then show ?thesis by (simp add: k add.commute add.left_commute)
qed

text \<open>A chunk that is complete is moved behind the decoded bytes.\<close>

lemma chunk_step_chunk:
  assumes "drop (chunkStartOff r) (rbuf r) = chunk_text (l, c) @ rest" "c \<noteq> []" "size_line l (length c)" "chunk_inv r"
  obtains r' where "chunk_step True r = Some (Inr r')" "drop (chunkStartOff r') (rbuf r') = rest"
    "take (chunkWriteOff r') (rbuf r') = take (chunkWriteOff r) (rbuf r) @ c" "chunkWriteOff r' = chunkWriteOff r + length c"
    "chunkStartOff r' = chunkStartOff r + length (chunk_text (l, c))"
proof -
  let ?i = "chunkStartOff r" and ?B = "rbuf r"
  let ?p = "?i + length l" and ?n = "length c"
  have d: "drop ?i ?B = l @ CRLF @ c @ CRLF @ rest" using assms(1) by (simp add: chunk_text_def)
  have i: "?i \<le> length ?B" "chunkWriteOff r \<le> ?i" using assms(4) by (simp_all add: chunk_inv_def)
  have "length (drop ?i ?B) = length l + 2 + ?n + 2 + length rest" by (simp add: d)
  then have len: "length ?B = ?p + 2 + ?n + 2 + length rest" using i(1) by simp
  have B: "?B = take ?i ?B @ l @ CRLF @ c @ CRLF @ rest" using d by (metis append_take_drop_id)
  have f: "find_str ?B ?i CRLF = Some ?p" using find_CRLF [OF d] assms(3) by (simp add: size_line_def)
  have sz: "chunk_size (take (?p - ?i) (drop ?i ?B)) = Some ?n" using assms(3) by (simp add: d size_line_def)
  have dd: "drop (?p + 2 + k) ?B = drop k (c @ CRLF @ rest)" for k
  proof -
    have "drop (?p + 2 + k) ?B = drop (length l + 2 + k) (drop ?i ?B)" by (simp add: add.commute add.left_commute)
    then show ?thesis unfolding d by simp
  qed
  have take: "take ?n (drop (?p + 2) ?B) = c" using dd [of 0] by simp
  have crlf: "take 2 (drop (?p + 2 + ?n) ?B) = CRLF" using dd [of ?n] by simp
  let ?B' = "take (chunkWriteOff r) ?B @ c @ NUL_char # drop (chunkWriteOff r + ?n + 1) ?B"
  let ?r = "r\<lparr>rbuf := ?B', chunkWriteOff := chunkWriteOff r + ?n\<rparr>"
  have w: "write_chunk True (?p + 2) ?n r = Some ?r"
    using i len take by (simp add: write_chunk_def put_bytes_def)
  have B': "take (chunkWriteOff r + ?n) ?B' = take (chunkWriteOff r) ?B @ c" using i len by simp
  have "drop (?p + 2 + ?n + 2) ?B' = drop (?p + 2 + ?n + 2) ?B"
    by (rule drop_behind_write) (use i len in simp_all)
  also have "\<dots> = rest" using dd [of "?n + 2"] by (simp add: add.assoc)
  finally have rest: "drop (?p + 2 + ?n + 2) ?B' = rest" .
  show thesis
  proof (rule that)
    show "chunk_step True r = Some (Inr (?r\<lparr>chunkStartOff := ?p + 2 + ?n + 2\<rparr>))"
      by (rule chunk_step_data [OF f sz _ _ crlf w]) (use assms(2) len in simp_all)
  qed (use rest B' in \<open>simp_all add: chunk_text_def\<close>)
qed

lemma trailer_end_trailer:
  assumes "drop i B = trailer_text ts" "trailer_ok ts" "i \<le> length B"
  shows "trailer_end B i = Some (length B)"
proof (cases ts)
  case Nil
  then have d: "drop i B = CRLF" using assms(1) by (simp add: trailer_text_def)
  then have "length B - i = 2" by (metis CRLF_simps(1) length_drop)
  then have "length B = i + 2" using assms(3) by simp
  then show ?thesis using d by (simp add: trailer_end_def)
next
  case (Cons t ts')
  let ?w = "\<lambda>ts. concat (map (\<lambda>t. t @ CRLF) ts)"
  have find: "strstr (?w ts @ CRLF) (CRLF @ CRLF) = Some (CRLF @ CRLF)" if "ts \<noteq> []" "trailer_ok ts" for ts
    using that
  proof (induction ts)
    case (Cons t ts)
    have t: "CHR 0x0D \<notin> set t" using Cons.prems by (simp add: trailer_ok_def)
    show ?case
    proof (cases ts)
      case Nil
      then show ?thesis using strstr_skip [OF t, of "CRLF @ CRLF"] by (simp add: CRLF_def)
    next
      case (Cons t2 ts2)
      obtain a x where a: "t2 = a # x" "a \<noteq> CHR 0x0D" using Cons Cons.prems by (cases t2) (auto simp: trailer_ok_def)
      have ih: "strstr (?w ts @ CRLF) (CRLF @ CRLF) = Some (CRLF @ CRLF)" using Cons Cons.IH Cons.prems by (simp add: trailer_ok_def)
      have "strstr (?w (t # ts) @ CRLF) (CRLF @ CRLF) = strstr (CRLF @ ?w ts @ CRLF) (CRLF @ CRLF)"
        using strstr_skip [OF t, of "CRLF @ ?w ts @ CRLF"] by (simp add: CRLF_def)
      also have "\<dots> = strstr (?w ts @ CRLF) (CRLF @ CRLF)" using a Cons by (simp add: CRLF_def)
      finally show ?thesis using ih by simp
    qed
  qed simp
  obtain a x where a: "t = a # x" "a \<noteq> CHR 0x0D" using Cons assms(2) by (cases t) (auto simp: trailer_ok_def)
  have nul: "NUL_char \<notin> set (trailer_text ts)" using assms(2) by (auto simp: trailer_text_def trailer_ok_def list_all_iff)
  have bs: "buf_str B i = trailer_text ts" using assms(1) nul by (auto simp: buf_str_def scan)
  have l: "length B = i + length (trailer_text ts)" using assms(1,3) by (metis le_add_diff_inverse length_drop)
  have "4 \<le> length (trailer_text ts)" using Cons a by (simp add: trailer_text_def)
  moreover have "strstr (trailer_text ts) (CRLF @ CRLF) = Some (CRLF @ CRLF)"
    using find [of ts] Cons assms(2) by (simp add: trailer_text_def)
  ultimately have "find_str B i (CRLF @ CRLF) = Some (length B - 4)" using bs l by (simp add: find_str_def)
  moreover have "take 2 (drop i B) \<noteq> CRLF" using assms(1) Cons a by (simp add: trailer_text_def CRLF_def)
  ultimately show ?thesis using l \<open>4 \<le> _\<close> by (simp add: trailer_end_def)
qed

lemma ChunkedDecode_text:
  assumes "drop (chunkStartOff r) (rbuf r) = chunked_text cs l0 ts" "chunks_ok cs" "size_line l0 0" "trailer_ok ts" "chunk_inv r"
  shows "\<exists>r'. ChunkedDecode True r = Some (SOCK_READY, r') \<and> chunkStartOff r' = length (rbuf r')
    \<and> take (chunkWriteOff r') (rbuf r') = take (chunkWriteOff r) (rbuf r) @ concat (map snd cs)
    \<and> chunkWriteOff r' = chunkWriteOff r + length (concat (map snd cs))"
  using assms
proof (induction cs arbitrary: r)
  case Nil
  let ?i = "chunkStartOff r" and ?B = "rbuf r"
  have d: "drop ?i ?B = l0 @ CRLF @ trailer_text ts" using Nil(1) by (simp add: chunked_text_def)
  have i: "?i \<le> length ?B" using Nil(5) by (simp add: chunk_inv_def)
  have "length (drop ?i ?B) = length l0 + 2 + length (trailer_text ts)" by (simp add: d)
  then have len: "length ?B = ?i + length l0 + 2 + length (trailer_text ts)" using i by simp
  have f: "find_str ?B ?i CRLF = Some (?i + length l0)" using find_CRLF [OF d] Nil(3) by (simp add: size_line_def)
  have "drop (?i + length l0 + 2) ?B = drop (length l0 + 2) (drop ?i ?B)" by (simp add: add.commute add.left_commute)
  then have "drop (?i + length l0 + 2) ?B = trailer_text ts" unfolding d by simp
  then have "trailer_end ?B (?i + length l0 + 2) = Some (length ?B)" using trailer_end_trailer Nil(4) len by simp
  then have "chunk_step True r = Some (Inl (SOCK_READY, r\<lparr>chunkStartOff := length ?B\<rparr>))"
    using f Nil(3) unfolding chunk_step_def Let_def by (simp add: d size_line_def)
  then show ?case using len by (simp add: ChunkedDecode.simps [of True r])
next
  case (Cons x cs)
  obtain l c where x: "x = (l, c)" by force
  have ok: "c \<noteq> []" "size_line l (length c)" "chunks_ok cs" using Cons.prems(2) by (simp_all add: chunks_ok_def x)
  have "drop (chunkStartOff r) (rbuf r) = chunk_text (l, c) @ chunked_text cs l0 ts" using Cons.prems(1) by (simp add: chunked_text_def x)
  from chunk_step_chunk [OF this ok(1,2) Cons.prems(5)] obtain r1 where
    r1: "chunk_step True r = Some (Inr r1)" "drop (chunkStartOff r1) (rbuf r1) = chunked_text cs l0 ts"
      "take (chunkWriteOff r1) (rbuf r1) = take (chunkWriteOff r) (rbuf r) @ c" "chunkWriteOff r1 = chunkWriteOff r + length c" by blast
  have "chunkStartOff r < length (rbuf r)" using Cons.prems(1) by (metis chunk_text_def append_is_Nil_conv chunked_text_def CRLF_simps(4) drop_all not_less)
  then show ?case
    using Cons.IH [OF r1(2) ok(3) Cons.prems(3,4)] chunk_step_inv(1) [OF r1(1) Cons.prems(5) refl] r1
    by (auto simp: ChunkedDecode.simps [of True r] x add.assoc)
qed

subsection \<open>Arrival in pieces\<close>

text \<open>Bytes arrive in pieces and the decoder is called after each, until it gives a verdict; the pieces that have not been received are returned.\<close>

fun decode_pieces :: "Request \<Rightarrow> string list \<Rightarrow> (SockState \<times> Request \<times> string list) option" where
  "decode_pieces r [] = Some (SOCK_MORE, r, [])"
| "decode_pieces r (b # bs) =
     (case ChunkedDecode True (feed b r) of
        None \<Rightarrow> None
      | Some (st, r) \<Rightarrow> if st = SOCK_MORE then decode_pieces r bs else Some (st, r, bs))"

lemma decode_pieces_ready:
  assumes "ChunkedDecode True (feed (concat bs) r) = Some (SOCK_READY, rf)" "chunkStartOff rf = length (rbuf rf)"
    and "chunk_inv r" "expectedLength r = 0" "bs \<noteq> []" "list_all (\<lambda>b. b \<noteq> []) bs"
  shows "decode_pieces r bs = Some (SOCK_READY, rf, [])"
  using assms
proof (induction bs arbitrary: r)
  case (Cons b bs)
  have inv: "chunk_inv (feed b r)" "expectedLength (feed b r) = 0" using Cons.prems(3,4) chunk_inv_feed by auto
  obtain st r1 where r1: "ChunkedDecode True (feed b r) = Some (st, r1)" "chunk_inv r1" "expectedLength r1 = 0"
    using ChunkedDecode_total [OF inv(1), of True] inv(2) by auto
  have full: "ChunkedDecode True (feed (concat bs) (feed b r)) = Some (SOCK_READY, rf)" using Cons.prems(1) by simp
  show ?case
  proof (cases "st = SOCK_MORE")
    case True
    then have "ChunkedDecode True (feed (concat bs) r1) = Some (SOCK_READY, rf)" using ChunkedDecode_more [OF _ inv] r1(1) full by metis
    moreover have "bs \<noteq> []" using full r1(1) True by auto
    ultimately show ?thesis using Cons.IH [of r1] Cons.prems(2,6) r1 True by simp
  next
    case False
    have "rf = feed (concat bs) r1" "st = SOCK_READY" using ChunkedDecode_stable [OF r1(1) False inv, of "concat bs"] full by simp_all
    moreover from this have "concat bs = []" using Cons.prems(2) r1(2) by (simp add: chunk_inv_def)
    then have "bs = []" using Cons.prems(6) by (cases bs) auto
    ultimately show ?thesis using r1(1) by simp
  qed
qed simp

text \<open>The request at the start of its body, and the decoded bytes.\<close>

definition at_body :: "Request \<Rightarrow> bool" where
  "at_body r \<longleftrightarrow> chunkStartOff r = length (rbuf r) \<and> chunkWriteOff r = length (rbuf r) \<and> coff r = length (rbuf r) \<and> expectedLength r = 0"

definition decoded :: "Request \<Rightarrow> string" where
  "decoded r = take (chunkWriteOff r - coff r) (drop (coff r) (rbuf r))"

lemma decode_text_pieces:
  assumes "at_body r" "concat bs = chunked_text cs l0 ts" "list_all (\<lambda>b. b \<noteq> []) bs"
    and "chunks_ok cs" "size_line l0 0" "trailer_ok ts"
  shows "\<exists>r'. decode_pieces r bs = Some (SOCK_READY, r', []) \<and> decoded r' = concat (map snd cs)
    \<and> chunkWriteOff r' - coff r' = length (concat (map snd cs)) \<and> take (coff r) (rbuf r') = rbuf r"
proof -
  have r: "chunk_inv r" "expectedLength r = 0" "coff r = length (rbuf r)" "chunkWriteOff r = length (rbuf r)" "chunkStartOff r = length (rbuf r)"
    using assms(1) by (auto simp: at_body_def chunk_inv_def)
  have "drop (chunkStartOff (feed (concat bs) r)) (rbuf (feed (concat bs) r)) = chunked_text cs l0 ts" using r assms(2) by simp
  from ChunkedDecode_text [OF this assms(4-6) chunk_inv_feed [OF r(1)]] obtain rf where
    rf: "ChunkedDecode True (feed (concat bs) r) = Some (SOCK_READY, rf)" "chunkStartOff rf = length (rbuf rf)"
      "take (chunkWriteOff rf) (rbuf rf) = rbuf r @ concat (map snd cs)" "chunkWriteOff rf = length (rbuf r) + length (concat (map snd cs))"
    using r(4) by auto
  have co: "coff rf = length (rbuf r)" "chunkWriteOff rf \<le> length (rbuf rf)"
    using ChunkedDecode_total [OF chunk_inv_feed [OF r(1)], of True "concat bs"] rf(1,2) r(3) by (auto simp: chunk_inv_def)
  have "bs \<noteq> []" using assms(2) by (auto simp: chunked_text_def)
  then have "decode_pieces r bs = Some (SOCK_READY, rf, [])" using decode_pieces_ready rf(1,2) r assms(3) by blast
  moreover have "decoded rf = drop (coff rf) (take (chunkWriteOff rf) (rbuf rf))" by (simp add: decoded_def drop_take)
  then have "decoded rf = concat (map snd cs)" using rf(3) co by simp
  moreover have "take (coff r) (take (chunkWriteOff rf) (rbuf rf)) = rbuf r" unfolding rf(3) using r(3) by simp
  then have "take (coff r) (rbuf rf) = rbuf r" using rf(4) r(3) by (simp add: min_def)
  ultimately show ?thesis using rf(4) co by auto
qed

text \<open>
  C16. A chunked body is decoded however the network cuts it into pieces: called after each piece, the decoder asks for more until the last
  byte of the terminating chunk and its trailer is there, then reports the body complete; the buffer
  holds, from the start of the body, exactly the bytes of the chunks, and what is before the body is untouched. Chunk
  extensions and trailer fields are allowed.
\<close>

theorem chunked_arrival:
  assumes "at_body r" "concat bs = chunked_text cs l0 ts" "list_all (\<lambda>b. b \<noteq> []) bs"
    and "chunks_ok cs" "size_line l0 0" "trailer_ok ts"
  shows "\<exists>r'. decode_pieces r bs = Some (SOCK_READY, r', []) \<and> decoded r' = concat (map snd cs) \<and> take (coff r) (rbuf r') = rbuf r"
  using decode_text_pieces [OF assms] by blast

definition empty_request :: Request where
  "empty_request = \<lparr>request = request_zero, headers = NsHeaderSetGet 10, content = C_Null, rlength = 0, contentLength = 0,
     avail = 0, expectedLength = 0, chunkStartOff = 0, chunkWriteOff = 0, woff = 0, roff = 0, coff = 0, leftover = 0, rbuf = [],
     savedChar = NUL_char\<rparr>"

definition body_request :: Request where
  "body_request = empty_request\<lparr>rbuf := ''hd'', chunkStartOff := 2, chunkWriteOff := 2, coff := 2\<rparr>"

theorem chunked_arrival_witness:
  "\<exists>r'. decode_pieces body_request
      [''5;x=y'' @ CRLF @ ''he'', ''llo'' @ CRLF @ ''2'', CRLF @ ''!!'' @ CRLF @ ''0'' @ CRLF @ ''t:1'', CRLF @ CRLF] = Some (SOCK_READY, r', [])
    \<and> decoded r' = ''hello!!'' \<and> take (coff body_request) (rbuf r') = rbuf body_request"
proof -
  let ?bs = "[''5;x=y'' @ CRLF @ ''he'', ''llo'' @ CRLF @ ''2'', CRLF @ ''!!'' @ CRLF @ ''0'' @ CRLF @ ''t:1'', CRLF @ CRLF]"
  have r: "at_body body_request" by (simp add: at_body_def body_request_def empty_request_def)
  have t: "concat ?bs = chunked_text [(''5;x=y'', ''hello''), (''2'', ''!!'')] ''0'' [''t:1'']" by code_simp
  have n: "list_all (\<lambda>b. b \<noteq> []) ?bs" by simp
  have c: "chunks_ok [(''5;x=y'', ''hello''), (''2'', ''!!'')]" "size_line ''0'' 0" "trailer_ok [''t:1'']" by code_simp+
  have "concat (map snd [(''5;x=y'', ''hello''), (''2'', ''!!'')]) = ''hello!!''" by simp
  then show ?thesis using chunked_arrival [OF r t n c] by metis
qed

subsection \<open>The server's own output\<close>

lemma to_hex_not_Nil [simp]: "to_hex n \<noteq> []"
  by (subst to_hex.simps) simp

lemma to_hex_digits: "list_all xdigit (to_hex n)"
proof (induction n rule: to_hex.induct)
  case (1 n)
  have "xdigit (hex_digit False (n mod 16))" by (simp add: xdigit_def hex_code_digit)
  then show ?case using 1 by (cases "n < 16") (simp_all add: to_hex.simps [of n])
qed

lemma hex_value_to_hex: "hex_value (to_hex n) = int n"
proof (induction n rule: to_hex.induct)
  case (1 n)
  have s: "hex_value (ds @ [c]) = 16 * hex_value ds + hex_code c" for ds c by (simp add: hex_value_def)
  have d: "hex_code (hex_digit False (n mod 16)) = int (n mod 16)" by (simp add: hex_code_digit)
  show ?case
  proof (cases "n < 16")
    case True
    then show ?thesis using d by (simp add: to_hex.simps [of n] hex_value_def)
  next
    case False
    then have "hex_value (to_hex n) = 16 * int (n div 16) + int (n mod 16)" using 1 s d by (simp add: to_hex.simps [of n])
    then show ?thesis by presburger
  qed
qed

lemma xdigit_chars: "xdigit c \<Longrightarrow> \<not> c_isspace c \<and> c \<noteq> CHR ''-'' \<and> c \<noteq> CHR ''+'' \<and> c \<noteq> CHR ''x'' \<and> c \<noteq> CHR ''X'' \<and> c \<noteq> CHR 0x0D \<and> c \<noteq> NUL_char"
  by (auto simp: xdigit_def hex_code_def c_isdigit_def c_isspace_def NUL_char_def split: if_splits)

lemma size_line_to_hex:
  assumes "int n < 2 ^ 63"
  shows "size_line (to_hex n) n"
proof -
  have x: "xdigit c \<and> \<not> c_isspace c \<and> c \<noteq> CHR ''-'' \<and> c \<noteq> CHR ''+'' \<and> c \<noteq> CHR ''x'' \<and> c \<noteq> CHR ''X'' \<and> c \<noteq> CHR 0x0D \<and> c \<noteq> NUL_char"
    if "c \<in> set (to_hex n)" for c using to_hex_digits [of n] xdigit_chars that by (auto simp: list_all_iff)
  obtain d ds where d: "to_hex n = d # ds" by (cases "to_hex n") auto
  have h: "\<not> c_isspace d" "d \<noteq> CHR ''-''" "d \<noteq> CHR ''+''" using x [of d] d by auto
  have a: "at0 (d # ds) 0 = d" "at0 (d # ds) 1 \<noteq> CHR ''x''" "at0 (d # ds) 1 \<noteq> CHR ''X''"
    using x [of "hd ds"] d by (cases ds; simp add: at0_def NUL_char_def)+
  have sk: "skip_spaces (d # ds) = d # ds" using h(1) by (simp add: scan)
  have tw: "takeWhile xdigit (d # ds) = d # ds" "dropWhile xdigit (d # ds) = []" using x d by (metis takeWhile_stop(2), metis dropWhile_stop(2))
  have hv: "hex_value (d # ds) = int n" using hex_value_to_hex [of n] d by simp
  have "strtol16 (to_hex n) = Some (int n, [], False)"
    using a h assms unfolding strtol16_def d Let_def by (simp add: sk tw hv del: takeWhile.simps dropWhile.simps)
  then have "chunk_size (to_hex n) = Some n" by (simp add: chunk_size_def skip_spaces_def)
  then show ?thesis using x unfolding size_line_def by blast
qed

definition nonempty_bodies :: "string list list \<Rightarrow> string list" where
  "nonempty_bodies ws = filter (\<lambda>b. b \<noteq> []) (map concat ws)"

lemma concat_nonempty_bodies: "concat (nonempty_bodies ws) = concat (map concat ws)"
  by (induction ws) (auto simp: nonempty_bodies_def)

text \<open>
  C17. What the server writes in chunked mode is what a peer with this decoder reads: for every sequence of writes, each of several
  buffers and possibly empty, followed by the closing write, the stream decodes to the bytes
  that were written, in whatever pieces it arrives.
\<close>

theorem chunked_output_decoded:
  assumes "at_body r" "concat bs = concat (map (\<lambda>w. chunk_frame w False) ws) @ chunk_frame [] True" "list_all (\<lambda>b. b \<noteq> []) bs"
    and "list_all (\<lambda>w. int (length (concat w)) < 2 ^ 63) ws"
  shows "\<exists>r'. decode_pieces r bs = Some (SOCK_READY, r', []) \<and> decoded r' = concat (map concat ws)"
proof -
  let ?cs = "map (\<lambda>b. (to_hex (length b), b)) (nonempty_bodies ws)"
  have "concat (map (\<lambda>w. chunk_frame w False) ws) = concat (map chunk_text ?cs)"
    by (induction ws) (auto simp: nonempty_bodies_def chunk_frame_def chunk_text_def Let_def)
  then have t: "concat bs = chunked_text ?cs ''0'' []"
    using assms(2) by (simp add: chunked_text_def chunk_frame_def trailer_text_def)
  have "chunks_ok ?cs"
    using assms(4) size_line_to_hex by (auto simp: chunks_ok_def nonempty_bodies_def list_all_iff)
  moreover have "size_line ''0'' 0" "trailer_ok []" by code_simp+
  ultimately show ?thesis
    using decode_text_pieces [OF assms(1) t assms(3)] concat_nonempty_bodies [of ws] by (auto simp: comp_def)
qed

theorem chunked_output_decoded_witness:
  "\<exists>r'. decode_pieces empty_request [''3'' @ CRLF @ ''ab'', ''c'' @ CRLF @ ''1'' @ CRLF @ ''d'' @ CRLF @ ''0'' @ CRLF, CRLF] = Some (SOCK_READY, r', [])
    \<and> decoded r' = ''abcd''"
proof -
  let ?bs = "[''3'' @ CRLF @ ''ab'', ''c'' @ CRLF @ ''1'' @ CRLF @ ''d'' @ CRLF @ ''0'' @ CRLF, CRLF]"
  let ?ws = "[[''a'', ''bc''], [], [''d'']]"
  have r: "at_body empty_request" by (simp add: at_body_def empty_request_def)
  have t: "concat ?bs = concat (map (\<lambda>w. chunk_frame w False) ?ws) @ chunk_frame [] True" by code_simp
  have n: "list_all (\<lambda>b. b \<noteq> []) ?bs" "list_all (\<lambda>w. int (length (concat w)) < 2 ^ 63) ?ws" by simp_all
  have "concat (map concat ?ws) = ''abcd''" by simp
  then show ?thesis using chunked_output_decoded [OF r t n] by metis
qed

subsection \<open>Differences\<close>

text \<open>Size lines are read less strictly than content lengths: signs, white space and a prefix are accepted.\<close>

lemma chunk_size_lenient:
  "chunk_size '' +0x10'' = Some 16" "chunk_size ''-0'' = Some 0"
  by code_simp+

end
