(* ===== verification/NsForwarded.thy ===== *)
theory NsForwarded
  imports NsSockaddr NsSet NsPathname
begin

text \<open>
  The address of a client behind reverse proxies: \<^verbatim>\<open>DeterminePeerAddrFromHeaders\<close> of \<^verbatim>\<open>nsd/driver.c\<close>, which reads the header
  field \<^verbatim>\<open>x-forwarded-for\<close> and decides, by the list of trusted proxies of \<open>NsSockaddr\<close>, which of its
  addresses to believe. \<^verbatim>\<open>inet_pton\<close> is an argument.
\<close>

record proxy_conf =
  trustedservers :: "cstring list option"
  skipnonpublic :: bool

text \<open>\<^verbatim>\<open>strtok\<close>: the runs of characters that are no separators.\<close>

definition tokens :: "char set \<Rightarrow> cstring \<Rightarrow> cstring list" where
  "tokens seps s = filter (\<lambda>t. t \<noteq> []) (split_by (\<lambda>c. c \<in> seps) s)"

definition is_trusted :: "pton \<Rightarrow> pton \<Rightarrow> proxy_conf \<Rightarrow> sockaddr \<Rightarrow> bool" where
  "is_trusted pton4 pton6 conf sa =
     Ns_SockaddrTrustedReverseProxy pton4 pton6 (case trustedservers conf of Some ts \<Rightarrow> ts | None \<Rightarrow> []) sa"

definition is_public :: "pton \<Rightarrow> pton \<Rightarrow> proxy_conf \<Rightarrow> sockaddr \<Rightarrow> bool" where
  "is_public pton4 pton6 conf sa =
     Ns_SockaddrPublicIpAddress pton4 pton6 (case trustedservers conf of Some ts \<Rightarrow> ts | None \<Rightarrow> []) sa"

text \<open>The walk over the addresses from right to left, when trusted proxies are configured: success and the address.\<close>

fun walk_trusted :: "pton \<Rightarrow> pton \<Rightarrow> proxy_conf \<Rightarrow> sockaddr \<Rightarrow> cstring list \<Rightarrow> bool \<times> sockaddr" where
  "walk_trusted pton4 pton6 conf sa [] = (False, sa)"
| "walk_trusted pton4 pton6 conf sa (t # ts) =
     (case ns_inet_pton pton4 pton6 sa t of
        (ok, sa) \<Rightarrow>
          if \<not> ok then (False, sa)
          else if ts = [] then (\<not> (skipnonpublic conf \<and> \<not> is_public pton4 pton6 conf sa), sa)
          else if \<not> is_trusted pton4 pton6 conf sa then
            (if skipnonpublic conf \<and> \<not> is_public pton4 pton6 conf sa then walk_trusted pton4 pton6 conf sa ts else (True, sa))
          else walk_trusted pton4 pton6 conf sa ts)"

text \<open>The walk from left to right otherwise.\<close>

fun walk_classic :: "pton \<Rightarrow> pton \<Rightarrow> proxy_conf \<Rightarrow> sockaddr \<Rightarrow> cstring list \<Rightarrow> bool \<times> sockaddr" where
  "walk_classic pton4 pton6 conf sa [] = (False, sa)"
| "walk_classic pton4 pton6 conf sa (t # ts) =
     (case ns_inet_pton pton4 pton6 sa t of
        (ok, sa) \<Rightarrow>
          if \<not> ok then (False, sa)
          else if skipnonpublic conf then
            (if is_public pton4 pton6 conf sa then (True, sa) else walk_classic pton4 pton6 conf sa ts)
          else (True, sa))"

definition DeterminePeerAddrFromHeaders ::
    "pton \<Rightarrow> pton \<Rightarrow> proxy_conf \<Rightarrow> sockaddr \<Rightarrow> sockaddr \<Rightarrow> ns_set \<Rightarrow> sockaddr" where
  "DeterminePeerAddrFromHeaders pton4 pton6 conf peer clientsa headers =
     (case Ns_SetIGet headers ''x-forwarded-for'' of
        None \<Rightarrow> sa_zero
      | Some s \<Rightarrow>
          if strcasecmp s ''unknown'' = 0 then sa_zero
          else if trustedservers conf \<noteq> None \<and> \<not> is_trusted pton4 pton6 conf peer then sa_zero
          else
            (case ns_inet_pton pton4 pton6 clientsa s of
               (ok, sa) \<Rightarrow>
                 if ok then (if skipnonpublic conf \<and> \<not> is_public pton4 pton6 conf sa then sa_zero else sa)
                 else
                   (let toks = tokens {CHR '','', CHR '' ''} s;
                        (success, sa) = (if trustedservers conf \<noteq> None then walk_trusted pton4 pton6 conf sa (rev toks)
                                         else walk_classic pton4 pton6 conf sa toks)
                    in if success then sa else sa_zero)))"

subsection \<open>Addresses\<close>

text \<open>Two structures hold the same address; bytes of the other family are ignored.\<close>

definition same_addr :: "sockaddr \<Rightarrow> sockaddr \<Rightarrow> bool" where
  "same_addr x y \<longleftrightarrow> sa_family x = sa_family y \<and> (sa_family x = AF_INET \<longrightarrow> sin_addr x = sin_addr y)
     \<and> (sa_family x = AF_INET6 \<longrightarrow> sin6_addr x = sin6_addr y)"

definition addr_of :: "pton \<Rightarrow> pton \<Rightarrow> cstring \<Rightarrow> sockaddr" where
  "addr_of pton4 pton6 t = snd (ns_inet_pton pton4 pton6 sa_zero t)"

definition is_addr :: "pton \<Rightarrow> pton \<Rightarrow> cstring \<Rightarrow> bool" where
  "is_addr pton4 pton6 t \<longleftrightarrow> pton4 t \<noteq> None \<or> pton6 t \<noteq> None"

lemma ns_inet_pton_addr:
  "ns_inet_pton pton4 pton6 sa t = (ok, sa') \<Longrightarrow> ok = is_addr pton4 pton6 t"
  "ns_inet_pton pton4 pton6 sa t = (True, sa') \<Longrightarrow> same_addr sa' (addr_of pton4 pton6 t)"
  by (auto simp: ns_inet_pton_def is_addr_def same_addr_def addr_of_def split: option.splits)

lemma masked_match_same: "same_addr x y \<Longrightarrow> Ns_SockaddrMaskedMatch x m o4 = Ns_SockaddrMaskedMatch y m o4"
  by (cases "sa_family y")
    (auto simp: same_addr_def Ns_SockaddrMaskedMatch_def SockaddrGetComparableV4_def SockaddrGetMappedV4_def split: option.splits)

lemma is_trusted_same: "same_addr x y \<Longrightarrow> is_trusted pton4 pton6 conf x = is_trusted pton4 pton6 conf y"
  by (simp add: is_trusted_def Ns_SockaddrTrustedReverseProxy_def in_entries_def masked_match_same)

text \<open>Trusted proxies are skipped and the first address that is not trusted ends the walk.\<close>

lemma walk_trusted_stops:
  assumes "\<forall>t \<in> set proxies. is_addr pton4 pton6 t \<and> is_trusted pton4 pton6 conf (addr_of pton4 pton6 t)"
    and "is_addr pton4 pton6 real" "\<not> is_trusted pton4 pton6 conf (addr_of pton4 pton6 real)" "\<not> skipnonpublic conf"
  shows "\<exists>sa'. walk_trusted pton4 pton6 conf sa (proxies @ real # rest) = (True, sa') \<and> same_addr sa' (addr_of pton4 pton6 real)"
  using assms
proof (induction proxies arbitrary: sa)
  case Nil
  obtain ok sa' where r: "ns_inet_pton pton4 pton6 sa real = (ok, sa')" by force
  then have ok: "ok" using Nil(2) ns_inet_pton_addr(1) [OF r] by simp
  then have "same_addr sa' (addr_of pton4 pton6 real)" using ns_inet_pton_addr(2) r by simp
  then show ?case using Nil(3,4) r ok is_trusted_same by auto
next
  case (Cons p ps)
  obtain ok sa' where r: "ns_inet_pton pton4 pton6 sa p = (ok, sa')" by force
  then have ok: "ok" using Cons.prems(1) ns_inet_pton_addr(1) [OF r] by simp
  then have "is_trusted pton4 pton6 conf sa'" using ns_inet_pton_addr(2) r Cons.prems(1) is_trusted_same by fastforce
  then show ?case using Cons.IH [of sa'] Cons.prems r ok by simp
qed

subsection \<open>The header\<close>

definition addr_token :: "cstring \<Rightarrow> bool" where
  "addr_token t \<longleftrightarrow> t \<noteq> [] \<and> CHR '','' \<notin> set t \<and> CHR '' '' \<notin> set t"

text \<open>The text a chain of proxies makes: each appends the address it got the request from.\<close>

definition forwarded :: "cstring list \<Rightarrow> cstring" where
  "forwarded ts = concat (map (\<lambda>t. t @ '', '') (butlast ts)) @ last ts"

lemma tokens_join:
  assumes "\<forall>t \<in> set ts. addr_token t" "ts \<noteq> []"
  shows "tokens {CHR '','', CHR '' ''} (forwarded ts) = ts"
  using assms
proof (induction ts)
  case (Cons t ts)
  let ?sep = "\<lambda>c. c \<in> {CHR '','', CHR '' ''}"
  have t: "\<forall>c \<in> set t. \<not> ?sep c" "t \<noteq> []" using Cons.prems(1) by (auto simp: addr_token_def)
  show ?case
  proof (cases "ts = []")
    case True
    then show ?thesis using t split_by_none [OF t(1)] by (simp add: tokens_def forwarded_def)
  next
    case False
    then have f: "forwarded (t # ts) = t @ CHR '','' # CHR '' '' # forwarded ts" by (simp add: forwarded_def)
    have "split_by ?sep (forwarded (t # ts)) = t # [] # split_by ?sep (forwarded ts)"
      unfolding f using split_by_append [OF t(1), of "CHR '',''"] by simp
    then show ?thesis using Cons False t(2) by (simp add: tokens_def)
  qed
qed simp


text \<open>A conversion of a few addresses, enough for the examples.\<close>

definition example_pton4 :: pton where
  "example_pton4 s = map_of [(''10.0.0.1'', [10, 0, 0, 1]), (''9.9.9.9'', [9, 9, 9, 9]),
     (''1.2.3.4'', [1, 2, 3, 4])] s"

definition example_headers :: "cstring list \<Rightarrow> ns_set" where
  "example_headers ts = snd (Ns_SetPut (Ns_SetCreate None) ''X-Forwarded-For'' (Some (forwarded ts)))"


text \<open>
  With \<^verbatim>\<open>skipnonpublic\<close> the walk goes on past the address the trusted proxy saw when that is not public: a client in a
  private network, which no proxy vouches for, has the address it wrote itself accepted.
\<close>

lemma is_public_same: "same_addr x y \<Longrightarrow> is_public pton4 pton6 conf x = is_public pton4 pton6 conf y"
  by (simp add: is_public_def Ns_SockaddrPublicIpAddress_def in_entries_def masked_match_same)

lemma skipnonpublic_accepts_spoofed:
  assumes "is_addr pton4 pton6 real" "\<not> is_public pton4 pton6 conf (addr_of pton4 pton6 real)"
    and "is_addr pton4 pton6 spoofed" "is_public pton4 pton6 conf (addr_of pton4 pton6 spoofed)" "skipnonpublic conf"
  shows "\<exists>sa'. walk_trusted pton4 pton6 conf sa [real, spoofed] = (True, sa') \<and> same_addr sa' (addr_of pton4 pton6 spoofed)"
proof -
  obtain ok1 sa1 where r1: "ns_inet_pton pton4 pton6 sa real = (ok1, sa1)" by force
  obtain ok2 sa2 where r2: "ns_inet_pton pton4 pton6 sa1 spoofed = (ok2, sa2)" by force
  have ok: "ok1" "ok2" using ns_inet_pton_addr(1) [OF r1] ns_inet_pton_addr(1) [OF r2] assms(1,3) by simp_all
  then have "same_addr sa1 (addr_of pton4 pton6 real)" "same_addr sa2 (addr_of pton4 pton6 spoofed)"
    using ns_inet_pton_addr(2) r1 r2 by simp_all
  then show ?thesis using assms(2,4,5) r1 r2 ok is_public_same by fastforce
qed

end
