(* ===== verification/NsDriver.thy ===== *)
theory NsDriver
  imports NsChunk NsForwarded NsConnFlags
begin

text \<open>
  How a driver turns the bytes of a socket into requests: \<^verbatim>\<open>SockRead\<close>, \<^verbatim>\<open>SockParse\<close>, \<^verbatim>\<open>EndOfHeader\<close> and
  \<^verbatim>\<open>RequestFree\<close> of \<^verbatim>\<open>nsd/driver.c\<close>, over the request lines and headers of \<open>NsHttp\<close>, the chunk decoder of
  \<open>NsChunk\<close> and the client address of \<open>NsForwarded\<close>. A socket is a pair of its own state and of its request. The
  outcome of the calls of the operating system (receiving, temporary files, mapping) is an argument. A result \<open>None\<close> stands for an
  access outside of the memory: \<open>NsDriverRun\<close> shows where this can happen. Logging, progress reports, the access log and the time of
  the request are left out.
\<close>

subsection \<open>Data\<close>

datatype Ns_SockState =
    NS_SOCK_NONE | NS_SOCK_READ | NS_SOCK_WRITE | NS_SOCK_EXCEPTION | NS_SOCK_EXIT | NS_SOCK_DONE | NS_SOCK_CANCEL
  | NS_SOCK_TIMEOUT | NS_SOCK_AGAIN | NS_SOCK_INIT

datatype NsExtractedHeaderIndex =
    NS_EXTRACTED_HEADER_AUTHORIZATION | NS_EXTRACTED_HEADER_CONTENT_LENGTH | NS_EXTRACTED_HEADER_HOST
  | NS_EXTRACTED_HEADER_EXPECT | NS_EXTRACTED_NONE

text \<open>The limits of a driver; the configuration keeps them from being negative.\<close>

record Driver =
  bufsize :: nat
  maxinput :: nat
  maxline :: nat
  maxheaders :: nat
  readahead :: nat
  maxupload :: nat
  spooler_threads :: nat
  drv_noparse :: bool

text \<open>
  The state of a socket: \<open>tfd\<close> is the spool file by its contents, \<open>tfile\<close> tells whether it has a
  name, \<open>taddr\<close> is the mapped file and \<open>sent\<close> what the driver itself sent to the client.
\<close>

record Sock =
  peer :: sockaddr
  clientsa :: sockaddr
  sflags :: "32 word"
  keep :: bool
  extractedHeaderFields :: "NsExtractedHeaderIndex \<Rightarrow> cstring option"
  tfd :: "string option"
  tfile :: bool
  taddr :: "string option"
  sent :: string
  poolPtr :: "nat option"

text \<open>The configuration and the parameters of the parsers.\<close>

record 'e drv_env =
  de_url :: "'e url_env"
  de_strtod :: "cstring \<Rightarrow> rat"
  de_pton4 :: pton
  de_pton6 :: pton
  de_proxy :: proxy_conf

text \<open>
  What the operating system answers: the bytes received for a given size (\<open>None\<close> for a negative result), the state the driver
  reported when it received last (\<^verbatim>\<open>recvSockState\<close>), whether \<^verbatim>\<open>errno\<close> is zero, and whether temporary files, writing and mapping succeed.
\<close>

record sock_io =
  io_state :: Ns_SockState
  io_recv :: "nat \<Rightarrow> string option"
  io_errno0 :: bool
  io_temp :: bool
  io_write :: bool
  io_mmap :: bool

subsection \<open>Framing\<close>

fun strict_digits :: "cstring \<Rightarrow> 64 word \<Rightarrow> (64 word \<times> cstring) option" where
  "strict_digits [] v = Some (v, [])"
| "strict_digits (c # cs) v =
     (if c_isdigit c then
        (let digit = word_of_nat (byte_of c - 48)
         in if v > (- 1 - digit) div 10 then None else strict_digits cs (v * 10 + digit))
      else Some (v, c # cs))"

definition ParseStrictContentLength :: "cstring \<Rightarrow> nat option" where
  "ParseStrictContentLength s =
     (let s = skip_spaces s
      in if s = [] then None
         else (case strict_digits s 0 of
                 None \<Rightarrow> None
               | Some (v, p) \<Rightarrow> if skip_spaces p = [] then Some (unat v) else None))"

definition TransferCodingTokenEqual :: "cstring \<Rightarrow> cstring \<Rightarrow> bool" where
  "TransferCodingTokenEqual s tok \<longleftrightarrow> length s = length tok \<and> strcasecmp s tok = 0"

text \<open>Only success is reported, with \<^verbatim>\<open>*chunkedPtr\<close> set.\<close>

definition ParseRequestTransferEncoding :: "cstring \<Rightarrow> bool" where
  "ParseRequestTransferEncoding s =
     (let start = skip_spaces s;
          tok = takeWhile (\<lambda>c. \<not> c_isspace c) start;
          rest = skip_spaces (dropWhile (\<lambda>c. \<not> c_isspace c) start)
      in CHR '';'' \<notin> set tok \<and> CHR '','' \<notin> set tok \<and> rest = [] \<and> TransferCodingTokenEqual tok ''chunked'')"

subsection \<open>Fields that must not be repeated\<close>

definition singletonRequestHeaderFields :: "(cstring \<times> NsExtractedHeaderIndex) list" where
  "singletonRequestHeaderFields =
     [(''authorization'', NS_EXTRACTED_HEADER_AUTHORIZATION), (''content-length'', NS_EXTRACTED_HEADER_CONTENT_LENGTH),
      (''content-type'', NS_EXTRACTED_NONE), (''expect'', NS_EXTRACTED_HEADER_EXPECT), (''host'', NS_EXTRACTED_HEADER_HOST),
      (''if-match'', NS_EXTRACTED_NONE), (''if-modified-since'', NS_EXTRACTED_NONE), (''if-none-match'', NS_EXTRACTED_NONE),
      (''if-range'', NS_EXTRACTED_NONE), (''if-unmodified-since'', NS_EXTRACTED_NONE), (''origin'', NS_EXTRACTED_NONE),
      (''transfer-encoding'', NS_EXTRACTED_NONE), (''upgrade'', NS_EXTRACTED_NONE), (''user-agent'', NS_EXTRACTED_NONE)]"

text \<open>The loop over the table for one field: the entry it matches.\<close>

fun singleton_search :: "(cstring \<times> NsExtractedHeaderIndex) list \<Rightarrow> cstring \<Rightarrow> (cstring \<times> NsExtractedHeaderIndex) option" where
  "singleton_search [] nm = None"
| "singleton_search ((sn, x) # tab) nm =
     (if c_tolower (first_char nm) \<noteq> first_char sn then singleton_search tab nm
      else if strcasecmp sn nm = 0 then Some (sn, x)
      else if strcasecmp sn nm > 0 then None
      else singleton_search tab nm)"

text \<open>The loop over the fields; \<open>counts\<close> holds the entries met so far, none of which may be met again.\<close>

fun singleton_fields ::
    "set_field list \<Rightarrow> cstring list \<Rightarrow> (NsExtractedHeaderIndex \<Rightarrow> cstring option) \<Rightarrow>
     Ns_ReturnCode \<times> (NsExtractedHeaderIndex \<Rightarrow> cstring option)" where
  "singleton_fields [] counts ex = (NS_OK, ex)"
| "singleton_fields (f # fs) counts ex =
     (case singleton_search singletonRequestHeaderFields (fname f) of
        None \<Rightarrow> singleton_fields fs counts ex
      | Some (sn, x) \<Rightarrow>
          if sn \<in> set counts then (NS_ERROR, ex)
          else singleton_fields fs (sn # counts) (if x \<noteq> NS_EXTRACTED_NONE then ex(x := fvalue f) else ex))"

definition CheckSingletonHeaderFields :: "ns_set \<Rightarrow> Sock \<Rightarrow> Ns_ReturnCode \<times> Sock" where
  "CheckSingletonHeaderFields hs s =
     (case singleton_fields (set_fields hs) [] (\<lambda>_. None) of (st, ex) \<Rightarrow> (st, s\<lparr>extractedHeaderFields := ex\<rparr>))"

subsection \<open>The end of the header\<close>

definition set_flag :: "32 word \<Rightarrow> bool \<Rightarrow> Sock \<Rightarrow> Sock" where
  "set_flag f on s = s\<lparr>sflags := (if on then sflags s OR f else sflags s AND NOT f)\<rparr>"

definition expects_continue :: "Sock \<Rightarrow> bool" where
  "expects_continue s =
     (case extractedHeaderFields s NS_EXTRACTED_HEADER_EXPECT of
        None \<Rightarrow> False
      | Some v \<Rightarrow> starts_with v ''100-'' \<and> map c_tolower (drop 4 v) = ''continue'')"

text \<open>The framing of the body; \<open>Inl\<close> is an early return of \<^verbatim>\<open>SOCK_BADREQUEST\<close>, which also disables keep-alive.\<close>

definition request_framing :: "Driver \<Rightarrow> Sock \<times> Request \<Rightarrow> Sock \<times> Request + Sock \<times> Request" where
  "request_framing drv = (\<lambda>(s, r).
     (let bad = (\<lambda>r. Inl (s\<lparr>keep := False\<rparr>, r))
      in case (extractedHeaderFields s NS_EXTRACTED_HEADER_CONTENT_LENGTH, Ns_SetIGet (headers r) ''transfer-encoding'') of
           (Some _, Some _) \<Rightarrow> bad r
         | (None, Some te) \<Rightarrow>
             if \<not> ParseRequestTransferEncoding te then bad r
             else
               (let r = r\<lparr>chunkStartOff := roff r, chunkWriteOff := roff r, contentLength := 0, rlength := 0\<rparr>
                in case Ns_SetIGet (headers r) ''x-expected-entity-length'' of
                     None \<Rightarrow> Inr (s, r)
                   | Some v \<Rightarrow>
                       (case ParseStrictContentLength v of
                          Some n \<Rightarrow> if n > 0 then Inr (s, r\<lparr>expectedLength := n\<rparr>) else bad r
                        | None \<Rightarrow> bad r))
         | (Some cl, None) \<Rightarrow>
             (case ParseStrictContentLength cl of
                None \<Rightarrow> bad r
              | Some n \<Rightarrow>
                  Inr (if n > maxinput drv then (set_flag NS_CONN_ENTITYTOOLARGE True s)\<lparr>keep := False\<rparr> else s,
                       r\<lparr>rlength := n, contentLength := n\<rparr>))
         | (None, None) \<Rightarrow> Inr (s, r)))"

definition accepted_compression :: "'e drv_env \<Rightarrow> Request \<Rightarrow> Sock \<Rightarrow> Sock" where
  "accepted_compression E r s =
     (let (gzip, brotli) =
            (case Ns_SetIGet (headers r) ''accept-encoding'' of
               None \<Rightarrow> (False, False)
             | Some v \<Rightarrow>
                 if Ns_SetIGet (headers r) ''range'' = None then NsParseAcceptEncoding (de_strtod E) (rq_version (request r)) v
                 else (False, False))
      in set_flag NS_CONN_BROTLIACCEPTED brotli (set_flag NS_CONN_ZIPACCEPTED gzip s))"

definition EndOfHeader :: "'e drv_env \<Rightarrow> Driver \<Rightarrow> Sock \<times> Request \<Rightarrow> SockState \<times> Sock \<times> Request" where
  "EndOfHeader E drv = (\<lambda>(s, r).
     (let r = r\<lparr>coff := roff r, chunkStartOff := 0, chunkWriteOff := 0, expectedLength := 0\<rparr>;
          s = set_flag NS_CONN_CONTINUE (expects_continue s) s;
          s = set_flag NS_CONN_ENTITYTOOLARGE False s
      in case request_framing drv (s, r) of
           Inl (s, r) \<Rightarrow> (SOCK_BADREQUEST, s, r)
         | Inr (s, r) \<Rightarrow>
             (SOCK_READY,
              (accepted_compression E r s)\<lparr>clientsa :=
                 DeterminePeerAddrFromHeaders (de_pton4 E) (de_pton6 E) (de_proxy E) (peer s) (clientsa s) (headers r)\<rparr>, r)))"

subsection \<open>Parsing\<close>

text \<open>The length of the next line, without its newline.\<close>

definition next_line :: "Request \<Rightarrow> nat option" where
  "next_line r =
     (let t = take (avail r) (drop (roff r) (rbuf r))
      in if CHR 0x0A \<in> set t then Some (length (takeWhile (\<lambda>c. c \<noteq> CHR 0x0A) t)) else None)"

definition line_too_long :: "Driver \<Rightarrow> nat \<Rightarrow> Sock \<times> Request \<Rightarrow> Sock" where
  "line_too_long drv k = (\<lambda>(s, r).
     if k > maxline drv then
       s\<lparr>keep := False, sflags := (if rq_line (request r) = None then NS_CONN_REQUESTURITOOLONG else NS_CONN_LINETOOLONG)\<rparr>
     else s)"

definition end_of_headers :: "'e drv_env \<Rightarrow> Driver \<Rightarrow> Sock \<times> Request \<Rightarrow> SockState \<times> Sock \<times> Request + Sock \<times> Request" where
  "end_of_headers E drv = (\<lambda>(s, r).
     (case CheckSingletonHeaderFields (headers r) s of
        (NS_ERROR, s) \<Rightarrow> Inl (SOCK_BADREQUEST, s, r)
      | (_, s) \<Rightarrow>
          (case EndOfHeader E drv (s, r) of
             (st, s, r) \<Rightarrow>
               if st \<noteq> SOCK_READY then Inl (st, s, r)
               else if sflags s AND NS_CONN_CONTINUE \<noteq> 0 then
                 (if sflags s AND NS_CONN_ENTITYTOOLARGE \<noteq> 0 then Inl (SOCK_ENTITYTOOLARGE, s, r)
                  else Inr (s\<lparr>sent := sent s @ ''HTTP/1.1 100 Continue'' @ CRLF @ CRLF\<rparr>, r))
               else Inr (s, r))))"

text \<open>
  A line of the header or the request line: \<open>line\<close> is its text, which ends at offset \<open>e\<close> of the buffer. The code writes a NUL there
  and restores the byte, except when it returns with an error.
\<close>

definition header_text ::
    "'e drv_env \<Rightarrow> Driver \<Rightarrow> string \<Rightarrow> nat \<Rightarrow> Sock \<times> Request \<Rightarrow> (SockState \<times> Sock \<times> Request + Sock \<times> Request) option" where
  "header_text E drv line e = (\<lambda>(s, r).
     (let cut = set0 (rbuf r) e
      in if rq_line (request r) = None then
           (case Ns_ParseRequest (de_url E) (de_strtod E) (request r) line of
              (NS_ERROR, rq) \<Rightarrow> Some (Inl (SOCK_BADREQUEST, s, r\<lparr>request := rq, rbuf := cut\<rparr>))
            | (_, rq) \<Rightarrow>
                Some (Inr (s, if rq_version rq < 1 then r\<lparr>request := rq, coff := roff r\<rparr> else r\<lparr>request := rq\<rparr>)))
         else
           (case Ns_ParseHeader (headers r) (c_str line) None of
              Inl _ \<Rightarrow> None
            | Inr (st, _, hs) \<Rightarrow>
                if st \<noteq> NS_OK then Some (Inl (SOCK_BADHEADER, s, r\<lparr>headers := hs, rbuf := cut\<rparr>))
                else if size_of hs > maxheaders drv then Some (Inl (SOCK_TOOMANYHEADERS, s, r\<lparr>headers := hs, rbuf := cut\<rparr>))
                else Some (Inr (s, r\<lparr>headers := hs\<rparr>)))))"

definition header_step ::
    "'e drv_env \<Rightarrow> Driver \<Rightarrow> Sock \<times> Request \<Rightarrow> (SockState \<times> Sock \<times> Request + Sock \<times> Request) option" where
  "header_step E drv = (\<lambda>(s, r).
     (case next_line r of
        None \<Rightarrow> Some (Inl (SOCK_MORE, s, r))
      | Some k \<Rightarrow>
          (let s = line_too_long drv k (s, r);
               line = take k (drop (roff r) (rbuf r));
               line = (if line \<noteq> [] \<and> last line = CHR 0x0D then butlast line else line);
               e = roff r + length line;
               r = r\<lparr>roff := roff r + k + 1, avail := avail r - (k + 1)\<rparr>
           in if line = [] then Some (end_of_headers E drv (s, r)) else header_text E drv line e (s, r))))"

lemma next_line_avail: "next_line r = Some k \<Longrightarrow> k < avail r \<and> k < length (rbuf r) - roff r"
proof -
  let ?t = "take (avail r) (drop (roff r) (rbuf r))"
  assume "next_line r = Some k"
  then have t: "CHR 0x0A \<in> set ?t" "k = length (takeWhile (\<lambda>c. c \<noteq> CHR 0x0A) ?t)"
    by (auto simp: next_line_def Let_def split: if_splits)
  then obtain u v where "?t = u @ CHR 0x0A # v" "CHR 0x0A \<notin> set u" using split_list_first by metis
  then have "k < length ?t" using t(2) by (simp add: scan)
  then show ?thesis by simp
qed

lemma header_text_avail: "header_text E drv line e (s, r) = Some (Inr (s', r')) \<Longrightarrow> avail r' = avail r"
  by (auto simp: header_text_def Let_def split: if_splits Ns_ReturnCode.splits prod.splits sum.splits)

lemma request_framing_avail: "request_framing drv (s, r) = Inr (s', r') \<Longrightarrow> avail r' = avail r"
  by (auto simp: request_framing_def Let_def split: if_splits option.splits)

lemma end_of_headers_avail: "end_of_headers E drv (s, r) = Inr (s', r') \<Longrightarrow> avail r' = avail r"
  by (auto simp: end_of_headers_def EndOfHeader_def Let_def dest!: request_framing_avail
      split: if_splits Ns_ReturnCode.splits prod.splits sum.splits)

lemma header_step_avail:
  assumes "header_step E drv (s, r) = Some (Inr (s', r'))"
  shows "avail r' < avail r"
proof -
  obtain k where k: "next_line r = Some k" using assms by (auto simp: header_step_def split: option.splits)
  then show ?thesis
    using assms next_line_avail [OF k]
    by (auto simp: header_step_def Let_def dest!: end_of_headers_avail header_text_avail split: if_splits)
qed

text \<open>The loop over the lines, until the content starts.\<close>

function header_lines :: "'e drv_env \<Rightarrow> Driver \<Rightarrow> Sock \<Rightarrow> Request \<Rightarrow> (SockState \<times> Sock \<times> Request + Sock \<times> Request) option" where
  "header_lines E drv s r =
     (if coff r = 0 then
        (case header_step E drv (s, r) of
           None \<Rightarrow> None
         | Some (Inl res) \<Rightarrow> Some (Inl res)
         | Some (Inr (s, r)) \<Rightarrow> header_lines E drv s r)
      else Some (Inr (s, r)))"
  by pat_completeness auto
termination
  by (relation "measure (\<lambda>(E, drv, s, r). avail r)") (auto dest: header_step_avail)

declare header_lines.simps [simp del]

text \<open>The byte behind the content is saved and overwritten with NUL, in the buffer or in the mapped file.\<close>

definition terminate_content :: "Sock \<times> Request \<Rightarrow> (Sock \<times> Request) option" where
  "terminate_content = (\<lambda>(s, r).
     if rlength r = 0 then Some (s, r)
     else case content r of
       C_Null \<Rightarrow> None
     | C_Buf i \<Rightarrow>
         if i + rlength r > length (rbuf r) then None
         else Some (s, r\<lparr>savedChar := at0 (rbuf r) (i + rlength r), rbuf := set0 (rbuf r) (i + rlength r)\<rparr>)
     | C_Map \<Rightarrow>
         (case taddr s of
            None \<Rightarrow> None
          | Some m \<Rightarrow>
              if rlength r \<ge> length m then None
              else Some (s\<lparr>taddr := Some (set0 m (rlength r))\<rparr>, r\<lparr>savedChar := m ! rlength r\<rparr>)))"

text \<open>All bytes have arrived: where the content is. A failure to map the file is recorded and does not end the function.\<close>

definition content_ready :: "sock_io \<Rightarrow> Sock \<times> Request \<Rightarrow> (SockState \<times> Sock \<times> Request) option" where
  "content_ready io = (\<lambda>(s, r).
     if tfile s then Some (SOCK_READY, s, r\<lparr>content := C_Null, avail := 0\<rparr>)
     else
       (let (st, s, r) =
          (case tfd s of
             Some f \<Rightarrow>
               (let f = (if io_write io then f @ [NUL_char] else f)
                in if io_mmap io then (SOCK_READY, s\<lparr>tfd := Some f, taddr := Some f\<rparr>, r\<lparr>content := C_Map\<rparr>)
                   else (SOCK_ERROR, s\<lparr>tfd := Some f, taddr := None\<rparr>, r))
           | None \<Rightarrow> (SOCK_READY, s, r\<lparr>content := C_Buf (coff r)\<rparr>))
        in map_option (\<lambda>(s, r). (st, s, r)) (terminate_content (s, r))))"

definition body_parse :: "sock_io \<Rightarrow> Sock \<times> Request \<Rightarrow> (SockState \<times> Sock \<times> Request) option" where
  "body_parse io = (\<lambda>(s, r).
     if chunkStartOff r \<noteq> 0 then
       (case ChunkedDecode True r of
          None \<Rightarrow> None
        | Some (st, r) \<Rightarrow>
            (let n = chunkWriteOff r - coff r
             in if st = SOCK_MORE \<and> \<not> (expectedLength r \<noteq> 0 \<and> n \<ge> expectedLength r) then Some (SOCK_MORE, s, r)
                else if st \<noteq> SOCK_MORE \<and> st \<noteq> SOCK_READY then Some (st, s, r)
                else if avail r < n then Some (SOCK_MORE, s, r\<lparr>rlength := n\<rparr>)
                else content_ready io (s, r\<lparr>rlength := n\<rparr>)))
     else if avail r < rlength r then Some (SOCK_MORE, s, r)
     else content_ready io (s, r))"

definition SockParse :: "'e drv_env \<Rightarrow> Driver \<Rightarrow> sock_io \<Rightarrow> Sock \<times> Request \<Rightarrow> (SockState \<times> Sock \<times> Request) option" where
  "SockParse E drv io = (\<lambda>(s, r).
     (case header_lines E drv s r of
        None \<Rightarrow> None
      | Some (Inl res) \<Rightarrow> Some res
      | Some (Inr (s, r)) \<Rightarrow>
          if rq_line (request r) = None then Some (SOCK_BADREQUEST, s, r) else body_parse io (s, r)))"

subsection \<open>Reading\<close>

definition RequestNew :: Request where
  "RequestNew = empty_request"

definition NsSockEnsureRequest :: "Request option \<Rightarrow> Request" where
  "NsSockEnsureRequest ro = (case ro of Some r \<Rightarrow> r | None \<Rightarrow> RequestNew)"

text \<open>
  How many bytes to read: \<open>None\<close> when an unsigned difference would be negative, \<open>Some None\<close> when the limit of the input is
  reached.
\<close>

definition read_size :: "Driver \<Rightarrow> Request \<Rightarrow> nat option option" where
  "read_size drv r =
     (if rlength r \<noteq> 0 \<and> rlength r < avail r then None
      else
        (let nread = (if rlength r = 0 then bufsize drv else rlength r - avail r);
             buflen = length (rbuf r)
         in if buflen + nread > maxinput drv then
              (if maxinput drv < buflen then None else if maxinput drv = buflen then Some None else Some (Some (maxinput drv - buflen)))
            else Some (Some nread)))"

text \<open>Large contents go to a temporary file, which starts with the part of the content that is already in the buffer.\<close>

definition spool_start :: "Driver \<Rightarrow> sock_io \<Rightarrow> bool \<Rightarrow> Sock \<times> Request \<Rightarrow> SockState \<times> Sock \<times> Request + Sock \<times> Request" where
  "spool_start drv io spooler = (\<lambda>(s, r).
     if coff r > 0 \<and> chunkStartOff r = 0 \<and> rlength r > readahead drv \<and> tfd s = None then
       (if \<not> spooler \<and> spooler_threads drv > 0 then Inl (SOCK_SPOOL, s, r)
        else
          (let s = (if maxupload drv > 0 \<and> rlength r > maxupload drv then s\<lparr>tfile := True\<rparr> else s)
           in if \<not> io_temp io then Inl (SOCK_ERROR, s, r)
              else if \<not> io_write io then Inl (SOCK_WRITEERROR, s\<lparr>tfd := Some []\<rparr>, r)
              else Inr (s\<lparr>tfd := Some (drop (coff r) (rbuf r))\<rparr>, r\<lparr>rbuf := []\<rparr>)))
     else Inr (s, r))"

text \<open>
  The bytes are stored behind the ones that are there, in the file or in the buffer; there at \<^verbatim>\<open>woff\<close>, which is \<open>None\<close> when this
  is not the end of the buffer (\<open>buflen\<close>). Then the bytes are parsed.
\<close>

definition received ::
    "'e drv_env \<Rightarrow> Driver \<Rightarrow> sock_io \<Rightarrow> nat \<Rightarrow> string \<Rightarrow> Sock \<times> Request \<Rightarrow> (SockState \<times> Sock \<times> Request) option" where
  "received E drv io buflen data = (\<lambda>(s, r).
     (let parse = (\<lambda>(s, r).
            (let r = r\<lparr>woff := woff r + length data, avail := avail r + length data\<rparr>
             in if drv_noparse drv then Some (SOCK_READY, s, r) else SockParse E drv io (s, r)))
      in case tfd s of
           Some f \<Rightarrow> if io_write io then parse (s\<lparr>tfd := Some (f @ data)\<rparr>, r) else Some (SOCK_WRITEERROR, s, r)
         | None \<Rightarrow> if woff r \<noteq> buflen then None else parse (s, r\<lparr>rbuf := take buflen (rbuf r) @ data\<rparr>)))"

text \<open>
  What the driver reports decides; older drivers report no state. When there is nothing to read the buffer is set back to its former
  length, with the bytes \<open>reset\<close>.
\<close>

definition recv_result ::
    "'e drv_env \<Rightarrow> Driver \<Rightarrow> sock_io \<Rightarrow> nat \<Rightarrow> string \<Rightarrow> string option \<Rightarrow> Sock \<times> Request \<Rightarrow> (SockState \<times> Sock \<times> Request) option" where
  "recv_result E drv io buflen reset data = (\<lambda>(s, r).
     (let again = r\<lparr>rbuf := reset\<rparr>
      in case io_state io of
           NS_SOCK_AGAIN \<Rightarrow> Some (SOCK_MORE, s, again)
         | NS_SOCK_DONE \<Rightarrow> Some (SOCK_CLOSE, s, r)
         | NS_SOCK_READ \<Rightarrow> (case data of None \<Rightarrow> None | Some b \<Rightarrow> received E drv io buflen b (s, r))
         | NS_SOCK_NONE \<Rightarrow>
             (case data of
                None \<Rightarrow> Some (if io_errno0 io then SOCK_CLOSE else SOCK_READERROR, s, again)
              | Some b \<Rightarrow> if b = [] then Some (SOCK_MORE, s, again) else received E drv io buflen b (s, r))
         | _ \<Rightarrow> Some (SOCK_READERROR, s, r)))"

definition SockRead ::
    "'e drv_env \<Rightarrow> Driver \<Rightarrow> sock_io \<Rightarrow> bool \<Rightarrow> Sock \<times> Request option \<Rightarrow> (SockState \<times> Sock \<times> Request) option" where
  "SockRead E drv io spooler = (\<lambda>(s, ro).
     (let r = NsSockEnsureRequest ro;
          buf = rbuf r
      in case read_size drv r of
           None \<Rightarrow> None
         | Some None \<Rightarrow> Some (SOCK_ERROR, s, r)
         | Some (Some nread) \<Rightarrow>
             (case spool_start drv io spooler (s, r) of
                Inl res \<Rightarrow> Some res
              | Inr (s, r) \<Rightarrow>
                  if leftover r > 0 then
                    recv_result E drv io 0 [] (Some (take (leftover r) (rbuf r))) (s, r\<lparr>leftover := 0\<rparr>)
                  else
                    (let n = (if tfd s = None then nread else min nread 16384);
                         reset = (if rbuf r = buf then buf else NUL_char # tl buf)
                     in recv_result E drv io (length (rbuf r)) reset (io_recv io n) (s, r)))))"

subsection \<open>The end of a request\<close>

text \<open>
  The bytes of the next request are moved to the front of the buffer, whose first byte may have been overwritten by the NUL behind the content. The
  request stays with the socket only when there are such bytes.
\<close>

definition RequestFree :: "Sock \<times> Request \<Rightarrow> (Sock \<times> Request option) option" where
  "RequestFree = (\<lambda>(s, r).
     (let keeps = (keep s \<and> avail r > contentLength r);
          left = avail r - contentLength r;
          bytes = drop (length (rbuf r) - left) (rbuf r);
          bytes = (if savedChar r \<noteq> NUL_char then savedChar r # tl bytes else bytes);
          hs = Ns_SetTrunc (headers r) 0;
          rq = (if rq_line (request r) \<noteq> None then Ns_ResetRequest (request r) else request r);
          r' = r\<lparr>request := rq, headers := hs, content := C_Null, rlength := 0, contentLength := 0, avail := 0, expectedLength := 0,
                 chunkStartOff := 0, chunkWriteOff := 0, woff := 0, roff := 0, coff := 0, savedChar := NUL_char,
                 leftover := left, rbuf := bytes\<rparr>
      in if keeps then (if left > length (rbuf r) then None else Some (s\<lparr>poolPtr := None\<rparr>, Some r'))
         else Some (s\<lparr>poolPtr := None\<rparr>, None)))"

text \<open>
  \<^verbatim>\<open>SockClose\<close>: the driver has a say in whether the socket is kept (\<open>driver_keep\<close>); the spool file goes in either case. Then
  \<^verbatim>\<open>NsSockClose\<close> frees the request and hands the socket back to the driver thread.
\<close>

definition SockClose :: "bool \<Rightarrow> int \<Rightarrow> Sock \<Rightarrow> Sock" where
  "SockClose driver_keep k s = s\<lparr>keep := (k \<noteq> 0 \<and> driver_keep), tfile := False, tfd := None, taddr := None\<rparr>"

definition NsSockClose :: "bool \<Rightarrow> int \<Rightarrow> Sock \<times> Request option \<Rightarrow> (Sock \<times> Request option) option" where
  "NsSockClose driver_keep k = (\<lambda>(s, ro).
     (let s = SockClose driver_keep k s in case ro of Some r \<Rightarrow> RequestFree (s, r) | None \<Rightarrow> Some (s, None)))"

subsection \<open>Strict numbers and codings\<close>

definition dec_value :: "nat \<Rightarrow> cstring \<Rightarrow> nat" where
  "dec_value v ds = foldl (\<lambda>v c. 10 * v + (byte_of c - 48)) v ds"

lemma dec_value_mono: "v \<le> dec_value v ds"
proof (induction ds arbitrary: v)
  case (Cons c ds)
  from this [of "10 * v + (byte_of c - 48)"] show ?case by (simp add: dec_value_def)
qed (simp add: dec_value_def)

lemma digit_overflow:
  fixes v d :: "64 word"
  assumes "unat d < 10"
  shows "v > (- 1 - d) div 10 \<longleftrightarrow> 10 * unat v + unat d \<ge> 2 ^ 64"
proof -
  have "unat (- 1 - d) = 2 ^ 64 - 1 - unat d"
    using unat_sub [of d "- 1"] by (simp add: unsigned_minus_1_eq_mask mask_eq_exp_minus_1)
  then have "unat ((- 1 - d) div 10) = (2 ^ 64 - 1 - unat d) div 10" by (simp add: unat_div)
  then have "v > (- 1 - d) div 10 \<longleftrightarrow> unat v > (2 ^ 64 - 1 - unat d) div 10" by (simp add: word_less_nat_alt)
  moreover have "(N - 1 - e) div 10 < w \<longleftrightarrow> N \<le> 10 * w + e" if "e < 10" "10 \<le> N" for e w N :: nat
    using that by (auto simp: div_less_iff_less_mult)
  from this [of "unat d" "2 ^ 64" "unat v"] have "(2 ^ 64 - 1 - unat d) div 10 < unat v \<longleftrightarrow> 2 ^ 64 \<le> 10 * unat v + unat d"
    using assms by simp
  ultimately show ?thesis by (simp only:)
qed

lemma strict_digits_eq:
  "strict_digits s v =
     (let w = dec_value (unat v) (takeWhile c_isdigit s)
      in if w < 2 ^ 64 then Some (word_of_nat w, dropWhile c_isdigit s) else None)"
proof (induction s arbitrary: v)
  case (Cons c s)
  show ?case
  proof (cases "c_isdigit c")
    case True
    let ?d = "word_of_nat (byte_of c - 48) :: 64 word"
    have "unat (word_of_nat n :: 64 word) = n" if "n < 10" for n using that by (simp add: unat_of_nat)
    moreover have "byte_of c - 48 < 10" using True by (auto simp: c_isdigit_def)
    ultimately have d: "unat ?d = byte_of c - 48" "unat ?d < 10" by metis+
    have w: "dec_value (unat v) (takeWhile c_isdigit (c # s)) = dec_value (10 * unat v + unat ?d) (takeWhile c_isdigit s)"
      using True d(1) by (simp add: dec_value_def)
    show ?thesis
    proof (cases "v > (- 1 - ?d) div 10")
      case True
      then have "dec_value (10 * unat v + unat ?d) (takeWhile c_isdigit s) \<ge> 2 ^ 64"
        using digit_overflow [OF d(2)] dec_value_mono order_trans by blast
      then show ?thesis using True \<open>c_isdigit c\<close> w by (simp add: Let_def)
    next
      case False
      then have "10 * unat v + unat ?d < 2 ^ 64" using digit_overflow [OF d(2), of v] by simp
      then have "unat (v * 10 + ?d) = 10 * unat v + unat ?d" by (simp add: unat_word_ariths mult.commute)
      then show ?thesis using Cons [of "v * 10 + ?d"] False \<open>c_isdigit c\<close> w by (simp add: Let_def)
    qed
  qed (use unsigned_less [of v] in \<open>simp add: dec_value_def Let_def\<close>)
next
  case (Nil v)
  show ?case using unsigned_less [of v] by (simp add: dec_value_def Let_def)
qed

text \<open>A number is accepted exactly when it is a non-empty run of digits, with white space around it, whose value fits in 64 bits.\<close>

definition strict_number :: "cstring \<Rightarrow> nat \<Rightarrow> bool" where
  "strict_number s n \<longleftrightarrow>
     (\<exists>b ds c. s = b @ ds @ c \<and> list_all c_isspace b \<and> list_all c_isspace c \<and> list_all c_isdigit ds \<and> ds \<noteq> []
        \<and> n = dec_value 0 ds \<and> n < 2 ^ 64)"

lemma skip_spaces_split: "s = takeWhile c_isspace s @ skip_spaces s" "skip_spaces s = [] \<longleftrightarrow> list_all c_isspace s"
  "list_all c_isspace (takeWhile c_isspace s)"
  by (auto simp: skip_spaces_def list_all_iff dropWhile_eq_Nil_conv dest: set_takeWhileD)

lemma digit_not_space: "c_isdigit c \<Longrightarrow> \<not> c_isspace c"
  by (auto simp: c_isdigit_def c_isspace_def)

lemma ParseStrictContentLength_iff: "ParseStrictContentLength s = Some n \<longleftrightarrow> strict_number s n"
proof
  assume a: "ParseStrictContentLength s = Some n"
  let ?t = "skip_spaces s"
  have t: "?t \<noteq> []" "dec_value 0 (takeWhile c_isdigit ?t) < 2 ^ 64" "skip_spaces (dropWhile c_isdigit ?t) = []"
      "n = unat (word_of_nat (dec_value 0 (takeWhile c_isdigit ?t)) :: 64 word)"
    using a by (auto simp: ParseStrictContentLength_def strict_digits_eq Let_def split: if_splits)
  have "takeWhile c_isdigit ?t \<noteq> []"
  proof
    assume "takeWhile c_isdigit ?t = []"
    then have "dropWhile c_isdigit ?t = ?t" by (metis append_Nil takeWhile_dropWhile_id)
    then have "skip_spaces ?t = []" using t(3) by simp
    then show False using t(1) by (simp add: skip_spaces_def)
  qed
  moreover have "s = takeWhile c_isspace s @ takeWhile c_isdigit ?t @ dropWhile c_isdigit ?t" by (metis skip_spaces_split(1) takeWhile_dropWhile_id)
  moreover have "list_all c_isdigit (takeWhile c_isdigit ?t)" by (auto simp: list_all_iff dest: set_takeWhileD)
  moreover have "n = dec_value 0 (takeWhile c_isdigit ?t)" using t(2,4) by (simp add: unat_of_nat)
  ultimately show "strict_number s n" unfolding strict_number_def using t(2,3) skip_spaces_split(2,3) by metis
next
  assume "strict_number s n"
  then obtain b ds c where s: "s = b @ ds @ c" "list_all c_isspace b" "list_all c_isspace c" "list_all c_isdigit ds" "ds \<noteq> []"
      "n = dec_value 0 ds" "n < 2 ^ 64" unfolding strict_number_def by blast
  have "\<not> c_isspace (hd (ds @ c))" "ds @ c \<noteq> []" using s(4,5) digit_not_space by (cases ds; simp)+
  then have t: "skip_spaces s = ds @ c" using s(1,2) by (simp add: scan list_all_iff)
  have "c = [] \<or> \<not> c_isdigit (hd c)" using s(3) digit_not_space by (cases c) auto
  then have "takeWhile c_isdigit (ds @ c) = ds" "dropWhile c_isdigit (ds @ c) = c"
    using s(4) by (cases c; auto simp: list_all_iff takeWhile_append dropWhile_append)+
  then show "ParseStrictContentLength s = Some n"
    using t s(3,5-7) skip_spaces_split(2) by (simp add: ParseStrictContentLength_def strict_digits_eq Let_def unat_of_nat)
qed

text \<open>The only transfer coding is \<^verbatim>\<open>chunked\<close>, in any case and with white space around it.\<close>

definition chunked_coding :: "cstring \<Rightarrow> bool" where
  "chunked_coding s \<longleftrightarrow>
     (\<exists>b t c. s = b @ t @ c \<and> list_all c_isspace b \<and> list_all c_isspace c \<and> map c_tolower t = ''chunked'')"

lemma tolower_space: "c_isspace c \<Longrightarrow> c_tolower c = c"
  by (auto simp: c_isspace_def c_tolower_def c_isupper_def)

lemma ParseRequestTransferEncoding_iff: "ParseRequestTransferEncoding s \<longleftrightarrow> chunked_coding s"
proof
  assume "ParseRequestTransferEncoding s"
  then have "map c_tolower (takeWhile (\<lambda>c. \<not> c_isspace c) (skip_spaces s)) = ''chunked''"
      "skip_spaces (dropWhile (\<lambda>c. \<not> c_isspace c) (skip_spaces s)) = []"
    by (simp_all add: ParseRequestTransferEncoding_def TransferCodingTokenEqual_def strcasecmp_eq_0_iff c_tolower_def c_isupper_def Let_def)
  then show "chunked_coding s"
    unfolding chunked_coding_def by (metis skip_spaces_split takeWhile_dropWhile_id)
next
  assume "chunked_coding s"
  then obtain b t c where s: "s = b @ t @ c" "list_all c_isspace b" "list_all c_isspace c" "map c_tolower t = ''chunked''"
    unfolding chunked_coding_def by (elim exE conjE) (rule that; assumption)
  have x: "c_tolower x \<in> set ''chunked''" if "x \<in> set t" for x using s(4) that by (metis image_eqI list.set_map)
  have ns: "\<not> c_isspace x \<and> x \<noteq> CHR '';'' \<and> x \<noteq> CHR '',''" if "x \<in> set t" for x
  proof -
    have "list_all (\<lambda>x. \<not> c_isspace x) ''chunked''" by (simp add: c_isspace_def)
    then have "\<not> c_isspace x" if "x \<in> set ''chunked''" for x using that unfolding list_all_iff by blast
    then have "\<not> c_isspace x" using x [OF that] tolower_space [of x] by metis
    moreover have "c_tolower (CHR '';'') \<notin> set ''chunked''" "c_tolower (CHR '','') \<notin> set ''chunked''"
      by (simp_all add: c_tolower_def c_isupper_def)
    ultimately show ?thesis using x [OF that] by metis
  qed
  have "t \<noteq> []" using s(4) by auto
  then have "skip_spaces s = t @ c" using s(1,2) ns by (cases t) (simp_all add: scan list_all_iff)
  moreover have "takeWhile (\<lambda>c. \<not> c_isspace c) (t @ c) = t" "dropWhile (\<lambda>c. \<not> c_isspace c) (t @ c) = c"
    using s(3) ns by (cases c; auto simp: list_all_iff takeWhile_append dropWhile_append)+
  moreover have "length t = length ''chunked''" using s(4) by (metis length_map)
  moreover have "strcasecmp t ''chunked'' = 0" using s(4) by (simp add: strcasecmp_eq_0_iff c_tolower_def c_isupper_def)
  ultimately show "ParseRequestTransferEncoding s"
    using ns s(3) skip_spaces_split(2) by (auto simp: ParseRequestTransferEncoding_def TransferCodingTokenEqual_def Let_def)
qed

subsection \<open>Singleton fields\<close>

definition field_values :: "ns_set \<Rightarrow> cstring \<Rightarrow> cstring option list" where
  "field_values hs k = map fvalue (filter (\<lambda>f. lower (fname f) = k) (set_fields hs))"

lemma Ns_SetIGet_values:
  assumes "set_wf hs" "lower k = k"
  shows "Ns_SetIGet hs k = (case field_values hs k of [] \<Rightarrow> None | v # _ \<Rightarrow> v)"
proof -
  have "find P xs = (case filter P xs of [] \<Rightarrow> None | x # _ \<Rightarrow> Some x)" for P and xs :: "set_field list" by (induction xs) auto
  moreover have "Ns_SetIGet hs k = (case find (\<lambda>f. lower (fname f) = k) (set_fields hs) of Some f \<Rightarrow> fvalue f | None \<Rightarrow> None)"
    using setifind.get_by_find [OF assms(1), of k] assms(2) unfolding get_by_Ns_SetGet matches_def ikey_canon_def by simp
  ultimately show ?thesis by (simp add: field_values_def split: list.split)
qed

text \<open>The table is sorted, so the search may stop early.\<close>

lemma singleton_search_sorted:
  assumes "sorted_wrt (\<lambda>a b. strcmp (fst a) (fst b) < 0) tab" "\<forall>(sn, x) \<in> set tab. lower sn = sn \<and> sn \<noteq> []"
  shows "singleton_search tab nm = find (\<lambda>(sn, x). sn = lower nm) tab"
  using assms
proof (induction tab)
  case (Cons e tab)
  obtain sn x where e: "e = (sn, x)" by force
  have sn: "lower sn = sn" "sn \<noteq> []" using Cons.prems(2) e by auto
  have c: "strcasecmp sn nm = strcmp sn (lower nm)" using sn(1) by (simp add: strcasecmp_def)
  have fc: "sn = lower nm \<Longrightarrow> c_tolower (first_char nm) = first_char sn" by (cases nm) (simp_all add: first_char_def c_tolower_def c_isupper_def)
  have IH: "singleton_search tab nm = find (\<lambda>(sn, x). sn = lower nm) tab" using Cons by simp
  have "find (\<lambda>(sn, x). sn = lower nm) tab = None" if "strcmp sn (lower nm) > 0"
  proof -
    have "strcmp sn (fst b) < 0" if "b \<in> set tab" for b using Cons.prems(1) e that by auto
    then have "fst b \<noteq> lower nm" if "b \<in> set tab" for b using that \<open>strcmp sn (lower nm) > 0\<close> by fastforce
    then show ?thesis by (force simp: find_None_iff)
  qed
  then show ?case using e c fc IH by auto
qed simp

lemma singleton_search_eq:
  "singleton_search singletonRequestHeaderFields nm = find (\<lambda>(sn, x). sn = lower nm) singletonRequestHeaderFields"
proof (rule singleton_search_sorted)
  show "sorted_wrt (\<lambda>a b. strcmp (fst a) (fst b) < 0) singletonRequestHeaderFields" by code_simp
  show "\<forall>(sn, x) \<in> set singletonRequestHeaderFields. lower sn = sn \<and> sn \<noteq> []" by code_simp
qed

definition singleton_keys :: "set_field list \<Rightarrow> cstring list" where
  "singleton_keys fs = filter (\<lambda>k. k \<in> fst ` set singletonRequestHeaderFields) (map (\<lambda>f. lower (fname f)) fs)"

lemma find_singleton:
  "find (\<lambda>(sn, x). sn = k) singletonRequestHeaderFields = map_option (Pair k) (map_of singletonRequestHeaderFields k)"
proof -
  have "find (\<lambda>(sn, x). sn = k) tab = map_option (Pair k) (map_of tab k)" for tab :: "(cstring \<times> NsExtractedHeaderIndex) list"
    by (induction tab) auto
  then show ?thesis .
qed

lemma singleton_fields_ok:
  "fst (singleton_fields fs counts ex) = NS_OK \<longleftrightarrow> distinct (singleton_keys fs) \<and> set (singleton_keys fs) \<inter> set counts = {}"
proof (induction fs arbitrary: counts ex)
  case (Cons f fs)
  let ?k = "lower (fname f)"
  show ?case
  proof (cases "map_of singletonRequestHeaderFields ?k")
    case None
    then have "?k \<notin> fst ` set singletonRequestHeaderFields" by (simp add: map_of_eq_None_iff)
    then show ?thesis using Cons None by (simp add: singleton_search_eq find_singleton singleton_keys_def)
  next
    case (Some x)
    then have "?k \<in> fst ` set singletonRequestHeaderFields" by (metis domI dom_map_of_conv_image_fst)
    then have "singleton_keys (f # fs) = ?k # singleton_keys fs" by (simp add: singleton_keys_def)
    then show ?thesis using Cons Some by (auto simp: singleton_search_eq find_singleton)
  qed
qed (simp add: singleton_keys_def)

lemma singleton_fields_extract:
  assumes "fst (singleton_fields fs counts ex) = NS_OK" "map_of singletonRequestHeaderFields k = Some x" "x \<noteq> NS_EXTRACTED_NONE"
    and "\<And>k'. map_of singletonRequestHeaderFields k' = Some x \<Longrightarrow> k' = k"
  shows "snd (singleton_fields fs counts ex) x = (case map fvalue (filter (\<lambda>f. lower (fname f) = k) fs) of [] \<Rightarrow> ex x | v # _ \<Rightarrow> v)"
  using assms(1)
proof (induction fs arbitrary: counts ex)
  case (Cons f fs)
  let ?k = "lower (fname f)"
  show ?case
  proof (cases "map_of singletonRequestHeaderFields ?k")
    case None
    then have "?k \<noteq> k" using assms(2) by auto
    then show ?thesis using Cons None by (simp add: singleton_search_eq find_singleton)
  next
    case (Some y)
    let ?ex = "if y \<noteq> NS_EXTRACTED_NONE then ex(y := fvalue f) else ex"
    have step: "singleton_fields (f # fs) counts ex = singleton_fields fs (?k # counts) ?ex"
      using Some Cons.prems by (auto simp: singleton_search_eq find_singleton split: if_splits)
    then have ok: "fst (singleton_fields fs (?k # counts) ?ex) = NS_OK" using Cons.prems by simp
    note IH = Cons.IH [OF ok]
    show ?thesis
    proof (cases "?k = k")
      case True
      then have y: "y = x" using Some assms(2) by simp
      have "k \<in> fst ` set singletonRequestHeaderFields" using assms(2) by (metis domI dom_map_of_conv_image_fst)
      moreover have "k \<notin> set (singleton_keys fs)" using ok True by (simp add: singleton_fields_ok)
      ultimately have "filter (\<lambda>f. lower (fname f) = k) fs = []" by (auto simp: singleton_keys_def filter_empty_conv)
      then show ?thesis using IH True y assms(3) unfolding step by (simp add: fun_upd_def)
    next
      case False
      then have "y \<noteq> x" using Some assms(4) by blast
      then show ?thesis using IH False unfolding step by (auto split: list.splits)
    qed
  qed
qed simp

subsection \<open>Framing of the body\<close>

text \<open>What the header says about the body, read from its fields: nothing, a length, or the chunked coding.\<close>

datatype framing = B_None | B_Sized nat | B_Chunked

fun framed :: "ns_set \<Rightarrow> framing \<Rightarrow> bool" where
  "framed hs B_None \<longleftrightarrow> field_values hs ''content-length'' = [] \<and> field_values hs ''transfer-encoding'' = []"
| "framed hs (B_Sized n) \<longleftrightarrow>
     (\<exists>v. field_values hs ''content-length'' = [Some v] \<and> strict_number v n) \<and> field_values hs ''transfer-encoding'' = []"
| "framed hs B_Chunked \<longleftrightarrow>
     (\<exists>v. field_values hs ''transfer-encoding'' = [Some v] \<and> chunked_coding v) \<and> field_values hs ''content-length'' = []"

definition expected_ok :: "ns_set \<Rightarrow> bool" where
  "expected_ok hs \<longleftrightarrow> field_values hs ''transfer-encoding'' = []
     \<or> (case Ns_SetIGet hs ''x-expected-entity-length'' of None \<Rightarrow> True | Some v \<Rightarrow> \<exists>n > 0. strict_number v n)"

fun body_state :: "framing \<Rightarrow> Request \<Rightarrow> Request \<Rightarrow> bool" where
  "body_state B_None r r' \<longleftrightarrow> rlength r' = rlength r \<and> contentLength r' = contentLength r \<and> chunkStartOff r' = 0"
| "body_state (B_Sized n) r r' \<longleftrightarrow> rlength r' = n \<and> contentLength r' = n \<and> chunkStartOff r' = 0"
| "body_state B_Chunked r r' \<longleftrightarrow> rlength r' = 0 \<and> contentLength r' = 0 \<and> chunkStartOff r' = roff r \<and> chunkWriteOff r' = roff r"

lemma singleton_once:
  assumes "distinct (singleton_keys (set_fields hs))" "k \<in> fst ` set singletonRequestHeaderFields"
  shows "field_values hs k = [] \<or> (\<exists>v. field_values hs k = [v])"
proof -
  have "length (filter (\<lambda>f. lower (fname f) = k) fs) \<le> 1" if "distinct (singleton_keys fs)" for fs
    using that
  proof (induction fs)
    case (Cons f fs)
    show ?case
    proof (cases "lower (fname f) = k")
      case True
      then have "k \<notin> set (singleton_keys fs)" using Cons.prems assms(2) by (simp add: singleton_keys_def)
      then have "filter (\<lambda>f. lower (fname f) = k) fs = []" using assms(2) by (auto simp: singleton_keys_def filter_empty_conv)
      then show ?thesis by simp
    qed (use Cons in \<open>simp add: singleton_keys_def split: if_splits\<close>)
  qed simp
  from this [OF assms(1)] show ?thesis
    by (cases "filter (\<lambda>f. lower (fname f) = k) (set_fields hs)") (auto simp: field_values_def)
qed

lemma table_entries:
  "map_of singletonRequestHeaderFields ''content-length'' = Some NS_EXTRACTED_HEADER_CONTENT_LENGTH"
  "map_of singletonRequestHeaderFields k = Some NS_EXTRACTED_HEADER_CONTENT_LENGTH \<Longrightarrow> k = ''content-length''"
  "''content-length'' \<in> fst ` set singletonRequestHeaderFields" "''transfer-encoding'' \<in> fst ` set singletonRequestHeaderFields"
  by (simp_all add: singletonRequestHeaderFields_def split: if_splits)

lemma CheckSingletonHeaderFields_spec:
  assumes "CheckSingletonHeaderFields hs s = (st, s')"
  shows "st = NS_OK \<longleftrightarrow> distinct (singleton_keys (set_fields hs))" "st = NS_OK \<or> st = NS_ERROR"
    and "st = NS_OK \<Longrightarrow> extractedHeaderFields s' NS_EXTRACTED_HEADER_CONTENT_LENGTH =
          (case field_values hs ''content-length'' of [] \<Rightarrow> None | v # _ \<Rightarrow> v)"
    and "\<exists>ex. s' = s\<lparr>extractedHeaderFields := ex\<rparr>"
proof -
  obtain ex where r: "singleton_fields (set_fields hs) [] (\<lambda>_. None) = (st, ex)" "s' = s\<lparr>extractedHeaderFields := ex\<rparr>"
    using assms by (auto simp: CheckSingletonHeaderFields_def split: prod.splits)
  show "st = NS_OK \<longleftrightarrow> distinct (singleton_keys (set_fields hs))"
    using singleton_fields_ok [of "set_fields hs" "[]" "\<lambda>_. None"] r(1) by simp
  have "fst (singleton_fields fs c e) = NS_OK \<or> fst (singleton_fields fs c e) = NS_ERROR" for fs c e
    by (induction fs arbitrary: c e) (auto split: option.splits)
  then show "st = NS_OK \<or> st = NS_ERROR" using r(1) by (metis fst_conv)
  show "\<exists>ex. s' = s\<lparr>extractedHeaderFields := ex\<rparr>" using r(2) by blast
  assume "st = NS_OK"
  then show "extractedHeaderFields s' NS_EXTRACTED_HEADER_CONTENT_LENGTH =
      (case field_values hs ''content-length'' of [] \<Rightarrow> None | v # _ \<Rightarrow> v)"
    using singleton_fields_extract [OF _ table_entries(1) _ table_entries(2), of "set_fields hs" "[]" "\<lambda>_. None"] r
    by (simp add: field_values_def)
qed

lemma lower_names: "lower ''content-length'' = ''content-length''" "lower ''transfer-encoding'' = ''transfer-encoding''"
  by (simp_all add: c_tolower_def c_isupper_def)

text \<open>The framing of a header without repeated fields, all of which have a value.\<close>

lemma request_framing_spec:
  assumes "distinct (singleton_keys (set_fields (headers r)))" "set_wf (headers r)"
    and "\<forall>f \<in> set (set_fields (headers r)). fvalue f \<noteq> None" "chunkStartOff r = 0"
    and "extractedHeaderFields s NS_EXTRACTED_HEADER_CONTENT_LENGTH =
          (case field_values (headers r) ''content-length'' of [] \<Rightarrow> None | v # _ \<Rightarrow> v)"
  shows "(\<exists>x. request_framing drv (s, r) = Inr x) \<longleftrightarrow> (\<exists>f. framed (headers r) f) \<and> expected_ok (headers r)"
    and "framed (headers r) f \<Longrightarrow> request_framing drv (s, r) = Inr (s', r') \<Longrightarrow> body_state f r r'"
proof -
  have tev: "Ns_SetIGet (headers r) ''transfer-encoding'' = (case field_values (headers r) ''transfer-encoding'' of [] \<Rightarrow> None | v # _ \<Rightarrow> v)"
    using Ns_SetIGet_values [OF assms(2) lower_names(2)] .
  have v: "None \<notin> set (field_values (headers r) k)" for k using assms(3) by (auto simp: field_values_def)
  have once: "field_values (headers r) k = [] \<or> (\<exists>v. field_values (headers r) k = [Some v])"
    if "k \<in> fst ` set singletonRequestHeaderFields" for k
    using singleton_once [OF assms(1) that] v [of k] by (metis list.set_intros(1) not_None_eq)
  have num: "\<And>v n. ParseStrictContentLength v = Some n \<longleftrightarrow> strict_number v n" by (rule ParseStrictContentLength_iff)
  have none: "\<And>v. ParseStrictContentLength v = None \<longleftrightarrow> (\<nexists>n. strict_number v n)" using num by (metis not_None_eq)
  have uniq: "\<And>v n m. strict_number v n \<Longrightarrow> strict_number v m \<Longrightarrow> n = m" using num by (metis option.inject)
  have ex: "(\<exists>f. framed hs f) \<longleftrightarrow> framed hs B_None \<or> (\<exists>n. framed hs (B_Sized n)) \<or> framed hs B_Chunked" for hs
    by (metis framing.exhaust)
  consider (both) c t where "field_values (headers r) ''content-length'' = [Some c]" "field_values (headers r) ''transfer-encoding'' = [Some t]"
    | (cl) c where "field_values (headers r) ''content-length'' = [Some c]" "field_values (headers r) ''transfer-encoding'' = []"
    | (te) t where "field_values (headers r) ''content-length'' = []" "field_values (headers r) ''transfer-encoding'' = [Some t]"
    | (no) "field_values (headers r) ''content-length'' = []" "field_values (headers r) ''transfer-encoding'' = []"
    using once [OF table_entries(3)] once [OF table_entries(4)] by blast
  then show "(\<exists>x. request_framing drv (s, r) = Inr x) \<longleftrightarrow> (\<exists>f. framed (headers r) f) \<and> expected_ok (headers r)"
  proof cases
    case both
    then have "\<not> framed (headers r) f" for f by (cases f) simp_all
    then show ?thesis using both by (simp add: request_framing_def tev assms(5))
  next
    case cl
    then have "(\<exists>f. framed (headers r) f) \<longleftrightarrow> (\<exists>n. strict_number c n)" unfolding ex by simp
    moreover have "(\<exists>x. request_framing drv (s, r) = Inr x) \<longleftrightarrow> ParseStrictContentLength c \<noteq> None"
      using cl by (auto simp: request_framing_def tev assms(5) split: option.splits)
    ultimately show ?thesis using cl none by (simp add: expected_ok_def)
  next
    case te
    then have "(\<exists>f. framed (headers r) f) \<longleftrightarrow> chunked_coding t" unfolding ex by simp
    moreover have "(\<exists>x. request_framing drv (s, r) = Inr x) \<longleftrightarrow> chunked_coding t \<and> expected_ok (headers r)"
      using te by (auto simp: request_framing_def Let_def tev assms(5) expected_ok_def num none ParseRequestTransferEncoding_iff split: option.split dest: uniq)
    ultimately show ?thesis by simp
  next
    case no
    then have "\<exists>f. framed (headers r) f" unfolding ex by simp
    then show ?thesis using no by (simp add: request_framing_def tev assms(5) expected_ok_def)
  qed
  assume f: "framed (headers r) f" "request_framing drv (s, r) = Inr (s', r')"
  show "body_state f r r'"
  proof (cases f)
    case B_None
    then show ?thesis using f assms(4) by (simp add: request_framing_def tev assms(5))
  next
    case (B_Sized n)
    then obtain c where "field_values (headers r) ''content-length'' = [Some c]" "ParseStrictContentLength c = Some n"
        "field_values (headers r) ''transfer-encoding'' = []" using f(1) num by auto
    then show ?thesis using f(2) assms(4) B_Sized by (auto simp: request_framing_def tev assms(5))
  next
    case B_Chunked
    then obtain t where "field_values (headers r) ''transfer-encoding'' = [Some t]" "field_values (headers r) ''content-length'' = []"
        using f(1) by auto
    then show ?thesis using f(2) B_Chunked by (auto simp: request_framing_def Let_def tev assms(5) split: if_splits option.splits)
  qed
qed

lemma EndOfHeader_framing:
  assumes "EndOfHeader E drv (s, r) = (st, s', r')"
  obtains s1 r1 where "r1 = r\<lparr>coff := roff r, chunkStartOff := 0, chunkWriteOff := 0, expectedLength := 0\<rparr>"
    "extractedHeaderFields s1 = extractedHeaderFields s"
    "st = SOCK_READY \<and> (\<exists>s2. request_framing drv (s1, r1) = Inr (s2, r')) \<or> st = SOCK_BADREQUEST \<and> request_framing drv (s1, r1) = Inl (s', r')"
proof -
  define r1 where "r1 = r\<lparr>coff := roff r, chunkStartOff := 0, chunkWriteOff := 0, expectedLength := 0\<rparr>"
  define s1 where "s1 = set_flag NS_CONN_ENTITYTOOLARGE False (set_flag NS_CONN_CONTINUE (expects_continue s) s)"
  have "extractedHeaderFields s1 = extractedHeaderFields s" by (simp add: s1_def set_flag_def)
  moreover have "st = SOCK_READY \<and> (\<exists>s2. request_framing drv (s1, r1) = Inr (s2, r')) \<or> st = SOCK_BADREQUEST \<and> request_framing drv (s1, r1) = Inl (s', r')"
    using assms by (cases "request_framing drv (s1, r1)") (auto simp: EndOfHeader_def Let_def r1_def [symmetric] s1_def [symmetric] split: prod.splits)
  ultimately show ?thesis using that r1_def by blast
qed

text \<open>The state that comes out of the end of the header.\<close>

definition outcome :: "SockState \<times> Sock \<times> Request + Sock \<times> Request \<Rightarrow> SockState \<times> Sock \<times> Request" where
  "outcome res = (case res of Inl x \<Rightarrow> x | Inr x \<Rightarrow> (SOCK_READY, x))"

text \<open>
  C7. The framing of an accepted request is unambiguous. A request is refused exactly when a field that must be unique is repeated, when its
  content length is not a plain number below \<open>2 ^ 64\<close>, its transfer coding is not exactly \<^verbatim>\<open>chunked\<close>, both are given, or the expected
  length of a chunked body is not a positive number; otherwise the length of the body is the number or the decoder of chunks starts
  behind the header.
\<close>

theorem accepted_framing:
  assumes "outcome (end_of_headers E drv (s, r)) = (st, s', r')" "set_wf (headers r)"
    and "\<forall>f \<in> set (set_fields (headers r)). fvalue f \<noteq> None"
  shows "(st = SOCK_BADREQUEST \<longleftrightarrow>
      \<not> (distinct (singleton_keys (set_fields (headers r))) \<and> (\<exists>f. framed (headers r) f) \<and> expected_ok (headers r)))
    \<and> (st \<noteq> SOCK_BADREQUEST \<longrightarrow> (\<forall>f. framed (headers r) f \<longrightarrow> body_state f r r' \<and> coff r' = roff r))"
proof -
  obtain c s0 where c: "CheckSingletonHeaderFields (headers r) s = (c, s0)" by force
  note chk = CheckSingletonHeaderFields_spec [OF c]
  obtain st1 s2 r2 where e: "EndOfHeader E drv (s0, r) = (st1, s2, r2)" using prod_cases3 by blast
  obtain s1 r1 where f: "r1 = r\<lparr>coff := roff r, chunkStartOff := 0, chunkWriteOff := 0, expectedLength := 0\<rparr>"
      "extractedHeaderFields s1 = extractedHeaderFields s0"
      "st1 = SOCK_READY \<and> (\<exists>s2. request_framing drv (s1, r1) = Inr (s2, r2)) \<or> st1 = SOCK_BADREQUEST \<and> request_framing drv (s1, r1) = Inl (s2, r2)"
    by (rule EndOfHeader_framing [OF e])
  have refused: "c \<noteq> NS_OK \<Longrightarrow> st = SOCK_BADREQUEST" using assms(1) c chk(2) by (auto simp: end_of_headers_def outcome_def)
  have ok: "c = NS_OK \<Longrightarrow> (st = SOCK_BADREQUEST \<longleftrightarrow> st1 = SOCK_BADREQUEST) \<and> r' = r2"
    using assms(1) c e f(3) by (auto simp: end_of_headers_def outcome_def split: if_splits)
  have h: "headers r1 = headers r" "chunkStartOff r1 = 0" "roff r1 = roff r" "rlength r1 = rlength r" "contentLength r1 = contentLength r"
    using f(1) by simp_all
  have spec: "c = NS_OK \<Longrightarrow> (\<exists>x. request_framing drv (s1, r1) = Inr x) \<longleftrightarrow> (\<exists>f. framed (headers r) f) \<and> expected_ok (headers r)"
      "c = NS_OK \<Longrightarrow> framed (headers r) f \<Longrightarrow> request_framing drv (s1, r1) = Inr (s', r') \<Longrightarrow> body_state f r1 r'" for f s' r'
    using request_framing_spec [where r = r1 and s = s1 and drv = drv] assms(2,3) h(1,2) f(2) chk(1,3) by simp_all
  have "st = SOCK_BADREQUEST \<longleftrightarrow>
      \<not> (distinct (singleton_keys (set_fields (headers r))) \<and> (\<exists>f. framed (headers r) f) \<and> expected_ok (headers r))"
    using refused ok spec(1) chk(1) f(3) by (cases "c = NS_OK") auto
  moreover have "body_state f r r' \<and> coff r' = roff r" if a: "st \<noteq> SOCK_BADREQUEST" "framed (headers r) f" for f
  proof -
    have c: "c = NS_OK" using refused a by blast
    then obtain s3 where s3: "request_framing drv (s1, r1) = Inr (s3, r')" using ok a(1) f(3) by auto
    then have "body_state f r1 r'" using spec(2) a(2) c by blast
    moreover have "coff r' = coff r1" using s3 by (auto simp: request_framing_def Let_def split: option.splits if_splits)
    ultimately show ?thesis using f(1) by (cases f) simp_all
  qed
  ultimately show ?thesis by blast
qed

definition plain_drv_env :: "unit drv_env" where
  "plain_drv_env = \<lparr>de_url = plain_env, de_strtod = version_number, de_pton4 = (\<lambda>_. None), de_pton6 = (\<lambda>_. None),
     de_proxy = \<lparr>trustedservers = None, skipnonpublic = False\<rparr>\<rparr>"

definition small_driver :: Driver where
  "small_driver = \<lparr>bufsize = 64, maxinput = 1000, maxline = 200, maxheaders = 8, readahead = 10, maxupload = 0,
     spooler_threads = 0, drv_noparse = False\<rparr>"

definition plain_sock :: Sock where
  "plain_sock = \<lparr>peer = sa_zero, clientsa = sa_zero, sflags = 0, keep = True, extractedHeaderFields = (\<lambda>_. None), tfd = None,
     tfile = False, taddr = None, sent = [], poolPtr = None\<rparr>"

definition header_request :: "(cstring \<times> cstring) list \<Rightarrow> Request" where
  "header_request fs = empty_request\<lparr>headers := (headers empty_request)\<lparr>set_fields := map (\<lambda>(k, v). \<lparr>fname = k, fvalue = Some v\<rparr>) fs\<rparr>,
     roff := 50\<rparr>"

theorem accepted_framing_witness:
  "fst (outcome (end_of_headers plain_drv_env small_driver (plain_sock, header_request [(''content-length'', ''7''), (''transfer-encoding'', ''chunked'')])))
     = SOCK_BADREQUEST
   \<and> rlength (snd (snd (outcome (end_of_headers plain_drv_env small_driver (plain_sock, header_request [(''host'', ''h''), (''content-length'', '' 7'')])))))
     = 7"
proof -
  let ?r1 = "header_request [(''content-length'', ''7''), (''transfer-encoding'', ''chunked'')]"
  let ?r2 = "header_request [(''host'', ''h''), (''content-length'', '' 7'')]"
  obtain st s' r' where o1: "outcome (end_of_headers plain_drv_env small_driver (plain_sock, ?r1)) = (st, s', r')" using prod_cases3 by blast
  have w1: "set_wf (headers ?r1)" "\<forall>f \<in> set (set_fields (headers ?r1)). fvalue f \<noteq> None" by code_simp+
  have "field_values (headers ?r1) ''content-length'' \<noteq> []" "field_values (headers ?r1) ''transfer-encoding'' \<noteq> []" by code_simp+
  then have "\<not> framed (headers ?r1) f" for f by (cases f) simp_all
  then have 1: "st = SOCK_BADREQUEST" using accepted_framing [OF o1 w1] by blast
  obtain st2 s2 r2 where o2: "outcome (end_of_headers plain_drv_env small_driver (plain_sock, ?r2)) = (st2, s2, r2)" using prod_cases3 by blast
  have w2: "set_wf (headers ?r2)" "\<forall>f \<in> set (set_fields (headers ?r2)). fvalue f \<noteq> None" by code_simp+
  have v: "field_values (headers ?r2) ''content-length'' = [Some '' 7'']" "field_values (headers ?r2) ''transfer-encoding'' = []" by code_simp+
  have "ParseStrictContentLength '' 7'' = Some 7" by code_simp
  then have n: "framed (headers ?r2) (B_Sized 7)" using v by (simp add: ParseStrictContentLength_iff)
  have d: "distinct (singleton_keys (set_fields (headers ?r2)))" "expected_ok (headers ?r2)" using v(2) by (code_simp, simp add: expected_ok_def)
  have "st2 \<noteq> SOCK_BADREQUEST" using accepted_framing [OF o2 w2] n d by blast
  then have "rlength r2 = 7" using accepted_framing [OF o2 w2] n body_state.simps(2) by blast
  then show ?thesis using o1 o2 1 by simp
qed

end
