(* ===== verification/NsDriverRun.thy ===== *)
theory NsDriverRun
  imports NsDriver
begin

text \<open>
  Reading requests as bytes arrive. The parser of \<open>NsDriver\<close> is called again and again on a buffer that grows; what it makes of the bytes does
  not depend on how they were cut into pieces (\<open>SockParse_pieces\<close>), and the bytes behind a request are left for the next one
  (\<open>pipelined_request\<close>). The relation \<open>reading\<close> holds of the states between the calls of \<^verbatim>\<open>SockRead\<close>; no call leaves the memory of the request
  in any of them, and the content is the same whether it stays in the buffer or goes to a file (\<open>content_arrives\<close>).
\<close>

subsection \<open>More bytes arrive\<close>

definition input :: "string \<Rightarrow> Request \<Rightarrow> Request" where
  "input b r = r\<lparr>rbuf := rbuf r @ b, woff := woff r + length b, avail := avail r + length b\<rparr>"

lemma input_simps [simp]:
  "request (input b r) = request r" "headers (input b r) = headers r" "content (input b r) = content r" "rlength (input b r) = rlength r"
  "contentLength (input b r) = contentLength r" "avail (input b r) = avail r + length b" "expectedLength (input b r) = expectedLength r"
  "chunkStartOff (input b r) = chunkStartOff r" "chunkWriteOff (input b r) = chunkWriteOff r" "woff (input b r) = woff r + length b"
  "roff (input b r) = roff r" "coff (input b r) = coff r" "leftover (input b r) = leftover r" "rbuf (input b r) = rbuf r @ b"
  "savedChar (input b r) = savedChar r" "input [] r = r" "input b (input a r) = input (a @ b) r"
  by (simp_all add: input_def)

definition rd_inv :: "Request \<Rightarrow> bool" where
  "rd_inv r \<longleftrightarrow> roff r + avail r = length (rbuf r)"

lemma rd_inv_input: "rd_inv r \<Longrightarrow> rd_inv (input b r)"
  by (simp add: rd_inv_def)

abbreviation on_res :: "string \<Rightarrow> SockState \<times> Sock \<times> Request \<Rightarrow> SockState \<times> Sock \<times> Request" where
  "on_res b \<equiv> map_prod id (map_prod id (input b))"

abbreviation on_step :: "string \<Rightarrow> SockState \<times> Sock \<times> Request + Sock \<times> Request \<Rightarrow> SockState \<times> Sock \<times> Request + Sock \<times> Request" where
  "on_step b \<equiv> map_sum (on_res b) (map_prod id (input b))"

lemma next_line_input:
  assumes "rd_inv r" "next_line r = Some k"
  shows "next_line (input b r) = Some k"
proof -
  let ?t = "drop (roff r) (rbuf r)"
  have "take (avail r) ?t = ?t" "take (avail r + length b) (drop (roff r) (rbuf r @ b)) = ?t @ b" using assms(1) by (simp_all add: rd_inv_def)
  moreover from this obtain u v where "?t = u @ CHR 0x0A # v" "CHR 0x0A \<notin> set u"
    using assms(2) split_list_first [of "CHR 0x0A" ?t] by (auto simp: next_line_def Let_def split: if_splits)
  ultimately show ?thesis using assms(2) by (auto simp: next_line_def Let_def scan)
qed

lemma header_text_input:
  assumes "e < length (rbuf r)"
  shows "header_text E drv line e (s, input b r) = map_option (on_step b) (header_text E drv line e (s, r))"
proof -
  have "set0 (rbuf r @ b) e = set0 (rbuf r) e @ b" using assms by (simp add: set0_def list_update_append1)
  then show ?thesis
    by (auto simp: header_text_def Let_def input_def split: prod.split Ns_ReturnCode.split sum.split)
qed

lemma request_framing_input: "request_framing drv (s, input b r) = map_sum (map_prod id (input b)) (map_prod id (input b)) (request_framing drv (s, r))"
  by (auto simp: request_framing_def Let_def input_def split: option.split)

lemma EndOfHeader_input: "EndOfHeader E drv (s, input b r) = on_res b (EndOfHeader E drv (s, r))"
proof -
  have u: "(input b r)\<lparr>coff := x, chunkStartOff := 0, chunkWriteOff := 0, expectedLength := 0\<rparr>
      = input b (r\<lparr>coff := x, chunkStartOff := 0, chunkWriteOff := 0, expectedLength := 0\<rparr>)" for x
    by (simp add: input_def)
  have a: "accepted_compression E (input b r') = accepted_compression E r'" for r' unfolding accepted_compression_def fun_eq_iff input_simps by simp
  show ?thesis by (simp add: EndOfHeader_def Let_def u a request_framing_input split: sum.split)
qed

lemma end_of_headers_input: "end_of_headers E drv (s, input b r) = on_step b (end_of_headers E drv (s, r))"
  by (auto simp: end_of_headers_def EndOfHeader_input split: prod.split Ns_ReturnCode.split)

lemma header_step_input:
  assumes "rd_inv r" "next_line r \<noteq> None"
  shows "header_step E drv (s, input b r) = map_option (on_step b) (header_step E drv (s, r))"
proof -
  obtain k where k: "next_line r = Some k" using assms(2) by blast
  have kl: "k < length (rbuf r) - roff r" "k < avail r" using next_line_avail [OF k] by simp_all
  define line where "line = take k (drop (roff r) (rbuf r))"
  define ln where "ln = (if line \<noteq> [] \<and> last line = CHR 0x0D then butlast line else line)"
  define r1 where "r1 = r\<lparr>roff := roff r + k + 1, avail := avail r - (k + 1)\<rparr>"
  have t: "take k (drop (roff r) (rbuf (input b r))) = line" using kl by (simp add: line_def)
  have r1: "(input b r)\<lparr>roff := roff r + k + 1, avail := avail r + length b - (k + 1)\<rparr> = input b r1" using kl by (simp add: r1_def input_def)
  have "length ln \<le> k" by (auto simp: ln_def line_def)
  then have e: "roff r + length ln < length (rbuf r1)" using kl by (simp add: r1_def)
  have l: "line_too_long drv k (s, input b r) = line_too_long drv k (s, r)" by (simp add: line_too_long_def)
  have "header_step E drv (s, r) = (if ln = [] then Some (end_of_headers E drv (line_too_long drv k (s, r), r1))
      else header_text E drv ln (roff r + length ln) (line_too_long drv k (s, r), r1))"
    by (simp add: header_step_def k Let_def ln_def line_def r1_def)
  moreover have "header_step E drv (s, input b r) = (if ln = [] then Some (end_of_headers E drv (line_too_long drv k (s, r), input b r1))
      else header_text E drv ln (roff r + length ln) (line_too_long drv k (s, r), input b r1))"
    using next_line_input [OF assms(1) k, of b] t r1 l by (simp add: header_step_def Let_def ln_def del: input_simps(14))
  ultimately show ?thesis by (simp only: header_text_input [OF e] end_of_headers_input split: if_split) simp
qed

subsection \<open>The state between lines and in the body\<close>

definition head_inv :: "Request \<Rightarrow> bool" where
  "head_inv r \<longleftrightarrow> rd_inv r \<and> coff r = 0 \<and> rlength r = 0 \<and> contentLength r = 0 \<and> chunkStartOff r = 0 \<and> expectedLength r = 0
     \<and> savedChar r = NUL_char \<and> content r = C_Null"

definition body_inv :: "Request \<Rightarrow> bool" where
  "body_inv r \<longleftrightarrow> rd_inv r \<and> coff r = roff r \<and> coff r > 0 \<and> savedChar r = NUL_char \<and> content r = C_Null
     \<and> (chunkStartOff r = 0 \<and> expectedLength r = 0 \<and> rlength r = contentLength r
        \<or> chunkStartOff r \<noteq> 0 \<and> chunk_inv r \<and> coff r \<le> chunkWriteOff r \<and> contentLength r = 0 \<and> rlength r = 0)"

abbreviation same_files :: "Sock \<Rightarrow> Sock \<Rightarrow> bool" where
  "same_files s s' \<equiv> tfd s' = tfd s \<and> tfile s' = tfile s \<and> taddr s' = taddr s"

lemma input_inv: "head_inv r \<Longrightarrow> head_inv (input b r)" "body_inv r \<Longrightarrow> body_inv (input b r)"
  by (auto simp: head_inv_def body_inv_def rd_inv_input chunk_inv_def)

lemma put_value_cases:
  assumes "j < size_of hs" "j < maxSize hs"
  shows "Ns_SetPutValueSz hs j v n = Inr hs
    \<or> (\<exists>w. Ns_SetPutValueSz hs j v n = Inr (hs\<lparr>set_fields := (set_fields hs)[j := (set_fields hs ! j)\<lparr>fvalue := Some w\<rparr>]\<rparr>))"
proof -
  obtain c w where "Ns_SetPutValueSz hs j v n = (if c then Inr hs else Inr (hs\<lparr>set_fields := (set_fields hs)[j := (set_fields hs ! j)\<lparr>fvalue := Some w\<rparr>]\<rparr>))"
    using assms unfolding Ns_SetPutValueSz_def Let_def by simp
  then show ?thesis by (cases c) auto
qed

lemma Ns_ParseHeader_total:
  assumes "set_ok hs" "\<forall>f \<in> set (set_fields hs). fvalue f \<noteq> None"
  shows "\<exists>st i hs'. Ns_ParseHeader hs line prefix = Inr (st, i, hs') \<and> set_ok hs' \<and> (\<forall>f \<in> set (set_fields hs'). fvalue f \<noteq> None)"
proof (cases "line \<noteq> [] \<and> c_isspace (hd line)")
  case True
  let ?i = "size_of hs - 1" and ?l = "skip_spaces line"
  show ?thesis
  proof (cases "size_of hs = 0 \<or> ?l = []")
    case False
    define v where "v = (case fvalue (set_fields hs ! ?i) of Some v \<Rightarrow> v @ '' '' @ ?l | None \<Rightarrow> [])"
    have i: "?i < size_of hs" "\<not> ?i \<ge> maxSize hs" using False assms(1) by (auto simp: set_ok_def)
    obtain hs' w where h: "Ns_SetPutValueSz hs ?i v (Some (length v)) = Inr hs'"
        "hs' = hs \<or> hs' = hs\<lparr>set_fields := (set_fields hs)[?i := (set_fields hs ! ?i)\<lparr>fvalue := Some w\<rparr>]\<rparr>"
      using put_value_cases [OF i(1)] i(2) by (metis not_le)
    have "\<forall>f \<in> set (set_fields hs'). fvalue f \<noteq> None"
      using h(2) assms(2) set_update_subset_insert [of "set_fields hs" ?i "(set_fields hs ! ?i)\<lparr>fvalue := Some w\<rparr>"] by auto
    moreover have "Ns_ParseHeader hs line prefix = Inr (NS_OK, ?i, hs')" using True False h(1) by (auto simp: Ns_ParseHeader_def v_def Let_def)
    ultimately show ?thesis using put_value_ok [OF h(1) assms(1)] by blast
  qed (use True assms in \<open>auto simp: Ns_ParseHeader_def Let_def\<close>)
next
  case False
  define ln where "ln = (case prefix of Some p \<Rightarrow> p @ line | None \<Rightarrow> line)"
  show ?thesis
  proof (cases "strchr ln (CHR '':'')")
    case (Some sep)
    let ?put = "Ns_SetPutSz hs ln (Some sep) (Some (skip_spaces (drop (sep + 1) ln))) None"
    have "Ns_ParseHeader hs line prefix = Inr (NS_OK, fst ?put, snd ?put)"
      unfolding Ns_ParseHeader_def if_not_P [OF False] ln_def [symmetric] Let_def using Some by (simp add: case_prod_unfold)
    moreover have "\<forall>f \<in> set (set_fields (snd ?put)). fvalue f \<noteq> None" using assms(2) by (auto simp: Ns_SetPutSz_eq)
    ultimately show ?thesis using set_ok_put [OF assms(1)] by blast
  next
    case None
    then have "Ns_ParseHeader hs line prefix = Inr (NS_ERROR, 0, hs)"
      unfolding Ns_ParseHeader_def if_not_P [OF False] ln_def [symmetric] Let_def by simp
    then show ?thesis using assms by blast
  qed
qed

definition hdrs_ok :: "ns_set \<Rightarrow> bool" where
  "hdrs_ok hs \<longleftrightarrow> set_ok hs \<and> (\<forall>f \<in> set (set_fields hs). fvalue f \<noteq> None)"

definition same_store :: "Sock \<times> Request \<Rightarrow> Sock \<times> Request \<Rightarrow> bool" where
  "same_store x y \<longleftrightarrow> tfd (fst y) = tfd (fst x) \<and> tfile (fst y) = tfile (fst x) \<and> taddr (fst y) = taddr (fst x)
     \<and> woff (snd y) = woff (snd x) \<and> rbuf (snd y) = rbuf (snd x) \<and> leftover (snd y) = leftover (snd x)"

lemma same_store_trans: "same_store x y \<Longrightarrow> same_store y z \<Longrightarrow> same_store x z"
  by (simp add: same_store_def)

lemma same_store_refl [simp]: "same_store x x"
  by (simp add: same_store_def)

lemma header_text_inv:
  assumes "head_inv r" "roff r > 0" "hdrs_ok (headers r)"
  shows "\<exists>res. header_text E drv line e (s, r) = Some res \<and> (\<forall>x. res \<noteq> Inl (SOCK_MORE, x))
    \<and> (\<forall>s' r'. res = Inr (s', r') \<longrightarrow> (head_inv r' \<or> body_inv r') \<and> hdrs_ok (headers r') \<and> same_store (s, r) (s', r'))"
proof -
  obtain st i hs' where h: "Ns_ParseHeader (headers r) (c_str line) None = Inr (st, i, hs')" "hdrs_ok hs'"
    using Ns_ParseHeader_total assms(3) unfolding hdrs_ok_def by blast
  show ?thesis
  proof (cases "rq_line (request r) = None")
    case True
    obtain pst rq where p: "Ns_ParseRequest (de_url E) (de_strtod E) (request r) line = (pst, rq)" by force
    have "head_inv (r\<lparr>request := rq\<rparr>)" "body_inv (r\<lparr>request := rq, coff := roff r\<rparr>)"
      using assms(1,2) by (auto simp: head_inv_def body_inv_def rd_inv_def)
    then show ?thesis using True p assms(3) by (auto simp: header_text_def Let_def same_store_def split: Ns_ReturnCode.split)
  next
    case False
    have "head_inv (r\<lparr>headers := hs'\<rparr>)" using assms(1) by (simp add: head_inv_def rd_inv_def)
    then show ?thesis using False h by (auto simp: header_text_def Let_def same_store_def)
  qed
qed

lemma request_framing_inv:
  assumes "request_framing drv (s, r) = Inr (s', r')" "head_inv (r\<lparr>coff := 0\<rparr>)" "roff r > 0" "coff r = roff r"
  shows "body_inv r' \<and> headers r' = headers r \<and> same_store (s, r) (s', r')"
  using assms by (auto simp: request_framing_def Let_def head_inv_def body_inv_def rd_inv_def chunk_inv_def set_flag_def same_store_def split: option.splits if_splits)

lemma EndOfHeader_inv:
  assumes "EndOfHeader E drv (s, r) = (st, s', r')" "head_inv r" "roff r > 0"
  shows "st \<noteq> SOCK_MORE" "st = SOCK_READY \<Longrightarrow> body_inv r' \<and> headers r' = headers r \<and> same_store (s, r) (s', r')"
proof -
  define r1 where "r1 = r\<lparr>coff := roff r, chunkStartOff := 0, chunkWriteOff := 0, expectedLength := 0\<rparr>"
  define s1 where "s1 = set_flag NS_CONN_ENTITYTOOLARGE False (set_flag NS_CONN_CONTINUE (expects_continue s) s)"
  have e: "EndOfHeader E drv (s, r) = (case request_framing drv (s1, r1) of Inl (s, r) \<Rightarrow> (SOCK_BADREQUEST, s, r)
      | Inr (s, r) \<Rightarrow> (SOCK_READY, (accepted_compression E r s)\<lparr>clientsa :=
          DeterminePeerAddrFromHeaders (de_pton4 E) (de_pton6 E) (de_proxy E) (peer s) (clientsa s) (headers r)\<rparr>, r))"
    by (simp add: EndOfHeader_def Let_def r1_def s1_def)
  then show "st \<noteq> SOCK_MORE" using assms(1) by (auto split: sum.splits)
  assume st: "st = SOCK_READY"
  then obtain s2 where s2: "request_framing drv (s1, r1) = Inr (s2, r')" and s': "same_files s2 s'"
    using assms(1) e by (auto simp: accepted_compression_def set_flag_def split: sum.splits prod.splits)
  have "head_inv (r1\<lparr>coff := 0\<rparr>)" "roff r1 > 0" "coff r1 = roff r1" using assms(2,3) by (simp_all add: r1_def head_inv_def rd_inv_def)
  from request_framing_inv [OF s2 this] show "body_inv r' \<and> headers r' = headers r \<and> same_store (s, r) (s', r')"
    using s' by (simp add: r1_def s1_def set_flag_def same_store_def)
qed

lemma end_of_headers_inv:
  assumes "head_inv r" "roff r > 0" "hdrs_ok (headers r)"
  shows "(\<forall>x. end_of_headers E drv (s, r) \<noteq> Inl (SOCK_MORE, x))
    \<and> (\<forall>s' r'. end_of_headers E drv (s, r) = Inr (s', r') \<longrightarrow> body_inv r' \<and> hdrs_ok (headers r') \<and> same_store (s, r) (s', r'))"
proof -
  obtain c s0 where c: "CheckSingletonHeaderFields (headers r) s = (c, s0)" by force
  obtain ex where ex: "s0 = s\<lparr>extractedHeaderFields := ex\<rparr>" using CheckSingletonHeaderFields_spec(4) [OF c] by blast
  obtain st s2 r2 where e: "EndOfHeader E drv (s0, r) = (st, s2, r2)" using prod_cases3 by blast
  show ?thesis
    using EndOfHeader_inv [OF e assms(1,2)] assms(3) c e ex by (auto simp: end_of_headers_def same_store_def split: Ns_ReturnCode.splits if_splits)
qed

lemma header_step_inv:
  assumes "head_inv r" "hdrs_ok (headers r)"
  shows "\<exists>res. header_step E drv (s, r) = Some res \<and> (\<forall>s' r'. res = Inl (SOCK_MORE, s', r') \<longrightarrow> next_line r = None \<and> s' = s \<and> r' = r)
    \<and> (\<forall>s' r'. res = Inr (s', r') \<longrightarrow> (head_inv r' \<or> body_inv r') \<and> hdrs_ok (headers r') \<and> same_store (s, r) (s', r'))"
proof (cases "next_line r")
  case (Some k)
  define ln where "ln = (let line = take k (drop (roff r) (rbuf r)) in if line \<noteq> [] \<and> last line = CHR 0x0D then butlast line else line)"
  define r1 where "r1 = r\<lparr>roff := roff r + k + 1, avail := avail r - (k + 1)\<rparr>"
  define s1 where "s1 = line_too_long drv k (s, r)"
  have r1: "head_inv r1" "roff r1 > 0" "hdrs_ok (headers r1)"
    using assms next_line_avail [OF Some] by (auto simp: r1_def head_inv_def rd_inv_def)
  have st: "same_store (s, r) (s1, r1)" by (simp add: s1_def r1_def line_too_long_def same_store_def)
  have h: "header_step E drv (s, r) = (if ln = [] then Some (end_of_headers E drv (s1, r1)) else header_text E drv ln (roff r + length ln) (s1, r1))"
    by (simp add: header_step_def Some Let_def ln_def r1_def s1_def)
  show ?thesis
  proof (cases "ln = []")
    case True
    then have "header_step E drv (s, r) = Some (end_of_headers E drv (s1, r1))" using h by simp
    then show ?thesis using end_of_headers_inv [OF r1, of E drv s1] same_store_trans [OF st] by blast
  next
    case False
    then have "header_step E drv (s, r) = header_text E drv ln (roff r + length ln) (s1, r1)" using h by simp
    then show ?thesis using header_text_inv [OF r1, of E drv ln "roff r + length ln" s1] same_store_trans [OF st] by metis
  qed
qed (simp add: header_step_def)

text \<open>The loop over the lines ends, and says more is needed only in front of an incomplete line.\<close>

lemma header_lines_inv:
  assumes "head_inv r \<or> body_inv r" "hdrs_ok (headers r)"
  shows "\<exists>res. header_lines E drv s r = Some res
    \<and> (\<forall>s' r'. res = Inl (SOCK_MORE, s', r') \<longrightarrow> head_inv r' \<and> hdrs_ok (headers r') \<and> same_store (s, r) (s', r') \<and> next_line r' = None)
    \<and> (\<forall>s' r'. res = Inr (s', r') \<longrightarrow> body_inv r' \<and> hdrs_ok (headers r') \<and> same_store (s, r) (s', r'))"
  using assms
proof (induction E drv s r rule: header_lines.induct)
  case (1 E drv s r)
  show ?case
  proof (cases "coff r = 0")
    case True
    then have inv: "head_inv r" using 1(2) by (auto simp: body_inv_def)
    obtain res where res: "header_step E drv (s, r) = Some res"
        "\<forall>s' r'. res = Inl (SOCK_MORE, s', r') \<longrightarrow> next_line r = None \<and> s' = s \<and> r' = r"
        "\<forall>s' r'. res = Inr (s', r') \<longrightarrow> (head_inv r' \<or> body_inv r') \<and> hdrs_ok (headers r') \<and> same_store (s, r) (s', r')"
      using header_step_inv [OF inv 1(3)] by blast
    show ?thesis
    proof (cases res)
      case (Inl x)
      then show ?thesis using res(1,2) True inv 1(3) by (auto simp: header_lines.simps [of E drv s r])
    next
      case (Inr y)
      obtain s1 r1 where y: "y = (s1, r1)" by force
      have "header_lines E drv s r = header_lines E drv s1 r1" using res(1) Inr y True by (simp add: header_lines.simps [of E drv s r])
      moreover have r1: "head_inv r1 \<or> body_inv r1" "hdrs_ok (headers r1)" "same_store (s, r) (s1, r1)" using res(3) Inr y by blast+
      ultimately show ?thesis using 1(1) [OF True res(1) Inr y [symmetric] r1(1,2)] same_store_trans [OF r1(3)] by (elim exE) (auto 0 3)
    qed
  qed (use 1(2,3) in \<open>auto simp: header_lines.simps [of E drv s r] head_inv_def\<close>)
qed

subsection \<open>Parsing in pieces\<close>

lemma header_lines_input:
  assumes "head_inv r \<or> body_inv r" "hdrs_ok (headers r)" "header_lines E drv s r = Some res"
  shows "case res of Inl (SOCK_MORE, s', r') \<Rightarrow> header_lines E drv s (input b r) = header_lines E drv s' (input b r')
    | _ \<Rightarrow> header_lines E drv s (input b r) = Some (on_step b res)"
  using assms
proof (induction E drv s r rule: header_lines.induct)
  case (1 E drv s r)
  show ?case
  proof (cases "coff r = 0")
    case True
    then have inv: "head_inv r" "rd_inv r" using 1(2) by (auto simp: body_inv_def head_inv_def)
    obtain res1 where res: "header_step E drv (s, r) = Some res1"
        "\<forall>s' r'. res1 = Inl (SOCK_MORE, s', r') \<longrightarrow> next_line r = None \<and> s' = s \<and> r' = r"
        "\<forall>s' r'. res1 = Inr (s', r') \<longrightarrow> (head_inv r' \<or> body_inv r') \<and> hdrs_ok (headers r') \<and> same_store (s, r) (s', r')"
      using header_step_inv [OF inv(1) 1(3)] by blast
    show ?thesis
    proof (cases "next_line r = None")
      case None: True
      then have "res = Inl (SOCK_MORE, s, r)" using 1(4) True by (simp add: header_lines.simps [of E drv s r] header_step_def)
      then show ?thesis by simp
    next
      case False
      then have st: "header_step E drv (s, input b r) = Some (on_step b res1)" using header_step_input [OF inv(2) False, of E drv s b] res(1) by simp
      show ?thesis
      proof (cases res1)
        case (Inl x)
        then have "res = Inl x" using 1(4) res(1) True by (simp add: header_lines.simps [of E drv s r])
        moreover have "fst x \<noteq> SOCK_MORE" using res(2) False Inl by (cases x) auto
        moreover have "header_lines E drv s (input b r) = Some (on_step b (Inl x))"
          using st Inl True by (cases x) (simp add: header_lines.simps [of E drv s "input b r"])
        ultimately show ?thesis by (cases x) (auto split: SockState.splits)
      next
        case (Inr y)
        obtain s1 r1 where y: "y = (s1, r1)" by force
        have r1: "head_inv r1 \<or> body_inv r1" "hdrs_ok (headers r1)" using res(3) Inr y by blast+
        have "header_lines E drv s1 r1 = Some res" using 1(4) res(1) Inr y True by (simp add: header_lines.simps [of E drv s r])
        moreover have eq: "header_lines E drv s (input b r) = header_lines E drv s1 (input b r1)"
          using st Inr y True by (simp add: header_lines.simps [of E drv s "input b r"])
        ultimately show ?thesis using 1(1) [OF True res(1) Inr y [symmetric] r1] unfolding eq by blast
      qed
    qed
  next
    case False
    then have "res = Inr (s, r)" using 1(4) by (simp add: header_lines.simps [of E drv s r])
    then show ?thesis using False by (simp add: header_lines.simps [of E drv s "input b r"])
  qed
qed

text \<open>The decoder neither uses nor changes the offsets of the reader.\<close>

definition at_end :: "nat \<Rightarrow> nat \<Rightarrow> Request \<Rightarrow> Request" where
  "at_end a w r = r\<lparr>avail := a, woff := w\<rparr>"

lemma at_end_simps [simp]:
  "rbuf (at_end a w r) = rbuf r" "chunkStartOff (at_end a w r) = chunkStartOff r" "chunkWriteOff (at_end a w r) = chunkWriteOff r"
  "coff (at_end a w r) = coff r" "expectedLength (at_end a w r) = expectedLength r"
  "(at_end a w r)\<lparr>chunkStartOff := i\<rparr> = at_end a w (r\<lparr>chunkStartOff := i\<rparr>)"
  "(at_end a w r)\<lparr>rbuf := B, chunkWriteOff := j\<rparr> = at_end a w (r\<lparr>rbuf := B, chunkWriteOff := j\<rparr>)"
  by (simp_all add: at_end_def)

lemma write_chunk_upd: "write_chunk u d n (at_end a w r) = map_option (at_end a w) (write_chunk u d n r)"
  by (simp add: write_chunk_def option.map_comp comp_def)

lemma chunk_step_upd: "chunk_step u (at_end a w r) = map_option (map_sum (map_prod id (at_end a w)) (at_end a w)) (chunk_step u r)"
  by (auto simp: chunk_step_def write_chunk_upd option.map_comp comp_def Let_def split: option.split)

lemma ChunkedDecode_upd: "ChunkedDecode u (at_end a w r) = map_option (map_prod id (at_end a w)) (ChunkedDecode u r)"
proof (induction u r rule: ChunkedDecode.induct)
  case (1 u r)
  note unfold = ChunkedDecode.simps [of u r] ChunkedDecode.simps [of u "at_end a w r"] chunk_step_upd
  show ?case
  proof (cases "chunkStartOff r < length (rbuf r)")
    case True
    show ?thesis
    proof (cases "chunk_step u r")
      case (Some res)
      then show ?thesis using 1 [OF True Some] True by (cases res) (simp_all add: unfold id_def)
    qed (use True in \<open>simp add: unfold\<close>)
  qed (simp add: unfold)
qed

text \<open>It changes nothing but the buffer and its own two offsets, which only grow.\<close>

definition rest :: "Request \<Rightarrow> Request" where
  "rest r = r\<lparr>rbuf := [], chunkStartOff := 0, chunkWriteOff := 0\<rparr>"

lemma rest_simps [simp]: "rest (r\<lparr>rbuf := B\<rparr>) = rest r" "rest (r\<lparr>chunkStartOff := i\<rparr>) = rest r" "rest (r\<lparr>chunkWriteOff := i\<rparr>) = rest r"
  by (simp_all add: rest_def)

lemma rest_eqD:
  assumes "rest r' = rest r"
  shows "request r' = request r" "headers r' = headers r" "content r' = content r" "rlength r' = rlength r" "contentLength r' = contentLength r"
    "avail r' = avail r" "expectedLength r' = expectedLength r" "woff r' = woff r" "roff r' = roff r" "coff r' = coff r"
    "leftover r' = leftover r" "savedChar r' = savedChar r"
proof -
  have "request r = request (rest r)" "headers r = headers (rest r)" "content r = content (rest r)" "rlength r = rlength (rest r)"
    "contentLength r = contentLength (rest r)" "avail r = avail (rest r)" "expectedLength r = expectedLength (rest r)" "woff r = woff (rest r)"
    "roff r = roff (rest r)" "coff r = coff (rest r)" "leftover r = leftover (rest r)" "savedChar r = savedChar (rest r)" for r
    by (simp_all add: rest_def)
  then show "request r' = request r" "headers r' = headers r" "content r' = content r" "rlength r' = rlength r" "contentLength r' = contentLength r"
    "avail r' = avail r" "expectedLength r' = expectedLength r" "woff r' = woff r" "roff r' = roff r" "coff r' = coff r"
    "leftover r' = leftover r" "savedChar r' = savedChar r"
    using assms by metis+
qed

definition chunk_frame_ok :: "Request \<Rightarrow> Request \<Rightarrow> bool" where
  "chunk_frame_ok r r' \<longleftrightarrow> rest r' = rest r \<and> chunkWriteOff r \<le> chunkWriteOff r' \<and> chunkStartOff r \<le> chunkStartOff r'"

lemma write_chunk_frame: "write_chunk u d n r = Some r' \<Longrightarrow> chunk_frame_ok r r'"
  by (cases u) (auto simp: write_chunk_def chunk_frame_ok_def)

lemma chunk_step_frame:
  assumes "chunk_step u r = Some res" "res = Inl (st, r') \<or> res = Inr r'" "chunk_inv r"
  shows "chunk_frame_ok r r'"
proof -
  have i: "chunkStartOff r \<le> length (rbuf r)" using assms(3) by (simp add: chunk_inv_def)
  have up: "chunk_frame_ok r (r1\<lparr>chunkStartOff := i\<rparr>)" if "chunk_frame_ok r r1" "chunkStartOff r \<le> i" for r1 i
    using that by (simp add: chunk_frame_ok_def)
  have refl: "chunk_frame_ok r r" by (simp add: chunk_frame_ok_def)
  have t: "chunkStartOff r \<le> e" if "trailer_end (rbuf r) d = Some e" "chunkStartOff r \<le> d" for d e
    using that find_str_bounds(1) [of "rbuf r" d "CRLF @ CRLF"] by (fastforce simp: trailer_end_def split: if_splits)
  show ?thesis
  proof (cases "find_str (rbuf r) (chunkStartOff r) CRLF")
    case (Some p)
    then have p: "chunkStartOff r \<le> p" using find_str_bounds(1) by blast
    show ?thesis
      using assms(1,2) Some p t refl up [OF refl] up [OF write_chunk_frame]
      by (auto simp: chunk_step_def Let_def split: option.splits if_splits)
  qed (use assms refl in \<open>auto simp: chunk_step_def\<close>)
qed

lemma ChunkedDecode_frame: "ChunkedDecode u r = Some (st, r') \<Longrightarrow> chunk_inv r \<Longrightarrow> chunk_frame_ok r r'"
proof (induction u r rule: ChunkedDecode.induct)
  case (1 u r)
  show ?case
  proof (cases "chunkStartOff r < length (rbuf r)")
    case True
    obtain res where res: "chunk_step u r = Some res" using chunk_step_total [OF 1(3)] by blast
    show ?thesis
    proof (cases res)
      case (Inl x)
      then show ?thesis using 1(2,3) True res chunk_step_frame [OF res] by (cases x) (simp add: ChunkedDecode.simps [of u r])
    next
      case (Inr r1)
      then have "chunk_frame_ok r1 r'"
        using 1(1) [OF True res Inr] 1(2,3) True res chunk_step_inv(1) [OF res 1(3) Inr] by (simp add: ChunkedDecode.simps [of u r])
      moreover have "chunk_frame_ok r r1" using chunk_step_frame [OF res _ 1(3)] Inr by blast
      ultimately show ?thesis unfolding chunk_frame_ok_def by simp
    qed
  qed (use 1(2) in \<open>simp add: ChunkedDecode.simps [of u r] chunk_frame_ok_def\<close>)
qed

lemma input_eq: "input b r = at_end (avail r + length b) (woff r + length b) (feed b r)"
  by (simp add: input_def at_end_def feed_def)

text \<open>The chunked body: what the decoder leaves behind.\<close>

lemma body_chunk:
  assumes "body_inv r" "chunkStartOff r \<noteq> 0"
  obtains st r' where "ChunkedDecode True r = Some (st, r')" "rest r' = rest r" "chunkStartOff r' \<noteq> 0" "body_inv r'"
    "chunkWriteOff r' - coff r' \<le> avail r'" "length (rbuf r') = length (rbuf r)"
proof -
  have inv: "chunk_inv r" "rd_inv r" "coff r = roff r" "coff r \<le> chunkWriteOff r" using assms by (auto simp: body_inv_def)
  obtain st r' where r': "ChunkedDecode True r = Some (st, r')" "chunk_inv r'" "length (rbuf r') = length (rbuf r)"
    using ChunkedDecode_total [OF inv(1)] by blast
  have fr: "chunk_frame_ok r r'" using ChunkedDecode_frame [OF r'(1) inv(1)] .
  note eq = rest_eqD [of r' r]
  have "body_inv r'" "chunkStartOff r' \<noteq> 0" using fr assms r'(2,3) eq by (auto simp: chunk_frame_ok_def body_inv_def rd_inv_def)
  moreover have "chunkWriteOff r' - coff r' \<le> avail r'" using r'(2,3) inv(2,3) fr eq by (auto simp: chunk_frame_ok_def chunk_inv_def rd_inv_def)
  ultimately show ?thesis using that r'(1,3) fr by (auto simp: chunk_frame_ok_def)
qed

lemma content_ready_not_more: "content_ready io (s, r) = Some (st, x) \<Longrightarrow> st = SOCK_READY \<or> st = SOCK_ERROR"
  by (auto simp: content_ready_def Let_def split: if_splits option.splits)

lemma body_parse_more:
  assumes "body_parse io (s, r) = Some (SOCK_MORE, s', r')" "body_inv r"
  shows "s' = s" "rest r' = rest r" "body_inv r'" "length (rbuf r') = length (rbuf r)"
    "expectedLength r = 0 \<Longrightarrow> body_parse io' (s', input b r') = body_parse io' (s, input b r)"
    "chunkStartOff r = 0 \<Longrightarrow> r' = r \<and> avail r < rlength r"
proof -
  have "s' = s \<and> rest r' = rest r \<and> body_inv r' \<and> length (rbuf r') = length (rbuf r)
    \<and> (expectedLength r = 0 \<longrightarrow> body_parse io' (s', input b r') = body_parse io' (s, input b r)) \<and> (chunkStartOff r = 0 \<longrightarrow> r' = r \<and> avail r < rlength r)"
  proof (cases "chunkStartOff r = 0")
    case True
    then have "r' = r" "s' = s" "avail r < rlength r" using assms(1) content_ready_not_more [of io s r] by (auto simp: body_parse_def split: if_splits)
    then show ?thesis using assms(2) by simp
  next
    case False
    obtain st r1 where r1: "ChunkedDecode True r = Some (st, r1)" "rest r1 = rest r" "chunkStartOff r1 \<noteq> 0" "body_inv r1"
        "chunkWriteOff r1 - coff r1 \<le> avail r1" "length (rbuf r1) = length (rbuf r)"
      using body_chunk [OF assms(2) False] .
    have more: "r' = r1" "s' = s" "expectedLength r = 0 \<Longrightarrow> st = SOCK_MORE"
      using assms(1) r1(1,5) False rest_eqD(7) [OF r1(2)] content_ready_not_more [of io s "r1\<lparr>rlength := chunkWriteOff r1 - coff r1\<rparr>"]
      by (auto simp: body_parse_def Let_def split: if_splits)
    have "body_parse io' (s, input b r1) = body_parse io' (s, input b r)" if e: "expectedLength r = 0"
    proof -
      have "ChunkedDecode True (feed b r) = ChunkedDecode True (feed b r1)"
        using ChunkedDecode_more [OF _ _ e] r1(1) more(3) [OF e] assms(2) False by (auto simp: body_inv_def)
      then have "ChunkedDecode True (input b r) = ChunkedDecode True (input b r1)"
        unfolding input_eq ChunkedDecode_upd using rest_eqD(6,8) [OF r1(2)] by simp
      then show ?thesis using False r1(3) by (simp add: body_parse_def)
    qed
    then show ?thesis using more r1 False by simp
  qed
  then show "s' = s" "rest r' = rest r" "body_inv r'" "length (rbuf r') = length (rbuf r)"
    "expectedLength r = 0 \<Longrightarrow> body_parse io' (s', input b r') = body_parse io' (s, input b r)"
    "chunkStartOff r = 0 \<Longrightarrow> r' = r \<and> avail r < rlength r" by blast+
qed

lemma SockParse_split:
  assumes "SockParse E drv io (s, r) = Some (SOCK_MORE, s', r')" "head_inv r \<or> body_inv r" "hdrs_ok (headers r)"
  shows "head_inv r' \<or> body_inv r'" "hdrs_ok (headers r')" "same_files s s'" "woff r' = woff r" "leftover r' = leftover r" "length (rbuf r') = length (rbuf r)"
    "expectedLength r' = 0 \<Longrightarrow> SockParse E drv io' (s', input b r') = SockParse E drv io' (s, input b r)"
    "coff r' > 0 \<Longrightarrow> chunkStartOff r' = 0 \<Longrightarrow> avail r' < rlength r'" "chunkStartOff r' = 0 \<Longrightarrow> rbuf r' = rbuf r"
proof -
  obtain res where res: "header_lines E drv s r = Some res"
      "\<forall>s' r'. res = Inl (SOCK_MORE, s', r') \<longrightarrow> head_inv r' \<and> hdrs_ok (headers r') \<and> same_store (s, r) (s', r') \<and> next_line r' = None"
      "\<forall>s' r'. res = Inr (s', r') \<longrightarrow> body_inv r' \<and> hdrs_ok (headers r') \<and> same_store (s, r) (s', r')"
    using header_lines_inv [OF assms(2,3)] by blast
  note inp = header_lines_input [OF assms(2,3) res(1)]
  have "(head_inv r' \<or> body_inv r') \<and> hdrs_ok (headers r') \<and> same_files s s' \<and> woff r' = woff r \<and> leftover r' = leftover r
    \<and> length (rbuf r') = length (rbuf r)
    \<and> (expectedLength r' = 0 \<longrightarrow> SockParse E drv io' (s', input b r') = SockParse E drv io' (s, input b r))
    \<and> (coff r' > 0 \<longrightarrow> chunkStartOff r' = 0 \<longrightarrow> avail r' < rlength r') \<and> (chunkStartOff r' = 0 \<longrightarrow> rbuf r' = rbuf r)"
  proof (cases res)
    case (Inl x)
    then have x: "x = (SOCK_MORE, s', r')" using assms(1) res(1) by (simp add: SockParse_def)
    have "header_lines E drv s (input b r) = header_lines E drv s' (input b r')" using inp [of b] Inl x by simp
    moreover have "head_inv r'" "hdrs_ok (headers r')" "same_store (s, r) (s', r')" using res(2) Inl x by blast+
    ultimately show ?thesis by (simp add: SockParse_def same_store_def head_inv_def)
  next
    case (Inr y)
    obtain s1 r1 where y: "y = (s1, r1)" by force
    have r1: "body_inv r1" "hdrs_ok (headers r1)" "same_store (s, r) (s1, r1)" using res(3) Inr y by blast+
    have bp: "body_parse io (s1, r1) = Some (SOCK_MORE, s', r')" and ln: "rq_line (request r1) \<noteq> None"
      using assms(1) res(1) Inr y by (auto simp: SockParse_def split: if_splits)
    note b = body_parse_more [OF bp r1(1)]
    note eq = rest_eqD [OF b(2)]
    have "header_lines E drv s (input b r) = Some (Inr (s1, input b r1))" using inp [of b] Inr y by simp
    then have 1: "SockParse E drv io' (s, input b r) = body_parse io' (s1, input b r1)" using ln by (auto simp: SockParse_def)
    have "header_lines E drv s' (input b r') = Some (Inr (s', input b r'))" using b(3) by (simp add: header_lines.simps body_inv_def)
    then have 2: "SockParse E drv io' (s', input b r') = body_parse io' (s', input b r')" using ln eq(1) by (auto simp: SockParse_def)
    have c: "chunkStartOff r' = 0 \<Longrightarrow> chunkStartOff r1 = 0"
    proof -
      assume "chunkStartOff r' = 0"
      show "chunkStartOff r1 = 0"
      proof (rule ccontr)
        assume n: "chunkStartOff r1 \<noteq> 0"
        obtain st r2 where "ChunkedDecode True r1 = Some (st, r2)" "chunkStartOff r2 \<noteq> 0" using body_chunk [OF r1(1) n] by metis
        then show False
          using bp n \<open>chunkStartOff r' = 0\<close> content_ready_not_more [of io s1 "r2\<lparr>rlength := chunkWriteOff r2 - coff r2\<rparr>"]
          by (auto simp: body_parse_def Let_def split: if_splits)
      qed
    qed
    have "hdrs_ok (headers r')" using r1(2) eq(2) by simp
    moreover have "same_files s s' \<and> woff r' = woff r \<and> leftover r' = leftover r \<and> length (rbuf r') = length (rbuf r)"
      using r1(3) b(1,4) eq(8,11) by (simp add: same_store_def)
    moreover have "expectedLength r' = 0 \<longrightarrow> SockParse E drv io' (s', input b r') = SockParse E drv io' (s, input b r)"
      using b(5) eq(7) 1 2 by simp
    moreover have "chunkStartOff r' = 0 \<Longrightarrow> avail r' < rlength r' \<and> rbuf r' = rbuf r"
      using b(6) [OF c] r1(3) by (simp add: same_store_def)
    ultimately show ?thesis using b(3) by blast
  qed
  then show "head_inv r' \<or> body_inv r'" "hdrs_ok (headers r')" "same_files s s'" "woff r' = woff r" "leftover r' = leftover r" "length (rbuf r') = length (rbuf r)"
    "expectedLength r' = 0 \<Longrightarrow> SockParse E drv io' (s', input b r') = SockParse E drv io' (s, input b r)"
    "coff r' > 0 \<Longrightarrow> chunkStartOff r' = 0 \<Longrightarrow> avail r' < rlength r'" "chunkStartOff r' = 0 \<Longrightarrow> rbuf r' = rbuf r" by blast+
qed

text \<open>The end of parsing: the content is in the buffer when no file is open.\<close>

lemma content_ready_keeps:
  assumes "content_ready io (s, r) = Some (st, s', r')"
  shows "request r' = request r" "headers r' = headers r" "rlength r' = rlength r" "contentLength r' = contentLength r" "coff r' = coff r"
    "expectedLength r' = expectedLength r" "chunkStartOff r' = chunkStartOff r" "keep s' = keep s" "length (rbuf r') = length (rbuf r)"
  using assms
  by (auto simp: content_ready_def terminate_content_def Let_def set0_def split: if_splits option.splits content_ptr.splits)

lemma content_ready_buffer:
  assumes "tfd s = None" "\<not> tfile s" "rd_inv r" "coff r = roff r" "rlength r \<le> avail r"
  shows "content_ready io (s, r) = Some (SOCK_READY, s, if rlength r = 0 then r\<lparr>content := C_Buf (coff r)\<rparr>
    else r\<lparr>content := C_Buf (coff r), savedChar := at0 (rbuf r) (coff r + rlength r), rbuf := set0 (rbuf r) (coff r + rlength r)\<rparr>)"
  using assms by (auto simp: content_ready_def terminate_content_def rd_inv_def)

lemma body_parse_total:
  assumes "body_inv r" "tfd s = None" "\<not> tfile s"
  shows "\<exists>st s' r'. body_parse io (s, r) = Some (st, s', r') \<and> expectedLength r' = expectedLength r"
proof (cases "chunkStartOff r = 0")
  case True
  show ?thesis
  proof (cases "avail r < rlength r")
    case False
    then show ?thesis
      using content_ready_buffer [OF assms(2,3), of r io] assms(1) True by (auto simp: body_parse_def body_inv_def)
  qed (use True in \<open>simp add: body_parse_def\<close>)
next
  case False
  obtain st r1 where r1: "ChunkedDecode True r = Some (st, r1)" "rest r1 = rest r" "body_inv r1" "chunkWriteOff r1 - coff r1 \<le> avail r1"
    using body_chunk [OF assms(1) False] .
  let ?r = "r1\<lparr>rlength := chunkWriteOff r1 - coff r1\<rparr>"
  have "rd_inv ?r" "coff ?r = roff ?r" "rlength ?r \<le> avail ?r" using r1(3,4) by (auto simp: body_inv_def rd_inv_def)
  from content_ready_buffer [OF assms(2,3) this, of io] show ?thesis
    using r1(1) False rest_eqD(7) [OF r1(2)] by (auto simp: body_parse_def Let_def)
qed

lemma SockParse_total:
  assumes "head_inv r \<or> body_inv r" "hdrs_ok (headers r)" "tfd s = None" "\<not> tfile s"
  shows "\<exists>st s' r'. SockParse E drv io (s, r) = Some (st, s', r') \<and> (body_inv r \<longrightarrow> expectedLength r' = expectedLength r)"
proof -
  obtain res where res: "header_lines E drv s r = Some res"
      "\<forall>s' r'. res = Inr (s', r') \<longrightarrow> body_inv r' \<and> hdrs_ok (headers r') \<and> same_store (s, r) (s', r')"
    using header_lines_inv [OF assms(1,2)] by blast
  have b: "body_inv r \<Longrightarrow> res = Inr (s, r)" using res(1) by (simp add: header_lines.simps body_inv_def)
  show ?thesis
  proof (cases res)
    case (Inl x)
    then show ?thesis using res(1) b by (cases x) (auto simp: SockParse_def)
  next
    case (Inr y)
    obtain s1 r1 where y: "y = (s1, r1)" by force
    have "body_inv r1" "tfd s1 = None" "\<not> tfile s1" using res(2) Inr y assms(3,4) by (auto simp: same_store_def)
    from body_parse_total [OF this, of io] show ?thesis using res(1) Inr y b by (auto simp: SockParse_def)
  qed
qed

subsection \<open>Pieces\<close>

text \<open>Bytes arrive in pieces and the parser is called after each, until it gives a verdict; the pieces that have not been read are returned.\<close>

fun parse_pieces :: "'e drv_env \<Rightarrow> Driver \<Rightarrow> sock_io \<Rightarrow> Sock \<Rightarrow> Request \<Rightarrow> string list \<Rightarrow> (SockState \<times> Sock \<times> Request) option \<times> string list" where
  "parse_pieces E drv io s r [] = (Some (SOCK_MORE, s, r), [])"
| "parse_pieces E drv io s r (b # bs) =
     (case SockParse E drv io (s, input b r) of
        Some (st, s', r') \<Rightarrow> if st = SOCK_MORE then parse_pieces E drv io s' r' bs else (Some (st, s', r'), bs)
      | None \<Rightarrow> (None, bs))"

lemma SockParse_body: "SockParse E drv io (s, r) = Some (SOCK_MORE, s', r') \<Longrightarrow> body_inv r \<Longrightarrow> body_inv r'"
  by (rule body_parse_more(3) [of io s r s' r']) (auto simp: SockParse_def header_lines.simps [of E drv s r] body_inv_def split: if_splits)

lemma parse_pieces_concat:
  assumes "head_inv r \<or> body_inv r" "hdrs_ok (headers r)" "tfd s = None" "\<not> tfile s" "bs \<noteq> []"
    and "parse_pieces E drv io s r bs = (res, left)"
  shows "\<exists>st s' r' used. res = Some (st, s', r') \<and> (body_inv r \<longrightarrow> expectedLength r' = expectedLength r)
    \<and> (expectedLength r' = 0 \<longrightarrow> bs = used @ left \<and> SockParse E drv io (s, input (concat used) r) = Some (st, s', r'))"
  using assms
proof (induction bs arbitrary: s r)
  case (Cons b bs)
  have inv: "head_inv (input b r) \<or> body_inv (input b r)" "hdrs_ok (headers (input b r))" using Cons.prems(1,2) input_inv by auto
  obtain st s1 r1 where p: "SockParse E drv io (s, input b r) = Some (st, s1, r1)" "body_inv r \<longrightarrow> expectedLength r1 = expectedLength r"
    using SockParse_total [OF inv Cons.prems(3,4), of E drv io] input_inv(2) [of r b] by auto
  show ?case
  proof (cases "st = SOCK_MORE \<and> bs \<noteq> []")
    case False
    then have "res = Some (st, s1, r1)" "left = bs" using Cons.prems(6) p(1) by (auto split: if_splits)
    then show ?thesis using p by (intro exI [of _ st] exI [of _ s1] exI [of _ r1] exI [of _ "[b]"]) simp
  next
    case True
    have m: "SockParse E drv io (s, input b r) = Some (SOCK_MORE, s1, r1)" using p(1) True by simp
    note sp = SockParse_split [OF m inv]
    have pp: "parse_pieces E drv io s1 r1 bs = (res, left)" using Cons.prems(6) p(1) True by simp
    have f: "tfd s1 = None" "\<not> tfile s1" using sp(3) Cons.prems(3,4) by auto
    have ne: "bs \<noteq> []" using True by simp
    from Cons.IH [OF sp(1,2) f ne pp] obtain st' s' r' used where
      r': "res = Some (st', s', r')" "body_inv r1 \<longrightarrow> expectedLength r' = expectedLength r1"
        "expectedLength r' = 0 \<longrightarrow> bs = used @ left \<and> SockParse E drv io (s1, input (concat used) r1) = Some (st', s', r')"
      by (elim exE conjE) (rule that; assumption)
    have b1: "body_inv r \<longrightarrow> body_inv r1 \<and> expectedLength r1 = expectedLength r"
using p(2) SockParse_body [OF m] input_inv(2) by blast
    have e: "expectedLength r' = 0 \<Longrightarrow> expectedLength r1 = 0" using r'(2) sp(1) by (auto simp: head_inv_def)
    show ?thesis
    proof (intro exI [of _ st'] exI [of _ s'] exI [of _ r'] exI [of _ "b # used"] conjI impI)
      assume z: "expectedLength r' = 0"
      show "b # bs = (b # used) @ left" using r'(3) z by simp
      show "SockParse E drv io (s, input (concat (b # used)) r) = Some (st', s', r')"
        using sp(7) [OF e [OF z], of io "concat used"] r'(3) z by simp
    qed (use r'(1,2) b1 in auto)
  qed
qed simp

definition new_request :: "Request \<Rightarrow> bool" where
  "new_request r \<longleftrightarrow> head_inv r \<and> hdrs_ok (headers r) \<and> rbuf r = [] \<and> woff r = 0 \<and> leftover r = 0"

text \<open>
  C8. How the network cuts a request into pieces does not matter: called after each piece, the parser asks for more until it has a verdict, and the
  verdict and the state of socket and request are those of parsing all the bytes at once. It never leaves the buffer. (Not claimed for
  chunked bodies with an expected length, where the end of the input so far is taken for the end of the body.)
\<close>

theorem request_pieces:
  assumes "new_request r" "tfd s = None" "\<not> tfile s" "bs \<noteq> []" "parse_pieces E drv io s r bs = (res, left)"
  shows "\<exists>st s' r' used. res = Some (st, s', r')
    \<and> (expectedLength r' = 0 \<longrightarrow> bs = used @ left \<and> SockParse E drv io (s, input (concat used) r) = Some (st, s', r'))"
proof -
  have "head_inv r \<or> body_inv r" "hdrs_ok (headers r)" using assms(1) by (simp_all add: new_request_def)
  from parse_pieces_concat [OF this assms(2-5)] show ?thesis by (elim exE conjE) (intro exI conjI; assumption)
qed

definition good_io :: "string \<Rightarrow> sock_io" where
  "good_io b = \<lparr>io_state = NS_SOCK_READ, io_recv = (\<lambda>n. Some (take n b)), io_errno0 = True, io_temp = True, io_write = True, io_mmap = True\<rparr>"

definition post_pieces :: "string list" where
  "post_pieces = [''POST /a HTTP/1.'', ''1'' @ CRLF @ ''content-length: 2'', CRLF, CRLF @ ''a'', ''bGET'']"

lemma new_request_empty: "new_request empty_request"
  by code_simp

theorem request_pieces_witness:
  "SockParse plain_drv_env small_driver (good_io []) (plain_sock, input (concat post_pieces) empty_request)
     = fst (parse_pieces plain_drv_env small_driver (good_io []) plain_sock empty_request post_pieces)"
proof -
  let ?res = "parse_pieces plain_drv_env small_driver (good_io []) plain_sock empty_request post_pieces"
  have e: "case fst ?res of Some (st, s, r) \<Rightarrow> expectedLength r = 0 | None \<Rightarrow> False" "snd ?res = []" by code_simp+
  have f: "tfd plain_sock = None" "\<not> tfile plain_sock" "post_pieces \<noteq> []" by (simp_all add: plain_sock_def post_pieces_def)
  obtain st s' r' used where r: "fst ?res = Some (st, s', r')"
      "expectedLength r' = 0 \<longrightarrow> post_pieces = used @ snd ?res
        \<and> SockParse plain_drv_env small_driver (good_io []) (plain_sock, input (concat used) empty_request) = Some (st, s', r')"
    using request_pieces [OF new_request_empty f surjective_pairing [of ?res]] by (elim exE conjE) (rule that; assumption)
  moreover have "expectedLength r' = 0" using e(1) r(1) by simp
  ultimately show ?thesis unfolding r(1) e(2) append_Nil2 by metis
qed

subsection \<open>Pipelined requests\<close>

lemma EndOfHeader_result: "EndOfHeader E drv (s, r) = (st, x) \<Longrightarrow> st \<noteq> SOCK_SPOOL"
  by (auto simp: EndOfHeader_def Let_def split: sum.splits)

lemma header_step_not_ready: "header_step E drv (s, r) = Some (Inl (st, x)) \<Longrightarrow> st \<noteq> SOCK_READY \<and> st \<noteq> SOCK_SPOOL"
  by (auto simp: header_step_def header_text_def end_of_headers_def Let_def dest: EndOfHeader_result split: option.splits if_splits prod.splits sum.splits Ns_ReturnCode.splits)

lemma header_lines_not_ready: "header_lines E drv s r = Some (Inl (st, x)) \<Longrightarrow> st \<noteq> SOCK_READY \<and> st \<noteq> SOCK_SPOOL"
proof (induction E drv s r rule: header_lines.induct)
  case (1 E drv s r)
  then show ?case
    using header_step_not_ready [of E drv s r st x]
    by (auto simp: header_lines.simps [of E drv s r] split: if_splits option.splits sum.splits prod.splits)
qed

lemma chunk_step_result: "chunk_step u r = Some (Inl (st, r')) \<Longrightarrow> st \<in> {SOCK_MORE, SOCK_READY, SOCK_BADREQUEST}"
  by (auto simp: chunk_step_def Let_def split: option.splits if_splits)

lemma ChunkedDecode_result: "ChunkedDecode u r = Some (st, r') \<Longrightarrow> st \<in> {SOCK_MORE, SOCK_READY, SOCK_BADREQUEST}"
proof (induction u r rule: ChunkedDecode.induct)
  case (1 u r)
  then show ?case
    using chunk_step_result [of u r st r'] by (auto simp: ChunkedDecode.simps [of u r] split: if_splits option.splits sum.splits)
qed

lemma SockParse_result:
  assumes "SockParse E drv io (s, r) = Some (st, s', r')"
  shows "st \<noteq> SOCK_SPOOL"
proof -
  have "st \<noteq> SOCK_SPOOL" if "body_parse io (s1, r1) = Some (st, s', r')" for s1 r1
    using that by (auto simp: body_parse_def Let_def dest: content_ready_not_more ChunkedDecode_result split: if_splits option.splits)
  then show ?thesis
    using assms header_lines_not_ready [of E drv s r] by (auto simp: SockParse_def split: if_splits option.splits sum.splits)
qed

text \<open>What a complete request without chunks looks like before its content is marked.\<close>

lemma SockParse_ready:
  assumes "SockParse E drv io (s, r) = Some (SOCK_READY, s', r')" "chunkStartOff r' = 0"
    and "head_inv r \<or> body_inv r" "hdrs_ok (headers r)"
  obtains s1 r1 where "header_lines E drv s r = Some (Inr (s1, r1))" "rq_line (request r1) \<noteq> None" "body_inv r1" "chunkStartOff r1 = 0"
    "rlength r1 \<le> avail r1" "content_ready io (s1, r1) = Some (SOCK_READY, s', r')" "same_store (s, r) (s1, r1)" "hdrs_ok (headers r1)"
proof -
  obtain res where res: "header_lines E drv s r = Some res"
      "\<forall>s' r'. res = Inr (s', r') \<longrightarrow> body_inv r' \<and> hdrs_ok (headers r') \<and> same_store (s, r) (s', r')"
    using header_lines_inv [OF assms(3,4)] by blast
  have "\<nexists>x. res = Inl x" using res(1) assms(1) header_lines_not_ready [of E drv s r] by (auto simp: SockParse_def)
  then obtain s1 r1 where y: "res = Inr (s1, r1)" by (cases res) auto
  have r1: "body_inv r1" "hdrs_ok (headers r1)" "same_store (s, r) (s1, r1)" using res(2) y by blast+
  have bp: "body_parse io (s1, r1) = Some (SOCK_READY, s', r')" "rq_line (request r1) \<noteq> None"
    using assms(1) res(1) y by (auto simp: SockParse_def split: if_splits)
  have c: "chunkStartOff r1 = 0"
  proof (rule ccontr)
    assume n: "chunkStartOff r1 \<noteq> 0"
    obtain st r2 where "ChunkedDecode True r1 = Some (st, r2)" "chunkStartOff r2 \<noteq> 0" using body_chunk [OF r1(1) n] by metis
    then show False
      using bp(1) n assms(2) content_ready_keeps(7) [of io s1 "r2\<lparr>rlength := chunkWriteOff r2 - coff r2\<rparr>" SOCK_READY s' r']
      by (auto simp: body_parse_def Let_def split: if_splits)
  qed
  then have "rlength r1 \<le> avail r1" "content_ready io (s1, r1) = Some (SOCK_READY, s', r')" using bp(1) by (auto simp: body_parse_def split: if_splits)
  then show ?thesis using that res(1) y bp(2) r1 c by blast
qed

definition body_text :: "Request \<Rightarrow> string" where
  "body_text r = (case content r of C_Buf i \<Rightarrow> take (rlength r) (drop i (rbuf r)) | _ \<Rightarrow> [])"

text \<open>A request that waits with the bytes of the next message in its buffer.\<close>

definition pending :: "string \<Rightarrow> Request \<Rightarrow> bool" where
  "pending x r \<longleftrightarrow> rbuf r = x \<and> leftover r = length x \<and> new_request (r\<lparr>rbuf := [], leftover := 0\<rparr>) \<and> rq_line (request r) = None"

lemma hdrs_ok_trunc: "hdrs_ok hs \<Longrightarrow> hdrs_ok (Ns_SetTrunc hs 0)"
  by (auto simp: hdrs_ok_def set_ok_def set_wf_def Ns_SetTrunc_def nocase_def)

lemma RequestFree_pending:
  assumes "keep s" "length (rbuf r) = n + length x" "avail r - contentLength r = length x" "contentLength r < avail r" "hdrs_ok (headers r)"
    and "drop n (rbuf r) = x \<and> savedChar r = NUL_char \<or> drop n (rbuf r) = NUL_char # tl x \<and> savedChar r = hd x"
  shows "\<exists>r3. RequestFree (s, r) = Some (s\<lparr>poolPtr := None\<rparr>, Some r3) \<and> pending x r3"
proof -
  have x: "x \<noteq> []" using assms(3,4) by auto
  have d: "drop (length (rbuf r) - (avail r - contentLength r)) (rbuf r) = drop n (rbuf r)" using assms(2,3) by simp
  have b: "(if savedChar r \<noteq> NUL_char then savedChar r # tl (drop n (rbuf r)) else drop n (rbuf r)) = x"
    using assms(6) x by (cases x) auto
  note b' = b [folded d]
  have rq: "rq_line (if rq_line (request r) \<noteq> None then Ns_ResetRequest (request r) else request r) = None"
    by (simp add: Ns_ResetRequest_def request_zero_def)
  show ?thesis
    using assms(1-4) x hdrs_ok_trunc [OF assms(5)] rq unfolding RequestFree_def pending_def new_request_def head_inv_def rd_inv_def
    by (simp add: Let_def b' split del: if_split)
qed

lemma pipelined_parse:
  assumes "new_request r" "tfd s = None" "\<not> tfile s" "SockParse E drv io (s, input t r) = Some (SOCK_READY, s', r')"
    and "chunkStartOff r' = 0" "avail r' = rlength r'"
  obtains r'' where "SockParse E drv io (s, input (t @ x) r) = Some (SOCK_READY, s', r'')" "request r'' = request r'" "headers r'' = headers r'"
    "body_text r'' = body_text r'" "x \<noteq> [] \<longrightarrow> (\<forall>s2. keep s2 \<longrightarrow> (\<exists>r3. RequestFree (s2, r'') = Some (s2\<lparr>poolPtr := None\<rparr>, Some r3) \<and> pending x r3))"
proof -
  have inv: "head_inv (input t r) \<or> body_inv (input t r)" "hdrs_ok (headers (input t r))" using assms(1) input_inv by (auto simp: new_request_def)
  obtain s1 r1 where r1: "header_lines E drv s (input t r) = Some (Inr (s1, r1))" "rq_line (request r1) \<noteq> None" "body_inv r1" "chunkStartOff r1 = 0"
    "rlength r1 \<le> avail r1" "content_ready io (s1, r1) = Some (SOCK_READY, s', r')" "same_store (s, input t r) (s1, r1)" "hdrs_ok (headers r1)"
    using SockParse_ready [OF assms(4,5) inv] .
  have f: "tfd s1 = None" "\<not> tfile s1" using r1(7) assms(2,3) by (auto simp: same_store_def)
  have b: "rd_inv r1" "coff r1 = roff r1" "contentLength r1 = rlength r1" "savedChar r1 = NUL_char" using r1(3,4) by (auto simp: body_inv_def)
  have i: "rd_inv (input x r1)" "coff (input x r1) = roff (input x r1)" "rlength (input x r1) \<le> avail (input x r1)" using b r1(5) rd_inv_input by auto
  note cr = content_ready_buffer [OF f b(1,2) r1(5), of io] content_ready_buffer [OF f i, of io]
  have r': "s' = s1" "avail r1 = rlength r1" using cr(1) r1(6) assms(6) by (auto split: if_splits)
  have len: "length (rbuf r1) = coff r1 + rlength r1" using b(1,2) r'(2) by (simp add: rd_inv_def)
  define r'' where "r'' = snd (snd (the (content_ready io (s1, input x r1))))"
  have p: "content_ready io (s1, input x r1) = Some (SOCK_READY, s1, r'')" unfolding r''_def cr(2) by simp
  have "header_lines E drv s (input (t @ x) r) = Some (Inr (s1, input x r1))" using header_lines_input [OF inv r1(1), of x] by simp
  then have 1: "SockParse E drv io (s, input (t @ x) r) = Some (SOCK_READY, s', r'')"
    using r1(2,4,5) r'(1) p by (auto simp: SockParse_def body_parse_def)
  have k: "request r'' = request r'" "headers r'' = headers r'" "contentLength r'' = rlength r1" "headers r'' = headers r1"
    using content_ready_keeps [OF p] content_ready_keeps [OF r1(6)] b(3) by simp_all
  have up: "take n (drop i (B[j := c])) = take n (drop i B)" if "i + n \<le> j" for n i j and B :: string and c
    using that by (simp add: drop_update_swap take_update_cancel)
  have nc: "(rbuf r1)[coff r1 + rlength r1 := NUL_char] = rbuf r1" using len by (simp add: list_update_beyond)
  have bt: "body_text r'' = take (rlength r1) (drop (coff r1) (rbuf r1))" "body_text r' = take (rlength r1) (drop (coff r1) (rbuf r1))"
    using cr p r1(6) len by (auto simp: body_text_def set0_def up nc split: if_splits)
  have "\<exists>r3. RequestFree (s2, r'') = Some (s2\<lparr>poolPtr := None\<rparr>, Some r3) \<and> pending x r3" if "x \<noteq> []" "keep s2" for s2
  proof (rule RequestFree_pending [where n = "length (rbuf r1)"])
    have av: "avail r'' = rlength r1 + length x" using cr(2) p r'(2) by (auto split: if_splits)
    then show "avail r'' - contentLength r'' = length x" "contentLength r'' < avail r''" using that(1) k(3) by simp_all
    show "length (rbuf r'') = length (rbuf r1) + length x" using content_ready_keeps(9) [OF p] by simp
    show "hdrs_ok (headers r'')" using k(4) r1(8) by simp
    show "drop (length (rbuf r1)) (rbuf r'') = x \<and> savedChar r'' = NUL_char \<or> drop (length (rbuf r1)) (rbuf r'') = NUL_char # tl x \<and> savedChar r'' = hd x"
      using cr(2) p b(4) len that(1) by (cases x) (auto simp: set0_def at0_def list_update_append nth_append split: if_splits)
  qed (use that in simp)
  then show ?thesis using that 1 k(1,2) bt by metis
qed

lemma SockRead_pending:
  assumes "pending x r" "x \<noteq> []" "tfd s = None" "io_state io = NS_SOCK_READ" "length x < maxinput drv" "\<not> drv_noparse drv"
  shows "SockRead E drv io sp (s, Some r) = SockParse E drv io (s, input x (r\<lparr>rbuf := [], leftover := 0\<rparr>))"
proof -
  have p: "rbuf r = x" "leftover r = length x" "rlength r = 0" "coff r = 0" "woff r = 0" "length x > 0"
    using assms(1,2) by (auto simp: pending_def new_request_def head_inv_def)
  then have "spool_start drv io sp (s, r) = Inr (s, r)" by (simp add: spool_start_def)
  moreover have "\<exists>n. read_size drv r = Some (Some n)" using p assms(5) by (auto simp: read_size_def Let_def)
  ultimately show ?thesis
    using p assms(3,4,6) by (auto simp: SockRead_def NsSockEnsureRequest_def recv_result_def received_def Let_def input_def)
qed


definition first_text :: string where
  "first_text = ''POST /a HTTP/1.1'' @ CRLF @ ''content-length: 2'' @ CRLF @ CRLF @ ''xy''"


subsection \<open>Reading\<close>

text \<open>The contract of a driver's receive function: not more bytes than asked for, and bytes when it reports a readable socket.\<close>

definition io_ok :: "sock_io \<Rightarrow> bool" where
  "io_ok io \<longleftrightarrow> (\<forall>n b. io_recv io n = Some b \<longrightarrow> length b \<le> n) \<and> (io_state io = NS_SOCK_READ \<longrightarrow> (\<forall>n. io_recv io n \<noteq> None))"

text \<open>The bytes a call receives.\<close>

definition got :: "Driver \<Rightarrow> sock_io \<Rightarrow> Sock \<Rightarrow> Request \<Rightarrow> string" where
  "got drv io s r =
     (if io_state io = NS_SOCK_READ \<or> io_state io = NS_SOCK_NONE then
        (case read_size drv r of
           Some (Some n) \<Rightarrow>
             (let spooled = (tfd s \<noteq> None \<or> coff r > 0 \<and> chunkStartOff r = 0 \<and> rlength r > readahead drv)
              in case io_recv io (if spooled then min n 16384 else n) of Some b \<Rightarrow> b | None \<Rightarrow> [])
         | _ \<Rightarrow> [])
      else [])"

text \<open>The states between the calls of \<^verbatim>\<open>SockRead\<close> for one request, with the bytes received so far. After \<^verbatim>\<open>SOCK_SPOOL\<close> the spooler thread goes on.\<close>

inductive reading :: "'e drv_env \<Rightarrow> Driver \<Rightarrow> Sock \<Rightarrow> Request \<Rightarrow> string \<Rightarrow> Sock \<Rightarrow> Request \<Rightarrow> bool" for E drv s0 r0 where
  start: "reading E drv s0 r0 [] s0 r0"
| more: "reading E drv s0 r0 t s r \<Longrightarrow> io_ok io \<Longrightarrow> SockRead E drv io sp (s, Some r) = Some (SOCK_MORE, s', r') \<Longrightarrow>
    reading E drv s0 r0 (t @ got drv io s r) s' r'"
| spool: "reading E drv s0 r0 t s r \<Longrightarrow> io_ok io \<Longrightarrow> SockRead E drv io sp (s, Some r) = Some (SOCK_SPOOL, s', r') \<Longrightarrow> reading E drv s0 r0 t s' r'"

text \<open>The state when everything stays in memory.\<close>

definition mem_state :: "'e drv_env \<Rightarrow> Driver \<Rightarrow> Sock \<Rightarrow> Request \<Rightarrow> string \<Rightarrow> Sock \<Rightarrow> Request \<Rightarrow> bool" where
  "mem_state E drv s0 r0 t s r \<longleftrightarrow> (head_inv r \<or> body_inv r) \<and> hdrs_ok (headers r) \<and> tfd s = None \<and> \<not> tfile s \<and> leftover r = 0
     \<and> woff r = length (rbuf r) \<and> (coff r > 0 \<longrightarrow> rq_line (request r) \<noteq> None \<and> (chunkStartOff r = 0 \<longrightarrow> avail r < rlength r))
     \<and> (expectedLength r = 0 \<longrightarrow> (\<forall>io b. SockParse E drv io (s0, input (t @ b) r0) = SockParse E drv io (s, input b r)))"

text \<open>The same state with the content in a file.\<close>

definition spooled :: "Sock \<Rightarrow> Request \<Rightarrow> Sock \<Rightarrow> Request \<Rightarrow> bool" where
  "spooled s1 r1 s r \<longleftrightarrow> coff r1 > 0 \<and> chunkStartOff r1 = 0
     \<and> (\<exists>tf B. s = s1\<lparr>tfd := Some (drop (coff r1) (rbuf r1)), tfile := tf\<rparr> \<and> r = r1\<lparr>rbuf := B\<rparr>)"

definition read_state :: "'e drv_env \<Rightarrow> Driver \<Rightarrow> Sock \<Rightarrow> Request \<Rightarrow> string \<Rightarrow> Sock \<Rightarrow> Request \<Rightarrow> bool" where
  "read_state E drv s0 r0 t s r \<longleftrightarrow> length (rbuf r) \<le> maxinput drv
     \<and> (\<exists>s1 r1. mem_state E drv s0 r0 t s1 r1 \<and> (s = s1 \<and> r = r1 \<or> spooled s1 r1 s r))"

lemma SockParse_line:
  assumes "SockParse E drv io (s, r) = Some (SOCK_MORE, s', r')" "head_inv r \<or> body_inv r" "hdrs_ok (headers r)" "coff r' > 0"
  shows "rq_line (request r') \<noteq> None"
proof -
  obtain res where res: "header_lines E drv s r = Some res"
      "\<forall>s' r'. res = Inl (SOCK_MORE, s', r') \<longrightarrow> head_inv r' \<and> hdrs_ok (headers r') \<and> same_store (s, r) (s', r') \<and> next_line r' = None"
      "\<forall>s' r'. res = Inr (s', r') \<longrightarrow> body_inv r' \<and> hdrs_ok (headers r') \<and> same_store (s, r) (s', r')"
    using header_lines_inv [OF assms(2,3)] by blast
  show ?thesis
  proof (cases res)
    case (Inl x)
    then show ?thesis using assms(1,4) res(1,2) by (auto simp: SockParse_def head_inv_def)
  next
    case (Inr y)
    obtain s1 r1 where y: "y = (s1, r1)" by force
    then have "body_parse io (s1, r1) = Some (SOCK_MORE, s', r')" "rq_line (request r1) \<noteq> None" "body_inv r1"
      using assms(1) res(1,3) Inr by (auto simp: SockParse_def split: if_splits)
    then show ?thesis using rest_eqD(1) [OF body_parse_more(2)] by metis
  qed
qed

lemma mem_state_more:
  assumes "mem_state E drv s0 r0 t s r" "SockParse E drv io (s, input b r) = Some (SOCK_MORE, s', r')"
  shows "mem_state E drv s0 r0 (t @ b) s' r'" "length (rbuf r') = length (rbuf r) + length b" "coff r' > 0 \<Longrightarrow> chunkStartOff r' = 0 \<Longrightarrow> rbuf r' = rbuf r @ b"
proof -
  have inv: "head_inv (input b r) \<or> body_inv (input b r)" "hdrs_ok (headers (input b r))" using assms(1) input_inv by (auto simp: mem_state_def)
  note sp = SockParse_split [OF assms(2) inv]
  have e: "expectedLength r = 0" if "expectedLength r' = 0"
  proof (cases "body_inv r")
    case True
    then show ?thesis
      using SockParse_total [OF inv, of s E drv io] assms that input_inv(2) [of r b] by (auto simp: mem_state_def)
  qed (use assms(1) in \<open>auto simp: mem_state_def head_inv_def\<close>)
  have "SockParse E drv io' (s0, input ((t @ b) @ c) r0) = SockParse E drv io' (s', input c r')" if z: "expectedLength r' = 0" for io' c
    using assms(1) e [OF z] sp(7) [OF z, of io' c] by (simp add: mem_state_def)
  then show "mem_state E drv s0 r0 (t @ b) s' r'"
    using sp(1-6,8) SockParse_line [OF assms(2) inv] assms(1) by (auto simp: mem_state_def)
  show "length (rbuf r') = length (rbuf r) + length b" "coff r' > 0 \<Longrightarrow> chunkStartOff r' = 0 \<Longrightarrow> rbuf r' = rbuf r @ b" using sp(6,9) by auto
qed

text \<open>The content of a complete request, wherever it is.\<close>

definition content_of :: "Sock \<Rightarrow> Request \<Rightarrow> string" where
  "content_of s r =
     (if tfile s then (case tfd s of Some f \<Rightarrow> f | None \<Rightarrow> [])
      else case content r of
        C_Buf i \<Rightarrow> take (rlength r) (drop i (rbuf r))
      | C_Map \<Rightarrow> (case taddr s of Some m \<Rightarrow> take (rlength r) m | None \<Rightarrow> [])
      | C_Null \<Rightarrow> [])"

definition same_message :: "Sock \<Rightarrow> Request \<Rightarrow> Request \<Rightarrow> bool" where
  "same_message s r r2 \<longleftrightarrow> request r = request r2 \<and> headers r = headers r2 \<and> rlength r = rlength r2 \<and> content_of s r = body_text r2"

lemma content_ready_mem:
  assumes "content_ready io (s, r) = Some (st, s', r')" "tfd s = None" "\<not> tfile s"
  shows "content_of s' r' = body_text r'" "st = SOCK_READY"
  using assms by (auto simp: content_ready_def terminate_content_def content_of_def body_text_def split: if_splits)

lemma SockParse_mem_ready:
  assumes "SockParse E drv io (s, r) = Some (SOCK_READY, s', r')" "tfd s = None" "\<not> tfile s" "head_inv r \<or> body_inv r" "hdrs_ok (headers r)"
  shows "same_message s' r' r'"
proof -
  obtain res where res: "header_lines E drv s r = Some res"
      "\<forall>s' r'. res = Inr (s', r') \<longrightarrow> body_inv r' \<and> hdrs_ok (headers r') \<and> same_store (s, r) (s', r')"
    using header_lines_inv [OF assms(4,5)] by blast
  have "\<nexists>x. res = Inl x" using res(1) assms(1) header_lines_not_ready [of E drv s r] by (auto simp: SockParse_def)
  then obtain s1 r1 where y: "res = Inr (s1, r1)" by (cases res) auto
  have f: "tfd s1 = None" "\<not> tfile s1" using res(2) y assms(2,3) by (auto simp: same_store_def)
  have "body_parse io (s1, r1) = Some (SOCK_READY, s', r')" using assms(1) res(1) y by (auto simp: SockParse_def split: if_splits)
  then have "\<exists>r2. content_ready io (s1, r2) = Some (SOCK_READY, s', r')"
    by (auto simp: body_parse_def Let_def split: if_splits option.splits)
  then show ?thesis using content_ready_mem(1) [OF _ f] by (auto simp: same_message_def)
qed

lemma received_mem:
  assumes "mem_state E drv s0 r0 t s r" "length (rbuf r) + length b \<le> maxinput drv" "\<not> drv_noparse drv"
  shows "\<exists>st s' r'. received E drv io (length (rbuf r)) b (s, r) = Some (st, s', r')
    \<and> (st = SOCK_MORE \<longrightarrow> read_state E drv s0 r0 (t @ b) s' r')
    \<and> (st = SOCK_READY \<longrightarrow> expectedLength r' = 0 \<longrightarrow>
        (\<exists>s2 r2. SockParse E drv io (s0, input (t @ b) r0) = Some (SOCK_READY, s2, r2) \<and> same_message s' r' r2))"
proof -
  have m: "head_inv r \<or> body_inv r" "hdrs_ok (headers r)" "tfd s = None" "\<not> tfile s" "woff r = length (rbuf r)" using assms(1) by (auto simp: mem_state_def)
  have inv: "head_inv (input b r) \<or> body_inv (input b r)" "hdrs_ok (headers (input b r))" using m(1,2) input_inv by auto
  have rc: "received E drv io (length (rbuf r)) b (s, r) = SockParse E drv io (s, input b r)"
    using m(3,5) assms(3) by (simp add: received_def Let_def input_def)
  obtain st s' r' where p: "SockParse E drv io (s, input b r) = Some (st, s', r')" "body_inv (input b r) \<longrightarrow> expectedLength r' = expectedLength r"
    using SockParse_total [OF inv m(3,4), of E drv io] by auto
  have "read_state E drv s0 r0 (t @ b) s' r'" if st: "st = SOCK_MORE"
    using mem_state_more(1,2) [OF assms(1) p(1) [unfolded st]] assms(2) by (auto simp: read_state_def)
  moreover have "\<exists>s2 r2. SockParse E drv io (s0, input (t @ b) r0) = Some (SOCK_READY, s2, r2) \<and> same_message s' r' r2"
    if "st = SOCK_READY" "expectedLength r' = 0"
  proof -
    have "expectedLength r = 0" using p(2) inv(1) that(2) by (auto simp: head_inv_def)
    then have "SockParse E drv io (s0, input (t @ b) r0) = SockParse E drv io (s, input b r)" using assms(1) by (auto simp: mem_state_def)
    then show ?thesis using p(1) that(1) SockParse_mem_ready [OF _ m(3,4) inv, of E drv io s' r'] by auto
  qed
  ultimately show ?thesis using rc p(1) by auto
qed

lemma content_ready_file:
  assumes "content_ready io (s, r) = Some (SOCK_READY, s', r')" "tfd s = Some F" "length F = rlength r" "rlength r > 0" "io_write io"
  shows "content_of s' r' = F"
proof -
  have "take (rlength r) ((F @ [NUL_char])[rlength r := NUL_char]) = F" using assms(3) by (simp add: take_update_cancel)
  then show ?thesis
    using assms by (auto simp: content_ready_def terminate_content_def content_of_def set0_def Let_def split: if_splits)
qed

lemma received_spooled:
  assumes "mem_state E drv s0 r0 t s1 r1" "spooled s1 r1 s r" "length b \<le> rlength r1 - avail r1" "length (rbuf r) \<le> maxinput drv" "\<not> drv_noparse drv"
    and "received E drv io n b (s, r) = Some (st, s', r')"
  shows "(st = SOCK_MORE \<longrightarrow> read_state E drv s0 r0 (t @ b) s' r')
    \<and> (st = SOCK_READY \<longrightarrow> (\<exists>s2 r2. SockParse E drv io (s0, input (t @ b) r0) = Some (SOCK_READY, s2, r2) \<and> same_message s' r' r2))"
proof (cases "io_write io")
  case True
  have m: "head_inv r1 \<or> body_inv r1" "hdrs_ok (headers r1)" "tfd s1 = None" "\<not> tfile s1" "woff r1 = length (rbuf r1)"
      "coff r1 > 0 \<longrightarrow> rq_line (request r1) \<noteq> None \<and> (chunkStartOff r1 = 0 \<longrightarrow> avail r1 < rlength r1)"
    using assms(1) by (auto simp: mem_state_def)
  obtain tf B where sp: "s = s1\<lparr>tfd := Some (drop (coff r1) (rbuf r1)), tfile := tf\<rparr>" "r = r1\<lparr>rbuf := B\<rparr>" "coff r1 > 0" "chunkStartOff r1 = 0"
    using assms(2) by (auto simp: spooled_def)
  have l: "rq_line (request r1) \<noteq> None" "avail r1 < rlength r1" using m(6) sp(3,4) by auto
  have bi: "body_inv r1" using m(1) sp(3) by (auto simp: head_inv_def)
  then have b: "rd_inv r1" "coff r1 = roff r1" "expectedLength r1 = 0" "content r1 = C_Null" using sp(4) by (auto simp: body_inv_def)
  define s2 where "s2 = s\<lparr>tfd := Some (drop (coff r1) (rbuf r1) @ b)\<rparr>"
  define r2 where "r2 = r\<lparr>woff := woff r + length b, avail := avail r + length b\<rparr>"
  have "header_lines E drv s2 r2 = Some (Inr (s2, r2))" using sp(2,3) by (simp add: header_lines.simps r2_def)
  then have "received E drv io n b (s, r) = body_parse io (s2, r2)"
    using sp True assms(5) l(1) by (auto simp: received_def Let_def SockParse_def s2_def r2_def)
  then have bp: "body_parse io (s2, r2) = Some (st, s', r')" using assms(6) by simp
  have "header_lines E drv s1 (input b r1) = Some (Inr (s1, input b r1))" using sp(3) by (simp add: header_lines.simps)
  then have mp: "SockParse E drv io (s1, input b r1) = body_parse io (s1, input b r1)" using l(1) by (auto simp: SockParse_def)
  show ?thesis
  proof (cases "avail r1 + length b < rlength r1")
    case less: True
    then have st: "st = SOCK_MORE" "s' = s2" "r' = r2" using bp sp(2,4) by (auto simp: body_parse_def r2_def)
    have "SockParse E drv io (s1, input b r1) = Some (SOCK_MORE, s1, input b r1)" using mp less sp(4) by (simp add: body_parse_def)
    from mem_state_more(1) [OF assms(1) this] have "mem_state E drv s0 r0 (t @ b) s1 (input b r1)" .
    moreover have "spooled s1 (input b r1) s2 r2"
    proof -
      have "coff r1 \<le> length (rbuf r1)" using b(1,2) by (simp add: rd_inv_def)
      then have "s2 = s1\<lparr>tfd := Some (drop (coff r1) (rbuf r1 @ b)), tfile := tf\<rparr>" using sp(1) by (simp add: s2_def)
      moreover have "r2 = (input b r1)\<lparr>rbuf := B\<rparr>" using sp(2) by (simp add: r2_def input_def)
      ultimately show ?thesis unfolding spooled_def using sp(3,4) by auto
    qed
    ultimately show ?thesis using st assms(4) unfolding read_state_def r2_def by auto
  next
    case False
    then have a: "avail r1 + length b = rlength r1" using assms(3) l(2) by simp
    have cr: "content_ready io (s2, r2) = Some (st, s', r')" using bp False sp(2,4) by (auto simp: body_parse_def r2_def)
    have i: "rd_inv (input b r1)" "coff (input b r1) = roff (input b r1)" "rlength (input b r1) \<le> avail (input b r1)"
      using b a rd_inv_input by auto
    note cb = content_ready_buffer [OF m(3,4) i, of io]
    have "SockParse E drv io (s0, input (t @ b) r0) = SockParse E drv io (s1, input b r1)" using assms(1) b(3) by (auto simp: mem_state_def)
    also have "\<dots> = content_ready io (s1, input b r1)" using mp a sp(4) by (simp add: body_parse_def)
    finally have p: "SockParse E drv io (s0, input (t @ b) r0) = content_ready io (s1, input b r1)" .
    define rm where "rm = snd (snd (the (content_ready io (s1, input b r1))))"
    have rm: "content_ready io (s1, input b r1) = Some (SOCK_READY, s1, rm)" unfolding rm_def cb by simp
    have len: "length (rbuf r1 @ b) = coff r1 + rlength r1" using b(1,2) a by (simp add: rd_inv_def)
    then have nc: "(rbuf r1 @ b)[coff r1 + rlength r1 := NUL_char] = rbuf r1 @ b" by (simp add: list_update_beyond)
    have bt: "body_text rm = drop (coff r1) (rbuf r1) @ b"
      using rm cb len nc b(1,2) l(2) by (auto simp: body_text_def set0_def rd_inv_def split: if_splits)
    have flen: "length (drop (coff r1) (rbuf r1) @ b) = rlength r1" using len b(1,2) by (simp add: rd_inv_def)
    have "content_of s' r' = drop (coff r1) (rbuf r1) @ b" if "st = SOCK_READY"
      using content_ready_file [of io s2 r2 s' r' "drop (coff r1) (rbuf r1) @ b"] cr that True flen l(2) sp(2)
      by (simp add: s2_def r2_def)
    then show ?thesis
      using p rm bt content_ready_keeps [OF cr] content_ready_keeps [OF rm] content_ready_not_more [OF cr] sp(2)
      by (auto simp: same_message_def r2_def)
  qed
next
  case False
  then show ?thesis using assms(2,6) by (auto simp: received_def Let_def spooled_def)
qed

lemma received_None:
  assumes "mem_state E drv s0 r0 t s1 r1" "spooled s1 r1 s r" "\<not> drv_noparse drv" "received E drv io n b (s, r) = None"
    "length (drop (coff r1) (rbuf r1)) = avail r1" "length b \<le> rlength r1 - avail r1"
  shows "\<not> io_mmap io"
proof
  assume mm: "io_mmap io"
  have l: "rq_line (request r1) \<noteq> None" "avail r1 < rlength r1" using assms(1,2) by (auto simp: mem_state_def spooled_def)
  obtain tf B where sp: "s = s1\<lparr>tfd := Some (drop (coff r1) (rbuf r1)), tfile := tf\<rparr>" "r = r1\<lparr>rbuf := B\<rparr>" "coff r1 > 0" "chunkStartOff r1 = 0"
    using assms(2) by (auto simp: spooled_def)
  define s2 where "s2 = s\<lparr>tfd := Some (drop (coff r1) (rbuf r1) @ b)\<rparr>"
  define r2 where "r2 = r\<lparr>woff := woff r + length b, avail := avail r + length b\<rparr>"
  have w: "io_write io" using assms(4) sp(1) by (simp add: received_def Let_def split: if_splits)
  have "header_lines E drv s2 r2 = Some (Inr (s2, r2))" using sp(2,3) by (simp add: header_lines.simps r2_def)
  then have "received E drv io n b (s, r) = body_parse io (s2, r2)"
    using sp w assms(3) l(1) by (auto simp: received_def Let_def SockParse_def s2_def r2_def)
  then have bp: "body_parse io (s2, r2) = None" using assms(4) by simp
  then have "\<not> avail r1 + length b < rlength r1" "content_ready io (s2, r2) = None" using sp(2,4) by (auto simp: body_parse_def r2_def split: if_splits)
  then have "content_ready io (s2, r2) = None" "rlength r2 = length (drop (coff r1) (rbuf r1) @ b)" using assms(5,6) l(2) sp(2) by (auto simp: r2_def)
  then show False using mm w by (auto simp: content_ready_def terminate_content_def s2_def Let_def split: if_splits)
qed

lemma read_size_ok:
  assumes "length (rbuf r) \<le> maxinput drv" "rlength r \<noteq> 0 \<longrightarrow> avail r \<le> rlength r"
  shows "read_size drv r = Some None \<or> (\<exists>n. read_size drv r = Some (Some n) \<and> length (rbuf r) + n \<le> maxinput drv \<and> (rlength r \<noteq> 0 \<longrightarrow> n \<le> rlength r - avail r))"
  using assms by (auto simp: read_size_def Let_def)

text \<open>What the bytes of a call make of the state, and one call of \<^verbatim>\<open>SockRead\<close>.\<close>

definition progress :: "'e drv_env \<Rightarrow> Driver \<Rightarrow> sock_io \<Rightarrow> Sock \<Rightarrow> Request \<Rightarrow> string \<Rightarrow> (SockState \<times> Sock \<times> Request) option \<Rightarrow> bool" where
  "progress E drv io s0 r0 t res =
     (case res of
        None \<Rightarrow> \<not> io_mmap io
      | Some (st, s', r') \<Rightarrow> st \<noteq> SOCK_SPOOL \<and> (st = SOCK_MORE \<longrightarrow> read_state E drv s0 r0 t s' r')
          \<and> (st = SOCK_READY \<longrightarrow> expectedLength r' = 0 \<longrightarrow>
              (\<exists>s2 r2. SockParse E drv io (s0, input t r0) = Some (SOCK_READY, s2, r2) \<and> same_message s' r' r2)))"

lemma received_progress:
  assumes "mem_state E drv s0 r0 t s1 r1" "s = s1 \<and> r = r1 \<and> length (rbuf r) + length b \<le> maxinput drv
      \<or> spooled s1 r1 s r \<and> length b \<le> rlength r1 - avail r1 \<and> length (rbuf r) \<le> maxinput drv" "\<not> drv_noparse drv"
  shows "progress E drv io s0 r0 (t @ b) (received E drv io (length (rbuf r)) b (s, r))"
proof -
  have ns: "st \<noteq> SOCK_SPOOL" if "received E drv io (length (rbuf r)) b (s, r) = Some (st, s', r')" for st s' r'
    using that assms(3) by (auto simp: received_def Let_def dest: SockParse_result split: if_splits option.splits)
  show ?thesis
    using assms(2)
  proof
    assume "s = s1 \<and> r = r1 \<and> length (rbuf r) + length b \<le> maxinput drv"
    then show ?thesis using received_mem [OF assms(1), of b io] assms(3) ns by (auto simp: progress_def)
  next
    assume sp: "spooled s1 r1 s r \<and> length b \<le> rlength r1 - avail r1 \<and> length (rbuf r) \<le> maxinput drv"
    have "rd_inv r1 \<and> coff r1 = roff r1" using assms(1) sp by (auto simp: mem_state_def spooled_def head_inv_def body_inv_def)
    then have len: "length (drop (coff r1) (rbuf r1)) = avail r1" by (auto simp: rd_inv_def)
    show ?thesis
    proof (cases "received E drv io (length (rbuf r)) b (s, r)")
      case None
      then show ?thesis using received_None [OF assms(1) _ assms(3) None len] sp by (simp add: progress_def)
    next
      case (Some x)
      then show ?thesis using received_spooled [OF assms(1) _ _ _ assms(3), of s r b io] sp ns by (cases x) (auto simp: progress_def)
    qed
  qed
qed

lemma spool_start_state:
  assumes "spool_start drv io sp (s, r) = Inr (s2, r2)"
  shows "s2 = s \<and> r2 = r \<and> (tfd s = None \<longrightarrow> \<not> (coff r > 0 \<and> chunkStartOff r = 0 \<and> rlength r > readahead drv))
    \<or> tfd s = None \<and> coff r > 0 \<and> chunkStartOff r = 0 \<and> rlength r > readahead drv \<and> r2 = r\<lparr>rbuf := []\<rparr>
      \<and> (\<exists>tf. s2 = s\<lparr>tfd := Some (drop (coff r) (rbuf r)), tfile := tf\<rparr>)"
proof (cases "coff r > 0 \<and> chunkStartOff r = 0 \<and> rlength r > readahead drv \<and> tfd s = None")
  case True
  have "r2 = r\<lparr>rbuf := []\<rparr> \<and> (\<exists>tf. s2 = s\<lparr>tfd := Some (drop (coff r) (rbuf r)), tfile := tf\<rparr>)"
  proof (cases "maxupload drv > 0 \<and> rlength r > maxupload drv")
    case big: True
    then have "s2 = s\<lparr>tfd := Some (drop (coff r) (rbuf r)), tfile := True\<rparr> \<and> r2 = r\<lparr>rbuf := []\<rparr>"
      using assms True by (auto simp: spool_start_def Let_def split: if_split_asm)
    then show ?thesis by blast
  next
    case small: False
    then have "s2 = s\<lparr>tfd := Some (drop (coff r) (rbuf r))\<rparr> \<and> r2 = r\<lparr>rbuf := []\<rparr>"
      using assms True by (auto simp: spool_start_def Let_def split: if_split_asm)
    then show ?thesis by (intro conjI exI [of _ "tfile s"]) simp_all
  qed
  then show ?thesis using True by blast
qed (use assms in \<open>auto simp: spool_start_def\<close>)

lemma spooledD:
  assumes "spooled s1 r1 s r"
  shows "rlength r = rlength r1" "avail r = avail r1" "coff r = coff r1" "chunkStartOff r = chunkStartOff r1" "leftover r = leftover r1" "tfd s \<noteq> None"
    "coff r1 > 0" "chunkStartOff r1 = 0" "spooled s1 r1 s (r\<lparr>rbuf := B\<rparr>)"
proof -
  obtain tf C where s: "s = s1\<lparr>tfd := Some (drop (coff r1) (rbuf r1)), tfile := tf\<rparr>" and r: "r = r1\<lparr>rbuf := C\<rparr>" using assms by (auto simp: spooled_def)
  show "rlength r = rlength r1" "avail r = avail r1" "coff r = coff r1" "chunkStartOff r = chunkStartOff r1" "leftover r = leftover r1" "tfd s \<noteq> None"
    by (simp_all add: r s)
  show "coff r1 > 0" "chunkStartOff r1 = 0" using assms by (simp_all add: spooled_def)
  have "r\<lparr>rbuf := B\<rparr> = r1\<lparr>rbuf := B\<rparr>" by (simp add: r)
  then show "spooled s1 r1 s (r\<lparr>rbuf := B\<rparr>)" using assms s unfolding spooled_def by blast
qed

lemma read_state_facts:
  assumes "read_state E drv s0 r0 t s r"
  shows "leftover r = 0" "rlength r \<noteq> 0 \<longrightarrow> avail r \<le> rlength r" "length (rbuf r) \<le> maxinput drv"
    "tfd s = None \<Longrightarrow> mem_state E drv s0 r0 t s r"
    "tfd s \<noteq> None \<Longrightarrow> \<exists>s1 r1. mem_state E drv s0 r0 t s1 r1 \<and> spooled s1 r1 s r \<and> rlength r1 \<noteq> 0"
proof -
  obtain s1 r1 where m: "mem_state E drv s0 r0 t s1 r1" "s = s1 \<and> r = r1 \<or> spooled s1 r1 s r" using assms by (auto simp: read_state_def)
  have l: "coff r1 > 0 \<and> chunkStartOff r1 = 0 \<longrightarrow> avail r1 < rlength r1" "coff r1 = 0 \<or> chunkStartOff r1 \<noteq> 0 \<longrightarrow> rlength r1 = 0"
      "leftover r1 = 0" "tfd s1 = None"
    using m(1) by (auto simp: mem_state_def head_inv_def body_inv_def)
  then have a: "rlength r1 \<noteq> 0 \<longrightarrow> avail r1 \<le> rlength r1" by fastforce
  show "leftover r = 0" "rlength r \<noteq> 0 \<longrightarrow> avail r \<le> rlength r" using m(2) a l(3) spooledD(1,2,5) by metis+
  show "length (rbuf r) \<le> maxinput drv" using assms by (simp add: read_state_def)
  show "mem_state E drv s0 r0 t s r" if "tfd s = None" using m that spooledD(6) by blast
  show "\<exists>s1 r1. mem_state E drv s0 r0 t s1 r1 \<and> spooled s1 r1 s r \<and> rlength r1 \<noteq> 0" if "tfd s \<noteq> None"
  proof -
    have sp: "spooled s1 r1 s r" using m(2) that l(4) by auto
    then have "rlength r1 \<noteq> 0" using l(1) spooledD(7,8) by fastforce
    then show ?thesis using m(1) sp by blast
  qed
qed

lemma recv_progress:
  assumes "\<And>b. io_recv io m = Some b \<Longrightarrow> progress E drv io s0 r0 (t @ b) (received E drv io n b (s, r))"
    and "read_state E drv s0 r0 t s (r\<lparr>rbuf := reset\<rparr>)" "io_ok io"
    and "g = (if io_state io = NS_SOCK_READ \<or> io_state io = NS_SOCK_NONE then (case io_recv io m of Some b \<Rightarrow> b | None \<Rightarrow> []) else [])"
  shows "progress E drv io s0 r0 (t @ g) (recv_result E drv io n reset (io_recv io m) (s, r))"
proof (cases "io_state io")
  case NS_SOCK_NONE
  then show ?thesis
    using assms(1,2,4) by (cases "io_recv io m") (auto simp: recv_result_def progress_def Let_def)
next
  case NS_SOCK_READ
  then obtain b where "io_recv io m = Some b" using assms(3) unfolding io_ok_def by blast
  then show ?thesis using assms(1,4) NS_SOCK_READ by (simp add: recv_result_def Let_def)
qed (use assms(2,4) in \<open>auto simp: recv_result_def progress_def Let_def\<close>)

lemma SockRead_state:
  assumes "read_state E drv s0 r0 t s r" "io_ok io" "\<not> drv_noparse drv"
  shows "(\<exists>st x. SockRead E drv io sp (s, Some r) = Some (st, x) \<and> st \<noteq> SOCK_MORE \<and> st \<noteq> SOCK_READY \<and> (st = SOCK_SPOOL \<longrightarrow> x = (s, r)))
    \<or> progress E drv io s0 r0 (t @ got drv io s r) (SockRead E drv io sp (s, Some r))"
proof -
  note facts = read_state_facts [OF assms(1)]
  consider "read_size drv r = Some None"
    | n where "read_size drv r = Some (Some n)" "length (rbuf r) + n \<le> maxinput drv" "rlength r \<noteq> 0 \<longrightarrow> n \<le> rlength r - avail r"
    using read_size_ok [OF facts(3,2)] by blast
  then show ?thesis
  proof cases
    case 1
    then show ?thesis by (simp add: SockRead_def NsSockEnsureRequest_def)
  next
    case (2 n)
    show ?thesis
    proof (cases "spool_start drv io sp (s, r)")
      case (Inl x)
      then show ?thesis using 2(1) by (cases x) (auto simp: SockRead_def NsSockEnsureRequest_def spool_start_def Let_def split: if_splits)
    next
      case (Inr y)
      obtain s2 r2 where y: "spool_start drv io sp (s, r) = Inr (s2, r2)" using Inr by (cases y) auto
      note ss = spool_start_state [OF y]
      define m where "m = (if tfd s2 = None then n else min n 16384)"
      define reset where "reset = (if rbuf r2 = rbuf r then rbuf r else NUL_char # tl (rbuf r))"
      have lo: "leftover r2 = 0" using ss facts(1) by auto
      have sr: "SockRead E drv io sp (s, Some r) = recv_result E drv io (length (rbuf r2)) reset (io_recv io m) (s2, r2)"
        using 2(1) y lo by (simp add: SockRead_def NsSockEnsureRequest_def m_def reset_def Let_def)
      have fl: "tfd s2 = None \<longleftrightarrow> \<not> (tfd s \<noteq> None \<or> coff r > 0 \<and> chunkStartOff r = 0 \<and> rlength r > readahead drv)"
        using ss by (elim disjE conjE exE) (metis, simp)
      have g: "got drv io s r = (if io_state io = NS_SOCK_READ \<or> io_state io = NS_SOCK_NONE then (case io_recv io m of Some b \<Rightarrow> b | None \<Rightarrow> []) else [])"
        unfolding got_def 2(1) m_def fl Let_def by simp
      have mn: "length b \<le> n" if "io_recv io m = Some b" for b 
      proof -
        have "length b \<le> m" using assms(2) that unfolding io_ok_def by blast
        then show ?thesis by (simp add: m_def split: if_splits)
      qed
      have st: "\<exists>s1 r1. mem_state E drv s0 r0 t s1 r1 \<and> (s2 = s1 \<and> r2 = r1 \<and> r2 = r \<or> spooled s1 r1 s2 r2 \<and> rlength r1 \<noteq> 0 \<and> rlength r1 = rlength r \<and> avail r1 = avail r)"
        using ss
      proof
        assume a: "s2 = s \<and> r2 = r \<and> (tfd s = None \<longrightarrow> \<not> (coff r > 0 \<and> chunkStartOff r = 0 \<and> rlength r > readahead drv))"
        then show ?thesis using facts(4,5) spooledD(1,2) by (cases "tfd s = None") (blast, metis)
      next
        assume a: "tfd s = None \<and> coff r > 0 \<and> chunkStartOff r = 0 \<and> rlength r > readahead drv \<and> r2 = r\<lparr>rbuf := []\<rparr>
          \<and> (\<exists>tf. s2 = s\<lparr>tfd := Some (drop (coff r) (rbuf r)), tfile := tf\<rparr>)"
        then have "spooled s r s2 r2" unfolding spooled_def by blast
        moreover have "rlength r \<noteq> 0" "mem_state E drv s0 r0 t s r" using facts(4) a by auto
        ultimately show ?thesis by blast
      qed
      have l2: "length (rbuf r2) \<le> length (rbuf r)" "length reset \<le> maxinput drv" using ss facts(3) by (auto simp: reset_def)
      have rp: "progress E drv io s0 r0 (t @ b) (received E drv io (length (rbuf r2)) b (s2, r2))" if b: "io_recv io m = Some b" for b
      proof -
        obtain s1 r1 where s1: "mem_state E drv s0 r0 t s1 r1"
            "s2 = s1 \<and> r2 = r1 \<and> r2 = r \<or> spooled s1 r1 s2 r2 \<and> rlength r1 \<noteq> 0 \<and> rlength r1 = rlength r \<and> avail r1 = avail r" using st by blast
        show ?thesis
          by (rule received_progress [OF s1(1) _ assms(3)]) (use s1(2) mn [OF b] 2(2,3) l2 facts(3) in auto)
      qed
      have rr: "read_state E drv s0 r0 t s2 (r2\<lparr>rbuf := reset\<rparr>)"
      proof -
        obtain s1 r1 where s1: "mem_state E drv s0 r0 t s1 r1" "s2 = s1 \<and> r2 = r1 \<and> r2 = r \<or> spooled s1 r1 s2 r2" using st by blast
        have "r2\<lparr>rbuf := reset\<rparr> = r2" if "r2 = r" using that by (simp add: reset_def)
        then have "s2 = s1 \<and> r2\<lparr>rbuf := reset\<rparr> = r1 \<or> spooled s1 r1 s2 (r2\<lparr>rbuf := reset\<rparr>)" using s1(2) spooledD(9) by metis
        then show ?thesis using s1(1) l2(2) unfolding read_state_def by auto
      qed
      show ?thesis unfolding sr using recv_progress [OF rp rr assms(2) g] by blast
    qed
  qed
qed

lemma reading_state:
  assumes "reading E drv s0 r0 t s r" "new_request r0" "tfd s0 = None" "\<not> tfile s0" "\<not> drv_noparse drv"
  shows "read_state E drv s0 r0 t s r"
  using assms(1)
proof induction
  case start
  have "mem_state E drv s0 r0 [] s0 r0" using assms(2-4) by (auto simp: mem_state_def new_request_def head_inv_def)
  moreover have "length (rbuf r0) \<le> maxinput drv" using assms(2) by (simp add: new_request_def)
  ultimately show ?case unfolding read_state_def by blast
next
  case (more t s r io sp s' r')
  then show ?case using SockRead_state [OF more.IH more.hyps(2) assms(5), of sp] by (auto simp: progress_def)
next
  case (spool t s r io sp s' r')
  then show ?case using SockRead_state [OF spool.IH spool.hyps(2) assms(5), of sp] by (auto simp: progress_def)
qed


definition upload_head :: string where
  "upload_head = ''PUT / HTTP/1.1'' @ CRLF @ ''content-length: 12'' @ CRLF @ CRLF @ ''abc''"

lemma io_ok_good: "io_ok (good_io b)"
  by (auto simp: io_ok_def good_io_def)


subsection \<open>What goes wrong\<close>

text \<open>
  A chunked body is decoded in place and its bytes stay counted as available, but a chunked request has no content length: on a connection that
  is kept, the encoded body is what the next request starts with. An empty body whose last chunk has an extension is taken for a request line.
\<close>

definition chunked_text_example :: string where
  "chunked_text_example = ''POST /a HTTP/1.1'' @ CRLF @ ''transfer-encoding: chunked'' @ CRLF @ CRLF @ ''0; /evil HTTP/1.1'' @ CRLF @ CRLF"

lemma chunked_body_smuggled:
  "case SockParse plain_drv_env small_driver (good_io []) (plain_sock, input chunked_text_example empty_request) of
     None \<Rightarrow> False
   | Some (st, s, r) \<Rightarrow> st = SOCK_READY \<and> rlength r = 0
       \<and> (case NsSockClose True 1 (s, Some r) of
            Some (s, Some r) \<Rightarrow>
              (case SockRead plain_drv_env small_driver (good_io []) False (s, Some r) of
                 Some (st, s, r) \<Rightarrow> st = SOCK_READY \<and> rq_method (request r) = Some ''0;'' \<and> rq_url (request r) = Some ''/evil''
               | None \<Rightarrow> False)
          | _ \<Rightarrow> False)"
  by code_simp

text \<open>When a file cannot be mapped, the content pointer is NULL and the byte behind the content is read and written through it.\<close>

lemma mmap_failure_null:
  "tfd s = Some F \<Longrightarrow> \<not> tfile s \<Longrightarrow> \<not> io_mmap io \<Longrightarrow> content r = C_Null \<Longrightarrow> rlength r > 0 \<Longrightarrow> content_ready io (s, r) = None"
  by (simp add: content_ready_def terminate_content_def Let_def)

text \<open>A blank between the name of a field and the colon is part of the name: such a field is not taken for framing, and not refused.\<close>

lemma blank_before_colon:
  "case SockParse plain_drv_env small_driver (good_io []) (plain_sock, input (''POST /a HTTP/1.1'' @ CRLF @ ''content-length : 5'' @ CRLF @ CRLF) empty_request) of
     None \<Rightarrow> False | Some (st, s, r) \<Rightarrow> st = SOCK_READY \<and> rlength r = 0 \<and> contentLength r = 0"
  by code_simp

end
