(* ===== verification/Spec2Isabelle.thy ===== *)
theory Spec2Isabelle
  imports NsTime NsIndex NsBase64 NsStr NsSetData NsSchedRun NsCacheRun NsRange NsUrlspaceRun NsUrlencode NsPathname NsQueueProps NsRequest
    NsAuth NsContext NsUrl NsHttp NsChunk NsForwarded NsDriverRun
begin

text \<open>
  A verification development of NaviServer, a multi-threaded web server with an embedded Tcl
  interpreter.

  \<^bold>\<open>The program.\<close> Driver threads (\<^verbatim>\<open>nsd/driver.c\<close>) accept sockets and read requests; a request is put
  in the queue of a connection pool (\<^verbatim>\<open>nsd/queue.c\<close>) and served by a connection thread, which looks
  the handler up in the URL space (\<^verbatim>\<open>nsd/urlspace.c\<close>) by method and URL, runs it, and writes the
  response (\<^verbatim>\<open>nsd/return.c\<close>, \<^verbatim>\<open>nsd/connio.c\<close>, \<^verbatim>\<open>nsd/range.c\<close> for partial content). Around this core
  stand libraries that every part uses: key/value sets for headers and forms (\<^verbatim>\<open>nsd/set.c\<close>), size
  limited caches (\<^verbatim>\<open>nsd/cache.c\<close>), the scheduler of timed procedures (\<^verbatim>\<open>nsd/sched.c\<close>), sorted arrays
  (\<^verbatim>\<open>nsd/index.c\<close>), strings (\<^verbatim>\<open>nsd/str.c\<close>), base64 (\<^verbatim>\<open>nsd/uuencode.c\<close>) and time arithmetic
  (\<^verbatim>\<open>nsthread/time.c\<close>). Requests bring request lines and header fields (\<^verbatim>\<open>nsd/request.c\<close>) with URLs
  (\<^verbatim>\<open>nsd/url.c\<close>), which are percent encoded (\<^verbatim>\<open>nsd/urlencode.c\<close>), normalised and mapped to files
  (\<^verbatim>\<open>nsd/pathname.c\<close>); they pass filters and authorization (\<^verbatim>\<open>nsd/op.c\<close>, \<^verbatim>\<open>nsd/filter.c\<close>,
  \<^verbatim>\<open>nsd/auth.c\<close>), and network constraints on URLs compare addresses (\<^verbatim>\<open>nsd/sockaddr.c\<close>).

  The development follows a request through the server: from the bytes of a socket to a complete request (\<open>NsDriver\<close>), through the
  queue of a pool (\<open>NsQueue\<close>) and the life of the request (\<open>NsRequest\<close>) to the lookup in the URL space (\<open>NsUrlspace\<close>) and
  the framing of partial and chunked responses (\<open>NsRange\<close>, \<open>NsChunk\<close>), with the libraries these parts are built on.

  \<^bold>\<open>The theories.\<close>

  \<^item> \<open>NsPrelude\<close>: the part of C the sources use (character classes, \<^verbatim>\<open>strcmp\<close>, \<^verbatim>\<open>strchr\<close>), generic
    lemmas on lists, the fact collections, and the interface \<open>c_comparator\<close>, what a comparison function
    promises to a client that sorts with it.

  \<^item> \<open>NsTime\<close>: \<^verbatim>\<open>Ns_Time\<close> and its arithmetic. \<open>Ns_DiffTime_correct\<close>: the difference of two time
    points, as a normalised time, is the difference of their microseconds, with its sign.

  \<^item> \<open>NsIndex\<close>: \<^verbatim>\<open>Ns_Index\<close> with its binary searches, for any comparison function that satisfies the
    locale \<open>index_order\<close>; insertion keeps the array sorted, lookups find exactly what is there.

  \<^item> \<open>NsBase64\<close>: encoder and decoder at the byte level; decoding inverts encoding, the decoder stays
    inside its buffer, the URL variant emits only safe characters.

  \<^item> \<open>NsStr\<close>: trimming, case conversion, searching, the word-wise ASCII test (\<open>64 word\<close> loads) and the UTF-8
    validator, which is equivalent to being the encoding of Unicode scalar values.

  \<^item> \<open>NsSet\<close>: sets as lists of fields with their slot counts: put, get, find, update, delete, merge, move,
    split, unique. Properties: an invariant over every reachable set, the meaning of update and
    deletion, the priority of the first set in merges, the groups of a split. \<open>NsSetData\<close>: the same sets as
    they are stored (one buffer, fields that point into it, a buffer that moves when it grows), and a
    refinement of each storing operation to its counterpart in \<open>NsSet\<close>.

  \<^item> \<open>NsHeap\<close>: binary heaps over an array from index 1, with \<open>swim\<close> and \<open>sink\<close> for any order (locale).
    \<open>NsSched\<close>: the scheduler: event table, queue, queue ids, the times of the next run; each
    operation as a function on its state. \<open>NsSchedRun\<close>: the scheduler as a step relation; in every
    reachable state the queue and the queue ids agree and due events are ordered, an event that is due
    is fired, the event taken is the earliest, scheduling returns.

  \<^item> \<open>NsCache\<close>: a cache as its hash table and the doubly linked list through the entries, with explicit
    pointers. \<open>NsCacheRun\<close>: its reachable states represent a list of entries whose sizes sum to the size
    the cache reports; storing prunes from the least recently used end down to the limit; commit,
    rollback, flush and waiting do what they promise.

  \<^item> \<open>NsRange\<close>: the parser of the \<^verbatim>\<open>Range\<close> header, the composition of single and multipart partial
    responses as file vectors, partial writes of such vectors (\<^verbatim>\<open>nsd/sockfile.c\<close>).

  \<^item> \<open>NsUrlspace\<close>: sequences, nodes, tries, channels and junctions with all their operations, and a
    trie as a map from paths to nodes. \<open>NsUrlspaceRun\<close>: reachable URL spaces; an exact lookup finds what
    was registered, a lookup finds the longest registered prefix over all channels that apply.

  \<^item> \<open>NsUrlencode\<close>: the percent encoding of queries, paths, fragments and cookies; encoding fills exactly the space
    it reserves, decoding inverts it, query strings and paths come apart as they were put together.

  \<^item> \<open>NsPathname\<close>: normalisation and composition of paths; a normalised path holds no \<^verbatim>\<open>..\<close>, and the
    directory of a virtual host stays below the directory of the server for every accepted host name.

  \<^item> \<open>NsScan\<close>: what the parsers share, cursors as suffixes and loops over character classes.
    \<open>NsUrl\<close>: \<^verbatim>\<open>Ns_ParseUrl\<close> over a writable buffer, with relative and absolute URLs; a URL composed from its parts is taken
    apart into them.

  \<^item> \<open>NsSockaddr\<close>: address arithmetic: masks, IPv4 addresses mapped into IPv6, CIDR notation, the tables of public and trusted addresses;
    a constraint matches exactly the addresses that agree in the leading bits. \<open>NsContext\<close>: context constraints of the URL
    space over them; the longest prefix wins. \<open>NsForwarded\<close>: the client address behind reverse proxies, which the
    client cannot choose.

  \<^item> \<open>NsAuth\<close>: parsing of Basic and Digest authorization headers; what a client encodes is what the server reads.

  \<^item> \<open>NsQueue\<close>: a connection pool with its free list, waiting queue, thread queue and counters, as pointers between
    connections and thread arguments; \<^verbatim>\<open>NsQueueConn\<close> and \<^verbatim>\<open>NsConnThread\<close> cut into the steps between their
    lock operations. \<open>NsQueueRun\<close>: the interleavings of drivers and threads as a step relation, and its invariant.
    \<open>NsQueueProps\<close>: no connection is served twice or lost, every step implements a step of a specification with plain
    lists, counters are exact, nobody gets stuck, waiting requests are served; and the race in which a request stalls.

  \<^item> \<open>NsConnFlags\<close>: the connection flags shared by the driver and the request loop.
  \<^item> \<open>NsRequest\<close>: filters, authorization, traces and cleanups around the handler of a request, with all of them as
    arguments; the handler is looked up only for a request that was admitted.

  \<^item> \<open>NsHttp\<close>: request lines, the URL of a request, header lines and accepted encodings; a request line comes apart into what it was
    composed of, and the URL of an accepted request is clean. \<open>NsChunk\<close>: the in-place decoder of chunked bodies and the framing of
    chunked output; the result does not depend on how the body arrives, and the server decodes what it writes.
    \<open>NsDriver\<close>: \<^verbatim>\<open>SockRead\<close>, \<^verbatim>\<open>SockParse\<close>, \<^verbatim>\<open>EndOfHeader\<close> and \<^verbatim>\<open>RequestFree\<close>; the framing of an accepted
    request is unambiguous. \<open>NsDriverRun\<close>: parsing in pieces equals parsing at once, pipelined requests do not influence each
    other, reading never leaves the memory, and contents in files are the contents that were sent.

  \<^bold>\<open>How the model relates to the code.\<close> A struct is a record or a datatype with the fields of the
  source, an operation is a function that returns the new state and its results, in the order of the
  statements of the code; a NULL pointer is \<open>None\<close>. Where a claim depends on sharing or on pointer
  surgery, memory is explicit: addresses and a buffer in \<open>NsSetData\<close>, entry addresses with next and
  previous pointers in \<open>NsCache\<close>, positions in a store of channels in \<open>NsUrlspace\<close>, an array with queue
  ids in \<open>NsSched\<close>, pointers between connections in \<open>NsQueue\<close>, a buffer with offsets in \<open>NsUrl\<close>, \<open>NsChunk\<close> and
  \<open>NsDriver\<close>, where an access outside of the buffer or through NULL makes the result \<open>None\<close>. An operation runs while its lock is held, so it is one step; interleavings are
  sequences of steps. Machine integers are words where the code works bitwise or a width matters;
  elsewhere sizes are natural numbers, as the objects they count fit in memory.

  \<^bold>\<open>Bounds and fuel.\<close> Loops are structural or have a termination proof. A few loops carry fuel:
  \<open>alloc_id\<close> of the scheduler searches a free event id, and one more step than the table has
  entries is enough (\<open>alloc_id_total\<close>); \<open>prune_loop\<close> of the cache deletes an entry per turn, so the number of
  entries is enough (\<open>prune_loop_spec\<close>); the walks along the lists of a connection pool are bounded by its number of connections, which
  \<open>queue_progress\<close> shows to be enough. \<open>None\<close> is then never the result for a reachable state,
  which the properties state as such.

  \<^bold>\<open>Parameters.\<close> Code outside of the sources is an argument of the definitions that use it: the clock and
  \<^verbatim>\<open>localtime\<close>/\<^verbatim>\<open>mktime\<close> (scheduler), the addresses an allocator returns (sets, caches, events),
  the growth policy of \<^verbatim>\<open>Tcl_DString\<close> (sets), \<^verbatim>\<open>Tcl_StringMatch\<close> (URL space), the conversions of character
  sets (URL encoding, request URLs), \<^verbatim>\<open>inet_pton\<close> (addresses) and \<^verbatim>\<open>strtod\<close> (versions and quality values), what the
  operating system answers to receiving, temporary files and mapping (drivers), the run of a request in the queue, and the callbacks, handlers and
  responses in the life of a request. \<^verbatim>\<open>Ns_ParseHttpTime\<close> is an argument of partial content.

  \<^bold>\<open>Findings.\<close> Lemmas named after what they show record behaviour of the code that differs from its
  comments or intent, for example \<open>Ns_DiffTime_lost_carry\<close>, \<open>d_SetTrunc_loses_value\<close>,
  \<open>resume_running_queues_twice\<close>, \<open>flush_keeps_pending\<close>, \<open>range_header_anywhere\<close>,
  \<open>delete_pattern_deletes_parent\<close>, \<open>absolute_url_loses_query\<close>, \<open>urlv_not_normalised\<close>, \<open>mmap_failure_null\<close> and
  \<open>chunked_body_smuggled\<close>, where the body of one request becomes the next one.

  \<^bold>\<open>Not modelled.\<close> The threads of the drivers, spoolers and writers around \<^verbatim>\<open>poll\<close>, the calls of the operating system, TLS,
  QUIC and cryptography, whose logic is in libraries outside of the sources; the bindings to Tcl and the parsers between text
  and Tcl values (JSON, CBOR, server pages), whose results are objects of the Tcl library; configuration, logging and the loadable modules.
  Forms, cookies, response headers and HTTP dates are text processing of the kind treated here and are not modelled.
\<close>

end
